(* ===== verification/Prelude.thy ===== *)
theory Prelude
  imports "HOL-Library.Word"
begin

text \<open>
  Vocabulary shared by all components of the ChCore model: the integer types of
  \<^verbatim>\<open>kernel/common/types.h\<close>, the two ways in which a C function of the kernel fails to
  return (a \<^verbatim>\<open>BUG\<close> loop or an access outside every object), error numbers
  (\<^verbatim>\<open>errno.h\<close>), the rounding and alignment macros (\<^verbatim>\<open>macro.h\<close>), and the lemmas on
  words and bounded array accesses that the component theories share.

  A C function that returns an \<open>int\<close> status is modelled with an \<open>int\<close> result (its values are
  small), addresses and sizes are \<open>64 word\<close>, so wrap-around is the machine's.
\<close>

unbundle bit_operations_syntax

section \<open>Integer types and failure\<close>

type_synonym u8 = "8 word"
type_synonym u16 = "16 word"
type_synonym u32 = "32 word"
type_synonym u64 = "64 word"
type_synonym vaddr = u64
type_synonym paddr = u64

text \<open>
  \<open>BUG\<close>: the \<^verbatim>\<open>BUG\<close>/\<^verbatim>\<open>BUG_ON\<close> macros print and then loop for ever.
  \<open>WILD\<close>: the code reads or writes through a pointer or index outside every object, where C
  gives no meaning. Neither returns to the caller. \<open>FUEL\<close> is no outcome of the code: it marks
  that the bound on the depth of a recursion (of the capability functions) was too small, which the
  theorems exclude.
\<close>

datatype crash = BUG | WILD | FUEL

type_synonym 'a res = "crash + 'a"

definition bindR :: "'a res \<Rightarrow> ('a \<Rightarrow> 'b res) \<Rightarrow> 'b res" where
  "bindR m f = (case m of Inl e \<Rightarrow> Inl e | Inr x \<Rightarrow> f x)"

definition bug_on :: "bool \<Rightarrow> unit res" where
  "bug_on b = (if b then Inl BUG else Inr ())"

definition deref :: "'a option \<Rightarrow> 'a res" where
  "deref p = (case p of None \<Rightarrow> Inl WILD | Some x \<Rightarrow> Inr x)"

definition arr_get :: "'a list \<Rightarrow> nat \<Rightarrow> 'a res" where
  "arr_get xs i = (if i < length xs then Inr (xs ! i) else Inl WILD)"

definition arr_set :: "'a list \<Rightarrow> nat \<Rightarrow> 'a \<Rightarrow> 'a list res" where
  "arr_set xs i v = (if i < length xs then Inr (xs[i := v]) else Inl WILD)"

definition returns :: "'a res \<Rightarrow> bool" where
  "returns m \<longleftrightarrow> (case m of Inl _ \<Rightarrow> False | Inr _ \<Rightarrow> True)"

lemma bindR_simps [simp]:
  "bindR (Inl e) f = Inl e"
  "bindR (Inr x) f = f x"
  by (simp_all add: bindR_def)

lemma bindR_Inr_iff: "bindR m f = Inr y \<longleftrightarrow> (\<exists>x. m = Inr x \<and> f x = Inr y)"
  by (cases m) auto

lemma bindR_Inl_iff: "bindR m f = Inl e \<longleftrightarrow> m = Inl e \<or> (\<exists>x. m = Inr x \<and> f x = Inl e)"
  by (cases m) auto

lemma bindR_InrE [elim]:
  assumes "bindR m f = Inr y"
  obtains x where "m = Inr x" "f x = Inr y"
  using assms by (auto simp: bindR_Inr_iff)

lemma bindR_assoc: "bindR (bindR m f) g = bindR m (\<lambda>x. bindR (f x) g)"
  by (cases m) auto

lemma bindR_cong [fundef_cong]:
  "m = m' \<Longrightarrow> (\<And>x. m' = Inr x \<Longrightarrow> f x = f' x) \<Longrightarrow> bindR m f = bindR m' f'"
  by (cases m') auto

lemma bug_on_simps [simp]:
  "bug_on True = Inl BUG" "bug_on False = Inr ()"
  "bug_on b = Inr u \<longleftrightarrow> \<not> b" "bug_on b = Inl e \<longleftrightarrow> b \<and> e = BUG"
  by (auto simp: bug_on_def)

lemma deref_simps [simp]:
  "deref None = Inl WILD" "deref (Some x) = Inr x"
  "deref p = Inr y \<longleftrightarrow> p = Some y"
  by (auto simp: deref_def split: option.splits)

lemma arr_get_in [simp]: "i < length xs \<Longrightarrow> arr_get xs i = Inr (xs ! i)"
  by (simp add: arr_get_def)

lemma arr_get_Inr: "arr_get xs i = Inr v \<longleftrightarrow> i < length xs \<and> v = xs ! i"
  by (auto simp: arr_get_def)

lemma arr_set_in [simp]: "i < length xs \<Longrightarrow> arr_set xs i v = Inr (xs[i := v])"
  by (simp add: arr_set_def)

lemma arr_set_Inr: "arr_set xs i v = Inr ys \<longleftrightarrow> i < length xs \<and> ys = xs[i := v]"
  by (auto simp: arr_set_def)

lemma returns_simps [simp]: "returns (Inr x)" "\<not> returns (Inl e)"
  by (simp_all add: returns_def)

section \<open>Error numbers\<close>

definition EPERM :: int where "EPERM = 1"
definition EAGAIN :: int where "EAGAIN = 2"
definition ENOMEM :: int where "ENOMEM = 3"
definition EINVAL :: int where "EINVAL = 5"
definition ENOSYS :: int where "ENOSYS = 8"
definition ECAPBILITY :: int where "ECAPBILITY = 11"
definition ESUPPORT :: int where "ESUPPORT = 12"
definition ENOMAPPING :: int where "ENOMAPPING = 14"
definition ENOENT :: int where "ENOENT = 15"
definition EMAX :: int where "EMAX = 21"

lemmas errno_defs = EPERM_def EAGAIN_def ENOMEM_def EINVAL_def ENOSYS_def ECAPBILITY_def
  ESUPPORT_def ENOMAPPING_def ENOENT_def EMAX_def

definition ERR_PTR :: "int \<Rightarrow> u64" where
  "ERR_PTR x = word_of_int x"

definition IS_ERR :: "u64 \<Rightarrow> bool" where
  "IS_ERR x \<longleftrightarrow> sint x < 0 \<and> sint x > - EMAX"

section \<open>Rounding and alignment\<close>

definition ROUND_UP :: "u64 \<Rightarrow> u64 \<Rightarrow> u64" where
  "ROUND_UP x n = (x + n - 1) AND NOT (n - 1)"

definition ROUND_DOWN :: "u64 \<Rightarrow> u64 \<Rightarrow> u64" where
  "ROUND_DOWN x n = x AND NOT (n - 1)"

definition DIV_ROUND_UP :: "u64 \<Rightarrow> u64 \<Rightarrow> u64" where
  "DIV_ROUND_UP n d = (n + d - 1) div d"

definition IS_ALIGNED :: "u64 \<Rightarrow> u64 \<Rightarrow> bool" where
  "IS_ALIGNED x a \<longleftrightarrow> x AND (a - 1) = 0"

definition BIT :: "nat \<Rightarrow> u64" where
  "BIT x = push_bit x 1"

abbreviation PAGE_SIZE :: u64 where "PAGE_SIZE \<equiv> 0x1000"

lemma unat_exp_u64: "k < 64 \<Longrightarrow> unat (2 ^ k :: u64) = 2 ^ k"
proof -
  assume "k < 64"
  then have "(2::nat) ^ k < 2 ^ 64" by (intro power_strict_increasing) auto
  then have "unat (of_nat (2 ^ k) :: u64) = 2 ^ k" by (simp only: unat_of_nat) (simp add: take_bit_nat_eq_self)
  then show ?thesis by simp
qed

lemma unat_push_bit_1: "k < 64 \<Longrightarrow> unat (push_bit k 1 :: u64) = 2 ^ k"
  by (simp add: push_bit_eq_mult unat_exp_u64)

lemma word_and_mask_unat: "unat (x AND mask k :: 'a::len word) = unat x mod 2 ^ k"
  by (simp only: take_bit_eq_mask [symmetric] unsigned_take_bit_eq) (simp add: take_bit_eq_mod)

lemma word_and_not_mask: "x AND NOT (mask k) = (x :: 'a::len word) - (x AND mask k)"
proof -
  have "x = (x AND mask k) + (x AND NOT (mask k))"
    by (subst disjunctive_add) (auto simp: bit_simps intro!: bit_word_eqI)
  then show ?thesis by (simp add: algebra_simps)
qed

lemma word_and_not_mask_unat: "unat (x AND NOT (mask k) :: 'a::len word) = unat x div 2 ^ k * 2 ^ k"
proof -
  have "x AND mask k \<le> x" by (rule word_and_le2)
  then have "unat (x AND NOT (mask k)) = unat x - unat (x AND mask k)"
    by (simp add: word_and_not_mask unat_sub)
  then show ?thesis by (simp add: word_and_mask_unat minus_mod_eq_div_mult)
qed

lemma ROUND_DOWN_unat: "unat (ROUND_DOWN x (2 ^ k)) = unat x div 2 ^ k * 2 ^ k"
  by (simp add: ROUND_DOWN_def word_and_not_mask_unat flip: mask_eq_exp_minus_1)

lemma unat_exp_minus_1: "k < 64 \<Longrightarrow> unat (x :: u64) + (2 ^ k - 1) < 2 ^ 64 \<Longrightarrow>
    unat (x + 2 ^ k - 1) = unat x + 2 ^ k - 1"
proof -
  assume k: "k < 64" and b: "unat x + (2 ^ k - 1) < 2 ^ 64"
  have m: "unat (mask k :: u64) = 2 ^ k - 1"
    using k by (simp only: take_bit_minus_one_eq_mask [symmetric] unsigned_take_bit_eq)
      (simp only: unsigned_minus_1_eq_mask take_bit_of_mask len_num0 len_bit0 len_num1,
        simp add: min_def mask_eq_exp_minus_1)
  have "unat (x + mask k) = unat x + (2 ^ k - 1)"
    using b m by (subst (asm) m [symmetric]) (simp add: unat_add_lem [THEN iffD1] m)
  moreover have "x + 2 ^ k - 1 = x + mask k"
    by (simp add: mask_eq_exp_minus_1)
  moreover have "(1::nat) \<le> 2 ^ k" by simp
  ultimately show ?thesis by (simp only: Nat.add_diff_assoc)
qed

lemma ROUND_UP_unat:
  assumes "k < 64" "unat x + (2 ^ k - 1) < 2 ^ 64"
  shows "unat (ROUND_UP x (2 ^ k)) = (unat x + 2 ^ k - 1) div 2 ^ k * 2 ^ k"
proof -
  have "ROUND_UP x (2 ^ k) = (x + 2 ^ k - 1) AND NOT (mask k)"
    by (simp add: ROUND_UP_def mask_eq_exp_minus_1)
  then show ?thesis
    using unat_exp_minus_1 [OF assms] by (simp add: word_and_not_mask_unat)
qed

lemma IS_ALIGNED_dvd: "IS_ALIGNED x (2 ^ k) \<longleftrightarrow> 2 ^ k dvd unat x"
proof -
  have "IS_ALIGNED x (2 ^ k) \<longleftrightarrow> unat (x AND mask k) = 0"
    by (simp add: IS_ALIGNED_def unat_eq_0 flip: mask_eq_exp_minus_1)
  then show ?thesis by (simp add: word_and_mask_unat dvd_eq_mod_eq_0)
qed

lemmas page_round_down_unat = ROUND_DOWN_unat [where k = 12, simplified]
lemmas page_round_up_unat = ROUND_UP_unat [where k = 12, simplified]
lemmas page_aligned_dvd = IS_ALIGNED_dvd [where k = 12, simplified]

section \<open>Conversions through int\<close>

text \<open>Assigning a 64-bit value to an \<^verbatim>\<open>int\<close> and back: the low 32 bits, sign-extended.\<close>

definition to_int :: "u64 \<Rightarrow> u64" where
  "to_int x = scast (ucast x :: 32 word)"

lemma small_order:
  assumes "unat (ord :: u64) < 2 ^ 31"
  shows "sint (ucast ord :: 32 word) = int (unat ord)"
proof -
  define k where "k = int (unat ord)"
  have "(ucast ord :: 32 word) = word_of_int k" by (simp add: k_def)
  then have "sint (ucast ord :: 32 word) = signed_take_bit 31 k" by (simp only: sint_sbintrunc') simp
  moreover have "k < int (2 ^ 31)" unfolding k_def using assms by (simp only: of_nat_less_iff)
  then have "0 \<le> k" "k < 2 ^ 31" by (simp_all add: k_def)
  then have "signed_take_bit 31 k = k" by (intro signed_take_bit_int_eq_self) simp_all
  ultimately show ?thesis by (simp add: k_def)
qed

lemma to_int_small: "unat x < 2 ^ 31 \<Longrightarrow> to_int x = x"
  by (simp add: to_int_def scast_eq small_order)

lemma sint_cases: "sint i = uint i \<or> sint i = uint (i :: u64) - 2 ^ 64"
proof -
  have "sint i = take_bit 64 (uint i) - 2 ^ 64 * of_bool (bit (uint i) 63)"
    by (simp add: sint_uint signed_take_bit_eq_take_bit_minus)
  moreover have "take_bit 64 (uint i) = uint i" using unsigned_less [of i, where ?'a = int] by (intro take_bit_int_eq_self) auto
  ultimately show ?thesis by (cases "bit (uint i) 63") simp_all
qed

end
