(* ===== verification/Bitmap.thy ===== *)
theory Bitmap
  imports Prelude
begin

text \<open>
  The bitmap operations of \<^verbatim>\<open>kernel/common/bitops.h\<close>. A bitmap is the list of its
  64-bit words; reading a word past the end is \<open>WILD\<close>. The searching loops keep the code's
  counters (word index, bit index, running result). \<open>bmp_bit\<close> is the abstract view: bit \<open>i\<close> of
  the whole bitmap.
\<close>

type_synonym bitmap = "u64 list"

abbreviation BITS_PER_LONG :: nat where "BITS_PER_LONG \<equiv> 64"

definition BITS_TO_LONGS :: "nat \<Rightarrow> nat" where
  "BITS_TO_LONGS nr = (nr + BITS_PER_LONG - 1) div BITS_PER_LONG"

definition get_bit_in_slot :: "u64 \<Rightarrow> nat \<Rightarrow> u64" where
  "get_bit_in_slot u64slot b = u64slot AND push_bit b 1"

definition set_bit_c :: "u32 \<Rightarrow> bitmap \<Rightarrow> bitmap res" where
  "set_bit_c nr p =
     (let nlongs = unat nr div BITS_PER_LONG; ilongs = unat nr mod BITS_PER_LONG in
      bindR (arr_get p nlongs) (\<lambda>w. arr_set p nlongs (w OR push_bit ilongs 1)))"

definition get_bit :: "u32 \<Rightarrow> bitmap \<Rightarrow> u64 res" where
  "get_bit nr p =
     (let nlongs = unat nr div BITS_PER_LONG; ilongs = unat nr mod BITS_PER_LONG in
      bindR (arr_get p nlongs) (\<lambda>w. Inr (drop_bit ilongs w AND 1)))"

definition clear_bit :: "u32 \<Rightarrow> bitmap \<Rightarrow> bitmap res" where
  "clear_bit nr p =
     (let nlongs = unat nr div BITS_PER_LONG; ilongs = unat nr mod BITS_PER_LONG in
      bindR (arr_get p nlongs) (\<lambda>w. arr_set p nlongs (w AND NOT (push_bit ilongs 1))))"

text \<open>\<^verbatim>\<open>__builtin_ctzl\<close> counts the trailing zero bits of a non-zero word.\<close>

definition ctzl :: "u64 \<Rightarrow> nat" where
  "ctzl x = (if x = 0 then 64 else length (takeWhile (\<lambda>i. \<not> bit x i) [0..<64]))"

text \<open>
  The inner \<^verbatim>\<open>for\<close> loop of \<^verbatim>\<open>find_next_bit_helper\<close>: \<open>Inl res\<close> is the early
  \<^verbatim>\<open>return res\<close>, \<open>Inr res\<close> the value of \<^verbatim>\<open>res\<close> when the loop runs to its end.
\<close>

function find_in_word :: "bitmap \<Rightarrow> nat \<Rightarrow> bool \<Rightarrow> nat \<Rightarrow> nat \<Rightarrow> nat \<Rightarrow> (nat + nat) res" where
  "find_in_word p e invert cur_bit max_bit r =
     (if cur_bit \<le> max_bit then
        bindR (arr_get p e) (\<lambda>w.
          let cur_bit_value = get_bit_in_slot w cur_bit in
          if (if invert then cur_bit_value = 0 else cur_bit_value \<noteq> 0) then Inr (Inl r)
          else find_in_word p e invert (Suc cur_bit) max_bit (Suc r))
      else Inr (Inr r))"
  by pat_completeness auto
termination
  by (relation "measure (\<lambda>(p, e, invert, cur_bit, max_bit, r). Suc max_bit - cur_bit)") auto

declare find_in_word.simps [simp del]

function find_elems :: "bitmap \<Rightarrow> u64 \<Rightarrow> bool \<Rightarrow> nat \<Rightarrow> nat \<Rightarrow> nat \<Rightarrow> nat \<Rightarrow> nat res" where
  "find_elems p sz invert cur_elem max_elem cur_bit r =
     (if cur_elem \<le> max_elem then
        let max_bit = (if cur_elem < max_elem then BITS_PER_LONG - 1
                       else unat (sz - 1) mod BITS_PER_LONG) in
        bindR (find_in_word p cur_elem invert cur_bit max_bit r) (\<lambda>x. case x of
          Inl found \<Rightarrow> Inr found
        | Inr r' \<Rightarrow> find_elems p sz invert (Suc cur_elem) max_elem 0 r')
      else Inr (unat sz))"
  by pat_completeness auto
termination
  by (relation "measure (\<lambda>(p, sz, invert, cur_elem, max_elem, cur_bit, r). Suc max_elem - cur_elem)") auto

declare find_elems.simps [simp del]

definition find_next_bit_helper :: "bitmap \<Rightarrow> u64 \<Rightarrow> u64 \<Rightarrow> bool \<Rightarrow> nat res" where
  "find_next_bit_helper p sz start invert =
     find_elems p sz invert (unat start div BITS_PER_LONG) (unat (sz - 1) div BITS_PER_LONG)
       (unat start mod BITS_PER_LONG) (unat start)"

definition find_next_zero_bit :: "bitmap \<Rightarrow> u64 \<Rightarrow> u64 \<Rightarrow> nat res" where
  "find_next_zero_bit p sz start = find_next_bit_helper p sz start True"

definition find_next_bit :: "bitmap \<Rightarrow> u64 \<Rightarrow> u64 \<Rightarrow> nat res" where
  "find_next_bit p sz start = find_next_bit_helper p sz start False"

section \<open>Abstract view\<close>

definition bmp_bit :: "bitmap \<Rightarrow> nat \<Rightarrow> bool" where
  "bmp_bit p i \<longleftrightarrow> bit (p ! (i div 64)) (i mod 64)"

definition first_from :: "(nat \<Rightarrow> bool) \<Rightarrow> nat \<Rightarrow> nat \<Rightarrow> nat \<Rightarrow> bool" where
  "first_from P sz start r \<longleftrightarrow>
     (start \<le> r \<and> r < sz \<and> P r \<or> r = sz) \<and> (\<forall>i. start \<le> i \<longrightarrow> i < sz \<longrightarrow> i < r \<longrightarrow> \<not> P i)"

lemma first_from_extend:
  assumes "first_from P sz s' r" "s \<le> s'" "\<And>i. s \<le> i \<Longrightarrow> i < s' \<Longrightarrow> \<not> P i"
  shows "first_from P sz s r"
proof -
  have "\<not> P i" if "s \<le> i" "i < sz" "i < r" for i
    using that assms by (cases "i < s'") (auto simp: first_from_def)
  then show ?thesis using assms(1,2) by (auto simp: first_from_def)
qed

lemma get_bit_in_slot_0 [simp]: "b < 64 \<Longrightarrow> get_bit_in_slot w b = 0 \<longleftrightarrow> \<not> bit w b"
proof -
  assume b: "b < 64"
  have "bit (w AND push_bit b 1) i \<longleftrightarrow> i = b \<and> bit w b" for i
    using b by (auto simp: bit_simps)
  moreover have "w AND push_bit b 1 = 0 \<longleftrightarrow> (\<forall>i. \<not> bit (w AND push_bit b 1) i)"
    by (metis bit_0_eq bot_apply bot_bool_def bit_word_eqI)
  ultimately show ?thesis by (auto simp only: get_bit_in_slot_def)
qed

definition word_scan_spec :: "u64 \<Rightarrow> bool \<Rightarrow> nat \<Rightarrow> nat \<Rightarrow> nat \<Rightarrow> nat + nat \<Rightarrow> bool" where
  "word_scan_spec w v b m r x \<longleftrightarrow> (case x of
      Inl r' \<Rightarrow> \<exists>j. b \<le> j \<and> j \<le> m \<and> r' + b = r + j \<and> bit w j \<noteq> v \<and>
                   (\<forall>i. b \<le> i \<longrightarrow> i < j \<longrightarrow> bit w i = v)
    | Inr r' \<Rightarrow> r' + b = r + Suc m \<and> (\<forall>i. b \<le> i \<longrightarrow> i \<le> m \<longrightarrow> bit w i = v))"

lemma word_scan_step:
  assumes "bit w b = v" and "word_scan_spec w v (Suc b) m (Suc r) x"
  shows "word_scan_spec w v b m r x"
proof (cases x)
  case (Inl r')
  with assms obtain j where "Suc b \<le> j" "j \<le> m" "r' + Suc b = Suc r + j" "bit w j \<noteq> v"
    and lt: "\<And>i. Suc b \<le> i \<Longrightarrow> i < j \<Longrightarrow> bit w i = v"
    by (auto simp: word_scan_spec_def)
  moreover have "bit w i = v" if "b \<le> i" "i < j" for i
    using that assms(1) lt by (cases "i = b") auto
  ultimately show ?thesis by (auto simp: word_scan_spec_def Inl intro!: exI [of _ j])
next
  case (Inr r')
  with assms show ?thesis
    by (auto simp: word_scan_spec_def) (metis Suc_leI le_neq_implies_less)+
qed

lemma find_in_word_spec:
  assumes "e < length p" "m < 64" "b \<le> Suc m"
  shows "\<exists>x. find_in_word p e v b m r = Inr x \<and> word_scan_spec (p ! e) v b m r x"
  using assms
proof (induction p e v b m r rule: find_in_word.induct)
  case (1 p e v b m r)
  let ?c = "get_bit_in_slot (p ! e) b"
  consider (stop) "b = Suc m" | (found) "b \<le> m" "bit (p ! e) b \<noteq> v" | (skip) "b \<le> m" "bit (p ! e) b = v"
    using "1.prems" by linarith
  then show ?case
  proof cases
    case stop
    then show ?thesis by (subst find_in_word.simps) (auto simp: word_scan_spec_def)
  next
    case found
    with "1.prems" have "find_in_word p e v b m r = Inr (Inl r)"
      by (subst find_in_word.simps) (auto simp: Let_def)
    with found show ?thesis by (auto simp: word_scan_spec_def)
  next
    case skip
    with "1.prems" have "find_in_word p e v b m r = find_in_word p e v (Suc b) m (Suc r)"
      by (subst find_in_word.simps) (auto simp: Let_def)
    moreover have "\<exists>x. find_in_word p e v (Suc b) m (Suc r) = Inr x \<and>
        word_scan_spec (p ! e) v (Suc b) m (Suc r) x"
      by (rule "1.IH" [of "p ! e" ?c]) (use skip "1.prems" in auto)
    ultimately show ?thesis using word_scan_step [OF skip(2)] by auto
  qed
qed

lemma find_elems_stop [simp]: "me < e \<Longrightarrow> find_elems p sz v e me b r = Inr (unat sz)"
  by (subst find_elems.simps) simp

text \<open>The outer loop, with the invariant that the running result is the absolute bit index.\<close>

lemma find_elems_spec:
  assumes "0 < sz" "me = unat (sz - 1) div 64" "me < length p" "b < 64"
  shows "\<exists>r. find_elems p sz v e me b (64 * e + b) = Inr r \<and>
             first_from (\<lambda>i. bmp_bit p i \<noteq> v) (unat sz) (64 * e + b) r"
  using assms
proof (induction "Suc me - e" arbitrary: e b)
  case 0
  let ?s = "unat (sz - 1)"
  have "unat sz = Suc ?s" using \<open>0 < sz\<close> by (simp add: unat_gt_0 unat_minus_one)
  moreover have "?s < 64 * Suc me" using 0 by auto
  ultimately have "unat sz \<le> 64 * e" using 0 by linarith
  moreover have "find_elems p sz v e me b (64 * e + b) = Inr (unat sz)"
    using 0 by (subst find_elems.simps) auto
  ultimately show ?case by (auto simp: first_from_def)
next
  case (Suc d)
  let ?s = "unat (sz - 1)" and ?m = "if e < me then 63 else unat (sz - 1) mod 64"
  have e: "e \<le> me" "e < length p" using Suc by auto
  have sz: "unat sz = Suc ?s" using \<open>0 < sz\<close> by (simp add: unat_gt_0 unat_minus_one)
  have dm: "?s = 64 * me + ?s mod 64" using Suc.prems by simp
  have m: "?m < 64" by simp
  have lim: "64 * e + ?m < unat sz" using e dm sz by auto
  have last: "unat sz \<le> 64 * Suc e" if "\<not> e < me" using e dm sz that by auto
  have last': "64 * e + ?m + 1 = unat sz" if "\<not> e < me" using e dm sz that by auto
  have bb: "bmp_bit p (64 * e + j) = bit (p ! e) j" if "j < 64" for j
    using that by (simp add: bmp_bit_def)
  let ?P = "\<lambda>i. bmp_bit p i \<noteq> v"
  show ?case
  proof (cases "b \<le> ?m")
    case False
    then have "\<not> e < me" using Suc.prems by auto
    with False e have "find_elems p sz v e me b (64 * e + b) = Inr (unat sz)"
      by (subst find_elems.simps, subst find_in_word.simps) auto
    with False \<open>\<not> e < me\<close> last' show ?thesis by (auto simp: first_from_def)
  next
    case True
    then obtain x where x: "find_in_word p e v b ?m (64 * e + b) = Inr x"
      and scan: "word_scan_spec (p ! e) v b ?m (64 * e + b) x"
      using find_in_word_spec [OF e(2) m] by (meson le_SucI)
    show ?thesis
    proof (cases x)
      case (Inl r')
      with scan obtain j where j: "b \<le> j" "j \<le> ?m" "r' = 64 * e + j" "bit (p ! e) j \<noteq> v"
        and before: "\<And>i. b \<le> i \<Longrightarrow> i < j \<Longrightarrow> bit (p ! e) i = v"
        by (auto simp: word_scan_spec_def)
      have "\<not> ?P i" if "64 * e + b \<le> i" "i < r'" for i
        using that before [of "i - 64 * e"] bb [of "i - 64 * e"] j(2,3) m by auto
      moreover have "?P r'" using j bb [of j] m by auto
      moreover have "find_elems p sz v e me b (64 * e + b) = Inr r'"
        using x e Inl by (subst find_elems.simps) (cases "e < me"; simp)
      ultimately show ?thesis using j lim by (auto simp: first_from_def)
    next
      case (Inr r')
      with scan have r': "r' = 64 * e + Suc ?m" and all: "\<And>i. b \<le> i \<Longrightarrow> i \<le> ?m \<Longrightarrow> bit (p ! e) i = v"
        by (auto simp: word_scan_spec_def)
      have none: "\<not> ?P i" if "64 * e + b \<le> i" "i < 64 * e + Suc ?m" for i
        using that all [of "i - 64 * e"] bb [of "i - 64 * e"] m by auto
      have eq: "find_elems p sz v e me b (64 * e + b) = find_elems p sz v (Suc e) me 0 r'"
        using x e Inr by (subst find_elems.simps) (cases "e < me"; simp)
      show ?thesis
      proof (cases "e < me")
        case True
        have "\<exists>r. find_elems p sz v (Suc e) me 0 (64 * Suc e + 0) = Inr r \<and>
            first_from ?P (unat sz) (64 * Suc e + 0) r"
          by (rule Suc.hyps(1)) (use Suc True in auto)
        then obtain r where r0: "find_elems p sz v (Suc e) me 0 (64 * Suc e + 0) = Inr r"
          and "first_from ?P (unat sz) (64 * Suc e + 0) r" by blast
        moreover have "r' = 64 * Suc e + 0" using r' True by simp
        ultimately have r: "find_elems p sz v e me b (64 * e + b) = Inr r"
          "first_from ?P (unat sz) (64 * Suc e) r" using eq by simp_all
        from r(2) have "first_from ?P (unat sz) (64 * e + b) r"
          by (rule first_from_extend) (use none True \<open>b < 64\<close> in auto)
        with r show ?thesis by auto
      next
        case False
        with eq have "find_elems p sz v e me b (64 * e + b) = Inr (unat sz)"
          by simp
        with none last' False show ?thesis by (auto simp: first_from_def)
      qed
    qed
  qed
qed

lemma find_next_bit_helper_spec:
  assumes "0 < sz" "unat sz \<le> 64 * length p"
  shows "\<exists>r. find_next_bit_helper p sz start v = Inr r \<and>
             first_from (\<lambda>i. bmp_bit p i \<noteq> v) (unat sz) (unat start) r"
proof -
  have "unat sz = Suc (unat (sz - 1))" using assms(1) by (simp add: unat_gt_0 unat_minus_one)
  with assms(2) have "unat (sz - 1) div 64 < length p" by auto
  from find_elems_spec [OF assms(1) refl this, of "unat start mod 64" v "unat start div 64"]
  show ?thesis by (simp add: find_next_bit_helper_def)
qed

section \<open>Single-bit operations on the abstract view\<close>

lemma bit_1_word [simp]: "bit (1 :: u64) i \<longleftrightarrow> i = 0"
  by (simp add: bit_simps)

lemma set_bit_c_spec:
  assumes "unat nr < 64 * length p"
  shows "\<exists>p'. set_bit_c nr p = Inr p' \<and> length p' = length p \<and>
              (\<forall>i. bmp_bit p' i \<longleftrightarrow> i = unat nr \<or> bmp_bit p i)"
proof -
  let ?n = "unat nr div 64" and ?b = "unat nr mod 64"
  have n: "?n < length p" using assms by auto
  have "bmp_bit (p[?n := p ! ?n OR push_bit ?b 1]) i \<longleftrightarrow> i = unat nr \<or> bmp_bit p i" for i
  proof (cases "i div 64 = ?n")
    case True
    then have "i = unat nr \<longleftrightarrow> i mod 64 = ?b" by (metis div_mult_mod_eq)
    with True n show ?thesis by (auto simp: bmp_bit_def bit_simps)
  next
    case False
    then show ?thesis by (auto simp: bmp_bit_def)
  qed
  with n show ?thesis by (auto simp: set_bit_c_def Let_def)
qed

lemma clear_bit_spec:
  assumes "unat nr < 64 * length p"
  shows "\<exists>p'. clear_bit nr p = Inr p' \<and> length p' = length p \<and>
              (\<forall>i. bmp_bit p' i \<longleftrightarrow> i \<noteq> unat nr \<and> bmp_bit p i)"
proof -
  let ?n = "unat nr div 64" and ?b = "unat nr mod 64"
  have n: "?n < length p" using assms by auto
  have "bmp_bit (p[?n := p ! ?n AND NOT (push_bit ?b 1)]) i \<longleftrightarrow> i \<noteq> unat nr \<and> bmp_bit p i" for i
  proof (cases "i div 64 = ?n")
    case True
    then have "i = unat nr \<longleftrightarrow> i mod 64 = ?b" by (metis div_mult_mod_eq)
    with True n show ?thesis by (auto simp: bmp_bit_def bit_simps)
  next
    case False
    then show ?thesis by (auto simp: bmp_bit_def)
  qed
  with n show ?thesis by (auto simp: clear_bit_def Let_def)
qed

lemma get_bit_spec:
  assumes "unat nr < 64 * length p"
  shows "get_bit nr p = Inr (if bmp_bit p (unat nr) then 1 else 0)"
proof -
  have "drop_bit k w AND 1 = (if bit w k then 1 else 0)" for w :: u64 and k
    by (rule bit_word_eqI) (auto simp: bit_simps intro!: Nat.gr0I)
  moreover have "unat nr div 64 < length p" using assms by auto
  ultimately show ?thesis by (simp add: get_bit_def Let_def bmp_bit_def)
qed

lemma get_bit_out_of_range: "64 * length p \<le> unat nr \<Longrightarrow> get_bit nr p = Inl WILD"
  by (auto simp: get_bit_def Let_def arr_get_def)

section \<open>The identifier pool the clients use\<close>

text \<open>
  The slot tables (\<^verbatim>\<open>process.c\<close>) and the connection table of an IPC server
  (\<^verbatim>\<open>ipc_client.c\<close>) use a bitmap as a pool of identifiers: search the first clear bit, set it,
  later clear it. The interface below states what such a client relies on; its facts are proved
  once from the laws.
\<close>

locale id_pool =
  fixes first_free :: "'s \<Rightarrow> nat res"
    and mark :: "nat \<Rightarrow> 's \<Rightarrow> 's res"
    and unmark :: "nat \<Rightarrow> 's \<Rightarrow> 's res"
    and used :: "'s \<Rightarrow> nat \<Rightarrow> bool"
    and capacity :: "'s \<Rightarrow> nat"
    and ok :: "'s \<Rightarrow> bool"
  assumes first_free_law: "ok s \<Longrightarrow> \<exists>r. first_free s = Inr r \<and>
      (r < capacity s \<and> \<not> used s r \<or> r = capacity s) \<and> (\<forall>i < r. i < capacity s \<longrightarrow> used s i)"
    and mark_law: "ok s \<Longrightarrow> i < capacity s \<Longrightarrow> \<exists>s'. mark i s = Inr s' \<and> ok s' \<and>
      capacity s' = capacity s \<and> used s' = (used s)(i := True)"
    and unmark_law: "ok s \<Longrightarrow> i < capacity s \<Longrightarrow> \<exists>s'. unmark i s = Inr s' \<and> ok s' \<and>
      capacity s' = capacity s \<and> used s' = (used s)(i := False)"
begin

lemma acquire:
  assumes "ok s" "\<exists>i < capacity s. \<not> used s i"
  shows "\<exists>i s'. first_free s = Inr i \<and> mark i s = Inr s' \<and> i < capacity s \<and> \<not> used s i \<and>
           used s' = (used s)(i := True) \<and> ok s' \<and> capacity s' = capacity s"
proof -
  from first_free_law [OF assms(1)] assms(2) obtain r
    where r: "first_free s = Inr r" "r < capacity s" "\<not> used s r" by blast
  with mark_law [OF assms(1) r(2)] show ?thesis by blast
qed

lemma exhausted_iff: "ok s \<Longrightarrow> first_free s = Inr (capacity s) \<longleftrightarrow> (\<forall>i < capacity s. used s i)"
  using first_free_law by (metis Inr_inject nat_less_le)

lemma release_then_available:
  assumes "ok s" "i < capacity s"
  shows "\<exists>s' j. unmark i s = Inr s' \<and> first_free s' = Inr j \<and> j \<le> i"
proof -
  from unmark_law [OF assms] obtain s' where s': "unmark i s = Inr s'" "ok s'"
    "capacity s' = capacity s" "used s' = (used s)(i := False)" by blast
  from first_free_law [OF s'(2)] obtain j where "first_free s' = Inr j"
    "\<forall>k < j. k < capacity s' \<longrightarrow> used s' k" by blast
  moreover from this(2) s' assms(2) have "j \<le> i" by (metis fun_upd_same leI)
  ultimately show ?thesis using s'(1) by blast
qed

end

text \<open>The provider: a bitmap of \<open>sz\<close> bits, searched from bit 0.\<close>

definition pool_first :: "u64 \<times> bitmap \<Rightarrow> nat res" where
  "pool_first s = find_next_zero_bit (snd s) (fst s) 0"

definition pool_mark :: "nat \<Rightarrow> u64 \<times> bitmap \<Rightarrow> (u64 \<times> bitmap) res" where
  "pool_mark i s = bindR (set_bit_c (of_nat i) (snd s)) (\<lambda>p. Inr (fst s, p))"

definition pool_unmark :: "nat \<Rightarrow> u64 \<times> bitmap \<Rightarrow> (u64 \<times> bitmap) res" where
  "pool_unmark i s = bindR (clear_bit (of_nat i) (snd s)) (\<lambda>p. Inr (fst s, p))"

definition pool_ok :: "u64 \<times> bitmap \<Rightarrow> bool" where
  "pool_ok s \<longleftrightarrow> 0 < fst s \<and> unat (fst s) \<le> 64 * length (snd s) \<and> unat (fst s) < 2 ^ 31"

lemma unat_of_nat_u32: "n < 2 ^ 32 \<Longrightarrow> unat (of_nat n :: u32) = n"
  by (simp add: unat_of_nat take_bit_nat_eq_self)

interpretation bmp: id_pool pool_first pool_mark pool_unmark "\<lambda>s. bmp_bit (snd s)" "\<lambda>s. unat (fst s)" pool_ok
proof (unfold_locales, goal_cases)
  case (1 s)
  then obtain r where "pool_first s = Inr r"
    "first_from (\<lambda>i. bmp_bit (snd s) i \<noteq> True) (unat (fst s)) (unat (0 :: u64)) r"
    using find_next_bit_helper_spec [of "fst s" "snd s" 0 True] by (auto simp: pool_first_def find_next_zero_bit_def pool_ok_def)
  then show ?case by (auto simp: first_from_def)
next
  case (2 s i)
  then have "unat (of_nat i :: u32) = i" by (simp add: unat_of_nat_u32 pool_ok_def)
  with 2 set_bit_c_spec [of "of_nat i" "snd s"] obtain p' where p': "set_bit_c (of_nat i) (snd s) = Inr p'"
    "length p' = length (snd s)" "\<forall>j. bmp_bit p' j \<longleftrightarrow> j = i \<or> bmp_bit (snd s) j"
    by (auto simp: pool_ok_def)
  then have "bmp_bit p' = (bmp_bit (snd s))(i := True)" by (auto simp: fun_eq_iff)
  with p' 2 show ?case
    by (intro exI [of _ "(fst s, p')"]) (auto simp: pool_mark_def pool_ok_def)
next
  case (3 s i)
  then have "unat (of_nat i :: u32) = i" by (simp add: unat_of_nat_u32 pool_ok_def)
  with 3 clear_bit_spec [of "of_nat i" "snd s"] obtain p' where p': "clear_bit (of_nat i) (snd s) = Inr p'"
    "length p' = length (snd s)" "\<forall>j. bmp_bit p' j \<longleftrightarrow> j \<noteq> i \<and> bmp_bit (snd s) j"
    by (auto simp: pool_ok_def)
  then have "bmp_bit p' = (bmp_bit (snd s))(i := False)" by (auto simp: fun_eq_iff)
  with p' 3 show ?case
    by (intro exI [of _ "(fst s, p')"]) (auto simp: pool_unmark_def pool_ok_def)
qed


section \<open>Properties\<close>

text \<open>
  \<^verbatim>\<open>find_next_zero_bit\<close> returns the first clear bit at or after
  \<^verbatim>\<open>start\<close>, across word boundaries, or \<^verbatim>\<open>size\<close> when there is none; setting
  that bit makes it set and changes no other bit.
\<close>

theorem find_zero_then_set:
  assumes "0 < sz" "unat sz \<le> 64 * length p" "unat sz < 2 ^ 32"
  shows "\<exists>r. find_next_zero_bit p sz start = Inr r \<and>
    first_from (\<lambda>i. \<not> bmp_bit p i) (unat sz) (unat start) r \<and>
    (r < unat sz \<longrightarrow> (\<exists>p'. set_bit_c (of_nat r) p = Inr p' \<and> length p' = length p \<and>
       (\<forall>j. bmp_bit p' j \<longleftrightarrow> j = r \<or> bmp_bit p j)))"
proof -
  obtain r where r: "find_next_zero_bit p sz start = Inr r"
    "first_from (\<lambda>i. bmp_bit p i \<noteq> True) (unat sz) (unat start) r"
    using find_next_bit_helper_spec [of sz p start True] assms by (auto simp: find_next_zero_bit_def)
  have "r < unat sz \<Longrightarrow> unat (of_nat r :: u32) = r" using assms(3) by (intro unat_of_nat_u32) simp
  then have "r < unat sz \<Longrightarrow> \<exists>p'. set_bit_c (of_nat r) p = Inr p' \<and> length p' = length p \<and>
       (\<forall>j. bmp_bit p' j \<longleftrightarrow> j = r \<or> bmp_bit p j)"
    using set_bit_c_spec [of "of_nat r" p] assms(2) by fastforce
  with r show ?thesis by simp
qed

theorem find_zero_then_set_witness:
  "\<exists>r. find_next_zero_bit [- 1, 0xFF] 100 3 = Inr r \<and>
    first_from (\<lambda>i. \<not> bmp_bit [- 1, 0xFF] i) (unat (100 :: u64)) (unat (3 :: u64)) r \<and>
    (r < unat (100 :: u64) \<longrightarrow> (\<exists>p'. set_bit_c (of_nat r) [- 1, 0xFF] = Inr p' \<and> length p' = length [- 1, 0xFF :: u64] \<and>
       (\<forall>j. bmp_bit p' j \<longleftrightarrow> j = r \<or> bmp_bit [- 1, 0xFF] j)))"
  by (rule find_zero_then_set) simp_all

end
