(* ===== verification/ListHead.thy ===== *)
theory ListHead
  imports Prelude
begin

text \<open>
  The intrusive circular doubly linked lists of \<^verbatim>\<open>kernel/common/list.h\<close>, over an explicit
  store: one map per field of \<^verbatim>\<open>struct list_head\<close>, from the address of the node to the
  address in the field. Every operation re-reads the fields in the order of the C assignments.
  \<open>dlist h hd xs\<close> says that the store holds a well-formed list with head node \<open>hd\<close> and elements
  \<open>xs\<close>; the operations are then shown to be \<open>#\<close>, \<open>@\<close> and \<open>remove1\<close> on the elements, which is
  what the other components use.
\<close>

record lheap =
  nxt :: "u64 \<Rightarrow> u64 option"
  prv :: "u64 \<Rightarrow> u64 option"

definition rd_next :: "u64 \<Rightarrow> lheap \<Rightarrow> u64 res" where
  "rd_next a h = deref (nxt h a)"

definition rd_prev :: "u64 \<Rightarrow> lheap \<Rightarrow> u64 res" where
  "rd_prev a h = deref (prv h a)"

definition wr_next :: "u64 \<Rightarrow> u64 \<Rightarrow> lheap \<Rightarrow> lheap res" where
  "wr_next a v h = (if nxt h a = None then Inl WILD else Inr (h\<lparr>nxt := (nxt h)(a \<mapsto> v)\<rparr>))"

definition wr_prev :: "u64 \<Rightarrow> u64 \<Rightarrow> lheap \<Rightarrow> lheap res" where
  "wr_prev a v h = (if prv h a = None then Inl WILD else Inr (h\<lparr>prv := (prv h)(a \<mapsto> v)\<rparr>))"

definition init_list_head :: "u64 \<Rightarrow> lheap \<Rightarrow> lheap res" where
  "init_list_head l h = bindR (wr_next l l h) (wr_prev l l)"

definition list_add :: "u64 \<Rightarrow> u64 \<Rightarrow> lheap \<Rightarrow> lheap res" where
  "list_add new head h =
     bindR (rd_next head h) (\<lambda>n.
     bindR (wr_next new n h) (\<lambda>h.
     bindR (wr_prev new head h) (\<lambda>h.
     bindR (rd_next head h) (\<lambda>n.
     bindR (wr_prev n new h) (\<lambda>h.
     wr_next head new h)))))"

definition list_append :: "u64 \<Rightarrow> u64 \<Rightarrow> lheap \<Rightarrow> lheap res" where
  "list_append new head h = bindR (rd_prev head h) (\<lambda>tail. list_add new tail h)"

definition list_del :: "u64 \<Rightarrow> lheap \<Rightarrow> lheap res" where
  "list_del node h =
     bindR (rd_prev node h) (\<lambda>p.
     bindR (rd_next node h) (\<lambda>n.
     bindR (wr_next p n h) (\<lambda>h.
     bindR (rd_next node h) (\<lambda>n.
     bindR (rd_prev node h) (\<lambda>p.
     wr_prev n p h)))))"

definition list_empty :: "u64 \<Rightarrow> lheap \<Rightarrow> bool res" where
  "list_empty head h =
     bindR (rd_prev head h) (\<lambda>p.
       if p = head then bindR (rd_next head h) (\<lambda>n. Inr (n = head)) else Inr False)"

text \<open>
  \<^verbatim>\<open>for_each_in_list\<close> visits the nodes from \<^verbatim>\<open>head->next\<close> until it is back at the
  head. On a damaged list it need not stop, so the visited nodes are collected under a bound;
  \<open>None\<close> is running out of it.
\<close>

fun walk :: "nat \<Rightarrow> u64 \<Rightarrow> u64 \<Rightarrow> lheap \<Rightarrow> u64 list res option" where
  "walk 0 head cur h = None"
| "walk (Suc k) head cur h =
     (if cur = head then Some (Inr [])
      else case rd_next cur h of
        Inl e \<Rightarrow> Some (Inl e)
      | Inr n \<Rightarrow> map_option (\<lambda>r. bindR r (\<lambda>xs. Inr (cur # xs))) (walk k head n h))"

definition for_each_in_list :: "nat \<Rightarrow> u64 \<Rightarrow> lheap \<Rightarrow> u64 list res option" where
  "for_each_in_list k head h =
     (case rd_next head h of Inl e \<Rightarrow> Some (Inl e) | Inr n \<Rightarrow> walk k head n h)"

lemmas list_ops = rd_next_def rd_prev_def wr_next_def wr_prev_def

section \<open>Abstraction to lists\<close>

fun fpath :: "(u64 \<Rightarrow> u64 option) \<Rightarrow> u64 list \<Rightarrow> bool" where
  "fpath f (a # b # zs) \<longleftrightarrow> f a = Some b \<and> fpath f (b # zs)"
| "fpath f _ \<longleftrightarrow> True"

fun bpath :: "(u64 \<Rightarrow> u64 option) \<Rightarrow> u64 list \<Rightarrow> bool" where
  "bpath g (a # b # zs) \<longleftrightarrow> g b = Some a \<and> bpath g (b # zs)"
| "bpath g _ \<longleftrightarrow> True"

definition dlist :: "lheap \<Rightarrow> u64 \<Rightarrow> u64 list \<Rightarrow> bool" where
  "dlist h l xs \<longleftrightarrow> distinct (l # xs) \<and>
     fpath (nxt h) (l # xs @ [l]) \<and> bpath (prv h) (l # xs @ [l])"

definition is_node :: "lheap \<Rightarrow> u64 \<Rightarrow> bool" where
  "is_node h a \<longleftrightarrow> nxt h a \<noteq> None \<and> prv h a \<noteq> None"

text \<open>Nothing but the fields of the nodes in \<open>A\<close> changes between two stores.\<close>

definition same_outside :: "u64 set \<Rightarrow> lheap \<Rightarrow> lheap \<Rightarrow> bool" where
  "same_outside A h h' \<longleftrightarrow>
     (\<forall>a. a \<notin> A \<longrightarrow> nxt h' a = nxt h a \<and> prv h' a = prv h a) \<and> (\<forall>a. is_node h' a = is_node h a)"

lemma fpath_split: "fpath f (us @ a # vs) \<longleftrightarrow> fpath f (us @ [a]) \<and> fpath f (a # vs)"
  by (induction us rule: induct_list012) auto

lemma bpath_split: "bpath f (us @ a # vs) \<longleftrightarrow> bpath f (us @ [a]) \<and> bpath f (a # vs)"
  by (induction us rule: induct_list012) auto

lemma fpath_upd: "a \<notin> set (butlast zs) \<Longrightarrow> fpath (f(a \<mapsto> v)) zs = fpath f zs"
  by (induction f zs rule: fpath.induct) auto

lemma bpath_upd: "a \<notin> set (tl zs) \<Longrightarrow> bpath (f(a \<mapsto> v)) zs = bpath f zs"
  by (induction f zs rule: bpath.induct) auto

lemma fpath_node: "fpath f zs \<Longrightarrow> a \<in> set (butlast zs) \<Longrightarrow> f a \<noteq> None"
  by (induction f zs rule: fpath.induct) auto

lemma bpath_node: "bpath f zs \<Longrightarrow> a \<in> set (tl zs) \<Longrightarrow> f a \<noteq> None"
  by (induction f zs rule: bpath.induct) auto

lemma dlist_node: "dlist h l xs \<Longrightarrow> a \<in> set (l # xs) \<Longrightarrow> is_node h a"
  using fpath_node [of "nxt h" "l # xs @ [l]" a] bpath_node [of "prv h" "l # xs @ [l]" a]
  by (auto simp: dlist_def is_node_def butlast_append)

text \<open>
  A cut of the circle at two neighbours \<open>a\<close>, \<open>b\<close>: everything before \<open>a\<close> and after \<open>b\<close> is a
  path of its own. Insertion and deletion only rewrite the link between \<open>a\<close> and \<open>b\<close>.
\<close>

lemma circle_cut:
  assumes "l # xs @ [l] = us @ a # b # vs"
  shows "dlist h l xs \<longleftrightarrow> distinct (l # xs) \<and>
     fpath (nxt h) (us @ [a]) \<and> fpath (nxt h) (b # vs) \<and> nxt h a = Some b \<and>
     bpath (prv h) (us @ [a]) \<and> bpath (prv h) (b # vs) \<and> prv h b = Some a"
  unfolding dlist_def assms
  by (subst fpath_split, subst bpath_split) auto

lemma circle_ends:
  assumes "l # xs @ [l] = us @ a # b # vs" "distinct (l # xs)"
  shows "a \<notin> set us" "a \<notin> set (butlast (b # vs))" "b \<notin> set (tl (us @ [a]))" "b \<notin> set vs"
    "a \<in> set (l # xs)" "b \<in> set (l # xs)"
proof -
  have l: "l # xs = butlast (us @ a # b # vs)" using assms(1) by (metis butlast_snoc append_Cons)
  have r: "xs @ [l] = tl (us @ a # b # vs)" using assms(1) by (metis list.sel(3))
  have d: "distinct (us @ a # butlast (b # vs))" using assms(2) l by (simp add: butlast_append)
  have d': "distinct (tl (us @ a # b # vs))" using assms(2) r by (metis distinct1_rotate rotate1.simps(2))
  have st: "set (l # xs) = set (xs @ [l])" by simp
  show "a \<notin> set us" "a \<notin> set (butlast (b # vs))" using d by auto
  show "b \<notin> set (tl (us @ [a]))" "b \<notin> set vs" using d' by (cases us; auto)+
  show "a \<in> set (l # xs)" unfolding l by (simp add: butlast_append)
  show "b \<in> set (l # xs)" unfolding st r by (cases us) auto
qed

lemma list_add_after:
  assumes cut: "l # xs @ [l] = us @ a # b # vs" and d: "dlist h l xs"
    and new: "new \<notin> set (l # xs)" "is_node h new"
    and ys: "l # ys @ [l] = us @ a # new # b # vs"
  shows "\<exists>h'. list_add new a h = Inr h' \<and> dlist h' l ys \<and> same_outside {a, new, b} h h'"
proof -
  have dist: "distinct (l # xs)" using d by (simp add: dlist_def)
  note ends = circle_ends [OF cut dist]
  have c: "fpath (nxt h) (us @ [a])" "fpath (nxt h) (b # vs)" "nxt h a = Some b"
    "bpath (prv h) (us @ [a])" "bpath (prv h) (b # vs)" "prv h b = Some a"
    using d circle_cut [OF cut, of h] by auto
  obtain n p where np: "nxt h new = Some n" "prv h new = Some p"
    using new(2) by (auto simp: is_node_def)
  have an: "a \<noteq> new" "b \<noteq> new" using new(1) ends by auto
  have all: "set (us @ a # b # vs) = set (l # xs)" using arg_cong [OF cut, of set] by auto
  define h' where "h' = h\<lparr>nxt := (nxt h)(new \<mapsto> b, a \<mapsto> new), prv := (prv h)(new \<mapsto> a, b \<mapsto> new)\<rparr>"
  have "list_add new a h = Inr h'"
    using c(3,6) np an by (simp add: list_add_def list_ops h'_def)
  moreover have "dlist h' l ys"
  proof -
    have nn: "new \<notin> set us" "new \<notin> set vs" using new(1) all by auto
    have nt: "new \<notin> set (tl (us @ [a]))" using nn an by (cases us) auto
    have nb: "new \<notin> set (butlast (b # vs))" using nn an by (auto dest: in_set_butlastD)
    have dy: "distinct (l # ys)"
    proof -
      have "distinct (butlast (us @ a # new # b # vs))"
      proof -
        have "butlast (us @ a # b # vs) = l # xs" using cut by (metis append_Cons butlast_snoc)
        with dist have "distinct (us @ a # butlast (b # vs))" by (simp add: butlast_append)
        moreover have "new \<notin> set (butlast (b # vs))" using an nn by (auto dest: in_set_butlastD)
        ultimately show ?thesis using nn an by (auto simp: butlast_append)
      qed
      then show ?thesis using ys by (metis append_Cons butlast_snoc)
    qed
    have "fpath (nxt h') (us @ [a])" "bpath (prv h') (us @ [a])"
      using c(1,4) ends an nn nt by (auto simp: h'_def fpath_upd bpath_upd)
    moreover have "fpath (nxt h') (new # b # vs)"
      using c(2) ends(2) an nb by (simp add: h'_def fpath_upd del: butlast.simps)
    moreover have "bpath (prv h') (new # b # vs)"
      using c(5) ends an nn by (auto simp: h'_def bpath_upd)
    ultimately show ?thesis
      using circle_cut [of l ys us a new "b # vs" h'] ys dy an by (auto simp: h'_def)
  qed
  moreover have "same_outside {a, new, b} h h'"
    using np c(3,6) by (auto simp: same_outside_def is_node_def h'_def)
  ultimately show ?thesis by blast
qed

text \<open>Deletion of the node between \<open>a\<close> and \<open>b\<close>.\<close>

lemma list_del_between:
  assumes cut: "l # xs @ [l] = us @ a # x # b # vs" and d: "dlist h l xs" and xl: "x \<noteq> l"
    and ys: "l # ys @ [l] = us @ a # b # vs"
  shows "\<exists>h'. list_del x h = Inr h' \<and> dlist h' l ys \<and> same_outside {a, b} h h' \<and>
           nxt h' x = nxt h x \<and> prv h' x = prv h x"
proof -
  have dist: "distinct (l # xs)" using d by (simp add: dlist_def)
  have c: "fpath (nxt h) (us @ [a])" "fpath (nxt h) (x # b # vs)" "nxt h a = Some x"
    "bpath (prv h) (us @ [a])" "bpath (prv h) (x # b # vs)" "prv h x = Some a"
    using d circle_cut [OF cut, of h] by auto
  have "l # xs @ [l] = (us @ [a]) @ x # b # vs" using cut by simp
  note e1 = circle_ends [OF cut dist] and e2 = circle_ends [OF this dist]
  have dy: "distinct (l # ys)"
  proof -
    have "distinct (butlast (us @ a # x # b # vs))" using cut dist by (metis append_Cons butlast_snoc)
    then have "distinct (butlast (us @ a # b # vs))" by (auto simp: butlast_append)
    then show ?thesis using ys by (metis append_Cons butlast_snoc)
  qed
  note e = circle_ends [OF ys dy]
  have xa: "x \<noteq> a" "x \<noteq> b" using e1(3) e2 by (cases us; auto)+
  define h' where "h' = h\<lparr>nxt := (nxt h)(a \<mapsto> b), prv := (prv h)(b \<mapsto> a)\<rparr>"
  have del: "list_del x h = Inr h'"
    using c xa by (simp add: list_del_def list_ops h'_def)
  have "fpath (nxt h') (us @ [a])" "bpath (prv h') (us @ [a])"
    "fpath (nxt h') (b # vs)" "bpath (prv h') (b # vs)"
    using c e by (auto simp: h'_def fpath_upd bpath_upd simp del: butlast.simps)
  then have "dlist h' l ys" using circle_cut [OF ys, of h'] dy by (auto simp: h'_def)
  moreover have "same_outside {a, b} h h'" "nxt h' x = nxt h x" "prv h' x = prv h x"
    using c xa by (auto simp: same_outside_def is_node_def h'_def)
  ultimately show ?thesis using del by blast
qed

section \<open>The operations refine operations on lists\<close>

lemma init_list_head_spec:
  assumes "is_node h l"
  shows "\<exists>h'. init_list_head l h = Inr h' \<and> dlist h' l [] \<and> same_outside {l} h h'"
  using assms by (auto simp: init_list_head_def list_ops dlist_def is_node_def same_outside_def)

lemma list_add_spec:
  assumes "dlist h l xs" "new \<notin> set (l # xs)" "is_node h new"
  shows "\<exists>h'. list_add new l h = Inr h' \<and> dlist h' l (new # xs) \<and>
           same_outside (set (l # new # xs)) h h'"
proof -
  obtain b vs where bv: "xs @ [l] = b # vs" by (cases "xs @ [l]") auto
  then have b: "b \<in> set (l # xs)" by (cases xs) auto
  from bv have "l # xs @ [l] = [] @ l # b # vs" "l # (new # xs) @ [l] = [] @ l # new # b # vs"
    by auto
  from list_add_after [OF this(1) assms this(2)] b show ?thesis
    by (fastforce simp: same_outside_def)
qed

lemma list_append_spec:
  assumes "dlist h l xs" "new \<notin> set (l # xs)" "is_node h new"
  shows "\<exists>h'. list_append new l h = Inr h' \<and> dlist h' l (xs @ [new]) \<and>
           same_outside (set (l # new # xs)) h h'"
proof -
  obtain us a where ua: "l # xs = us @ [a]" by (cases "l # xs" rule: rev_cases) auto
  then have cut: "l # xs @ [l] = us @ a # l # []" "l # (xs @ [new]) @ [l] = us @ a # new # l # []"
    by (metis append.assoc append_Cons append_Nil)+
  have "prv h l = Some a" using assms(1) circle_cut [OF cut(1), of h] by simp
  moreover have "a \<in> set (l # xs)" unfolding ua by simp
  ultimately show ?thesis
    using list_add_after [OF cut(1) assms cut(2)]
    by (fastforce simp: list_append_def list_ops same_outside_def)
qed

lemma list_del_spec:
  assumes "dlist h l xs" "x \<in> set xs"
  shows "\<exists>h'. list_del x h = Inr h' \<and> dlist h' l (remove1 x xs) \<and>
           same_outside (set (l # remove1 x xs)) h h' \<and> is_node h' x"
proof -
  have "distinct (l # xs)" using assms(1) by (simp add: dlist_def)
  obtain ps qs where pq: "xs = ps @ x # qs" using assms(2) by (meson split_list)
  then have r: "remove1 x xs = ps @ qs" "x \<noteq> l" using \<open>distinct (l # xs)\<close> by (auto simp: remove1_append)
  obtain us a where ua: "l # ps = us @ [a]" by (cases "l # ps" rule: rev_cases) auto
  obtain b vs where bv: "qs @ [l] = b # vs" by (cases "qs @ [l]") auto
  have cut: "l # xs @ [l] = us @ a # x # b # vs" "l # (ps @ qs) @ [l] = us @ a # b # vs"
    using pq ua bv by (metis append.assoc append_Cons append_Nil)+
  have "a \<in> set (l # ps)" "b \<in> insert l (set qs)"
    unfolding ua using bv by (simp, cases qs, auto)
  moreover have "is_node h x" using dlist_node assms by auto
  ultimately show ?thesis
    using list_del_between [OF cut(1) assms(1) r(2) cut(2)] r(1)
    by (fastforce simp: same_outside_def)
qed

lemma list_empty_spec: "dlist h l xs \<Longrightarrow> list_empty l h = Inr (xs = [])"
proof -
  assume d: "dlist h l xs"
  obtain us a where ua: "l # xs = us @ [a]" by (cases "l # xs" rule: rev_cases) auto
  then have "l # xs @ [l] = us @ a # l # []" by (metis append.assoc append_Cons append_Nil)
  from circle_cut [OF this, of h] d have p: "prv h l = Some a" by simp
  have "a = l \<longleftrightarrow> xs = []" using ua d by (cases us) (auto simp: dlist_def)
  moreover have "xs = [] \<Longrightarrow> nxt h l = Some l" using d by (auto simp: dlist_def)
  ultimately show ?thesis using p by (auto simp: list_empty_def list_ops)
qed

lemma walk_spec:
  assumes "fpath (nxt h) (zs @ [l])" "l \<notin> set zs" "length zs < k"
  shows "walk k l (hd (zs @ [l])) h = Some (Inr zs)"
  using assms
proof (induction zs arbitrary: k)
  case Nil
  then show ?case by (cases k) auto
next
  case (Cons z zs)
  then obtain k' where k: "k = Suc k'" by (cases k) auto
  have "nxt h z = Some (hd (zs @ [l]))" using Cons.prems(1) by (cases zs) auto
  moreover have "fpath (nxt h) (zs @ [l])" using Cons.prems(1) by (cases zs) auto
  ultimately show ?case using Cons k by (auto simp: list_ops)
qed

lemma for_each_in_list_spec:
  assumes "dlist h l xs" "length xs < k"
  shows "for_each_in_list k l h = Some (Inr xs)"
proof -
  have f: "fpath (nxt h) (l # (xs @ [l]))" and "l \<notin> set xs" using assms(1) by (auto simp: dlist_def)
  from f have "nxt h l = Some (hd (xs @ [l]))" "fpath (nxt h) (xs @ [l])" by (cases xs; auto)+
  with walk_spec [of h xs l k] assms(2) \<open>l \<notin> set xs\<close> show ?thesis
    by (simp add: for_each_in_list_def list_ops)
qed


section \<open>The interface used by the queues of the kernel\<close>

text \<open>
  What a client of \<^verbatim>\<open>list.h\<close> relies on: \<open>rep h l xs\<close> (the list with head \<open>l\<close> holds \<open>xs\<close>),
  the effect of the three updates, and that lists over other nodes are left alone.
\<close>

locale node_queue =
  fixes rep :: "'h \<Rightarrow> 'a \<Rightarrow> 'a list \<Rightarrow> bool"
    and node :: "'h \<Rightarrow> 'a \<Rightarrow> bool"
    and frame :: "'a set \<Rightarrow> 'h \<Rightarrow> 'h \<Rightarrow> bool"
    and add :: "'a \<Rightarrow> 'a \<Rightarrow> 'h \<Rightarrow> 'h res"
    and app :: "'a \<Rightarrow> 'a \<Rightarrow> 'h \<Rightarrow> 'h res"
    and del :: "'a \<Rightarrow> 'h \<Rightarrow> 'h res"
  assumes rep_distinct: "rep h l xs \<Longrightarrow> distinct (l # xs)"
    and rep_node: "rep h l xs \<Longrightarrow> a \<in> set (l # xs) \<Longrightarrow> node h a"
    and add_law: "rep h l xs \<Longrightarrow> x \<notin> set (l # xs) \<Longrightarrow> node h x \<Longrightarrow>
      \<exists>h'. add x l h = Inr h' \<and> rep h' l (x # xs) \<and> frame (set (l # x # xs)) h h'"
    and app_law: "rep h l xs \<Longrightarrow> x \<notin> set (l # xs) \<Longrightarrow> node h x \<Longrightarrow>
      \<exists>h'. app x l h = Inr h' \<and> rep h' l (xs @ [x]) \<and> frame (set (l # x # xs)) h h'"
    and del_law: "rep h l xs \<Longrightarrow> x \<in> set xs \<Longrightarrow>
      \<exists>h'. del x h = Inr h' \<and> rep h' l (remove1 x xs) \<and> frame (set (l # remove1 x xs)) h h'"
    and frame_rep: "frame A h h' \<Longrightarrow> rep h m ys \<Longrightarrow> set (m # ys) \<inter> A = {} \<Longrightarrow> rep h' m ys"
    and frame_node: "frame A h h' \<Longrightarrow> node h' a = node h a"
begin

text \<open>Taking the first node and appending it again rotates the queue (round robin).\<close>

lemma rotate:
  assumes "rep h l (x # xs)"
  shows "\<exists>h1 h2. del x h = Inr h1 \<and> rep h1 l xs \<and> app x l h1 = Inr h2 \<and> rep h2 l (xs @ [x])"
proof -
  obtain h1 where h1: "del x h = Inr h1" "rep h1 l xs" "frame (set (l # xs)) h h1"
    using del_law [OF assms, of x] by auto
  have "node h1 x" "x \<notin> set (l # xs)"
    using rep_node [OF assms] frame_node [OF h1(3)] rep_distinct [OF assms] by auto
  then show ?thesis using app_law h1 by blast
qed

text \<open>Moving a node to a queue over other nodes (task migration, freeing a chunk).\<close>

lemma move:
  assumes "rep h l xs" "rep h m ys" "set (l # xs) \<inter> set (m # ys) = {}" "x \<in> set xs"
  shows "\<exists>h1 h2. del x h = Inr h1 \<and> app x m h1 = Inr h2 \<and>
           rep h2 l (remove1 x xs) \<and> rep h2 m (ys @ [x])"
proof -
  have d: "distinct (l # xs)" by (rule rep_distinct [OF assms(1)])
  obtain h1 where h1: "del x h = Inr h1" "rep h1 l (remove1 x xs)"
      "frame (set (l # remove1 x xs)) h h1"
    using del_law [OF assms(1,4)] by blast
  have "rep h1 m ys" using frame_rep [OF h1(3) assms(2)] assms(3) set_remove1_subset [of x xs] by auto
  moreover have "node h1 x" using rep_node [OF assms(1)] frame_node [OF h1(3)] assms(4) by simp
  moreover have "x \<notin> set (m # ys)" using assms by auto
  ultimately obtain h2 where h2: "app x m h1 = Inr h2" "rep h2 m (ys @ [x])"
      "frame (set (m # x # ys)) h1 h2"
    using app_law by blast
  have "rep h2 l (remove1 x xs)"
    using frame_rep [OF h2(3) h1(2)] assms(3,4) d set_remove1_subset [of x xs] by auto
  then show ?thesis using h1(1) h2 by blast
qed

text \<open>Nodes appended one after the other come out in that order.\<close>

fun app_all :: "'a list \<Rightarrow> 'a \<Rightarrow> 'h \<Rightarrow> 'h res" where
  "app_all [] l h = Inr h"
| "app_all (x # xs) l h = bindR (app x l h) (app_all xs l)"

lemma app_all_rep:
  assumes "rep h l xs" "distinct ys" "set ys \<inter> set (l # xs) = {}" "\<forall>y \<in> set ys. node h y"
  shows "\<exists>h'. app_all ys l h = Inr h' \<and> rep h' l (xs @ ys)"
  using assms
proof (induction ys arbitrary: h xs)
  case Nil
  then show ?case by simp
next
  case (Cons y ys)
  obtain h1 where h1: "app y l h = Inr h1" "rep h1 l (xs @ [y])" "frame (set (l # y # xs)) h h1"
    using app_law [OF Cons.prems(1), of y] Cons.prems by auto
  have "\<exists>h'. app_all ys l h1 = Inr h' \<and> rep h' l ((xs @ [y]) @ ys)"
    by (rule Cons.IH [OF h1(2)]) (use Cons.prems frame_node [OF h1(3)] in auto)
  then show ?case using h1(1) by simp
qed

end

lemma same_outside_dlist:
  assumes "same_outside A h h'" "dlist h m ys" "set (m # ys) \<inter> A = {}"
  shows "dlist h' m ys"
proof -
  have f: "fpath f zs \<longleftrightarrow> fpath g zs" if "\<forall>a \<in> set zs. f a = g a" for f g zs
    using that by (induction f zs rule: fpath.induct) auto
  have b: "bpath f zs \<longleftrightarrow> bpath g zs" if "\<forall>a \<in> set zs. f a = g a" for f g zs
    using that by (induction f zs rule: bpath.induct) auto
  have "\<forall>a \<in> set (m # ys @ [m]). nxt h' a = nxt h a \<and> prv h' a = prv h a"
    using assms(1,3) by (auto simp: same_outside_def)
  then show ?thesis
    using assms(2) f [of "m # ys @ [m]" "nxt h'" "nxt h"] b [of "m # ys @ [m]" "prv h'" "prv h"]
    unfolding dlist_def by blast
qed

interpretation lh: node_queue dlist is_node same_outside list_add list_append list_del
proof unfold_locales
  show "distinct (l # xs)" if "dlist h l xs" for h l xs using that by (simp add: dlist_def)
  show "is_node h a" if "dlist h l xs" "a \<in> set (l # xs)" for h l xs a
    using that by (rule dlist_node)
  show "\<exists>h'. list_add x l h = Inr h' \<and> dlist h' l (x # xs) \<and> same_outside (set (l # x # xs)) h h'"
    if "dlist h l xs" "x \<notin> set (l # xs)" "is_node h x" for h l xs x
    using that by (rule list_add_spec)
  show "\<exists>h'. list_append x l h = Inr h' \<and> dlist h' l (xs @ [x]) \<and>
      same_outside (set (l # x # xs)) h h'"
    if "dlist h l xs" "x \<notin> set (l # xs)" "is_node h x" for h l xs x
    using that by (rule list_append_spec)
  show "\<exists>h'. list_del x h = Inr h' \<and> dlist h' l (remove1 x xs) \<and>
      same_outside (set (l # remove1 x xs)) h h'"
    if "dlist h l xs" "x \<in> set xs" for h l xs x
    using list_del_spec [OF that] by blast
  show "dlist h' m ys" if "same_outside A h h'" "dlist h m ys" "set (m # ys) \<inter> A = {}" for A h h' m ys
    using that by (rule same_outside_dlist)
  show "is_node h' a = is_node h a" if "same_outside A h h'" for A h h' a
    using that by (simp add: same_outside_def)
qed


section \<open>Properties\<close>

definition demo_store :: lheap where
  "demo_store = \<lparr>nxt = [1 \<mapsto> 2, 2 \<mapsto> 3, 3 \<mapsto> 1, 4 \<mapsto> 4, 5 \<mapsto> 0],
     prv = [2 \<mapsto> 1, 3 \<mapsto> 2, 1 \<mapsto> 3, 4 \<mapsto> 4, 5 \<mapsto> 0]\<rparr>"

lemma demo_store_lists: "dlist demo_store 1 [2, 3]" "dlist demo_store 4 []" "is_node demo_store 5"
  by (simp_all add: dlist_def demo_store_def is_node_def)

text \<open>
  C36: on the pointer level, \<^verbatim>\<open>list_add\<close> and \<^verbatim>\<open>list_append\<close> on a
  well-formed circular list, empty or not, are insertion at the front and at the back,
  \<^verbatim>\<open>list_del\<close> of any of its nodes is removal, and \<^verbatim>\<open>list_empty\<close> tells
  whether it is empty; another list keeps its nodes throughout.
\<close>

theorem list_ops_refine:
  assumes "dlist h l xs" "dlist h m ys" "set (l # xs) \<inter> set (m # ys) = {}"
    and "new \<notin> set (l # xs)" "new \<notin> set (m # ys)" "is_node h new"
  shows "(\<exists>h'. list_add new l h = Inr h' \<and> dlist h' l (new # xs) \<and> dlist h' m ys) \<and>
    (\<exists>h'. list_append new l h = Inr h' \<and> dlist h' l (xs @ [new]) \<and> dlist h' m ys) \<and>
    (\<forall>x \<in> set xs. \<exists>h'. list_del x h = Inr h' \<and> dlist h' l (remove1 x xs) \<and> dlist h' m ys) \<and>
    list_empty l h = Inr (xs = [])"
proof (intro conjI ballI)
  have d: "set (m # ys) \<inter> set (l # new # xs) = {}" using assms(3,5) by auto
  show "\<exists>h'. list_add new l h = Inr h' \<and> dlist h' l (new # xs) \<and> dlist h' m ys"
    using list_add_spec [OF assms(1,4,6)] same_outside_dlist [OF _ assms(2) d] by blast
  show "\<exists>h'. list_append new l h = Inr h' \<and> dlist h' l (xs @ [new]) \<and> dlist h' m ys"
    using list_append_spec [OF assms(1,4,6)] same_outside_dlist [OF _ assms(2) d] by blast
  show "\<exists>h'. list_del x h = Inr h' \<and> dlist h' l (remove1 x xs) \<and> dlist h' m ys" if "x \<in> set xs" for x
  proof -
    have e: "set (m # ys) \<inter> set (l # remove1 x xs) = {}" using assms(3) set_remove1_subset [of x xs] by auto
    show ?thesis using list_del_spec [OF assms(1) that] same_outside_dlist [OF _ assms(2) e] by blast
  qed
  show "list_empty l h = Inr (xs = [])" by (rule list_empty_spec [OF assms(1)])
qed

text \<open>Once with the list of two nodes and once with the empty one.\<close>

theorem list_ops_refine_witness:
  "((\<exists>h'. list_add 5 1 demo_store = Inr h' \<and> dlist h' 1 [5, 2, 3] \<and> dlist h' 4 []) \<and>
    (\<exists>h'. list_append 5 1 demo_store = Inr h' \<and> dlist h' 1 [2, 3, 5] \<and> dlist h' 4 []) \<and>
    (\<exists>h'. list_del 3 demo_store = Inr h' \<and> dlist h' 1 [2] \<and> dlist h' 4 []) \<and>
    list_empty 1 demo_store = Inr False) \<and>
   ((\<exists>h'. list_add 5 4 demo_store = Inr h' \<and> dlist h' 4 [5] \<and> dlist h' 1 [2, 3]) \<and>
    list_empty 4 demo_store = Inr True)"
  using list_ops_refine [OF demo_store_lists(1,2) _ _ _ demo_store_lists(3)]
    list_ops_refine [OF demo_store_lists(2,1) _ _ _ demo_store_lists(3)] by simp

end
