(* ===== verification/Radix.thy ===== *)
theory Radix
  imports Prelude
begin

text \<open>
  The radix tree of \<^verbatim>\<open>kernel/common/radix.c\<close>: eight levels of nodes with 512 words each.
  A \<^verbatim>\<open>struct radix_node\<close> is a union of a child array and a value array, so a node is kept
  as its 512 words in an explicit store; whether a word is a child pointer or a value depends only
  on the level at which the code reads it. \<^verbatim>\<open>kzalloc\<close> (\<^verbatim>\<open>mm/kmalloc.c\<close>) is
  represented by the addresses it is going to return, \<open>0\<close> for a failed request.
\<close>

record radix =
  root :: u64
  value_deleter :: u64

record rheap =
  rmem :: "u64 \<Rightarrow> u64 list option"
  avail :: "u64 list"

definition RADIX_NODE_BITS :: nat where "RADIX_NODE_BITS = 9"
definition RADIX_NODE_SIZE :: nat where "RADIX_NODE_SIZE = 2 ^ RADIX_NODE_BITS"
definition RADIX_NODE_MASK :: u64 where "RADIX_NODE_MASK = of_nat RADIX_NODE_SIZE - 1"
definition RADIX_MAX_BITS :: nat where "RADIX_MAX_BITS = 64"
definition RADIX_LEVELS :: nat where
  "RADIX_LEVELS = (RADIX_MAX_BITS + RADIX_NODE_BITS - 1) div RADIX_NODE_BITS"

lemmas radix_consts = RADIX_NODE_BITS_def RADIX_NODE_SIZE_def RADIX_NODE_MASK_def
  RADIX_MAX_BITS_def RADIX_LEVELS_def

definition kzalloc_node :: "rheap \<Rightarrow> u64 \<times> rheap" where
  "kzalloc_node h =
     (case avail h of
        [] \<Rightarrow> (0, h)
      | a # s \<Rightarrow> if a = 0 then (0, h\<lparr>avail := s\<rparr>)
          else (a, h\<lparr>rmem := (rmem h)(a \<mapsto> replicate RADIX_NODE_SIZE 0), avail := s\<rparr>))"

definition rd_word :: "rheap \<Rightarrow> u64 \<Rightarrow> nat \<Rightarrow> u64 res" where
  "rd_word h a k = bindR (deref (rmem h a)) (\<lambda>ws. arr_get ws k)"

definition wr_word :: "rheap \<Rightarrow> u64 \<Rightarrow> nat \<Rightarrow> u64 \<Rightarrow> rheap res" where
  "wr_word h a k v = bindR (deref (rmem h a)) (\<lambda>ws.
     bindR (arr_set ws k v) (\<lambda>ws. Inr (h\<lparr>rmem := (rmem h)(a \<mapsto> ws)\<rparr>)))"

definition init_radix :: "rheap \<Rightarrow> (radix \<times> rheap) res" where
  "init_radix h = (let (n, h) = kzalloc_node h in
     bindR (bug_on (n = 0)) (\<lambda>_. Inr (\<lparr>root = n, value_deleter = 0\<rparr>, h)))"

definition init_radix_w_deleter :: "u64 \<Rightarrow> rheap \<Rightarrow> (radix \<times> rheap) res" where
  "init_radix_w_deleter d h = bindR (init_radix h) (\<lambda>(r, h). Inr (r\<lparr>value_deleter := d\<rparr>, h))"

definition new_radix_node :: "rheap \<Rightarrow> u64 \<times> rheap" where
  "new_radix_node h = (let (n, h) = kzalloc_node h in if n = 0 then (ERR_PTR (- ENOMEM), h) else (n, h))"

text \<open>The loop that fills \<^verbatim>\<open>u16 index[RADIX_LEVELS]\<close>, least significant digit first.\<close>

fun calc_index :: "nat \<Rightarrow> u64 \<Rightarrow> u16 list" where
  "calc_index 0 key = []"
| "calc_index (Suc n) key =
     ucast (key AND RADIX_NODE_MASK) # calc_index n (drop_bit RADIX_NODE_BITS key)"

text \<open>
  The loop over the intermediate levels: \<open>i\<close> is the C variable, and the loop body runs for
  \<open>i > 0\<close>. \<open>Inl\<close> is the early \<^verbatim>\<open>return\<close>.
\<close>

fun radix_descend_add :: "u16 list \<Rightarrow> nat \<Rightarrow> u64 \<Rightarrow> rheap \<Rightarrow> ((int + u64) \<times> rheap) res" where
  "radix_descend_add index 0 node h = Inr (Inr node, h)"
| "radix_descend_add index (Suc i) node h =
     bindR (arr_get index (Suc i)) (\<lambda>k.
     bindR (rd_word h node (unat k)) (\<lambda>c.
       if c = 0 then
         (let (new, h) = new_radix_node h in
          if IS_ERR new then Inr (Inl (- ENOMEM), h)
          else bindR (wr_word h node (unat k) new) (\<lambda>h.
               bindR (rd_word h node (unat k)) (\<lambda>node.
               radix_descend_add index i node h)))
       else radix_descend_add index i c h))"

definition radix_add :: "radix \<Rightarrow> u64 \<Rightarrow> u64 \<Rightarrow> rheap \<Rightarrow> (int \<times> radix \<times> rheap) res" where
  "radix_add r key v h =
     (let (st, r, h) =
        (if root r = 0 then
           (let (new, h) = new_radix_node h in
            if IS_ERR new then (- ENOMEM, r, h) else (0, r\<lparr>root := new\<rparr>, h))
         else (0, r, h)) in
      if st \<noteq> 0 then Inr (st, r, h)
      else
        let index = calc_index RADIX_LEVELS key in
        bindR (radix_descend_add index (RADIX_LEVELS - 1) (root r) h) (\<lambda>(x, h).
          case x of
            Inl e \<Rightarrow> Inr (e, r, h)
          | Inr node \<Rightarrow>
              bindR (arr_get index 0) (\<lambda>k.
              bindR (wr_word h node (unat k) v) (\<lambda>h. Inr (0, r, h)))))"

fun radix_descend_get :: "u16 list \<Rightarrow> nat \<Rightarrow> u64 \<Rightarrow> rheap \<Rightarrow> u64 option res" where
  "radix_descend_get index 0 node h = Inr (Some node)"
| "radix_descend_get index (Suc i) node h =
     bindR (arr_get index (Suc i)) (\<lambda>k.
     bindR (rd_word h node (unat k)) (\<lambda>c.
       if c = 0 then Inr None else radix_descend_get index i c h))"

definition radix_get :: "radix \<Rightarrow> u64 \<Rightarrow> rheap \<Rightarrow> u64 res" where
  "radix_get r key h =
     (if root r = 0 then Inr 0
      else
        let index = calc_index RADIX_LEVELS key in
        bindR (radix_descend_get index (RADIX_LEVELS - 1) (root r) h) (\<lambda>x.
          case x of
            None \<Rightarrow> Inr 0
          | Some node \<Rightarrow> bindR (arr_get index 0) (\<lambda>k. rd_word h node (unat k))))"

definition radix_del :: "radix \<Rightarrow> u64 \<Rightarrow> rheap \<Rightarrow> (int \<times> radix \<times> rheap) res" where
  "radix_del r key h = radix_add r key 0 h"

text \<open>
  \<^verbatim>\<open>radix_free_node\<close> counts \<^verbatim>\<open>node_level\<close> up to \<^verbatim>\<open>RADIX_LEVELS - 1\<close>;
  the first argument here is the number of levels below the node. What the function does is to call
  the deleter, so its result is the sequence of values the deleter is called with; no node is
  returned to the allocator.
\<close>

fun concatR :: "'a list res list \<Rightarrow> 'a list res" where
  "concatR [] = Inr []"
| "concatR (m # ms) = bindR m (\<lambda>xs. bindR (concatR ms) (\<lambda>ys. Inr (xs @ ys)))"

fun radix_free_node :: "nat \<Rightarrow> u64 \<Rightarrow> u64 \<Rightarrow> rheap \<Rightarrow> u64 list res" where
  "radix_free_node 0 node deleter h =
     (if deleter \<noteq> 0 then
        concatR (map (\<lambda>i. bindR (rd_word h node i) (\<lambda>v. Inr (if v \<noteq> 0 then [v] else [])))
          [0..<RADIX_NODE_SIZE])
      else Inr [])"
| "radix_free_node (Suc d) node deleter h =
     concatR (map (\<lambda>i. bindR (rd_word h node i) (\<lambda>c.
         if c \<noteq> 0 then radix_free_node d c deleter h else Inr []))
       [0..<RADIX_NODE_SIZE])"

definition radix_free :: "radix option \<Rightarrow> rheap \<Rightarrow> (int \<times> u64 list) res" where
  "radix_free r h =
     (case r of
        None \<Rightarrow> Inr (- EINVAL, [])
      | Some r \<Rightarrow> if root r = 0 then Inr (- EINVAL, [])
          else bindR (radix_free_node (RADIX_LEVELS - 1) (root r) (value_deleter r) h)
            (\<lambda>vs. Inr (0, vs)))"

section \<open>Digits of a key\<close>

lemma calc_index_length [simp]: "length (calc_index n key) = n"
  by (induction n arbitrary: key) auto

lemma calc_index_nth: "i < n \<Longrightarrow> unat (calc_index n key ! i) = unat (drop_bit (9 * i) key AND mask 9)"
proof (induction n arbitrary: key i)
  case (Suc n)
  have m: "RADIX_NODE_MASK = mask 9" by (simp add: radix_consts mask_eq_exp_minus_1)
  have u: "unat (ucast (x AND mask 9 :: u64) :: u16) = unat (x AND mask 9)" for x
  proof -
    have "unat (x AND mask 9) < 2 ^ 9" by (simp add: word_and_mask_unat)
    then show ?thesis by (simp add: unsigned_ucast_eq take_bit_eq_mod)
  qed
  show ?case
  proof (cases i)
    case 0
    then show ?thesis by (simp add: m u)
  next
    case (Suc j)
    then show ?thesis using Suc.IH [of j "drop_bit 9 key"] Suc.prems
      by (simp add: RADIX_NODE_BITS_def drop_bit_drop_bit ac_simps)
  qed
qed simp

lemma calc_index_bound: "i < n \<Longrightarrow> unat (calc_index n key ! i) < RADIX_NODE_SIZE"
  by (simp add: calc_index_nth word_and_mask_unat radix_consts)

lemma calc_index_inj:
  assumes "calc_index RADIX_LEVELS key = calc_index RADIX_LEVELS key'"
  shows "key = key'"
proof (rule bit_word_eqI)
  fix n assume "n < LENGTH(64)"
  then have n: "n div 9 < 8" by simp
  have L: "RADIX_LEVELS = 8" by (simp add: radix_consts)
  have "unat (drop_bit (9 * (n div 9)) key AND mask 9) = unat (drop_bit (9 * (n div 9)) key' AND mask 9)"
    using assms n calc_index_nth [of "n div 9" 8] by (simp only: L) metis
  then have "drop_bit (9 * (n div 9)) key AND mask 9 = drop_bit (9 * (n div 9)) key' AND mask 9"
    by (simp only: word_unat_eq_iff)
  then have "bit (drop_bit (9 * (n div 9)) key AND mask 9) (n mod 9) =
      bit (drop_bit (9 * (n div 9)) key' AND mask 9) (n mod 9)" by simp
  moreover have "n mod 9 < 64" using mod_less_divisor [of 9 n] by linarith
  ultimately show "bit key n = bit key' n"
    by (simp add: bit_simps)
qed

section \<open>Paths from the root\<close>

definition child :: "rheap \<Rightarrow> u64 \<Rightarrow> nat \<Rightarrow> u64" where
  "child h a k = (if a = 0 then 0 else case rmem h a of None \<Rightarrow> 0 | Some ws \<Rightarrow> ws ! k)"

fun rpath :: "rheap \<Rightarrow> u64 \<Rightarrow> nat list \<Rightarrow> u64" where
  "rpath h a [] = a"
| "rpath h a (k # ks) = rpath h (child h a k) ks"

definition inner_path :: "nat list \<Rightarrow> bool" where
  "inner_path p \<longleftrightarrow> length p \<le> 7 \<and> set p \<subseteq> {..<RADIX_NODE_SIZE}"

definition full_path :: "nat list \<Rightarrow> bool" where
  "full_path p \<longleftrightarrow> length p = 8 \<and> set p \<subseteq> {..<RADIX_NODE_SIZE}"

text \<open>
  The nodes hanging off the root form a tree: every reachable node is one block of 512 words, and
  no node is reachable on two paths.
\<close>

definition tree_ok :: "rheap \<Rightarrow> u64 \<Rightarrow> bool" where
  "tree_ok h r \<longleftrightarrow> r \<noteq> 0 \<and>
     (\<forall>p. inner_path p \<and> rpath h r p \<noteq> 0 \<longrightarrow>
        (\<exists>ws. rmem h (rpath h r p) = Some ws \<and> length ws = RADIX_NODE_SIZE)) \<and>
     (\<forall>p q. inner_path p \<and> inner_path q \<and> rpath h r p = rpath h r q \<and> rpath h r p \<noteq> 0 \<longrightarrow> p = q)"

definition avail_ok :: "rheap \<Rightarrow> bool" where
  "avail_ok h \<longleftrightarrow> distinct (filter (\<lambda>a. a \<noteq> 0) (avail h)) \<and>
     (\<forall>a \<in> set (avail h). a \<noteq> 0 \<longrightarrow> \<not> IS_ERR a \<and> rmem h a = None)"

definition radix_ok :: "radix \<Rightarrow> rheap \<Rightarrow> bool" where
  "radix_ok r h \<longleftrightarrow> avail_ok h \<and> (root r \<noteq> 0 \<longrightarrow> tree_ok h (root r))"

definition key_path :: "u64 \<Rightarrow> nat list" where
  "key_path key = map unat (rev (calc_index RADIX_LEVELS key))"

text \<open>The abstract map: the value stored under a key, \<open>0\<close> (NULL) if there is none.\<close>

definition radix_abs :: "radix \<Rightarrow> rheap \<Rightarrow> u64 \<Rightarrow> u64" where
  "radix_abs r h key = rpath h (root r) (key_path key)"

lemma child_0 [simp]: "child h 0 k = 0" by (simp add: child_def)

lemma rpath_0 [simp]: "rpath h 0 p = 0" by (induction p) auto

lemma rpath_append: "rpath h a (p @ q) = rpath h (rpath h a p) q"
  by (induction p arbitrary: a) auto

lemma inner_path_snoc: "inner_path (p @ [k]) \<longleftrightarrow> length p < 7 \<and> inner_path p \<and> k < RADIX_NODE_SIZE"
  by (auto simp: inner_path_def)

lemma key_path_full: "full_path (key_path key)"
  using calc_index_bound [of _ RADIX_LEVELS key]
  by (force simp: full_path_def key_path_def in_set_conv_nth radix_consts)

lemma key_path_inj: "key_path key = key_path key' \<longleftrightarrow> key = key'"
proof
  assume "key_path key = key_path key'"
  then have "calc_index RADIX_LEVELS key = calc_index RADIX_LEVELS key'"
    unfolding key_path_def rev_map [symmetric] rev_is_rev_conv
    by (rule map_injective) (simp add: inj_def word_unat_eq_iff)
  then show "key = key'" by (rule calc_index_inj)
qed simp

text \<open>
  The one step by which the tree changes: word \<open>k\<close> of the node on path \<open>ks\<close> is overwritten, at an
  inner node only from NULL to a fresh zeroed node. On paths it is a point update.
\<close>

lemma rpath_update:
  assumes ok: "tree_ok h r" and ks: "inner_path ks" "k < RADIX_NODE_SIZE" and a: "rpath h r ks = a" "a \<noteq> 0"
    and ws: "rmem h a = Some ws"
    and upd: "rmem h' a = Some (ws[k := v])" "\<And>b. b \<noteq> a \<Longrightarrow> rmem h b \<noteq> None \<Longrightarrow> rmem h' b = rmem h b"
    and inner: "length ks < 7 \<Longrightarrow>
       ws ! k = 0 \<and> v \<noteq> 0 \<and> rmem h v = None \<and> rmem h' v = Some (replicate RADIX_NODE_SIZE 0)"
    and p: "inner_path p \<or> full_path p"
  shows "rpath h' r p = (if p = ks @ [k] then v else rpath h r p)"
  using p
proof (induction p rule: rev_induct)
  case (snoc j p)
  have ip: "inner_path p" and j: "j < RADIX_NODE_SIZE"
    using snoc.prems by (auto simp: inner_path_def full_path_def)
  have IH: "rpath h' r p = (if p = ks @ [k] then v else rpath h r p)" using snoc.IH ip by simp
  have len: "length ws = RADIX_NODE_SIZE" using ok ks a ws by (auto simp: tree_ok_def)
  show ?case
  proof (cases "p = ks @ [k]")
    case True
    with ip have "length ks < 7" by (simp add: inner_path_def)
    note i = inner [OF this]
    have "rpath h r p = 0" using True a ws i by (simp add: rpath_append child_def)
    then have "rpath h r (p @ [j]) = 0" by (simp add: rpath_append)
    moreover have "rpath h' r (p @ [j]) = 0" using IH True i j by (simp add: rpath_append child_def)
    ultimately show ?thesis using True by simp
  next
    case False
    then have eq: "rpath h' r p = rpath h r p" using IH by simp
    show ?thesis
    proof (cases "p = ks")
      case True
      then show ?thesis using eq a ws upd(1) j ks(2) len
        by (simp add: rpath_append child_def nth_list_update)
    next
      case ne: False
      then have "rpath h r p \<noteq> 0 \<Longrightarrow> rpath h r p \<noteq> a"
        using ok ip ks a unfolding tree_ok_def by metis
      moreover have "rpath h r p \<noteq> 0 \<Longrightarrow> rmem h (rpath h r p) \<noteq> None"
        using ok ip unfolding tree_ok_def by force
      ultimately have "child h' (rpath h r p) j = child h (rpath h r p) j"
        using upd(2) by (simp add: child_def)
      then show ?thesis using eq ne by (simp add: rpath_append)
    qed
  qed
qed simp

lemma tree_ok_update:
  assumes ok: "tree_ok h r" and ks: "inner_path ks" "k < RADIX_NODE_SIZE" and a: "rpath h r ks = a" "a \<noteq> 0"
    and ws: "rmem h a = Some ws"
    and upd: "rmem h' a = Some (ws[k := v])" "\<And>b. b \<noteq> a \<Longrightarrow> rmem h b \<noteq> None \<Longrightarrow> rmem h' b = rmem h b"
    and inner: "length ks < 7 \<Longrightarrow>
       ws ! k = 0 \<and> v \<noteq> 0 \<and> rmem h v = None \<and> rmem h' v = Some (replicate RADIX_NODE_SIZE 0)"
  shows "tree_ok h' r"
proof -
  note up = rpath_update [OF ok ks a ws upd inner]
  have dom: "\<exists>ws. rmem h (rpath h r p) = Some ws \<and> length ws = RADIX_NODE_SIZE"
    if "inner_path p" "rpath h r p \<noteq> 0" for p
    using ok that by (simp add: tree_ok_def)
  have new: "p = ks @ [k] \<Longrightarrow> inner_path p \<Longrightarrow> length ks < 7" for p by (simp add: inner_path_snoc)
  have 1: "\<exists>ws. rmem h' (rpath h' r p) = Some ws \<and> length ws = RADIX_NODE_SIZE"
    if "inner_path p" "rpath h' r p \<noteq> 0" for p
  proof (cases "p = ks @ [k]")
    case True
    then show ?thesis using inner new that up [of p] by simp
  next
    case False
    note pth = that
    have eq: "rpath h' r p = rpath h r p" using False that up [of p] by simp
    obtain ws' where w: "rmem h (rpath h r p) = Some ws'" "length ws' = RADIX_NODE_SIZE"
      using dom [of p] pth eq by auto
    show ?thesis
    proof (cases "rpath h r p = a")
      case True
      then show ?thesis using w eq upd(1) ws by simp
    next
      case False
      then show ?thesis using w eq upd(2) [OF False] by simp
    qed
  qed
  have 2: "p = q" if "inner_path p" "inner_path q" "rpath h' r p = rpath h' r q" "rpath h' r p \<noteq> 0" for p q
  proof -
    have old: "rpath h r p' \<noteq> v" if "inner_path p'" "rpath h r p' \<noteq> 0" "length ks < 7" for p'
      using dom [OF that(1,2)] inner [OF that(3)] by auto
    show ?thesis
      using that old new [of p] new [of q] up [of p] up [of q] ok
      unfolding tree_ok_def by (smt (verit, ccfv_threshold))
  qed
  show ?thesis using ok 1 2 unfolding tree_ok_def by blast
qed


section \<open>The operations on the abstract map\<close>

text \<open>The indices from level \<open>i\<close> down to level 1, as the loops take them.\<close>

definition lower :: "u16 list \<Rightarrow> nat \<Rightarrow> nat list" where
  "lower index i = map (\<lambda>j. unat (index ! j)) (rev [1..<Suc i])"

lemma lower_simps [simp]:
  "lower index 0 = []"
  "lower index (Suc i) = unat (index ! Suc i) # lower index i"
  by (simp_all add: lower_def)

lemma key_path_lower:
  "key_path key = lower (calc_index RADIX_LEVELS key) 7 @ [unat (calc_index RADIX_LEVELS key ! 0)]"
proof -
  have L: "RADIX_LEVELS = 8" by (simp add: radix_consts)
  have "rev (calc_index 8 key) = map ((!) (calc_index 8 key)) (rev [0..<8])"
    by (metis calc_index_length map_nth rev_map)
  moreover have "[0..<8] = 0 # [1..<Suc 7]" by (simp add: upt_rec)
  ultimately have "rev (calc_index 8 key) = map ((!) (calc_index 8 key)) (rev [1..<Suc 7] @ [0])"
    by (simp only: rev.simps)
  then show ?thesis by (simp only: key_path_def L lower_def map_append map_map comp_def list.map)
qed

lemma lower_inner: "i \<le> 7 \<Longrightarrow> inner_path (lower (calc_index RADIX_LEVELS key) i)"
  using calc_index_bound [of _ RADIX_LEVELS key]
  by (auto simp: inner_path_def lower_def radix_consts)

lemma tree_ok_rd:
  assumes "tree_ok h r" "inner_path p" "rpath h r p \<noteq> 0" "k < RADIX_NODE_SIZE"
  shows "rd_word h (rpath h r p) k = Inr (rpath h r (p @ [k]))"
  using assms by (force simp: tree_ok_def rd_word_def rpath_append child_def)

lemma descend_get:
  assumes ok: "tree_ok h r" and ix: "\<forall>j < length index. unat (index ! j) < RADIX_NODE_SIZE"
    and len: "i < length index" "length p + i = 7" "inner_path p" and nz: "rpath h r p \<noteq> 0"
  shows "radix_descend_get index i (rpath h r p) h =
    Inr (let b = rpath h r (p @ lower index i) in if b = 0 then None else Some b)"
  using len nz
proof (induction i arbitrary: p)
  case (Suc i)
  let ?k = "unat (index ! Suc i)"
  have k: "?k < RADIX_NODE_SIZE" using ix Suc.prems by simp
  have rd: "rd_word h (rpath h r p) ?k = Inr (rpath h r (p @ [?k]))"
    by (rule tree_ok_rd) (use ok Suc.prems k in auto)
  show ?case
  proof (cases "rpath h r (p @ [?k]) = 0")
    case True
    then have "rpath h r ((p @ [?k]) @ lower index i) = 0" by (subst rpath_append) simp
    then show ?thesis using Suc.prems rd True by simp
  next
    case False
    have "radix_descend_get index i (rpath h r (p @ [?k])) h =
      Inr (let b = rpath h r ((p @ [?k]) @ lower index i) in if b = 0 then None else Some b)"
      using Suc.prems k False by (intro Suc.IH) (auto simp: inner_path_snoc)
    then show ?thesis using Suc.prems rd False by simp
  qed
qed (simp add: Let_def)

theorem radix_get_abs:
  assumes "radix_ok r h"
  shows "radix_get r key h = Inr (radix_abs r h key)"
proof (cases "root r = 0")
  case True
  then show ?thesis by (simp add: radix_get_def radix_abs_def)
next
  case False
  then have ok: "tree_ok h (root r)" using assms by (simp add: radix_ok_def)
  define ix where "ix = calc_index RADIX_LEVELS key"
  have L: "RADIX_LEVELS = 8" by (simp add: radix_consts)
  have bd: "\<forall>j < length ix. unat (ix ! j) < RADIX_NODE_SIZE" "length ix = 8"
    using calc_index_bound [of _ RADIX_LEVELS key] by (simp_all add: ix_def L)
  define b where "b = rpath h (root r) (lower ix 7)"
  have inn: "inner_path (lower ix 7)" using lower_inner [of 7 key] by (simp add: ix_def)
  have "radix_descend_get ix 7 (root r) h = Inr (if b = 0 then None else Some b)"
    using descend_get [OF ok bd(1), of 7 "[]"] bd(2) False
    by (simp add: b_def inner_path_def Let_def)
  moreover have "radix_abs r h key = rpath h (root r) (lower ix 7 @ [unat (ix ! 0)])"
    by (simp add: radix_abs_def key_path_lower ix_def)
  moreover have "b \<noteq> 0 \<Longrightarrow> rd_word h b (unat (ix ! 0)) = Inr (rpath h (root r) (lower ix 7 @ [unat (ix ! 0)]))"
    unfolding b_def by (rule tree_ok_rd [OF ok inn]) (use bd in auto)
  moreover have "b = 0 \<Longrightarrow> rpath h (root r) (lower ix 7 @ [unat (ix ! 0)]) = 0"
    by (simp add: b_def rpath_append)
  ultimately show ?thesis
    using False bd(2) by (auto simp: radix_get_def L Let_def simp flip: ix_def [unfolded L])
qed

lemma new_node_spec:
  assumes "avail_ok h" "new_radix_node h = (n, h')"
  shows "avail_ok h'"
    and "IS_ERR n \<Longrightarrow> rmem h' = rmem h \<and> (avail h = [] \<or> hd (avail h) = 0)"
    and "\<not> IS_ERR n \<Longrightarrow> n \<noteq> 0 \<and> rmem h n = None \<and> n \<notin> set (avail h') \<and> avail h = n # avail h' \<and>
           rmem h' = (rmem h)(n \<mapsto> replicate RADIX_NODE_SIZE 0)"
  using assms
  by (auto simp: new_radix_node_def kzalloc_node_def avail_ok_def errno_defs ERR_PTR_def IS_ERR_def
      split: list.splits if_splits)


lemma descend_add:
  assumes ix: "\<forall>j < length index. unat (index ! j) < RADIX_NODE_SIZE"
  shows "tree_ok h r \<Longrightarrow> avail_ok h \<Longrightarrow> i < length index \<Longrightarrow> length p + i = 7 \<Longrightarrow> inner_path p \<Longrightarrow>
    rpath h r p \<noteq> 0 \<Longrightarrow>
    \<exists>x h'. radix_descend_add index i (rpath h r p) h = Inr (x, h') \<and> tree_ok h' r \<and> avail_ok h' \<and>
      (\<forall>q. full_path q \<longrightarrow> rpath h' r q = rpath h r q) \<and>
      (case x of
         Inl e \<Rightarrow> e = - ENOMEM \<and> (length (avail h) < i \<or> 0 \<in> set (take i (avail h)))
       | Inr b \<Rightarrow> b \<noteq> 0 \<and> b = rpath h' r (p @ lower index i))"
proof (induction i arbitrary: p h)
  case (Suc i)
  let ?k = "unat (index ! Suc i)" and ?n = "rpath h r p"
  have k: "?k < RADIX_NODE_SIZE" using ix Suc.prems by simp
  obtain ws where ws: "rmem h ?n = Some ws" "length ws = RADIX_NODE_SIZE"
    using Suc.prems by (auto simp: tree_ok_def)
  have rd: "rd_word h ?n ?k = Inr (rpath h r (p @ [?k]))" "rpath h r (p @ [?k]) = ws ! ?k"
    using tree_ok_rd [OF Suc.prems(1,5,6) k] Suc.prems(6) ws
    by (simp_all add: rpath_append child_def)
  have inn: "inner_path (p @ [?k])" "length (p @ [?k]) + i = 7"
    using Suc.prems k by (auto simp: inner_path_snoc)
  show ?case
  proof (cases "rpath h r (p @ [?k]) = 0")
    case False
    obtain x h' where IH: "radix_descend_add index i (rpath h r (p @ [?k])) h = Inr (x, h')"
      "tree_ok h' r \<and> avail_ok h' \<and> (\<forall>q. full_path q \<longrightarrow> rpath h' r q = rpath h r q)"
      "case x of Inl e \<Rightarrow> e = - ENOMEM \<and> (length (avail h) < i \<or> 0 \<in> set (take i (avail h)))
       | Inr b \<Rightarrow> b \<noteq> 0 \<and> b = rpath h' r ((p @ [?k]) @ lower index i)"
      using Suc.IH [OF Suc.prems(1,2) _ inn(2,1) False] Suc.prems(3) by force
    have "set (take i (avail h)) \<subseteq> set (take (Suc i) (avail h))" by (simp add: set_take_subset_set_take)
    then show ?thesis using IH rd Suc.prems(3) False by (fastforce split: sum.splits)
  next
    case True
    obtain n h1 where n: "new_radix_node h = (n, h1)" by fastforce
    note ns = new_node_spec [OF Suc.prems(2) n]
    show ?thesis
    proof (cases "IS_ERR n")
      case err: True
      have eq: "rpath h1 r q = rpath h r q" for q
      proof -
        have "child h1 = child h" using ns(2) [OF err] by (auto simp: child_def fun_eq_iff)
        then have "rpath h1 a q = rpath h a q" for a by (induction q arbitrary: a) auto
        then show ?thesis .
      qed
      have m: "rmem h1 = rmem h" using ns(2) [OF err] by simp
      have "tree_ok h1 r" using Suc.prems(1) unfolding tree_ok_def eq m .
      then show ?thesis
        using rd True n err ns(1) ns(2) [OF err] eq Suc.prems(3)
        by (cases "avail h") auto
    next
      case False
      note nn = ns(3) [OF False]
      define h2 where "h2 = h1\<lparr>rmem := (rmem h1)(?n \<mapsto> ws[?k := n])\<rparr>"
      have ne: "n \<noteq> ?n" using nn ws by auto
      have up: "rmem h2 ?n = Some (ws[?k := n])"
        "\<And>b. b \<noteq> ?n \<Longrightarrow> rmem h b \<noteq> None \<Longrightarrow> rmem h2 b = rmem h b"
        "ws ! ?k = 0 \<and> n \<noteq> 0 \<and> rmem h n = None \<and> rmem h2 n = Some (replicate RADIX_NODE_SIZE 0)"
        using nn ne True rd(2) by (auto simp: h2_def)
      note path = rpath_update [OF Suc.prems(1,5) k refl Suc.prems(6) ws(1) up]
      have t2: "tree_ok h2 r" by (rule tree_ok_update [OF Suc.prems(1,5) k refl Suc.prems(6) ws(1) up])
      have a2: "avail_ok h2" using ns(1) nn Suc.prems(2) ws unfolding h2_def avail_ok_def by auto
      have pn: "rpath h2 r (p @ [?k]) = n" "rpath h2 r p = ?n"
        using path [of "p @ [?k]"] path [of p] inn Suc.prems(5) by auto
      have full: "\<forall>q. full_path q \<longrightarrow> rpath h2 r q = rpath h r q"
        using path inn by (auto simp: full_path_def)
      have wr: "wr_word h1 ?n ?k n = Inr h2"
        using nn ne ws k by (simp add: wr_word_def h2_def)
      have rd2: "rd_word h2 ?n ?k = Inr n"
        using up(1) k ws by (simp add: rd_word_def)
      obtain x h' where IH: "radix_descend_add index i n h2 = Inr (x, h')"
        "tree_ok h' r \<and> avail_ok h' \<and> (\<forall>q. full_path q \<longrightarrow> rpath h' r q = rpath h2 r q)"
        "case x of Inl e \<Rightarrow> e = - ENOMEM \<and> (length (avail h2) < i \<or> 0 \<in> set (take i (avail h2)))
         | Inr b \<Rightarrow> b \<noteq> 0 \<and> b = rpath h' r ((p @ [?k]) @ lower index i)"
        using Suc.IH [OF t2 a2 _ inn(2,1)] Suc.prems(3) pn nn by force
      have "avail h2 = avail h1" by (simp add: h2_def)
      then show ?thesis using IH rd True n False wr rd2 full nn Suc.prems(3)
        by (auto split: sum.splits)
    qed
  qed
qed simp


text \<open>
  The whole operation. It either stores the value and leaves every other key alone, or reports
  \<^verbatim>\<open>-ENOMEM\<close> with every key unchanged; it succeeds when eight nodes are available.
\<close>

lemma radix_add_cases:
  assumes "radix_ok r h"
  obtains r' h' where "radix_add r key v h = Inr (0, r', h')" "radix_ok r' h'"
      "\<And>k. radix_abs r' h' k = (if k = key then v else radix_abs r h k)"
      "root r' \<noteq> 0" "value_deleter r' = value_deleter r"
  | r' h' where "radix_add r key v h = Inr (- ENOMEM, r', h')" "radix_ok r' h'"
      "\<And>k. radix_abs r' h' k = radix_abs r h k" "value_deleter r' = value_deleter r"
      "length (avail h) < 8 \<or> 0 \<in> set (take 8 (avail h))"
proof -
  note res = that
  define ix where "ix = calc_index RADIX_LEVELS key"
  have L: "RADIX_LEVELS = 8" by (simp add: radix_consts)
  have bd: "\<forall>j < length ix. unat (ix ! j) < RADIX_NODE_SIZE" "length ix = 8"
    using calc_index_bound [of _ RADIX_LEVELS key] by (simp_all add: ix_def L)
  have kp: "key_path key = lower ix 7 @ [unat (ix ! 0)]" "inner_path (lower ix 7)"
    using key_path_lower [of key] lower_inner [of 7 key] by (simp_all add: ix_def)
  have E: "- ENOMEM \<noteq> 0" by (simp add: errno_defs)
  have key: thesis
    if t: "tree_ok h1 (root r1)" and a: "avail_ok h1"
      and abs1: "\<And>k. radix_abs r1 h1 k = radix_abs r h k" "value_deleter r1 = value_deleter r"
      and eq: "radix_add r key v h = bindR (radix_descend_add ix 7 (root r1) h1) (\<lambda>(x, h).
          case x of Inl e \<Rightarrow> Inr (e, r1, h)
          | Inr node \<Rightarrow> bindR (arr_get ix 0) (\<lambda>k.
              bindR (wr_word h node (unat k) v) (\<lambda>h. Inr (0, r1, h))))"
      and av: "length (avail h1) < 7 \<or> 0 \<in> set (take 7 (avail h1)) \<Longrightarrow>
                 length (avail h) < 8 \<or> 0 \<in> set (take 8 (avail h))" for r1 h1
  proof -
    have r1: "root r1 \<noteq> 0" using t by (simp add: tree_ok_def)
    obtain x h2 where d: "radix_descend_add ix 7 (root r1) h1 = Inr (x, h2)" "tree_ok h2 (root r1)"
        "avail_ok h2" "\<And>q. full_path q \<Longrightarrow> rpath h2 (root r1) q = rpath h1 (root r1) q"
        "case x of Inl e \<Rightarrow> e = - ENOMEM \<and> (length (avail h1) < 7 \<or> 0 \<in> set (take 7 (avail h1)))
         | Inr b \<Rightarrow> b \<noteq> 0 \<and> b = rpath h2 (root r1) (lower ix 7)"
      using descend_add [OF bd(1) t a, of 7 "[]", unfolded append_Nil] bd(2) r1
      by (force simp: inner_path_def)
    have abs2: "rpath h2 (root r1) (key_path k) = radix_abs r h k" for k
      using d(4) [OF key_path_full] abs1(1) by (simp add: radix_abs_def)
    show thesis
    proof (cases x)
      case (Inl e)
      show thesis
        by (rule res(2) [of r1 h2])
          (use Inl d eq abs2 av abs1 in \<open>auto simp: radix_ok_def radix_abs_def\<close>)
    next
      case (Inr b)
      let ?k = "unat (ix ! 0)"
      have b: "rpath h2 (root r1) (lower ix 7) = b" "b \<noteq> 0" using Inr d(5) by auto
      have k: "?k < RADIX_NODE_SIZE" using bd by simp
      obtain ws where ws: "rmem h2 b = Some ws" "length ws = RADIX_NODE_SIZE"
        using d(2) kp(2) b unfolding tree_ok_def by metis
      define h3 where "h3 = h2\<lparr>rmem := (rmem h2)(b \<mapsto> ws[?k := v])\<rparr>"
      have wr: "wr_word h2 b ?k v = Inr h3" using ws k by (simp add: wr_word_def h3_def)
      have up: "rmem h3 b = Some (ws[?k := v])" "\<And>c. c \<noteq> b \<Longrightarrow> rmem h3 c = rmem h2 c"
        by (simp_all add: h3_def)
      have l7: "\<not> length (lower ix 7) < 7" by (simp add: lower_def)
      have t3: "tree_ok h3 (root r1)"
        by (rule tree_ok_update [OF d(2) kp(2) k b ws(1) up]) (use l7 in auto)
      have a3: "avail_ok h3" using d(3) ws by (auto simp: avail_ok_def h3_def)
      have "rpath h3 (root r1) (key_path k') = (if key_path k' = key_path key then v
          else rpath h2 (root r1) (key_path k'))" for k'
        unfolding kp(1) [symmetric]
        by (subst rpath_update [OF d(2) kp(2) k b ws(1) up])
          (use l7 key_path_full kp(1) in auto)
      then have "radix_abs r1 h3 k' = (if k' = key then v else radix_abs r h k')" for k'
        using abs2 by (simp add: radix_abs_def key_path_inj)
      moreover have "radix_add r key v h = Inr (0, r1, h3)" using eq d(1) Inr bd(2) wr by simp
      ultimately show thesis using res(1) [of r1 h3] t3 a3 r1 abs1(2) by (simp add: radix_ok_def)
    qed
  qed
  show thesis
  proof (cases "root r = 0")
    case False
    then have "radix_ok r h \<Longrightarrow> tree_ok h (root r)" "radix_ok r h \<Longrightarrow> avail_ok h"
      by (simp_all add: radix_ok_def)
    moreover have "set (take 7 (avail h)) \<subseteq> set (take 8 (avail h))" by (simp add: set_take_subset_set_take)
    ultimately show thesis
      using assms False by (intro key [of h r]) (auto simp: radix_add_def ix_def L Let_def cong: sum.case_cong)
  next
    case True
    obtain n h1 where n: "new_radix_node h = (n, h1)" by fastforce
    have a: "avail_ok h" using assms by (simp add: radix_ok_def)
    note ns = new_node_spec [OF a n]
    have abs0: "radix_abs r g k = 0" for g k using True by (simp add: radix_abs_def)
    show thesis
    proof (cases "IS_ERR n")
      case err: True
      have "length (avail h) < 8 \<or> 0 \<in> set (take 8 (avail h))"
        using ns(2) [OF err] by (cases "avail h") auto
      moreover have "radix_add r key v h = Inr (- ENOMEM, r, h1)"
        using True n err E by (simp add: radix_add_def)
      ultimately show thesis
        using res(2) [of r h1] ns(1) True abs0 by (simp add: radix_ok_def)
    next
      case False
      note nn = ns(3) [OF False]
      have z: "rpath h1 n (k # p) = 0" if "k < RADIX_NODE_SIZE" for k p
        using nn that by (simp add: child_def)
      have nz: "rpath h1 n p \<noteq> 0 \<Longrightarrow> set p \<subseteq> {..<RADIX_NODE_SIZE} \<Longrightarrow> p = []" for p
        using z by (cases p) auto
      have "tree_ok h1 n"
        using nn nz unfolding tree_ok_def inner_path_def by (metis fun_upd_same length_replicate rpath.simps(1))
      moreover have "radix_abs (r\<lparr>root := n\<rparr>) h1 k = 0" for k
        using key_path_full [of k] nz [of "key_path k"]
        by (cases "rpath h1 n (key_path k) = 0") (auto simp: radix_abs_def full_path_def)
      moreover have "length (avail h1) < 7 \<or> 0 \<in> set (take 7 (avail h1)) \<Longrightarrow>
          length (avail h) < 8 \<or> 0 \<in> set (take 8 (avail h))"
        using nn by auto
      ultimately show thesis
        using True n False ns(1) abs0
        by (intro key [of h1 "r\<lparr>root := n\<rparr>"]) (auto simp: radix_add_def ix_def L Let_def cong: sum.case_cong)
    qed
  qed
qed


section \<open>Freeing a tree\<close>

text \<open>All digit strings of a length over the 512 indices, in the order of the loops.\<close>

fun digit_strings :: "nat \<Rightarrow> nat list list" where
  "digit_strings 0 = [[]]"
| "digit_strings (Suc n) = concat (map (\<lambda>i. map (Cons i) (digit_strings n)) [0..<RADIX_NODE_SIZE])"

lemma digit_strings_mem:
  "q \<in> set (digit_strings n) \<longleftrightarrow> length q = n \<and> set q \<subseteq> {..<RADIX_NODE_SIZE}"
proof (induction n arbitrary: q)
  case (Suc n)
  have "q \<in> set (digit_strings (Suc n)) \<longleftrightarrow>
      (\<exists>i q'. q = i # q' \<and> i < RADIX_NODE_SIZE \<and> q' \<in> set (digit_strings n))"
    by auto
  then show ?case by (auto simp: Suc.IH length_Suc_conv)
qed auto

lemma concatR_map: "(\<And>i. i \<in> set js \<Longrightarrow> f i = Inr (g i)) \<Longrightarrow> concatR (map f js) = Inr (concat (map g js))"
  by (induction js) auto

lemma free_node_spec:
  assumes ok: "tree_ok h r" and d: "deleter \<noteq> 0"
  shows "inner_path p \<Longrightarrow> length p + n = 7 \<Longrightarrow> rpath h r p \<noteq> 0 \<Longrightarrow>
    radix_free_node n (rpath h r p) deleter h =
      Inr (filter (\<lambda>v. v \<noteq> 0) (map (\<lambda>q. rpath h r (p @ q)) (digit_strings (Suc n))))"
proof (induction n arbitrary: p)
  case 0
  let ?f = "\<lambda>i. bindR (rd_word h (rpath h r p) i) (\<lambda>v. Inr (if v \<noteq> 0 then [v] else []))"
  let ?g = "\<lambda>i. if rpath h r (p @ [i]) \<noteq> 0 then [rpath h r (p @ [i])] else []"
  have "?f i = Inr (?g i)" if "i \<in> set [0..<RADIX_NODE_SIZE]" for i
    using tree_ok_rd [OF ok 0(1,3), of i] that by simp
  then have "concatR (map ?f [0..<RADIX_NODE_SIZE]) = Inr (concat (map ?g [0..<RADIX_NODE_SIZE]))"
    by (rule concatR_map)
  moreover have "concat (map ?g js) = filter (\<lambda>v. v \<noteq> 0) (map (\<lambda>i. rpath h r (p @ [i])) js)" for js
    by (induction js) auto
  moreover have "concat (map (\<lambda>i. [[i]]) js) = map (\<lambda>i. [i]) js" for js :: "nat list"
    by (induction js) auto
  ultimately show ?case using d by (simp add: comp_def)
next
  case (Suc n)
  let ?g = "\<lambda>i. filter (\<lambda>v. v \<noteq> 0) (map (\<lambda>q. rpath h r (p @ i # q)) (digit_strings (Suc n)))"
  let ?f = "\<lambda>i. bindR (rd_word h (rpath h r p) i) (\<lambda>c.
         if c \<noteq> 0 then radix_free_node n c deleter h else Inr [])"
  have "?f i = Inr (?g i)" if "i \<in> set [0..<RADIX_NODE_SIZE]" for i
  proof (cases "rpath h r (p @ [i]) = 0")
    case True
    have "rpath h r (p @ i # q) = 0" for q
      using True rpath_append [of h r "p @ [i]" q] by simp
    then show ?thesis using tree_ok_rd [OF ok Suc.prems(1,3), of i] that True by simp
  next
    case False
    have "inner_path (p @ [i])" using Suc.prems that by (simp add: inner_path_snoc)
    from Suc.IH [OF this _ False] show ?thesis
      using tree_ok_rd [OF ok Suc.prems(1,3), of i] that False Suc.prems(2) by simp
  qed
  then have "concatR (map ?f [0..<RADIX_NODE_SIZE]) = Inr (concat (map ?g [0..<RADIX_NODE_SIZE]))"
    by (rule concatR_map)
  then show ?case by (simp add: filter_concat map_concat comp_def del: digit_strings.simps(2)
      add: digit_strings.simps(2) [of "Suc n"])
qed

lemma radix_free_spec:
  assumes "radix_ok r h" "root r \<noteq> 0" "value_deleter r \<noteq> 0"
  shows "radix_free (Some r) h =
    Inr (0, filter (\<lambda>v. v \<noteq> 0) (map (rpath h (root r)) (digit_strings RADIX_LEVELS)))"
proof -
  have "tree_ok h (root r)" using assms by (simp add: radix_ok_def)
  from free_node_spec [OF this assms(3), of "[]" 7] show ?thesis
    using assms(2) by (simp add: radix_free_def inner_path_def radix_consts)
qed

section \<open>The contract of a key-value store that may run out of memory\<close>

locale key_store =
  fixes ok :: "'s \<Rightarrow> bool"
    and look :: "'s \<Rightarrow> 'k \<Rightarrow> 'v"
    and get :: "'k \<Rightarrow> 's \<Rightarrow> 'v res"
    and put :: "'k \<Rightarrow> 'v \<Rightarrow> 's \<Rightarrow> (int \<times> 's) res"
  assumes get_law: "ok s \<Longrightarrow> get k s = Inr (look s k)"
    and put_law: "ok s \<Longrightarrow> \<exists>e s'. put k v s = Inr (e, s') \<and> ok s' \<and>
      look s' = (if e = 0 then (look s)(k := v) else look s)"
begin

text \<open>A batch of insertions, stopped by the first failure.\<close>

fun put_all :: "('k \<times> 'v) list \<Rightarrow> 's \<Rightarrow> (nat \<times> 's) res" where
  "put_all [] s = Inr (0, s)"
| "put_all ((k, v) # kvs) s = bindR (put k v s) (\<lambda>(e, s).
     if e = 0 then bindR (put_all kvs s) (\<lambda>(n, s). Inr (Suc n, s)) else Inr (0, s))"

lemma put_all_look:
  assumes "ok s"
  shows "\<exists>n s'. put_all kvs s = Inr (n, s') \<and> ok s' \<and> n \<le> length kvs \<and>
    look s' = foldl (\<lambda>f kv. f(fst kv := snd kv)) (look s) (take n kvs)"
  using assms
proof (induction kvs arbitrary: s)
  case (Cons kv kvs)
  obtain k v where kv: "kv = (k, v)" by force
  obtain e s1 where p: "put k v s = Inr (e, s1)" "ok s1"
      "look s1 = (if e = 0 then (look s)(k := v) else look s)"
    using put_law [OF Cons.prems] by blast
  show ?case
  proof (cases "e = 0")
    case True
    obtain n s2 where "put_all kvs s1 = Inr (n, s2)" "ok s2" "n \<le> length kvs"
        "look s2 = foldl (\<lambda>f kv. f(fst kv := snd kv)) (look s1) (take n kvs)"
      using Cons.IH [OF p(2)] by blast
    then show ?thesis using p True kv by (intro exI [of _ "Suc n"] exI [of _ s2]) (simp del: fun_upd_apply)
  next
    case False
    then show ?thesis using p kv by (intro exI [of _ 0] exI [of _ s1]) simp
  qed
qed simp

lemma put_get:
  assumes "ok s" "put k v s = Inr (e, s')"
  shows "get k' s' = (if e = 0 \<and> k' = k then Inr v else get k' s)"
  using put_law [OF assms(1), of k v] get_law assms by fastforce

end

definition store_put :: "u64 \<Rightarrow> u64 \<Rightarrow> radix \<times> rheap \<Rightarrow> (int \<times> radix \<times> rheap) res" where
  "store_put k v s = radix_add (fst s) k v (snd s)"

interpretation rx: key_store "\<lambda>s. radix_ok (fst s) (snd s)" "\<lambda>s. radix_abs (fst s) (snd s)"
  "\<lambda>k s. radix_get (fst s) k (snd s)" store_put
proof unfold_locales
  fix s :: "radix \<times> rheap" and k v :: u64
  assume ok: "radix_ok (fst s) (snd s)"
  show "radix_get (fst s) k (snd s) = Inr (radix_abs (fst s) (snd s) k)"
    by (rule radix_get_abs [OF ok])
  show "\<exists>e s'. store_put k v s = Inr (e, s') \<and> radix_ok (fst s') (snd s') \<and>
      radix_abs (fst s') (snd s') =
        (if e = 0 then (radix_abs (fst s) (snd s))(k := v) else radix_abs (fst s) (snd s))"
    by (rule radix_add_cases [OF ok, of k v])
      (auto simp: store_put_def fun_eq_iff errno_defs)
qed

lemma kzalloc_tree_ok:
  assumes "avail_ok h" "kzalloc_node h = (n, h1)" "n \<noteq> 0"
  shows "radix_ok \<lparr>root = n, value_deleter = d\<rparr> h1"
proof -
  have nn: "rmem h n = None" "rmem h1 = (rmem h)(n \<mapsto> replicate RADIX_NODE_SIZE 0)"
    using assms by (auto simp: kzalloc_node_def avail_ok_def split: list.splits if_splits)
  have a: "avail_ok h1"
    using assms by (auto simp: kzalloc_node_def avail_ok_def split: list.splits if_splits)
  have nz: "rpath h1 n p \<noteq> 0 \<Longrightarrow> set p \<subseteq> {..<RADIX_NODE_SIZE} \<Longrightarrow> p = []" for p
  proof (cases p)
    case (Cons k p')
    assume "rpath h1 n p \<noteq> 0" "set p \<subseteq> {..<RADIX_NODE_SIZE}"
    moreover from this Cons have "child h1 n k = 0" using nn by (simp add: child_def)
    ultimately show ?thesis using Cons by simp
  qed
  have "tree_ok h1 n"
    using nn nz assms(3) unfolding tree_ok_def inner_path_def
    by (metis fun_upd_same length_replicate rpath.simps(1))
  with a show ?thesis by (simp add: radix_ok_def)
qed

lemma init_radix_ok:
  assumes "avail_ok h" "init_radix_w_deleter d h = Inr (r, h')"
  shows "radix_ok r h' \<and> value_deleter r = d \<and> root r \<noteq> 0 \<and> (\<forall>k. radix_abs r h' k = 0)"
proof -
  obtain n h1 where n: "kzalloc_node h = (n, h1)" by fastforce
  have z: "n \<noteq> 0" using assms(2) n by (cases "n = 0") (simp_all add: init_radix_w_deleter_def init_radix_def)
  then have r: "r = \<lparr>root = n, value_deleter = d\<rparr>" "h' = h1"
    using assms(2) n by (auto simp: init_radix_w_deleter_def init_radix_def)
  have "rmem h1 n = Some (replicate RADIX_NODE_SIZE 0)"
    using n z by (auto simp: kzalloc_node_def split: list.splits if_splits)
  then have c: "k < RADIX_NODE_SIZE \<Longrightarrow> child h1 n k = 0" for k by (simp add: child_def)
  have "radix_abs r h1 k = 0" for k
    using key_path_full [of k] c unfolding r radix_abs_def full_path_def
    by (cases "key_path k") auto
  then show ?thesis using kzalloc_tree_ok [OF assms(1) n z] r z by simp
qed


section \<open>Properties\<close>

definition demo_heap :: rheap where
  "demo_heap = \<lparr>rmem = Map.empty, avail = [0x1000, 0x2000, 0x3000, 0x4000, 0x5000, 0x6000, 0x7000, 0x8000]\<rparr>"

definition demo_radix :: "radix \<times> rheap" where
  "demo_radix = (\<lparr>root = 0x1000, value_deleter = 0xFF00\<rparr>,
     demo_heap\<lparr>rmem := [0x1000 \<mapsto> replicate RADIX_NODE_SIZE 0],
       avail := [0x2000, 0x3000, 0x4000, 0x5000, 0x6000, 0x7000, 0x8000]\<rparr>)"

lemma demo_heap_ok: "avail_ok demo_heap"
  by (simp add: avail_ok_def demo_heap_def IS_ERR_def)

lemma radix_demo_init: "init_radix_w_deleter 0xFF00 demo_heap = Inr demo_radix"
  by (simp add: init_radix_w_deleter_def init_radix_def kzalloc_node_def demo_heap_def demo_radix_def)

lemma demo_radix_ok: "radix_ok (fst demo_radix) (snd demo_radix)"
  "root (fst demo_radix) \<noteq> 0" "value_deleter (fst demo_radix) \<noteq> 0"
  using init_radix_ok [OF demo_heap_ok, where d = "0xFF00" and r = "fst demo_radix" and h' = "snd demo_radix"] radix_demo_init
  by simp_all

text \<open>
  C19: \<^verbatim>\<open>radix_add\<close> refines a map update that may fail. On a well-formed tree it returns
  0 or \<^verbatim>\<open>-ENOMEM\<close>, keeps the tree well formed, and afterwards \<^verbatim>\<open>radix_get\<close>
  of any key returns the new value for the added key (on success) and the old result for every other
  key; after \<^verbatim>\<open>-ENOMEM\<close> no lookup has changed, whatever intermediate nodes the
  interrupted descent left behind.
\<close>

theorem radix_add_get:
  assumes "radix_ok r h"
  shows "\<exists>e r' h'. radix_add r key v h = Inr (e, r', h') \<and> (e = 0 \<or> e = - ENOMEM) \<and> radix_ok r' h' \<and>
    (\<forall>k. radix_get r' k h' = (if e = 0 \<and> k = key then Inr v else radix_get r k h))"
proof -
  obtain e r' h' where a: "radix_add r key v h = Inr (e, r', h')" "e = 0 \<or> e = - ENOMEM" "radix_ok r' h'"
    by (rule radix_add_cases [OF assms, of key v]) auto
  then have "radix_get r' k h' = (if e = 0 \<and> k = key then Inr v else radix_get r k h)" for k
    using rx.put_get [of "(r, h)" key v e "(r', h')" k] assms by (simp add: store_put_def)
  with a show ?thesis by blast
qed

theorem radix_add_get_witness:
  "\<exists>e r' h'. radix_add (fst demo_radix) 0x123456789 77 (snd demo_radix) = Inr (e, r', h') \<and>
    (e = 0 \<or> e = - ENOMEM) \<and> radix_ok r' h' \<and>
    (\<forall>k. radix_get r' k h' = (if e = 0 \<and> k = 0x123456789 then Inr 77
        else radix_get (fst demo_radix) k (snd demo_radix)))"
  by (rule radix_add_get [OF demo_radix_ok(1)])

text \<open>
  A path has eight nodes, so when the next eight calls of \<^verbatim>\<open>kzalloc\<close> succeed,
  \<^verbatim>\<open>radix_add\<close> succeeds; conversely \<^verbatim>\<open>-ENOMEM\<close> is only returned when one
  of them fails.
\<close>

theorem radix_add_enomem:
  assumes "radix_ok r h" "radix_add r key v h = Inr (e, r', h')" "e \<noteq> 0"
  shows "e = - ENOMEM \<and> (length (avail h) < 8 \<or> 0 \<in> set (take 8 (avail h)))"
  by (rule radix_add_cases [OF assms(1), of key v]) (use assms(2,3) in auto)

theorem radix_add_enomem_witness:
  "\<exists>r' h'. radix_add \<lparr>root = 0, value_deleter = 0\<rparr> 5 77 (demo_heap\<lparr>avail := [0]\<rparr>) = Inr (- ENOMEM, r', h')
    \<and> - ENOMEM \<noteq> (0::int) \<and> (length [0::u64] < 8 \<or> (0::u64) \<in> set (take 8 [0]))"
proof -
  let ?r = "\<lparr>root = 0, value_deleter = 0\<rparr>" and ?h = "demo_heap\<lparr>avail := [0]\<rparr>"
  have ok: "radix_ok ?r ?h" by (simp add: radix_ok_def avail_ok_def)
  have add: "radix_add ?r 5 77 ?h = Inr (- ENOMEM, ?r, demo_heap\<lparr>avail := []\<rparr>)"
    by (simp add: radix_add_def new_radix_node_def kzalloc_node_def ERR_PTR_def IS_ERR_def errno_defs)
  have nz: "- ENOMEM \<noteq> (0::int)" by (simp add: errno_defs)
  from radix_add_enomem [OF ok add nz] add nz show ?thesis by simp
qed

text \<open>
  \<^verbatim>\<open>radix_free\<close> with a deleter calls it on the non-NULL value slots, each exactly
  once and in increasing order of the digit strings, and on the value of every key that has one.
\<close>

theorem radix_free_deletes:
  assumes "radix_ok r h" "root r \<noteq> 0" "value_deleter r \<noteq> 0"
  shows "\<exists>vs. radix_free (Some r) h = Inr (0, vs) \<and>
    vs = filter (\<lambda>v. v \<noteq> 0) (map (rpath h (root r)) (digit_strings RADIX_LEVELS)) \<and>
    (\<forall>key v. radix_get r key h = Inr v \<and> v \<noteq> 0 \<longrightarrow> v \<in> set vs)"
proof -
  have "key_path key \<in> set (digit_strings RADIX_LEVELS)" for key
    using key_path_full [of key] by (simp add: digit_strings_mem full_path_def radix_consts)
  then show ?thesis
    using radix_free_spec [OF assms] radix_get_abs [OF assms(1)] by (auto simp: radix_abs_def)
qed

theorem radix_free_deletes_witness:
  "\<exists>vs. radix_free (Some (fst demo_radix)) (snd demo_radix) = Inr (0, vs) \<and>
    vs = filter (\<lambda>v. v \<noteq> 0) (map (rpath (snd demo_radix) (root (fst demo_radix))) (digit_strings RADIX_LEVELS)) \<and>
    (\<forall>key v. radix_get (fst demo_radix) key (snd demo_radix) = Inr v \<and> v \<noteq> 0 \<longrightarrow> v \<in> set vs)"
  by (rule radix_free_deletes [OF demo_radix_ok])

end
