(* ===== verification/Buddy.thy ===== *)
theory Buddy
  imports ListHead
begin

text \<open>
  The buddy allocator of \<^verbatim>\<open>kernel/mm/buddy.c\<close>. A \<^verbatim>\<open>struct page *\<close> is the
  index of the page in \<^verbatim>\<open>page_metadata\<close>, NULL is \<open>None\<close>; addresses are 64-bit words
  and the buddy of a chunk is computed from its address as in the code. The free list of an order is
  the list of its nodes (the operations of \<^verbatim>\<open>list.h\<close> do this to a well-formed list,
  see the theory \<open>ListHead\<close>) together with the counter \<^verbatim>\<open>nr_free\<close>.
\<close>

definition BUDDY_PAGE_SIZE :: u64 where "BUDDY_PAGE_SIZE = 0x1000"
definition BUDDY_MAX_ORDER :: nat where "BUDDY_MAX_ORDER = 14"
definition BUDDY_PAGE_SIZE_ORDER :: nat where "BUDDY_PAGE_SIZE_ORDER = 12"

lemmas buddy_consts = BUDDY_PAGE_SIZE_def BUDDY_MAX_ORDER_def BUDDY_PAGE_SIZE_ORDER_def

record page =
  allocated :: int
  porder :: nat
  pslab :: u64

record free_list =
  fl :: "nat list"
  nr_free :: u64

record phys_mem_pool =
  pool_start_addr :: u64
  pool_mem_size :: u64
  pool_phys_page_num :: u64
  page_metadata :: "page list"
  free_lists :: "free_list list"

definition upd_page :: "nat \<Rightarrow> (page \<Rightarrow> page) \<Rightarrow> phys_mem_pool \<Rightarrow> phys_mem_pool res" where
  "upd_page i f pool = bindR (arr_get (page_metadata pool) i) (\<lambda>p.
     Inr (pool\<lparr>page_metadata := (page_metadata pool)[i := f p]\<rparr>))"

definition upd_fl :: "nat \<Rightarrow> (free_list \<Rightarrow> free_list) \<Rightarrow> phys_mem_pool \<Rightarrow> phys_mem_pool res" where
  "upd_fl i f pool = bindR (arr_get (free_lists pool) i) (\<lambda>l.
     Inr (pool\<lparr>free_lists := (free_lists pool)[i := f l]\<rparr>))"

text \<open>\<^verbatim>\<open>list_add(&page->node, &free_lists[order].free_list)\<close>.\<close>

definition fl_add :: "nat \<Rightarrow> nat \<Rightarrow> phys_mem_pool \<Rightarrow> phys_mem_pool res" where
  "fl_add i ord = upd_fl ord (\<lambda>l. l\<lparr>fl := i # fl l\<rparr>)"

text \<open>
  \<^verbatim>\<open>list_del(&page->node)\<close> unlinks the node from the list it is in; with a node that is in
  no list it writes through stale pointers.
\<close>

definition fl_del :: "nat \<Rightarrow> phys_mem_pool \<Rightarrow> phys_mem_pool res" where
  "fl_del i pool =
     (if list_ex (\<lambda>l. i \<in> set (fl l)) (free_lists pool)
      then Inr (pool\<lparr>free_lists := map (\<lambda>l. l\<lparr>fl := remove1 i (fl l)\<rparr>) (free_lists pool)\<rparr>)
      else Inl WILD)"

text \<open>\<^verbatim>\<open>free_lists[order].free_list.next\<close> as a page; the list head itself is not one.\<close>

definition fl_first :: "nat \<Rightarrow> phys_mem_pool \<Rightarrow> nat res" where
  "fl_first ord pool = bindR (arr_get (free_lists pool) ord) (\<lambda>l.
     case fl l of [] \<Rightarrow> Inl WILD | i # _ \<Rightarrow> Inr i)"

definition page_to_virt :: "phys_mem_pool \<Rightarrow> nat \<Rightarrow> u64" where
  "page_to_virt pool i = of_nat i * BUDDY_PAGE_SIZE + pool_start_addr pool"

definition virt_to_page :: "phys_mem_pool \<Rightarrow> u64 \<Rightarrow> nat" where
  "virt_to_page pool addr = unat ((addr - pool_start_addr pool) div BUDDY_PAGE_SIZE)"

definition get_buddy_chunk :: "phys_mem_pool \<Rightarrow> nat \<Rightarrow> nat option res" where
  "get_buddy_chunk pool chunk =
     (let chunk_addr = page_to_virt pool chunk in
      bindR (arr_get (page_metadata pool) chunk) (\<lambda>c.
        let order = porder c;
            buddy_chunk_addr = chunk_addr XOR (push_bit (order + BUDDY_PAGE_SIZE_ORDER) 1)
        in if buddy_chunk_addr < pool_start_addr pool \<or>
              buddy_chunk_addr \<ge> pool_start_addr pool + pool_mem_size pool
           then Inr None
           else Inr (Some (virt_to_page pool buddy_chunk_addr))))"

text \<open>
  One halving: the statements of \<^verbatim>\<open>split_page\<close> after the recursive call. The code
  dereferences the result of \<^verbatim>\<open>get_buddy_chunk\<close> without a check.
\<close>

definition split_half :: "nat \<Rightarrow> phys_mem_pool \<Rightarrow> phys_mem_pool res" where
  "split_half page pool =
     bindR (arr_get (page_metadata pool) page) (\<lambda>p.
     bindR (upd_fl (porder p) (\<lambda>l. l\<lparr>nr_free := nr_free l - 1\<rparr>) pool) (\<lambda>pool.
     bindR (fl_del page pool) (\<lambda>pool.
     bindR (upd_page page (\<lambda>p. p\<lparr>porder := porder p - 1\<rparr>) pool) (\<lambda>pool.
     bindR (get_buddy_chunk pool page) (\<lambda>b.
     bindR (deref b) (\<lambda>buddy_page.
     bindR (arr_get (page_metadata pool) page) (\<lambda>p.
     bindR (upd_page buddy_page (\<lambda>b. b\<lparr>porder := porder p\<rparr>) pool) (\<lambda>pool.
     bindR (upd_page buddy_page (\<lambda>b. b\<lparr>allocated := 0\<rparr>) pool) (\<lambda>pool.
     bindR (arr_get (page_metadata pool) page) (\<lambda>p.
     let new_free_list = porder p in
     bindR (fl_add page new_free_list pool) (\<lambda>pool.
     bindR (fl_add buddy_page new_free_list pool) (\<lambda>pool.
     upd_fl new_free_list (\<lambda>l. l\<lparr>nr_free := nr_free l + 2\<rparr>) pool))))))))))))"

function split_page :: "nat \<Rightarrow> nat \<Rightarrow> phys_mem_pool \<Rightarrow> (nat \<times> phys_mem_pool) res" where
  "split_page order page pool =
     bindR (arr_get (page_metadata pool) page) (\<lambda>p.
       if porder p = 0 \<or> allocated p = 1 then Inr (page, pool)
       else if porder p \<le> order then Inr (page, pool)
       else
         bindR (if porder p > order + 1 then split_page (order + 1) page pool else Inr (page, pool))
           (\<lambda>(page, pool). bindR (split_half page pool) (\<lambda>pool. Inr (page, pool))))"
  by pat_completeness auto
termination
proof (relation "measure (\<lambda>(order, page, pool).
    case arr_get (page_metadata pool) page of Inl _ \<Rightarrow> 0 | Inr p \<Rightarrow> porder p - order)")
qed auto

declare split_page.simps [simp del]

text \<open>
  The search of \<^verbatim>\<open>buddy_get_pages\<close>. \<^verbatim>\<open>order_idx\<close> is an
  \<^verbatim>\<open>int\<close>; \<^verbatim>\<open>BUDDY_MAX_ORDER\<close> is \<^verbatim>\<open>14UL\<close>, so the comparisons
  are made on 64-bit unsigned values.
\<close>

definition int_u64 :: "int \<Rightarrow> u64" where "int_u64 i = word_of_int i"

function find_order :: "phys_mem_pool \<Rightarrow> int \<Rightarrow> int res" where
  "find_order pool order_idx =
     (if int_u64 order_idx < of_nat BUDDY_MAX_ORDER then
        bindR (arr_get (free_lists pool) (nat order_idx)) (\<lambda>l.
          if nr_free l \<ge> 1 then Inr order_idx else find_order pool (order_idx + 1))
      else Inr order_idx)"
  by pat_completeness auto
termination
proof (relation "measure (\<lambda>(pool, i). BUDDY_MAX_ORDER - unat (int_u64 i))")
  fix pool :: phys_mem_pool and i :: int
  assume a: "int_u64 i < of_nat BUDDY_MAX_ORDER"
  then have lt: "unat (int_u64 i) < 14" by (simp add: word_less_nat_alt buddy_consts)
  moreover have "int_u64 (i + 1) = int_u64 i + 1" by (simp add: int_u64_def)
  moreover have "unat (int_u64 i + 1) = Suc (unat (int_u64 i))"
    using lt by (subst unat_add_lem [THEN iffD1]) auto
  ultimately show "((pool, i + 1), (pool, i)) \<in> measure (\<lambda>(pool, i). BUDDY_MAX_ORDER - unat (int_u64 i))"
    by (simp add: buddy_consts)
qed auto

declare find_order.simps [simp del]

definition buddy_get_pages :: "phys_mem_pool \<Rightarrow> u64 \<Rightarrow> (nat option \<times> phys_mem_pool) res" where
  "buddy_get_pages pool order =
     bindR (find_order pool (sint (ucast order :: 32 word))) (\<lambda>order_idx.
       if int_u64 order_idx = order then
         (if order_idx < 0 then Inl WILD else
         bindR (fl_first (nat order_idx) pool) (\<lambda>page.
         bindR (fl_del page pool) (\<lambda>pool.
         bindR (upd_fl (nat order_idx) (\<lambda>l. l\<lparr>nr_free := nr_free l - 1\<rparr>) pool) (\<lambda>pool.
         bindR (upd_page page (\<lambda>p. p\<lparr>allocated := 1\<rparr>) pool) (\<lambda>pool.
         Inr (Some page, pool))))))
       else if int_u64 order_idx \<ge> of_nat BUDDY_MAX_ORDER then Inr (None, pool)
       else
         bindR (fl_first (nat order_idx) pool) (\<lambda>page.
         bindR (split_page (unat order) page pool) (\<lambda>(page, pool).
         bindR (upd_fl (unat order) (\<lambda>l. l\<lparr>nr_free := nr_free l - 1\<rparr>) pool) (\<lambda>pool.
         bindR (fl_del page pool) (\<lambda>pool.
         bindR (upd_page page (\<lambda>p. p\<lparr>allocated := 1\<rparr>) pool) (\<lambda>pool.
         Inr (Some page, pool)))))))"

text \<open>
  \<^verbatim>\<open>merge_page\<close> up to its recursive call: \<open>None\<close> is an early return of the page itself,
  \<open>Some m\<close> the merged page with which the function calls itself.
\<close>

definition merge_step :: "nat \<Rightarrow> phys_mem_pool \<Rightarrow> (nat option \<times> phys_mem_pool) res" where
  "merge_step page pool =
     bindR (arr_get (page_metadata pool) page) (\<lambda>p.
       if porder p \<ge> BUDDY_MAX_ORDER - 1 \<or> allocated p = 1 then Inr (None, pool)
       else
         bindR (get_buddy_chunk pool page) (\<lambda>b. case b of
           None \<Rightarrow> Inr (None, pool)
         | Some buddy_page \<Rightarrow>
             bindR (arr_get (page_metadata pool) buddy_page) (\<lambda>b.
               if allocated b = 1 \<or> porder b \<noteq> porder p then Inr (None, pool)
               else
                 bindR (upd_fl (porder p) (\<lambda>l. l\<lparr>nr_free := nr_free l - 2\<rparr>) pool) (\<lambda>pool.
                 bindR (upd_fl (porder p + 1) (\<lambda>l. l\<lparr>nr_free := nr_free l + 1\<rparr>) pool) (\<lambda>pool.
                 bindR (fl_del page pool) (\<lambda>pool.
                 bindR (fl_del buddy_page pool) (\<lambda>pool.
                 let merged_page = (if buddy_page < page then buddy_page else page) in
                 bindR (upd_page merged_page (\<lambda>p. p\<lparr>porder := porder p + 1\<rparr>) pool) (\<lambda>pool.
                 bindR (arr_get (page_metadata pool) merged_page) (\<lambda>m.
                 bindR (fl_add merged_page (porder m) pool) (\<lambda>pool.
                 Inr (Some merged_page, pool)))))))))))"

lemma merge_step_order:
  assumes "merge_step page pool = Inr (Some m, pool')"
  shows "\<exists>p p'. arr_get (page_metadata pool) page = Inr p \<and> arr_get (page_metadata pool') m = Inr p' \<and>
           porder p' = Suc (porder p) \<and> porder p < BUDDY_MAX_ORDER - 1"
  using assms
  by (auto simp: merge_step_def upd_fl_def upd_page_def fl_del_def fl_add_def arr_get_Inr Let_def
      split: if_splits option.splits elim!: bindR_InrE)

function merge_page :: "nat \<Rightarrow> phys_mem_pool \<Rightarrow> (nat \<times> phys_mem_pool) res" where
  "merge_page page pool =
     bindR (merge_step page pool) (\<lambda>r. case fst r of
       None \<Rightarrow> Inr (page, snd r)
     | Some merged_page \<Rightarrow> merge_page merged_page (snd r))"
  by pat_completeness auto
termination
proof (relation "measure (\<lambda>(page, pool). case arr_get (page_metadata pool) page of
    Inl _ \<Rightarrow> 0 | Inr p \<Rightarrow> BUDDY_MAX_ORDER - porder p)")
  fix page pool x m
  assume "merge_step page pool = Inr x" "fst x = Some m"
  then have "merge_step page pool = Inr (Some m, snd x)" by (cases x) auto
  from merge_step_order [OF this]
  show "((m, snd x), (page, pool)) \<in> measure (\<lambda>(page, pool). case arr_get (page_metadata pool) page of
    Inl _ \<Rightarrow> 0 | Inr p \<Rightarrow> BUDDY_MAX_ORDER - porder p)" by auto
qed auto

declare merge_page.simps [simp del]

definition buddy_free_pages :: "phys_mem_pool \<Rightarrow> nat \<Rightarrow> phys_mem_pool res" where
  "buddy_free_pages pool page =
     bindR (upd_page page (\<lambda>p. p\<lparr>allocated := 0\<rparr>) pool) (\<lambda>pool.
     bindR (arr_get (page_metadata pool) page) (\<lambda>p.
     bindR (upd_fl (porder p) (\<lambda>l. l\<lparr>nr_free := nr_free l + 1\<rparr>) pool) (\<lambda>pool.
     bindR (fl_add page (porder p) pool) (\<lambda>pool.
     bindR (merge_page page pool) (\<lambda>(_, pool). Inr pool)))))"

fun init_free :: "nat list \<Rightarrow> phys_mem_pool \<Rightarrow> phys_mem_pool res" where
  "init_free [] pool = Inr pool"
| "init_free (page_idx # rest) pool =
     bindR (buddy_free_pages pool page_idx) (init_free rest)"

text \<open>\<open>start_page\<close> is the metadata area, handed over with whatever it contains.\<close>

definition init_buddy :: "page list \<Rightarrow> u64 \<Rightarrow> u64 \<Rightarrow> phys_mem_pool res" where
  "init_buddy start_page start_addr page_num =
     (let n = unat page_num;
          cleared = map (\<lambda>_. \<lparr>allocated = 0, porder = 0, pslab = 0\<rparr>) (take n start_page) @ drop n start_page;
          meta = map (\<lambda>p. p\<lparr>allocated := 1, porder := 0\<rparr>) (take n cleared) @ drop n cleared
      in if length start_page < n then Inl WILD
         else init_free [0..<n]
           \<lparr>pool_start_addr = start_addr, pool_mem_size = page_num * BUDDY_PAGE_SIZE,
            pool_phys_page_num = page_num, page_metadata = meta,
            free_lists = replicate BUDDY_MAX_ORDER \<lparr>fl = [], nr_free = 0\<rparr>\<rparr>)"

definition get_free_mem_size_from_buddy :: "phys_mem_pool \<Rightarrow> u64" where
  "get_free_mem_size_from_buddy pool =
     fold (\<lambda>order total_size.
        let current_order_size = BUDDY_PAGE_SIZE * of_nat (2 ^ order)
        in total_size + nr_free (free_lists pool ! order) * current_order_size)
      [0..<BUDDY_MAX_ORDER] 0"


section \<open>Partitions of the pool into aligned blocks\<close>

text \<open>
  A block is its first page and its order. \<open>s\<close> is the page frame number of the first page of the
  pool: blocks are aligned as addresses, not as indices.
\<close>

definition covers :: "nat \<times> nat \<Rightarrow> nat \<Rightarrow> bool" where
  "covers b i \<longleftrightarrow> fst b \<le> i \<and> i < fst b + 2 ^ snd b"

definition blocks_ok :: "nat \<Rightarrow> nat \<Rightarrow> (nat \<times> nat) set \<Rightarrow> bool" where
  "blocks_ok s n B \<longleftrightarrow>
     (\<forall>(p, k) \<in> B. k < BUDDY_MAX_ORDER \<and> p + 2 ^ k \<le> n \<and> 2 ^ k dvd s + p) \<and>
     (\<forall>b \<in> B. \<forall>c \<in> B. \<forall>i. covers b i \<and> covers c i \<longrightarrow> b = c)"

definition tiles :: "nat \<Rightarrow> (nat \<times> nat) set \<Rightarrow> bool" where
  "tiles n B \<longleftrightarrow> (\<forall>i < n. \<exists>b \<in> B. covers b i)"

lemma covers_self [simp]: "covers (p, k) p" by (simp add: covers_def)

lemma covers_halves: "covers (p, Suc k) i \<longleftrightarrow> covers (p, k) i \<or> covers (p + 2 ^ k, k) i"
  by (auto simp: covers_def)

lemma blocks_ok_subset: "blocks_ok s n B \<Longrightarrow> C \<subseteq> B \<Longrightarrow> blocks_ok s n C"
  unfolding blocks_ok_def by blast

lemma blocks_ok_same: "blocks_ok s n B \<Longrightarrow> (p, k) \<in> B \<Longrightarrow> (p, k') \<in> B \<Longrightarrow> k = k'"
  unfolding blocks_ok_def using covers_self by blast

lemma blocks_split:
  assumes ok: "blocks_ok s n B" and b: "(p, Suc k) \<in> B"
  defines "C \<equiv> insert (p + 2 ^ k, k) (insert (p, k) (B - {(p, Suc k)}))"
  shows "blocks_ok s n C" "tiles n B \<Longrightarrow> tiles n C" "(p, k) \<notin> B" "(p + 2 ^ k, k) \<notin> B"
proof -
  have old: "\<And>c i. c \<in> B \<Longrightarrow> covers c i \<Longrightarrow> covers (p, Suc k) i \<Longrightarrow> c = (p, Suc k)"
    using ok b unfolding blocks_ok_def by blast
  have sz: "Suc k < BUDDY_MAX_ORDER" "p + 2 ^ Suc k \<le> n" "2 ^ Suc k dvd s + p"
    using ok b unfolding blocks_ok_def by auto
  have al: "2 ^ k dvd s + p" "2 ^ k dvd s + (p + 2 ^ k)"
    using sz(3) by (auto simp: add.assoc [symmetric] intro: dvd_add dvd_trans [of "2 ^ k" "2 ^ Suc k"])
  show "(p, k) \<notin> B" "(p + 2 ^ k, k) \<notin> B"
    using old [of "(p, k)" p] old [of "(p + 2 ^ k, k)" "p + 2 ^ k"] by (auto simp: covers_def)
  have h: "\<And>i. covers (p, k) i \<Longrightarrow> covers (p, Suc k) i" "\<And>i. covers (p + 2 ^ k, k) i \<Longrightarrow> covers (p, Suc k) i"
    by (simp_all add: covers_halves)
  have d: "\<And>i. \<not> (covers (p, k) i \<and> covers (p + 2 ^ k, k) i)" by (auto simp: covers_def)
  have "\<forall>(q, j) \<in> C. j < BUDDY_MAX_ORDER \<and> q + 2 ^ j \<le> n \<and> 2 ^ j dvd s + q"
    using ok sz al unfolding blocks_ok_def C_def by auto
  moreover have "b' = c" if "b' \<in> C" "c \<in> C" "covers b' i" "covers c i" for b' c i
    using that old h d ok unfolding C_def blocks_ok_def by blast
  ultimately show "blocks_ok s n C" unfolding blocks_ok_def by blast
  show "tiles n C" if "tiles n B"
    using that covers_halves [of p k] unfolding tiles_def C_def by (metis insertCI insert_Diff_single insert_iff)
qed

lemma blocks_join:
  assumes ok: "blocks_ok s n B" and b: "(p, k) \<in> B" "(p + 2 ^ k, k) \<in> B"
    and k: "Suc k < BUDDY_MAX_ORDER" and al: "2 ^ Suc k dvd s + p"
  defines "C \<equiv> insert (p, Suc k) (B - {(p, k), (p + 2 ^ k, k)})"
  shows "blocks_ok s n C" "tiles n B \<Longrightarrow> tiles n C" "(p, Suc k) \<notin> B"
proof -
  have old: "\<And>c i. c \<in> B \<Longrightarrow> covers c i \<Longrightarrow> covers (p, Suc k) i \<Longrightarrow> c = (p, k) \<or> c = (p + 2 ^ k, k)"
    using ok b unfolding blocks_ok_def covers_halves by blast
  have sz: "p + 2 ^ Suc k \<le> n" using ok b unfolding blocks_ok_def by auto
  show "(p, Suc k) \<notin> B" using blocks_ok_same [OF ok b(1), of "Suc k"] by auto
  have "\<forall>(q, j) \<in> C. j < BUDDY_MAX_ORDER \<and> q + 2 ^ j \<le> n \<and> 2 ^ j dvd s + q"
    using ok sz al k unfolding blocks_ok_def C_def by auto
  moreover have "b' = c" if "b' \<in> C" "c \<in> C" "covers b' i" "covers c i" for b' c i
    using that old ok unfolding C_def blocks_ok_def by blast
  ultimately show "blocks_ok s n C" unfolding blocks_ok_def by blast
  show "tiles n C" if "tiles n B"
    using that covers_halves [of p k] unfolding tiles_def C_def by (metis Diff_iff insert_iff singletonD)
qed

text \<open>
  The page at the buddy address of a block is the first page of a block, so its metadata can be
  trusted: a larger block around it would contain the block itself.
\<close>

lemma buddy_is_head:
  assumes ok: "blocks_ok s n B" "tiles n B" and b: "(p, k) \<in> B" and q: "q < n" "2 ^ k dvd s + q"
    and bud: "(s + q) div 2 ^ Suc k = (s + p) div 2 ^ Suc k" "q \<noteq> p"
  shows "\<exists>j \<le> k. (q, j) \<in> B"
proof -
  obtain r j where r: "(r, j) \<in> B" "covers (r, j) q" using ok(2) q(1) unfolding tiles_def by (metis surj_pair)
  have al: "2 ^ j dvd s + r" "2 ^ k dvd s + p" using ok(1) r(1) b unfolding blocks_ok_def by auto
  have div_eq: "(s + q) div 2 ^ j = (s + r) div 2 ^ j"
  proof -
    obtain t where t: "s + r = 2 ^ j * t" using al(1) by blast
    define x where "x = q - r"
    have "s + q = 2 ^ j * t + x" "x < 2 ^ j" using r(2) t by (auto simp: covers_def x_def)
    then show ?thesis using t by simp
  qed
  have "j \<le> k"
  proof (rule ccontr)
    assume "\<not> j \<le> k"
    then obtain d where d: "j = Suc k + d" using less_iff_Suc_add by (metis add_Suc not_le)
    have "(s + p) div 2 ^ j = (s + q) div 2 ^ j"
      using bud(1) by (simp only: d power_add div_mult2_eq)
    then have "(s + p) div 2 ^ j = (s + r) div 2 ^ j" using div_eq by simp
    moreover obtain t where t: "s + r = 2 ^ j * t" using al(1) by blast
    ultimately have "(s + p) div 2 ^ j = t" by simp
    moreover have "s + p = 2 ^ j * ((s + p) div 2 ^ j) + (s + p) mod 2 ^ j" "(s + p) mod 2 ^ j < 2 ^ j"
      by simp_all
    ultimately have "2 ^ j * t \<le> s + p" "s + p < 2 ^ j * t + 2 ^ j" by (simp_all only: le_add1 add_less_cancel_left)
    then have "covers (r, j) p" using t by (simp add: covers_def)
    then have "(r, j) = (p, k)" using ok(1) r(1) b covers_self unfolding blocks_ok_def by blast
    with r(2) \<open>\<not> j \<le> k\<close> show False by simp
  qed
  moreover have "r = q"
  proof -
    have "2 ^ j dvd s + q" using q(2) \<open>j \<le> k\<close> by (meson dvd_trans le_imp_power_dvd)
    then have "s + q = s + r" using div_eq al(1) by (metis dvd_mult_div_cancel)
    then show ?thesis by simp
  qed
  ultimately show ?thesis using r(1) by blast
qed


section \<open>The invariant\<close>

definition npages :: "phys_mem_pool \<Rightarrow> nat" where
  "npages pool = unat (pool_mem_size pool) div 4096"

definition pfn :: "phys_mem_pool \<Rightarrow> nat" where
  "pfn pool = unat (pool_start_addr pool) div 4096"

definition geometry :: "phys_mem_pool \<Rightarrow> bool" where
  "geometry pool \<longleftrightarrow> 4096 dvd unat (pool_start_addr pool) \<and> 4096 dvd unat (pool_mem_size pool) \<and>
     unat (pool_start_addr pool) + unat (pool_mem_size pool) < 2 ^ 64 \<and>
     npages pool \<le> length (page_metadata pool)"

definition free_blocks :: "phys_mem_pool \<Rightarrow> (nat \<times> nat) set" where
  "free_blocks pool = {(p, k). k < length (free_lists pool) \<and> p \<in> set (fl (free_lists pool ! k))}"

definition lists_ok :: "free_list list \<Rightarrow> bool" where
  "lists_ok ls \<longleftrightarrow> length ls = BUDDY_MAX_ORDER \<and>
     (\<forall>k < BUDDY_MAX_ORDER. distinct (fl (ls ! k)) \<and> nr_free (ls ! k) = of_nat (length (fl (ls ! k))))"

definition marked :: "page list \<Rightarrow> int \<Rightarrow> (nat \<times> nat) set \<Rightarrow> bool" where
  "marked meta a S \<longleftrightarrow>
     (\<forall>(p, k) \<in> S. p < length meta \<and> porder (meta ! p) = k \<and> allocated (meta ! p) = a)"

text \<open>
  \<open>A\<close> is the set of blocks handed out. Free and handed-out blocks tile the pool, the metadata of
  the first page of every block is accurate, and every counter is the length of its list.
\<close>

definition buddy_inv :: "phys_mem_pool \<Rightarrow> (nat \<times> nat) set \<Rightarrow> bool" where
  "buddy_inv pool A \<longleftrightarrow> geometry pool \<and> lists_ok (free_lists pool) \<and>
     blocks_ok (pfn pool) (npages pool) (free_blocks pool \<union> A) \<and>
     tiles (npages pool) (free_blocks pool \<union> A) \<and> free_blocks pool \<inter> A = {} \<and>
     marked (page_metadata pool) 0 (free_blocks pool) \<and> marked (page_metadata pool) 1 A"

text \<open>What no operation changes: the geometry and the slab pointers of the pages.\<close>

definition same_pool :: "phys_mem_pool \<Rightarrow> phys_mem_pool \<Rightarrow> bool" where
  "same_pool pool pool' \<longleftrightarrow> pool_start_addr pool' = pool_start_addr pool \<and>
     pool_mem_size pool' = pool_mem_size pool \<and> pool_phys_page_num pool' = pool_phys_page_num pool \<and>
     map pslab (page_metadata pool') = map pslab (page_metadata pool)"

lemma same_pool_refl [simp]: "same_pool pool pool" by (simp add: same_pool_def)

lemma same_pool_trans: "same_pool p q \<Longrightarrow> same_pool q r \<Longrightarrow> same_pool p r"
  by (simp add: same_pool_def)

lemma same_pool_geometry:
  assumes "same_pool p q"
  shows "geometry q \<longleftrightarrow> geometry p" "npages q = npages p" "pfn q = pfn p"
proof -
  have "length (page_metadata q) = length (page_metadata p)"
    using assms unfolding same_pool_def by (metis length_map)
  then show "geometry q \<longleftrightarrow> geometry p" "npages q = npages p" "pfn q = pfn p"
    using assms by (simp_all add: geometry_def npages_def pfn_def same_pool_def)
qed

lemma same_pool_pslab:
  assumes "same_pool pool pool'" "i < length (page_metadata pool')"
  shows "pslab (page_metadata pool' ! i) = pslab (page_metadata pool ! i)"
proof -
  have m: "map pslab (page_metadata pool') = map pslab (page_metadata pool)" using assms(1) by (simp add: same_pool_def)
  then have "length (page_metadata pool') = length (page_metadata pool)" using map_eq_imp_length_eq by blast
  moreover from m have "map pslab (page_metadata pool') ! i = map pslab (page_metadata pool) ! i" by simp
  ultimately show ?thesis using assms(2) by simp
qed

lemma nat_xor_exp: "(x::nat) XOR 2 ^ k = (if bit x k then x - 2 ^ k else x + 2 ^ k)"
proof -
  have "x XOR 2 ^ k = flip_bit k x" by (simp add: flip_bit_eq_xor push_bit_eq_mult)
  moreover have "bit x k \<Longrightarrow> x = unset_bit k x + 2 ^ k"
  proof -
    assume "bit x k"
    then have "Bit_Operations.set_bit k (unset_bit k x) = x"
      by (intro bit_eqI) (auto simp: bit_simps)
    then show ?thesis by (simp add: set_bit_eq bit_simps)
  qed
  ultimately show ?thesis by (auto simp: flip_bit_eq_if set_bit_eq)
qed

lemma page_addr_unat:
  assumes "geometry pool" "p < npages pool"
  shows "unat (page_to_virt pool p) = 4096 * (pfn pool + p)"
proof -
  have b: "unat (pool_start_addr pool) + 4096 * p < 2 ^ 64"
    using assms by (auto simp: geometry_def npages_def)
  have m: "unat (of_nat p * BUDDY_PAGE_SIZE) = 4096 * p"
  proof -
    have "of_nat p * BUDDY_PAGE_SIZE = (of_nat (4096 * p) :: u64)" by (simp add: buddy_consts)
    then show ?thesis using b by (simp only: unat_of_nat) simp
  qed
  have "unat (page_to_virt pool p) = 4096 * p + unat (pool_start_addr pool)"
    unfolding page_to_virt_def using b m by (subst unat_add_lem [THEN iffD1]) auto
  then show ?thesis using assms by (auto simp: pfn_def geometry_def)
qed

text \<open>The buddy of a block at page frame number \<open>x\<close> is at \<open>x\<close> with bit \<open>k\<close> flipped.\<close>

lemma get_buddy_chunk_eq:
  assumes g: "geometry pool" and p: "p < npages pool" and k: "porder (page_metadata pool ! p) = k" "k < 52"
  shows "get_buddy_chunk pool p = Inr (let y = (pfn pool + p) XOR 2 ^ k in
    if pfn pool \<le> y \<and> y < pfn pool + npages pool then Some (y - pfn pool) else None)"
proof -
  let ?y = "(pfn pool + p) XOR 2 ^ k"
  define b where "b = page_to_virt pool p XOR push_bit (k + 12) 1"
  have len: "p < length (page_metadata pool)" using g p by (simp add: geometry_def)
  have st: "unat (pool_start_addr pool) = 4096 * pfn pool" and ms: "unat (pool_mem_size pool) = 4096 * npages pool"
    using g by (simp_all add: geometry_def pfn_def npages_def)
  have tot: "unat (pool_start_addr pool + pool_mem_size pool) = 4096 * (pfn pool + npages pool)"
    using g st ms by (subst unat_add_lem [THEN iffD1]) (auto simp: geometry_def)
  have ub: "unat b = 4096 * ?y"
  proof -
    have "unat (push_bit (k + 12) (1 :: u64)) = push_bit 12 (2 ^ k)"
      using k unat_push_bit_1 [of "k + 12"] by (simp add: push_bit_eq_mult [of _ "2 ^ k"] power_add del: push_bit_of_1)
    moreover have "4096 * (pfn pool + p) = push_bit 12 (pfn pool + p)" by (simp add: push_bit_eq_mult)
    ultimately have "unat b = push_bit 12 ?y"
      unfolding b_def unsigned_xor_eq page_addr_unat [OF g p] by (simp add: push_bit_xor)
    then show ?thesis by (simp add: push_bit_eq_mult)
  qed
  have c1: "b < pool_start_addr pool \<longleftrightarrow> ?y < pfn pool"
    by (simp add: word_less_nat_alt ub st)
  have c2: "b \<ge> pool_start_addr pool + pool_mem_size pool \<longleftrightarrow> pfn pool + npages pool \<le> ?y"
    unfolding word_le_nat_alt tot ub by (subst nat_mult_le_cancel_disj) simp
  have c3: "virt_to_page pool b = ?y - pfn pool" if "pfn pool \<le> ?y"
  proof -
    have "unat (b - pool_start_addr pool) = 4096 * ?y - 4096 * pfn pool"
      using that by (subst unat_sub) (auto simp: word_le_nat_alt ub st)
    then show ?thesis by (simp add: virt_to_page_def buddy_consts unat_div flip: diff_mult_distrib2)
  qed
  have "get_buddy_chunk pool p = Inr (if b < pool_start_addr pool \<or> b \<ge> pool_start_addr pool + pool_mem_size pool
      then None else Some (virt_to_page pool b))"
    using len k by (simp add: get_buddy_chunk_def b_def BUDDY_PAGE_SIZE_ORDER_def)
  then show ?thesis using c1 c2 c3 by (simp add: Let_def not_le not_less)
qed


section \<open>Halving a free block\<close>

lemma invD:
  assumes "buddy_inv pool A"
  shows "geometry pool" "lists_ok (free_lists pool)"
    "blocks_ok (pfn pool) (npages pool) (free_blocks pool \<union> A)"
    "tiles (npages pool) (free_blocks pool \<union> A)" "free_blocks pool \<inter> A = {}"
    "marked (page_metadata pool) 0 (free_blocks pool)" "marked (page_metadata pool) 1 A"
  using assms by (simp_all add: buddy_inv_def)

lemma free_block_facts:
  assumes "buddy_inv pool A" "(p, k) \<in> free_blocks pool"
  shows "k < BUDDY_MAX_ORDER" "p + 2 ^ k \<le> npages pool" "2 ^ k dvd pfn pool + p" "p < npages pool"
    "p < length (page_metadata pool)" "porder (page_metadata pool ! p) = k"
    "allocated (page_metadata pool ! p) = 0" "p \<in> set (fl (free_lists pool ! k))"
    "length (free_lists pool) = BUDDY_MAX_ORDER"
    "j < BUDDY_MAX_ORDER \<Longrightarrow> p \<in> set (fl (free_lists pool ! j)) \<Longrightarrow> j = k"
    "\<And>j. (p, j) \<in> free_blocks pool \<union> A \<Longrightarrow> j = k"
proof -
  note i = invD [OF assms(1)]
  show a: "k < BUDDY_MAX_ORDER" "p + 2 ^ k \<le> npages pool" "2 ^ k dvd pfn pool + p"
    using i(3) assms(2) unfolding blocks_ok_def by auto
  have "(0::nat) < 2 ^ k" by simp
  with a(2) show "p < npages pool" by linarith
  show "p < length (page_metadata pool)" "porder (page_metadata pool ! p) = k"
    "allocated (page_metadata pool ! p) = 0"
    using i(6) assms(2) unfolding marked_def by auto
  show l: "length (free_lists pool) = BUDDY_MAX_ORDER" using i(2) by (simp add: lists_ok_def)
  show "p \<in> set (fl (free_lists pool ! k))" using assms(2) by (simp add: free_blocks_def)
  show s: "\<And>j. (p, j) \<in> free_blocks pool \<union> A \<Longrightarrow> j = k"
    using blocks_ok_same [OF i(3)] assms(2) by blast
  show "j < BUDDY_MAX_ORDER \<Longrightarrow> p \<in> set (fl (free_lists pool ! j)) \<Longrightarrow> j = k"
    using s [of j] l by (simp add: free_blocks_def)
qed

lemma alloc_block_facts:
  assumes "buddy_inv pool A" "(p, k) \<in> A"
  shows "k < BUDDY_MAX_ORDER" "p + 2 ^ k \<le> npages pool" "2 ^ k dvd pfn pool + p" "p < npages pool"
    "p < length (page_metadata pool)" "porder (page_metadata pool ! p) = k"
    "allocated (page_metadata pool ! p) = 1"
    "\<And>j. (p, j) \<in> free_blocks pool \<union> A \<Longrightarrow> j = k"
proof -
  note i = invD [OF assms(1)]
  show a: "k < BUDDY_MAX_ORDER" "p + 2 ^ k \<le> npages pool" "2 ^ k dvd pfn pool + p"
    using i(3) assms(2) unfolding blocks_ok_def by auto
  have "(0::nat) < 2 ^ k" by simp
  with a(2) show "p < npages pool" by linarith
  show "p < length (page_metadata pool)" "porder (page_metadata pool ! p) = k"
    "allocated (page_metadata pool ! p) = 1"
    using i(7) assms(2) unfolding marked_def by auto
  show "\<And>j. (p, j) \<in> free_blocks pool \<union> A \<Longrightarrow> j = k"
    using blocks_ok_same [OF i(3)] assms(2) by blast
qed

text \<open>The lists after a change that is described by the new contents of each list.\<close>

lemma lists_ok_change:
  assumes "length ls = BUDDY_MAX_ORDER"
    and "\<And>k. k < BUDDY_MAX_ORDER \<Longrightarrow> fl (ls ! k) = X k"
    and "\<And>k. k < BUDDY_MAX_ORDER \<Longrightarrow> nr_free (ls ! k) = of_nat (length (X k))"
    and "\<And>k. k < BUDDY_MAX_ORDER \<Longrightarrow> distinct (X k)"
  shows "lists_ok ls"
  using assms by (simp add: lists_ok_def)

lemma fl_del_mem:
  assumes "buddy_inv pool A" "(p, k) \<in> free_blocks pool" "free_lists pool' = ls"
    "length ls = BUDDY_MAX_ORDER" "\<And>j. j < BUDDY_MAX_ORDER \<Longrightarrow> fl (ls ! j) = fl (free_lists pool ! j)"
  shows "\<exists>ls'. fl_del p pool' = Inr (pool'\<lparr>free_lists := ls'\<rparr>) \<and> length ls' = BUDDY_MAX_ORDER \<and>
    (\<forall>j < BUDDY_MAX_ORDER. nr_free (ls' ! j) = nr_free (ls ! j) \<and>
      fl (ls' ! j) = (if j = k then remove1 p (fl (free_lists pool ! k)) else fl (free_lists pool ! j)))"
proof -
  note f = free_block_facts [OF assms(1,2)]
  have "list_ex (\<lambda>l. p \<in> set (fl l)) ls"
    using f(1,8) assms(4,5) unfolding list_ex_iff by (metis nth_mem)
  moreover have "remove1 p (fl (free_lists pool ! j)) = fl (free_lists pool ! j)"
    if "j < BUDDY_MAX_ORDER" "j \<noteq> k" for j
    by (rule remove1_idem) (use f(10) [of j] that in auto)
  ultimately show ?thesis
    using assms(3-5)
    by (intro exI [of _ "map (\<lambda>l. l\<lparr>fl := remove1 p (fl l)\<rparr>) ls"])
      (auto simp: fl_del_def)
qed

lemma split_half_spec:
  assumes inv: "buddy_inv pool A" and b: "(p, Suc k) \<in> free_blocks pool"
  shows "\<exists>pool'. split_half p pool = Inr pool' \<and> buddy_inv pool' A \<and> same_pool pool pool' \<and>
    free_blocks pool' = insert (p + 2 ^ k, k) (insert (p, k) (free_blocks pool - {(p, Suc k)}))"
proof -
  note i = invD [OF inv] and f = free_block_facts [OF inv b]
  let ?q = "p + 2 ^ k"
  have k: "k < BUDDY_MAX_ORDER" using f(1) by simp
  have bit0: "\<not> bit (pfn pool + p) k"
    using f(3) by (auto simp: bit_iff_odd)
  have q: "?q < npages pool" "?q < length (page_metadata pool)" "p \<noteq> ?q"
  proof -
    have "(0::nat) < 2 ^ k" by simp
    then show "?q < npages pool" "?q < length (page_metadata pool)" "p \<noteq> ?q"
      using f(2) i(1) unfolding geometry_def power_Suc by linarith+
  qed
  have bnd: "(p, k) \<notin> free_blocks pool \<union> A" "(?q, k) \<notin> free_blocks pool \<union> A"
    and bo: "blocks_ok (pfn pool) (npages pool) (insert (?q, k) (insert (p, k) (free_blocks pool \<union> A - {(p, Suc k)})))"
    and ti: "tiles (npages pool) (insert (?q, k) (insert (p, k) (free_blocks pool \<union> A - {(p, Suc k)})))"
    using blocks_split [OF i(3), of p k] i(4) b by auto
  define meta1 where "meta1 = (page_metadata pool)[p := (page_metadata pool ! p)\<lparr>porder := k\<rparr>]"
  define meta2 where "meta2 = meta1[?q := (meta1 ! ?q)\<lparr>porder := k, allocated := 0\<rparr>]"
  define L where "L = (\<lambda>j. fl (free_lists pool ! j))"
  define ls1 where "ls1 = (free_lists pool)[Suc k := (free_lists pool ! Suc k)\<lparr>nr_free := nr_free (free_lists pool ! Suc k) - 1\<rparr>]"
  have len: "length (free_lists pool) = BUDDY_MAX_ORDER" by (rule f(9))
  have "\<exists>ls2. fl_del p (pool\<lparr>free_lists := ls1\<rparr>) = Inr ((pool\<lparr>free_lists := ls1\<rparr>)\<lparr>free_lists := ls2\<rparr>) \<and>
      length ls2 = BUDDY_MAX_ORDER \<and> (\<forall>j < BUDDY_MAX_ORDER. nr_free (ls2 ! j) = nr_free (ls1 ! j) \<and>
      fl (ls2 ! j) = (if j = Suc k then remove1 p (fl (free_lists pool ! Suc k)) else fl (free_lists pool ! j)))"
    by (rule fl_del_mem [OF inv b]) (use f(1) in \<open>auto simp: ls1_def len nth_list_update\<close>)
  then obtain ls2 where ls2: "fl_del p (pool\<lparr>free_lists := ls1\<rparr>) = Inr (pool\<lparr>free_lists := ls2\<rparr>)"
      "length ls2 = BUDDY_MAX_ORDER" "\<And>j. j < BUDDY_MAX_ORDER \<Longrightarrow> nr_free (ls2 ! j) = nr_free (ls1 ! j)"
      "\<And>j. j < BUDDY_MAX_ORDER \<Longrightarrow> fl (ls2 ! j) = (if j = Suc k then remove1 p (L (Suc k)) else L j)"
    by (auto simp: L_def)
  define ls3 where "ls3 = ls2[k := (ls2 ! k)\<lparr>fl := ?q # p # fl (ls2 ! k), nr_free := nr_free (ls2 ! k) + 2\<rparr>]"
  define pool' where "pool' = pool\<lparr>page_metadata := meta2, free_lists := ls3\<rparr>"
  have chunk: "get_buddy_chunk (pool\<lparr>free_lists := ls2, page_metadata := meta1\<rparr>) p = Inr (Some ?q)"
  proof -
    have "geometry (pool\<lparr>free_lists := ls2, page_metadata := meta1\<rparr>)"
      using i(1) by (simp add: geometry_def npages_def meta1_def)
    moreover have "(pfn pool + p) XOR 2 ^ k = pfn pool + ?q"
      using bit0 by (simp add: nat_xor_exp)
    ultimately show ?thesis
      using get_buddy_chunk_eq [of "pool\<lparr>free_lists := ls2, page_metadata := meta1\<rparr>" p k] f(4,5) k q
      by (simp add: npages_def pfn_def meta1_def buddy_consts)
  qed
  have exec: "split_half p pool = Inr pool'"
    using f(1,5,6) len ls2(1,2) chunk q k
    by (simp add: split_half_def upd_fl_def ls1_def [symmetric] upd_page_def meta1_def [symmetric]
        fl_add_def pool'_def meta2_def ls3_def nth_list_update) (simp add: meta1_def)
  define X where "X = (\<lambda>j. if j = Suc k then remove1 p (L (Suc k)) else if j = k then ?q # p # L k else L j)"
  have X: "fl (ls3 ! j) = X j" "nr_free (ls3 ! j) = of_nat (length (X j))" "distinct (X j)"
    if "j < BUDDY_MAX_ORDER" for j
  proof -
    have nL: "p \<notin> set (L k)" "?q \<notin> set (L k)"
      using bnd len k by (auto simp: free_blocks_def L_def)
    have dL: "distinct (L j)" "nr_free (free_lists pool ! j) = of_nat (length (L j))"
      using i(2) that by (auto simp: lists_ok_def L_def)
    have "p \<in> set (L (Suc k))" using f(8) by (simp add: L_def)
    then have "length (L (Suc k)) = Suc (length (remove1 p (L (Suc k))))"
      by (simp add: length_remove1) (metis One_nat_def Suc_pred length_pos_if_in_set)
    then have s: "(of_nat (length (L (Suc k))) :: u64) - 1 = of_nat (length (remove1 p (L (Suc k))))" by simp
    show "fl (ls3 ! j) = X j" using that k ls2 by (simp add: ls3_def X_def nth_list_update)
    show "distinct (X j)" using dL(1) nL q(3) by (auto simp: X_def distinct_remove1)
    show "nr_free (ls3 ! j) = of_nat (length (X j))"
      using that k ls2(2-) dL(2) s f(1) len
      by (auto simp: ls3_def X_def nth_list_update ls1_def)
  qed
  have l3: "length ls3 = BUDDY_MAX_ORDER" using ls2(2) by (simp add: ls3_def)
  have fb: "free_blocks pool' = insert (?q, k) (insert (p, k) (free_blocks pool - {(p, Suc k)}))"
  proof -
    have dS: "distinct (L (Suc k))" using i(2) f(1) by (auto simp: lists_ok_def L_def)
    have "(r, j) \<in> free_blocks pool' \<longleftrightarrow> (r, j) \<in> insert (?q, k) (insert (p, k) (free_blocks pool - {(p, Suc k)}))" for r j
      using X(1) [of j] l3 len k f(1) dS
      by (auto simp: free_blocks_def pool'_def X_def L_def split: if_splits)
    then show ?thesis by auto
  qed
  have un: "free_blocks pool' \<union> A = insert (?q, k) (insert (p, k) (free_blocks pool \<union> A - {(p, Suc k)}))"
    using fb b i(5) by auto
  have sm: "same_pool pool pool'"
    using f(5) q(2) by (auto simp: same_pool_def pool'_def meta2_def meta1_def nth_list_update intro!: nth_equalityI)
  have nq: "r \<noteq> p \<and> r \<noteq> ?q" if "(r, j) \<in> free_blocks pool \<union> A" "(r, j) \<noteq> (p, Suc k)" for r j
  proof -
    have "covers (p, Suc k) p" "covers (p, Suc k) ?q" by (auto simp: covers_def)
    then show ?thesis
      using i(3) b that covers_self [of r j] unfolding blocks_ok_def by (metis UnI1)
  qed
  have "r < length meta2 \<and> porder (meta2 ! r) = j \<and> allocated (meta2 ! r) = 0"
    if r: "(r, j) \<in> free_blocks pool'" for r j
  proof (cases "r = ?q \<and> j = k \<or> r = p \<and> j = k")
    case True
    then show ?thesis using f(5,7) q by (auto simp: meta2_def meta1_def nth_list_update)
  next
    case False
    then have o: "(r, j) \<in> free_blocks pool" "(r, j) \<noteq> (p, Suc k)" using r unfolding fb by auto
    then have "r \<noteq> p \<and> r \<noteq> ?q" using nq [of r j] by blast
    then show ?thesis using i(6) o by (auto simp: marked_def meta2_def meta1_def nth_list_update)
  qed
  then have mk0: "marked meta2 0 (free_blocks pool')" by (auto simp: marked_def)
  have "r < length meta2 \<and> porder (meta2 ! r) = j \<and> allocated (meta2 ! r) = 1"
    if r: "(r, j) \<in> A" for r j
  proof -
    have "(r, j) \<noteq> (p, Suc k)" using r b i(5) by auto
    with nq [of r j] r have "r \<noteq> p \<and> r \<noteq> ?q" by blast
    then show ?thesis
      using i(7) r by (auto simp: marked_def meta2_def meta1_def nth_list_update)
  qed
  then have mk1: "marked meta2 1 A" by (auto simp: marked_def)
  show ?thesis
    using exec fb sm un bo ti mk0 mk1 i(1,5) bnd lists_ok_change [OF l3 X(1) X(2) X(3)] same_pool_geometry [OF sm]
    by (auto simp: buddy_inv_def pool'_def)
qed


section \<open>Splitting down to the requested order\<close>

text \<open>
  What splitting does to the free blocks: \<open>(p, k)\<close> is free afterwards, together with the upper
  halves \<open>(p + 2 ^ j, j)\<close> for \<open>k \<le> j < m\<close>.
\<close>

definition split_blocks :: "nat \<Rightarrow> nat \<Rightarrow> nat \<Rightarrow> (nat \<times> nat) set \<Rightarrow> (nat \<times> nat) set" where
  "split_blocks p k m F = insert (p, k) (F - {(p, m)}) \<union> {(p + 2 ^ j, j) | j. k \<le> j \<and> j < m}"

lemma split_page_spec:
  "buddy_inv pool A \<Longrightarrow> (p, m) \<in> free_blocks pool \<Longrightarrow> k < m \<Longrightarrow>
   \<exists>pool'. split_page k p pool = Inr (p, pool') \<and> buddy_inv pool' A \<and> same_pool pool pool' \<and>
     free_blocks pool' = split_blocks p k m (free_blocks pool)"
proof (induction "m - k" arbitrary: k)
  case (Suc d)
  note f = free_block_facts [OF Suc.prems(1,2)]
  have head: "split_page k p pool =
     bindR (if m > k + 1 then split_page (k + 1) p pool else Inr (p, pool))
       (\<lambda>(page, pool). bindR (split_half page pool) (\<lambda>pool. Inr (page, pool)))"
    using f(5-7) Suc.prems(3) by (subst split_page.simps) simp
  show ?case
  proof (cases "m = Suc k")
    case True
    have "{(p + 2 ^ j, j) | j. k \<le> j \<and> j < m} = {(p + 2 ^ k, k)}" using True by auto
    then have "split_blocks p k m (free_blocks pool) =
        insert (p + 2 ^ k, k) (insert (p, k) (free_blocks pool - {(p, Suc k)}))"
      using True by (auto simp: split_blocks_def)
    with split_half_spec [of pool A p k] Suc.prems True head show ?thesis by auto
  next
    case False
    then have lt: "Suc k < m" using Suc.prems(3) by simp
    have "d = m - Suc k" using Suc.hyps(2) by simp
    from Suc.hyps(1) [OF this Suc.prems(1,2) lt]
    obtain p1 where p1: "split_page (Suc k) p pool = Inr (p, p1)" "buddy_inv p1 A" "same_pool pool p1"
      "free_blocks p1 = split_blocks p (Suc k) m (free_blocks pool)" by blast
    then have "(p, Suc k) \<in> free_blocks p1" by (simp add: split_blocks_def)
    from split_half_spec [OF p1(2) this]
    obtain p2 where p2: "split_half p p1 = Inr p2" "buddy_inv p2 A" "same_pool p1 p2"
      "free_blocks p2 = insert (p + 2 ^ k, k) (insert (p, k) (free_blocks p1 - {(p, Suc k)}))" by blast
    have "(p, Suc k) \<notin> free_blocks pool" using f(11) [of "Suc k"] lt by auto
    moreover have "{(p + 2 ^ j, j) | j. k \<le> j \<and> j < m} =
        insert (p + 2 ^ k, k) {(p + 2 ^ j, j) | j. Suc k \<le> j \<and> j < m}"
      using lt by (auto simp: le_eq_less_or_eq Suc_le_eq)
    ultimately have "free_blocks p2 = split_blocks p k m (free_blocks pool)"
      unfolding p2(4) p1(4) split_blocks_def using lt by auto
    then show ?thesis
      using head lt p1 p2 same_pool_trans [OF p1(3) p2(3)] by simp
  qed
qed simp

section \<open>Handing out a block\<close>

text \<open>
  The last statements of \<^verbatim>\<open>buddy_get_pages\<close>: unlink, count, mark. The two branches of the
  function do them in different orders.
\<close>

definition taken :: "nat \<Rightarrow> nat \<Rightarrow> phys_mem_pool \<Rightarrow> phys_mem_pool \<Rightarrow> bool" where
  "taken p k pool pool' \<longleftrightarrow>
     (\<exists>ls. pool' = pool\<lparr>free_lists := ls,
        page_metadata := (page_metadata pool)[p := (page_metadata pool ! p)\<lparr>allocated := 1\<rparr>]\<rparr> \<and>
      length ls = BUDDY_MAX_ORDER \<and>
      (\<forall>j < BUDDY_MAX_ORDER.
        nr_free (ls ! j) = (if j = k then nr_free (free_lists pool ! k) - 1 else nr_free (free_lists pool ! j)) \<and>
        fl (ls ! j) = (if j = k then remove1 p (fl (free_lists pool ! k)) else fl (free_lists pool ! j))))"

lemma taken_inv:
  assumes inv: "buddy_inv pool A" and b: "(p, k) \<in> free_blocks pool" and t: "taken p k pool pool'"
  shows "buddy_inv pool' (insert (p, k) A)" "same_pool pool pool'"
    "free_blocks pool' = free_blocks pool - {(p, k)}"
proof -
  note i = invD [OF inv] and f = free_block_facts [OF inv b]
  define L where "L = (\<lambda>j. fl (free_lists pool ! j))"
  define X where "X = (\<lambda>j. if j = k then remove1 p (L k) else L j)"
  obtain ls where ls: "pool' = pool\<lparr>free_lists := ls,
        page_metadata := (page_metadata pool)[p := (page_metadata pool ! p)\<lparr>allocated := 1\<rparr>]\<rparr>"
      "length ls = BUDDY_MAX_ORDER"
      "\<And>j. j < BUDDY_MAX_ORDER \<Longrightarrow> nr_free (ls ! j) =
         (if j = k then nr_free (free_lists pool ! k) - 1 else nr_free (free_lists pool ! j))"
      "\<And>j. j < BUDDY_MAX_ORDER \<Longrightarrow> fl (ls ! j) = X j"
    using t by (auto simp: taken_def X_def L_def)
  have dL: "distinct (L j)" "nr_free (free_lists pool ! j) = of_nat (length (L j))" if "j < BUDDY_MAX_ORDER" for j
    using i(2) that by (auto simp: lists_ok_def L_def)
  have pk: "p \<in> set (L k)" using f(8) by (simp add: L_def)
  have "length (L k) = Suc (length (remove1 p (L k)))"
    using pk by (simp add: length_remove1) (metis One_nat_def Suc_pred length_pos_if_in_set)
  then have s: "(of_nat (length (L k)) :: u64) - 1 = of_nat (length (remove1 p (L k)))" by simp
  have lo: "lists_ok ls"
    by (rule lists_ok_change [OF ls(2,4)]) (use ls(3) dL s f(1) in \<open>auto simp: X_def distinct_remove1\<close>)
  show sm: "same_pool pool pool'"
    using f(5) by (auto simp: same_pool_def ls(1) nth_list_update intro!: nth_equalityI)
  have "(r, j) \<in> free_blocks pool' \<longleftrightarrow> (r, j) \<in> free_blocks pool - {(p, k)}" for r j
    using ls(4) [of j] ls(1,2) f(9) dL(1) [of k] f(1)
    by (auto simp: free_blocks_def X_def L_def split: if_splits)
  then show fb: "free_blocks pool' = free_blocks pool - {(p, k)}" by auto
  have un: "free_blocks pool' \<union> insert (p, k) A = free_blocks pool \<union> A" using fb b by auto
  have pm: "page_metadata pool' = (page_metadata pool)[p := (page_metadata pool ! p)\<lparr>allocated := 1\<rparr>]"
    using ls(1) by simp
  have "r < length (page_metadata pool') \<and> porder (page_metadata pool' ! r) = j \<and> allocated (page_metadata pool' ! r) = 0"
    if "(r, j) \<in> free_blocks pool - {(p, k)}" for r j
  proof -
    have "r \<noteq> p" using f(11) [of j] that by auto
    then show ?thesis using i(6) that by (auto simp: pm marked_def)
  qed
  then have "marked (page_metadata pool') 0 (free_blocks pool')"
    unfolding fb marked_def by blast
  moreover have "marked (page_metadata pool') 1 (insert (p, k) A)"
    using i(7) f(5,6) unfolding marked_def by (auto simp: ls(1) nth_list_update)
  ultimately show "buddy_inv pool' (insert (p, k) A)"
    using i un fb lo same_pool_geometry [OF sm] ls(1) unfolding buddy_inv_def by auto
qed

lemma take_first:
  assumes "buddy_inv pool A" "k < BUDDY_MAX_ORDER" "fl (free_lists pool ! k) = p # ps"
  shows "(p, k) \<in> free_blocks pool"
    "\<exists>pool'. bindR (fl_del p pool) (\<lambda>pool.
       bindR (upd_fl k (\<lambda>l. l\<lparr>nr_free := nr_free l - 1\<rparr>) pool) (\<lambda>pool.
       bindR (upd_page p (\<lambda>p. p\<lparr>allocated := 1\<rparr>) pool) (\<lambda>pool.
       Inr (Some p, pool)))) = Inr (Some p, pool') \<and> taken p k pool pool'"
proof -
  have "length (free_lists pool) = BUDDY_MAX_ORDER" using assms(1) by (simp add: buddy_inv_def lists_ok_def)
  then show b: "(p, k) \<in> free_blocks pool" using assms by (simp add: free_blocks_def)
  note f = free_block_facts [OF assms(1) b]
  from fl_del_mem [OF assms(1) b refl f(9)]
  obtain ls' where l: "fl_del p pool = Inr (pool\<lparr>free_lists := ls'\<rparr>)" "length ls' = BUDDY_MAX_ORDER"
    "\<forall>j < BUDDY_MAX_ORDER. nr_free (ls' ! j) = nr_free (free_lists pool ! j) \<and>
      fl (ls' ! j) = (if j = k then remove1 p (fl (free_lists pool ! k)) else fl (free_lists pool ! j))" by auto
  then show "\<exists>pool'. bindR (fl_del p pool) (\<lambda>pool.
       bindR (upd_fl k (\<lambda>l. l\<lparr>nr_free := nr_free l - 1\<rparr>) pool) (\<lambda>pool.
       bindR (upd_page p (\<lambda>p. p\<lparr>allocated := 1\<rparr>) pool) (\<lambda>pool.
       Inr (Some p, pool)))) = Inr (Some p, pool') \<and> taken p k pool pool'"
  proof -
    define ls where "ls = ls'[k := (ls' ! k)\<lparr>nr_free := nr_free (ls' ! k) - 1\<rparr>]"
    have u: "upd_fl k (\<lambda>l. l\<lparr>nr_free := nr_free l - 1\<rparr>) (pool\<lparr>free_lists := ls'\<rparr>) = Inr (pool\<lparr>free_lists := ls\<rparr>)"
      using f(1) l(2) by (simp add: upd_fl_def ls_def)
    have "\<forall>j < BUDDY_MAX_ORDER.
        nr_free (ls ! j) = (if j = k then nr_free (free_lists pool ! k) - 1 else nr_free (free_lists pool ! j)) \<and>
        fl (ls ! j) = (if j = k then remove1 p (fl (free_lists pool ! k)) else fl (free_lists pool ! j))"
      using l(2,3) f(1) by (auto simp: ls_def nth_list_update)
    moreover have "length ls = BUDDY_MAX_ORDER" using l(2) by (simp add: ls_def)
    ultimately show ?thesis
      unfolding taken_def using f(5) l(1) u by (intro exI conjI [OF _ exI [of _ ls]]) (auto simp: upd_page_def)
  qed
qed

lemma take_split:
  assumes "buddy_inv pool A" "(p, k) \<in> free_blocks pool"
  shows "\<exists>pool'. bindR (upd_fl k (\<lambda>l. l\<lparr>nr_free := nr_free l - 1\<rparr>) pool) (\<lambda>pool.
       bindR (fl_del p pool) (\<lambda>pool.
       bindR (upd_page p (\<lambda>p. p\<lparr>allocated := 1\<rparr>) pool) (\<lambda>pool.
       Inr (Some p, pool)))) = Inr (Some p, pool') \<and> taken p k pool pool'"
proof -
  note f = free_block_facts [OF assms]
  define ls where "ls = (free_lists pool)[k := (free_lists pool ! k)\<lparr>nr_free := nr_free (free_lists pool ! k) - 1\<rparr>]"
  have ls: "length ls = BUDDY_MAX_ORDER" "\<And>j. j < BUDDY_MAX_ORDER \<Longrightarrow> fl (ls ! j) = fl (free_lists pool ! j)"
    using f(1,9) by (auto simp: ls_def nth_list_update)
  from fl_del_mem [OF assms, of "pool\<lparr>free_lists := ls\<rparr>" ls] ls
  obtain ls' where l: "fl_del p (pool\<lparr>free_lists := ls\<rparr>) = Inr (pool\<lparr>free_lists := ls'\<rparr>)" "length ls' = BUDDY_MAX_ORDER"
    "\<forall>j < BUDDY_MAX_ORDER. nr_free (ls' ! j) = nr_free (ls ! j) \<and>
      fl (ls' ! j) = (if j = k then remove1 p (fl (free_lists pool ! k)) else fl (free_lists pool ! j))" by auto
  have u: "upd_fl k (\<lambda>l. l\<lparr>nr_free := nr_free l - 1\<rparr>) pool = Inr (pool\<lparr>free_lists := ls\<rparr>)"
    using f(1,9) by (simp add: upd_fl_def ls_def)
  have n: "\<forall>j < BUDDY_MAX_ORDER. nr_free (ls ! j) =
      (if j = k then nr_free (free_lists pool ! k) - 1 else nr_free (free_lists pool ! j))"
    using f(1,9) by (auto simp: ls_def nth_list_update)
  show ?thesis
    unfolding taken_def using f(5) l n u
    by (intro exI conjI [OF _ exI [of _ ls']]) (auto simp: upd_page_def)
qed


section \<open>Finding and allocating\<close>

lemma free_list_bound:
  assumes "buddy_inv pool A" "k < BUDDY_MAX_ORDER"
  shows "length (fl (free_lists pool ! k)) < 2 ^ 64"
    "nr_free (free_lists pool ! k) \<ge> 1 \<longleftrightarrow> fl (free_lists pool ! k) \<noteq> []"
proof -
  note i = invD [OF assms(1)]
  have l: "length (free_lists pool) = BUDDY_MAX_ORDER" "distinct (fl (free_lists pool ! k))"
    "nr_free (free_lists pool ! k) = of_nat (length (fl (free_lists pool ! k)))"
    using i(2) assms(2) by (auto simp: lists_ok_def)
  have "set (fl (free_lists pool ! k)) \<subseteq> {..<npages pool}"
    using free_block_facts(4) [OF assms(1)] assms(2) l(1) by (auto simp: free_blocks_def)
  then have "card (set (fl (free_lists pool ! k))) \<le> npages pool" by (metis card_lessThan card_mono finite_lessThan)
  then have "length (fl (free_lists pool ! k)) \<le> npages pool" using l(2) by (simp add: distinct_card)
  moreover have "npages pool < 2 ^ 64"
  proof -
    have "npages pool \<le> unat (pool_mem_size pool)" by (simp add: npages_def)
    moreover have "unat (pool_mem_size pool) < 2 ^ LENGTH(64)" by (rule unsigned_less)
    ultimately show ?thesis by simp
  qed
  ultimately show b: "length (fl (free_lists pool ! k)) < 2 ^ 64" by simp
  have "unat (nr_free (free_lists pool ! k)) = length (fl (free_lists pool ! k))"
    unfolding l(3) using b by (simp add: unat_of_nat take_bit_nat_eq_self)
  then show "nr_free (free_lists pool ! k) \<ge> 1 \<longleftrightarrow> fl (free_lists pool ! k) \<noteq> []"
    by (simp add: word_le_nat_alt Suc_le_eq)
qed

lemma find_order_spec:
  assumes inv: "buddy_inv pool A"
  shows "k \<le> BUDDY_MAX_ORDER \<Longrightarrow> \<exists>m. find_order pool (int k) = Inr (int m) \<and> k \<le> m \<and> m \<le> BUDDY_MAX_ORDER \<and>
    (\<forall>j. k \<le> j \<and> j < m \<longrightarrow> fl (free_lists pool ! j) = []) \<and>
    (m < BUDDY_MAX_ORDER \<longrightarrow> fl (free_lists pool ! m) \<noteq> [])"
proof (induction "BUDDY_MAX_ORDER - k" arbitrary: k)
  case 0
  then have "k = BUDDY_MAX_ORDER" by simp
  then show ?case by (intro exI [of _ k]) (subst find_order.simps, auto simp: int_u64_def)
next
  case (Suc d)
  have l: "length (free_lists pool) = BUDDY_MAX_ORDER" using inv by (simp add: buddy_inv_def lists_ok_def)
  have k: "k < BUDDY_MAX_ORDER" using Suc.hyps(2) by simp
  then have lt: "int_u64 (int k) < of_nat BUDDY_MAX_ORDER"
    by (simp add: int_u64_def word_less_nat_alt unat_of_nat buddy_consts take_bit_nat_eq_self)
  have eq: "find_order pool (int k) =
      (if fl (free_lists pool ! k) \<noteq> [] then Inr (int k) else find_order pool (int (Suc k)))"
    by (subst find_order.simps) (use lt k l free_list_bound(2) [OF inv k] in \<open>simp add: add.commute\<close>)
  show ?case
  proof (cases "fl (free_lists pool ! k) = []")
    case False
    then show ?thesis using eq k by (intro exI [of _ k]) auto
  next
    case True
    have "d = BUDDY_MAX_ORDER - Suc k" "Suc k \<le> BUDDY_MAX_ORDER" using Suc.hyps(2) k by simp_all
    from Suc.hyps(1) [OF this] obtain m where "find_order pool (int (Suc k)) = Inr (int m)" "Suc k \<le> m"
      "m \<le> BUDDY_MAX_ORDER" "\<forall>j. Suc k \<le> j \<and> j < m \<longrightarrow> fl (free_lists pool ! j) = []"
      "m < BUDDY_MAX_ORDER \<longrightarrow> fl (free_lists pool ! m) \<noteq> []" by blast
    moreover from this have "\<forall>j. k \<le> j \<and> j < m \<longrightarrow> fl (free_lists pool ! j) = []"
      using True by (metis Suc_leI le_neq_implies_less)
    ultimately show ?thesis using eq True by (intro exI [of _ m]) auto
  qed
qed

lemma buddy_get_pages_cases:
  assumes inv: "buddy_inv pool A" and k: "unat ord = k" "k < BUDDY_MAX_ORDER"
  obtains m p pool' where "k \<le> m" "(p, m) \<in> free_blocks pool"
      "\<And>j. k \<le> j \<Longrightarrow> j < m \<Longrightarrow> fl (free_lists pool ! j) = []"
      "buddy_get_pages pool ord = Inr (Some p, pool')"
      "buddy_inv pool' (insert (p, k) A)" "same_pool pool pool'"
      "free_blocks pool' = (free_blocks pool - {(p, m)}) \<union> {(p + 2 ^ j, j) | j. k \<le> j \<and> j < m}"
  | "buddy_get_pages pool ord = Inr (None, pool)"
      "\<forall>p m. (p, m) \<in> free_blocks pool \<longrightarrow> m < k"
proof -
  have l: "length (free_lists pool) = BUDDY_MAX_ORDER" using inv by (simp add: buddy_inv_def lists_ok_def)
  have si: "sint (ucast ord :: 32 word) = int k" using small_order [of ord] k by (simp add: buddy_consts)
  obtain m where m: "find_order pool (int k) = Inr (int m)" "k \<le> m" "m \<le> BUDDY_MAX_ORDER"
      "\<And>j. k \<le> j \<Longrightarrow> j < m \<Longrightarrow> fl (free_lists pool ! j) = []"
      "m < BUDDY_MAX_ORDER \<Longrightarrow> fl (free_lists pool ! m) \<noteq> []"
    using find_order_spec [OF inv, of k] k(2) by auto
  have im: "unat (int_u64 (int m)) = m"
    using m(3) by (simp add: int_u64_def unat_of_nat buddy_consts take_bit_nat_eq_self)
  have eqm: "int_u64 (int m) = ord \<longleftrightarrow> m = k" using im k(1) by (auto simp: word_unat_eq_iff)
  have ltm: "int_u64 (int m) \<ge> of_nat BUDDY_MAX_ORDER \<longleftrightarrow> m = BUDDY_MAX_ORDER"
    using im m(3) by (auto simp: word_le_nat_alt unat_of_nat buddy_consts take_bit_nat_eq_self)
  consider "m = BUDDY_MAX_ORDER" | "m = k" | "k < m" "m < BUDDY_MAX_ORDER" using m(2,3) by linarith
  then show thesis
  proof cases
    case 1
    then have "buddy_get_pages pool ord = Inr (None, pool)"
      using m(1) k eqm ltm by (simp add: buddy_get_pages_def si)
    moreover have "\<forall>p m. (p, m) \<in> free_blocks pool \<longrightarrow> m < k"
      using m(4) 1 l by (force simp: free_blocks_def not_less [symmetric])
    ultimately show thesis by (rule that(2))
  next
    case 2
    then obtain p ps where p: "fl (free_lists pool ! k) = p # ps"
      using m(5) k(2) by (cases "fl (free_lists pool ! k)") auto
    note t = take_first [OF inv k(2) p]
    from t(2) obtain pool' where p': "bindR (fl_del p pool) (\<lambda>pool.
       bindR (upd_fl k (\<lambda>l. l\<lparr>nr_free := nr_free l - 1\<rparr>) pool) (\<lambda>pool.
       bindR (upd_page p (\<lambda>p. p\<lparr>allocated := 1\<rparr>) pool) (\<lambda>pool.
       Inr (Some p, pool)))) = Inr (Some p, pool')" "taken p k pool pool'" by blast
    have "fl_first k pool = Inr p" using p k(2) l by (simp add: fl_first_def)
    then have g: "buddy_get_pages pool ord = Inr (Some p, pool')"
      using m(1) 2 eqm p'(1) by (simp add: buddy_get_pages_def si)
    have "{(p + 2 ^ j, j) | j. k \<le> j \<and> j < k} = {}" by auto
    then have fb: "free_blocks pool' = (free_blocks pool - {(p, k)}) \<union> {(p + 2 ^ j, j) | j. k \<le> j \<and> j < k}"
      unfolding taken_inv(3) [OF inv t(1) p'(2)] by blast
    show thesis
      by (rule that(1) [OF le_refl t(1) _ g taken_inv(1,2) [OF inv t(1) p'(2)] fb]) simp
  next
    case 3
    then obtain p ps where p: "fl (free_lists pool ! m) = p # ps"
      using m(5) by (cases "fl (free_lists pool ! m)") auto
    have b: "(p, m) \<in> free_blocks pool" using p l 3(2) by (simp add: free_blocks_def)
    note f = free_block_facts [OF inv b]
    obtain p1 where p1: "split_page k p pool = Inr (p, p1)" "buddy_inv p1 A" "same_pool pool p1"
       "free_blocks p1 = split_blocks p k m (free_blocks pool)"
      using split_page_spec [OF inv b 3(1)] by blast
    have b1: "(p, k) \<in> free_blocks p1" by (simp add: p1(4) split_blocks_def)
    obtain pool' where p': "bindR (upd_fl k (\<lambda>l. l\<lparr>nr_free := nr_free l - 1\<rparr>) p1) (\<lambda>pool.
       bindR (fl_del p pool) (\<lambda>pool.
       bindR (upd_page p (\<lambda>p. p\<lparr>allocated := 1\<rparr>) pool) (\<lambda>pool.
       Inr (Some p, pool)))) = Inr (Some p, pool')" "taken p k p1 pool'"
      using take_split [OF p1(2) b1] by blast
    have "fl_first m pool = Inr p" using p 3(2) l by (simp add: fl_first_def)
    then have g: "buddy_get_pages pool ord = Inr (Some p, pool')"
      using m(1) 3 eqm ltm p'(1) p1(1) k(1) by (simp add: buddy_get_pages_def si)
    have "(p, k) \<notin> free_blocks pool" using f(11) [of k] 3(1) by auto
    then have "free_blocks pool' = (free_blocks pool - {(p, m)}) \<union> {(p + 2 ^ j, j) | j. k \<le> j \<and> j < m}"
      unfolding taken_inv(3) [OF p1(2) b1 p'(2)] p1(4) split_blocks_def using 3(1) by auto
    then show thesis
      using that(1) [OF m(2) b m(4) g] taken_inv(1,2) [OF p1(2) b1 p'(2)] same_pool_trans [OF p1(3)] by blast
  qed
qed

lemma buddy_get_pages_out_of_range:
  assumes "buddy_inv pool A" "BUDDY_MAX_ORDER \<le> unat ord" "unat ord < 2 ^ 31"
  shows "buddy_get_pages pool ord = Inl WILD"
proof -
  have l: "length (free_lists pool) = BUDDY_MAX_ORDER" using assms(1) by (simp add: buddy_inv_def lists_ok_def)
  have w: "int_u64 (int (unat ord)) = ord" by (simp add: int_u64_def)
  have "\<not> int_u64 (int (unat ord)) < of_nat BUDDY_MAX_ORDER"
    unfolding w using assms(2) by (simp add: word_less_nat_alt unat_of_nat buddy_consts take_bit_nat_eq_self)
  then have "find_order pool (int (unat ord)) = Inr (int (unat ord))" by (subst find_order.simps) simp
  then show ?thesis
    using small_order [OF assms(3)] assms(2) l w
    by (simp add: buddy_get_pages_def fl_first_def arr_get_def)
qed

end
