(* ===== verification/BuddyFree.thy ===== *)
theory BuddyFree
  imports Buddy
begin

text \<open>
  Freeing in the buddy allocator: a freed block is merged with its buddy as long as that is free,
  so no two buddies are ever free at the same time; initialisation frees every page of the pool.
  The theory ends with the properties of the allocator and with its interface for the users of
  page blocks.
\<close>

section \<open>Merging\<close>

lemma covers_ivl: "{p..<p + 2 ^ k} = {i. covers (p, k) i}"
  by (auto simp: covers_def)

lemma block_in_pool: "blocks_ok s n B \<Longrightarrow> b \<in> B \<Longrightarrow> covers b x \<Longrightarrow> x < n"
proof -
  assume "blocks_ok s n B" "b \<in> B" and c: "covers b x"
  then have "fst b + 2 ^ snd b \<le> n" unfolding blocks_ok_def by (cases b) auto
  with c show "x < n" by (simp add: covers_def)
qed

text \<open>Blocks that would be merged: same order, addresses that differ in the bit of the order.\<close>

definition mergeable :: "nat \<Rightarrow> nat \<times> nat \<Rightarrow> nat \<times> nat \<Rightarrow> bool" where
  "mergeable s b c \<longleftrightarrow> snd b = snd c \<and> snd b < BUDDY_MAX_ORDER - 1 \<and>
     s + fst c = (s + fst b) XOR 2 ^ snd b"

definition coalesced :: "nat \<Rightarrow> (nat \<times> nat) set \<Rightarrow> bool" where
  "coalesced s F \<longleftrightarrow> (\<forall>b \<in> F. \<forall>c \<in> F. \<not> mergeable s b c)"

definition coalesced_but :: "nat \<Rightarrow> nat \<times> nat \<Rightarrow> (nat \<times> nat) set \<Rightarrow> bool" where
  "coalesced_but s x F \<longleftrightarrow> (\<forall>b \<in> F. \<forall>c \<in> F. mergeable s b c \<longrightarrow> b = x \<or> c = x)"

lemma mergeable_sym: "mergeable s b c \<Longrightarrow> mergeable s c b"
proof -
  have x: "y = x XOR a \<Longrightarrow> x = y XOR a" for x y a :: nat by (simp add: xor.assoc)
  assume "mergeable s b c"
  then show "mergeable s c b" unfolding mergeable_def using x by (metis (no_types))
qed

lemma mergeable_irrefl: "\<not> mergeable s b b"
proof -
  have "x \<noteq> x XOR 2 ^ k" for x k :: nat
  proof
    assume "x = x XOR 2 ^ k"
    then have "x XOR x = (x XOR x) XOR 2 ^ k" unfolding xor.assoc by simp
    then show False by simp
  qed
  then show ?thesis by (simp add: mergeable_def)
qed

text \<open>The buddy address of an aligned block, split by which half it is.\<close>

lemma buddy_half:
  assumes "2 ^ k dvd (x :: nat)"
  shows "x XOR 2 ^ k = (if 2 ^ Suc k dvd x then x + 2 ^ k else x - 2 ^ k)"
    "2 ^ k dvd x XOR 2 ^ k" "(x XOR 2 ^ k) div 2 ^ Suc k = x div 2 ^ Suc k" "x XOR 2 ^ k \<noteq> x"
    "\<not> 2 ^ Suc k dvd x \<Longrightarrow> 2 ^ k \<le> x \<and> 2 ^ Suc k dvd x - 2 ^ k"
proof -
  obtain t where t: "x = 2 ^ k * t" using assms by blast
  have b: "bit x k \<longleftrightarrow> odd t" using t by (simp add: bit_iff_odd)
  have d: "2 ^ Suc k dvd x \<longleftrightarrow> even t" using t by (simp add: mult.commute [of 2])
  show e: "x XOR 2 ^ k = (if 2 ^ Suc k dvd x then x + 2 ^ k else x - 2 ^ k)"
    by (auto simp only: nat_xor_exp b d split: if_splits)
  show "2 ^ k dvd x XOR 2 ^ k" unfolding e using assms by simp
  show "\<not> 2 ^ Suc k dvd x \<Longrightarrow> 2 ^ k \<le> x \<and> 2 ^ Suc k dvd x - 2 ^ k"
  proof -
    assume "\<not> 2 ^ Suc k dvd x"
    then obtain u where "t = 2 * u + 1" using d by (metis oddE)
    then show ?thesis using t by (simp add: algebra_simps)
  qed
  then have o: "odd t \<Longrightarrow> 2 ^ k \<le> x" using d by simp
  have pos: "(0::nat) < 2 ^ k" by simp
  have "x - 2 ^ k \<noteq> x" if "2 ^ k \<le> x" using pos that by linarith
  then show "x XOR 2 ^ k \<noteq> x" using o unfolding e d by auto
  show "(x XOR 2 ^ k) div 2 ^ Suc k = x div 2 ^ Suc k"
  proof (cases "even t")
    case True
    then obtain u where "t = 2 * u" by blast
    then have "x = 2 ^ Suc k * u" using t by simp
    then show ?thesis unfolding e by simp
  next
    case False
    then obtain u where "t = 2 * u + 1" by (metis oddE)
    then have x: "x = 2 ^ Suc k * u + 2 ^ k" using t by (simp add: algebra_simps)
    have "x XOR 2 ^ k = x - 2 ^ k" using e d False by simp
    then have "(x XOR 2 ^ k) div 2 ^ Suc k = u" using x by simp
    moreover have "x div 2 ^ Suc k = u" unfolding x by simp
    ultimately show ?thesis by simp
  qed
qed

text \<open>What the code finds at the buddy address of a free block.\<close>

lemma buddy_lookup:
  assumes inv: "buddy_inv pool A" and b: "(p, k) \<in> free_blocks pool"
  obtains "get_buddy_chunk pool p = Inr None" "\<And>q. (q, k) \<in> free_blocks pool \<Longrightarrow> k < BUDDY_MAX_ORDER - 1 \<Longrightarrow> \<not> mergeable (pfn pool) (p, k) (q, k)"
  | q where "get_buddy_chunk pool p = Inr (Some q)" "q < length (page_metadata pool)" "pfn pool + q = (pfn pool + p) XOR 2 ^ k"
      "allocated (page_metadata pool ! q) \<noteq> 1 \<and> porder (page_metadata pool ! q) = k \<longleftrightarrow> (q, k) \<in> free_blocks pool"
proof -
  note i = invD [OF inv] and f = free_block_facts [OF inv b]
  let ?s = "pfn pool" and ?n = "npages pool" and ?y = "(pfn pool + p) XOR 2 ^ k"
  note h = buddy_half [OF f(3)]
  have g: "get_buddy_chunk pool p = Inr (if ?s \<le> ?y \<and> ?y < ?s + ?n then Some (?y - ?s) else None)"
    using get_buddy_chunk_eq [OF i(1) f(4,6)] f(1) by (simp add: buddy_consts Let_def)
  show thesis
  proof (cases "?s \<le> ?y \<and> ?y < ?s + ?n")
    case False
    have "\<not> mergeable ?s (p, k) (q, k)" if "(q, k) \<in> free_blocks pool" for q
      using free_block_facts(4) [OF inv that] False by (auto simp: mergeable_def)
    then show thesis using g False that(1) by simp
  next
    case True
    define q where "q = ?y - ?s"
    have q: "?s + q = ?y" "q < ?n" "q < length (page_metadata pool)" "q \<noteq> p"
      using True h(4) i(1) by (auto simp: q_def geometry_def)
    have "2 ^ k dvd ?s + q" "(?s + q) div 2 ^ Suc k = (?s + p) div 2 ^ Suc k"
      using q(1) h(2,3) by simp_all
    from buddy_is_head [OF i(3,4) UnI1 [OF b] q(2) this q(4)]
    obtain j where j: "j \<le> k" "(q, j) \<in> free_blocks pool \<union> A" by blast
    have "allocated (page_metadata pool ! q) \<noteq> 1 \<and> porder (page_metadata pool ! q) = k \<longleftrightarrow> (q, k) \<in> free_blocks pool"
    proof
      assume a: "allocated (page_metadata pool ! q) \<noteq> 1 \<and> porder (page_metadata pool ! q) = k"
      then have "(q, j) \<in> free_blocks pool" using j(2) alloc_block_facts(7) [OF inv] by blast
      then show "(q, k) \<in> free_blocks pool" using free_block_facts(6) [OF inv] a by blast
    next
      assume "(q, k) \<in> free_blocks pool"
      from free_block_facts(6,7) [OF inv this]
      show "allocated (page_metadata pool ! q) \<noteq> 1 \<and> porder (page_metadata pool ! q) = k" by simp
    qed
    then show thesis using that(2) [of q] g True q by (simp add: q_def)
  qed
qed


lemma merge_step_spec:
  assumes inv: "buddy_inv pool A" and b: "(p, k) \<in> free_blocks pool"
    and co: "coalesced_but (pfn pool) (p, k) (free_blocks pool)"
  obtains "merge_step p pool = Inr (None, pool)" "coalesced (pfn pool) (free_blocks pool)"
  | q m pool' where "merge_step p pool = Inr (Some m, pool')" "(q, k) \<in> free_blocks pool"
      "free_blocks pool' = insert (m, Suc k) (free_blocks pool - {(p, k), (q, k)})"
      "\<And>i. covers (m, Suc k) i \<longleftrightarrow> covers (p, k) i \<or> covers (q, k) i"
      "buddy_inv pool' A" "same_pool pool pool'"
      "coalesced_but (pfn pool) (m, Suc k) (free_blocks pool')" "Suc k < BUDDY_MAX_ORDER"
proof -
  note i = invD [OF inv] and f = free_block_facts [OF inv b]
  let ?s = "pfn pool" and ?n = "npages pool"
  have stop: "coalesced ?s (free_blocks pool)"
    if "k < BUDDY_MAX_ORDER - 1 \<Longrightarrow> \<forall>q. (q, k) \<in> free_blocks pool \<longrightarrow> \<not> mergeable ?s (p, k) (q, k)"
  proof -
    have "\<not> mergeable ?s (p, k) c" if "c \<in> free_blocks pool" for c
      using that \<open>k < BUDDY_MAX_ORDER - 1 \<Longrightarrow> _\<close> by (cases c) (auto simp: mergeable_def)
    then show ?thesis
      using co mergeable_sym unfolding coalesced_def coalesced_but_def by blast
  qed
  show thesis
  proof (cases "k \<ge> BUDDY_MAX_ORDER - 1")
    case True
    then have "merge_step p pool = Inr (None, pool)" using f(5,6) by (simp add: merge_step_def)
    then show thesis using that(1) stop True by simp
  next
    case False
    then have k: "Suc k < BUDDY_MAX_ORDER" by (simp add: buddy_consts)
    show thesis
    proof (rule buddy_lookup [OF inv b])
      assume "get_buddy_chunk pool p = Inr None"
        and no: "\<And>q. (q, k) \<in> free_blocks pool \<Longrightarrow> k < BUDDY_MAX_ORDER - 1 \<Longrightarrow> \<not> mergeable ?s (p, k) (q, k)"
      then have "merge_step p pool = Inr (None, pool)" using f(5-7) False by (simp add: merge_step_def)
      then show thesis using that(1) stop no by simp
    next
      fix q assume q: "get_buddy_chunk pool p = Inr (Some q)" "q < length (page_metadata pool)"
          "?s + q = (?s + p) XOR 2 ^ k"
          "allocated (page_metadata pool ! q) \<noteq> 1 \<and> porder (page_metadata pool ! q) = k \<longleftrightarrow> (q, k) \<in> free_blocks pool"
      show thesis
      proof (cases "(q, k) \<in> free_blocks pool")
        case nq: False
        then have "merge_step p pool = Inr (None, pool)" using f(5-7) False q by (auto simp: merge_step_def)
        moreover have "\<not> mergeable ?s (p, k) (q', k)" if "(q', k) \<in> free_blocks pool" for q'
        proof
          assume "mergeable ?s (p, k) (q', k)"
          then have "?s + q' = ?s + q" using q(3) by (simp add: mergeable_def)
          with nq that show False by simp
        qed
        ultimately show thesis using that(1) stop by simp
      next
        case qf: True
        note h = buddy_half [OF f(3)] and fq = free_block_facts [OF inv qf]
        define m where "m = (if q < p then q else p)"
        define L where "L = (\<lambda>j. fl (free_lists pool ! j))"
        have pq: "p \<noteq> q" using h(4) q(3) by auto
        have m: "(p = m \<and> q = m + 2 ^ k \<or> q = m \<and> p = m + 2 ^ k) \<and> 2 ^ Suc k dvd ?s + m"
          using h(1,5) q(3) pq by (auto simp: m_def split: if_splits)
        define meta where "meta = (page_metadata pool)[m := (page_metadata pool ! m)\<lparr>porder := Suc k\<rparr>]"
        define ls1 where "ls1 = (free_lists pool)[k := (free_lists pool ! k)\<lparr>nr_free := nr_free (free_lists pool ! k) - 2\<rparr>,
          Suc k := (free_lists pool ! Suc k)\<lparr>nr_free := nr_free (free_lists pool ! Suc k) + 1\<rparr>]"
        define rm where "rm = (\<lambda>r (l :: free_list). l\<lparr>fl := remove1 r (fl l)\<rparr>)"
        define ls2 where "ls2 = map (rm q) (map (rm p) ls1)"
        define ls3 where "ls3 = ls2[Suc k := (ls2 ! Suc k)\<lparr>fl := m # fl (ls2 ! Suc k)\<rparr>]"
        define pool' where "pool' = pool\<lparr>page_metadata := meta, free_lists := ls3\<rparr>"
        have len: "length (free_lists pool) = BUDDY_MAX_ORDER" by (rule f(9))
        have ml: "m < length (page_metadata pool)" "porder (page_metadata pool ! m) = k"
          using f(5,6) fq(5,6) by (auto simp: m_def)
        have L1: "\<And>j. j < BUDDY_MAX_ORDER \<Longrightarrow> fl (ls1 ! j) = L j"
          using len k by (auto simp: ls1_def nth_list_update L_def)
        have d1: "fl_del p (pool\<lparr>free_lists := ls1\<rparr>) = Inr (pool\<lparr>free_lists := map (rm p) ls1\<rparr>)"
        proof -
          have "p \<in> set (fl (ls1 ! k))" "k < length ls1"
            using L1 [of k] f(1,8) len by (auto simp: L_def ls1_def)
          then have "list_ex (\<lambda>l. p \<in> set (fl l)) ls1"
            unfolding list_ex_iff using nth_mem by blast
          then show ?thesis by (simp add: fl_del_def rm_def)
        qed
        have d2: "fl_del q (pool\<lparr>free_lists := map (rm p) ls1\<rparr>) = Inr (pool\<lparr>free_lists := ls2\<rparr>)"
        proof -
          have "q \<in> set (fl (map (rm p) ls1 ! k))" "k < length (map (rm p) ls1)"
            using L1 [of k] f(1) fq(8) pq len by (auto simp: rm_def L_def ls1_def)
          then have "list_ex (\<lambda>l. q \<in> set (fl l)) (map (rm p) ls1)"
            unfolding list_ex_iff using nth_mem by blast
          then show ?thesis by (simp add: fl_del_def ls2_def) (simp add: rm_def)
        qed
        have l2: "length ls2 = BUDDY_MAX_ORDER" "length ls3 = BUDDY_MAX_ORDER"
          by (simp_all add: ls2_def ls3_def ls1_def len)
        have exec: "merge_step p pool = Inr (Some m, pool')"
          using f(1,5-7) False q qf k len ml l2 d1 d2
          by (simp add: merge_step_def upd_fl_def upd_page_def ls1_def [symmetric] m_def [symmetric]
              meta_def [symmetric] fl_add_def Let_def ls3_def [symmetric] pool'_def) (simp add: meta_def ls3_def ml)
        define X where "X = (\<lambda>j. if j = Suc k then m # L j else if j = k then remove1 q (remove1 p (L k)) else L j)"
        have X: "fl (ls3 ! j) = X j" "nr_free (ls3 ! j) = of_nat (length (X j))" "distinct (X j)"
          if j: "j < BUDDY_MAX_ORDER" for j
        proof -
          have nin: "p \<notin> set (L j)" "q \<notin> set (L j)" if "j \<noteq> k"
            using f(10) [of j] fq(10) [of j] j that by (auto simp: L_def)
          have dL: "distinct (L j')" "nr_free (free_lists pool ! j') = of_nat (length (L j'))"
            if "j' < BUDDY_MAX_ORDER" for j'
            using i(2) that by (auto simp: lists_ok_def L_def)
          have pqL: "p \<in> set (L k)" "q \<in> set (remove1 p (L k))"
            using f(8) fq(8) pq by (auto simp: L_def)
          have "length (L k) = Suc (Suc (length (remove1 q (remove1 p (L k)))))"
            using pqL length_pos_if_in_set [of p "L k"] length_pos_if_in_set [of q "remove1 p (L k)"]
            by (simp add: length_remove1)
          then have lk: "(of_nat (length (L k)) :: u64) - 2 = of_nat (length (remove1 q (remove1 p (L k))))" by simp
          have e2: "fl (ls2 ! j) = remove1 q (remove1 p (L j))" "nr_free (ls2 ! j) = nr_free (ls1 ! j)"
            using L1 [OF j] j len by (auto simp: ls2_def rm_def ls1_def)
          show "fl (ls3 ! j) = X j"
            using e2 nin k l2 by (auto simp: ls3_def nth_list_update X_def remove1_idem)
          have "(m, Suc k) \<notin> free_blocks pool"
            using blocks_ok_same [OF i(3), of m k "Suc k"] b qf m by auto
          then have "m \<notin> set (L (Suc k))" using k len by (simp add: free_blocks_def L_def)
          then show "distinct (X j)" using dL(1) [OF j] by (auto simp: X_def distinct_remove1)
          have n1: "nr_free (ls1 ! j) = (if j = k then nr_free (free_lists pool ! k) - 2
              else if j = Suc k then nr_free (free_lists pool ! Suc k) + 1 else nr_free (free_lists pool ! j))"
            using len k by (auto simp: ls1_def nth_list_update)
          have "nr_free (ls3 ! j) = nr_free (ls1 ! j)"
            using e2 l2 k by (auto simp: ls3_def nth_list_update)
          then show "nr_free (ls3 ! j) = of_nat (length (X j))"
            using n1 dL(2) [OF j] dL(2) [OF k] lk by (auto simp: X_def)
        qed
        have fb: "free_blocks pool' = insert (m, Suc k) (free_blocks pool - {(p, k), (q, k)})"
        proof -
          have "distinct (L k)" using i(2) f(1) by (auto simp: lists_ok_def L_def)
          then have "(r, j) \<in> free_blocks pool' \<longleftrightarrow> (r, j) \<in> insert (m, Suc k) (free_blocks pool - {(p, k), (q, k)})" for r j
            using X(1) [of j] l2 len k by (auto simp: free_blocks_def pool'_def X_def L_def split: if_splits)
          then show ?thesis by auto
        qed
        have mB: "(m, k) \<in> free_blocks pool" "(m + 2 ^ k, k) \<in> free_blocks pool"
            "{(p, k), (q, k)} = {(m, k), (m + 2 ^ k, k)}" using b qf m by auto
        note bj = blocks_join [OF i(3) UnI1 [OF mB(1)] UnI1 [OF mB(2)] k conjunct2 [OF m]]
        have un: "free_blocks pool' \<union> A = insert (m, Suc k) (free_blocks pool \<union> A - {(m, k), (m + 2 ^ k, k)})"
          unfolding fb mB(3) using mB(1,2) i(5) by auto
        have sm: "same_pool pool pool'"
          using ml by (auto simp: same_pool_def pool'_def meta_def nth_list_update intro!: nth_equalityI)
        have "r < length meta \<and> porder (meta ! r) = j \<and> allocated (meta ! r) = 0"
          if r: "(r, j) \<in> free_blocks pool'" for r j
        proof (cases "(r, j) = (m, Suc k)")
          case True
          then show ?thesis using ml free_block_facts(7) [OF inv mB(1)] by (simp add: meta_def)
        next
          case False
          then have o: "(r, j) \<in> free_blocks pool" "(r, j) \<noteq> (m, k)" using r mB(3) unfolding fb by auto
          have "r \<noteq> m" using o free_block_facts(11) [OF inv mB(1), of j] by auto
          then show ?thesis using i(6) o by (auto simp: marked_def meta_def)
        qed
        then have mk0: "marked meta 0 (free_blocks pool')" by (auto simp: marked_def)
        have "r < length meta \<and> porder (meta ! r) = j \<and> allocated (meta ! r) = 1"
          if r: "(r, j) \<in> A" for r j
        proof -
          have "r \<noteq> m" using r free_block_facts(11) [OF inv mB(1), of j] mB(1) i(5) by auto
          then show ?thesis using i(7) r by (auto simp: marked_def meta_def)
        qed
        then have mk1: "marked meta 1 A" by (auto simp: marked_def)
        have dj: "free_blocks pool' \<inter> A = {}" using fb i(5) bj(3) by auto
        have inv': "buddy_inv pool' A"
          using i(1,4) bj un mk0 mk1 dj lists_ok_change [OF l2(2) X(1) X(2) X(3)] same_pool_geometry [OF sm]
          by (simp add: buddy_inv_def pool'_def)
        have co': "coalesced_but ?s (m, Suc k) (free_blocks pool')"
          using co unfolding coalesced_but_def fb by blast
        have cov: "covers (m, Suc k) i \<longleftrightarrow> covers (p, k) i \<or> covers (q, k) i" for i
          using m covers_halves [of m k i] by auto
        show thesis by (rule that(2) [OF exec qf fb cov inv' sm co' k])
      qed
    qed
  qed
qed


section \<open>Freeing\<close>

definition pages_of :: "(nat \<times> nat) set \<Rightarrow> nat set" where
  "pages_of F = {i. \<exists>b \<in> F. covers b i}"

lemma merge_page_spec:
  "buddy_inv pool A \<Longrightarrow> (p, k) \<in> free_blocks pool \<Longrightarrow> coalesced_but (pfn pool) (p, k) (free_blocks pool) \<Longrightarrow>
   \<exists>m pool'. merge_page p pool = Inr (m, pool') \<and> buddy_inv pool' A \<and> same_pool pool pool' \<and>
     coalesced (pfn pool) (free_blocks pool') \<and> pages_of (free_blocks pool') = pages_of (free_blocks pool)"
proof (induction "BUDDY_MAX_ORDER - k" arbitrary: k p pool rule: less_induct)
  case less
  note inv = less.prems(1) and b = less.prems(2) and co = less.prems(3)
  show ?case
  proof (rule merge_step_spec [OF inv b co])
    assume "merge_step p pool = Inr (None, pool)" "coalesced (pfn pool) (free_blocks pool)"
    then show ?thesis using inv by (subst merge_page.simps) simp
  next
    fix q m pool1
    assume st: "merge_step p pool = Inr (Some m, pool1)" and q: "(q, k) \<in> free_blocks pool"
      and fb: "free_blocks pool1 = insert (m, Suc k) (free_blocks pool - {(p, k), (q, k)})"
      and cov: "\<And>i. covers (m, Suc k) i \<longleftrightarrow> covers (p, k) i \<or> covers (q, k) i"
      and inv1: "buddy_inv pool1 A" and sm: "same_pool pool pool1"
      and co1: "coalesced_but (pfn pool) (m, Suc k) (free_blocks pool1)" and k: "Suc k < BUDDY_MAX_ORDER"
    have "(m, Suc k) \<in> free_blocks pool1" using fb by simp
    moreover have "BUDDY_MAX_ORDER - Suc k < BUDDY_MAX_ORDER - k" using k by linarith
    ultimately have ih: "coalesced_but (pfn pool1) (m, Suc k) (free_blocks pool1) \<Longrightarrow>
      \<exists>r pool'. merge_page m pool1 = Inr (r, pool') \<and> buddy_inv pool' A \<and> same_pool pool1 pool' \<and>
      coalesced (pfn pool1) (free_blocks pool') \<and> pages_of (free_blocks pool') = pages_of (free_blocks pool1)"
      using less.hyps [OF _ inv1] by blast
    from ih co1 same_pool_geometry(3) [OF sm]
    obtain r pool' where r: "merge_page m pool1 = Inr (r, pool')" "buddy_inv pool' A" "same_pool pool1 pool'"
      "coalesced (pfn pool) (free_blocks pool')" "pages_of (free_blocks pool') = pages_of (free_blocks pool1)"
      by auto
    have "pages_of (free_blocks pool1) = pages_of (free_blocks pool)"
      unfolding pages_of_def fb using cov b q by blast
    then show ?thesis
      using st r same_pool_trans [OF sm r(3)] by (subst merge_page.simps) simp
  qed
qed

lemma buddy_free_pages_spec:
  assumes inv: "buddy_inv pool A" and b: "(p, k) \<in> A" and co: "coalesced (pfn pool) (free_blocks pool)"
  shows "\<exists>pool'. buddy_free_pages pool p = Inr pool' \<and> buddy_inv pool' (A - {(p, k)}) \<and> same_pool pool pool' \<and>
    coalesced (pfn pool) (free_blocks pool') \<and>
    pages_of (free_blocks pool') = pages_of (free_blocks pool) \<union> {p..<p + 2 ^ k}"
proof -
  note i = invD [OF inv] and f = alloc_block_facts [OF inv b]
  define L where "L = (\<lambda>j. fl (free_lists pool ! j))"
  define X where "X = (\<lambda>j. if j = k then p # L k else L j)"
  define meta where "meta = (page_metadata pool)[p := (page_metadata pool ! p)\<lparr>allocated := 0\<rparr>]"
  define ls where "ls = (free_lists pool)[k := (free_lists pool ! k)\<lparr>nr_free := nr_free (free_lists pool ! k) + 1, fl := p # L k\<rparr>]"
  define pool1 where "pool1 = pool\<lparr>page_metadata := meta, free_lists := ls\<rparr>"
  have len: "length (free_lists pool) = BUDDY_MAX_ORDER" using i(2) by (simp add: lists_ok_def)
  have ex: "buddy_free_pages pool p = bindR (merge_page p pool1) (\<lambda>(_, pool). Inr pool)"
    using f(1,5,6) len
    by (simp add: buddy_free_pages_def upd_page_def upd_fl_def fl_add_def pool1_def meta_def ls_def L_def)
  have nF: "(p, k) \<notin> free_blocks pool" using b i(5) by auto
  then have nL: "p \<notin> set (L k)" using f(1) len by (simp add: free_blocks_def L_def)
  have ls: "length ls = BUDDY_MAX_ORDER" "\<And>j. j < BUDDY_MAX_ORDER \<Longrightarrow> fl (ls ! j) = X j"
    "\<And>j. j < BUDDY_MAX_ORDER \<Longrightarrow> nr_free (ls ! j) = of_nat (length (X j))"
    "\<And>j. j < BUDDY_MAX_ORDER \<Longrightarrow> distinct (X j)"
    using len i(2) f(1) nL by (auto simp: ls_def X_def L_def nth_list_update lists_ok_def add.commute)
  have fb: "free_blocks pool1 = insert (p, k) (free_blocks pool)"
  proof -
    have "(r, j) \<in> free_blocks pool1 \<longleftrightarrow> (r, j) \<in> insert (p, k) (free_blocks pool)" for r j
      using ls(1) ls(2) [of j] len f(1) by (auto simp: free_blocks_def pool1_def X_def L_def split: if_splits)
    then show ?thesis by auto
  qed
  have un: "free_blocks pool1 \<union> (A - {(p, k)}) = free_blocks pool \<union> A" using fb b by auto
  have sm: "same_pool pool pool1"
    using f(5) by (auto simp: same_pool_def pool1_def meta_def nth_list_update intro!: nth_equalityI)
  have mk0: "marked meta 0 (free_blocks pool1)"
    using i(6) f(5,6) unfolding fb marked_def meta_def by (auto simp: nth_list_update)
  have "r \<noteq> p" if "(r, j) \<in> A - {(p, k)}" for r j using that f(8) [of j] by auto
  then have mk1: "marked meta 1 (A - {(p, k)})"
    using i(7) unfolding marked_def meta_def by fastforce
  have inv1: "buddy_inv pool1 (A - {(p, k)})"
    using i un fb nF mk0 mk1 lists_ok_change [OF ls] same_pool_geometry [OF sm]
    by (auto simp: buddy_inv_def pool1_def)
  have "coalesced_but (pfn pool1) (p, k) (free_blocks pool1)"
    using co unfolding coalesced_def coalesced_but_def fb same_pool_geometry(3) [OF sm] by blast
  from merge_page_spec [OF inv1 _ this] fb obtain m pool' where m: "merge_page p pool1 = Inr (m, pool')"
    "buddy_inv pool' (A - {(p, k)})" "same_pool pool1 pool'" "coalesced (pfn pool1) (free_blocks pool')"
    "pages_of (free_blocks pool') = pages_of (free_blocks pool1)" by auto
  have "pages_of (free_blocks pool1) = pages_of (free_blocks pool) \<union> {p..<p + 2 ^ k}"
    unfolding fb by (auto simp: pages_of_def covers_def)
  then show ?thesis
    using ex m same_pool_trans [OF sm m(3)] same_pool_geometry(3) [OF sm] by simp
qed

lemma init_free_spec:
  "buddy_inv pool A \<Longrightarrow> coalesced (pfn pool) (free_blocks pool) \<Longrightarrow> distinct ps \<Longrightarrow> (\<forall>p \<in> set ps. (p, 0) \<in> A) \<Longrightarrow>
   \<exists>pool'. init_free ps pool = Inr pool' \<and> buddy_inv pool' (A - (\<lambda>p. (p, 0)) ` set ps) \<and> same_pool pool pool' \<and>
     coalesced (pfn pool) (free_blocks pool')"
proof (induction ps arbitrary: pool A)
  case (Cons p ps)
  from buddy_free_pages_spec [OF Cons.prems(1) _ Cons.prems(2), of p 0] Cons.prems(4)
  obtain p1 where p1: "buddy_free_pages pool p = Inr p1" "buddy_inv p1 (A - {(p, 0)})" "same_pool pool p1"
    "coalesced (pfn pool) (free_blocks p1)" by auto
  from Cons.IH [OF p1(2)] p1(4) same_pool_geometry(3) [OF p1(3)] Cons.prems(3,4)
  obtain p2 where p2: "init_free ps p1 = Inr p2" "buddy_inv p2 (A - {(p, 0)} - (\<lambda>p. (p, 0)) ` set ps)" "same_pool p1 p2"
     "coalesced (pfn pool) (free_blocks p2)" by fastforce
  have "A - {(p, 0)} - (\<lambda>p. (p, 0)) ` set ps = A - (\<lambda>p. (p, 0)) ` set (p # ps)" by auto
  then show ?case using p1 p2 same_pool_trans [OF p1(3) p2(3)] by simp
qed simp

lemma coalesced_take:
  assumes inv: "buddy_inv pool A" and b: "(p, m) \<in> free_blocks pool" and km: "k \<le> m"
    and co: "coalesced (pfn pool) (free_blocks pool)"
  shows "coalesced (pfn pool) ((free_blocks pool - {(p, m)}) \<union> {(p + 2 ^ j, j) | j. k \<le> j \<and> j < m})"
proof -
  let ?s = "pfn pool"
  note i = invD [OF inv] and f = free_block_facts [OF inv b]
  have up: "fst c = p" if "mergeable ?s (p + 2 ^ j, j) c" "j < m" for c j
  proof -
    have d: "2 ^ Suc j dvd ?s + p" using f(3) that(2) by (meson Suc_leI dvd_trans le_imp_power_dvd)
    then have d1: "2 ^ j dvd ?s + p" by (meson dvd_trans le_imp_power_dvd lessI less_imp_le)
    have "(?s + p) XOR 2 ^ j = ?s + p + 2 ^ j" using buddy_half(1) [OF d1] d by simp
    then have "(?s + (p + 2 ^ j)) XOR 2 ^ j = ?s + p"
      by (metis add.assoc xor.assoc xor.right_neutral xor_self_eq)
    then show ?thesis using that(1) by (simp add: mergeable_def)
  qed
  have notp: "fst c \<noteq> p" if "c \<in> (free_blocks pool - {(p, m)}) \<union> {(p + 2 ^ j, j) | j. k \<le> j \<and> j < m}" for c
    using that f(11) [of "snd c"] by (cases c) auto
  have "\<not> mergeable ?s c d"
    if "c \<in> (free_blocks pool - {(p, m)}) \<union> {(p + 2 ^ j, j) | j. k \<le> j \<and> j < m}"
       "d \<in> (free_blocks pool - {(p, m)}) \<union> {(p + 2 ^ j, j) | j. k \<le> j \<and> j < m}" for c d
  proof
    assume mg: "mergeable ?s c d"
    show False
    proof (cases "c \<in> {(p + 2 ^ j, j) | j. k \<le> j \<and> j < m}")
      case True
      then show False using up mg notp [OF that(2)] by blast
    next
      case c: False
      show False
      proof (cases "d \<in> {(p + 2 ^ j, j) | j. k \<le> j \<and> j < m}")
        case True
        then show False using up mergeable_sym [OF mg] notp [OF that(1)] by blast
      next
        case False
        then show False using c that co mg unfolding coalesced_def by blast
      qed
    qed
  qed
  then show ?thesis unfolding coalesced_def by blast
qed


section \<open>Initialisation\<close>

lemma init_buddy_spec:
  assumes st: "4096 dvd unat start_addr" and sz: "unat start_addr + 4096 * unat page_num < 2 ^ 64"
    and len: "unat page_num \<le> length start_page"
  shows "\<exists>pool. init_buddy start_page start_addr page_num = Inr pool \<and> buddy_inv pool {} \<and>
    coalesced (pfn pool) (free_blocks pool) \<and> npages pool = unat page_num \<and>
    pool_start_addr pool = start_addr \<and> pool_mem_size pool = page_num * BUDDY_PAGE_SIZE \<and>
    (\<forall>i < npages pool. pslab (page_metadata pool ! i) = 0)"
proof -
  let ?n = "unat page_num"
  define cleared where "cleared = map (\<lambda>_. \<lparr>allocated = 0, porder = 0, pslab = 0\<rparr>) (take ?n start_page) @ drop ?n start_page"
  define meta where "meta = map (\<lambda>p. p\<lparr>allocated := 1, porder := 0\<rparr>) (take ?n cleared) @ drop ?n cleared"
  define pool where "pool = \<lparr>pool_start_addr = start_addr, pool_mem_size = page_num * BUDDY_PAGE_SIZE,
            pool_phys_page_num = page_num, page_metadata = meta,
            free_lists = replicate BUDDY_MAX_ORDER \<lparr>fl = [], nr_free = 0\<rparr>\<rparr>"
  define A :: "(nat \<times> nat) set" where "A = (\<lambda>p. (p, 0)) ` {0..<?n}"
  have ms: "unat (page_num * BUDDY_PAGE_SIZE) = 4096 * ?n"
    using sz by (subst unat_mult_lem [THEN iffD1]) (auto simp: buddy_consts)
  have np: "npages pool = ?n" using ms by (simp add: npages_def pool_def)
  have lm: "length meta = length start_page" using len by (simp add: meta_def cleared_def)
  have g: "geometry pool"
    using st sz len ms lm np by (simp add: geometry_def pool_def)
  have fb: "free_blocks pool = {}" by (auto simp: free_blocks_def pool_def)
  have mk: "porder (meta ! r) = 0 \<and> allocated (meta ! r) = 1" if "r < ?n" for r
    using that len by (simp add: meta_def cleared_def nth_append)
  have "covers (r, 0) j \<longleftrightarrow> j = r" for r j by (auto simp: covers_def)
  then have "blocks_ok (pfn pool) (npages pool) A" "tiles (npages pool) A"
    by (auto simp: blocks_ok_def tiles_def A_def np buddy_consts)
  moreover have "marked (page_metadata pool) 1 A"
    using mk lm len by (auto simp: marked_def A_def pool_def)
  ultimately have inv: "buddy_inv pool A"
    using g fb by (simp add: buddy_inv_def marked_def) (simp add: pool_def lists_ok_def)
  have "coalesced (pfn pool) (free_blocks pool)" by (simp add: coalesced_def fb)
  from init_free_spec [OF inv this, of "[0..<?n]"]
  obtain pool' where p': "init_free [0..<?n] pool = Inr pool'" "buddy_inv pool' (A - A)" "same_pool pool pool'"
    "coalesced (pfn pool) (free_blocks pool')" by (auto simp: A_def)
  have "pslab (page_metadata pool' ! i) = 0" if "i < npages pool'" for i
  proof -
    have i: "i < ?n" "i < length (page_metadata pool')"
      using that np same_pool_geometry(2) [OF p'(3)] invD(1) [OF p'(2)] by (simp_all add: geometry_def)
    have "pslab (meta ! i) = 0" using i(1) len by (simp add: meta_def cleared_def nth_append)
    then show ?thesis using same_pool_pslab [OF p'(3) i(2)] by (simp add: pool_def)
  qed
  moreover have "init_buddy start_page start_addr page_num = init_free [0..<?n] pool"
    using len by (simp add: init_buddy_def pool_def meta_def cleared_def Let_def)
  ultimately show ?thesis
    using p' np same_pool_geometry [OF p'(3)] by (auto simp: same_pool_def pool_def)
qed

section \<open>Free memory\<close>

lemma pages_of_card:
  assumes inv: "buddy_inv pool A"
  shows "card (pages_of (free_blocks pool)) = (\<Sum>k < BUDDY_MAX_ORDER. length (fl (free_lists pool ! k)) * 2 ^ k)"
proof -
  note i = invD [OF inv]
  define L where "L = (\<lambda>j. fl (free_lists pool ! j))"
  define S where "S = (SIGMA k : {..<BUDDY_MAX_ORDER}. set (L k))"
  have fin: "finite S" by (simp add: S_def)
  have mem: "(k, p) \<in> S \<longleftrightarrow> (p, k) \<in> free_blocks pool" for k p
    using i(2) by (auto simp: S_def free_blocks_def lists_ok_def L_def)
  have eq: "pages_of (free_blocks pool) = (\<Union>(k, p) \<in> S. {p..<p + 2 ^ k})"
    using mem by (force simp: pages_of_def covers_def)
  have "card (\<Union>(k, p) \<in> S. {p..<p + 2 ^ k}) = (\<Sum>b \<in> S. card (case b of (k, p) \<Rightarrow> {p..<p + 2 ^ k}))"
  proof (rule card_UN_disjoint [OF fin])
    show "\<forall>b \<in> S. finite (case b of (k, p) \<Rightarrow> {p..<p + 2 ^ k})" by auto
    show "\<forall>b \<in> S. \<forall>c \<in> S. b \<noteq> c \<longrightarrow>
        (case b of (k, p) \<Rightarrow> {p..<p + 2 ^ k}) \<inter> (case c of (k, p) \<Rightarrow> {p..<p + 2 ^ k}) = {}"
    proof (clarify, rule ccontr)
      fix k p k' p' assume a: "(k, p) \<in> S" "(k', p') \<in> S" "\<not> (k = k' \<and> p = p')"
        and "{p..<p + 2 ^ k} \<inter> {p'..<p' + 2 ^ k'} \<noteq> {}"
      then obtain x where "covers (p, k) x" "covers (p', k') x" unfolding covers_ivl by blast
      with i(3) a mem show False unfolding blocks_ok_def by blast
    qed
  qed
  also have "\<dots> = (\<Sum>(k, p) \<in> S. 2 ^ k)" by (rule sum.cong) auto
  also have "\<dots> = (\<Sum>k < BUDDY_MAX_ORDER. \<Sum>p \<in> set (L k). 2 ^ k)"
    unfolding S_def by (subst sum.Sigma) auto
  also have "\<dots> = (\<Sum>k < BUDDY_MAX_ORDER. length (L k) * 2 ^ k)"
    using i(2) by (intro sum.cong) (auto simp: lists_ok_def L_def distinct_card)
  finally show ?thesis by (simp add: eq L_def)
qed

lemma free_mem_size_spec:
  assumes inv: "buddy_inv pool A"
  shows "get_free_mem_size_from_buddy pool = of_nat (4096 * card (pages_of (free_blocks pool)))"
proof -
  have nr: "nr_free (free_lists pool ! k) = of_nat (length (fl (free_lists pool ! k)))" if "k < BUDDY_MAX_ORDER" for k
    using inv that by (auto simp: buddy_inv_def lists_ok_def)
  have "m \<le> BUDDY_MAX_ORDER \<Longrightarrow> fold (\<lambda>order total_size.
        let current_order_size = BUDDY_PAGE_SIZE * of_nat (2 ^ order)
        in total_size + nr_free (free_lists pool ! order) * current_order_size) [0..<m] 0 =
      of_nat (4096 * (\<Sum>k < m. length (fl (free_lists pool ! k)) * 2 ^ k))" for m
    by (induction m) (simp_all add: nr Let_def buddy_consts algebra_simps)
  from this [of BUDDY_MAX_ORDER] show ?thesis
    by (simp add: get_free_mem_size_from_buddy_def pages_of_card [OF inv])
qed

section \<open>The interface for users of page blocks\<close>

datatype request = Get u64 | Put nat

locale block_allocator =
  fixes inv :: "'s \<Rightarrow> (nat \<times> nat) set \<Rightarrow> bool"
    and get :: "'s \<Rightarrow> u64 \<Rightarrow> (nat option \<times> 's) res"
    and put :: "'s \<Rightarrow> nat \<Rightarrow> 's res"
    and max_order :: nat
  assumes disjoint_law: "inv s A \<Longrightarrow> (p, k) \<in> A \<Longrightarrow> (q, j) \<in> A \<Longrightarrow> (p, k) \<noteq> (q, j) \<Longrightarrow>
      {p..<p + 2 ^ k} \<inter> {q..<q + 2 ^ j} = {}"
    and get_law: "inv s A \<Longrightarrow> unat ord < max_order \<Longrightarrow> \<exists>r s'. get s ord = Inr (r, s') \<and>
      (case r of None \<Rightarrow> inv s' A | Some p \<Rightarrow> (p, unat ord) \<notin> A \<and> inv s' (insert (p, unat ord) A))"
    and put_law: "inv s A \<Longrightarrow> (p, k) \<in> A \<Longrightarrow> \<exists>s'. put s p = Inr s' \<and> inv s' (A - {(p, k)})"
begin

text \<open>
  A client that asks for blocks and gives back the ones it holds, in any order. \<open>Put i\<close> returns the
  \<open>i\<close>-th block of the list it holds.
\<close>

fun serve :: "request list \<Rightarrow> (nat \<times> nat) list \<Rightarrow> 's \<Rightarrow> ((nat \<times> nat) list \<times> 's) res" where
  "serve [] live s = Inr (live, s)"
| "serve (Get ord # rs) live s = bindR (get s ord) (\<lambda>(r, s).
     serve rs (case r of None \<Rightarrow> live | Some p \<Rightarrow> (p, unat ord) # live) s)"
| "serve (Put i # rs) live s =
     (if i < length live
      then bindR (put s (fst (live ! i))) (serve rs (take i live @ drop (Suc i) live))
      else serve rs live s)"

lemma serve_inv:
  assumes "inv s (set live)" "distinct live" "\<forall>ord. Get ord \<in> set rs \<longrightarrow> unat ord < max_order"
  shows "\<exists>live' s'. serve rs live s = Inr (live', s') \<and> inv s' (set live') \<and> distinct live'"
  using assms
proof (induction rs live s rule: serve.induct)
  case (2 ord rs live s)
  obtain r s' where r: "get s ord = Inr (r, s')" "case r of None \<Rightarrow> inv s' (set live)
      | Some p \<Rightarrow> (p, unat ord) \<notin> set live \<and> inv s' (insert (p, unat ord) (set live))"
    using get_law [OF 2(2)] 2(4) by fastforce
  then show ?case using 2(1) [OF r(1) refl] 2(3,4) by (cases r) auto
next
  case (3 i rs live s)
  show ?case
  proof (cases "i < length live")
    case True
    obtain p k where pk: "live ! i = (p, k)" by force
    have sp: "live = take i live @ (p, k) # drop (Suc i) live" using True pk id_take_nth_drop by metis
    have d: "distinct (take i live @ (p, k) # drop (Suc i) live)" using 3(4) sp by simp
    have "set live = set (take i live @ (p, k) # drop (Suc i) live)" using sp by simp
    then have s: "set (take i live @ drop (Suc i) live) = set live - {(p, k)}" using d by auto
    have "(p, k) \<in> set live" using sp by (metis in_set_conv_decomp)
    from put_law [OF 3(3) this] obtain s' where "put s p = Inr s'" "inv s' (set live - {(p, k)})" by blast
    then show ?thesis using 3(1) [OF True, of s'] 3(5) True pk d s by auto
  next
    case False
    then show ?thesis using 3(2) 3(3-) by simp
  qed
qed simp

lemma serve_disjoint:
  assumes "inv s (set live)" "distinct live" "\<forall>ord. Get ord \<in> set rs \<longrightarrow> unat ord < max_order"
  shows "\<exists>live' s'. serve rs live s = Inr (live', s') \<and>
    (\<forall>i < length live'. \<forall>j < length live'. i \<noteq> j \<longrightarrow>
       {fst (live' ! i)..<fst (live' ! i) + 2 ^ snd (live' ! i)} \<inter>
       {fst (live' ! j)..<fst (live' ! j) + 2 ^ snd (live' ! j)} = {})"
proof -
  obtain live' s' where l: "serve rs live s = Inr (live', s')" "inv s' (set live')" "distinct live'"
    using serve_inv [OF assms] by blast
  have "{fst (live' ! i)..<fst (live' ! i) + 2 ^ snd (live' ! i)} \<inter>
       {fst (live' ! j)..<fst (live' ! j) + 2 ^ snd (live' ! j)} = {}"
    if "i < length live'" "j < length live'" "i \<noteq> j" for i j
  proof (rule disjoint_law [OF l(2)])
    show "(fst (live' ! i), snd (live' ! i)) \<in> set live'" "(fst (live' ! j), snd (live' ! j)) \<in> set live'"
      using that by simp_all
    show "(fst (live' ! i), snd (live' ! i)) \<noteq> (fst (live' ! j), snd (live' ! j))"
      using that l(3) by (simp add: nth_eq_iff_index_eq)
  qed
  then show ?thesis using l(1) by blast
qed

end

definition buddy_ok :: "phys_mem_pool \<Rightarrow> (nat \<times> nat) set \<Rightarrow> bool" where
  "buddy_ok pool A \<longleftrightarrow> buddy_inv pool A \<and> coalesced (pfn pool) (free_blocks pool)"

lemma buddy_get_ok:
  assumes ok: "buddy_ok pool A" and k: "unat ord < BUDDY_MAX_ORDER"
  shows "\<exists>r pool'. buddy_get_pages pool ord = Inr (r, pool') \<and>
    (case r of None \<Rightarrow> pool' = pool \<and> (\<forall>(p, m) \<in> free_blocks pool. m < unat ord)
     | Some p \<Rightarrow> (p, unat ord) \<notin> A \<and> buddy_ok pool' (insert (p, unat ord) A) \<and> same_pool pool pool' \<and>
         {p..<p + 2 ^ unat ord} \<subseteq> pages_of (free_blocks pool) \<and>
         pages_of (free_blocks pool') = pages_of (free_blocks pool) - {p..<p + 2 ^ unat ord})"
proof -
  have inv: "buddy_inv pool A" and co: "coalesced (pfn pool) (free_blocks pool)"
    using ok by (simp_all add: buddy_ok_def)
  show ?thesis
  proof (rule buddy_get_pages_cases [OF inv refl k])
    fix m p pool'
    assume m: "unat ord \<le> m" "(p, m) \<in> free_blocks pool"
      and g: "buddy_get_pages pool ord = Inr (Some p, pool')"
      and inv': "buddy_inv pool' (insert (p, unat ord) A)" and sm: "same_pool pool pool'"
      and fb: "free_blocks pool' = (free_blocks pool - {(p, m)}) \<union> {(p + 2 ^ j, j) | j. unat ord \<le> j \<and> j < m}"
    let ?k = "unat ord"
    note i = invD [OF inv] and f = free_block_facts [OF inv m(2)] and i' = invD [OF inv']
    have co': "coalesced (pfn pool') (free_blocks pool')"
      unfolding fb same_pool_geometry(3) [OF sm] by (rule coalesced_take [OF inv m(2,1) co])
    have nA: "(p, ?k) \<notin> A"
      using f(11) [of ?k] m(2) i(5) by (cases "?k = m") auto
    have sub: "{p..<p + 2 ^ ?k} \<subseteq> pages_of (free_blocks pool)"
    proof -
      have "(2::nat) ^ ?k \<le> 2 ^ m" using m(1) by (intro power_increasing) auto
      then have "covers (p, m) x" if "x \<in> {p..<p + 2 ^ ?k}" for x
        using that by (simp only: covers_def fst_conv snd_conv atLeastLessThan_iff simp_thms) linarith
      then show ?thesis using m(2) unfolding pages_of_def by blast
    qed
    have t: "pages_of (free_blocks pl) \<union> pages_of B = {..<npages pl}"
        "pages_of (free_blocks pl) \<inter> pages_of B = {}" if "buddy_inv pl B" for pl B
    proof -
      note j = invD [OF that]
      show "pages_of (free_blocks pl) \<union> pages_of B = {..<npages pl}"
        using j(4) block_in_pool [OF j(3)] unfolding pages_of_def tiles_def by blast
      show "pages_of (free_blocks pl) \<inter> pages_of B = {}"
        using j(3,5) unfolding pages_of_def blocks_ok_def by blast
    qed
    have ins: "pages_of (insert (p, ?k) A) = {p..<p + 2 ^ ?k} \<union> pages_of A"
      by (auto simp: pages_of_def covers_def)
    have "pages_of (free_blocks pool') = pages_of (free_blocks pool) - {p..<p + 2 ^ ?k}"
      using t [OF inv] t [OF inv'] sub unfolding ins same_pool_geometry(2) [OF sm] by blast
    then show ?thesis using g nA inv' co' sm sub by (auto simp: buddy_ok_def)
  next
    assume "buddy_get_pages pool ord = Inr (None, pool)" "\<forall>p m. (p, m) \<in> free_blocks pool \<longrightarrow> m < unat ord"
    then show ?thesis by auto
  qed
qed

interpretation bud: block_allocator buddy_ok buddy_get_pages buddy_free_pages BUDDY_MAX_ORDER
proof unfold_locales
  fix pool A p k q j
  assume ok: "buddy_ok pool A" and a: "(p, k) \<in> A" "(q, j) \<in> A" "(p, k) \<noteq> (q, j)"
  have "blocks_ok (pfn pool) (npages pool) (free_blocks pool \<union> A)"
    using ok by (simp add: buddy_ok_def buddy_inv_def)
  then have "\<not> (covers (p, k) i \<and> covers (q, j) i)" for i using a unfolding blocks_ok_def by blast
  then show "{p..<p + 2 ^ k} \<inter> {q..<q + 2 ^ j} = {}" unfolding covers_ivl by blast
next
  fix pool A and ord :: u64
  assume ok: "buddy_ok pool A" and k: "unat ord < BUDDY_MAX_ORDER"
  obtain r pool' where r: "buddy_get_pages pool ord = Inr (r, pool')"
    "case r of None \<Rightarrow> pool' = pool \<and> (\<forall>(p, m) \<in> free_blocks pool. m < unat ord)
     | Some p \<Rightarrow> (p, unat ord) \<notin> A \<and> buddy_ok pool' (insert (p, unat ord) A) \<and> same_pool pool pool' \<and>
         {p..<p + 2 ^ unat ord} \<subseteq> pages_of (free_blocks pool) \<and>
         pages_of (free_blocks pool') = pages_of (free_blocks pool) - {p..<p + 2 ^ unat ord}"
    using buddy_get_ok [OF ok k] by blast
  then show "\<exists>r s'. buddy_get_pages pool ord = Inr (r, s') \<and>
      (case r of None \<Rightarrow> buddy_ok s' A | Some p \<Rightarrow> (p, unat ord) \<notin> A \<and> buddy_ok s' (insert (p, unat ord) A))"
    using ok by (cases r) auto
next
  fix pool A p k
  assume "buddy_ok pool A" "(p, k) \<in> A"
  then show "\<exists>s'. buddy_free_pages pool p = Inr s' \<and> buddy_ok s' (A - {(p, k)})"
    using buddy_free_pages_spec [of pool A p k] same_pool_geometry(3) by (fastforce simp: buddy_ok_def)
qed


section \<open>Properties\<close>

definition demo_meta :: "page list" where
  "demo_meta = replicate 6 \<lparr>allocated = 7, porder = 3, pslab = 0\<rparr>"

text \<open>Six pages that start at page frame 1, so the pool is not aligned to its largest block.\<close>

definition demo_pool :: phys_mem_pool where
  "demo_pool = \<lparr>pool_start_addr = 0x1000, pool_mem_size = 0x6000, pool_phys_page_num = 6,
     page_metadata = [\<lparr>allocated = 0, porder = 0, pslab = 0\<rparr>, \<lparr>allocated = 0, porder = 1, pslab = 0\<rparr>,
       \<lparr>allocated = 0, porder = 0, pslab = 0\<rparr>, \<lparr>allocated = 0, porder = 1, pslab = 0\<rparr>,
       \<lparr>allocated = 0, porder = 0, pslab = 0\<rparr>, \<lparr>allocated = 0, porder = 0, pslab = 0\<rparr>],
     free_lists = [\<lparr>fl = [5, 0], nr_free = 2\<rparr>, \<lparr>fl = [3, 1], nr_free = 2\<rparr>] @
       replicate 12 \<lparr>fl = [], nr_free = 0\<rparr>\<rparr>"

lemma buddy_demo_init: "init_buddy demo_meta 0x1000 6 = Inr demo_pool"
  by code_simp


lemma demo_pool_ok: "buddy_ok demo_pool {}"
proof -
  have "\<exists>pool. init_buddy demo_meta 0x1000 6 = Inr pool \<and> buddy_ok pool {}"
    using init_buddy_spec [where start_addr = "0x1000" and page_num = 6 and start_page = demo_meta] by (auto simp: demo_meta_def buddy_ok_def)
  then show ?thesis by (simp add: buddy_demo_init)
qed

text \<open>
  \<^verbatim>\<open>init_buddy\<close> on any page-aligned range puts the whole pool under management,
  whatever the metadata area contained: nothing is handed out, the free blocks tile the range, no
  two buddies are both free, and the free memory is the size of the pool.
\<close>

theorem init_buddy_correct:
  assumes "4096 dvd unat start_addr" "unat start_addr + 4096 * unat page_num < 2 ^ 64"
    "unat page_num \<le> length start_page"
  shows "\<exists>pool. init_buddy start_page start_addr page_num = Inr pool \<and> buddy_ok pool {} \<and>
    pages_of (free_blocks pool) = {..<unat page_num} \<and>
    get_free_mem_size_from_buddy pool = page_num * BUDDY_PAGE_SIZE"
proof -
  obtain pool where p: "init_buddy start_page start_addr page_num = Inr pool" "buddy_inv pool {}"
    "coalesced (pfn pool) (free_blocks pool)" "npages pool = unat page_num"
    using init_buddy_spec [OF assms] by blast
  note i = invD [OF p(2)]
  have "pages_of (free_blocks pool) = {..<unat page_num}"
    using i(4) p(4) block_in_pool [OF i(3)] unfolding pages_of_def tiles_def by auto
  moreover from this have "get_free_mem_size_from_buddy pool = page_num * BUDDY_PAGE_SIZE"
    using free_mem_size_spec [OF p(2)] by (simp add: buddy_consts)
  ultimately show ?thesis using p by (auto simp: buddy_ok_def)
qed

theorem init_buddy_correct_witness:
  "\<exists>pool. init_buddy demo_meta 0x1000 6 = Inr pool \<and> buddy_ok pool {} \<and>
    pages_of (free_blocks pool) = {..<unat (6 :: u64)} \<and> get_free_mem_size_from_buddy pool = 6 * BUDDY_PAGE_SIZE"
  by (rule init_buddy_correct) (simp_all add: demo_meta_def)

text \<open>
  C20: \<^verbatim>\<open>buddy_get_pages\<close> for an order below 14 returns NULL exactly when no free block
  is large enough, and then changes nothing; otherwise it returns a block of exactly \<open>2 ^ order\<close> free
  pages inside the pool, aligned to its size and disjoint from every block handed out before, and
  takes exactly these pages out of the free memory, splitting a larger block if needed.
\<close>

theorem buddy_get_pages_correct:
  assumes ok: "buddy_ok pool A" and k: "unat ord < BUDDY_MAX_ORDER"
  shows "\<exists>r pool'. buddy_get_pages pool ord = Inr (r, pool') \<and>
    (r = None \<longleftrightarrow> (\<forall>(p, m) \<in> free_blocks pool. m < unat ord)) \<and>
    (case r of None \<Rightarrow> pool' = pool
     | Some p \<Rightarrow> buddy_ok pool' (insert (p, unat ord) A) \<and> 2 ^ unat ord dvd pfn pool + p \<and>
         p + 2 ^ unat ord \<le> npages pool \<and>
         (\<forall>(q, j) \<in> A. {p..<p + 2 ^ unat ord} \<inter> {q..<q + 2 ^ j} = {}) \<and>
         {p..<p + 2 ^ unat ord} \<subseteq> pages_of (free_blocks pool) \<and>
         pages_of (free_blocks pool') = pages_of (free_blocks pool) - {p..<p + 2 ^ unat ord})"
proof -
  have inv: "buddy_inv pool A" using ok by (simp add: buddy_ok_def)
  obtain r pool' where r: "buddy_get_pages pool ord = Inr (r, pool')"
    "case r of None \<Rightarrow> pool' = pool \<and> (\<forall>(p, m) \<in> free_blocks pool. m < unat ord)
     | Some p \<Rightarrow> (p, unat ord) \<notin> A \<and> buddy_ok pool' (insert (p, unat ord) A) \<and> same_pool pool pool' \<and>
         {p..<p + 2 ^ unat ord} \<subseteq> pages_of (free_blocks pool) \<and>
         pages_of (free_blocks pool') = pages_of (free_blocks pool) - {p..<p + 2 ^ unat ord}"
    using buddy_get_ok [OF ok k] by blast
  show ?thesis
  proof (cases r)
    case None
    then show ?thesis using r by auto
  next
    case (Some p)
    let ?b = "(p, unat ord)"
    have p: "?b \<notin> A" "buddy_ok pool' (insert ?b A)" "same_pool pool pool'" using r(2) Some by auto
    have inv': "buddy_inv pool' (insert ?b A)" using p(2) by (simp add: buddy_ok_def)
    have al: "2 ^ unat ord dvd pfn pool + p \<and> p + 2 ^ unat ord \<le> npages pool"
      using alloc_block_facts(2,3) [OF inv', of p "unat ord"] same_pool_geometry [OF p(3)] by simp
    have dis: "\<forall>(q, j) \<in> A. {p..<p + 2 ^ unat ord} \<inter> {q..<q + 2 ^ j} = {}"
      using bud.disjoint_law [OF p(2), of p "unat ord"] p(1) by blast
    have "\<not> (\<forall>(p, m) \<in> free_blocks pool. m < unat ord)"
    proof (rule buddy_get_pages_cases [OF inv refl k])
      fix m q assume "unat ord \<le> m" "(q, m) \<in> free_blocks pool"
      then show ?thesis by (auto simp: not_less [symmetric])
    next
      assume "buddy_get_pages pool ord = Inr (None, pool)"
      then show ?thesis using r(1) Some by simp
    qed
    then show ?thesis using r Some al dis by auto
  qed
qed

theorem buddy_get_pages_correct_witness:
  "\<exists>r pool'. buddy_get_pages demo_pool 1 = Inr (r, pool') \<and>
    (r = None \<longleftrightarrow> (\<forall>(p, m) \<in> free_blocks demo_pool. m < unat (1 :: u64))) \<and>
    (case r of None \<Rightarrow> pool' = demo_pool
     | Some p \<Rightarrow> buddy_ok pool' (insert (p, unat (1 :: u64)) {}) \<and> 2 ^ unat (1 :: u64) dvd pfn demo_pool + p \<and>
         p + 2 ^ unat (1 :: u64) \<le> npages demo_pool \<and>
         (\<forall>(q, j) \<in> {}. {p..<p + 2 ^ unat (1 :: u64)} \<inter> {q..<q + 2 ^ j} = {}) \<and>
         {p..<p + 2 ^ unat (1 :: u64)} \<subseteq> pages_of (free_blocks demo_pool) \<and>
         pages_of (free_blocks pool') = pages_of (free_blocks demo_pool) - {p..<p + 2 ^ unat (1 :: u64)})"
  by (rule buddy_get_pages_correct [OF demo_pool_ok]) (simp add: buddy_consts)

text \<open>
  C21: \<^verbatim>\<open>buddy_free_pages\<close> of a block that was handed out returns its pages to the free
  memory and merges until no two buddies are free, leaving all other blocks as they were.
\<close>

theorem buddy_free_pages_correct:
  assumes "buddy_ok pool A" "(p, k) \<in> A"
  shows "\<exists>pool'. buddy_free_pages pool p = Inr pool' \<and> buddy_ok pool' (A - {(p, k)}) \<and> same_pool pool pool' \<and>
    (\<forall>b \<in> free_blocks pool'. \<forall>c \<in> free_blocks pool'. \<not> mergeable (pfn pool) b c) \<and>
    pages_of (free_blocks pool') = pages_of (free_blocks pool) \<union> {p..<p + 2 ^ k}"
proof -
  obtain pool' where "buddy_free_pages pool p = Inr pool'" "buddy_inv pool' (A - {(p, k)})" "same_pool pool pool'"
    "coalesced (pfn pool) (free_blocks pool')"
    "pages_of (free_blocks pool') = pages_of (free_blocks pool) \<union> {p..<p + 2 ^ k}"
    using buddy_free_pages_spec assms by (meson buddy_ok_def)
  then show ?thesis using same_pool_geometry(3) [of pool pool']
    by (auto simp: buddy_ok_def coalesced_def)
qed

lemma demo_taken: "\<exists>pool. buddy_get_pages demo_pool 0 = Inr (Some 5, pool) \<and> buddy_ok pool {(5, 0)}"
proof -
  have g: "map_sum id fst (buddy_get_pages demo_pool 0) = Inr (Some 5)" by code_simp
  obtain r pool' where "buddy_get_pages demo_pool 0 = Inr (r, pool')"
    "case r of None \<Rightarrow> True | Some p \<Rightarrow> buddy_ok pool' (insert (p, 0) {})"
    using buddy_get_ok [OF demo_pool_ok, of 0] by (fastforce simp: buddy_consts split: option.splits)
  then show ?thesis using g by auto
qed

theorem buddy_free_pages_correct_witness:
  "\<exists>pool. buddy_get_pages demo_pool 0 = Inr (Some 5, pool) \<and>
    (\<exists>pool'. buddy_free_pages pool 5 = Inr pool' \<and> buddy_ok pool' ({(5, 0)} - {(5, 0)}) \<and> same_pool pool pool' \<and>
    (\<forall>b \<in> free_blocks pool'. \<forall>c \<in> free_blocks pool'. \<not> mergeable (pfn pool) b c) \<and>
    pages_of (free_blocks pool') = pages_of (free_blocks pool) \<union> {5..<5 + 2 ^ 0})"
proof -
  obtain pool where "buddy_get_pages demo_pool 0 = Inr (Some 5, pool)" "buddy_ok pool {(5, 0)}"
    using demo_taken by blast
  moreover from buddy_free_pages_correct [OF this(2), of 5 0] have
    "\<exists>pool'. buddy_free_pages pool 5 = Inr pool' \<and> buddy_ok pool' ({(5, 0)} - {(5, 0)}) \<and> same_pool pool pool' \<and>
    (\<forall>b \<in> free_blocks pool'. \<forall>c \<in> free_blocks pool'. \<not> mergeable (pfn pool) b c) \<and>
    pages_of (free_blocks pool') = pages_of (free_blocks pool) \<union> {5..<5 + 2 ^ 0}" by blast
  ultimately show ?thesis by blast
qed

text \<open>
  C7: any sequence of requests for orders below 14 and of returns of blocks held runs to its end on
  a well-formed pool, never through a wild pointer, and the blocks held at the end do not overlap.
\<close>

theorem buddy_sessions_safe:
  assumes "buddy_ok pool {}" "\<forall>ord. Get ord \<in> set rs \<longrightarrow> unat ord < BUDDY_MAX_ORDER"
  shows "\<exists>live pool'. bud.serve rs [] pool = Inr (live, pool') \<and>
    (\<forall>i < length live. \<forall>j < length live. i \<noteq> j \<longrightarrow>
       {fst (live ! i)..<fst (live ! i) + 2 ^ snd (live ! i)} \<inter>
       {fst (live ! j)..<fst (live ! j) + 2 ^ snd (live ! j)} = {})"
  by (rule bud.serve_disjoint) (use assms in simp_all)

theorem buddy_sessions_safe_witness:
  "\<exists>live pool'. bud.serve [Get 1, Get 0, Put 0, Get 2, Put 7] [] demo_pool = Inr (live, pool') \<and>
    (\<forall>i < length live. \<forall>j < length live. i \<noteq> j \<longrightarrow>
       {fst (live ! i)..<fst (live ! i) + 2 ^ snd (live ! i)} \<inter>
       {fst (live ! j)..<fst (live ! j) + 2 ^ snd (live ! j)} = {})"
  by (rule buddy_sessions_safe [OF demo_pool_ok]) (auto simp: buddy_consts)

text \<open>
  A request for order 14 or more does not return NULL. The test for an exact fit
  (\<^verbatim>\<open>order_idx == order\<close>) comes before the test for running off the array, so the code
  reads \<^verbatim>\<open>free_lists[order]\<close> beyond its end.
\<close>

theorem buddy_get_pages_large_order:
  assumes "buddy_ok pool A" "BUDDY_MAX_ORDER \<le> unat ord" "unat ord < 2 ^ 31"
  shows "buddy_get_pages pool ord = Inl WILD"
  using assms by (intro buddy_get_pages_out_of_range) (auto simp: buddy_ok_def)

theorem buddy_get_pages_large_order_witness: "buddy_get_pages demo_pool 14 = Inl WILD"
  by (rule buddy_get_pages_large_order [OF demo_pool_ok]) (simp_all add: buddy_consts)

end
