(* ===== verification/PageTable.thy ===== *)
theory PageTable
  imports Prelude
begin

text \<open>
  The four-level page tables of \<^verbatim>\<open>kernel/mm/page_table.c\<close>. A page-table page is the list of
  its 512 entries, found under its kernel virtual address; an entry is the 64-bit word, its fields
  are the bit ranges of the unions in \<^verbatim>\<open>page_table.h\<close>. \<^verbatim>\<open>get_pages(0)\<close> is the
  sequence of addresses it is going to return (\<open>0\<close>: NULL, on which the code stops in a
  \<^verbatim>\<open>BUG_ON\<close>). Flushing the TLB has no effect in the model: it has no TLB.
\<close>

section \<open>Bit fields\<close>

definition get_field :: "nat \<Rightarrow> nat \<Rightarrow> u64 \<Rightarrow> u64" where
  "get_field lo len w = drop_bit lo w AND mask len"

definition put_field :: "nat \<Rightarrow> nat \<Rightarrow> u64 \<Rightarrow> u64 \<Rightarrow> u64" where
  "put_field lo len v w = (w AND NOT (push_bit lo (mask len))) OR push_bit lo (v AND mask len)"

text \<open>First bit and width of the fields, \<^verbatim>\<open>table\<close> and \<^verbatim>\<open>l3_page\<close> (they share these).\<close>

definition set_is_valid :: "u64 \<Rightarrow> u64 \<Rightarrow> u64" where "set_is_valid = put_field 0 1"
definition set_is_table :: "u64 \<Rightarrow> u64 \<Rightarrow> u64" where "set_is_table = put_field 1 1"
definition set_next_table_addr :: "u64 \<Rightarrow> u64 \<Rightarrow> u64" where "set_next_table_addr = put_field 12 36"
definition l3_set_attr_index :: "u64 \<Rightarrow> u64 \<Rightarrow> u64" where "l3_set_attr_index = put_field 2 3"
definition l3_set_AP :: "u64 \<Rightarrow> u64 \<Rightarrow> u64" where "l3_set_AP = put_field 6 2"
definition l3_set_SH :: "u64 \<Rightarrow> u64 \<Rightarrow> u64" where "l3_set_SH = put_field 8 2"
definition l3_set_AF :: "u64 \<Rightarrow> u64 \<Rightarrow> u64" where "l3_set_AF = put_field 10 1"
definition l3_set_pfn :: "u64 \<Rightarrow> u64 \<Rightarrow> u64" where "l3_set_pfn = put_field 12 36"
definition l3_set_PXN :: "u64 \<Rightarrow> u64 \<Rightarrow> u64" where "l3_set_PXN = put_field 53 1"
definition l3_set_UXN :: "u64 \<Rightarrow> u64 \<Rightarrow> u64" where "l3_set_UXN = put_field 54 1"

text \<open>
  \<^verbatim>\<open>l2_block\<close> is not laid out like \<^verbatim>\<open>l3_page\<close> above bit 48: after the 27 bits of
  \<^verbatim>\<open>pfn\<close> come \<^verbatim>\<open>reserved3:2, GP:1, reserved4:1, DBM:1, Contiguous:1, PXN:1\<close> and only then
  \<^verbatim>\<open>UXN\<close>, at bit 55.
\<close>

definition l2_set_pfn :: "u64 \<Rightarrow> u64 \<Rightarrow> u64" where "l2_set_pfn = put_field 21 27"
definition l2_set_UXN :: "u64 \<Rightarrow> u64 \<Rightarrow> u64" where "l2_set_UXN = put_field 55 1"

lemmas field_defs = set_is_valid_def set_is_table_def set_next_table_addr_def l3_set_attr_index_def
  l3_set_AP_def l3_set_SH_def l3_set_AF_def l3_set_pfn_def l3_set_PXN_def l3_set_UXN_def
  l2_set_pfn_def l2_set_UXN_def

definition KBASE :: u64 where "KBASE = 0xFFFFFF0000000000"
definition phys_to_virt :: "u64 \<Rightarrow> u64" where "phys_to_virt x = x + KBASE"
definition virt_to_phys :: "u64 \<Rightarrow> u64" where "virt_to_phys x = x - KBASE"

definition PAGE_SHIFT :: nat where "PAGE_SHIFT = 12"

definition IS_PTE_INVALID :: "u64 \<Rightarrow> bool" where "IS_PTE_INVALID pte \<longleftrightarrow> pte AND 1 = 0"
definition IS_PTE_TABLE :: "u64 \<Rightarrow> bool" where "IS_PTE_TABLE pte \<longleftrightarrow> pte AND 2 \<noteq> 0"

definition GET_PADDR_IN_PTE :: "u64 \<Rightarrow> u64" where
  "GET_PADDR_IN_PTE e = push_bit PAGE_SHIFT (get_field 12 36 e)"

definition GET_NEXT_PTP :: "u64 \<Rightarrow> u64" where
  "GET_NEXT_PTP e = phys_to_virt (GET_PADDR_IN_PTE e)"

text \<open>\<^verbatim>\<open>GET_L0_INDEX\<close> to \<^verbatim>\<open>GET_L3_INDEX\<close>.\<close>

definition GET_INDEX :: "nat \<Rightarrow> u64 \<Rightarrow> nat" where
  "GET_INDEX level va = unat (drop_bit (9 * (3 - level) + PAGE_SHIFT) va AND 511)"

text \<open>\<^verbatim>\<open>GET_VA_OFFSET_L1\<close> to \<^verbatim>\<open>GET_VA_OFFSET_L3\<close>.\<close>

definition GET_VA_OFFSET :: "nat \<Rightarrow> u64 \<Rightarrow> u64" where
  "GET_VA_OFFSET level va = va AND (push_bit (9 * (3 - level) + PAGE_SHIFT) 1 - 1)"

definition VMR_READ :: u64 where "VMR_READ = 1"
definition VMR_WRITE :: u64 where "VMR_WRITE = 2"
definition VMR_EXEC :: u64 where "VMR_EXEC = 4"

definition NORMAL_PTP :: int where "NORMAL_PTP = 0"
definition BLOCK_PTP :: int where "BLOCK_PTP = 1"

datatype pte_kind = USER_PTE | KERNEL_PTE

definition set_pte_flags :: "u64 \<Rightarrow> pte_kind \<Rightarrow> u64 \<Rightarrow> u64" where
  "set_pte_flags flags kind e =
     (let e = (if flags AND VMR_WRITE \<noteq> 0 then l3_set_AP 1 e else l3_set_AP 3 e);
          e = (if flags AND VMR_EXEC \<noteq> 0 then l3_set_UXN 0 e else l3_set_UXN 1 e);
          e = (if kind = USER_PTE then l3_set_PXN 1 e else e);
          e = l3_set_AF 1 e;
          e = l3_set_SH 3 e
      in l3_set_attr_index 4 e)"

section \<open>Page-table memory\<close>

type_synonym pt_mem = "u64 \<Rightarrow> u64 list option"

record pt_state =
  ptm :: pt_mem
  page_supply :: "u64 list"

type_synonym pte_ptr = "u64 \<times> nat"

definition rd_pte :: "pte_ptr \<Rightarrow> pt_state \<Rightarrow> u64 res" where
  "rd_pte e s = bindR (deref (ptm s (fst e))) (\<lambda>ws. arr_get ws (snd e))"

definition wr_pte :: "pte_ptr \<Rightarrow> u64 \<Rightarrow> pt_state \<Rightarrow> pt_state res" where
  "wr_pte e v s = bindR (deref (ptm s (fst e))) (\<lambda>ws. bindR (arr_set ws (snd e) v) (\<lambda>ws.
     Inr (s\<lparr>ptm := (ptm s)(fst e \<mapsto> ws)\<rparr>)))"

definition upd_pte :: "pte_ptr \<Rightarrow> (u64 \<Rightarrow> u64) \<Rightarrow> pt_state \<Rightarrow> pt_state res" where
  "upd_pte e f s = bindR (rd_pte e s) (\<lambda>v. wr_pte e (f v) s)"

definition get_page_0 :: "pt_state \<Rightarrow> (u64 \<times> pt_state) res" where
  "get_page_0 s = (case page_supply s of [] \<Rightarrow> Inl WILD | a # as \<Rightarrow> Inr (a, s\<lparr>page_supply := as\<rparr>))"

text \<open>The entry for a new page-table page.\<close>

definition table_pte :: "u64 \<Rightarrow> u64" where
  "table_pte new_ptp =
     set_next_table_addr (drop_bit PAGE_SHIFT (virt_to_phys new_ptp)) (set_is_table 1 (set_is_valid 1 0))"

text \<open>
  The result is the status and, unless it is negative, the next page-table page and the entry that
  points to it.
\<close>

definition get_next_ptp :: "u64 \<Rightarrow> nat \<Rightarrow> u64 \<Rightarrow> bool \<Rightarrow> pt_state \<Rightarrow> (int \<times> u64 \<times> pte_ptr \<times> pt_state) res" where
  "get_next_ptp cur_ptp level va alloc s =
     (if cur_ptp = 0 then Inr (- ENOMAPPING, 0, (0, 0), s)
      else if level > 3 then Inl BUG
      else
        let entry = (cur_ptp, GET_INDEX level va) in
        bindR (rd_pte entry s) (\<lambda>e.
        if IS_PTE_INVALID e \<and> \<not> alloc then Inr (- ENOMAPPING, 0, (0, 0), s)
        else
          bindR (if IS_PTE_INVALID e then
                   bindR (get_page_0 s) (\<lambda>(new_ptp, s).
                    bindR (bug_on (new_ptp = 0)) (\<lambda>_.
                    wr_pte entry (table_pte new_ptp) (s\<lparr>ptm := (ptm s)(new_ptp \<mapsto> replicate 512 0)\<rparr>)))
                 else Inr s) (\<lambda>s.
          bindR (rd_pte entry s) (\<lambda>e.
          Inr (if IS_PTE_TABLE e then NORMAL_PTP else BLOCK_PTP, GET_NEXT_PTP e, entry, s)))))"

text \<open>
  The loop of \<^verbatim>\<open>query_in_pgtbl\<close> from level \<open>i\<close>, with \<open>n\<close> levels left. For a block on level 0
  the code sets the entry but no address; \<open>pa\<close> is what \<^verbatim>\<open>*pa\<close> held before.
\<close>

fun query_loop :: "nat \<Rightarrow> nat \<Rightarrow> u64 \<Rightarrow> u64 \<Rightarrow> u64 \<Rightarrow> pte_ptr \<Rightarrow> u64 \<Rightarrow> pt_state \<Rightarrow> (int \<times> u64 \<times> pte_ptr) res" where
  "query_loop 0 i cur_ptp va pa pte next_ptp s =
     Inr (0, virt_to_phys next_ptp + GET_VA_OFFSET 3 va, pte)"
| "query_loop (Suc n) i cur_ptp va pa _ _ s =
     bindR (get_next_ptp cur_ptp i va False s) (\<lambda>(err, next_ptp, pte, s).
       if err < 0 then Inr (err, pa, (0, 0))
       else if err = BLOCK_PTP then
         Inr (0, if i \<in> {1, 2, 3} then virt_to_phys next_ptp + GET_VA_OFFSET i va else pa, pte)
       else query_loop n (Suc i) next_ptp va pa pte next_ptp s)"

definition query_in_pgtbl :: "u64 \<Rightarrow> u64 \<Rightarrow> u64 \<Rightarrow> pt_state \<Rightarrow> (int \<times> u64 \<times> pte_ptr) res" where
  "query_in_pgtbl pgtbl va pa s = query_loop 4 0 pgtbl va pa (0, 0) 0 s"

text \<open>The four calls of \<^verbatim>\<open>get_next_ptp\<close> at the head of the loops; the entry of level 3.\<close>

definition walk_alloc :: "u64 \<Rightarrow> u64 \<Rightarrow> pt_state \<Rightarrow> (int \<times> pte_ptr \<times> pt_state) res" where
  "walk_alloc pgtbl va s =
     bindR (get_next_ptp pgtbl 0 va True s) (\<lambda>(err, ptp_1, _, s).
     if err < 0 then Inr (err, (0, 0), s) else
     bindR (get_next_ptp ptp_1 1 va True s) (\<lambda>(err, ptp_2, _, s).
     if err < 0 then Inr (err, (0, 0), s) else
     bindR (get_next_ptp ptp_2 2 va True s) (\<lambda>(err, ptp_3, _, s).
     if err < 0 then Inr (err, (0, 0), s) else
     bindR (get_next_ptp ptp_3 3 va True s) (\<lambda>(err, _, pte_3, s).
     if err < 0 then Inr (err, (0, 0), s) else Inr (0, pte_3, s)))))"

fun map_pages :: "nat \<Rightarrow> u64 \<Rightarrow> u64 \<Rightarrow> u64 \<Rightarrow> u64 \<Rightarrow> pt_state \<Rightarrow> (int \<times> pt_state) res" where
  "map_pages 0 pgtbl va pa flags s = Inr (0, s)"
| "map_pages (Suc n) pgtbl va pa flags s =
     bindR (walk_alloc pgtbl va s) (\<lambda>(err, pte_3, s).
     if err < 0 then Inr (err, s) else
     bindR (upd_pte pte_3 (set_pte_flags flags USER_PTE) s) (\<lambda>s.
     bindR (upd_pte pte_3 (l3_set_pfn (drop_bit PAGE_SHIFT pa)) s) (\<lambda>s.
     map_pages n pgtbl (va + PAGE_SIZE) (pa + PAGE_SIZE) flags s)))"

definition map_range_in_pgtbl :: "u64 \<Rightarrow> u64 \<Rightarrow> u64 \<Rightarrow> u64 \<Rightarrow> u64 \<Rightarrow> pt_state \<Rightarrow> (int \<times> pt_state) res" where
  "map_range_in_pgtbl pgtbl va pa len flags s =
     map_pages (unat (ROUND_UP len PAGE_SIZE div PAGE_SIZE)) pgtbl va pa flags s"

fun unmap_pages :: "nat \<Rightarrow> u64 \<Rightarrow> u64 \<Rightarrow> pt_state \<Rightarrow> (int \<times> pt_state) res" where
  "unmap_pages 0 pgtbl va s = Inr (0, s)"
| "unmap_pages (Suc n) pgtbl va s =
     bindR (walk_alloc pgtbl va s) (\<lambda>(err, pte_3, s).
     if err < 0 then Inr (err, s) else
     bindR (upd_pte pte_3 (set_is_valid 0) s) (\<lambda>s.
     unmap_pages n pgtbl (va + PAGE_SIZE) s))"

definition unmap_range_in_pgtbl :: "u64 \<Rightarrow> u64 \<Rightarrow> u64 \<Rightarrow> pt_state \<Rightarrow> (int \<times> pt_state) res" where
  "unmap_range_in_pgtbl pgtbl va len s =
     unmap_pages (unat (ROUND_UP len PAGE_SIZE div PAGE_SIZE)) pgtbl va s"

text \<open>
  \<^verbatim>\<open>map_kernel_space\<close> (\<^verbatim>\<open>mm/mm.c\<close>) with the address held in TTBR1; it returns nothing, so
  an error just ends the loop.
\<close>

definition BLOCK_SIZE :: u64 where "BLOCK_SIZE = 0x200000"

definition kernel_block_pte :: "u64 \<Rightarrow> u64 \<Rightarrow> u64" where
  "kernel_block_pte pa e =
     l2_set_pfn (drop_bit 21 pa) (l2_set_UXN 1 (l3_set_AF 1 (l3_set_SH 3 (l3_set_attr_index 4
       (set_is_table 0 (set_is_valid 1 e))))))"

fun map_kernel_blocks :: "nat \<Rightarrow> u64 \<Rightarrow> u64 \<Rightarrow> u64 \<Rightarrow> pt_state \<Rightarrow> pt_state res" where
  "map_kernel_blocks 0 ttbr1 va pa s = Inr s"
| "map_kernel_blocks (Suc n) ttbr1 va pa s =
     bindR (get_next_ptp ttbr1 0 va True s) (\<lambda>(err, ptp_1, _, s).
     if err < 0 then Inr s else
     bindR (get_next_ptp ptp_1 1 va True s) (\<lambda>(err, ptp_2, _, s).
     if err < 0 then Inr s else
     bindR (get_next_ptp ptp_2 2 va True s) (\<lambda>(err, _, pte_2, s).
     if err < 0 then Inr s else
     bindR (upd_pte pte_2 (kernel_block_pte pa) s) (\<lambda>s.
     map_kernel_blocks n ttbr1 (va + BLOCK_SIZE) (pa + BLOCK_SIZE) s))))"

definition map_kernel_space :: "u64 \<Rightarrow> u64 \<Rightarrow> u64 \<Rightarrow> u64 \<Rightarrow> pt_state \<Rightarrow> pt_state res" where
  "map_kernel_space ttbr1 va pa len s =
     map_kernel_blocks (unat (ROUND_UP len BLOCK_SIZE div BLOCK_SIZE)) ttbr1 va pa s"

section \<open>Fields of entries\<close>

lemma bit_put_field [simp]:
  "bit (put_field lo len v w) i \<longleftrightarrow> i < 64 \<and> (if lo \<le> i \<and> i < lo + len then bit v (i - lo) else bit w i)"
  by (auto simp: put_field_def bit_simps)

lemma bit_get_field [simp]: "bit (get_field lo len w) i \<longleftrightarrow> i < len \<and> bit w (lo + i)"
  using bit_imp_le_length [of w "lo + i"] by (auto simp: get_field_def bit_simps ac_simps)

lemma IS_PTE_INVALID_bit: "IS_PTE_INVALID e \<longleftrightarrow> \<not> bit e 0"
  by (simp add: IS_PTE_INVALID_def and_one_eq mod_2_eq_odd bit_0)

lemma IS_PTE_TABLE_bit: "IS_PTE_TABLE e \<longleftrightarrow> bit e 1"
proof -
  have "bit (e AND 2) i \<longleftrightarrow> i = 1 \<and> bit e 1" for i
    using bit_exp_iff [of 1 i, where 'a = "64 word"] by (auto simp: bit_and_iff)
  then show ?thesis unfolding IS_PTE_TABLE_def by (metis bit_0_eq bot_apply bot_bool_def bit_word_eqI)
qed


section \<open>Paths through the tables\<close>

definition pte_next :: "u64 \<Rightarrow> u64 option" where
  "pte_next e = (if bit e 0 \<and> bit e 1 then Some (GET_NEXT_PTP e) else None)"

fun tpath :: "pt_mem \<Rightarrow> u64 \<Rightarrow> nat list \<Rightarrow> u64 option" where
  "tpath m a [] = Some a"
| "tpath m a (k # ks) = (case m a of None \<Rightarrow> None | Some ws \<Rightarrow>
     (case pte_next (ws ! k) of None \<Rightarrow> None | Some b \<Rightarrow> tpath m b ks))"

definition pent :: "pt_mem \<Rightarrow> u64 \<Rightarrow> nat list \<Rightarrow> nat \<Rightarrow> u64" where
  "pent m a ks k = (case tpath m a ks of None \<Rightarrow> 0 | Some b \<Rightarrow> (case m b of None \<Rightarrow> 0 | Some ws \<Rightarrow> ws ! k))"

definition tab_path :: "nat list \<Rightarrow> bool" where
  "tab_path ks \<longleftrightarrow> length ks \<le> 3 \<and> set ks \<subseteq> {..<512}"

text \<open>Kernel virtual addresses that survive the round trip through \<^verbatim>\<open>next_table_addr\<close>.\<close>

definition frame_addr :: "u64 \<Rightarrow> bool" where
  "frame_addr a \<longleftrightarrow> a \<noteq> 0 \<and> GET_NEXT_PTP (table_pte a) = a"

text \<open>
  The tables under \<open>r\<close> form a tree of depth 3, the valid entries above level 3 are table entries,
  and no page is a table in two places.
\<close>

definition pt_ok :: "pt_mem \<Rightarrow> u64 \<Rightarrow> bool" where
  "pt_ok m r \<longleftrightarrow> r \<noteq> 0 \<and>
     (\<forall>p b. tab_path p \<and> tpath m r p = Some b \<longrightarrow> b \<noteq> 0 \<and>
        (\<exists>ws. m b = Some ws \<and> length ws = 512 \<and>
          (length p < 3 \<longrightarrow> (\<forall>k < 512. bit (ws ! k) 0 \<longrightarrow> bit (ws ! k) 1)))) \<and>
     (\<forall>p q b. tab_path p \<and> tab_path q \<and> tpath m r p = Some b \<and> tpath m r q = Some b \<longrightarrow> p = q)"

definition page_supply_ok :: "pt_state \<Rightarrow> bool" where
  "page_supply_ok s \<longleftrightarrow> distinct (page_supply s) \<and>
     (\<forall>a \<in> set (page_supply s). frame_addr a \<and> ptm s a = None)"

lemma tpath_append: "tpath m a (p @ q) = (case tpath m a p of None \<Rightarrow> None | Some b \<Rightarrow> tpath m b q)"
  by (induction p arbitrary: a) (auto split: option.splits)

lemma tpath_snoc: "tpath m a (p @ [k]) = (if \<exists>b ws. tpath m a p = Some b \<and> m b = Some ws
    then pte_next (pent m a p k) else None)"
  by (auto simp: tpath_append pent_def split: option.splits)

lemma tab_path_snoc: "tab_path (p @ [k]) \<longleftrightarrow> length p < 3 \<and> tab_path p \<and> k < 512"
  by (auto simp: tab_path_def)

lemma pte_next_0 [simp]: "pte_next 0 = None" by (simp add: pte_next_def)

text \<open>
  Overwriting entry \<open>k\<close> of the table on path \<open>ks\<close>: on level 3 any value; above, a table entry for
  a fresh zeroed page in place of an invalid one.
\<close>

lemma tpath_update:
  assumes ok: "pt_ok m r" and ks: "tab_path ks" "k < 512" and b: "tpath m r ks = Some b" "m b = Some ws"
    and upd: "m' b = Some (ws[k := v])" "\<And>c. c \<noteq> b \<Longrightarrow> m c \<noteq> None \<Longrightarrow> m' c = m c"
    and inner: "length ks < 3 \<Longrightarrow> \<not> bit (ws ! k) 0 \<and> pte_next v = Some n \<and> m n = None \<and>
       m' n = Some (replicate 512 0)"
    and p: "tab_path p"
  shows "tpath m' r p = (if p = ks @ [k] then Some n else tpath m r p)"
  using p
proof (induction p rule: rev_induct)
  case (snoc j p)
  have ip: "tab_path p" "length p < 3" and j: "j < 512" using snoc.prems by (auto simp: tab_path_snoc)
  have IH: "tpath m' r p = (if p = ks @ [k] then Some n else tpath m r p)" using snoc.IH ip by simp
  have len: "length ws = 512" using ok ks(1) b by (fastforce simp: pt_ok_def)
  show ?case
  proof (cases "p = ks @ [k]")
    case True
    with ip have l: "length ks < 3" by simp
    note i = inner [OF this]
    have "tpath m r p = None" using True b i by (simp add: tpath_append pte_next_def)
    then have "tpath m r (p @ [j]) = None" by (simp add: tpath_append)
    moreover have "tpath m' r p = Some n" using IH True by simp
    then have "tpath m' r (p @ [j]) = None" unfolding tpath_append using i j by simp
    ultimately show ?thesis using True by simp
  next
    case False
    then have eq: "tpath m' r p = tpath m r p" using IH by simp
    show ?thesis
    proof (cases "p = ks")
      case True
      then have l: "length ks < 3" using ip by simp
      show ?thesis using eq True b upd(1) j ks(2) len inner [OF l]
        by (auto simp: tpath_append nth_list_update split: option.splits)
    next
      case ne: False
      show ?thesis
      proof (cases "tpath m r p")
        case None
        then show ?thesis using eq ne by (simp add: tpath_append)
      next
        case (Some c)
        have "c \<noteq> b" using ok ip(1) ks(1) b(1) Some ne unfolding pt_ok_def by blast
        moreover have "m c \<noteq> None" using ok ip(1) Some unfolding pt_ok_def by fastforce
        ultimately have "m' c = m c" using upd(2) by simp
        then show ?thesis using eq ne Some by (simp add: tpath_append split: option.splits)
      qed
    qed
  qed
qed simp

lemma pent_update:
  assumes ok: "pt_ok m r" and ks: "tab_path ks" "k < 512" and b: "tpath m r ks = Some b" "m b = Some ws"
    and upd: "m' b = Some (ws[k := v])" "\<And>c. c \<noteq> b \<Longrightarrow> m c \<noteq> None \<Longrightarrow> m' c = m c"
    and inner: "length ks < 3 \<Longrightarrow> \<not> bit (ws ! k) 0 \<and> pte_next v = Some n \<and> m n = None \<and>
       m' n = Some (replicate 512 0)"
    and p: "tab_path p" "j < 512"
  shows "pent m' r p j = (if p = ks \<and> j = k then v else pent m r p j)"
proof -
  have tp: "tpath m' r p = (if p = ks @ [k] then Some n else tpath m r p)"
    by (rule tpath_update [OF ok ks b upd inner p(1)])
  have len: "length ws = 512" using ok ks(1) b by (fastforce simp: pt_ok_def)
  show ?thesis
  proof (cases "p = ks @ [k]")
    case True
    then have i: "\<not> bit (ws ! k) 0" "m' n = Some (replicate 512 0)" using inner p(1) by (auto simp: tab_path_snoc)
    then have "tpath m r p = None" using True b by (simp add: tpath_append pte_next_def)
    then show ?thesis using tp True i p(2) by (simp add: pent_def)
  next
    case False
    then have eq: "tpath m' r p = tpath m r p" using tp by simp
    show ?thesis
    proof (cases "tpath m r p")
      case None
      then have "p \<noteq> ks" using b(1) by auto
      then show ?thesis using eq None by (simp add: pent_def)
    next
      case (Some c)
      show ?thesis
      proof (cases "p = ks")
        case True
        then show ?thesis using eq b upd(1) ks(2) p(2) len by (simp add: pent_def nth_list_update)
      next
        case ne: False
        have "c \<noteq> b" using ok p(1) ks(1) b(1) Some ne unfolding pt_ok_def by blast
        moreover have "m c \<noteq> None" using ok p(1) Some unfolding pt_ok_def by fastforce
        ultimately have "m' c = m c" using upd(2) by simp
        then show ?thesis using eq ne Some by (simp add: pent_def)
      qed
    qed
  qed
qed

lemma pt_ok_update:
  assumes ok: "pt_ok m r" and ks: "tab_path ks" "k < 512" and b: "tpath m r ks = Some b" "m b = Some ws"
    and upd: "m' b = Some (ws[k := v])" "\<And>c. c \<noteq> b \<Longrightarrow> m c \<noteq> None \<Longrightarrow> m' c = m c"
    and inner: "length ks < 3 \<Longrightarrow> \<not> bit (ws ! k) 0 \<and> pte_next v = Some n \<and> m n = None \<and>
       m' n = Some (replicate 512 0) \<and> n \<noteq> 0"
  shows "pt_ok m' r"
proof -
  have inner': "length ks < 3 \<Longrightarrow> \<not> bit (ws ! k) 0 \<and> pte_next v = Some n \<and> m n = None \<and>
       m' n = Some (replicate 512 0)" using inner by blast
  note up = tpath_update [OF ok ks b upd inner']
  have len: "length ws = 512" using ok ks(1) b by (fastforce simp: pt_ok_def)
  have dom: "c \<noteq> 0 \<and> (\<exists>ws. m c = Some ws \<and> length ws = 512 \<and>
      (length p < 3 \<longrightarrow> (\<forall>k < 512. bit (ws ! k) 0 \<longrightarrow> bit (ws ! k) 1)))"
    if "tab_path p" "tpath m r p = Some c" for p c
    using ok that unfolding pt_ok_def by blast
  have tv: "length ks < 3 \<Longrightarrow> bit v 1" using inner by (auto simp: pte_next_def split: if_splits)
  have 1: "c \<noteq> 0 \<and> (\<exists>ws. m' c = Some ws \<and> length ws = 512 \<and>
      (length p < 3 \<longrightarrow> (\<forall>k < 512. bit (ws ! k) 0 \<longrightarrow> bit (ws ! k) 1)))"
    if pc: "tab_path p" "tpath m' r p = Some c" for p c
  proof (cases "p = ks @ [k]")
    case True
    then have "length ks < 3" using pc by (auto simp: tab_path_snoc)
    then show ?thesis using inner True pc up [of p] by auto
  next
    case False
    then have c: "tpath m r p = Some c" using pc up [of p] by simp
    show ?thesis
    proof (cases "c = b")
      case True
      then have pk: "p = ks" using ok pc(1) ks(1) b(1) c unfolding pt_ok_def by blast
      have "length ks < 3 \<Longrightarrow> i < 512 \<Longrightarrow> bit (ws[k := v] ! i) 0 \<Longrightarrow> bit (ws[k := v] ! i) 1" for i
        using dom [OF ks(1) b(1)] b(2) tv len by (cases "i = k") auto
      then show ?thesis using dom [OF pc(1) c] True upd(1) len pk by auto
    next
      case False
      have "m c \<noteq> None" using dom [OF pc(1) c] by auto
      then show ?thesis using dom [OF pc(1) c] upd(2) [OF False] by simp
    qed
  qed
  have 2: "p = q" if "tab_path p" "tab_path q" "tpath m' r p = Some c" "tpath m' r q = Some c" for p q c
  proof -
    have new: "tpath m r p' \<noteq> Some n" if "tab_path p'" "length ks < 3" for p'
      using dom [OF that(1)] inner [OF that(2)] by auto
    have lk: "p' = ks @ [k] \<Longrightarrow> tab_path p' \<Longrightarrow> length ks < 3" for p' by (simp add: tab_path_snoc)
    show ?thesis
    proof (cases "p = ks @ [k] \<or> q = ks @ [k]")
      case True
      then show ?thesis using that new up [of p] up [of q] lk by (auto split: if_splits)
    next
      case False
      then have "tpath m r p = Some c" "tpath m r q = Some c" using that up [of p] up [of q] by auto
      then show ?thesis using ok that(1,2) unfolding pt_ok_def by blast
    qed
  qed
  show ?thesis using ok 1 2 unfolding pt_ok_def by blast
qed


section \<open>One step of a walk\<close>

lemma GET_INDEX_bound [simp]: "GET_INDEX level va < 512"
proof -
  have "(511 :: u64) = mask 9" by (simp add: mask_eq_exp_minus_1)
  then show ?thesis unfolding GET_INDEX_def by (simp only: word_and_mask_unat) simp
qed

definition va_path :: "u64 \<Rightarrow> nat \<Rightarrow> nat list" where
  "va_path va l = map (\<lambda>i. GET_INDEX i va) [0..<l]"

lemma va_path_simps [simp]:
  "va_path va 0 = []" "va_path va (Suc l) = va_path va l @ [GET_INDEX l va]" "length (va_path va l) = l"
  by (simp_all add: va_path_def)

lemma va_path_tab [simp]: "l \<le> 3 \<Longrightarrow> tab_path (va_path va l)"
  by (auto simp: tab_path_def va_path_def)

text \<open>The level-3 entry of an address, \<open>0\<close> (invalid) when a table on the way is missing.\<close>

definition leaf :: "pt_mem \<Rightarrow> u64 \<Rightarrow> u64 \<Rightarrow> u64" where
  "leaf m r va = pent m r (va_path va 3) (GET_INDEX 3 va)"

lemma table_pte_bits: "bit (table_pte a) 0" "bit (table_pte a) 1" "bit (table_pte a) (Suc 0)"
  by (simp_all add: table_pte_def set_is_valid_def set_is_table_def set_next_table_addr_def)

lemma pte_next_table: "frame_addr a \<Longrightarrow> pte_next (table_pte a) = Some a"
  by (simp add: pte_next_def table_pte_bits frame_addr_def)

lemma pt_okD:
  assumes "pt_ok m r" "tab_path p" "tpath m r p = Some b"
  shows "b \<noteq> 0" "\<exists>ws. m b = Some ws \<and> length ws = 512 \<and>
    (length p < 3 \<longrightarrow> (\<forall>k < 512. bit (ws ! k) 0 \<longrightarrow> bit (ws ! k) 1))"
  using assms unfolding pt_ok_def by blast+

lemma next_noalloc:
  assumes ok: "pt_ok (ptm s) r" and l: "l \<le> 3" and c: "tpath (ptm s) r (va_path va l) = Some c"
  defines "e \<equiv> pent (ptm s) r (va_path va l) (GET_INDEX l va)"
  shows "get_next_ptp c l va False s = Inr (if bit e 0
    then (if bit e 1 then NORMAL_PTP else BLOCK_PTP, GET_NEXT_PTP e, (c, GET_INDEX l va), s)
    else (- ENOMAPPING, 0, (0, 0), s))"
    and "l < 3 \<Longrightarrow> bit e 0 \<Longrightarrow> bit e 1"
    and "l < 3 \<Longrightarrow> tpath (ptm s) r (va_path va (Suc l)) = (if bit e 0 then Some (GET_NEXT_PTP e) else None)"
proof -
  obtain ws where ws: "ptm s c = Some ws" "length ws = 512" "l < 3 \<longrightarrow> (\<forall>k < 512. bit (ws ! k) 0 \<longrightarrow> bit (ws ! k) 1)"
    and nz: "c \<noteq> 0" using pt_okD [OF ok _ c] l by auto
  have e: "e = ws ! GET_INDEX l va" by (simp add: e_def pent_def c ws)
  show "get_next_ptp c l va False s = Inr (if bit e 0
    then (if bit e 1 then NORMAL_PTP else BLOCK_PTP, GET_NEXT_PTP e, (c, GET_INDEX l va), s)
    else (- ENOMAPPING, 0, (0, 0), s))"
    using nz l ws by (simp add: get_next_ptp_def rd_pte_def e IS_PTE_INVALID_bit IS_PTE_TABLE_bit)
  show t: "bit e 1" if "l < 3" "bit e 0" using ws(3) e that by simp
  show "tpath (ptm s) r (va_path va (Suc l)) = (if bit e 0 then Some (GET_NEXT_PTP e) else None)" if "l < 3"
    using c ws t that by (simp add: tpath_append e pte_next_def)
qed

text \<open>
  With allocation, a table that is there is found, and a missing one is linked in; the level-3
  entries do not change.
\<close>

lemma next_alloc:
  assumes ok: "pt_ok (ptm s) r" and sup: "page_supply_ok s" "page_supply s \<noteq> []"
    and l: "l < 3" and c: "tpath (ptm s) r (va_path va l) = Some c"
  shows "\<exists>n e s'. get_next_ptp c l va True s = Inr (NORMAL_PTP, n, e, s') \<and> pt_ok (ptm s') r \<and>
    page_supply_ok s' \<and> tpath (ptm s') r (va_path va (Suc l)) = Some n \<and>
    (\<forall>va'. leaf (ptm s') r va' = leaf (ptm s) r va') \<and>
    (page_supply s' = page_supply s \<or> page_supply s = n # page_supply s') \<and>
    (tpath (ptm s) r (va_path va (Suc l)) \<noteq> None \<longrightarrow> s' = s)"
proof -
  let ?k = "GET_INDEX l va" and ?p = "va_path va l" and ?m = "ptm s"
  obtain ws where ws: "?m c = Some ws" "length ws = 512" "\<forall>k < 512. bit (ws ! k) 0 \<longrightarrow> bit (ws ! k) 1"
    and nz: "c \<noteq> 0" using pt_okD [OF ok _ c] l by auto
  show ?thesis
  proof (cases "bit (ws ! ?k) 0")
    case True
    then have "bit (ws ! ?k) 1" using ws by simp
    then have "get_next_ptp c l va True s = Inr (NORMAL_PTP, GET_NEXT_PTP (ws ! ?k), (c, ?k), s)"
      "tpath ?m r (va_path va (Suc l)) = Some (GET_NEXT_PTP (ws ! ?k))"
      using nz l ws True c
      by (simp_all add: get_next_ptp_def rd_pte_def IS_PTE_INVALID_bit IS_PTE_TABLE_bit tpath_append pte_next_def)
    then show ?thesis using ok sup by blast
  next
    case False
    obtain n as where n: "page_supply s = n # as" using sup(2) by (cases "page_supply s") auto
    have fr: "frame_addr n" "?m n = None" "n \<noteq> 0" "n \<noteq> c" "n \<notin> set as"
      using sup(1) n ws by (auto simp: page_supply_ok_def frame_addr_def)
    define s' where "s' = s\<lparr>page_supply := as, ptm := (?m)(n \<mapsto> replicate 512 0, c \<mapsto> ws[?k := table_pte n])\<rparr>"
    have run: "get_next_ptp c l va True s = Inr (NORMAL_PTP, n, (c, ?k), s')"
    proof -
      have "GET_NEXT_PTP (table_pte n) = n" using fr by (simp add: frame_addr_def)
      then show ?thesis using nz l ws False n fr
        by (simp add: get_next_ptp_def rd_pte_def wr_pte_def get_page_0_def IS_PTE_INVALID_bit
            IS_PTE_TABLE_bit table_pte_bits s'_def)
    qed
    have up: "ptm s' c = Some (ws[?k := table_pte n])" "\<And>d. d \<noteq> c \<Longrightarrow> ?m d \<noteq> None \<Longrightarrow> ptm s' d = ?m d"
      using fr by (auto simp: s'_def)
    have inner: "\<not> bit (ws ! ?k) 0 \<and> pte_next (table_pte n) = Some n \<and> ?m n = None \<and>
       ptm s' n = Some (replicate 512 0)" "n \<noteq> 0"
      using False fr pte_next_table by (auto simp: s'_def)
    have tp: "tab_path ?p" using l by simp
    have "pt_ok (ptm s') r"
      by (rule pt_ok_update [OF ok tp GET_INDEX_bound c ws(1) up, of n]) (use inner in auto)
    moreover have "tpath (ptm s') r (va_path va (Suc l)) = Some n"
      using tpath_update [OF ok tp GET_INDEX_bound c ws(1) up inner(1), of "va_path va (Suc l)"] l
      by (simp add: tab_path_snoc)
    moreover have "leaf (ptm s') r va' = leaf ?m r va'" for va'
    proof -
      have "va_path va' 3 \<noteq> ?p" using l by (metis less_irrefl va_path_simps(3))
      then show ?thesis
        using pent_update [OF ok tp GET_INDEX_bound c ws(1) up inner(1), of "va_path va' 3" "GET_INDEX 3 va'"]
        by (simp add: leaf_def)
    qed
    moreover have "page_supply_ok s'"
      using sup(1) n fr ws by (auto simp: page_supply_ok_def s'_def)
    moreover have "tpath ?m r (va_path va (Suc l)) = None"
      using c ws False by (simp add: tpath_append pte_next_def)
    moreover have "page_supply s = n # page_supply s'" using n by (simp add: s'_def)
    ultimately show ?thesis using run by blast
  qed
qed


section \<open>Walks\<close>

lemma query_leaf:
  assumes ok: "pt_ok (ptm s) r"
  shows "query_in_pgtbl r va pa s = Inr (let e = leaf (ptm s) r va in
    if bit e 0 then (0, GET_PADDR_IN_PTE e + GET_VA_OFFSET 3 va, (the (tpath (ptm s) r (va_path va 3)), GET_INDEX 3 va))
    else (- ENOMAPPING, pa, (0, 0)))"
proof -
  let ?m = "ptm s"
  have E: "- ENOMAPPING < 0" "0 < ENOMAPPING" "\<not> NORMAL_PTP < 0" "\<not> BLOCK_PTP < 0" "NORMAL_PTP \<noteq> BLOCK_PTP"
    by (simp_all add: errno_defs NORMAL_PTP_def BLOCK_PTP_def)
  have vp: "virt_to_phys (GET_NEXT_PTP e) = GET_PADDR_IN_PTE e" for e
    by (simp add: virt_to_phys_def GET_NEXT_PTP_def phys_to_virt_def)
  have step: "query_loop (Suc (3 - l)) l c va pa x y s = Inr (let e = leaf ?m r va in
    if bit e 0 then (0, GET_PADDR_IN_PTE e + GET_VA_OFFSET 3 va, (the (tpath ?m r (va_path va 3)), GET_INDEX 3 va))
    else (- ENOMAPPING, pa, (0, 0)))"
    if "l \<le> 3" "tpath ?m r (va_path va l) = Some c" for l c x y
    using that
  proof (induction "3 - l" arbitrary: l c x y)
    case 0
    then have l: "l = 3" by simp
    have e: "pent ?m r (va_path va 3) (GET_INDEX 3 va) = leaf ?m r va" by (simp add: leaf_def)
    have t: "tpath ?m r (va_path va 3) = Some c" using 0 l by simp
    show ?case
      using next_noalloc(1) [OF ok _ t] unfolding e l
      by (simp add: E vp t Let_def)
  next
    case (Suc d)
    then have l: "l < 3" "l \<le> 3" "3 - l = Suc (3 - Suc l)" "d = 3 - Suc l" "Suc l \<le> 3" by simp_all
    define e where "e = pent ?m r (va_path va l) (GET_INDEX l va)"
    note nx = next_noalloc [OF ok l(2) Suc.prems(2), folded e_def]
    show ?case
    proof (cases "bit e 0")
      case True
      then have t: "tpath ?m r (va_path va (Suc l)) = Some (GET_NEXT_PTP e)" and b: "bit e 1"
        using nx l by auto
      have "query_loop (Suc (3 - l)) l c va pa x y s =
          query_loop (Suc (3 - Suc l)) (Suc l) (GET_NEXT_PTP e) va pa (c, GET_INDEX l va) (GET_NEXT_PTP e) s"
        unfolding l(3) [symmetric] by (simp only: query_loop.simps(2) nx(1)) (simp add: True b [unfolded One_nat_def] E del: query_loop.simps)
      then show ?thesis using Suc.hyps(1) [OF l(4,5) t] by simp
    next
      case False
      have "tpath ?m r (va_path va l @ [GET_INDEX l va]) = None"
        using nx(3) l False by simp
      then have "leaf ?m r va = 0"
      proof -
        have "va_path va 3 = va_path va (Suc l) @ map (\<lambda>i. GET_INDEX i va) [Suc l..<3]"
        proof -
          have "[0..<3] = [0..<Suc l] @ [Suc l..<3]"
            using l upt_add_eq_append [of 0 "Suc l" "3 - Suc l"] by simp
          then show ?thesis by (simp only: va_path_def map_append)
        qed
        then have "tpath ?m r (va_path va 3) = None"
          using \<open>tpath ?m r (va_path va l @ [GET_INDEX l va]) = None\<close>
          by (simp only: va_path_simps(2) tpath_append [of _ _ "_ @ [_]"]) simp
        then show ?thesis by (simp add: leaf_def pent_def)
      qed
      then show ?thesis
        by (simp only: query_loop.simps(2) nx(1)) (simp add: False E del: query_loop.simps)
    qed
  qed
  from step [of 0 r] show ?thesis by (simp add: query_in_pgtbl_def numeral_eq_Suc)
qed


text \<open>
  The allocating walk: it reaches the level-3 entry of the address, having replaced it by a table
  entry for yet another page if it was invalid.
\<close>

definition leaf_after_walk :: "u64 \<Rightarrow> pt_state \<Rightarrow> u64 \<Rightarrow> bool" where
  "leaf_after_walk e s e' \<longleftrightarrow> (if bit e 0 then e' = e else \<exists>n \<in> set (page_supply s). e' = table_pte n)"

lemma va_path_4: "va_path va 4 = va_path va 3 @ [GET_INDEX 3 va]"
proof -
  have "[0..<4] = [0..<3] @ [3]" by (simp add: upt_rec)
  then show ?thesis by (simp only: va_path_def map_append list.map)
qed

lemma next_alloc_leaf:
  assumes ok: "pt_ok (ptm s) r" and sup: "page_supply_ok s" "page_supply s \<noteq> []"
    and c: "tpath (ptm s) r (va_path va 3) = Some c"
  shows "\<exists>x n s'. get_next_ptp c 3 va True s = Inr (x, n, (c, GET_INDEX 3 va), s') \<and> x \<ge> 0 \<and> pt_ok (ptm s') r \<and>
    page_supply_ok s' \<and> tpath (ptm s') r (va_path va 3) = Some c \<and>
    (\<forall>va'. va_path va' 4 \<noteq> va_path va 4 \<longrightarrow> leaf (ptm s') r va' = leaf (ptm s) r va') \<and>
    leaf_after_walk (leaf (ptm s) r va) s (leaf (ptm s') r va) \<and>
    page_supply s' = (if bit (leaf (ptm s) r va) 0 then page_supply s else tl (page_supply s)) \<and>
    (\<forall>p. tab_path p \<longrightarrow> tpath (ptm s') r p = tpath (ptm s) r p)"
proof -
  let ?k = "GET_INDEX 3 va" and ?p = "va_path va 3" and ?m = "ptm s"
  have X: "NORMAL_PTP \<ge> 0" "BLOCK_PTP \<ge> 0" by (simp_all add: NORMAL_PTP_def BLOCK_PTP_def)
  have tp: "tab_path ?p" by (rule va_path_tab) simp
  obtain ws where ws: "?m c = Some ws" "length ws = 512" and nz: "c \<noteq> 0"
    using pt_okD [OF ok tp c] by auto
  have e: "leaf ?m r va = ws ! ?k" using c ws by (simp add: leaf_def pent_def)
  show ?thesis
  proof (cases "bit (ws ! ?k) 0")
    case True
    then have "\<exists>x. x \<ge> 0 \<and> get_next_ptp c 3 va True s = Inr (x, GET_NEXT_PTP (ws ! ?k), (c, ?k), s)"
      using nz ws X by (auto simp: get_next_ptp_def rd_pte_def IS_PTE_INVALID_bit)
    then show ?thesis using ok sup(1) c True by (auto simp: leaf_after_walk_def e)
  next
    case False
    obtain n as where n: "page_supply s = n # as" using sup(2) by (cases "page_supply s") auto
    have fr: "frame_addr n" "?m n = None" "n \<noteq> 0" "n \<noteq> c" "n \<notin> set as"
      using sup(1) n ws by (auto simp: page_supply_ok_def frame_addr_def)
    define s' where "s' = s\<lparr>page_supply := as, ptm := (?m)(n \<mapsto> replicate 512 0, c \<mapsto> ws[?k := table_pte n])\<rparr>"
    have run: "get_next_ptp c 3 va True s = Inr (NORMAL_PTP, n, (c, ?k), s')"
    proof -
      have "GET_NEXT_PTP (table_pte n) = n" using fr by (simp add: frame_addr_def)
      then show ?thesis using nz ws False n fr
        by (simp add: get_next_ptp_def rd_pte_def wr_pte_def get_page_0_def IS_PTE_INVALID_bit
            IS_PTE_TABLE_bit table_pte_bits s'_def)
    qed
    have up: "ptm s' c = Some (ws[?k := table_pte n])" "\<And>d. d \<noteq> c \<Longrightarrow> ?m d \<noteq> None \<Longrightarrow> ptm s' d = ?m d"
      using fr by (auto simp: s'_def)
    have l3: "length ?p < 3 \<Longrightarrow> P" for P by simp
    have "pt_ok (ptm s') r"
      by (rule pt_ok_update [OF ok tp GET_INDEX_bound c ws(1) up l3])
    moreover have tps: "tpath (ptm s') r p = tpath ?m r p" if "tab_path p" for p
      using tpath_update [OF ok tp GET_INDEX_bound c ws(1) up l3 that, of n] that
      by (auto simp: tab_path_snoc)
    moreover have "tpath (ptm s') r ?p = Some c" using tps [OF tp] c by simp
    moreover have lf: "leaf (ptm s') r va' = (if va_path va' 4 = va_path va 4 then table_pte n else leaf ?m r va')" for va'
      using pent_update [OF ok tp GET_INDEX_bound c ws(1) up l3 va_path_tab GET_INDEX_bound, of 3 va' 3 va']
      by (simp add: leaf_def va_path_4)
    moreover have "page_supply_ok s'"
      using sup(1) n fr ws by (auto simp: page_supply_ok_def s'_def)
    moreover have "page_supply s' = as" by (simp add: s'_def)
    ultimately show ?thesis using run False n X(1)
      by (auto simp: e leaf_after_walk_def)
  qed
qed

lemma walk_alloc_spec:
  assumes ok: "pt_ok (ptm s) r" and sup: "page_supply_ok s" "4 \<le> length (page_supply s)"
  shows "\<exists>b s'. walk_alloc r va s = Inr (0, (b, GET_INDEX 3 va), s') \<and> pt_ok (ptm s') r \<and> page_supply_ok s' \<and>
    length (page_supply s) \<le> length (page_supply s') + 4 \<and>
    tpath (ptm s') r (va_path va 3) = Some b \<and>
    (\<forall>va'. va_path va' 4 \<noteq> va_path va 4 \<longrightarrow> leaf (ptm s') r va' = leaf (ptm s) r va') \<and>
    leaf_after_walk (leaf (ptm s) r va) s (leaf (ptm s') r va) \<and>
    (tpath (ptm s) r (va_path va 3) \<noteq> None \<longrightarrow>
       page_supply s' = (if bit (leaf (ptm s) r va) 0 then page_supply s else tl (page_supply s)) \<and>
       (\<forall>p. tab_path p \<longrightarrow> tpath (ptm s') r p = tpath (ptm s) r p))"
proof -
  have sub: "\<And>x xs. page_supply x = page_supply y \<or> page_supply y = xs # page_supply x \<Longrightarrow>
     length (page_supply y) \<le> Suc (length (page_supply x)) \<and> set (page_supply x) \<subseteq> set (page_supply y)" for y
    by (auto)
  have ne: "4 \<le> length xs + k \<Longrightarrow> k < 4 \<Longrightarrow> xs \<noteq> []" for xs :: "u64 list" and k by auto
  obtain n1 e1 s1 where w1: "get_next_ptp r 0 va True s = Inr (NORMAL_PTP, n1, e1, s1)" "pt_ok (ptm s1) r"
    "page_supply_ok s1" "tpath (ptm s1) r (va_path va (Suc 0)) = Some n1"
    "\<forall>va'. leaf (ptm s1) r va' = leaf (ptm s) r va'"
    "page_supply s1 = page_supply s \<or> page_supply s = n1 # page_supply s1"
    "tpath (ptm s) r (va_path va (Suc 0)) \<noteq> None \<longrightarrow> s1 = s"
    using next_alloc [OF ok sup(1), of 0 va r] ne [of "page_supply s" 0] sup(2) by auto
  note l1 = sub [OF w1(6)]
  obtain n2 e2 s2 where w2: "get_next_ptp n1 1 va True s1 = Inr (NORMAL_PTP, n2, e2, s2)" "pt_ok (ptm s2) r"
    "page_supply_ok s2" "tpath (ptm s2) r (va_path va (Suc 1)) = Some n2"
    "\<forall>va'. leaf (ptm s2) r va' = leaf (ptm s1) r va'"
    "page_supply s2 = page_supply s1 \<or> page_supply s1 = n2 # page_supply s2"
    "tpath (ptm s1) r (va_path va (Suc 1)) \<noteq> None \<longrightarrow> s2 = s1"
    using next_alloc [OF w1(2,3), of 1 va n1] ne [of "page_supply s1" 1] w1(4) l1 sup(2) by auto
  note l2 = sub [OF w2(6)]
  obtain n3 e3 s3 where w3: "get_next_ptp n2 2 va True s2 = Inr (NORMAL_PTP, n3, e3, s3)" "pt_ok (ptm s3) r"
    "page_supply_ok s3" "tpath (ptm s3) r (va_path va (Suc 2)) = Some n3"
    "\<forall>va'. leaf (ptm s3) r va' = leaf (ptm s2) r va'"
    "page_supply s3 = page_supply s2 \<or> page_supply s2 = n3 # page_supply s3"
    "tpath (ptm s2) r (va_path va (Suc 2)) \<noteq> None \<longrightarrow> s3 = s2"
    using next_alloc [OF w2(2,3), of 2 va n2] ne [of "page_supply s2" 2] w2(4) l1 l2 sup(2)
    by (auto simp: numeral_2_eq_2)
  note l3 = sub [OF w3(6)]
  have t3: "tpath (ptm s3) r (va_path va 3) = Some n3" using w3(4) by (simp add: numeral_3_eq_3 numeral_2_eq_2)
  obtain x n4 s4 where w4: "get_next_ptp n3 3 va True s3 = Inr (x, n4, (n3, GET_INDEX 3 va), s4)" "x \<ge> 0"
    "pt_ok (ptm s4) r" "page_supply_ok s4" "tpath (ptm s4) r (va_path va 3) = Some n3"
    "\<forall>va'. va_path va' 4 \<noteq> va_path va 4 \<longrightarrow> leaf (ptm s4) r va' = leaf (ptm s3) r va'"
    "leaf_after_walk (leaf (ptm s3) r va) s3 (leaf (ptm s4) r va)"
    "page_supply s4 = (if bit (leaf (ptm s3) r va) 0 then page_supply s3 else tl (page_supply s3))"
    "\<forall>p. tab_path p \<longrightarrow> tpath (ptm s4) r p = tpath (ptm s3) r p"
    using next_alloc_leaf [OF w3(2,3) _ t3] ne [of "page_supply s3" 3] l1 l2 l3 sup(2) by auto
  have run: "walk_alloc r va s = Inr (0, (n3, GET_INDEX 3 va), s4)"
    using w1(1) w2(1) w3(1) w4(1,2) by (simp add: walk_alloc_def NORMAL_PTP_def)
  have lf: "leaf (ptm s3) r va' = leaf (ptm s) r va'" for va' using w1(5) w2(5) w3(5) by simp
  have ss: "set (page_supply s3) \<subseteq> set (page_supply s)" using l1 l2 l3 by auto
  have "leaf_after_walk (leaf (ptm s) r va) s (leaf (ptm s4) r va)"
    using w4(7) ss lf unfolding leaf_after_walk_def by (auto split: if_splits)
  moreover have "length (page_supply s) \<le> length (page_supply s4) + 4"
    using w4(8) l1 l2 l3 by (auto split: if_splits)
  moreover have "s3 = s" if "tpath (ptm s) r (va_path va 3) \<noteq> None"
  proof -
    have "va_path va 3 = va_path va (Suc 0) @ [GET_INDEX 1 va, GET_INDEX 2 va]"
      "va_path va 3 = va_path va (Suc 1) @ [GET_INDEX 2 va]" "va_path va 3 = va_path va (Suc 2)"
      by (simp_all add: va_path_def numeral_3_eq_3 numeral_2_eq_2)
    then have "tpath (ptm s) r (va_path va (Suc 0)) \<noteq> None" "tpath (ptm s) r (va_path va (Suc 1)) \<noteq> None"
        "tpath (ptm s) r (va_path va (Suc 2)) \<noteq> None"
      using that by (metis option.simps(4) tpath_append)+
    then show ?thesis using w1(7) w2(7) w3(7) by simp
  qed
  ultimately show ?thesis using run w4 lf by auto
qed


lemma upd_leaf:
  assumes ok: "pt_ok (ptm s) r" and sup: "page_supply_ok s" and b: "tpath (ptm s) r (va_path va 3) = Some b"
  shows "\<exists>s'. upd_pte (b, GET_INDEX 3 va) f s = Inr s' \<and> pt_ok (ptm s') r \<and> page_supply_ok s' \<and>
    page_supply s' = page_supply s \<and> tpath (ptm s') r (va_path va 3) = Some b \<and>
    (\<forall>p. tab_path p \<longrightarrow> tpath (ptm s') r p = tpath (ptm s) r p) \<and>
    (\<forall>va'. leaf (ptm s') r va' = (if va_path va' 4 = va_path va 4 then f (leaf (ptm s) r va) else leaf (ptm s) r va'))"
proof -
  let ?k = "GET_INDEX 3 va" and ?p = "va_path va 3" and ?m = "ptm s"
  have tp: "tab_path ?p" by (rule va_path_tab) simp
  obtain ws where ws: "?m b = Some ws" "length ws = 512"
    using pt_okD [OF ok tp b] by auto
  have e: "leaf ?m r va = ws ! ?k" using b ws by (simp add: leaf_def pent_def)
  define s' where "s' = s\<lparr>ptm := (?m)(b \<mapsto> ws[?k := f (ws ! ?k)])\<rparr>"
  have run: "upd_pte (b, ?k) f s = Inr s'" using ws by (simp add: upd_pte_def rd_pte_def wr_pte_def s'_def)
  have up: "ptm s' b = Some (ws[?k := f (ws ! ?k)])" "\<And>d. d \<noteq> b \<Longrightarrow> ?m d \<noteq> None \<Longrightarrow> ptm s' d = ?m d"
    by (auto simp: s'_def)
  have l3: "length ?p < 3 \<Longrightarrow> P" for P by simp
  have "pt_ok (ptm s') r"
    by (rule pt_ok_update [OF ok tp GET_INDEX_bound b ws(1) up l3])
  moreover have tps: "tpath (ptm s') r p = tpath ?m r p" if "tab_path p" for p
    using tpath_update [OF ok tp GET_INDEX_bound b ws(1) up l3 that, of 0] that by (auto simp: tab_path_snoc)
  moreover have "tpath (ptm s') r ?p = Some b" using tps [OF tp] b by simp
  moreover have "leaf (ptm s') r va' = (if va_path va' 4 = va_path va 4 then f (leaf ?m r va) else leaf ?m r va')" for va'
    using pent_update [OF ok tp GET_INDEX_bound b ws(1) up l3 va_path_tab GET_INDEX_bound, of 3 va' 3 va']
    by (simp add: leaf_def va_path_4 e [unfolded leaf_def])
  moreover have "page_supply_ok s'" using sup ws by (auto simp: page_supply_ok_def s'_def)
  ultimately show ?thesis using run by (auto simp: s'_def)
qed

definition mapped_pte :: "u64 \<Rightarrow> u64 \<Rightarrow> u64 \<Rightarrow> u64" where
  "mapped_pte flags pa e = l3_set_pfn (drop_bit PAGE_SHIFT pa) (set_pte_flags flags USER_PTE e)"

lemma leaf_after_walk_valid: "leaf_after_walk e s e' \<Longrightarrow> bit e' 0"
  by (auto simp: leaf_after_walk_def table_pte_bits split: if_splits)

lemma mapped_pte_valid [simp]: "bit (mapped_pte flags pa e) 0 = bit e 0"
  by (simp add: mapped_pte_def set_pte_flags_def field_defs Let_def)

lemma mapped_pte_paddr:
  assumes "4096 dvd unat pa" "unat pa < 2 ^ 48"
  shows "GET_PADDR_IN_PTE (mapped_pte flags pa e) = pa"
proof (rule bit_word_eqI)
  fix n assume n: "n < LENGTH(64)"
  have lo: "\<not> bit pa n" if "n < 12"
  proof -
    obtain t where t: "unat pa = 4096 * t" using assms(1) by blast
    have "bit (unat pa) n \<longleftrightarrow> bit (push_bit 12 t) n" using t by (simp add: push_bit_eq_mult mult.commute)
    then show ?thesis using that by (simp add: bit_unsigned_iff bit_push_bit_iff)
  qed
  have hi: "\<not> bit pa n" if "48 \<le> n"
  proof -
    have "unat pa < 2 ^ n" using assms(2) that by (meson less_le_trans one_le_numeral power_increasing)
    then have "\<not> bit (unat pa) n" by (simp add: bit_iff_odd)
    then show ?thesis using n by (simp add: bit_unsigned_iff)
  qed
  show "bit (GET_PADDR_IN_PTE (mapped_pte flags pa e)) n = bit pa n"
  proof (cases "12 \<le> n \<and> n < 48")
    case True
    then show ?thesis using n
      by (auto simp: GET_PADDR_IN_PTE_def PAGE_SHIFT_def bit_push_bit_iff mapped_pte_def l3_set_pfn_def bit_drop_bit_eq)
  next
    case False
    then have "\<not> bit pa n" using lo hi by (cases "n < 12") auto
    then show ?thesis using n False
      by (auto simp: GET_PADDR_IN_PTE_def PAGE_SHIFT_def bit_push_bit_iff)
  qed
qed

lemma map_pages_spec:
  "pt_ok (ptm s) r \<Longrightarrow> page_supply_ok s \<Longrightarrow> 4 * n \<le> length (page_supply s) \<Longrightarrow>
   \<exists>s'. map_pages n r va pa flags s = Inr (0, s') \<and> pt_ok (ptm s') r \<and> page_supply_ok s' \<and>
     (\<forall>va'. (\<forall>i < n. va_path va' 4 \<noteq> va_path (va + of_nat i * PAGE_SIZE) 4) \<longrightarrow> leaf (ptm s') r va' = leaf (ptm s) r va') \<and>
     (\<forall>va'. (\<exists>i < n. va_path va' 4 = va_path (va + of_nat i * PAGE_SIZE) 4) \<longrightarrow>
        (\<exists>i < n. va_path va' 4 = va_path (va + of_nat i * PAGE_SIZE) 4 \<and>
          (\<exists>e. bit e 0 \<and> leaf (ptm s') r va' = mapped_pte flags (pa + of_nat i * PAGE_SIZE) e)))"
proof (induction n arbitrary: va pa s)
  case (Suc n)
  have leaf_alias: "va_path v 4 = va_path w 4 \<Longrightarrow> leaf m r v = leaf m r w" for v w m
    by (simp add: va_path_4 leaf_def)
  obtain b s1 where s1: "walk_alloc r va s = Inr (0, (b, GET_INDEX 3 va), s1)" "pt_ok (ptm s1) r" "page_supply_ok s1"
    "length (page_supply s) \<le> length (page_supply s1) + 4" "tpath (ptm s1) r (va_path va 3) = Some b"
    "\<forall>va'. va_path va' 4 \<noteq> va_path va 4 \<longrightarrow> leaf (ptm s1) r va' = leaf (ptm s) r va'"
    "leaf_after_walk (leaf (ptm s) r va) s (leaf (ptm s1) r va)"
    using walk_alloc_spec [OF Suc.prems(1,2), of va] Suc.prems(3) by force
  obtain s2 where s2: "upd_pte (b, GET_INDEX 3 va) (set_pte_flags flags USER_PTE) s1 = Inr s2" "pt_ok (ptm s2) r"
    "page_supply_ok s2" "page_supply s2 = page_supply s1" "tpath (ptm s2) r (va_path va 3) = Some b"
    "\<forall>va'. leaf (ptm s2) r va' = (if va_path va' 4 = va_path va 4
       then set_pte_flags flags USER_PTE (leaf (ptm s1) r va) else leaf (ptm s1) r va')"
    using upd_leaf [OF s1(2,3,5)] by blast
  obtain s3 where s3: "upd_pte (b, GET_INDEX 3 va) (l3_set_pfn (drop_bit PAGE_SHIFT pa)) s2 = Inr s3" "pt_ok (ptm s3) r"
    "page_supply_ok s3" "page_supply s3 = page_supply s2"
    "\<forall>va'. leaf (ptm s3) r va' = (if va_path va' 4 = va_path va 4
       then l3_set_pfn (drop_bit PAGE_SHIFT pa) (leaf (ptm s2) r va) else leaf (ptm s2) r va')"
    using upd_leaf [OF s2(2,3,5)] by blast
  have lf3: "leaf (ptm s3) r va' = (if va_path va' 4 = va_path va 4
       then mapped_pte flags pa (leaf (ptm s1) r va) else leaf (ptm s) r va')" for va'
    using s3(5) s2(6) s1(6) by (simp add: mapped_pte_def)
  have "4 * n \<le> length (page_supply s3)" using Suc.prems(3) s1(4) s2(4) s3(4) by simp
  from Suc.IH [OF s3(2,3) this, of "va + PAGE_SIZE" "pa + PAGE_SIZE"]
  obtain s' where s': "map_pages n r (va + PAGE_SIZE) (pa + PAGE_SIZE) flags s3 = Inr (0, s')" "pt_ok (ptm s') r" "page_supply_ok s'"
     "\<And>va'. (\<forall>i < n. va_path va' 4 \<noteq> va_path (va + PAGE_SIZE + of_nat i * PAGE_SIZE) 4) \<Longrightarrow> leaf (ptm s') r va' = leaf (ptm s3) r va'"
     "\<And>va'. (\<exists>i < n. va_path va' 4 = va_path (va + PAGE_SIZE + of_nat i * PAGE_SIZE) 4) \<Longrightarrow>
        (\<exists>i < n. va_path va' 4 = va_path (va + PAGE_SIZE + of_nat i * PAGE_SIZE) 4 \<and>
          (\<exists>e. bit e 0 \<and> leaf (ptm s') r va' = mapped_pte flags (pa + PAGE_SIZE + of_nat i * PAGE_SIZE) e))"
    by blast
  have run: "map_pages (Suc n) r va pa flags s = Inr (0, s')"
    using s1(1) s2(1) s3(1) s'(1) by simp
  have sh: "w + PAGE_SIZE + of_nat i * PAGE_SIZE = w + of_nat (Suc i) * PAGE_SIZE" for w i
    by (simp add: algebra_simps)
  note s4 = s'(4) [unfolded sh] and s5 = s'(5) [unfolded sh]
  have z: "w + of_nat 0 * PAGE_SIZE = w" for w by simp
  have A: "leaf (ptm s') r va' = leaf (ptm s) r va'"
    if "\<forall>i < Suc n. va_path va' 4 \<noteq> va_path (va + of_nat i * PAGE_SIZE) 4" for va'
  proof -
    have "va_path va' 4 \<noteq> va_path va 4" using that [rule_format, of 0] by simp
    moreover have "\<forall>i < n. va_path va' 4 \<noteq> va_path (va + of_nat (Suc i) * PAGE_SIZE) 4" using that by blast
    ultimately show ?thesis using s4 lf3 by simp
  qed
  have B: "\<exists>i < Suc n. va_path va' 4 = va_path (va + of_nat i * PAGE_SIZE) 4 \<and>
          (\<exists>e. bit e 0 \<and> leaf (ptm s') r va' = mapped_pte flags (pa + of_nat i * PAGE_SIZE) e)"
    if ex: "\<exists>i < Suc n. va_path va' 4 = va_path (va + of_nat i * PAGE_SIZE) 4" for va'
  proof (cases "\<exists>i < n. va_path va' 4 = va_path (va + of_nat (Suc i) * PAGE_SIZE) 4")
    case True
    then show ?thesis using s5 [OF True] by blast
  next
    case False
    then have "va_path va' 4 = va_path va 4" using ex z by (metis less_Suc_eq_0_disj)
    moreover have "leaf (ptm s') r va' = leaf (ptm s3) r va'" using s4 False by blast
    ultimately show ?thesis using lf3 leaf_after_walk_valid [OF s1(7)] z
      by (intro exI [of _ 0]) auto
  qed
  show ?case using run s'(2,3) A B by blast
qed simp


lemma unmap_pages_spec:
  "pt_ok (ptm s) r \<Longrightarrow> page_supply_ok s \<Longrightarrow> 4 * n \<le> length (page_supply s) \<Longrightarrow>
   \<exists>s'. unmap_pages n r va s = Inr (0, s') \<and> pt_ok (ptm s') r \<and> page_supply_ok s' \<and>
     (\<forall>va'. (\<forall>i < n. va_path va' 4 \<noteq> va_path (va + of_nat i * PAGE_SIZE) 4) \<longrightarrow> leaf (ptm s') r va' = leaf (ptm s) r va') \<and>
     (\<forall>va'. (\<exists>i < n. va_path va' 4 = va_path (va + of_nat i * PAGE_SIZE) 4) \<longrightarrow> \<not> bit (leaf (ptm s') r va') 0)"
proof (induction n arbitrary: va s)
  case (Suc n)
  obtain b s1 where s1: "walk_alloc r va s = Inr (0, (b, GET_INDEX 3 va), s1)" "pt_ok (ptm s1) r" "page_supply_ok s1"
    "length (page_supply s) \<le> length (page_supply s1) + 4" "tpath (ptm s1) r (va_path va 3) = Some b"
    "\<forall>va'. va_path va' 4 \<noteq> va_path va 4 \<longrightarrow> leaf (ptm s1) r va' = leaf (ptm s) r va'"
    using walk_alloc_spec [OF Suc.prems(1,2), of va] Suc.prems(3) by force
  obtain s2 where s2: "upd_pte (b, GET_INDEX 3 va) (set_is_valid 0) s1 = Inr s2" "pt_ok (ptm s2) r"
    "page_supply_ok s2" "page_supply s2 = page_supply s1"
    "\<forall>va'. leaf (ptm s2) r va' = (if va_path va' 4 = va_path va 4
       then set_is_valid 0 (leaf (ptm s1) r va) else leaf (ptm s1) r va')"
    using upd_leaf [OF s1(2,3,5)] by blast
  have "4 * n \<le> length (page_supply s2)" using Suc.prems(3) s1(4) s2(4) by simp
  from Suc.IH [OF s2(2,3) this, of "va + PAGE_SIZE"]
  obtain s' where s': "unmap_pages n r (va + PAGE_SIZE) s2 = Inr (0, s')" "pt_ok (ptm s') r" "page_supply_ok s'"
     "\<And>va'. (\<forall>i < n. va_path va' 4 \<noteq> va_path (va + PAGE_SIZE + of_nat i * PAGE_SIZE) 4) \<Longrightarrow> leaf (ptm s') r va' = leaf (ptm s2) r va'"
     "\<And>va'. (\<exists>i < n. va_path va' 4 = va_path (va + PAGE_SIZE + of_nat i * PAGE_SIZE) 4) \<Longrightarrow> \<not> bit (leaf (ptm s') r va') 0"
    by blast
  have run: "unmap_pages (Suc n) r va s = Inr (0, s')"
    using s1(1) s2(1) s'(1) by simp
  have sh: "w + PAGE_SIZE + of_nat i * PAGE_SIZE = w + of_nat (Suc i) * PAGE_SIZE" for w i
    by (simp add: algebra_simps)
  note s4 = s'(4) [unfolded sh] and s5 = s'(5) [unfolded sh]
  have z: "w + of_nat 0 * PAGE_SIZE = w" for w by simp
  have A: "leaf (ptm s') r va' = leaf (ptm s) r va'"
    if "\<forall>i < Suc n. va_path va' 4 \<noteq> va_path (va + of_nat i * PAGE_SIZE) 4" for va'
  proof -
    have "va_path va' 4 \<noteq> va_path va 4" using that [rule_format, of 0] by simp
    moreover have "\<forall>i < n. va_path va' 4 \<noteq> va_path (va + of_nat (Suc i) * PAGE_SIZE) 4" using that by blast
    ultimately show ?thesis using s4 s2(5) s1(6) by simp
  qed
  have B: "\<not> bit (leaf (ptm s') r va') 0"
    if ex: "\<exists>i < Suc n. va_path va' 4 = va_path (va + of_nat i * PAGE_SIZE) 4" for va'
  proof (cases "\<exists>i < n. va_path va' 4 = va_path (va + of_nat (Suc i) * PAGE_SIZE) 4")
    case True
    then show ?thesis by (rule s5)
  next
    case False
    then have "va_path va' 4 = va_path va 4" using ex z by (metis less_Suc_eq_0_disj)
    moreover have "leaf (ptm s') r va' = leaf (ptm s2) r va'" using s4 False by blast
    ultimately show ?thesis using s2(5) by (simp add: set_is_valid_def)
  qed
  show ?case using run s'(2,3) A B by blast
qed simp

section \<open>Ranges of addresses\<close>

lemma va_path_iff: "va_path va 4 = va_path va' 4 \<longleftrightarrow> drop_bit 12 va AND mask 36 = drop_bit 12 va' AND mask 36"
proof -
  have ix: "GET_INDEX i va = unat (drop_bit (9 * (3 - i)) (drop_bit 12 va AND mask 36) AND mask 9)" if "i < 4" for i va
  proof -
    have "i \<in> {0, 1, 2, 3}" using that by auto
    then have "drop_bit (9 * (3 - i) + 12) va AND mask 9 = drop_bit (9 * (3 - i)) (drop_bit 12 va AND mask 36) AND mask 9"
      by (intro bit_word_eqI) (auto simp: bit_simps ac_simps)
    moreover have "(511 :: u64) = mask 9" by (simp add: mask_eq_exp_minus_1)
    ultimately show ?thesis unfolding GET_INDEX_def PAGE_SHIFT_def by simp
  qed
  show ?thesis
  proof
    assume "drop_bit 12 va AND mask 36 = drop_bit 12 va' AND mask 36"
    then show "va_path va 4 = va_path va' 4" unfolding va_path_def by (intro map_cong) (auto simp: ix)
  next
    assume eq: "va_path va 4 = va_path va' 4"
    have gi: "GET_INDEX i va = GET_INDEX i va'" if "i < 4" for i
      using arg_cong [OF eq, of "\<lambda>xs. xs ! i"] that by (simp add: va_path_def)
    let ?v = "drop_bit 12 va AND mask 36" and ?w = "drop_bit 12 va' AND mask 36"
    show "?v = ?w"
    proof (rule bit_word_eqI)
      fix n assume "n < LENGTH(64)"
      show "bit ?v n = bit ?w n"
      proof (cases "n < 36")
        case False
        then show ?thesis by (simp add: bit_simps)
      next
        case True
        define i where "i = 3 - n div 9"
        have d: "n div 9 \<le> 3" using True by simp
        then have i: "i < 4" "9 * (3 - i) + n mod 9 = n" by (simp_all add: i_def)
        have "drop_bit (9 * (3 - i)) ?v AND mask 9 = drop_bit (9 * (3 - i)) ?w AND mask 9"
          using gi [OF i(1)] ix [OF i(1)] by (simp add: word_unat_eq_iff)
        from arg_cong [OF this, of "\<lambda>x. bit x (n mod 9)"]
        moreover have "n mod 9 < 64" using mod_less_divisor [of 9 n] by linarith
        ultimately have "bit (drop_bit (9 * (3 - i)) ?v) (n mod 9) = bit (drop_bit (9 * (3 - i)) ?w) (n mod 9)"
          by (simp only: bit_and_iff bit_mask_iff) simp
        then show ?thesis unfolding bit_drop_bit_eq comp_def i(2) by simp
      qed
    qed
  qed
qed

lemma va_path_page:
  assumes "unat va < 2 ^ 48" "unat va' < 2 ^ 48"
  shows "va_path va 4 = va_path va' 4 \<longleftrightarrow> unat va div 4096 = unat va' div 4096"
proof -
  have "unat (drop_bit 12 x AND mask 36) = unat x div 4096" if "unat x < 2 ^ 48" for x :: u64
  proof -
    have "unat (drop_bit 12 x AND mask 36) = unat (drop_bit 12 x) mod 2 ^ 36" by (simp add: word_and_mask_unat)
    moreover have "unat (drop_bit 12 x) = unat x div 4096" by (simp add: drop_bit_eq_div unat_div)
    moreover have "unat x div 4096 < 2 ^ 36" using that by (simp add: less_mult_imp_div_less)
    ultimately show ?thesis by simp
  qed
  then show ?thesis using assms by (simp add: va_path_iff word_unat_eq_iff)
qed


lemma page_div_eq: "(a :: nat) div 4096 = q \<longleftrightarrow> 4096 * q \<le> a \<and> a < 4096 * Suc q"
  using div_nat_eqI [of 4096 q a] dividend_less_times_div [of 4096 a] by auto

lemma range_page:
  assumes va: "4096 dvd unat va" "unat va + 4096 * n \<le> 2 ^ 48" and va': "unat va' < 2 ^ 48"
  shows "i < n \<Longrightarrow> unat (va + of_nat i * PAGE_SIZE) = unat va + 4096 * i"
    and "i < n \<Longrightarrow> va_path va' 4 = va_path (va + of_nat i * PAGE_SIZE) 4 \<longleftrightarrow>
      unat va + 4096 * i \<le> unat va' \<and> unat va' < unat va + 4096 * Suc i"
proof -
  assume i: "i < n"
  then have b: "unat va + 4096 * i < 2 ^ 48" using va(2) by simp
  have "unat (of_nat (4096 * i) :: u64) = 4096 * i" using b by (simp only: unat_of_nat) simp
  moreover have "of_nat i * PAGE_SIZE = (of_nat (4096 * i) :: u64)" by simp
  ultimately have m: "unat (of_nat i * PAGE_SIZE) = 4096 * i" by (simp only:)
  show u: "unat (va + of_nat i * PAGE_SIZE) = unat va + 4096 * i"
    using b m by (subst unat_add_lem [THEN iffD1]) auto
  obtain t where t: "unat va = 4096 * t" using va(1) by blast
  have "unat va' div 4096 = t + i \<longleftrightarrow> 4096 * (t + i) \<le> unat va' \<and> unat va' < 4096 * Suc (t + i)"
    by (rule page_div_eq)
  moreover have "(unat va + 4096 * i) div 4096 = t + i" using t by simp
  ultimately show "va_path va' 4 = va_path (va + of_nat i * PAGE_SIZE) 4 \<longleftrightarrow>
      unat va + 4096 * i \<le> unat va' \<and> unat va' < unat va + 4096 * Suc i"
    using va_path_page [of va' "va + of_nat i * PAGE_SIZE"] va' u b t by (simp add: add_ac)
qed

lemma in_range_page:
  assumes "4096 dvd unat va" "unat va + 4096 * n \<le> 2 ^ 48" "unat va' < 2 ^ 48"
  shows "(\<exists>i < n. va_path va' 4 = va_path (va + of_nat i * PAGE_SIZE) 4) \<longleftrightarrow>
    unat va \<le> unat va' \<and> unat va' < unat va + 4096 * n"
proof
  assume "\<exists>i < n. va_path va' 4 = va_path (va + of_nat i * PAGE_SIZE) 4"
  then obtain i where "i < n" "unat va + 4096 * i \<le> unat va'" "unat va' < unat va + 4096 * Suc i"
    using range_page(2) [OF assms] by blast
  moreover from this(1) have "4096 * Suc i \<le> 4096 * n" by simp
  ultimately show "unat va \<le> unat va' \<and> unat va' < unat va + 4096 * n" by linarith
next
  assume r: "unat va \<le> unat va' \<and> unat va' < unat va + 4096 * n"
  define i where "i = (unat va' - unat va) div 4096"
  have "unat va' - unat va = 4096 * i + (unat va' - unat va) mod 4096" "(unat va' - unat va) mod 4096 < 4096"
    by (simp_all add: i_def)
  then have b: "unat va + 4096 * i \<le> unat va' \<and> unat va' < unat va + 4096 * Suc i"
    using r by (simp del: mult_div_mod_eq) linarith
  moreover have "i < n" using b r by simp
  ultimately show "\<exists>i < n. va_path va' 4 = va_path (va + of_nat i * PAGE_SIZE) 4"
    using range_page(2) [OF assms] by blast
qed

section \<open>Properties\<close>

text \<open>What the hardware-independent part of the kernel sees of the tables: \<^verbatim>\<open>query_in_pgtbl\<close>.\<close>

definition translate :: "u64 \<Rightarrow> u64 \<Rightarrow> pt_state \<Rightarrow> u64 option" where
  "translate r va s = (case query_in_pgtbl r va 0 s of Inr (ret, pa, _) \<Rightarrow> if ret = 0 then Some pa else None | _ \<Rightarrow> None)"

lemma translate_leaf: "pt_ok (ptm s) r \<Longrightarrow> translate r va s =
   (let e = leaf (ptm s) r va in if bit e 0 then Some (GET_PADDR_IN_PTE e + GET_VA_OFFSET 3 va) else None)"
  by (simp add: translate_def query_leaf Let_def errno_defs)

lemma va_offset: "GET_VA_OFFSET 3 va = va AND mask 12"
  by (simp add: GET_VA_OFFSET_def PAGE_SHIFT_def mask_eq_exp_minus_1)

lemma round_up_pages:
  "unat len + 4095 < 2 ^ 64 \<Longrightarrow> unat (ROUND_UP len PAGE_SIZE div PAGE_SIZE) = (unat len + 4095) div 4096"
  by (simp add: unat_div page_round_up_unat)

lemma empty_root_ok:
  assumes "m r = Some (replicate 512 0)" "r \<noteq> 0"
  shows "pt_ok m r"
proof -
  have "tpath m r (k # ks) = None" if "k < 512" for k ks using assms that by simp
  then have "tpath m r p = Some b \<Longrightarrow> tab_path p \<Longrightarrow> p = [] \<and> b = r" for p b
    by (cases p) (auto simp: tab_path_def)
  then show ?thesis unfolding pt_ok_def using assms
    by (metis (no_types, lifting) bit_0_eq bot_apply bot_bool_def length_replicate nth_replicate)
qed

definition demo_root :: u64 where "demo_root = 0xFFFFFF0000100000"

definition demo_pt :: pt_state where
  "demo_pt = \<lparr>ptm = [demo_root \<mapsto> replicate 512 0],
     page_supply = [0xFFFFFF0000101000, 0xFFFFFF0000102000, 0xFFFFFF0000103000, 0xFFFFFF0000104000,
       0xFFFFFF0000105000, 0xFFFFFF0000106000, 0xFFFFFF0000107000, 0xFFFFFF0000108000]\<rparr>"

lemma demo_pt_ok: "pt_ok (ptm demo_pt) demo_root"
  by (rule empty_root_ok) (simp_all add: demo_pt_def demo_root_def)

lemma demo_supply_ok: "page_supply_ok demo_pt"
proof -
  have "list_all frame_addr (page_supply demo_pt)" by code_simp
  then show ?thesis by (auto simp: page_supply_ok_def list_all_iff) (auto simp: demo_pt_def demo_root_def)
qed

lemma map_range_translate:
  assumes "pt_ok (ptm s) r" "page_supply_ok s" "unat len + 4095 < 2 ^ 64"
    and n: "n = (unat len + 4095) div 4096" "4 * n \<le> length (page_supply s)"
    and va: "4096 dvd unat va" "unat va + 4096 * n \<le> 2 ^ 48"
    and pa: "4096 dvd unat pa" "unat pa + 4096 * n \<le> 2 ^ 48"
  shows "\<exists>s'. map_range_in_pgtbl r va pa len flags s = Inr (0, s') \<and> pt_ok (ptm s') r \<and> page_supply_ok s' \<and>
    (\<forall>va'. unat va' < 2 ^ 48 \<longrightarrow> translate r va' s' =
       (if unat va \<le> unat va' \<and> unat va' < unat va + 4096 * n then Some (pa + (va' - va)) else translate r va' s))"
proof -
  obtain s' where s': "map_pages n r va pa flags s = Inr (0, s')" "pt_ok (ptm s') r" "page_supply_ok s'"
     "\<And>va'. (\<forall>i < n. va_path va' 4 \<noteq> va_path (va + of_nat i * PAGE_SIZE) 4) \<Longrightarrow> leaf (ptm s') r va' = leaf (ptm s) r va'"
     "\<And>va'. (\<exists>i < n. va_path va' 4 = va_path (va + of_nat i * PAGE_SIZE) 4) \<Longrightarrow>
        (\<exists>i < n. va_path va' 4 = va_path (va + of_nat i * PAGE_SIZE) 4 \<and>
          (\<exists>e. bit e 0 \<and> leaf (ptm s') r va' = mapped_pte flags (pa + of_nat i * PAGE_SIZE) e))"
    using map_pages_spec [OF assms(1,2) n(2), of va pa flags] by blast
  have "translate r va' s' =
       (if unat va \<le> unat va' \<and> unat va' < unat va + 4096 * n then Some (pa + (va' - va)) else translate r va' s)"
    if v: "unat va' < 2 ^ 48" for va'
  proof (cases "\<exists>i < n. va_path va' 4 = va_path (va + of_nat i * PAGE_SIZE) 4")
    case False
    then have eq: "leaf (ptm s') r va' = leaf (ptm s) r va'" using s'(4) by blast
    have "\<not> (unat va \<le> unat va' \<and> unat va' < unat va + 4096 * n)" using in_range_page [OF va v] False by blast
    then show ?thesis
      unfolding translate_leaf [OF s'(2)] translate_leaf [OF assms(1)] eq by (simp only: if_False)
  next
    case True
    from s'(5) [OF True] obtain i e where i: "i < n" "va_path va' 4 = va_path (va + of_nat i * PAGE_SIZE) 4"
      "bit e 0" "leaf (ptm s') r va' = mapped_pte flags (pa + of_nat i * PAGE_SIZE) e" by blast
    have lt: "4096 * i < 4096 * n" using i(1) by simp
    have up: "unat (pa + of_nat i * PAGE_SIZE) = unat pa + 4096 * i" by (rule range_page(1) [OF pa v i(1)])
    have uv: "unat (va + of_nat i * PAGE_SIZE) = unat va + 4096 * i" by (rule range_page(1) [OF va v i(1)])
    have b: "unat va + 4096 * i \<le> unat va'" "unat va' < unat va + 4096 * Suc i"
      using range_page(2) [OF va v i(1)] i(2) by auto
    have al: "4096 dvd unat (pa + of_nat i * PAGE_SIZE)" "unat (pa + of_nat i * PAGE_SIZE) < 2 ^ 48"
      unfolding up using pa lt by (auto intro: dvd_add)
    have off: "va' AND mask 12 = va' - (va + of_nat i * PAGE_SIZE)"
    proof -
      obtain t where t: "unat va = 4096 * t" using va(1) by blast
      have "unat (va' - (va + of_nat i * PAGE_SIZE)) = unat va' - 4096 * (t + i)"
        using b(1) uv t by (subst unat_sub) (auto simp: word_le_nat_alt)
      also have "\<dots> = unat va' mod 4096"
      proof -
        have "unat va' div 4096 = t + i" using b t by (simp add: page_div_eq)
        then show ?thesis by (metis minus_mult_div_eq_mod)
      qed
      finally show ?thesis by (simp add: word_unat_eq_iff word_and_mask_unat)
    qed
    have "translate r va' s' = Some ((pa + of_nat i * PAGE_SIZE) + (va' - (va + of_nat i * PAGE_SIZE)))"
      using translate_leaf [OF s'(2), of va'] i(3,4) mapped_pte_paddr [OF al] by (simp add: va_offset off)
    then show ?thesis using in_range_page [OF va v] True by simp
  qed
  then show ?thesis using s' round_up_pages [OF assms(3)] n(1) by (auto simp: map_range_in_pgtbl_def)
qed

text \<open>
  The entry that a translation ends in, and what the processor reads in it: bits 6 and 7 (access from
  user mode, read only), 53 and 54 (no execution in kernel and user mode), 10 (accessed), the
  shareability in bits 8 and 9 and the memory type in bits 2 to 4.
\<close>

definition leaf_entry :: "u64 \<Rightarrow> u64 \<Rightarrow> pt_state \<Rightarrow> u64 option" where
  "leaf_entry r va s = (case query_in_pgtbl r va 0 s of
     Inr (ret, _, pte) \<Rightarrow> if ret = 0 then (case rd_pte pte s of Inr e \<Rightarrow> Some e | Inl _ \<Rightarrow> None) else None
   | Inl _ \<Rightarrow> None)"

definition user_page :: "bool \<Rightarrow> bool \<Rightarrow> u64 \<Rightarrow> bool" where
  "user_page writable executable e \<longleftrightarrow> bit e 6 \<and> (bit e 7 \<longleftrightarrow> \<not> writable) \<and> (bit e 54 \<longleftrightarrow> \<not> executable) \<and> bit e 53 \<and>
     bit e 10 \<and> bit e 9 \<and> bit e 8 \<and> bit e 4 \<and> \<not> bit e 3 \<and> \<not> bit e 2"

lemma leaf_entry_leaf:
  assumes "pt_ok (ptm s) r"
  shows "leaf_entry r va s = (let e = leaf (ptm s) r va in if bit e 0 then Some e else None)"
proof (cases "bit (leaf (ptm s) r va) 0")
  case True
  then have "leaf (ptm s) r va \<noteq> 0" by auto
  then obtain b ws where b: "tpath (ptm s) r (va_path va 3) = Some b" "ptm s b = Some ws" "leaf (ptm s) r va = ws ! GET_INDEX 3 va"
    by (auto simp: leaf_def pent_def split: option.splits)
  moreover have "length ws = 512" using pt_okD(2) [OF assms va_path_tab b(1)] b(2) by auto
  ultimately have "rd_pte (the (tpath (ptm s) r (va_path va 3)), GET_INDEX 3 va) s = Inr (leaf (ptm s) r va)"
    by (simp add: rd_pte_def)
  then show ?thesis using True by (simp add: leaf_entry_def query_leaf [OF assms] Let_def)
next
  case False
  then show ?thesis by (simp add: leaf_entry_def query_leaf [OF assms] Let_def errno_defs)
qed

lemma mapped_pte_user_page:
  "user_page (flags AND VMR_WRITE \<noteq> 0) (flags AND VMR_EXEC \<noteq> 0) (mapped_pte flags pa e)"
proof -
  have 3: "bit (3 :: u64) i \<longleftrightarrow> i < 2" for i
  proof -
    have "(3 :: u64) = mask 2" by (simp add: mask_eq_exp_minus_1)
    then show ?thesis by (simp only: bit_mask_iff) auto
  qed
  have 4: "bit (4 :: u64) i \<longleftrightarrow> i = 2" for i
  proof -
    have "(4 :: u64) = push_bit 2 1" by code_simp
    then show ?thesis by (simp only: bit_push_bit_iff bit_1_iff) auto
  qed
  show ?thesis
    unfolding user_page_def mapped_pte_def set_pte_flags_def Let_def field_defs
    by (simp add: 3 4 bit_1_iff del: bit_numeral_word_iff)
qed

lemma map_range_entries:
  assumes "pt_ok (ptm s) r" "page_supply_ok s" "unat len + 4095 < 2 ^ 64"
    and n: "n = (unat len + 4095) div 4096" "4 * n \<le> length (page_supply s)"
    and va: "4096 dvd unat va" "unat va + 4096 * n \<le> 2 ^ 48"
  shows "\<exists>s'. map_range_in_pgtbl r va pa len flags s = Inr (0, s') \<and>
    (\<forall>va'. unat va' < 2 ^ 48 \<longrightarrow>
       (if unat va \<le> unat va' \<and> unat va' < unat va + 4096 * n
        then \<exists>e. leaf_entry r va' s' = Some e \<and> user_page (flags AND VMR_WRITE \<noteq> 0) (flags AND VMR_EXEC \<noteq> 0) e
        else leaf_entry r va' s' = leaf_entry r va' s))"
proof -
  obtain s' where s': "map_pages n r va pa flags s = Inr (0, s')" "pt_ok (ptm s') r"
     "\<And>va'. (\<forall>i < n. va_path va' 4 \<noteq> va_path (va + of_nat i * PAGE_SIZE) 4) \<Longrightarrow> leaf (ptm s') r va' = leaf (ptm s) r va'"
     "\<And>va'. (\<exists>i < n. va_path va' 4 = va_path (va + of_nat i * PAGE_SIZE) 4) \<Longrightarrow>
        (\<exists>i < n. va_path va' 4 = va_path (va + of_nat i * PAGE_SIZE) 4 \<and>
          (\<exists>e. bit e 0 \<and> leaf (ptm s') r va' = mapped_pte flags (pa + of_nat i * PAGE_SIZE) e))"
    using map_pages_spec [OF assms(1,2) n(2), of va pa flags] by blast
  note le = leaf_entry_leaf [OF assms(1)] leaf_entry_leaf [OF s'(2)]
  have "if unat va \<le> unat va' \<and> unat va' < unat va + 4096 * n
      then \<exists>e. leaf_entry r va' s' = Some e \<and> user_page (flags AND VMR_WRITE \<noteq> 0) (flags AND VMR_EXEC \<noteq> 0) e
      else leaf_entry r va' s' = leaf_entry r va' s" if v: "unat va' < 2 ^ 48" for va'
  proof (cases "\<exists>i < n. va_path va' 4 = va_path (va + of_nat i * PAGE_SIZE) 4")
    case True
    from s'(4) [OF True] obtain i e where e: "bit e 0" "leaf (ptm s') r va' = mapped_pte flags (pa + of_nat i * PAGE_SIZE) e"
      by blast
    then have "leaf_entry r va' s' = Some (mapped_pte flags (pa + of_nat i * PAGE_SIZE) e)" by (simp add: le)
    then show ?thesis using True mapped_pte_user_page in_range_page [OF va v] by simp
  next
    case False
    then have "leaf (ptm s') r va' = leaf (ptm s) r va'" using s'(3) by blast
    then show ?thesis using False in_range_page [OF va v] unfolding le by (simp only: if_False)
  qed
  then show ?thesis using s'(1) round_up_pages [OF assms(3)] n(1) by (auto simp: map_range_in_pgtbl_def)
qed

text \<open>
  C2: after \<^verbatim>\<open>map_range_in_pgtbl\<close> of a page-aligned range below \<open>2 ^ 48\<close>, every address of the
  range translates to the corresponding physical address, with an entry that lets user mode read, write
  exactly with \<^verbatim>\<open>VMR_WRITE\<close> and execute exactly with \<^verbatim>\<open>VMR_EXEC\<close>, never lets the
  kernel execute, and is accessed, inner shareable, normal memory. The translation and the entry of every
  other address are what they were, mapped or not. (\<^verbatim>\<open>VMR_READ\<close> is not looked at: a region
  without it can be read.)
\<close>

theorem map_then_query:
  assumes "pt_ok (ptm s) r" "page_supply_ok s" "unat len + 4095 < 2 ^ 64"
    and n: "n = (unat len + 4095) div 4096" "4 * n \<le> length (page_supply s)"
    and va: "4096 dvd unat va" "unat va + 4096 * n \<le> 2 ^ 48"
    and pa: "4096 dvd unat pa" "unat pa + 4096 * n \<le> 2 ^ 48"
  shows "\<exists>s'. map_range_in_pgtbl r va pa len flags s = Inr (0, s') \<and> pt_ok (ptm s') r \<and> page_supply_ok s' \<and>
    (\<forall>va'. unat va' < 2 ^ 48 \<longrightarrow>
       (if unat va \<le> unat va' \<and> unat va' < unat va + 4096 * n
        then translate r va' s' = Some (pa + (va' - va)) \<and>
          (\<exists>e. leaf_entry r va' s' = Some e \<and> user_page (flags AND VMR_WRITE \<noteq> 0) (flags AND VMR_EXEC \<noteq> 0) e)
        else translate r va' s' = translate r va' s \<and> leaf_entry r va' s' = leaf_entry r va' s))"
  using map_range_translate [OF assms, of flags] map_range_entries [OF assms(1-7), of pa flags] by auto

theorem map_then_query_witness:
  "\<exists>s'. map_range_in_pgtbl demo_root 0x400000 0x3000000 0x1800 VMR_WRITE demo_pt = Inr (0, s') \<and>
    pt_ok (ptm s') demo_root \<and> page_supply_ok s' \<and>
    (\<forall>va'. unat va' < 2 ^ 48 \<longrightarrow>
       (if unat (0x400000 :: u64) \<le> unat va' \<and> unat va' < unat (0x400000 :: u64) + 4096 * 2
        then translate demo_root va' s' = Some (0x3000000 + (va' - 0x400000)) \<and>
          (\<exists>e. leaf_entry demo_root va' s' = Some e \<and> user_page (VMR_WRITE AND VMR_WRITE \<noteq> 0) (VMR_WRITE AND VMR_EXEC \<noteq> 0) e)
        else translate demo_root va' s' = translate demo_root va' demo_pt \<and>
          leaf_entry demo_root va' s' = leaf_entry demo_root va' demo_pt))"
  by (rule map_then_query [OF demo_pt_ok demo_supply_ok]) (simp_all add: demo_pt_def)

lemma unmap_range_translate:
  assumes "pt_ok (ptm s) r" "page_supply_ok s" "unat len + 4095 < 2 ^ 64"
    and n: "n = (unat len + 4095) div 4096" "4 * n \<le> length (page_supply s)"
    and va: "4096 dvd unat va" "unat va + 4096 * n \<le> 2 ^ 48"
  shows "\<exists>s'. unmap_range_in_pgtbl r va len s = Inr (0, s') \<and> pt_ok (ptm s') r \<and> page_supply_ok s' \<and>
    (\<forall>va'. unat va' < 2 ^ 48 \<longrightarrow> translate r va' s' =
       (if unat va \<le> unat va' \<and> unat va' < unat va + 4096 * n then None else translate r va' s))"
proof -
  obtain s' where s': "unmap_pages n r va s = Inr (0, s')" "pt_ok (ptm s') r" "page_supply_ok s'"
     "\<And>va'. (\<forall>i < n. va_path va' 4 \<noteq> va_path (va + of_nat i * PAGE_SIZE) 4) \<Longrightarrow> leaf (ptm s') r va' = leaf (ptm s) r va'"
     "\<And>va'. (\<exists>i < n. va_path va' 4 = va_path (va + of_nat i * PAGE_SIZE) 4) \<Longrightarrow> \<not> bit (leaf (ptm s') r va') 0"
    using unmap_pages_spec [OF assms(1,2) n(2), of va] by blast
  have "translate r va' s' =
       (if unat va \<le> unat va' \<and> unat va' < unat va + 4096 * n then None else translate r va' s)"
    if v: "unat va' < 2 ^ 48" for va'
  proof (cases "\<exists>i < n. va_path va' 4 = va_path (va + of_nat i * PAGE_SIZE) 4")
    case False
    then have eq: "leaf (ptm s') r va' = leaf (ptm s) r va'" using s'(4) by blast
    have "\<not> (unat va \<le> unat va' \<and> unat va' < unat va + 4096 * n)" using in_range_page [OF va v] False by blast
    then show ?thesis
      unfolding translate_leaf [OF s'(2)] translate_leaf [OF assms(1)] eq by (simp only: if_False)
  next
    case True
    then show ?thesis
      using translate_leaf [OF s'(2), of va'] s'(5) [OF True] in_range_page [OF va v] by simp
  qed
  then show ?thesis using s' round_up_pages [OF assms(3)] n(1) by (auto simp: unmap_range_in_pgtbl_def)
qed

text \<open>
  C22: after \<^verbatim>\<open>unmap_range_in_pgtbl\<close> no address of the range translates, and all other
  addresses translate as before.
\<close>

theorem unmap_then_query:
  assumes "pt_ok (ptm s) r" "page_supply_ok s" "unat len + 4095 < 2 ^ 64"
    and n: "n = (unat len + 4095) div 4096" "4 * n \<le> length (page_supply s)"
    and va: "4096 dvd unat va" "unat va + 4096 * n \<le> 2 ^ 48"
  shows "\<exists>s'. unmap_range_in_pgtbl r va len s = Inr (0, s') \<and> pt_ok (ptm s') r \<and> page_supply_ok s' \<and>
    (\<forall>va'. unat va' < 2 ^ 48 \<longrightarrow> translate r va' s' =
       (if unat va \<le> unat va' \<and> unat va' < unat va + 4096 * n then None else translate r va' s))"
  by (rule unmap_range_translate [OF assms])

theorem unmap_then_query_witness:
  "\<exists>s'. unmap_range_in_pgtbl demo_root 0x400000 0x1800 demo_pt = Inr (0, s') \<and>
    pt_ok (ptm s') demo_root \<and> page_supply_ok s' \<and>
    (\<forall>va'. unat va' < 2 ^ 48 \<longrightarrow> translate demo_root va' s' =
       (if unat (0x400000 :: u64) \<le> unat va' \<and> unat va' < unat (0x400000 :: u64) + 4096 * 2
        then None else translate demo_root va' demo_pt))"
  by (rule unmap_then_query [OF demo_pt_ok demo_supply_ok]) (simp_all add: demo_pt_def)

text \<open>
  Both operations lose a page of memory on every page that is not mapped yet. The last
  \<^verbatim>\<open>get_next_ptp\<close> of the loops, on level 3 and with \<^verbatim>\<open>alloc = true\<close>, takes a page from
  the allocator; the entry that points to it is then overwritten, and the tables reachable from the
  root are the same as before. The unmap of an address that was never mapped loses one as well.
\<close>

theorem level3_walk_leaks:
  assumes "pt_ok (ptm s) r" "page_supply_ok s" "4 \<le> length (page_supply s)"
    and tab: "tpath (ptm s) r (va_path va 3) \<noteq> None" and inv: "\<not> bit (leaf (ptm s) r va) 0"
  shows "(\<exists>s'. map_pages 1 r va pa flags s = Inr (0, s') \<and> page_supply s' = tl (page_supply s) \<and>
      (\<forall>p. tab_path p \<longrightarrow> tpath (ptm s') r p = tpath (ptm s) r p)) \<and>
    (\<exists>s'. unmap_pages 1 r va s = Inr (0, s') \<and> page_supply s' = tl (page_supply s) \<and>
      (\<forall>p. tab_path p \<longrightarrow> tpath (ptm s') r p = tpath (ptm s) r p))"
proof -
  obtain b s1 where s1: "walk_alloc r va s = Inr (0, (b, GET_INDEX 3 va), s1)" "pt_ok (ptm s1) r" "page_supply_ok s1"
    "tpath (ptm s1) r (va_path va 3) = Some b" "page_supply s1 = tl (page_supply s)"
    "\<forall>p. tab_path p \<longrightarrow> tpath (ptm s1) r p = tpath (ptm s) r p"
    using walk_alloc_spec [OF assms(1-3), of va] tab inv by auto
  obtain s2 where s2: "upd_pte (b, GET_INDEX 3 va) (set_pte_flags flags USER_PTE) s1 = Inr s2" "pt_ok (ptm s2) r"
    "page_supply_ok s2" "page_supply s2 = page_supply s1" "tpath (ptm s2) r (va_path va 3) = Some b"
    "\<forall>p. tab_path p \<longrightarrow> tpath (ptm s2) r p = tpath (ptm s1) r p"
    using upd_leaf [OF s1(2-4)] by blast
  obtain s3 where s3: "upd_pte (b, GET_INDEX 3 va) (l3_set_pfn (drop_bit PAGE_SHIFT pa)) s2 = Inr s3"
    "page_supply s3 = page_supply s2" "\<forall>p. tab_path p \<longrightarrow> tpath (ptm s3) r p = tpath (ptm s2) r p"
    using upd_leaf [OF s2(2,3,5)] by blast
  obtain s4 where s4: "upd_pte (b, GET_INDEX 3 va) (set_is_valid 0) s1 = Inr s4"
    "page_supply s4 = page_supply s1" "\<forall>p. tab_path p \<longrightarrow> tpath (ptm s4) r p = tpath (ptm s1) r p"
    using upd_leaf [OF s1(2-4)] by blast
  show ?thesis using s1 s2 s3 s4 by simp
qed

lemma demo_walked:
  "\<exists>b s1. walk_alloc demo_root 0x400000 demo_pt = Inr (0, b, s1) \<and> pt_ok (ptm s1) demo_root \<and> page_supply_ok s1 \<and>
    4 \<le> length (page_supply s1) \<and> tpath (ptm s1) demo_root (va_path 0x401000 3) \<noteq> None \<and>
    \<not> bit (leaf (ptm s1) demo_root 0x401000) 0"
proof -
  obtain b s1 where s1: "walk_alloc demo_root 0x400000 demo_pt = Inr (0, (b, GET_INDEX 3 0x400000), s1)"
    "pt_ok (ptm s1) demo_root" "page_supply_ok s1" "length (page_supply demo_pt) \<le> length (page_supply s1) + 4"
    "tpath (ptm s1) demo_root (va_path 0x400000 3) = Some b"
    "\<forall>va'. va_path va' 4 \<noteq> va_path 0x400000 4 \<longrightarrow> leaf (ptm s1) demo_root va' = leaf (ptm demo_pt) demo_root va'"
    using walk_alloc_spec [OF demo_pt_ok demo_supply_ok, of "0x400000"] by (auto simp: demo_pt_def)
  have "va_path 0x401000 3 = va_path 0x400000 3" by code_simp
  moreover have "va_path 0x401000 4 \<noteq> va_path 0x400000 4" by (simp add: va_path_page)
  moreover have "leaf (ptm demo_pt) demo_root 0x401000 = 0"
  proof -
    have "va_path 0x401000 3 = [0, 0, 2]" by code_simp
    then show ?thesis by (simp add: leaf_def pent_def demo_pt_def)
  qed
  ultimately show ?thesis using s1 by (auto simp: demo_pt_def)
qed

theorem level3_walk_leaks_witness:
  "\<exists>b s. walk_alloc demo_root 0x400000 demo_pt = Inr (0, b, s) \<and>
    (\<exists>s'. map_pages 1 demo_root 0x401000 0x3000000 0 s = Inr (0, s') \<and> page_supply s' = tl (page_supply s) \<and>
      (\<forall>p. tab_path p \<longrightarrow> tpath (ptm s') demo_root p = tpath (ptm s) demo_root p)) \<and>
    (\<exists>s'. unmap_pages 1 demo_root 0x401000 s = Inr (0, s') \<and> page_supply s' = tl (page_supply s) \<and>
      (\<forall>p. tab_path p \<longrightarrow> tpath (ptm s') demo_root p = tpath (ptm s) demo_root p))"
  using demo_walked level3_walk_leaks by blast

text \<open>
  The protection fields of a user mapping follow the region flags: writable exactly with
  \<^verbatim>\<open>VMR_WRITE\<close>, executable in user mode exactly with \<^verbatim>\<open>VMR_EXEC\<close>, never executable by the
  kernel, accessed, inner shareable, normal memory; valid bit, type and frame number are untouched.
\<close>

theorem set_pte_flags_fields:
  "get_field 6 2 (set_pte_flags flags USER_PTE e) = (if flags AND VMR_WRITE \<noteq> 0 then 1 else 3) \<and>
   get_field 54 1 (set_pte_flags flags USER_PTE e) = (if flags AND VMR_EXEC \<noteq> 0 then 0 else 1) \<and>
   get_field 53 1 (set_pte_flags flags USER_PTE e) = 1 \<and> get_field 10 1 (set_pte_flags flags USER_PTE e) = 1 \<and>
   get_field 8 2 (set_pte_flags flags USER_PTE e) = 3 \<and> get_field 2 3 (set_pte_flags flags USER_PTE e) = 4 \<and>
   get_field 0 2 (set_pte_flags flags USER_PTE e) = get_field 0 2 e \<and>
   get_field 12 36 (set_pte_flags flags USER_PTE e) = get_field 12 36 e"
proof -
  have same: "get_field lo len (put_field lo len v w) = v AND mask len" if "lo + len \<le> 64" for lo len v w
    using that by (intro bit_word_eqI) (auto simp: bit_simps)
  have other: "get_field lo len (put_field lo' len' v w) = get_field lo len w"
    if "lo + len \<le> lo' \<or> lo' + len' \<le> lo" "lo + len \<le> 64" for lo len lo' len' v w
    using that by (intro bit_word_eqI) auto
  have m: "mask 2 = (3 :: u64)" "mask 3 = (7 :: u64)" by (simp_all add: mask_eq_exp_minus_1)
  show ?thesis
    by (simp add: set_pte_flags_def Let_def field_defs same other m)
qed

text \<open>
  \<^verbatim>\<open>map_kernel_space\<close> does not mark its 2M blocks as not executable in user mode. The
  code sets the field \<^verbatim>\<open>l2_block.UXN\<close>, but the structure has one reserved bit too many, so
  bit 55 (software use) is set, and bit 54, which the hardware reads, keeps its old value.
\<close>

theorem kernel_block_not_uxn:
  "bit (kernel_block_pte pa e) 54 = bit e 54 \<and> bit (kernel_block_pte pa e) 55 \<and>
   get_field 0 2 (kernel_block_pte pa e) = 1 \<and> get_field 21 27 (kernel_block_pte pa e) = drop_bit 21 pa AND mask 27"
proof -
  have "get_field 0 2 (kernel_block_pte pa e) = 1"
    by (intro bit_word_eqI) (auto simp: kernel_block_pte_def field_defs bit_simps less_Suc_eq numeral_2_eq_2)
  moreover have "get_field 21 27 (kernel_block_pte pa e) = drop_bit 21 pa AND mask 27"
    by (intro bit_word_eqI) (auto simp: kernel_block_pte_def l2_set_pfn_def bit_simps)
  ultimately show ?thesis by (simp add: kernel_block_pte_def field_defs)
qed

end
