(* ===== verification/Vmspace.thy ===== *)
theory Vmspace
  imports PageTable Radix
begin

text \<open>
  Address spaces: the region lists of \<^verbatim>\<open>kernel/mm/vmregion.c\<close>, the page-fault handler of
  \<^verbatim>\<open>exception/pgfault.c\<close> and the heap part of \<^verbatim>\<open>sys_handle_brk\<close>
  (\<^verbatim>\<open>mm/vm_syscall.c\<close>). Regions and memory objects live in maps from identifiers (their
  addresses); a region that was freed is no longer in its map. The identifiers that
  \<^verbatim>\<open>kmalloc\<close> will return for new regions are given as a list, at whose end the call fails.
\<close>

type_synonym vmr_id = nat
type_synonym pmo_id = nat

record vmregion =
  vr_start :: u64
  vr_size :: u64
  vr_perm :: u64
  vr_pmo :: pmo_id

record pmobject =
  pmo_radix :: "radix option"
  pmo_start :: u64
  pmo_size :: u64
  pmo_type :: u64

record vmspace =
  vmr_list :: "vmr_id list"
  vs_pgtbl :: u64
  heap_vmr :: "vmr_id option"
  user_current_heap :: u64

record mm_state =
  vmrs :: "vmr_id \<Rightarrow> vmregion option"
  pmos :: "pmo_id \<Rightarrow> pmobject option"
  vmr_supply :: "vmr_id list"
  mm_pt :: pt_state

definition PMO_ANONYM :: u64 where "PMO_ANONYM = 0"
definition PMO_DATA :: u64 where "PMO_DATA = 1"
definition PMO_FILE :: u64 where "PMO_FILE = 2"
definition PMO_SHM :: u64 where "PMO_SHM = 3"
definition PMO_USER_PAGER :: u64 where "PMO_USER_PAGER = 4"
definition PMO_DEVICE :: u64 where "PMO_DEVICE = 5"

lemmas pmo_types = PMO_ANONYM_def PMO_DATA_def PMO_FILE_def PMO_SHM_def PMO_USER_PAGER_def PMO_DEVICE_def

definition HEAP_START :: u64 where "HEAP_START = 0x600000000000"

definition alloc_vmregion :: "mm_state \<Rightarrow> vmr_id option \<times> mm_state" where
  "alloc_vmregion s = (case vmr_supply s of [] \<Rightarrow> (None, s) | i # is \<Rightarrow> (Some i, s\<lparr>vmr_supply := is\<rparr>))"

definition free_vmregion :: "vmr_id \<Rightarrow> mm_state \<Rightarrow> mm_state" where
  "free_vmregion i s = s\<lparr>vmrs := (vmrs s)(i := None)\<rparr>"

text \<open>The loop over the region list with the test of \<^verbatim>\<open>check_vmr_intersect\<close>.\<close>

fun intersect_loop :: "mm_state \<Rightarrow> u64 \<Rightarrow> u64 \<Rightarrow> vmr_id list \<Rightarrow> int res" where
  "intersect_loop s new_start new_end [] = Inr 0"
| "intersect_loop s new_start new_end (i # is) =
     bindR (deref (vmrs s i)) (\<lambda>vmr.
       let start = vr_start vmr; end' = start + vr_size vmr in
       if new_start \<ge> start \<and> new_start < end' \<or> new_end \<ge> start \<and> new_end < end' then Inr 1
       else intersect_loop s new_start new_end is)"

definition check_vmr_intersect :: "vmspace \<Rightarrow> vmregion \<Rightarrow> mm_state \<Rightarrow> int res" where
  "check_vmr_intersect vs vmr_to_add s =
     (let new_start = vr_start vmr_to_add; new_end = new_start + vr_size vmr_to_add - 1 in
      intersect_loop s new_start new_end (vmr_list vs))"

definition is_vmr_in_vmspace :: "vmspace \<Rightarrow> vmr_id \<Rightarrow> bool" where
  "is_vmr_in_vmspace vs i \<longleftrightarrow> list_ex (\<lambda>iter. iter = i) (vmr_list vs)"

definition add_vmr_to_vmspace :: "vmspace \<Rightarrow> vmr_id \<Rightarrow> mm_state \<Rightarrow> (int \<times> vmspace) res" where
  "add_vmr_to_vmspace vs i s =
     bindR (deref (vmrs s i)) (\<lambda>vmr.
     bindR (check_vmr_intersect vs vmr s) (\<lambda>c.
       if c \<noteq> 0 then Inr (- EINVAL, vs)
       else Inr (0, vs\<lparr>vmr_list := i # vmr_list vs\<rparr>)))"

definition del_vmr_from_vmspace :: "vmspace \<Rightarrow> vmr_id \<Rightarrow> mm_state \<Rightarrow> vmspace \<times> mm_state" where
  "del_vmr_from_vmspace vs i s =
     (if is_vmr_in_vmspace vs i then vs\<lparr>vmr_list := remove1 i (vmr_list vs)\<rparr> else vs, free_vmregion i s)"

fun find_loop :: "mm_state \<Rightarrow> u64 \<Rightarrow> vmr_id list \<Rightarrow> vmr_id option res" where
  "find_loop s addr [] = Inr None"
| "find_loop s addr (i # is) =
     bindR (deref (vmrs s i)) (\<lambda>vmr.
       let start = vr_start vmr; end' = start + vr_size vmr in
       if addr \<ge> start \<and> addr < end' then Inr (Some i) else find_loop s addr is)"

definition find_vmr_for_va :: "vmspace \<Rightarrow> u64 \<Rightarrow> mm_state \<Rightarrow> vmr_id option res" where
  "find_vmr_for_va vs addr s = find_loop s addr (vmr_list vs)"

definition fill_page_table :: "vmspace \<Rightarrow> vmr_id \<Rightarrow> mm_state \<Rightarrow> (int \<times> mm_state) res" where
  "fill_page_table vs i s =
     bindR (deref (vmrs s i)) (\<lambda>vmr.
     bindR (deref (pmos s (vr_pmo vmr))) (\<lambda>pmo.
     bindR (map_range_in_pgtbl (vs_pgtbl vs) (vr_start vmr) (pmo_start pmo) (pmo_size pmo) (vr_perm vmr) (mm_pt s))
       (\<lambda>(ret, pt). Inr (ret, s\<lparr>mm_pt := pt\<rparr>))))"

definition vmspace_map_range :: "vmspace \<Rightarrow> u64 \<Rightarrow> u64 \<Rightarrow> u64 \<Rightarrow> pmo_id \<Rightarrow> mm_state \<Rightarrow> (int \<times> vmspace \<times> mm_state) res" where
  "vmspace_map_range vs va len flags pmo s =
     (let va = ROUND_DOWN va PAGE_SIZE;
          len = (if len < PAGE_SIZE then PAGE_SIZE else len) in
      case alloc_vmregion s of
        (None, s) \<Rightarrow> Inr (- ENOMEM, vs, s)
      | (Some vmr, s) \<Rightarrow>
          let s = s\<lparr>vmrs := (vmrs s)(vmr \<mapsto> \<lparr>vr_start = va, vr_size = len, vr_perm = flags, vr_pmo = pmo\<rparr>)\<rparr> in
          bindR (add_vmr_to_vmspace vs vmr s) (\<lambda>(ret, vs).
            if ret < 0 then Inr (ret, vs, free_vmregion vmr s)
            else
              bindR (deref (pmos s pmo)) (\<lambda>p.
              bindR (bug_on (pmo_type p \<noteq> PMO_DATA \<and> pmo_type p \<noteq> PMO_ANONYM \<and>
                             pmo_type p \<noteq> PMO_DEVICE \<and> pmo_type p \<noteq> PMO_SHM)) (\<lambda>_.
              if pmo_type p = PMO_DATA
              then bindR (fill_page_table vs vmr s) (\<lambda>(_, s). Inr (0, vs, s))
              else Inr (0, vs, s)))))"

definition init_heap_vmr :: "vmspace \<Rightarrow> u64 \<Rightarrow> pmo_id \<Rightarrow> mm_state \<Rightarrow> (vmr_id option \<times> vmspace \<times> mm_state) res" where
  "init_heap_vmr vs va pmo s =
     (case alloc_vmregion s of
        (None, s) \<Rightarrow> Inr (None, vs, s)
      | (Some vmr, s) \<Rightarrow>
          let s = s\<lparr>vmrs := (vmrs s)(vmr \<mapsto> \<lparr>vr_start = va, vr_size = 0, vr_perm = VMR_READ OR VMR_WRITE, vr_pmo = pmo\<rparr>)\<rparr> in
          bindR (add_vmr_to_vmspace vs vmr s) (\<lambda>(ret, vs).
            if ret < 0 then Inr (None, vs, free_vmregion vmr s)
            else Inr (Some vmr, vs, s)))"

definition vmspace_unmap_range :: "vmspace \<Rightarrow> u64 \<Rightarrow> u64 \<Rightarrow> mm_state \<Rightarrow> (int \<times> vmspace \<times> mm_state) res" where
  "vmspace_unmap_range vs va len s =
     bindR (find_vmr_for_va vs va s) (\<lambda>r. case r of
       None \<Rightarrow> Inr (- 1, vs, s)
     | Some vmr \<Rightarrow>
         bindR (deref (vmrs s vmr)) (\<lambda>v.
         let start = vr_start v; size = vr_size v in
         bindR (bug_on (va \<noteq> start \<and> len \<noteq> size)) (\<lambda>_.
         let (vs, s) = del_vmr_from_vmspace vs vmr s in
         bindR (unmap_range_in_pgtbl (vs_pgtbl vs) va len (mm_pt s)) (\<lambda>(_, pt).
         Inr (0, vs, s\<lparr>mm_pt := pt\<rparr>)))))"

text \<open>
  A fresh \<^verbatim>\<open>struct vmspace\<close>. Nothing writes its heap pointer: \<open>None\<close> is a pointer that must
  not be followed, and every access through it is \<open>WILD\<close>.
\<close>

definition vmspace_init :: "mm_state \<Rightarrow> (int \<times> vmspace \<times> mm_state) res" where
  "vmspace_init s =
     bindR (get_page_0 (mm_pt s)) (\<lambda>(pgtbl, pt).
      bindR (bug_on (pgtbl = 0)) (\<lambda>_.
      Inr (0, \<lparr>vmr_list = [], vs_pgtbl = pgtbl, heap_vmr = None, user_current_heap = HEAP_START\<rparr>,
        s\<lparr>mm_pt := pt\<lparr>ptm := (ptm pt)(pgtbl \<mapsto> replicate 512 0)\<rparr>\<rparr>)))"

text \<open>
  The loop of \<^verbatim>\<open>destroy_vmspace\<close>. After the body, \<^verbatim>\<open>for_each_in_list\<close> reads
  \<^verbatim>\<open>vmr->node.next\<close>: the region must still be allocated.
\<close>

fun destroy_loop :: "vmr_id list \<Rightarrow> vmspace \<Rightarrow> mm_state \<Rightarrow> (vmspace \<times> mm_state) res" where
  "destroy_loop [] vs s = Inr (vs, s)"
| "destroy_loop (vmr # next) vs s =
     bindR (deref (vmrs s vmr)) (\<lambda>v.
     let start = vr_start v; size = vr_size v;
         (vs, s) = del_vmr_from_vmspace vs vmr s in
     bindR (unmap_range_in_pgtbl (vs_pgtbl vs) start size (mm_pt s)) (\<lambda>(_, pt).
     let s = s\<lparr>mm_pt := pt\<rparr> in
     bindR (deref (vmrs s vmr)) (\<lambda>_. destroy_loop next vs s)))"

definition destroy_vmspace :: "vmspace \<Rightarrow> mm_state \<Rightarrow> (int \<times> mm_state) res" where
  "destroy_vmspace vs s = bindR (destroy_loop (vmr_list vs) vs s) (\<lambda>(_, s). Inr (0, s))"

text \<open>\<open>buf\<close> is what \<^verbatim>\<open>kmalloc(len)\<close> returns, \<open>rad\<close> the initialised radix tree.\<close>

definition pmo_init :: "u64 \<Rightarrow> u64 \<Rightarrow> u64 \<Rightarrow> u64 \<Rightarrow> radix \<Rightarrow> pmobject" where
  "pmo_init type len paddr buf rad =
     (let pmo = \<lparr>pmo_radix = None, pmo_start = 0, pmo_size = 0, pmo_type = 0\<rparr>;
          len = ROUND_UP len PAGE_SIZE;
          pmo = pmo\<lparr>pmo_size := len, pmo_type := type\<rparr> in
      if type = PMO_DATA then pmo\<lparr>pmo_start := virt_to_phys buf\<rparr>
      else if type = PMO_DEVICE then pmo\<lparr>pmo_start := paddr\<rparr>
      else pmo\<lparr>pmo_radix := Some rad\<rparr>)"

definition commit_page_to_pmo :: "pmobject \<Rightarrow> u64 \<Rightarrow> u64 \<Rightarrow> rheap \<Rightarrow> (pmobject \<times> rheap) res" where
  "commit_page_to_pmo pmo index pa h =
     bindR (bug_on (pmo_type pmo \<noteq> PMO_ANONYM)) (\<lambda>_.
     bindR (deref (pmo_radix pmo)) (\<lambda>r.
     bindR (radix_add r index pa h) (\<lambda>(ret, r, h).
     bindR (bug_on (ret \<noteq> 0)) (\<lambda>_. Inr (pmo\<lparr>pmo_radix := Some r\<rparr>, h)))))"

definition get_page_from_pmo :: "pmobject \<Rightarrow> u64 \<Rightarrow> rheap \<Rightarrow> u64 res" where
  "get_page_from_pmo pmo index h = bindR (deref (pmo_radix pmo)) (\<lambda>r. radix_get r index h)"

text \<open>\<^verbatim>\<open>handle_trans_fault\<close>; the new page is mapped with whatever it contains.\<close>

definition handle_trans_fault :: "vmspace \<Rightarrow> u64 \<Rightarrow> mm_state \<Rightarrow> (int \<times> mm_state) res" where
  "handle_trans_fault vs fault_addr s =
     bindR (find_vmr_for_va vs fault_addr s) (\<lambda>r. case r of
       None \<Rightarrow> Inr (- ENOMAPPING, s)
     | Some i \<Rightarrow>
         bindR (deref (vmrs s i)) (\<lambda>vmr.
         bindR (deref (pmos s (vr_pmo vmr))) (\<lambda>pmo.
           if pmo_type pmo \<noteq> PMO_ANONYM then Inr (- ENOMAPPING, s)
           else
             bindR (get_page_0 (mm_pt s)) (\<lambda>(page, pt).
              if page = 0 then Inr (- ENOMAPPING, s\<lparr>mm_pt := pt\<rparr>)
              else
                let pa = virt_to_phys page; fault_addr = ROUND_DOWN fault_addr PAGE_SIZE in
                bindR (map_range_in_pgtbl (vs_pgtbl vs) fault_addr pa PAGE_SIZE (vr_perm vmr) pt) (\<lambda>(ret, pt).
                if ret < 0 then Inr (- ENOMAPPING, s\<lparr>mm_pt := pt\<rparr>)
                else Inr (0, s\<lparr>mm_pt := pt\<rparr>))))))"

definition DFSC_TRANS_FAULTS :: "u64 set" where "DFSC_TRANS_FAULTS = {4, 5, 6, 7}"

text \<open>
  \<^verbatim>\<open>do_page_fault\<close>: \<open>Some ret\<close> is the \<^verbatim>\<open>sys_exit(ret)\<close> of the faulting thread.
  \<^verbatim>\<open>GET_ESR_EL1_FSC\<close> is the low six bits of the syndrome register.
\<close>

definition do_page_fault :: "u64 \<Rightarrow> u64 \<Rightarrow> vmspace \<Rightarrow> mm_state \<Rightarrow> (int option \<times> mm_state) res" where
  "do_page_fault esr fault_addr vs s =
     (if esr AND 0x3F \<in> DFSC_TRANS_FAULTS then
        bindR (handle_trans_fault vs fault_addr s) (\<lambda>(ret, s).
          Inr (if ret \<noteq> 0 then Some ret else None, s))
      else Inl BUG)"

text \<open>
  The part of \<^verbatim>\<open>sys_handle_brk\<close> that grows the heap. \<^verbatim>\<open>new_size\<close> is an
  \<^verbatim>\<open>int\<close>: the conversions back to the 64-bit sizes extend its sign.
\<close>

definition brk_grow :: "vmspace \<Rightarrow> u64 \<Rightarrow> mm_state \<Rightarrow> (u64 \<times> mm_state) res" where
  "brk_grow vs addr s =
     bindR (deref (heap_vmr vs)) (\<lambda>h.
     bindR (deref (vmrs s h)) (\<lambda>vmr.
       if addr \<ge> user_current_heap vs + vr_size vmr then
         let new_size = to_int (ROUND_UP (addr - user_current_heap vs) PAGE_SIZE) in
         bindR (deref (pmos s (vr_pmo vmr))) (\<lambda>pmo.
         Inr (addr, s\<lparr>pmos := (pmos s)(vr_pmo vmr \<mapsto> pmo\<lparr>pmo_size := new_size\<rparr>),
                      vmrs := (vmrs s)(h \<mapsto> vmr\<lparr>vr_size := new_size\<rparr>)\<rparr>))
       else Inr (word_of_int (- EINVAL), s)))"


section \<open>Regions\<close>

definition in_reg :: "vmregion \<Rightarrow> u64 \<Rightarrow> bool" where
  "in_reg r a \<longleftrightarrow> unat (vr_start r) \<le> unat a \<and> unat a < unat (vr_start r) + unat (vr_size r)"

definition no_wrap :: "vmregion \<Rightarrow> bool" where
  "no_wrap r \<longleftrightarrow> unat (vr_start r) + unat (vr_size r) < 2 ^ 64"

definition regions_ok :: "mm_state \<Rightarrow> vmr_id list \<Rightarrow> bool" where
  "regions_ok s is \<longleftrightarrow> distinct is \<and> (\<forall>i \<in> set is. \<exists>r. vmrs s i = Some r \<and> no_wrap r)"

definition reg :: "mm_state \<Rightarrow> vmr_id \<Rightarrow> vmregion" where
  "reg s i = the (vmrs s i)"

definition disjoint_regs :: "mm_state \<Rightarrow> vmr_id list \<Rightarrow> bool" where
  "disjoint_regs s is \<longleftrightarrow>
     (\<forall>i \<in> set is. \<forall>j \<in> set is. i \<noteq> j \<longrightarrow> (\<forall>a. \<not> (in_reg (reg s i) a \<and> in_reg (reg s j) a)))"

lemma in_reg_word:
  assumes "no_wrap r"
  shows "in_reg r a \<longleftrightarrow> vr_start r \<le> a \<and> a < vr_start r + vr_size r"
proof -
  have "unat (vr_start r + vr_size r) = unat (vr_start r) + unat (vr_size r)"
    using assms by (subst unat_add_lem [THEN iffD1]) (auto simp: no_wrap_def)
  then show ?thesis by (simp add: in_reg_def word_le_nat_alt word_less_nat_alt)
qed

lemma find_loop_spec:
  assumes "regions_ok s is"
  shows "\<exists>r. find_loop s addr is = Inr r \<and>
    (case r of None \<Rightarrow> \<forall>i \<in> set is. \<not> in_reg (reg s i) addr
     | Some i \<Rightarrow> i \<in> set is \<and> in_reg (reg s i) addr)"
  using assms
proof (induction "is")
  case (Cons i "is")
  obtain r where r: "vmrs s i = Some r" "no_wrap r" using Cons.prems by (auto simp: regions_ok_def)
  have "regions_ok s is" using Cons.prems by (auto simp: regions_ok_def)
  from Cons.IH [OF this] show ?case
    using r by (auto simp: Let_def in_reg_word reg_def split: option.splits)
qed simp

lemma intersect_loop_spec:
  assumes "regions_ok s is"
  shows "intersect_loop s a b is = Inr (if \<exists>i \<in> set is. in_reg (reg s i) a \<or> in_reg (reg s i) b then 1 else 0)"
  using assms
proof (induction "is")
  case (Cons i "is")
  obtain r where r: "vmrs s i = Some r" "no_wrap r" using Cons.prems by (auto simp: regions_ok_def)
  have "regions_ok s is" using Cons.prems by (auto simp: regions_ok_def)
  from Cons.IH [OF this] show ?case
    using r by (auto simp: Let_def in_reg_word reg_def)
qed simp

lemma last_byte:
  assumes "no_wrap r" "vr_size r \<noteq> 0"
  shows "unat (vr_start r + vr_size r - 1) = unat (vr_start r) + unat (vr_size r) - 1"
    "0 < unat (vr_size r)"
proof -
  show s: "0 < unat (vr_size r)" using assms(2) by (simp add: unat_gt_0)
  have u: "unat (vr_start r + vr_size r) = unat (vr_start r) + unat (vr_size r)"
    using assms by (subst unat_add_lem [THEN iffD1]) (auto simp: no_wrap_def)
  then have "vr_start r + vr_size r \<noteq> 0" using s by (metis add_gr_0 less_irrefl unat_0)
  then show "unat (vr_start r + vr_size r - 1) = unat (vr_start r) + unat (vr_size r) - 1"
    using u by (simp add: unat_minus_one)
qed

definition overlap :: "vmregion \<Rightarrow> vmregion \<Rightarrow> bool" where
  "overlap r q \<longleftrightarrow> (\<exists>a. in_reg r a \<and> in_reg q a)"

text \<open>\<open>r\<close> begins before \<open>q\<close> and ends after it.\<close>

definition encloses :: "vmregion \<Rightarrow> vmregion \<Rightarrow> bool" where
  "encloses r q \<longleftrightarrow> unat (vr_start r) < unat (vr_start q) \<and>
     unat (vr_start q) + unat (vr_size q) < unat (vr_start r) + unat (vr_size r)"

lemma overlap_cases:
  assumes "no_wrap r" "vr_size r \<noteq> 0" "no_wrap q" "overlap r q"
  shows "in_reg q (vr_start r) \<or> in_reg q (vr_start r + vr_size r - 1) \<or> encloses r q"
proof -
  obtain a where a: "in_reg r a" "in_reg q a" using assms(4) by (auto simp: overlap_def)
  then show ?thesis
    using last_byte [OF assms(1,2)] unfolding in_reg_def encloses_def by linarith
qed

lemma add_vmr_spec:
  assumes ok: "regions_ok s (vmr_list vs)" and i: "vmrs s i = Some r" "no_wrap r" "vr_size r \<noteq> 0"
  shows "add_vmr_to_vmspace vs i s =
    Inr (if \<exists>j \<in> set (vmr_list vs). in_reg (reg s j) (vr_start r) \<or> in_reg (reg s j) (vr_start r + vr_size r - 1)
         then (- EINVAL, vs) else (0, vs\<lparr>vmr_list := i # vmr_list vs\<rparr>))"
  using i intersect_loop_spec [OF ok, of "vr_start r" "vr_start r + vr_size r - 1"]
  by (simp add: add_vmr_to_vmspace_def check_vmr_intersect_def Let_def)

lemma regions_ok_cong: "(\<forall>i \<in> set is. vmrs s' i = vmrs s i) \<Longrightarrow> regions_ok s' is = regions_ok s is"
  by (auto simp: regions_ok_def)

section \<open>Frames and physical addresses\<close>

lemma frame_addr_phys:
  assumes "frame_addr a"
  shows "4096 dvd unat (virt_to_phys a)" "unat (virt_to_phys a) + 4096 \<le> 2 ^ 48"
proof -
  let ?x = "get_field 12 36 (table_pte a)"
  have "virt_to_phys a = push_bit 12 ?x"
    using assms by (metis GET_NEXT_PTP_def GET_PADDR_IN_PTE_def PAGE_SHIFT_def add_diff_cancel_right'
        frame_addr_def phys_to_virt_def virt_to_phys_def)
  moreover have x: "unat ?x < 2 ^ 36"
    by (simp add: get_field_def word_and_mask_unat)
  moreover have "unat (push_bit 12 ?x) = unat ?x * 4096"
  proof -
    have "unat (?x * 4096) = unat ?x * unat (4096 :: u64)"
      using x by (subst unat_mult_lem [THEN iffD1]) auto
    then show ?thesis by (simp add: push_bit_eq_mult)
  qed
  ultimately show "4096 dvd unat (virt_to_phys a)" "unat (virt_to_phys a) + 4096 \<le> 2 ^ 48" by auto
qed

lemma map_one_page:
  assumes "pt_ok (ptm s) r" "page_supply_ok s" "4 \<le> length (page_supply s)"
    and va: "4096 dvd unat va" "unat va + 4096 \<le> 2 ^ 48" and pa: "4096 dvd unat pa" "unat pa + 4096 \<le> 2 ^ 48"
  shows "\<exists>s'. map_range_in_pgtbl r va pa PAGE_SIZE flags s = Inr (0, s') \<and> pt_ok (ptm s') r \<and> page_supply_ok s' \<and>
    (\<forall>va'. unat va' < 2 ^ 48 \<longrightarrow> translate r va' s' =
       (if unat va \<le> unat va' \<and> unat va' < unat va + 4096 then Some (pa + (va' - va)) else translate r va' s))"
  using map_range_translate [OF assms(1,2), of PAGE_SIZE 1 va pa flags] assms by simp


lemma find_vmr_unique:
  assumes "regions_ok s (vmr_list vs)" "disjoint_regs s (vmr_list vs)" "i \<in> set (vmr_list vs)" "in_reg (reg s i) a"
  shows "find_vmr_for_va vs a s = Inr (Some i)"
proof -
  obtain r where r: "find_loop s a (vmr_list vs) = Inr r" "case r of None \<Rightarrow> \<forall>i \<in> set (vmr_list vs). \<not> in_reg (reg s i) a
     | Some i \<Rightarrow> i \<in> set (vmr_list vs) \<and> in_reg (reg s i) a"
    using find_loop_spec [OF assms(1)] by blast
  then show ?thesis
    using assms(2-4) unfolding disjoint_regs_def find_vmr_for_va_def by (cases r) auto
qed

section \<open>Properties\<close>

definition demo_mm :: mm_state where
  "demo_mm = \<lparr>vmrs = [1 \<mapsto> \<lparr>vr_start = 0x2000, vr_size = 0x1000, vr_perm = 3, vr_pmo = 7\<rparr>,
       2 \<mapsto> \<lparr>vr_start = 0x400000, vr_size = 0x3000, vr_perm = 3, vr_pmo = 7\<rparr>,
       3 \<mapsto> \<lparr>vr_start = 0x1000, vr_size = 0x4000, vr_perm = 3, vr_pmo = 7\<rparr>,
       4 \<mapsto> \<lparr>vr_start = 0x600000, vr_size = 0x1000, vr_perm = 3, vr_pmo = 7\<rparr>],
     pmos = [7 \<mapsto> \<lparr>pmo_radix = None, pmo_start = 0x3000000, pmo_size = 0x2000, pmo_type = PMO_ANONYM\<rparr>,
       8 \<mapsto> \<lparr>pmo_radix = None, pmo_start = 0x3000000, pmo_size = 0x2000, pmo_type = PMO_DATA\<rparr>],
     vmr_supply = [9], mm_pt = demo_pt\<rparr>"

definition demo_vs :: vmspace where
  "demo_vs = \<lparr>vmr_list = [2, 1], vs_pgtbl = demo_root, heap_vmr = Some 2, user_current_heap = 0x400000\<rparr>"

lemma demo_regions: "regions_ok demo_mm (vmr_list demo_vs)" "disjoint_regs demo_mm (vmr_list demo_vs)"
  by (auto simp: regions_ok_def disjoint_regs_def demo_mm_def demo_vs_def no_wrap_def reg_def in_reg_def)

text \<open>
  \<^verbatim>\<open>add_vmr_to_vmspace\<close> refuses a region exactly when its first or last byte lies in
  an existing region. When it refuses, the list is unchanged and the regions do overlap; when it
  accepts, the new region is at the head, and it overlaps an existing one only if it begins before
  that one and ends after it. If it encloses no region, disjointness is preserved.
\<close>

theorem add_region_checked:
  assumes ok: "regions_ok s (vmr_list vs)" and dis: "disjoint_regs s (vmr_list vs)"
    and i: "vmrs s i = Some r" "no_wrap r" "vr_size r \<noteq> 0" "i \<notin> set (vmr_list vs)"
  shows "(add_vmr_to_vmspace vs i s = Inr (- EINVAL, vs) \<and> (\<exists>j \<in> set (vmr_list vs). overlap r (reg s j))) \<or>
    (\<exists>vs'. add_vmr_to_vmspace vs i s = Inr (0, vs') \<and> vmr_list vs' = i # vmr_list vs \<and> regions_ok s (vmr_list vs') \<and>
      (\<forall>j \<in> set (vmr_list vs). overlap r (reg s j) \<longrightarrow> encloses r (reg s j)) \<and>
      ((\<forall>j \<in> set (vmr_list vs). \<not> encloses r (reg s j)) \<longrightarrow> disjoint_regs s (vmr_list vs')))"
proof (cases "\<exists>j \<in> set (vmr_list vs). in_reg (reg s j) (vr_start r) \<or> in_reg (reg s j) (vr_start r + vr_size r - 1)")
  case True
  have "in_reg r (vr_start r)" "in_reg r (vr_start r + vr_size r - 1)"
    using last_byte [OF i(2,3)] by (auto simp: in_reg_def)
  then have "\<exists>j \<in> set (vmr_list vs). overlap r (reg s j)" using True by (auto simp: overlap_def)
  then show ?thesis using add_vmr_spec [OF ok i(1-3)] True by simp
next
  case False
  have enc: "encloses r (reg s j)" if "j \<in> set (vmr_list vs)" "overlap r (reg s j)" for j
  proof -
    have "no_wrap (reg s j)" using ok that(1) by (auto simp: regions_ok_def reg_def)
    then show ?thesis using overlap_cases [OF i(2,3) _ that(2)] False that(1) by blast
  qed
  have "disjoint_regs s (i # vmr_list vs)" if "\<forall>j \<in> set (vmr_list vs). \<not> encloses r (reg s j)"
  proof -
    have "\<not> overlap r (reg s j)" if "j \<in> set (vmr_list vs)" for j
      using enc that \<open>\<forall>j \<in> set (vmr_list vs). \<not> encloses r (reg s j)\<close> by blast
    then have "\<not> (in_reg (reg s i) a \<and> in_reg (reg s j) a)" if "j \<in> set (vmr_list vs)" for j a
      using that i(1) by (auto simp: overlap_def reg_def)
    then show ?thesis using dis unfolding disjoint_regs_def by auto
  qed
  moreover have "regions_ok s (i # vmr_list vs)" using ok i by (simp add: regions_ok_def)
  ultimately show ?thesis using add_vmr_spec [OF ok i(1-3)] False enc by (intro disjI2) simp
qed

theorem add_region_checked_witness:
  "(add_vmr_to_vmspace demo_vs 4 demo_mm = Inr (- EINVAL, demo_vs) \<and>
      (\<exists>j \<in> set (vmr_list demo_vs). overlap (reg demo_mm 4) (reg demo_mm j))) \<or>
    (\<exists>vs'. add_vmr_to_vmspace demo_vs 4 demo_mm = Inr (0, vs') \<and> vmr_list vs' = 4 # vmr_list demo_vs \<and>
      regions_ok demo_mm (vmr_list vs') \<and>
      (\<forall>j \<in> set (vmr_list demo_vs). overlap (reg demo_mm 4) (reg demo_mm j) \<longrightarrow> encloses (reg demo_mm 4) (reg demo_mm j)) \<and>
      ((\<forall>j \<in> set (vmr_list demo_vs). \<not> encloses (reg demo_mm 4) (reg demo_mm j)) \<longrightarrow> disjoint_regs demo_mm (vmr_list vs')))"
  by (rule add_region_checked [OF demo_regions]) (simp_all add: demo_mm_def demo_vs_def reg_def no_wrap_def)

text \<open>
  The overlap test misses a new region that encloses an existing one: the region
  \<open>[0x1000, 0x5000)\<close> is accepted next to \<open>[0x2000, 0x3000)\<close>, and both then contain \<open>0x2000\<close>.
\<close>

theorem enclosing_region_accepted:
  "map_sum id (map_prod id vmr_list) (add_vmr_to_vmspace demo_vs 3 demo_mm) = Inr (0, [3, 2, 1]) \<and>
   in_reg (reg demo_mm 3) 0x2000 \<and> in_reg (reg demo_mm 1) 0x2000"
  by (simp add: add_vmr_to_vmspace_def check_vmr_intersect_def demo_mm_def demo_vs_def reg_def in_reg_def Let_def)

text \<open>A fault in a region of an anonymous object.\<close>

lemma trans_fault_anonym:
  assumes f: "find_vmr_for_va vs addr s = Inr (Some i)" and v: "vmrs s i = Some v"
    and p: "pmos s (vr_pmo v) = Some p" "pmo_type p = PMO_ANONYM"
    and pt: "pt_ok (ptm (mm_pt s)) (vs_pgtbl vs)" "page_supply_ok (mm_pt s)" "5 \<le> length (page_supply (mm_pt s))"
    and fa: "unat addr < 2 ^ 48"
  shows "\<exists>s'. handle_trans_fault vs addr s = Inr (0, s') \<and> pt_ok (ptm (mm_pt s')) (vs_pgtbl vs) \<and>
    translate (vs_pgtbl vs) addr (mm_pt s') = Some (virt_to_phys (hd (page_supply (mm_pt s))) + (addr AND mask 12)) \<and>
    (\<forall>va. unat va < 2 ^ 48 \<and> unat va div 4096 \<noteq> unat addr div 4096 \<longrightarrow>
       translate (vs_pgtbl vs) va (mm_pt s') = translate (vs_pgtbl vs) va (mm_pt s))"
proof -
  obtain page as where pg: "page_supply (mm_pt s) = page # as" using pt(3) by (cases "page_supply (mm_pt s)") auto
  define pt1 where "pt1 = (mm_pt s)\<lparr>page_supply := as\<rparr>"
  have g: "get_page_0 (mm_pt s) = Inr (page, pt1)" by (simp add: get_page_0_def pg pt1_def)
  have pt1: "pt_ok (ptm pt1) (vs_pgtbl vs)" "page_supply_ok pt1" "4 \<le> length (page_supply pt1)"
    and fr: "frame_addr page" "page \<noteq> 0"
    using pt pg by (auto simp: pt1_def page_supply_ok_def frame_addr_def)
  define fa' where "fa' = ROUND_DOWN addr PAGE_SIZE"
  have ufa: "unat fa' = unat addr div 4096 * 4096" by (simp add: fa'_def page_round_down_unat)
  have al: "4096 dvd unat fa'" "unat fa' + 4096 \<le> 2 ^ 48"
  proof -
    show "4096 dvd unat fa'" unfolding ufa by simp
    have "unat addr div 4096 < 2 ^ 36" using fa by (simp add: less_mult_imp_div_less)
    then show "unat fa' + 4096 \<le> 2 ^ 48" unfolding ufa by simp
  qed
  obtain pt2 where m: "map_range_in_pgtbl (vs_pgtbl vs) fa' (virt_to_phys page) PAGE_SIZE (vr_perm v) pt1 = Inr (0, pt2)"
    "pt_ok (ptm pt2) (vs_pgtbl vs)"
    "\<And>va. unat va < 2 ^ 48 \<Longrightarrow> translate (vs_pgtbl vs) va pt2 =
      (if unat fa' \<le> unat va \<and> unat va < unat fa' + 4096 then Some (virt_to_phys page + (va - fa'))
       else translate (vs_pgtbl vs) va pt1)"
    using map_one_page [OF pt1 al frame_addr_phys [OF fr(1)]] by blast
  have run: "handle_trans_fault vs addr s = Inr (0, s\<lparr>mm_pt := pt2\<rparr>)"
    using f v p g fr m(1) by (simp add: handle_trans_fault_def Let_def flip: fa'_def)
  have same: "translate (vs_pgtbl vs) va pt1 = translate (vs_pgtbl vs) va (mm_pt s)" for va
    using translate_leaf [OF pt1(1), of va] translate_leaf [OF pt(1), of va] by (simp add: pt1_def)
  have rng: "unat fa' \<le> unat va \<and> unat va < unat fa' + 4096 \<longleftrightarrow> unat va div 4096 = unat addr div 4096" for va :: u64
    unfolding ufa page_div_eq [of "unat va"] by auto
  have "addr - fa' = addr AND mask 12"
    using word_and_not_mask [of addr 12] by (simp add: fa'_def ROUND_DOWN_def mask_eq_exp_minus_1)
  then have "translate (vs_pgtbl vs) addr pt2 = Some (virt_to_phys page + (addr AND mask 12))"
    using m(3) [OF fa] rng [of addr] by simp
  moreover have "\<forall>va. unat va < 2 ^ 48 \<and> unat va div 4096 \<noteq> unat addr div 4096 \<longrightarrow>
       translate (vs_pgtbl vs) va pt2 = translate (vs_pgtbl vs) va (mm_pt s)"
    using m(3) rng same by simp
  ultimately show ?thesis using run m(2) pg by auto
qed

text \<open>
  C23: \<^verbatim>\<open>handle_trans_fault\<close> on an address of an anonymous region maps a page from the
  allocator at the page of the fault, so the address translates into that page, and no translation
  outside this page changes; on an address of no region, or of a region that is not anonymous, it
  returns \<^verbatim>\<open>-ENOMAPPING\<close> and changes nothing.
\<close>

theorem trans_fault_correct:
  assumes ok: "regions_ok s (vmr_list vs)" and pt: "pt_ok (ptm (mm_pt s)) (vs_pgtbl vs)" "page_supply_ok (mm_pt s)"
    "5 \<le> length (page_supply (mm_pt s))"
    and fa: "unat addr < 2 ^ 48" and pm: "\<forall>i \<in> set (vmr_list vs). pmos s (vr_pmo (reg s i)) \<noteq> None"
  shows "(\<exists>i \<in> set (vmr_list vs). in_reg (reg s i) addr \<and> pmo_type (the (pmos s (vr_pmo (reg s i)))) = PMO_ANONYM \<and>
      (\<exists>s' page. handle_trans_fault vs addr s = Inr (0, s') \<and> page = hd (page_supply (mm_pt s)) \<and>
        pt_ok (ptm (mm_pt s')) (vs_pgtbl vs) \<and>
        translate (vs_pgtbl vs) addr (mm_pt s') = Some (virt_to_phys page + (addr AND mask 12)) \<and>
        (\<forall>va. unat va < 2 ^ 48 \<and> unat va div 4096 \<noteq> unat addr div 4096 \<longrightarrow>
           translate (vs_pgtbl vs) va (mm_pt s') = translate (vs_pgtbl vs) va (mm_pt s)))) \<or>
    (handle_trans_fault vs addr s = Inr (- ENOMAPPING, s) \<and>
      ((\<forall>i \<in> set (vmr_list vs). \<not> in_reg (reg s i) addr) \<or>
       (\<exists>i \<in> set (vmr_list vs). in_reg (reg s i) addr \<and> pmo_type (the (pmos s (vr_pmo (reg s i)))) \<noteq> PMO_ANONYM)))"
proof -
  obtain r where r: "find_vmr_for_va vs addr s = Inr r" "case r of None \<Rightarrow> \<forall>i \<in> set (vmr_list vs). \<not> in_reg (reg s i) addr
     | Some i \<Rightarrow> i \<in> set (vmr_list vs) \<and> in_reg (reg s i) addr"
    using find_loop_spec [OF ok] unfolding find_vmr_for_va_def by blast
  show ?thesis
  proof (cases r)
    case None
    then show ?thesis using r by (simp add: handle_trans_fault_def)
  next
    case (Some i)
    then have i: "i \<in> set (vmr_list vs)" "in_reg (reg s i) addr" using r by auto
    obtain v where v: "vmrs s i = Some v" "reg s i = v" using ok i(1) by (auto simp: regions_ok_def reg_def)
    obtain p where p: "pmos s (vr_pmo v) = Some p" using pm i(1) v by auto
    show ?thesis
    proof (cases "pmo_type p = PMO_ANONYM")
      case False
      then have "handle_trans_fault vs addr s = Inr (- ENOMAPPING, s)"
        using r(1) Some v p by (simp add: handle_trans_fault_def)
      then show ?thesis using i v p False by auto
    next
      case True
      obtain s' where "handle_trans_fault vs addr s = Inr (0, s')" "pt_ok (ptm (mm_pt s')) (vs_pgtbl vs)"
        "translate (vs_pgtbl vs) addr (mm_pt s') = Some (virt_to_phys (hd (page_supply (mm_pt s))) + (addr AND mask 12))"
        "\<forall>va. unat va < 2 ^ 48 \<and> unat va div 4096 \<noteq> unat addr div 4096 \<longrightarrow>
           translate (vs_pgtbl vs) va (mm_pt s') = translate (vs_pgtbl vs) va (mm_pt s)"
        using trans_fault_anonym [OF _ v(1) p True pt fa] r(1) Some by blast
      then show ?thesis using i v p True by (intro disjI1 bexI [of _ i]) auto
    qed
  qed
qed

lemma demo_pmos: "\<forall>i \<in> set (vmr_list demo_vs). pmos demo_mm (vr_pmo (reg demo_mm i)) \<noteq> None"
  by (simp add: demo_mm_def demo_vs_def reg_def)

lemma demo_mm_pt: "pt_ok (ptm (mm_pt demo_mm)) (vs_pgtbl demo_vs)" "page_supply_ok (mm_pt demo_mm)"
  "5 \<le> length (page_supply (mm_pt demo_mm))"
  using demo_pt_ok demo_supply_ok by (simp_all add: demo_mm_def demo_vs_def) (simp add: demo_pt_def)

theorem trans_fault_correct_witness:
  "(\<exists>i \<in> set (vmr_list demo_vs). in_reg (reg demo_mm i) 0x401234 \<and>
      pmo_type (the (pmos demo_mm (vr_pmo (reg demo_mm i)))) = PMO_ANONYM \<and>
      (\<exists>s' page. handle_trans_fault demo_vs 0x401234 demo_mm = Inr (0, s') \<and> page = hd (page_supply (mm_pt demo_mm)) \<and>
        pt_ok (ptm (mm_pt s')) (vs_pgtbl demo_vs) \<and>
        translate (vs_pgtbl demo_vs) 0x401234 (mm_pt s') = Some (virt_to_phys page + (0x401234 AND mask 12)) \<and>
        (\<forall>va. unat va < 2 ^ 48 \<and> unat va div 4096 \<noteq> unat (0x401234 :: u64) div 4096 \<longrightarrow>
           translate (vs_pgtbl demo_vs) va (mm_pt s') = translate (vs_pgtbl demo_vs) va (mm_pt demo_mm)))) \<or>
    (handle_trans_fault demo_vs 0x401234 demo_mm = Inr (- ENOMAPPING, demo_mm) \<and>
      ((\<forall>i \<in> set (vmr_list demo_vs). \<not> in_reg (reg demo_mm i) 0x401234) \<or>
       (\<exists>i \<in> set (vmr_list demo_vs). in_reg (reg demo_mm i) 0x401234 \<and>
         pmo_type (the (pmos demo_mm (vr_pmo (reg demo_mm i)))) \<noteq> PMO_ANONYM)))"
  by (rule trans_fault_correct [OF demo_regions(1) demo_mm_pt _ demo_pmos]) simp


text \<open>
  C37: \<^verbatim>\<open>vmspace_map_range\<close> of an immediate (data) object into a range that meets no
  region records the region at the head of the list and maps the whole object: every address of it
  translates to the corresponding byte of the object, and no other translation changes.
\<close>

theorem map_range_data:
  assumes ok: "regions_ok s (vmr_list vs)" and sup: "vmr_supply s = i # is" "i \<notin> set (vmr_list vs)"
    and pm: "pmos s pmo = Some p" "pmo_type p = PMO_DATA"
    and pt: "pt_ok (ptm (mm_pt s)) (vs_pgtbl vs)" "page_supply_ok (mm_pt s)"
    and r: "r = \<lparr>vr_start = ROUND_DOWN va PAGE_SIZE, vr_size = (if len < PAGE_SIZE then PAGE_SIZE else len), vr_perm = flags, vr_pmo = pmo\<rparr>"
    and free: "no_wrap r" "\<forall>j \<in> set (vmr_list vs). \<not> overlap r (reg s j)"
    and n: "n = (unat (pmo_size p) + 4095) div 4096" "4 * n \<le> length (page_supply (mm_pt s))"
      "unat (pmo_size p) + 4095 < 2 ^ 64"
    and bd: "unat (vr_start r) + 4096 * n \<le> 2 ^ 48" "4096 dvd unat (pmo_start p)" "unat (pmo_start p) + 4096 * n \<le> 2 ^ 48"
  shows "\<exists>vs' s'. vmspace_map_range vs va len flags pmo s = Inr (0, vs', s') \<and> vmr_list vs' = i # vmr_list vs \<and>
    vmrs s' i = Some r \<and> pt_ok (ptm (mm_pt s')) (vs_pgtbl vs) \<and>
    (\<forall>a. unat a < 2 ^ 48 \<longrightarrow> translate (vs_pgtbl vs) a (mm_pt s') =
       (if unat (vr_start r) \<le> unat a \<and> unat a < unat (vr_start r) + 4096 * n
        then Some (pmo_start p + (a - vr_start r)) else translate (vs_pgtbl vs) a (mm_pt s)))"
proof -
  define s1 where "s1 = s\<lparr>vmr_supply := is, vmrs := (vmrs s)(i \<mapsto> r)\<rparr>"
  have reg1: "reg s1 j = reg s j" if "j \<in> set (vmr_list vs)" for j
    using that sup(2) by (auto simp: s1_def reg_def)
  have ok1: "regions_ok s1 (vmr_list vs)"
    using ok sup(2) by (auto simp: regions_ok_def s1_def)
  have nz: "vr_size r \<noteq> 0" unfolding r by auto
  have "in_reg r (vr_start r)" "in_reg r (vr_start r + vr_size r - 1)"
    using last_byte [OF free(1) nz] by (auto simp: in_reg_def)
  then have "\<not> (\<exists>j \<in> set (vmr_list vs). in_reg (reg s1 j) (vr_start r) \<or> in_reg (reg s1 j) (vr_start r + vr_size r - 1))"
    using free(2) reg1 by (auto simp: overlap_def)
  then have add: "add_vmr_to_vmspace vs i s1 = Inr (0, vs\<lparr>vmr_list := i # vmr_list vs\<rparr>)"
    using add_vmr_spec [OF ok1 _ free(1) nz, of i] by (simp add: s1_def)
  have al: "4096 dvd unat (vr_start r)" unfolding r by (simp add: page_round_down_unat)
  have s1: "mm_pt s1 = mm_pt s" "vmrs s1 i = Some r" "pmos s1 = pmos s" by (simp_all add: s1_def)
  obtain pt' where m: "map_range_in_pgtbl (vs_pgtbl vs) (vr_start r) (pmo_start p) (pmo_size p) flags (mm_pt s) = Inr (0, pt')"
      "pt_ok (ptm pt') (vs_pgtbl vs)"
      "\<forall>a. unat a < 2 ^ 48 \<longrightarrow> translate (vs_pgtbl vs) a pt' =
       (if unat (vr_start r) \<le> unat a \<and> unat a < unat (vr_start r) + 4096 * n
        then Some (pmo_start p + (a - vr_start r)) else translate (vs_pgtbl vs) a (mm_pt s))"
    using map_range_translate [OF pt n(3,1,2) al bd(1,2,3), of flags] by blast
  have fill: "fill_page_table (vs\<lparr>vmr_list := i # vmr_list vs\<rparr>) i s1 = Inr (0, s1\<lparr>mm_pt := pt'\<rparr>)"
    using m(1) s1 pm by (simp add: fill_page_table_def r)
  have run: "vmspace_map_range vs va len flags pmo s =
      Inr (0, vs\<lparr>vmr_list := i # vmr_list vs\<rparr>, s1\<lparr>mm_pt := pt'\<rparr>)"
  proof -
    have "alloc_vmregion s = (Some i, s\<lparr>vmr_supply := is\<rparr>)" by (simp add: alloc_vmregion_def sup)
    moreover have "(s\<lparr>vmr_supply := is\<rparr>)\<lparr>vmrs := (vmrs (s\<lparr>vmr_supply := is\<rparr>))(i \<mapsto>
        \<lparr>vr_start = ROUND_DOWN va PAGE_SIZE, vr_size = (if len < PAGE_SIZE then PAGE_SIZE else len), vr_perm = flags, vr_pmo = pmo\<rparr>)\<rparr> = s1"
      by (simp add: s1_def r)
    ultimately show ?thesis
      using add fill s1(3) pm by (simp add: vmspace_map_range_def Let_def pmo_types)
  qed
  then show ?thesis using m s1 by auto
qed

theorem map_range_data_witness:
  "\<exists>vs' s'. vmspace_map_range demo_vs 0x10008 0x2000 3 8 demo_mm = Inr (0, vs', s') \<and> vmr_list vs' = 9 # vmr_list demo_vs \<and>
    vmrs s' 9 = Some \<lparr>vr_start = ROUND_DOWN 0x10008 PAGE_SIZE, vr_size = (if (0x2000 :: u64) < PAGE_SIZE then PAGE_SIZE else 0x2000), vr_perm = 3, vr_pmo = 8\<rparr> \<and>
    pt_ok (ptm (mm_pt s')) (vs_pgtbl demo_vs) \<and>
    (\<forall>a. unat a < 2 ^ 48 \<longrightarrow> translate (vs_pgtbl demo_vs) a (mm_pt s') =
       (if unat (ROUND_DOWN 0x10008 PAGE_SIZE) \<le> unat a \<and> unat a < unat (ROUND_DOWN 0x10008 PAGE_SIZE) + 4096 * 2
        then Some (0x3000000 + (a - ROUND_DOWN 0x10008 PAGE_SIZE)) else translate (vs_pgtbl demo_vs) a (mm_pt demo_mm)))"
proof -
  let ?p = "\<lparr>pmo_radix = None, pmo_start = 0x3000000, pmo_size = 0x2000, pmo_type = PMO_DATA\<rparr>"
  have sup: "vmr_supply demo_mm = 9 # []" "9 \<notin> set (vmr_list demo_vs)" "pmos demo_mm 8 = Some ?p" "pmo_type ?p = PMO_DATA"
    by (simp_all add: demo_mm_def demo_vs_def)
  have rd: "ROUND_DOWN 0x10008 PAGE_SIZE = (0x10000 :: u64)" by (simp add: ROUND_DOWN_def)
  have "no_wrap \<lparr>vr_start = 0x10000, vr_size = 0x2000, vr_perm = 3, vr_pmo = 8\<rparr>" by (simp add: no_wrap_def)
  moreover have "\<forall>j \<in> set (vmr_list demo_vs). \<not> overlap \<lparr>vr_start = 0x10000, vr_size = 0x2000, vr_perm = 3, vr_pmo = 8\<rparr> (reg demo_mm j)"
    by (auto simp: overlap_def in_reg_def reg_def demo_mm_def demo_vs_def)
  moreover have "(2 :: nat) = (unat (pmo_size ?p) + 4095) div 4096" "4 * 2 \<le> length (page_supply (mm_pt demo_mm))"
    "unat (pmo_size ?p) + 4095 < 2 ^ 64"
    by (simp_all add: demo_mm_def demo_pt_def)
  moreover have "unat (0x10000 :: u64) + 4096 * 2 \<le> 2 ^ 48" "4096 dvd unat (pmo_start ?p)"
    "unat (pmo_start ?p) + 4096 * 2 \<le> 2 ^ 48"
    by simp_all
  moreover have len: "(if (0x2000 :: u64) < PAGE_SIZE then PAGE_SIZE else 0x2000) = 0x2000" by simp
  ultimately show ?thesis
    using map_range_data [OF demo_regions(1) sup demo_mm_pt(1,2) refl, where n = 2 and va = "0x10008" and len = "0x2000" and flags = 3]
    unfolding rd len vmregion.simps pmobject.simps by blast
qed

text \<open>
  \<^verbatim>\<open>vmspace_unmap_range\<close> at the start of a region removes the whole region whatever
  \<^verbatim>\<open>len\<close> is, but only the addresses of \<open>[va, va + len)\<close> lose their translation. (The test
  that should insist on a whole region rejects only calls in which both start and length differ.)
  So after a call with a shorter length the rest of the removed region stays mapped.
\<close>

theorem unmap_removes_region:
  assumes ok: "regions_ok s (vmr_list vs)" "disjoint_regs s (vmr_list vs)"
    and i: "i \<in> set (vmr_list vs)" "vr_size (reg s i) \<noteq> 0"
    and pt: "pt_ok (ptm (mm_pt s)) (vs_pgtbl vs)" "page_supply_ok (mm_pt s)" "unat len + 4095 < 2 ^ 64"
    and n: "n = (unat len + 4095) div 4096" "4 * n \<le> length (page_supply (mm_pt s))"
    and va: "va = vr_start (reg s i)" "4096 dvd unat va" "unat va + 4096 * n \<le> 2 ^ 48"
  shows "\<exists>vs' s'. vmspace_unmap_range vs va len s = Inr (0, vs', s') \<and> vmr_list vs' = remove1 i (vmr_list vs) \<and>
    vmrs s' i = None \<and>
    (\<forall>a. unat a < 2 ^ 48 \<longrightarrow> translate (vs_pgtbl vs) a (mm_pt s') =
       (if unat va \<le> unat a \<and> unat a < unat va + 4096 * n then None else translate (vs_pgtbl vs) a (mm_pt s)))"
proof -
  obtain r where r: "vmrs s i = Some r" "no_wrap r" "reg s i = r" using ok(1) i(1) by (auto simp: regions_ok_def reg_def)
  have "in_reg (reg s i) va"
    using last_byte(2) [of r] r i(2) va(1) by (simp add: in_reg_def)
  then have find: "find_vmr_for_va vs va s = Inr (Some i)" by (rule find_vmr_unique [OF ok i(1)])
  obtain pt' where u: "unmap_range_in_pgtbl (vs_pgtbl vs) va len (mm_pt s) = Inr (0, pt')"
      "\<forall>a. unat a < 2 ^ 48 \<longrightarrow> translate (vs_pgtbl vs) a pt' =
       (if unat va \<le> unat a \<and> unat a < unat va + 4096 * n then None else translate (vs_pgtbl vs) a (mm_pt s))"
    using unmap_range_translate [OF pt n va(2,3)] by blast
  have mem: "is_vmr_in_vmspace vs i" using i(1) by (auto simp: is_vmr_in_vmspace_def list_ex_iff)
  have "vmspace_unmap_range vs va len s = Inr (0, vs\<lparr>vmr_list := remove1 i (vmr_list vs)\<rparr>, (free_vmregion i s)\<lparr>mm_pt := pt'\<rparr>)"
    using find r va(1) mem u(1)
    by (simp add: vmspace_unmap_range_def del_vmr_from_vmspace_def free_vmregion_def Let_def)
  then show ?thesis using u(2) by (simp add: free_vmregion_def)
qed

theorem unmap_removes_region_witness:
  "\<exists>vs' s'. vmspace_unmap_range demo_vs 0x400000 0x1000 demo_mm = Inr (0, vs', s') \<and>
    vmr_list vs' = remove1 2 (vmr_list demo_vs) \<and> vmrs s' 2 = None \<and>
    (\<forall>a. unat a < 2 ^ 48 \<longrightarrow> translate (vs_pgtbl demo_vs) a (mm_pt s') =
       (if unat (0x400000 :: u64) \<le> unat a \<and> unat a < unat (0x400000 :: u64) + 4096 * 1 then None
        else translate (vs_pgtbl demo_vs) a (mm_pt demo_mm)))"
  by (rule unmap_removes_region [OF demo_regions _ _ demo_mm_pt(1,2)])
    (simp_all add: demo_mm_def demo_vs_def reg_def demo_pt_def)

text \<open>
  C38: growing the heap by less than 2 GiB returns the requested address and sets the size of the
  heap region and of its object to the page-rounded distance; a smaller address is refused with
  \<^verbatim>\<open>-EINVAL\<close>. A request for exactly 4 GiB is also answered with success, but the size goes
  through an \<^verbatim>\<open>int\<close> and becomes 0: the heap is gone.
\<close>

theorem brk_grow_sizes:
  assumes h: "heap_vmr vs = Some h" "vmrs s h = Some vmr" "pmos s (vr_pmo vmr) = Some pmo"
    and d: "addr = user_current_heap vs + dist" "unat (user_current_heap vs) + unat dist < 2 ^ 64"
    and sz: "unat (user_current_heap vs) + unat (vr_size vmr) < 2 ^ 64"
  shows "(dist < vr_size vmr \<longrightarrow> brk_grow vs addr s = Inr (word_of_int (- EINVAL), s)) \<and>
    (vr_size vmr \<le> dist \<and> unat dist \<le> 2 ^ 31 - 4096 \<longrightarrow>
      (\<exists>s'. brk_grow vs addr s = Inr (addr, s') \<and> vmrs s' h = Some (vmr\<lparr>vr_size := ROUND_UP dist PAGE_SIZE\<rparr>) \<and>
        pmos s' (vr_pmo vmr) = Some (pmo\<lparr>pmo_size := ROUND_UP dist PAGE_SIZE\<rparr>))) \<and>
    (dist = 0x100000000 \<and> vr_size vmr \<le> dist \<longrightarrow>
      (\<exists>s'. brk_grow vs addr s = Inr (addr, s') \<and> vmrs s' h = Some (vmr\<lparr>vr_size := 0\<rparr>)))"
proof -
  let ?h = "user_current_heap vs"
  have u: "unat addr = unat ?h + unat dist" "unat (?h + vr_size vmr) = unat ?h + unat (vr_size vmr)"
    using d sz by (auto simp: unat_add_lem [THEN iffD1])
  have c: "addr \<ge> ?h + vr_size vmr \<longleftrightarrow> vr_size vmr \<le> dist"
    by (simp only: word_le_nat_alt u) simp
  have a: "addr - ?h = dist" using d(1) by simp
  have run: "brk_grow vs addr s = (if vr_size vmr \<le> dist
      then Inr (addr, s\<lparr>pmos := (pmos s)(vr_pmo vmr \<mapsto> pmo\<lparr>pmo_size := to_int (ROUND_UP dist PAGE_SIZE)\<rparr>),
                      vmrs := (vmrs s)(h \<mapsto> vmr\<lparr>vr_size := to_int (ROUND_UP dist PAGE_SIZE)\<rparr>)\<rparr>)
      else Inr (word_of_int (- EINVAL), s))"
    using h by (simp add: brk_grow_def c a Let_def)
  have small: "to_int (ROUND_UP dist PAGE_SIZE) = ROUND_UP dist PAGE_SIZE" if "unat dist \<le> 2 ^ 31 - 4096"
  proof (rule to_int_small)
    have "unat (ROUND_UP dist PAGE_SIZE) = (unat dist + 4095) div 4096 * 4096"
      using that by (simp add: page_round_up_unat)
    moreover have "(unat dist + 4095) div 4096 < 2 ^ 19" using that by (simp add: less_mult_imp_div_less)
    ultimately show "unat (ROUND_UP dist PAGE_SIZE) < 2 ^ 31" by simp
  qed
  have big: "to_int (ROUND_UP 0x100000000 PAGE_SIZE) = 0" by code_simp
  show ?thesis
    using small big by (auto simp: run not_le)
qed

theorem brk_grow_sizes_witness:
  "\<exists>s'. brk_grow demo_vs 0x100400000 demo_mm = Inr (0x100400000, s') \<and> vmrs s' 2 = Some ((reg demo_mm 2)\<lparr>vr_size := 0\<rparr>)"
  using brk_grow_sizes [where vs = demo_vs and s = demo_mm and h = 2 and vmr = "reg demo_mm 2" and
      pmo = "the (pmos demo_mm 7)" and dist = "0x100000000" and addr = "0x100400000"]
  by (simp add: demo_vs_def demo_mm_def reg_def)

text \<open>
  \<^verbatim>\<open>destroy_vmspace\<close> does not get through a non-empty region list: it frees the region
  and then follows the \<^verbatim>\<open>next\<close> pointer inside it.
\<close>

theorem destroy_reads_freed:
  "returns (destroy_vmspace vs s) \<longleftrightarrow> vmr_list vs = []"
proof (cases "vmr_list vs")
  case Nil
  then show ?thesis by (simp add: destroy_vmspace_def)
next
  case (Cons i "is")
  have "\<exists>e. destroy_loop (i # is) vs s = Inl e"
    by (auto simp: Let_def del_vmr_from_vmspace_def free_vmregion_def bindR_def deref_def
        split: sum.splits option.splits)
  then show ?thesis using Cons by (auto simp: destroy_vmspace_def)
qed

end
