(* ===== verification/Slab.thy ===== *)
theory Slab
  imports BuddyFree PageTable
begin

text \<open>
  The slab allocator (\<^verbatim>\<open>mm/slab.c\<close>) and \<^verbatim>\<open>kmalloc\<close>/\<^verbatim>\<open>kfree\<close>
  (\<^verbatim>\<open>mm/kmalloc.c\<close>) on top of the buddy allocator. The header of a slab and the
  \<^verbatim>\<open>next_free\<close> word of a slot are found under their addresses; NULL is the address 0. What the
  clients keep in their objects is not part of the state, except that the first word of an object is
  the word that holds \<^verbatim>\<open>next_free\<close> while the slot is free.
\<close>

definition SLAB_INIT_SIZE :: u64 where "SLAB_INIT_SIZE = 0x200000"
definition SLAB_MIN_ORDER :: nat where "SLAB_MIN_ORDER = 5"
definition SLAB_MAX_ORDER :: nat where "SLAB_MAX_ORDER = 11"

lemmas slab_consts = SLAB_INIT_SIZE_def SLAB_MIN_ORDER_def SLAB_MAX_ORDER_def

record slab_header =
  free_list_head :: u64
  next_slab :: u64
  sl_order :: nat

text \<open>
  \<open>meta_addr\<close> is the address of the metadata array of the pool (it matters for one expression:
  \<^verbatim>\<open>page_to_virt\<close> of a NULL page).
\<close>

record kheap =
  global_mem :: phys_mem_pool
  meta_addr :: u64
  hdrs :: "u64 \<Rightarrow> slab_header option"
  next_free :: "u64 \<Rightarrow> u64 option"
  slabs :: "u64 list"

text \<open>The loop that counts how often a value can be halved.\<close>

fun halve_loop :: "nat \<Rightarrow> nat \<Rightarrow> nat" where
  "halve_loop tmp order = (if tmp > 1 then halve_loop (tmp div 2) (order + 1) else order)"

declare halve_loop.simps [simp del]

text \<open>In \<^verbatim>\<open>size_to_order\<close> \<^verbatim>\<open>tmp\<close> is an \<^verbatim>\<open>int\<close>.\<close>

definition size_to_order :: "u64 \<Rightarrow> nat" where
  "size_to_order sz =
     (let order = halve_loop (nat (sint (ucast sz :: 32 word))) 0 in
      if unat sz > 2 ^ order then order + 1 else order)"

definition order_to_size :: "nat \<Rightarrow> u64" where
  "order_to_size order = push_bit order 1"

definition set_slab :: "u64 \<Rightarrow> u64 \<Rightarrow> phys_mem_pool \<Rightarrow> phys_mem_pool res" where
  "set_slab page_addr addr pool = upd_page (virt_to_page pool page_addr) (\<lambda>p. p\<lparr>pslab := addr\<rparr>) pool"

fun set_slabs :: "nat \<Rightarrow> u64 \<Rightarrow> u64 \<Rightarrow> phys_mem_pool \<Rightarrow> phys_mem_pool res" where
  "set_slabs 0 page_addr addr pool = Inr pool"
| "set_slabs (Suc n) page_addr addr pool =
     bindR (set_slab page_addr addr pool) (\<lambda>pool. set_slabs n (page_addr + BUDDY_PAGE_SIZE) addr pool)"

definition alloc_slab_memory :: "u64 \<Rightarrow> kheap \<Rightarrow> (u64 \<times> kheap) res" where
  "alloc_slab_memory sz s =
     (let order = size_to_order (sz div BUDDY_PAGE_SIZE) in
      bindR (buddy_get_pages (global_mem s) (of_nat order)) (\<lambda>(p_page, pool).
      case p_page of
        None \<Rightarrow> Inl BUG
      | Some page \<Rightarrow>
          let addr = page_to_virt pool page in
          bindR (set_slabs (unat (order_to_size order)) addr addr pool) (\<lambda>pool.
          Inr (addr, s\<lparr>global_mem := pool\<rparr>))))"

text \<open>The loop over the slots: \<open>n\<close> of them get a successor, the last one none.\<close>

fun link_slots :: "nat \<Rightarrow> u64 \<Rightarrow> u64 \<Rightarrow> (u64 \<Rightarrow> u64 option) \<Rightarrow> u64 \<Rightarrow> u64 option" where
  "link_slots 0 slot obj_size m = m(slot \<mapsto> 0)"
| "link_slots (Suc n) slot obj_size m =
     link_slots n (slot + obj_size) obj_size (m(slot \<mapsto> slot + obj_size))"

definition init_slab_cache :: "nat \<Rightarrow> u64 \<Rightarrow> kheap \<Rightarrow> (u64 \<times> kheap) res" where
  "init_slab_cache order sz s =
     bindR (alloc_slab_memory sz s) (\<lambda>(addr, s).
       let obj_size = order_to_size order;
           cnt = sz div obj_size - 1;
           slot = addr + obj_size
       in Inr (addr, s\<lparr>hdrs := (hdrs s)(addr \<mapsto> \<lparr>free_list_head = slot, next_slab = 0, sl_order = order\<rparr>),
                       next_free := link_slots (unat (cnt - 1)) slot obj_size (next_free s)\<rparr>))"

text \<open>Taking the first free slot of a slab; \<open>None\<close>: the slab is full.\<close>

definition pop_slot :: "u64 \<Rightarrow> kheap \<Rightarrow> (u64 option \<times> kheap) res" where
  "pop_slot slab s =
     bindR (deref (hdrs s slab)) (\<lambda>h.
       let first_slot = free_list_head h in
       if first_slot \<noteq> 0 then
         bindR (deref (next_free s first_slot)) (\<lambda>next_slot.
         Inr (Some first_slot, s\<lparr>hdrs := (hdrs s)(slab \<mapsto> h\<lparr>free_list_head := next_slot\<rparr>)\<rparr>))
       else Inr (None, s))"

text \<open>
  The walk over \<^verbatim>\<open>next_slab\<close>. \<open>fuel\<close> bounds the number of slabs visited: the code follows
  the pointers for ever if they form a cycle, and then the model is out of fuel (\<open>BUG\<close>).
\<close>

fun scan_slabs :: "nat \<Rightarrow> u64 \<Rightarrow> kheap \<Rightarrow> (u64 option \<times> kheap) res" where
  "scan_slabs 0 slab s = Inl BUG"
| "scan_slabs (Suc fuel) slab s =
     (if slab = 0 then Inr (None, s)
      else
        bindR (pop_slot slab s) (\<lambda>(r, s). case r of
          Some a \<Rightarrow> Inr (Some a, s)
        | None \<Rightarrow> bindR (deref (hdrs s slab)) (\<lambda>h. scan_slabs fuel (next_slab h) s)))"

text \<open>
  \<^verbatim>\<open>_alloc_in_slab_nolock\<close>. Its recursive call is made on a new slab, which has free slots, so it
  does not recurse again: the model pops a slot of the new slab.
\<close>

definition alloc_in_slab_nolock :: "nat \<Rightarrow> u64 \<Rightarrow> nat \<Rightarrow> kheap \<Rightarrow> (u64 \<times> kheap) res" where
  "alloc_in_slab_nolock fuel slab_header order s =
     bindR (pop_slot slab_header s) (\<lambda>(r, s). case r of
       Some a \<Rightarrow> Inr (a, s)
     | None \<Rightarrow>
         bindR (deref (hdrs s slab_header)) (\<lambda>h.
         bindR (scan_slabs fuel (next_slab h) s) (\<lambda>(r, s). case r of
           Some a \<Rightarrow> Inr (a, s)
         | None \<Rightarrow>
             bindR (init_slab_cache order SLAB_INIT_SIZE s) (\<lambda>(new_slab, s).
             bindR (deref (hdrs s new_slab)) (\<lambda>h.
             bindR (arr_set (slabs s) order new_slab) (\<lambda>sl.
             let s = s\<lparr>hdrs := (hdrs s)(new_slab \<mapsto> h\<lparr>next_slab := slab_header\<rparr>), slabs := sl\<rparr> in
             bindR (pop_slot new_slab s) (\<lambda>(r, s). bindR (deref r) (\<lambda>a. Inr (a, s)))))))))"

definition alloc_in_slab :: "nat \<Rightarrow> u64 \<Rightarrow> kheap \<Rightarrow> (u64 \<times> kheap) res" where
  "alloc_in_slab fuel sz s =
     bindR (bug_on (sz > order_to_size SLAB_MAX_ORDER)) (\<lambda>_.
       let order = size_to_order sz;
           order = (if order < SLAB_MIN_ORDER then SLAB_MIN_ORDER else order) in
       bindR (arr_get (slabs s) order) (\<lambda>slab. alloc_in_slab_nolock fuel slab order s))"

definition free_in_slab :: "u64 \<Rightarrow> kheap \<Rightarrow> kheap res" where
  "free_in_slab addr s =
     bindR (arr_get (page_metadata (global_mem s)) (virt_to_page (global_mem s) addr)) (\<lambda>page.
       let slab = pslab page in
       bindR (deref (hdrs s slab)) (\<lambda>h.
       Inr (s\<lparr>next_free := (next_free s)(addr \<mapsto> free_list_head h),
             hdrs := (hdrs s)(slab \<mapsto> h\<lparr>free_list_head := addr\<rparr>)\<rparr>)))"

fun init_slab_loop :: "nat \<Rightarrow> nat \<Rightarrow> kheap \<Rightarrow> kheap res" where
  "init_slab_loop 0 order s = Inr s"
| "init_slab_loop (Suc n) order s =
     bindR (init_slab_cache order SLAB_INIT_SIZE s) (\<lambda>(slab, s).
     bindR (arr_set (slabs s) order slab) (\<lambda>sl.
     init_slab_loop n (order + 1) (s\<lparr>slabs := sl\<rparr>)))"

definition init_slab :: "kheap \<Rightarrow> kheap res" where
  "init_slab = init_slab_loop (SLAB_MAX_ORDER + 1 - SLAB_MIN_ORDER) SLAB_MIN_ORDER"

section \<open>kmalloc\<close>

text \<open>
  The rounding in \<^verbatim>\<open>size_to_page_order\<close>; the shift \<^verbatim>\<open>1 << order\<close> is done on an
  \<^verbatim>\<open>int\<close> and has no meaning from 31 on.
\<close>

definition size_to_page_order :: "u64 \<Rightarrow> nat res" where
  "size_to_page_order sz =
     (let pg_num = ROUND_UP sz BUDDY_PAGE_SIZE div BUDDY_PAGE_SIZE;
          order = halve_loop (unat pg_num) 0 in
      if order \<ge> 31 then Inl WILD
      else Inr (if unat pg_num > 2 ^ order then order + 1 else order))"

text \<open>
  \<^verbatim>\<open>page_to_virt(&global_mem, p_page)\<close> when \<^verbatim>\<open>p_page\<close> may be NULL:
  the pointer difference is the difference of the addresses divided by
  \<^verbatim>\<open>sizeof(struct page)\<close>, which is 32.
\<close>

definition pages_virt :: "nat option \<Rightarrow> kheap \<Rightarrow> u64" where
  "pages_virt p_page s = (case p_page of
     Some page \<Rightarrow> page_to_virt (global_mem s) page
   | None \<Rightarrow> word_of_int (sint (- meta_addr s) div 32) * BUDDY_PAGE_SIZE + pool_start_addr (global_mem s))"

definition get_pages :: "u64 \<Rightarrow> kheap \<Rightarrow> (u64 \<times> kheap) res" where
  "get_pages order s =
     bindR (buddy_get_pages (global_mem s) order) (\<lambda>(p_page, pool).
       let s = s\<lparr>global_mem := pool\<rparr> in Inr (pages_virt p_page s, s))"

definition free_pages :: "u64 \<Rightarrow> kheap \<Rightarrow> kheap res" where
  "free_pages addr s =
     bindR (buddy_free_pages (global_mem s) (virt_to_page (global_mem s) addr)) (\<lambda>pool.
       Inr (s\<lparr>global_mem := pool\<rparr>))"

definition kmalloc :: "nat \<Rightarrow> u64 \<Rightarrow> kheap \<Rightarrow> (u64 \<times> kheap) res" where
  "kmalloc fuel sz s =
     (if sz \<le> order_to_size SLAB_MAX_ORDER then alloc_in_slab fuel sz s
      else
        bindR (if sz \<le> BUDDY_PAGE_SIZE then Inr 0 else size_to_page_order sz) (\<lambda>order.
        get_pages (of_nat order) s))"

text \<open>\<open>zeroed\<close> is the range that \<^verbatim>\<open>memset\<close> clears.\<close>

definition kzalloc :: "nat \<Rightarrow> u64 \<Rightarrow> kheap \<Rightarrow> (u64 \<times> (u64 \<times> u64) option \<times> kheap) res" where
  "kzalloc fuel sz s =
     bindR (kmalloc fuel sz s) (\<lambda>(ptr, s).
       if ptr = 0 then Inr (0, None, s) else Inr (ptr, Some (ptr, sz), s))"

text \<open>
  \<^verbatim>\<open>virt_to_page\<close> of an address outside the pool gives a pointer outside the array, which the
  code dereferences (the test \<^verbatim>\<open>p_page &&\<close> only excludes NULL).
\<close>

definition kfree :: "u64 \<Rightarrow> kheap \<Rightarrow> kheap res" where
  "kfree ptr s =
     (let p_page = virt_to_page (global_mem s) ptr in
      bindR (arr_get (page_metadata (global_mem s)) p_page) (\<lambda>page.
        if pslab page \<noteq> 0 then free_in_slab ptr s
        else bindR (buddy_free_pages (global_mem s) p_page) (\<lambda>pool. Inr (s\<lparr>global_mem := pool\<rparr>))))"

section \<open>Sizes and orders\<close>

lemma halve_loop_bounds:
  assumes "0 < n"
  shows "\<exists>j. halve_loop n k = k + j \<and> 2 ^ j \<le> n \<and> n < 2 ^ Suc j"
  using assms
proof (induction n k rule: halve_loop.induct)
  case (1 n k)
  show ?case
  proof (cases "n > 1")
    case True
    then obtain j where j: "halve_loop (n div 2) (k + 1) = (k + 1) + j" "2 ^ j \<le> n div 2" "n div 2 < 2 ^ Suc j"
      using 1(1) by auto
    then have "2 ^ Suc j \<le> n" "n < 2 ^ Suc (Suc j)" by auto
    then show ?thesis using j(1) True by (intro exI [of _ "Suc j"]) (simp add: halve_loop.simps)
  next
    case False
    then show ?thesis using 1(2) by (intro exI [of _ 0]) (simp add: halve_loop.simps)
  qed
qed

text \<open>The order computed for \<open>n\<close> units is the smallest whose block holds them.\<close>

lemma round_order:
  fixes n :: nat
  defines "k \<equiv> halve_loop n 0"
  defines "r \<equiv> if n > 2 ^ k then k + 1 else k"
  shows "n \<le> 2 ^ r \<and> (\<forall>j < r. 2 ^ j < n)"
proof (cases "n = 0")
  case True
  then show ?thesis by (simp add: r_def k_def halve_loop.simps)
next
  case False
  then have k: "2 ^ k \<le> n" "n < 2 ^ Suc k" using halve_loop_bounds [of n 0] by (auto simp: k_def)
  have "2 ^ j < n" if "j < r" for j
  proof (cases "n > 2 ^ k")
    case True
    then have "j \<le> k" using that by (simp add: r_def)
    then have "(2 :: nat) ^ j \<le> 2 ^ k" by simp
    then show ?thesis using True by (rule le_less_trans)
  next
    case False
    then have "j < k" using that by (simp add: r_def)
    then have "(2 :: nat) ^ j < 2 ^ k" by simp
    then show ?thesis using k(1) by (rule less_le_trans)
  qed
  moreover have "n \<le> 2 ^ r" using less_imp_le [OF k(2)] by (simp add: r_def not_less)
  ultimately show ?thesis by blast
qed

end
