(* ===== verification/Sched.thy ===== *)
theory Sched
  imports Prelude
begin

text \<open>
  The scheduler: \<^verbatim>\<open>sched/sched.c\<close>, \<^verbatim>\<open>sched/policy_rr.c\<close> and
  \<^verbatim>\<open>sched/context.c\<close>. A \<^verbatim>\<open>struct thread *\<close> is \<open>Thr\<close> of an object identifier or
  one of the static idle threads; its context is in a map (absent: the pointer \<^verbatim>\<open>thread_ctx\<close>
  is NULL or freed). A ready queue is the list of the threads linked in it. The CPU that executes an
  operation (\<^verbatim>\<open>smp_get_cpu_id\<close>, a system register) is its first argument. Scheduling
  contexts are found under their addresses, because a thread can hand its own to another one.
  \<open>kmem\<close> are the addresses that the next calls of \<^verbatim>\<open>kmalloc\<close> return, 0 for NULL.
\<close>

type_synonym s32 = "32 word"

datatype thread_ptr = Thr nat | Idle nat

datatype thread_state = TS_INIT | TS_READY | TS_INTER | TS_RUNNING | TS_EXIT | TS_WAITING | TS_EXITING

datatype thread_type = TYPE_IDLE | TYPE_ROOT | TYPE_USER | TYPE_SHADOW | TYPE_KERNEL | TYPE_TESTS

record thread_ctx =
  t_regs :: "u64 list"
  t_sc :: "nat option"
  t_type :: thread_type
  t_state :: thread_state
  t_prio :: u32
  t_affinity :: s32
  t_cpuid :: u32

record sched_state =
  ctxs :: "thread_ptr \<Rightarrow> thread_ctx option"
  rr_ready_queue :: "thread_ptr list list"
  current_threads :: "thread_ptr option list"
  thread_vmspace :: "thread_ptr \<Rightarrow> nat option"
  budgets :: "nat \<Rightarrow> u32 option"
  kmem :: "nat list"

definition PLAT_CPU_NUM :: nat where "PLAT_CPU_NUM = 4"
definition DEFAULT_BUDGET :: u32 where "DEFAULT_BUDGET = 2"
definition NO_AFF :: s32 where "NO_AFF = - 1"
definition MIN_PRIO :: u32 where "MIN_PRIO = 0"
definition REG_NUM :: nat where "REG_NUM = 35"

text \<open>Register numbers (\<^verbatim>\<open>enum reg_type\<close>) and the two values of SPSR.\<close>

definition X0 :: nat where "X0 = 0"
definition SP_EL0 :: nat where "SP_EL0 = 31"
definition ELR_EL1 :: nat where "ELR_EL1 = 32"
definition SPSR_EL1 :: nat where "SPSR_EL1 = 33"
definition SPSR_EL1_EL0t :: u64 where "SPSR_EL1_EL0t = 0"
definition SPSR_EL1_KERNEL :: u64 where "SPSR_EL1_KERNEL = 5"
definition SPSR_EL1_IRQ :: u64 where "SPSR_EL1_IRQ = BIT 7"

lemmas sched_consts = PLAT_CPU_NUM_def DEFAULT_BUDGET_def NO_AFF_def MIN_PRIO_def REG_NUM_def
  X0_def SP_EL0_def ELR_EL1_def SPSR_EL1_def SPSR_EL1_EL0t_def SPSR_EL1_KERNEL_def

definition upd_ctx :: "thread_ptr \<Rightarrow> (thread_ctx \<Rightarrow> thread_ctx) \<Rightarrow> sched_state \<Rightarrow> sched_state res" where
  "upd_ctx t f s = bindR (deref (ctxs s t)) (\<lambda>k. Inr (s\<lparr>ctxs := (ctxs s)(t \<mapsto> f k)\<rparr>))"

definition kmem_next :: "sched_state \<Rightarrow> nat \<times> sched_state" where
  "kmem_next s = (case kmem s of [] \<Rightarrow> (0, s) | b # bs \<Rightarrow> (b, s\<lparr>kmem := bs\<rparr>))"

text \<open>\<^verbatim>\<open>thread->thread_ctx->sc->budget\<close>, read and written.\<close>

definition get_budget :: "thread_ctx \<Rightarrow> sched_state \<Rightarrow> u32 res" where
  "get_budget k s = bindR (deref (t_sc k)) (\<lambda>p. deref (budgets s p))"

definition set_budget :: "thread_ctx \<Rightarrow> u32 \<Rightarrow> sched_state \<Rightarrow> sched_state res" where
  "set_budget k b s = bindR (deref (t_sc k)) (\<lambda>p. bindR (deref (budgets s p)) (\<lambda>_.
     Inr (s\<lparr>budgets := (budgets s)(p \<mapsto> b)\<rparr>)))"

section \<open>Thread contexts\<close>

text \<open>A context comes from \<^verbatim>\<open>kzalloc\<close>: all fields are zero.\<close>

definition zero_ctx :: thread_ctx where
  "zero_ctx = \<lparr>t_regs = replicate REG_NUM 0, t_sc = None, t_type = TYPE_IDLE, t_state = TS_INIT,
     t_prio = 0, t_affinity = 0, t_cpuid = 0\<rparr>"

definition create_thread_ctx :: "sched_state \<Rightarrow> thread_ctx option \<times> sched_state" where
  "create_thread_ctx s = (case kmem_next s of (a, s) \<Rightarrow> (if a \<noteq> 0 then Some zero_ctx else None, s))"

definition destroy_thread_ctx :: "thread_ptr \<Rightarrow> sched_state \<Rightarrow> sched_state res" where
  "destroy_thread_ctx t s = (case ctxs s t of
     None \<Rightarrow> Inl BUG | Some _ \<Rightarrow> Inr (s\<lparr>ctxs := (ctxs s)(t := None)\<rparr>))"

definition set_reg :: "nat \<Rightarrow> u64 \<Rightarrow> thread_ctx \<Rightarrow> thread_ctx" where
  "set_reg r v k = k\<lparr>t_regs := (t_regs k)[r := v]\<rparr>"

definition init_thread_ctx :: "thread_ptr \<Rightarrow> u64 \<Rightarrow> u64 \<Rightarrow> u32 \<Rightarrow> thread_type \<Rightarrow> s32 \<Rightarrow> sched_state \<Rightarrow> sched_state res" where
  "init_thread_ctx t stack func prio type aff s =
     bindR (upd_ctx t (\<lambda>k. set_reg SPSR_EL1 SPSR_EL1_EL0t (set_reg ELR_EL1 func (set_reg SP_EL0 stack k))) s) (\<lambda>s.
     bindR (upd_ctx t (\<lambda>k. k\<lparr>t_type := type, t_prio := prio, t_state := TS_INIT, t_affinity := aff\<rparr>) s) (\<lambda>s.
     case kmem_next s of (sc, s) \<Rightarrow>
       if sc = 0 then Inl WILD
       else upd_ctx t (\<lambda>k. k\<lparr>t_sc := Some sc\<rparr>) (s\<lparr>budgets := (budgets s)(sc \<mapsto> DEFAULT_BUDGET)\<rparr>)))"

definition get_reg :: "nat \<Rightarrow> thread_ptr \<Rightarrow> sched_state \<Rightarrow> u64 res" where
  "get_reg r t s = bindR (deref (ctxs s t)) (\<lambda>k. arr_get (t_regs k) r)"

definition arch_get_thread_stack :: "thread_ptr \<Rightarrow> sched_state \<Rightarrow> u64 res" where
  "arch_get_thread_stack = get_reg SP_EL0"

definition arch_set_thread_stack :: "thread_ptr \<Rightarrow> u64 \<Rightarrow> sched_state \<Rightarrow> sched_state res" where
  "arch_set_thread_stack t stack = upd_ctx t (set_reg SP_EL0 stack)"

definition arch_set_thread_return :: "thread_ptr \<Rightarrow> u64 \<Rightarrow> sched_state \<Rightarrow> sched_state res" where
  "arch_set_thread_return t ret = upd_ctx t (set_reg X0 ret)"

definition arch_set_thread_next_ip :: "thread_ptr \<Rightarrow> u64 \<Rightarrow> sched_state \<Rightarrow> sched_state res" where
  "arch_set_thread_next_ip t ip = upd_ctx t (set_reg ELR_EL1 ip)"

definition arch_get_thread_next_ip :: "thread_ptr \<Rightarrow> sched_state \<Rightarrow> u64 res" where
  "arch_get_thread_next_ip = get_reg ELR_EL1"

definition arch_set_thread_info_page :: "thread_ptr \<Rightarrow> u64 \<Rightarrow> sched_state \<Rightarrow> sched_state res" where
  "arch_set_thread_info_page t addr = upd_ctx t (set_reg X0 addr)"

definition arch_set_thread_arg :: "thread_ptr \<Rightarrow> u64 \<Rightarrow> sched_state \<Rightarrow> sched_state res" where
  "arch_set_thread_arg t arg = upd_ctx t (set_reg X0 arg)"

definition arch_enable_interrupt :: "thread_ptr \<Rightarrow> sched_state \<Rightarrow> sched_state res" where
  "arch_enable_interrupt t = upd_ctx t (\<lambda>k. set_reg SPSR_EL1 (t_regs k ! SPSR_EL1 AND NOT SPSR_EL1_IRQ) k)"

definition arch_disable_interrupt :: "thread_ptr \<Rightarrow> sched_state \<Rightarrow> sched_state res" where
  "arch_disable_interrupt t = upd_ctx t (\<lambda>k. set_reg SPSR_EL1 (t_regs k ! SPSR_EL1 OR SPSR_EL1_IRQ) k)"

definition arch_idle_ctx_init :: "thread_ptr \<Rightarrow> u64 \<Rightarrow> sched_state \<Rightarrow> sched_state res" where
  "arch_idle_ctx_init t func = upd_ctx t (\<lambda>k. set_reg ELR_EL1 func
     (set_reg SPSR_EL1 SPSR_EL1_KERNEL (k\<lparr>t_regs := replicate REG_NUM 0\<rparr>)))"

section \<open>The round-robin policy\<close>

text \<open>
  \<^verbatim>\<open>rr_sched_enqueue\<close>. The affinity is converted to an unsigned number, so a negative one other
  than \<^verbatim>\<open>NO_AFF\<close> is not a valid CPU.
\<close>

definition rr_sched_enqueue :: "nat \<Rightarrow> thread_ptr option \<Rightarrow> sched_state \<Rightarrow> (int \<times> sched_state) res" where
  "rr_sched_enqueue cpu thread s = (case thread of
     None \<Rightarrow> Inr (- EINVAL, s)
   | Some t \<Rightarrow> (case ctxs s t of
       None \<Rightarrow> Inr (- EINVAL, s)
     | Some k \<Rightarrow>
         if t_state k = TS_READY then Inr (- EINVAL, s)
         else if t_type k = TYPE_IDLE then Inr (0, s)
         else
           let cpu_id = (if t_affinity k \<noteq> NO_AFF then t_affinity k else of_nat cpu) in
           if t_affinity k \<noteq> NO_AFF \<and> cpu_id \<ge> of_nat PLAT_CPU_NUM then Inr (- EINVAL, s)
           else
             bindR (arr_get (rr_ready_queue s) (unat cpu_id)) (\<lambda>q.
             Inr (0, s\<lparr>rr_ready_queue := (rr_ready_queue s)[unat cpu_id := q @ [t]],
                       ctxs := (ctxs s)(t \<mapsto> k\<lparr>t_state := TS_READY, t_cpuid := cpu_id\<rparr>)\<rparr>))))"

text \<open>\<^verbatim>\<open>list_del\<close> of the queue node: from the queue it is in.\<close>

definition rq_del :: "thread_ptr \<Rightarrow> sched_state \<Rightarrow> sched_state res" where
  "rq_del t s =
     (if list_ex (\<lambda>q. t \<in> set q) (rr_ready_queue s)
      then Inr (s\<lparr>rr_ready_queue := map (remove1 t) (rr_ready_queue s)\<rparr>) else Inl WILD)"

definition rr_sched_dequeue :: "thread_ptr option \<Rightarrow> sched_state \<Rightarrow> (int \<times> sched_state) res" where
  "rr_sched_dequeue thread s = (case thread of
     None \<Rightarrow> Inr (- EINVAL, s)
   | Some t \<Rightarrow> (case ctxs s t of
       None \<Rightarrow> Inr (- EINVAL, s)
     | Some k \<Rightarrow>
         if t_state k \<noteq> TS_READY then Inr (- EINVAL, s)
         else if t_type k = TYPE_IDLE then Inr (0, s)
         else bindR (rq_del t s) (\<lambda>s.
           Inr (0, s\<lparr>ctxs := (ctxs s)(t \<mapsto> k\<lparr>t_state := TS_INTER\<rparr>)\<rparr>))))"

definition rr_sched_choose_thread :: "nat \<Rightarrow> sched_state \<Rightarrow> (thread_ptr option \<times> sched_state) res" where
  "rr_sched_choose_thread cpu s =
     bindR (arr_get (rr_ready_queue s) cpu) (\<lambda>q. case q of
       [] \<Rightarrow> Inr (Some (Idle cpu), s)
     | chosen_thread # _ \<Rightarrow>
         bindR (rr_sched_dequeue (Some chosen_thread) s) (\<lambda>(r, s).
         if r < 0 then Inr (None, s) else Inr (Some chosen_thread, s)))"

definition rr_sched_refill_budget :: "thread_ptr \<Rightarrow> u32 \<Rightarrow> sched_state \<Rightarrow> sched_state res" where
  "rr_sched_refill_budget target budget s =
     bindR (deref (ctxs s target)) (\<lambda>k. set_budget k budget s)"

definition switch_to_thread :: "nat \<Rightarrow> thread_ptr option \<Rightarrow> sched_state \<Rightarrow> (int \<times> sched_state) res" where
  "switch_to_thread cpu target s = (case target of
     None \<Rightarrow> Inl BUG
   | Some t \<Rightarrow> (case ctxs s t of
       None \<Rightarrow> Inl BUG
     | Some k \<Rightarrow>
         bindR (bug_on (t_state k = TS_READY)) (\<lambda>_.
         bindR (arr_set (current_threads s) cpu (Some t)) (\<lambda>cur.
         Inr (0, s\<lparr>ctxs := (ctxs s)(t \<mapsto> k\<lparr>t_cpuid := of_nat cpu, t_state := TS_RUNNING\<rparr>),
                   current_threads := cur\<rparr>)))))"

text \<open>\<open>has_budget t s\<close> is the test at the head of \<^verbatim>\<open>rr_sched\<close>.\<close>

definition has_budget :: "thread_ptr \<Rightarrow> sched_state \<Rightarrow> bool res" where
  "has_budget t s = (case ctxs s t of
     None \<Rightarrow> Inr False
   | Some k \<Rightarrow> (case t_sc k of None \<Rightarrow> Inr False
     | Some p \<Rightarrow> bindR (deref (budgets s p)) (\<lambda>b. Inr (b \<noteq> 0))))"

definition rr_sched :: "nat \<Rightarrow> sched_state \<Rightarrow> (int \<times> sched_state) res" where
  "rr_sched cpu s =
     bindR (arr_get (current_threads s) cpu) (\<lambda>current_thread.
     bindR (case current_thread of None \<Rightarrow> Inr False | Some t \<Rightarrow> has_budget t s) (\<lambda>hb.
       if hb then Inr (0, s)
       else
         bindR (case current_thread of None \<Rightarrow> Inr s
                | Some _ \<Rightarrow> bindR (rr_sched_enqueue cpu current_thread s) (\<lambda>(_, s). Inr s)) (\<lambda>s.
         bindR (rr_sched_choose_thread cpu s) (\<lambda>(target_thread, s). case target_thread of
           None \<Rightarrow> Inr (- EINVAL, s)
         | Some t \<Rightarrow>
             bindR (rr_sched_refill_budget t DEFAULT_BUDGET s) (\<lambda>s.
             switch_to_thread cpu (Some t) s)))))"

definition init_idle :: "u64 \<Rightarrow> nat \<Rightarrow> sched_state \<Rightarrow> sched_state res" where
  "init_idle idle_thread_routine i s = (case create_thread_ctx s of
     (None, s) \<Rightarrow> Inl BUG
   | (Some k, s) \<Rightarrow>
       let s = s\<lparr>ctxs := (ctxs s)(Idle i \<mapsto> k)\<rparr> in
       bindR (init_thread_ctx (Idle i) 0 0 MIN_PRIO TYPE_IDLE (of_nat i) s) (\<lambda>s.
       bindR (arch_idle_ctx_init (Idle i) idle_thread_routine s) (\<lambda>s.
       Inr (s\<lparr>thread_vmspace := (thread_vmspace s)(Idle i := None)\<rparr>))))"

fun init_idles :: "u64 \<Rightarrow> nat list \<Rightarrow> sched_state \<Rightarrow> sched_state res" where
  "init_idles f [] s = Inr s"
| "init_idles f (i # is) s = bindR (init_idle f i s) (init_idles f is)"

definition rr_sched_init :: "u64 \<Rightarrow> sched_state \<Rightarrow> (int \<times> sched_state) res" where
  "rr_sched_init idle_thread_routine s =
     bindR (init_idles idle_thread_routine [0..<PLAT_CPU_NUM]
       (s\<lparr>current_threads := replicate PLAT_CPU_NUM None, rr_ready_queue := replicate PLAT_CPU_NUM []\<rparr>))
       (\<lambda>s. Inr (0, s))"

definition rr_sched_handle_timer_irq :: "nat \<Rightarrow> sched_state \<Rightarrow> sched_state res" where
  "rr_sched_handle_timer_irq cpu s =
     bindR (arr_get (current_threads s) cpu) (\<lambda>current_thread. case current_thread of
       None \<Rightarrow> Inr s
     | Some t \<Rightarrow>
         bindR (deref (ctxs s t)) (\<lambda>k.
         bindR (get_budget k s) (\<lambda>budget.
           if budget > 0 then set_budget k (budget - 1) s else Inr s)))"

definition sched_is_running :: "thread_ptr option \<Rightarrow> sched_state \<Rightarrow> int res" where
  "sched_is_running target s = (case target of None \<Rightarrow> Inl BUG
   | Some t \<Rightarrow> (case ctxs s t of None \<Rightarrow> Inl BUG
     | Some k \<Rightarrow> Inr (if t_state k = TS_RUNNING then 1 else 0)))"

text \<open>
  The thread whose registers \<^verbatim>\<open>switch_context\<close> returns, and the address space it switches to.
\<close>

definition switch_context :: "nat \<Rightarrow> sched_state \<Rightarrow> (thread_ptr \<times> nat option) res" where
  "switch_context cpu s =
     bindR (arr_get (current_threads s) cpu) (\<lambda>target_thread. case target_thread of
       None \<Rightarrow> Inl BUG
     | Some t \<Rightarrow> (case ctxs s t of
         None \<Rightarrow> Inl BUG
       | Some k \<Rightarrow>
           if t_type k \<noteq> TYPE_IDLE \<and> t_type k \<noteq> TYPE_KERNEL \<and> t_type k \<noteq> TYPE_TESTS
           then bindR (bug_on (thread_vmspace s t = None)) (\<lambda>_. Inr (t, thread_vmspace s t))
           else Inr (t, None)))"

definition sys_yield :: "nat \<Rightarrow> sched_state \<Rightarrow> ((thread_ptr \<times> nat option) \<times> sched_state) res" where
  "sys_yield cpu s =
     bindR (arr_get (current_threads s) cpu) (\<lambda>current_thread.
     bindR (case current_thread of
         None \<Rightarrow> Inr s
       | Some t \<Rightarrow> (case ctxs s t of
           None \<Rightarrow> Inr s
         | Some k \<Rightarrow> set_budget k 0 s)) (\<lambda>s.
     bindR (rr_sched cpu s) (\<lambda>(_, s).
     bindR (switch_context cpu s) (\<lambda>r. Inr (r, s)))))"

text \<open>
  The affinity system calls after the capability has been resolved to a thread (NULL: no such
  thread). Both comparisons are signed.
\<close>

definition set_affinity_of :: "thread_ptr option \<Rightarrow> s32 \<Rightarrow> sched_state \<Rightarrow> (int \<times> sched_state) res" where
  "set_affinity_of thread aff s = (case thread of
     None \<Rightarrow> Inr (- ECAPBILITY, s)
   | Some t \<Rightarrow>
       if sint aff \<ge> int PLAT_CPU_NUM \<and> aff \<noteq> NO_AFF then Inr (- EINVAL, s)
       else bindR (upd_ctx t (\<lambda>k. k\<lparr>t_affinity := aff\<rparr>) s) (\<lambda>s. Inr (0, s)))"

definition get_affinity_of :: "thread_ptr option \<Rightarrow> sched_state \<Rightarrow> int res" where
  "get_affinity_of thread s = (case thread of
     None \<Rightarrow> Inr (- ECAPBILITY)
   | Some t \<Rightarrow> bindR (deref (ctxs s t)) (\<lambda>k. Inr (sint (t_affinity k))))"

section \<open>The invariant\<close>

definition sc_ok :: "sched_state \<Rightarrow> thread_ctx \<Rightarrow> bool" where
  "sc_ok s k \<longleftrightarrow> (\<exists>p b. t_sc k = Some p \<and> budgets s p = Some b)"

abbreviation queue :: "sched_state \<Rightarrow> nat \<Rightarrow> thread_ptr list" where
  "queue s c \<equiv> rr_ready_queue s ! c"

abbreviation current :: "sched_state \<Rightarrow> nat \<Rightarrow> thread_ptr option" where
  "current s c \<equiv> current_threads s ! c"

text \<open>The CPU a ready or running thread belongs to.\<close>

definition home :: "thread_ctx \<Rightarrow> nat" where
  "home k = unat (t_cpuid k)"

definition aff_ok :: "s32 \<Rightarrow> bool" where
  "aff_ok a \<longleftrightarrow> a = NO_AFF \<or> unat a < PLAT_CPU_NUM"

definition queued :: "sched_state \<Rightarrow> nat \<Rightarrow> thread_ptr \<Rightarrow> bool" where
  "queued s c t \<longleftrightarrow> (\<exists>k. ctxs s t = Some k \<and> t_state k = TS_READY \<and> home k = c)"

text \<open>
  \<open>X\<close> are the CPUs in the middle of a switch. Ready threads are exactly the queued ones, each once,
  in the queue of their CPU; threads other than the idle ones that run are exactly the current ones.
\<close>

definition sched_inv :: "nat set \<Rightarrow> sched_state \<Rightarrow> bool" where
  "sched_inv X s \<longleftrightarrow> length (rr_ready_queue s) = PLAT_CPU_NUM \<and> length (current_threads s) = PLAT_CPU_NUM \<and>
     (\<forall>c < PLAT_CPU_NUM. distinct (queue s c) \<and> (\<forall>t. t \<in> set (queue s c) \<longleftrightarrow> queued s c t)) \<and>
     (\<forall>t k. ctxs s t = Some k \<longrightarrow> sc_ok s k \<and> aff_ok (t_affinity k) \<and>
        (t_state k = TS_READY \<longrightarrow> home k < PLAT_CPU_NUM \<and> t_type k \<noteq> TYPE_IDLE) \<and>
        (t_type k = TYPE_IDLE \<longrightarrow> (\<exists>c. t = Idle c)) \<and>
        (t_state k = TS_RUNNING \<and> t_type k \<noteq> TYPE_IDLE \<longrightarrow>
           home k < PLAT_CPU_NUM \<and> home k \<notin> X \<and> current s (home k) = Some t)) \<and>
     (\<forall>c < PLAT_CPU_NUM. \<forall>t. c \<notin> X \<and> current s c = Some t \<longrightarrow>
        (\<exists>k. ctxs s t = Some k \<and> t_state k = TS_RUNNING \<and> home k = c \<and> (t_type k = TYPE_IDLE \<longrightarrow> t = Idle c))) \<and>
     (\<forall>c < PLAT_CPU_NUM. \<exists>k. ctxs s (Idle c) = Some k \<and> t_type k = TYPE_IDLE)"

abbreviation sched_ok :: "sched_state \<Rightarrow> bool" where "sched_ok \<equiv> sched_inv {}"

lemma sched_invD:
  assumes "sched_inv X s"
  shows "length (rr_ready_queue s) = PLAT_CPU_NUM" "length (current_threads s) = PLAT_CPU_NUM"
    "c < PLAT_CPU_NUM \<Longrightarrow> distinct (queue s c)" "c < PLAT_CPU_NUM \<Longrightarrow> t \<in> set (queue s c) \<longleftrightarrow> queued s c t"
    "ctxs s t = Some k \<Longrightarrow> sc_ok s k" "ctxs s t = Some k \<Longrightarrow> aff_ok (t_affinity k)"
    "ctxs s t = Some k \<Longrightarrow> t_state k = TS_READY \<Longrightarrow> home k < PLAT_CPU_NUM"
    "ctxs s t = Some k \<Longrightarrow> t_state k = TS_READY \<Longrightarrow> t_type k \<noteq> TYPE_IDLE"
    "ctxs s t = Some k \<Longrightarrow> t_type k = TYPE_IDLE \<Longrightarrow> \<exists>c. t = Idle c"
    "ctxs s t = Some k \<Longrightarrow> t_state k = TS_RUNNING \<Longrightarrow> t_type k \<noteq> TYPE_IDLE \<Longrightarrow>
       home k < PLAT_CPU_NUM \<and> home k \<notin> X \<and> current s (home k) = Some t"
    "c < PLAT_CPU_NUM \<Longrightarrow> c \<notin> X \<Longrightarrow> current s c = Some t \<Longrightarrow>
       \<exists>k. ctxs s t = Some k \<and> t_state k = TS_RUNNING \<and> home k = c \<and> (t_type k = TYPE_IDLE \<longrightarrow> t = Idle c)"
    "c < PLAT_CPU_NUM \<Longrightarrow> \<exists>k. ctxs s (Idle c) = Some k \<and> t_type k = TYPE_IDLE"
  using assms unfolding sched_inv_def by blast+

text \<open>Changing the context of one thread.\<close>

definition ctx_fine :: "nat set \<Rightarrow> sched_state \<Rightarrow> thread_ptr \<Rightarrow> thread_ctx \<Rightarrow> bool" where
  "ctx_fine X s t k \<longleftrightarrow> sc_ok s k \<and> aff_ok (t_affinity k) \<and>
     (t_type k = TYPE_IDLE \<longrightarrow> (\<exists>c. t = Idle c)) \<and>
     (\<forall>c < PLAT_CPU_NUM. t = Idle c \<longrightarrow> t_type k = TYPE_IDLE) \<and>
     (t_state k = TS_READY \<longrightarrow> home k < PLAT_CPU_NUM \<and> t_type k \<noteq> TYPE_IDLE) \<and>
     (t_state k = TS_RUNNING \<and> t_type k \<noteq> TYPE_IDLE \<longrightarrow> home k < PLAT_CPU_NUM \<and> home k \<notin> X \<and> current s (home k) = Some t)"

lemma sched_inv_upd:
  assumes inv: "sched_inv X s" and fine: "ctx_fine X' s t k" and X: "X' \<subseteq> X \<or> X \<subseteq> X'"
    and rq: "rr_ready_queue s' = qs" "length qs = PLAT_CPU_NUM"
      "\<And>c. c < PLAT_CPU_NUM \<Longrightarrow> distinct (qs ! c)"
      "\<And>c. c < PLAT_CPU_NUM \<Longrightarrow> set (qs ! c) = (if t_state k = TS_READY \<and> home k = c then insert t (set (queue s c)) else set (queue s c) - {t})"
    and s': "ctxs s' = (ctxs s)(t \<mapsto> k)" "current_threads s' = current_threads s" "budgets s' = budgets s"
    and other: "\<And>t' k'. t' \<noteq> t \<Longrightarrow> ctxs s t' = Some k' \<Longrightarrow> t_state k' = TS_RUNNING \<Longrightarrow> t_type k' \<noteq> TYPE_IDLE \<Longrightarrow> home k' \<notin> X'"
    and cur: "\<And>c. c < PLAT_CPU_NUM \<Longrightarrow> c \<notin> X' \<Longrightarrow> current s c = Some t \<Longrightarrow>
       t_state k = TS_RUNNING \<and> home k = c \<and> (t_type k = TYPE_IDLE \<longrightarrow> t = Idle c)"
    and bk: "\<And>c t'. c < PLAT_CPU_NUM \<Longrightarrow> c \<in> X - X' \<Longrightarrow> current s c = Some t' \<Longrightarrow> t' = t"
  shows "sched_inv X' s'"
proof -
  note d = sched_invD [OF inv]
  have q: "t' \<in> set (queue s' c) \<longleftrightarrow> queued s' c t'" if "c < PLAT_CPU_NUM" for c t'
    using d(4) [OF that, of t'] rq(4) [OF that] that unfolding queued_def by (auto simp: s' rq(1) split: if_splits)
  have c: "\<exists>k'. ctxs s' t' = Some k' \<and> t_state k' = TS_RUNNING \<and> home k' = c \<and> (t_type k' = TYPE_IDLE \<longrightarrow> t' = Idle c)"
    if "c < PLAT_CPU_NUM" "c \<notin> X'" "current s' c = Some t'" for c t'
  proof (cases "t' = t")
    case True
    then show ?thesis using cur [OF that(1,2)] that(3) by (simp add: s')
  next
    case False
    then have "c \<notin> X" using bk [OF that(1)] that by (auto simp: s')
    then show ?thesis using d(11) [OF that(1), of t'] that(3) False by (auto simp: s')
  qed
  have i: "\<exists>k'. ctxs s' (Idle c) = Some k' \<and> t_type k' = TYPE_IDLE" if "c < PLAT_CPU_NUM" for c
    using d(12) [OF that] fine that by (auto simp: s' ctx_fine_def)
  have sc: "sc_ok s' k' = sc_ok s k'" for k' by (simp add: sc_ok_def s')
  have k: "sc_ok s' k' \<and> aff_ok (t_affinity k') \<and>
        (t_state k' = TS_READY \<longrightarrow> home k' < PLAT_CPU_NUM \<and> t_type k' \<noteq> TYPE_IDLE) \<and>
        (t_type k' = TYPE_IDLE \<longrightarrow> (\<exists>c. t' = Idle c)) \<and>
        (t_state k' = TS_RUNNING \<and> t_type k' \<noteq> TYPE_IDLE \<longrightarrow>
           home k' < PLAT_CPU_NUM \<and> home k' \<notin> X' \<and> current s' (home k') = Some t')"
    if "ctxs s' t' = Some k'" for t' k'
  proof (cases "t' = t")
    case True
    then show ?thesis using fine that unfolding ctx_fine_def by (simp add: s' sc)
  next
    case False
    then have a: "ctxs s t' = Some k'" using that by (simp add: s')
    show ?thesis using d(5-10) [OF a] other [OF False a] by (simp add: s' sc)
  qed
  show ?thesis
    unfolding sched_inv_def using q c i k rq(2,3) d(2) by (simp add: s'(2) rq(1))
qed

definition target_cpu :: "nat \<Rightarrow> thread_ctx \<Rightarrow> nat" where
  "target_cpu c k = (if t_affinity k = NO_AFF then c else unat (t_affinity k))"

lemma enqueue_spec:
  assumes inv: "sched_inv X s" and c: "c < PLAT_CPU_NUM" and k: "ctxs s t = Some k" "t_state k \<noteq> TS_READY" "t_type k \<noteq> TYPE_IDLE"
    and X': "X' = X \<union> (if t_state k = TS_RUNNING then {home k} else {})"
  shows "\<exists>s'. rr_sched_enqueue c (Some t) s = Inr (0, s') \<and> sched_inv X' s' \<and>
    rr_ready_queue s' = (rr_ready_queue s)[target_cpu c k := queue s (target_cpu c k) @ [t]] \<and>
    current_threads s' = current_threads s \<and> (\<forall>t'. t' \<noteq> t \<longrightarrow> ctxs s' t' = ctxs s t')"
proof -
  note d = sched_invD [OF inv]
  let ?d = "target_cpu c k"
  define w where "w = (if t_affinity k \<noteq> NO_AFF then t_affinity k else of_nat c)"
  define k' where "k' = k\<lparr>t_state := TS_READY, t_cpuid := w\<rparr>"
  define s' where "s' = s\<lparr>rr_ready_queue := (rr_ready_queue s)[unat w := queue s (unat w) @ [t]], ctxs := (ctxs s)(t \<mapsto> k')\<rparr>"
  have c32: "unat (of_nat c :: 32 word) = c"
    using c by (simp add: sched_consts unat_of_nat take_bit_nat_eq_self)
  have w: "unat w = ?d" using c32 by (simp add: w_def target_cpu_def)
  have lt: "?d < PLAT_CPU_NUM" using d(6) [OF k(1)] c by (auto simp: aff_ok_def target_cpu_def)
  have run: "rr_sched_enqueue c (Some t) s = Inr (0, s')"
    using k lt w d(1)
    by (auto simp: rr_sched_enqueue_def Let_def s'_def k'_def w_def target_cpu_def sched_consts word_le_nat_alt split: if_splits)
  have notin: "t \<notin> set (queue s e)" if "e < PLAT_CPU_NUM" for e
    using d(4) [OF that, of t] k by (auto simp: queued_def)
  have h: "home k' = ?d" using w by (simp add: k'_def home_def)
  have "sched_inv X' s'"
  proof (rule sched_inv_upd [OF inv])
    show "ctx_fine X' s t k'"
      using d(5,6,9) [OF k(1)] k(3) h lt d(12) k(1) by (fastforce simp: ctx_fine_def k'_def sc_ok_def)
    show "distinct (((rr_ready_queue s)[?d := queue s ?d @ [t]]) ! e)" if "e < PLAT_CPU_NUM" for e
      using d(3) [OF that] notin [OF that] d(1) that lt by (simp add: nth_list_update)
    show "set (((rr_ready_queue s)[?d := queue s ?d @ [t]]) ! e) =
        (if t_state k' = TS_READY \<and> home k' = e then insert t (set (queue s e)) else set (queue s e) - {t})" if "e < PLAT_CPU_NUM" for e
      using notin [OF that] d(1) that h lt by (auto simp: nth_list_update k'_def)
    show "home k'' \<notin> X'" if "t' \<noteq> t" "ctxs s t' = Some k''" "t_state k'' = TS_RUNNING" "t_type k'' \<noteq> TYPE_IDLE" for t' k''
    proof (cases "t_state k = TS_RUNNING")
      case True
      then show ?thesis using d(10) [OF that(2-4)] d(10) [OF k(1) True k(3)] that(1) X' by auto
    next
      case False
      then show ?thesis using d(10) [OF that(2-4)] X' by auto
    qed
    show "t_state k' = TS_RUNNING \<and> home k' = e \<and> (t_type k' = TYPE_IDLE \<longrightarrow> t = Idle e)"
      if "e < PLAT_CPU_NUM" "e \<notin> X'" "current s e = Some t" for e
      using d(11) [OF that(1) _ that(3)] that(2) X' k(1) by (auto split: if_splits)
    show "t' = t" if "e \<in> X - X'" for e t' using that X' by auto
  qed (use X' w d(1) in \<open>auto simp: s'_def\<close>)
  then show ?thesis using run w by (auto simp: s'_def)
qed

lemma dequeue_spec:
  assumes inv: "sched_inv X s" and k: "ctxs s t = Some k" "t_state k = TS_READY"
  shows "\<exists>s'. rr_sched_dequeue (Some t) s = Inr (0, s') \<and> sched_inv X s' \<and>
    rr_ready_queue s' = map (remove1 t) (rr_ready_queue s) \<and> current_threads s' = current_threads s \<and>
    ctxs s' = (ctxs s)(t \<mapsto> k\<lparr>t_state := TS_INTER\<rparr>)"
proof -
  note d = sched_invD [OF inv]
  have h: "home k < PLAT_CPU_NUM" and ty: "t_type k \<noteq> TYPE_IDLE" using d(7,8) [OF k] by auto
  have "t \<in> set (queue s (home k))" using d(4) [OF h] k by (auto simp: queued_def)
  then have mem: "list_ex (\<lambda>q. t \<in> set q) (rr_ready_queue s)" using h d(1) by (auto simp: list_ex_iff)
  define s' where "s' = s\<lparr>rr_ready_queue := map (remove1 t) (rr_ready_queue s), ctxs := (ctxs s)(t \<mapsto> k\<lparr>t_state := TS_INTER\<rparr>)\<rparr>"
  have run: "rr_sched_dequeue (Some t) s = Inr (0, s')"
    using k ty mem by (simp add: rr_sched_dequeue_def rq_del_def s'_def)
  have "sched_inv X s'"
  proof (rule sched_inv_upd [OF inv])
    show "ctx_fine X s t (k\<lparr>t_state := TS_INTER\<rparr>)"
      using d(5,6,9) [OF k(1)] ty d(12) k(1) by (fastforce simp: ctx_fine_def sc_ok_def)
    show "distinct (map (remove1 t) (rr_ready_queue s) ! e)" if "e < PLAT_CPU_NUM" for e
      using d(3) [OF that] d(1) that by simp
    show "set (map (remove1 t) (rr_ready_queue s) ! e) =
        (if t_state (k\<lparr>t_state := TS_INTER\<rparr>) = TS_READY \<and> home (k\<lparr>t_state := TS_INTER\<rparr>) = e
         then insert t (set (queue s e)) else set (queue s e) - {t})" if "e < PLAT_CPU_NUM" for e
      using d(3) [OF that] d(1) that by (simp add: set_remove1_eq)
    show "home k'' \<notin> X" if "t' \<noteq> t" "ctxs s t' = Some k''" "t_state k'' = TS_RUNNING" "t_type k'' \<noteq> TYPE_IDLE" for t' k''
      using d(10) [OF that(2-4)] by blast
    show "t_state (k\<lparr>t_state := TS_INTER\<rparr>) = TS_RUNNING \<and> home (k\<lparr>t_state := TS_INTER\<rparr>) = e \<and>
        (t_type (k\<lparr>t_state := TS_INTER\<rparr>) = TYPE_IDLE \<longrightarrow> t = Idle e)"
      if "e < PLAT_CPU_NUM" "e \<notin> X" "current s e = Some t" for e
      using d(11) [OF that] k by auto
  qed (use d(1) in \<open>auto simp: s'_def\<close>)
  then show ?thesis using run by (auto simp: s'_def)
qed

lemma choose_spec:
  assumes inv: "sched_inv X s" and c: "c < PLAT_CPU_NUM"
  obtains (idle) "queue s c = []" "rr_sched_choose_thread c s = Inr (Some (Idle c), s)"
  | (ready) t ts s' k where "queue s c = t # ts" "rr_sched_choose_thread c s = Inr (Some t, s')" "sched_inv X s'"
      "rr_ready_queue s' = (rr_ready_queue s)[c := ts]" "current_threads s' = current_threads s"
      "ctxs s' t = Some k" "t_state k = TS_INTER" "t_type k \<noteq> TYPE_IDLE"
proof (cases "queue s c")
  case Nil
  then show thesis using idle sched_invD(1) [OF inv] c by (simp add: rr_sched_choose_thread_def)
next
  case (Cons t ts)
  note d = sched_invD [OF inv]
  have "t \<in> set (queue s c)" using Cons by simp
  then obtain k where k: "ctxs s t = Some k" "t_state k = TS_READY" "home k = c"
    using d(4) [OF c, of t] by (auto simp: queued_def)
  obtain s' where s': "rr_sched_dequeue (Some t) s = Inr (0, s')" "sched_inv X s'"
    "rr_ready_queue s' = map (remove1 t) (rr_ready_queue s)" "current_threads s' = current_threads s"
    "ctxs s' = (ctxs s)(t \<mapsto> k\<lparr>t_state := TS_INTER\<rparr>)"
    using dequeue_spec [OF inv k(1,2)] by blast
  have "t \<notin> set (queue s e)" if "e < PLAT_CPU_NUM" "e \<noteq> c" for e
    using d(4) [OF that(1), of t] k that(2) by (auto simp: queued_def)
  then have "map (remove1 t) (rr_ready_queue s) = (rr_ready_queue s)[c := ts]"
    using Cons d(1) c by (intro nth_equalityI) (auto simp: nth_list_update remove1_idem)
  moreover have "rr_sched_choose_thread c s = Inr (Some t, s')"
    using Cons d(1) c s'(1) by (simp add: rr_sched_choose_thread_def)
  ultimately show thesis using ready [OF Cons _ s'(2), of "k\<lparr>t_state := TS_INTER\<rparr>"] s' d(8) [OF k(1,2)] by simp
qed

lemma set_budget_inv:
  assumes inv: "sched_inv X s" and p: "budgets s p = Some b0"
  shows "sched_inv X (s\<lparr>budgets := (budgets s)(p \<mapsto> b)\<rparr>)"
proof -
  have "sc_ok (s\<lparr>budgets := (budgets s)(p \<mapsto> b)\<rparr>) k = sc_ok s k" for k
    using p by (auto simp: sc_ok_def)
  then show ?thesis using inv unfolding sched_inv_def queued_def by simp
qed

lemma set_current_inv:
  assumes inv: "sched_inv {c} s" and c: "c < PLAT_CPU_NUM"
  shows "sched_inv {c} (s\<lparr>current_threads := (current_threads s)[c := x]\<rparr>)"
proof -
  note d = sched_invD [OF inv]
  have r: "home k < PLAT_CPU_NUM \<and> home k \<notin> {c} \<and> (current_threads s)[c := x] ! home k = Some t"
    if "ctxs s t = Some k" "t_state k = TS_RUNNING" "t_type k \<noteq> TYPE_IDLE" for t k
    using d(10) [OF that] by simp
  show ?thesis using inv r unfolding sched_inv_def queued_def sc_ok_def by (simp cong: conj_cong)
qed

lemma switch_inv:
  assumes inv: "sched_inv {c} s" and c: "c < PLAT_CPU_NUM" and k: "ctxs s t = Some k" "t_state k \<noteq> TS_READY"
    and nr: "t_type k \<noteq> TYPE_IDLE \<Longrightarrow> t_state k \<noteq> TS_RUNNING" and idle: "t_type k = TYPE_IDLE \<Longrightarrow> t = Idle c"
  shows "\<exists>s'. switch_to_thread c (Some t) s = Inr (0, s') \<and> sched_ok s' \<and> rr_ready_queue s' = rr_ready_queue s \<and>
    current_threads s' = (current_threads s)[c := Some t] \<and> budgets s' = budgets s \<and>
    ctxs s' = (ctxs s)(t \<mapsto> k\<lparr>t_cpuid := of_nat c, t_state := TS_RUNNING\<rparr>)"
proof -
  note d = sched_invD [OF inv]
  define k' where "k' = k\<lparr>t_cpuid := of_nat c, t_state := TS_RUNNING\<rparr>"
  define s1 where "s1 = s\<lparr>current_threads := (current_threads s)[c := Some t]\<rparr>"
  define s' where "s' = s1\<lparr>ctxs := (ctxs s1)(t \<mapsto> k')\<rparr>"
  have inv1: "sched_inv {c} s1" unfolding s1_def by (rule set_current_inv [OF inv c])
  note d1 = sched_invD [OF inv1]
  have k1: "ctxs s1 t = Some k" using k by (simp add: s1_def)
  have cur: "current s1 c = Some t" using c d(2) by (simp add: s1_def)
  have h: "home k' = c"
    using c by (simp add: k'_def home_def sched_consts unat_of_nat take_bit_nat_eq_self)
  have len: "c < length (current_threads s)" using c d(2) by simp
  have run: "switch_to_thread c (Some t) s = Inr (0, s')"
    unfolding switch_to_thread_def option.case k(1) arr_set_in [OF len]
    using k(2) by (simp add: s'_def s1_def k'_def)
  have "sched_ok s'"
  proof (rule sched_inv_upd [OF inv1])
    have "t_type k = TYPE_IDLE" if "e < PLAT_CPU_NUM" "t = Idle e" for e
      using d1(12) [OF that(1)] k1 that(2) by auto
    then show "ctx_fine {} s1 t k'"
      using d1(5,6,9) [OF k1] h c cur unfolding ctx_fine_def by (simp add: k'_def sc_ok_def)
    show "set (queue s1 e) = (if t_state k' = TS_READY \<and> home k' = e then insert t (set (queue s1 e)) else set (queue s1 e) - {t})"
      if "e < PLAT_CPU_NUM" for e
      using d1(4) [OF that, of t] k1 k(2) by (auto simp: queued_def k'_def)
    show "t_state k' = TS_RUNNING \<and> home k' = e \<and> (t_type k' = TYPE_IDLE \<longrightarrow> t = Idle e)"
      if e: "e < PLAT_CPU_NUM" "current s1 e = Some t" for e
    proof (cases "e = c")
      case True
      then show ?thesis using h idle by (auto simp: k'_def)
    next
      case False
      then show ?thesis using d1(11) [OF e(1) _ e(2)] k1 nr idle by auto
    qed
    show "t' = t" if "e \<in> {c} - {}" "current s1 e = Some t'" for e t' using that cur by simp
    show "distinct (queue s1 e)" if "e < PLAT_CPU_NUM" for e using d1(3) [OF that] .
  qed (use d1(1) in \<open>auto simp: s'_def\<close>)
  then show ?thesis using run by (auto simp: s'_def s1_def k'_def)
qed

text \<open>The budget of the thread in a context.\<close>

definition budget_of :: "thread_ptr \<Rightarrow> sched_state \<Rightarrow> u32 option" where
  "budget_of t s = (case ctxs s t of None \<Rightarrow> None | Some k \<Rightarrow> (case t_sc k of None \<Rightarrow> None | Some p \<Rightarrow> budgets s p))"

lemma switch_spec:
  assumes inv: "sched_inv {c} s" and c: "c < PLAT_CPU_NUM" and k: "ctxs s t = Some k" "t_state k \<noteq> TS_READY"
    and nr: "t_type k \<noteq> TYPE_IDLE \<Longrightarrow> t_state k \<noteq> TS_RUNNING" and idle: "t_type k = TYPE_IDLE \<Longrightarrow> t = Idle c"
  shows "\<exists>s'. bindR (rr_sched_refill_budget t DEFAULT_BUDGET s) (\<lambda>s. switch_to_thread c (Some t) s) = Inr (0, s') \<and>
    sched_ok s' \<and> rr_ready_queue s' = rr_ready_queue s \<and> current_threads s' = (current_threads s)[c := Some t] \<and>
    budget_of t s' = Some DEFAULT_BUDGET"
proof -
  obtain p b where p: "t_sc k = Some p" "budgets s p = Some b" using sched_invD(5) [OF inv k(1)] by (auto simp: sc_ok_def)
  let ?s = "s\<lparr>budgets := (budgets s)(p \<mapsto> DEFAULT_BUDGET)\<rparr>"
  have "rr_sched_refill_budget t DEFAULT_BUDGET s = Inr ?s"
    using k(1) p by (simp add: rr_sched_refill_budget_def set_budget_def)
  moreover obtain s' where s': "switch_to_thread c (Some t) ?s = Inr (0, s')" "sched_ok s'"
    "rr_ready_queue s' = rr_ready_queue ?s" "current_threads s' = (current_threads ?s)[c := Some t]"
    "budgets s' = budgets ?s" "ctxs s' = (ctxs ?s)(t \<mapsto> k\<lparr>t_cpuid := of_nat c, t_state := TS_RUNNING\<rparr>)"
    using switch_inv [OF set_budget_inv [OF inv p(2)] c _ k(2) nr idle] k(1) by auto
  ultimately show ?thesis using p(1) by (simp add: budget_of_def)
qed

text \<open>The queues after the current thread has been put back.\<close>

definition requeued :: "nat \<Rightarrow> sched_state \<Rightarrow> thread_ptr list list" where
  "requeued c s = (case current s c of
     None \<Rightarrow> rr_ready_queue s
   | Some t \<Rightarrow> (let k = the (ctxs s t) in
       if t_type k = TYPE_IDLE then rr_ready_queue s
       else (rr_ready_queue s)[target_cpu c k := queue s (target_cpu c k) @ [t]]))"

lemma weaken_idle:
  assumes inv: "sched_ok s" and c: "\<And>t k. current s c = Some t \<Longrightarrow> ctxs s t = Some k \<Longrightarrow> t_type k = TYPE_IDLE"
  shows "sched_inv {c} s"
proof -
  have "home k \<noteq> c" if "ctxs s t = Some k" "t_state k = TS_RUNNING" "t_type k \<noteq> TYPE_IDLE" for t k
    using sched_invD(10) [OF inv that] c [of t k] that by auto
  then show ?thesis using inv unfolding sched_inv_def by simp
qed

lemma requeue_spec:
  assumes inv: "sched_ok s" and c: "c < PLAT_CPU_NUM"
  shows "\<exists>s1. (case current s c of None \<Rightarrow> Inr s
      | Some _ \<Rightarrow> bindR (rr_sched_enqueue c (current s c) s) (\<lambda>(_, s). Inr s)) = Inr s1 \<and>
    sched_inv {c} s1 \<and> rr_ready_queue s1 = requeued c s \<and> current_threads s1 = current_threads s"
proof (cases "current s c")
  case None
  then show ?thesis using weaken_idle [OF inv, of c] by (simp add: requeued_def)
next
  case (Some t)
  obtain k where k: "ctxs s t = Some k" "t_state k = TS_RUNNING" "home k = c"
    using sched_invD(11) [OF inv c _ Some] by blast
  show ?thesis
  proof (cases "t_type k = TYPE_IDLE")
    case True
    then have "rr_sched_enqueue c (Some t) s = Inr (0, s)" using k by (simp add: rr_sched_enqueue_def)
    moreover have "sched_inv {c} s" by (rule weaken_idle [OF inv]) (use Some True k in auto)
    ultimately show ?thesis using Some True k by (simp add: requeued_def)
  next
    case False
    obtain s' where "rr_sched_enqueue c (Some t) s = Inr (0, s')" "sched_inv {c} s'"
      "rr_ready_queue s' = (rr_ready_queue s)[target_cpu c k := queue s (target_cpu c k) @ [t]]"
      "current_threads s' = current_threads s"
      using enqueue_spec [OF inv c k(1) _ False refl] k by auto
    then show ?thesis using Some False k by (simp add: requeued_def)
  qed
qed

definition exhausted :: "nat \<Rightarrow> sched_state \<Rightarrow> bool" where
  "exhausted c s \<longleftrightarrow> (case current s c of None \<Rightarrow> True | Some t \<Rightarrow> has_budget t s = Inr False)"

lemma rr_sched_spec:
  assumes inv: "sched_ok s" and c: "c < PLAT_CPU_NUM" and ex: "exhausted c s"
  shows "\<exists>s' t. rr_sched c s = Inr (0, s') \<and> sched_ok s' \<and> current_threads s' = (current_threads s)[c := Some t] \<and>
    (t, rr_ready_queue s') = (case requeued c s ! c of [] \<Rightarrow> (Idle c, requeued c s) | t # ts \<Rightarrow> (t, (requeued c s)[c := ts])) \<and>
    budget_of t s' = Some DEFAULT_BUDGET"
proof -
  obtain s1 where s1: "(case current s c of None \<Rightarrow> Inr s
      | Some _ \<Rightarrow> bindR (rr_sched_enqueue c (current s c) s) (\<lambda>(_, s). Inr s)) = Inr s1"
    "sched_inv {c} s1" "rr_ready_queue s1 = requeued c s" "current_threads s1 = current_threads s"
    using requeue_spec [OF inv c] by blast
  have cur: "arr_get (current_threads s) c = Inr (current s c)" using sched_invD(2) [OF inv] c by simp
  have start: "rr_sched c s = bindR (rr_sched_choose_thread c s1) (\<lambda>(target_thread, s). case target_thread of
           None \<Rightarrow> Inr (- EINVAL, s)
         | Some t \<Rightarrow> bindR (rr_sched_refill_budget t DEFAULT_BUDGET s) (\<lambda>s. switch_to_thread c (Some t) s))"
    using ex unfolding rr_sched_def cur bindR_simps s1(1) by (cases "current s c") (simp_all add: exhausted_def)
  show ?thesis
  proof (rule choose_spec [OF s1(2) c])
    assume q: "queue s1 c = []" "rr_sched_choose_thread c s1 = Inr (Some (Idle c), s1)"
    obtain k where k: "ctxs s1 (Idle c) = Some k" "t_type k = TYPE_IDLE" using sched_invD(12) [OF s1(2) c] by blast
    have "t_state k \<noteq> TS_READY" using sched_invD(8) [OF s1(2) k(1)] k(2) by blast
    from switch_spec [OF s1(2) c k(1) this] show ?thesis using start q s1 k(2) by auto
  next
    fix t ts s2 k
    assume q: "queue s1 c = t # ts" "rr_sched_choose_thread c s1 = Inr (Some t, s2)" "sched_inv {c} s2"
      "rr_ready_queue s2 = (rr_ready_queue s1)[c := ts]" "current_threads s2 = current_threads s1"
      "ctxs s2 t = Some k" "t_state k = TS_INTER" "t_type k \<noteq> TYPE_IDLE"
    then show ?thesis using switch_spec [OF q(3) c q(6)] start s1 by auto
  qed
qed

text \<open>Changes of a context that the invariant does not look at.\<close>

lemma upd_ctx_inv:
  assumes inv: "sched_inv X s" and k: "ctxs s t = Some k"
    and same: "t_state k' = t_state k" "t_type k' = t_type k" "t_cpuid k' = t_cpuid k"
    and ok: "sc_ok s k'" "aff_ok (t_affinity k')"
  shows "sched_inv X (s\<lparr>ctxs := (ctxs s)(t \<mapsto> k')\<rparr>)"
proof -
  note d = sched_invD [OF inv]
  have h: "home k' = home k" by (simp add: home_def same)
  show ?thesis
  proof (rule sched_inv_upd [OF inv])
    have "t_type k = TYPE_IDLE" if "e < PLAT_CPU_NUM" "t = Idle e" for e
      using d(12) [OF that(1)] k that(2) by auto
    then show "ctx_fine X s t k'"
      unfolding ctx_fine_def h same using d(7,8,9,10) [OF k] ok by blast
    show "set (queue s e) = (if t_state k' = TS_READY \<and> home k' = e then insert t (set (queue s e)) else set (queue s e) - {t})"
      if "e < PLAT_CPU_NUM" for e
      using d(4) [OF that, of t] k h same by (auto simp: queued_def)
    show "home k'' \<notin> X" if "t' \<noteq> t" "ctxs s t' = Some k''" "t_state k'' = TS_RUNNING" "t_type k'' \<noteq> TYPE_IDLE" for t' k''
      using d(10) [OF that(2-4)] by blast
    show "t_state k' = TS_RUNNING \<and> home k' = e \<and> (t_type k' = TYPE_IDLE \<longrightarrow> t = Idle e)"
      if "e < PLAT_CPU_NUM" "e \<notin> X" "current s e = Some t" for e
      using d(11) [OF that] k h same by auto
    show "distinct (queue s e)" if "e < PLAT_CPU_NUM" for e using d(3) [OF that] .
  qed (use d(1) in auto)
qed

lemma current_ctx:
  assumes "sched_ok s" "c < PLAT_CPU_NUM" "current s c = Some t"
  obtains k p b where "ctxs s t = Some k" "t_sc k = Some p" "budgets s p = Some b" "t_state k = TS_RUNNING"
proof -
  obtain k where "ctxs s t = Some k" "t_state k = TS_RUNNING" using sched_invD(11) [OF assms(1,2) _ assms(3)] by blast
  then show thesis using that sched_invD(5) [OF assms(1)] unfolding sc_ok_def by blast
qed

text \<open>The scheduling context of the current thread gets the budget \<open>f b\<close>.\<close>

definition map_budget :: "nat \<Rightarrow> (u32 \<Rightarrow> u32) \<Rightarrow> sched_state \<Rightarrow> sched_state" where
  "map_budget c f s = (case current s c of None \<Rightarrow> s
     | Some t \<Rightarrow> (let p = the (t_sc (the (ctxs s t))) in s\<lparr>budgets := (budgets s)(p \<mapsto> f (the (budgets s p)))\<rparr>))"

lemma map_budget_inv:
  assumes inv: "sched_ok s" and c: "c < PLAT_CPU_NUM"
  shows "sched_ok (map_budget c f s)"
proof (cases "current s c")
  case (Some t)
  obtain k p b where k: "ctxs s t = Some k" "t_sc k = Some p" "budgets s p = Some b" "t_state k = TS_RUNNING"
    by (rule current_ctx [OF inv c Some])
  then show ?thesis using Some set_budget_inv [OF inv k(3)] by (simp add: map_budget_def)
qed (simp add: map_budget_def inv)

lemma map_budget_simps [simp]:
  "rr_ready_queue (map_budget c f s) = rr_ready_queue s" "current_threads (map_budget c f s) = current_threads s"
  "ctxs (map_budget c f s) = ctxs s" "thread_vmspace (map_budget c f s) = thread_vmspace s" "kmem (map_budget c f s) = kmem s"
  by (simp_all add: map_budget_def Let_def split: option.split)

lemma timer_spec:
  assumes inv: "sched_ok s" and c: "c < PLAT_CPU_NUM"
  shows "rr_sched_handle_timer_irq c s = Inr (map_budget c (\<lambda>b. if b > 0 then b - 1 else b) s)"
proof (cases "current s c")
  case None
  then show ?thesis using c sched_invD(2) [OF inv] by (simp add: rr_sched_handle_timer_irq_def map_budget_def)
next
  case (Some t)
  obtain k p b where k: "ctxs s t = Some k" "t_sc k = Some p" "budgets s p = Some b" "t_state k = TS_RUNNING"
    by (rule current_ctx [OF inv c Some])
  have "s\<lparr>budgets := (budgets s)(p \<mapsto> b)\<rparr> = s" using k(3) by (simp add: fun_upd_idem)
  then show ?thesis
    using c sched_invD(2) [OF inv] Some k
    by (simp add: rr_sched_handle_timer_irq_def get_budget_def set_budget_def map_budget_def)
qed

lemma requeued_budget [simp]: "requeued c (map_budget d f s) = requeued c s"
  by (cases "current s c") (simp_all add: requeued_def Let_def)

lemma yield_drop:
  assumes inv: "sched_ok s" and c: "c < PLAT_CPU_NUM"
  shows "exhausted c (map_budget c (\<lambda>_. 0) s)"
    "sys_yield c s = bindR (rr_sched c (map_budget c (\<lambda>_. 0) s)) (\<lambda>(_, s). bindR (switch_context c s) (\<lambda>r. Inr (r, s)))"
proof -
  have "exhausted c (map_budget c (\<lambda>_. 0) s) \<and>
    sys_yield c s = bindR (rr_sched c (map_budget c (\<lambda>_. 0) s)) (\<lambda>(_, s). bindR (switch_context c s) (\<lambda>r. Inr (r, s)))"
  proof (cases "current s c")
    case None
    then show ?thesis using c sched_invD(2) [OF inv] by (simp add: map_budget_def exhausted_def sys_yield_def)
  next
    case (Some t)
    obtain k p b where k: "ctxs s t = Some k" "t_sc k = Some p" "budgets s p = Some b" "t_state k = TS_RUNNING"
      by (rule current_ctx [OF inv c Some])
    then show ?thesis
      using c sched_invD(2) [OF inv] Some
      by (simp add: map_budget_def exhausted_def has_budget_def sys_yield_def set_budget_def)
  qed
  then show "exhausted c (map_budget c (\<lambda>_. 0) s)"
    "sys_yield c s = bindR (rr_sched c (map_budget c (\<lambda>_. 0) s)) (\<lambda>(_, s). bindR (switch_context c s) (\<lambda>r. Inr (r, s)))"
    by simp_all
qed

section \<open>Address spaces of threads\<close>

definition same_types :: "sched_state \<Rightarrow> sched_state \<Rightarrow> bool" where
  "same_types s s' \<longleftrightarrow> thread_vmspace s' = thread_vmspace s \<and>
     (\<forall>t. map_option t_type (ctxs s' t) = map_option t_type (ctxs s t))"

definition vm_ok :: "sched_state \<Rightarrow> bool" where
  "vm_ok s \<longleftrightarrow> (\<forall>t k. ctxs s t = Some k \<and> t_type k \<in> {TYPE_ROOT, TYPE_USER, TYPE_SHADOW} \<longrightarrow> thread_vmspace s t \<noteq> None)"

lemma same_types_refl [simp]: "same_types s s" by (simp add: same_types_def)

lemma same_types_trans: "same_types s s' \<Longrightarrow> same_types s' s'' \<Longrightarrow> same_types s s''"
  by (simp add: same_types_def)

lemma same_types_vm_ok:
  assumes "vm_ok s" "same_types s s'" shows "vm_ok s'"
  unfolding vm_ok_def
proof (intro allI impI)
  fix t k assume a: "ctxs s' t = Some k \<and> t_type k \<in> {TYPE_ROOT, TYPE_USER, TYPE_SHADOW}"
  have "map_option t_type (ctxs s t) = Some (t_type k)"
    using assms(2) a unfolding same_types_def by (metis option.simps(9))
  then obtain k' where "ctxs s t = Some k'" "t_type k' = t_type k" by auto
  then show "thread_vmspace s' t \<noteq> None" using assms a by (metis same_types_def vm_ok_def)
qed

lemma enqueue_types: "rr_sched_enqueue c t s = Inr (r, s') \<Longrightarrow> same_types s s'"
  by (auto simp: rr_sched_enqueue_def same_types_def Let_def split: option.splits if_splits elim!: bindR_InrE)

lemma dequeue_types: "rr_sched_dequeue t s = Inr (r, s') \<Longrightarrow> same_types s s'"
  by (auto simp: rr_sched_dequeue_def rq_del_def same_types_def Let_def split: option.splits if_splits elim!: bindR_InrE)

lemma choose_types: "rr_sched_choose_thread c s = Inr (r, s') \<Longrightarrow> same_types s s'"
  by (auto simp: rr_sched_choose_thread_def split: list.splits if_splits elim!: bindR_InrE) (rule dequeue_types, assumption)+

lemma refill_types: "rr_sched_refill_budget t b s = Inr s' \<Longrightarrow> same_types s s'"
  by (auto simp: rr_sched_refill_budget_def set_budget_def same_types_def elim!: bindR_InrE)

lemma switch_types: "switch_to_thread c t s = Inr (r, s') \<Longrightarrow> same_types s s'"
  by (auto simp: switch_to_thread_def same_types_def split: option.splits elim!: bindR_InrE)

lemma rr_sched_types:
  assumes "rr_sched c s = Inr (r, s')"
  shows "same_types s s'"
  using assms unfolding rr_sched_def
  by (auto split: if_splits option.splits elim!: bindR_InrE dest!: enqueue_types choose_types refill_types switch_types)
    (simp_all add: same_types_def)

lemma map_budget_types [simp]: "same_types s (map_budget c f s)"
  by (simp add: same_types_def)

lemma switch_context_spec:
  assumes "sched_ok s" "vm_ok s" "c < PLAT_CPU_NUM" "current s c = Some t"
  shows "\<exists>v. switch_context c s = Inr (t, v)"
proof -
  obtain k p b where k: "ctxs s t = Some k" "t_sc k = Some p" "budgets s p = Some b" "t_state k = TS_RUNNING"
    by (rule current_ctx [OF assms(1,3,4)])
  have "thread_vmspace s t \<noteq> None" if "t_type k \<in> {TYPE_ROOT, TYPE_USER, TYPE_SHADOW}"
    using assms(2) k(1) that by (auto simp: vm_ok_def)
  then show ?thesis
    using assms(3,4) sched_invD(2) [OF assms(1)] k(1)
    by (cases "t_type k") (auto simp: switch_context_def)
qed

text \<open>What the queues and the current thread of a CPU are after it has rescheduled.\<close>

definition next_of :: "nat \<Rightarrow> sched_state \<Rightarrow> thread_ptr \<times> thread_ptr list list" where
  "next_of c s = (case requeued c s ! c of
     [] \<Rightarrow> (Idle c, requeued c s) | t # ts \<Rightarrow> (t, (requeued c s)[c := ts]))"

lemma yield_spec:
  assumes inv: "sched_ok s" "vm_ok s" and c: "c < PLAT_CPU_NUM"
  shows "\<exists>t v s'. sys_yield c s = Inr ((t, v), s') \<and> sched_ok s' \<and> vm_ok s' \<and>
    current_threads s' = (current_threads s)[c := Some t] \<and> (t, rr_ready_queue s') = next_of c s"
proof -
  let ?s = "map_budget c (\<lambda>_. 0) s"
  note d = yield_drop [OF inv(1) c]
  obtain s' t where s': "rr_sched c ?s = Inr (0, s')" "sched_ok s'" "current_threads s' = (current_threads s)[c := Some t]"
    "(t, rr_ready_queue s') = next_of c s"
    using rr_sched_spec [OF map_budget_inv [OF inv(1) c] c d(1)] unfolding requeued_budget map_budget_simps next_of_def by blast
  have vm: "vm_ok s'"
    using same_types_vm_ok [OF inv(2)] same_types_trans [OF map_budget_types rr_sched_types [OF s'(1)]] .
  have "current s' c = Some t" using s'(3) c sched_invD(2) [OF inv(1)] by simp
  then obtain v where "switch_context c s' = Inr (t, v)"
    using switch_context_spec [OF s'(2) vm c] by blast
  then show ?thesis using d(2) s' vm by simp
qed

section \<open>Clients of a scheduling policy\<close>

datatype sched_event = Reschedule nat | Tick nat | Yield nat

fun event_cpu :: "sched_event \<Rightarrow> nat" where
  "event_cpu (Reschedule c) = c" | "event_cpu (Tick c) = c" | "event_cpu (Yield c) = c"

text \<open>
  The kernel reaches its scheduling policy through the function table \<^verbatim>\<open>cur_sched_ops\<close>. It relies on
  this: on every CPU the calls return and keep the invariant of the policy.
\<close>

locale sched_policy =
  fixes inv :: "'s \<Rightarrow> bool" and ncpu :: nat
    and sched :: "nat \<Rightarrow> 's \<Rightarrow> (int \<times> 's) res"
    and tick :: "nat \<Rightarrow> 's \<Rightarrow> 's res"
    and yield :: "nat \<Rightarrow> 's \<Rightarrow> ('r \<times> 's) res"
  assumes sched_law: "inv s \<Longrightarrow> c < ncpu \<Longrightarrow> \<exists>r s'. sched c s = Inr (r, s') \<and> inv s'"
    and tick_law: "inv s \<Longrightarrow> c < ncpu \<Longrightarrow> \<exists>s'. tick c s = Inr s' \<and> inv s'"
    and yield_law: "inv s \<Longrightarrow> c < ncpu \<Longrightarrow> \<exists>r s'. yield c s = Inr (r, s') \<and> inv s'"
begin

fun run :: "sched_event list \<Rightarrow> 's \<Rightarrow> 's res" where
  "run [] s = Inr s"
| "run (Reschedule c # es) s = bindR (sched c s) (\<lambda>(_, s). run es s)"
| "run (Tick c # es) s = bindR (tick c s) (run es)"
| "run (Yield c # es) s = bindR (yield c s) (\<lambda>(_, s). run es s)"

lemma run_inv:
  assumes "inv s" "\<forall>e \<in> set es. event_cpu e < ncpu"
  shows "\<exists>s'. run es s = Inr s' \<and> inv s'"
  using assms
proof (induction es s rule: run.induct)
  case (2 c es s)
  then obtain r s' where "sched c s = Inr (r, s')" "inv s'" using sched_law [of s c] by auto
  then show ?case using 2 by simp
next
  case (3 c es s)
  then obtain s' where "tick c s = Inr s'" "inv s'" using tick_law [of s c] by auto
  then show ?case using 3 by simp
next
  case (4 c es s)
  then obtain r s' where "yield c s = Inr (r, s')" "inv s'" using yield_law [of s c] by auto
  then show ?case using 4 by simp
qed simp

end

lemma rr_sched_total:
  assumes "sched_ok s" "vm_ok s" "c < PLAT_CPU_NUM"
  shows "\<exists>s'. rr_sched c s = Inr (0, s') \<and> sched_ok s' \<and> vm_ok s'"
proof (cases "exhausted c s")
  case True
  then obtain s' where "rr_sched c s = Inr (0, s')" "sched_ok s'" using rr_sched_spec [OF assms(1,3)] by blast
  then show ?thesis using same_types_vm_ok [OF assms(2)] rr_sched_types by blast
next
  case False
  then obtain t where t: "current s c = Some t" "has_budget t s \<noteq> Inr False" by (auto simp: exhausted_def split: option.splits)
  obtain k p b where "ctxs s t = Some k" "t_sc k = Some p" "budgets s p = Some b" "t_state k = TS_RUNNING"
    by (rule current_ctx [OF assms(1,3) t(1)])
  then have "has_budget t s = Inr True" using t(2) by (simp add: has_budget_def)
  then have "rr_sched c s = Inr (0, s)"
    using assms(3) sched_invD(2) [OF assms(1)] t(1) by (simp add: rr_sched_def)
  then show ?thesis using assms by simp
qed

interpretation rr: sched_policy "\<lambda>s. sched_ok s \<and> vm_ok s" PLAT_CPU_NUM rr_sched rr_sched_handle_timer_irq sys_yield
proof unfold_locales
  fix s c assume "sched_ok s \<and> vm_ok s" "c < PLAT_CPU_NUM"
  then show "\<exists>r s'. rr_sched c s = Inr (r, s') \<and> sched_ok s' \<and> vm_ok s'" using rr_sched_total by blast
next
  fix s c assume a: "sched_ok s \<and> vm_ok s" "c < PLAT_CPU_NUM"
  then show "\<exists>s'. rr_sched_handle_timer_irq c s = Inr s' \<and> sched_ok s' \<and> vm_ok s'"
    using timer_spec map_budget_inv same_types_vm_ok [OF _ map_budget_types] by blast
next
  fix s c assume "sched_ok s \<and> vm_ok s" "c < PLAT_CPU_NUM"
  then show "\<exists>r s'. sys_yield c s = Inr (r, s') \<and> sched_ok s' \<and> vm_ok s'" using yield_spec by blast
qed

fun yields :: "nat \<Rightarrow> nat \<Rightarrow> sched_state \<Rightarrow> sched_state res" where
  "yields 0 c s = Inr s"
| "yields (Suc n) c s = bindR (sys_yield c s) (\<lambda>(_, s). yields n c s)"

lemma append_at: "\<exists>ys. xs[i := xs ! i @ zs] ! c = xs ! c @ ys"
  by (cases "i = c"; cases "i < length xs") (auto simp: list_update_beyond not_less)

lemma requeued_own: "\<exists>ys. requeued c s ! c = queue s c @ ys"
  using append_at by (auto simp: requeued_def Let_def split: option.splits)

lemma requeued_length [simp]: "length (requeued c s) = length (rr_ready_queue s)"
  by (auto simp: requeued_def Let_def split: option.splits)

lemma yields_reach:
  assumes "sched_ok s" "vm_ok s" "c < PLAT_CPU_NUM" "i < length (queue s c)"
  shows "\<exists>s'. yields (Suc i) c s = Inr s' \<and> current s' c = Some (queue s c ! i)"
  using assms
proof (induction i arbitrary: s)
  case (0 s)
  obtain ys where ys: "requeued c s ! c = queue s c @ ys" using requeued_own by blast
  obtain t v s' where s': "sys_yield c s = Inr ((t, v), s')" "current_threads s' = (current_threads s)[c := Some t]"
    "(t, rr_ready_queue s') = next_of c s"
    using yield_spec [OF 0(1,2,3)] by blast
  have "t = queue s c ! 0" using s'(3) ys 0(4) by (cases "queue s c") (auto simp: next_of_def)
  then show ?case using s' 0(3) sched_invD(2) [OF 0(1)] by simp
next
  case (Suc i s)
  obtain ys where ys: "requeued c s ! c = queue s c @ ys" using requeued_own by blast
  obtain t v s' where s': "sys_yield c s = Inr ((t, v), s')" "sched_ok s'" "vm_ok s'"
    "(t, rr_ready_queue s') = next_of c s"
    using yield_spec [OF Suc.prems(1,2,3)] by blast
  have "c < length (requeued c s)" using Suc.prems(3) sched_invD(1) [OF Suc.prems(1)] by simp
  then have q: "queue s' c = tl (queue s c) @ ys"
    using s'(4) ys Suc.prems(4) by (cases "queue s c") (auto simp: next_of_def)
  have len: "i < length (tl (queue s c))" using Suc.prems(4) by simp
  then have "i < length (queue s' c)" "queue s' c ! i = queue s c ! Suc i"
    using q by (auto simp: nth_append nth_tl)
  then show ?case using Suc.IH [OF s'(2,3) Suc.prems(3)] s'(1) by simp
qed

section \<open>Properties\<close>

text \<open>Two threads are ready on CPU 0 while a third one runs there.\<close>

definition demo_ctx :: "thread_type \<Rightarrow> thread_state \<Rightarrow> u32 \<Rightarrow> thread_ctx" where
  "demo_ctx ty st c = zero_ctx\<lparr>t_sc := Some 1, t_type := ty, t_state := st, t_affinity := NO_AFF, t_cpuid := c\<rparr>"

definition demo_sched :: sched_state where
  "demo_sched = \<lparr>ctxs = [Idle 0 \<mapsto> demo_ctx TYPE_IDLE TS_INIT 0, Idle 1 \<mapsto> demo_ctx TYPE_IDLE TS_INIT 1,
       Idle 2 \<mapsto> demo_ctx TYPE_IDLE TS_INIT 2, Idle 3 \<mapsto> demo_ctx TYPE_IDLE TS_INIT 3,
       Thr 1 \<mapsto> demo_ctx TYPE_USER TS_READY 0, Thr 2 \<mapsto> demo_ctx TYPE_USER TS_READY 0, Thr 3 \<mapsto> demo_ctx TYPE_USER TS_RUNNING 0],
     rr_ready_queue = [[Thr 1, Thr 2], [], [], []], current_threads = [Some (Thr 3), None, None, None],
     thread_vmspace = (\<lambda>_. Some 0), budgets = [1 \<mapsto> 0], kmem = []\<rparr>"

lemma all_cpus: "(\<forall>c < PLAT_CPU_NUM. P c) \<longleftrightarrow> P 0 \<and> P 1 \<and> P 2 \<and> P 3"
  by (auto simp: PLAT_CPU_NUM_def numeral_eq_Suc All_less_Suc)

lemma demo_ctx_sel [simp]: "t_type (demo_ctx ty st c) = ty" "t_state (demo_ctx ty st c) = st" "t_affinity (demo_ctx ty st c) = NO_AFF"
  "t_sc (demo_ctx ty st c) = Some 1" "home (demo_ctx ty st c) = unat c"
  by (simp_all add: demo_ctx_def home_def)

lemma demo_sched_sel: "rr_ready_queue demo_sched = [[Thr 1, Thr 2], [], [], []]"
  "current_threads demo_sched = [Some (Thr 3), None, None, None]"
  "budgets demo_sched = [1 \<mapsto> 0]"
  by (simp_all add: demo_sched_def)

lemma demo_ctxs: "ctxs demo_sched t = Some k \<longleftrightarrow>
    (\<exists>c < 4. t = Idle c \<and> k = demo_ctx TYPE_IDLE TS_INIT (of_nat c)) \<or>
    t \<in> {Thr 1, Thr 2} \<and> k = demo_ctx TYPE_USER TS_READY 0 \<or> t = Thr 3 \<and> k = demo_ctx TYPE_USER TS_RUNNING 0"
  by (auto simp: demo_sched_def numeral_eq_Suc less_Suc_eq)

lemma demo_sched_ok: "sched_ok demo_sched" "vm_ok demo_sched"
proof -
  have q: "queued demo_sched c t \<longleftrightarrow> c = 0 \<and> t \<in> {Thr 1, Thr 2}" for c t
    by (auto simp: queued_def demo_ctxs)
  have k: "sc_ok demo_sched k \<and> aff_ok (t_affinity k) \<and>
        (t_state k = TS_READY \<longrightarrow> home k < PLAT_CPU_NUM \<and> t_type k \<noteq> TYPE_IDLE) \<and>
        (t_type k = TYPE_IDLE \<longrightarrow> (\<exists>c. t = Idle c)) \<and>
        (t_state k = TS_RUNNING \<and> t_type k \<noteq> TYPE_IDLE \<longrightarrow>
           home k < PLAT_CPU_NUM \<and> home k \<notin> {} \<and> current demo_sched (home k) = Some t)"
    if "ctxs demo_sched t = Some k" for t k
    using that unfolding demo_ctxs by (auto simp: demo_sched_sel aff_ok_def PLAT_CPU_NUM_def sc_ok_def)
  have i: "\<forall>c < PLAT_CPU_NUM. \<exists>k. ctxs demo_sched (Idle c) = Some k \<and> t_type k = TYPE_IDLE"
    unfolding demo_ctxs by (auto simp: PLAT_CPU_NUM_def)
  have c: "\<forall>c < PLAT_CPU_NUM. \<forall>t. c \<notin> {} \<and> current demo_sched c = Some t \<longrightarrow>
        (\<exists>k. ctxs demo_sched t = Some k \<and> t_state k = TS_RUNNING \<and> home k = c \<and> (t_type k = TYPE_IDLE \<longrightarrow> t = Idle c))"
    unfolding all_cpus demo_sched_sel demo_ctxs by (auto simp: numeral_eq_Suc)
  have "\<forall>c < PLAT_CPU_NUM. distinct (queue demo_sched c) \<and> (\<forall>t. t \<in> set (queue demo_sched c) \<longleftrightarrow> queued demo_sched c t)"
    unfolding all_cpus demo_sched_sel q by (auto simp: numeral_eq_Suc)
  then show "sched_ok demo_sched"
    unfolding sched_inv_def using k i c by (simp add: demo_sched_sel PLAT_CPU_NUM_def)
  show "vm_ok demo_sched" by (simp add: vm_ok_def demo_sched_def)
qed

text \<open>
  When the current thread of a CPU has used up its budget, \<^verbatim>\<open>rr_sched\<close> puts it at the end
  of the queue of its CPU (its affinity, or this CPU when it has none; idle threads are never queued),
  takes the head of the own queue, or the idle thread when the queue is empty, and makes it current
  with a full budget. Ready threads stay exactly the queued ones and running threads the current ones.
\<close>

theorem rr_sched_switches:
  assumes "sched_ok s" "c < PLAT_CPU_NUM" "exhausted c s"
  shows "\<exists>s' t. rr_sched c s = Inr (0, s') \<and> sched_ok s' \<and> current_threads s' = (current_threads s)[c := Some t] \<and>
    (t, rr_ready_queue s') = next_of c s \<and> budget_of t s' = Some DEFAULT_BUDGET"
  using rr_sched_spec [OF assms] by (simp add: next_of_def)

theorem rr_sched_switches_witness:
  "\<exists>s' t. rr_sched 0 demo_sched = Inr (0, s') \<and> sched_ok s' \<and> current_threads s' = (current_threads demo_sched)[0 := Some t] \<and>
    (t, rr_ready_queue s') = next_of 0 demo_sched \<and> budget_of t s' = Some DEFAULT_BUDGET"
  by (rule rr_sched_switches [OF demo_sched_ok(1)])
    (simp_all add: PLAT_CPU_NUM_def exhausted_def demo_sched_sel has_budget_def, simp add: demo_sched_def)

text \<open>
  C24: no ready thread starves: the thread at position \<open>i\<close> of the ready queue of a CPU runs there after
  \<open>i + 1\<close> calls of \<^verbatim>\<open>sys_yield\<close> on that CPU, whatever threads these calls enqueue behind it.
\<close>

theorem round_robin_liveness:
  assumes "sched_ok s" "vm_ok s" "c < PLAT_CPU_NUM" "i < length (queue s c)"
  shows "\<exists>s'. yields (Suc i) c s = Inr s' \<and> current s' c = Some (queue s c ! i)"
  by (rule yields_reach [OF assms])

theorem round_robin_liveness_witness:
  "\<exists>s'. yields (Suc 1) 0 demo_sched = Inr s' \<and> current s' 0 = Some (Thr 2)"
proof -
  have "queue demo_sched 0 ! 1 = Thr 2" by (simp add: demo_sched_sel)
  moreover have "1 < length (queue demo_sched 0)" by (simp add: demo_sched_sel)
  ultimately show ?thesis
    using round_robin_liveness [OF demo_sched_ok, of 0 1] by (simp add: PLAT_CPU_NUM_def)
qed

text \<open>
  C9: any sequence of rescheduling points, timer ticks and yields on the CPUs runs without a
  \<^verbatim>\<open>BUG_ON\<close> or a wild access and keeps the invariant of the scheduler.
\<close>

theorem sched_sessions_safe:
  assumes "sched_ok s" "vm_ok s" "\<forall>e \<in> set es. event_cpu e < PLAT_CPU_NUM"
  shows "\<exists>s'. rr.run es s = Inr s' \<and> sched_ok s' \<and> vm_ok s'"
  using rr.run_inv [of s es] assms by simp

theorem sched_sessions_safe_witness:
  "\<exists>s'. rr.run [Tick 0, Reschedule 0, Yield 1, Reschedule 3, Yield 0] demo_sched = Inr s' \<and> sched_ok s' \<and> vm_ok s'"
  by (rule sched_sessions_safe [OF demo_sched_ok]) (simp add: PLAT_CPU_NUM_def)

text \<open>
  The affinity system call accepts every negative affinity, but for one other than
  \<^verbatim>\<open>NO_AFF\<close> the thread can never be enqueued again: \<^verbatim>\<open>rr_sched_enqueue\<close> answers
  \<^verbatim>\<open>-EINVAL\<close> on every CPU, which \<^verbatim>\<open>rr_sched\<close> ignores. The thread is lost.
\<close>

theorem negative_affinity_lost:
  assumes k: "ctxs s t = Some k" "t_type k \<noteq> TYPE_IDLE" and aff: "sint aff < - 1"
  shows "\<exists>s1. set_affinity_of (Some t) aff s = Inr (0, s1) \<and>
    (\<forall>c. rr_sched_enqueue c (Some t) s1 = Inr (- EINVAL, s1))"
proof -
  let ?s1 = "s\<lparr>ctxs := (ctxs s)(t \<mapsto> k\<lparr>t_affinity := aff\<rparr>)\<rparr>"
  have ne: "aff \<noteq> NO_AFF" using aff by (auto simp: NO_AFF_def)
  have "set_affinity_of (Some t) aff s = Inr (0, ?s1)"
    using k aff by (simp add: set_affinity_of_def upd_ctx_def PLAT_CPU_NUM_def)
  moreover have "4 \<le> aff"
  proof (rule ccontr)
    assume "\<not> 4 \<le> aff"
    then have "unat aff < 4" by (simp add: word_le_nat_alt)
    then consider "unat aff = 0" | "unat aff = 1" | "unat aff = 2" | "unat aff = 3" by linarith
    moreover have "of_nat (unat aff) = aff" by simp
    ultimately have "aff \<in> {of_nat 0, of_nat 1, of_nat 2, of_nat 3}" by cases (metis insert_iff)+
    then have "aff \<in> {0, 1, 2, 3}" by simp
    then show False using aff by auto
  qed
  then have "rr_sched_enqueue c (Some t) ?s1 = Inr (- EINVAL, ?s1)" for c
    using k ne by (simp add: rr_sched_enqueue_def Let_def PLAT_CPU_NUM_def)
  ultimately show ?thesis by blast
qed

theorem negative_affinity_lost_witness:
  "\<exists>s1. set_affinity_of (Some (Thr 3)) (- 2) demo_sched = Inr (0, s1) \<and>
    (\<forall>c. rr_sched_enqueue c (Some (Thr 3)) s1 = Inr (- EINVAL, s1))"
  by (rule negative_affinity_lost [of _ _ "demo_ctx TYPE_USER TS_RUNNING 0"]) (simp_all add: demo_ctxs)

end
