(* ===== verification/TicketLock.thy ===== *)
theory TicketLock
  imports Prelude
begin

text \<open>
  The ticket lock of \<^verbatim>\<open>common/lock.c\<close>, one machine instruction per step. A CPU that executes
  \<^verbatim>\<open>ldaxr\<close> arms its exclusive monitor; any store to \<^verbatim>\<open>next\<close> disarms all of them, and
  \<^verbatim>\<open>stxr\<close> stores only with an armed monitor (it may also fail without reason). Memory accesses
  are sequentially consistent in the model.
\<close>

record lock =
  owner :: u32
  next_ticket :: u32

definition lock_init :: "lock \<Rightarrow> int \<times> lock" where
  "lock_init l = (0, l\<lparr>owner := 0, next_ticket := 0\<rparr>)"

definition is_locked :: "lock \<Rightarrow> int" where
  "is_locked l = (if owner l < next_ticket l then 1 else 0)"

text \<open>
  Where a CPU is: outside; in \<^verbatim>\<open>lock\<close> after \<^verbatim>\<open>ldaxr\<close> of \<^verbatim>\<open>next\<close>, or spinning
  with its ticket; in \<^verbatim>\<open>try_lock\<close> after \<^verbatim>\<open>ldaxr\<close>, or after it has seen
  \<^verbatim>\<open>owner\<close> equal; holding the lock; in \<^verbatim>\<open>unlock\<close> after reading \<^verbatim>\<open>owner\<close>.
\<close>

datatype lock_pc = Out | Taking u32 | Spin u32 | Trying u32 | TryStore u32 | Holds | Releasing u32

record lock_state =
  the_lock :: lock
  pc :: "nat \<Rightarrow> lock_pc"
  monitor :: "nat \<Rightarrow> bool"

definition ldaxr :: "nat \<Rightarrow> (u32 \<Rightarrow> lock_pc) \<Rightarrow> lock_state \<Rightarrow> lock_state" where
  "ldaxr i p s = s\<lparr>pc := (pc s)(i := p (next_ticket (the_lock s))), monitor := (monitor s)(i := True)\<rparr>"

definition stxr :: "nat \<Rightarrow> u32 \<Rightarrow> lock_pc \<Rightarrow> lock_state \<Rightarrow> lock_state" where
  "stxr i v p s = s\<lparr>the_lock := (the_lock s)\<lparr>next_ticket := v\<rparr>, pc := (pc s)(i := p), monitor := \<lambda>_. False\<rparr>"

definition goto :: "nat \<Rightarrow> lock_pc \<Rightarrow> lock_state \<Rightarrow> lock_state" where
  "goto i p s = s\<lparr>pc := (pc s)(i := p)\<rparr>"

text \<open>Steps of a CPU in \<^verbatim>\<open>lock\<close>.\<close>

inductive step_lock :: "nat \<Rightarrow> lock_state \<Rightarrow> lock_state \<Rightarrow> bool" for i where
  Load: "pc s i = Out \<Longrightarrow> step_lock i s (ldaxr i Taking s)"
| Store: "pc s i = Taking n \<Longrightarrow> monitor s i \<Longrightarrow> step_lock i s (stxr i (n + 1) (Spin n) s)"
| Retry: "pc s i = Taking n \<Longrightarrow> step_lock i s (goto i Out s)"
| Enter: "pc s i = Spin n \<Longrightarrow> owner (the_lock s) = n \<Longrightarrow> step_lock i s (goto i Holds s)"
| Wait: "pc s i = Spin n \<Longrightarrow> owner (the_lock s) \<noteq> n \<Longrightarrow> step_lock i s s"

text \<open>Steps in \<^verbatim>\<open>try_lock\<close>; it returns 0 on \<open>TrySuccess\<close> and -1 on the two failures.\<close>

inductive step_try :: "nat \<Rightarrow> lock_state \<Rightarrow> lock_state \<Rightarrow> bool" for i where
  TryLoad: "pc s i = Out \<Longrightarrow> step_try i s (ldaxr i Trying s)"
| TryBusy: "pc s i = Trying n \<Longrightarrow> owner (the_lock s) \<noteq> n \<Longrightarrow> step_try i s (goto i Out s)"
| TryFree: "pc s i = Trying n \<Longrightarrow> owner (the_lock s) = n \<Longrightarrow> step_try i s (goto i (TryStore n) s)"
| TrySuccess: "pc s i = TryStore n \<Longrightarrow> monitor s i \<Longrightarrow> step_try i s (stxr i (n + 1) Holds s)"
| TryFail: "pc s i = TryStore n \<Longrightarrow> step_try i s (goto i Out s)"

text \<open>\<^verbatim>\<open>lock->owner++\<close> is a load and a store.\<close>

inductive step_unlock :: "nat \<Rightarrow> lock_state \<Rightarrow> lock_state \<Rightarrow> bool" for i where
  Read: "pc s i = Holds \<Longrightarrow> step_unlock i s (goto i (Releasing (owner (the_lock s))) s)"
| Write: "pc s i = Releasing v \<Longrightarrow>
    step_unlock i s (goto i Out (s\<lparr>the_lock := (the_lock s)\<lparr>owner := v + 1\<rparr>\<rparr>))"

definition lock_step :: "nat \<Rightarrow> lock_state \<Rightarrow> lock_state \<Rightarrow> bool" where
  "lock_step i s s' \<longleftrightarrow> step_lock i s s' \<or> step_try i s s' \<or> step_unlock i s s'"

definition NCPU :: nat where "NCPU = 4"

inductive lock_reach :: "lock_state \<Rightarrow> bool" where
  init: "\<forall>i. pc s i = Out \<and> \<not> monitor s i \<Longrightarrow> the_lock s = snd (lock_init l) \<Longrightarrow> lock_reach s"
| step: "lock_reach s \<Longrightarrow> i < NCPU \<Longrightarrow> lock_step i s s' \<Longrightarrow> lock_reach s'"

code_pred step_lock .
code_pred step_try .
code_pred step_unlock .

inductive_cases step_lockE: "step_lock i s s'"
inductive_cases step_tryE: "step_try i s s'"
inductive_cases step_unlockE: "step_unlock i s s'"

section \<open>The queue of the lock\<close>

text \<open>The CPUs that have a ticket, and the one that has been served.\<close>

definition ticket :: "lock_pc \<Rightarrow> bool" where
  "ticket p \<longleftrightarrow> (case p of Spin _ \<Rightarrow> True | Holds \<Rightarrow> True | Releasing _ \<Rightarrow> True | _ \<Rightarrow> False)"

definition served :: "lock_pc \<Rightarrow> bool" where
  "served p \<longleftrightarrow> (case p of Holds \<Rightarrow> True | Releasing _ \<Rightarrow> True | _ \<Rightarrow> False)"

text \<open>
  \<open>q\<close> is the list of the CPUs with a ticket, in the order in which they took them. The tickets count
  up from \<open>owner\<close>, modulo \<open>2^32\<close>.
\<close>

definition lock_queue :: "lock_state \<Rightarrow> nat list \<Rightarrow> bool" where
  "lock_queue s q \<longleftrightarrow> distinct q \<and> set q = {i. ticket (pc s i)} \<and> set q \<subseteq> {..<NCPU} \<and>
     next_ticket (the_lock s) = owner (the_lock s) + of_nat (length q) \<and>
     (\<forall>j < length q. \<forall>n. pc s (q ! j) = Spin n \<longrightarrow> n = owner (the_lock s) + of_nat j) \<and>
     (\<forall>j < length q. served (pc s (q ! j)) \<longrightarrow> j = 0) \<and>
     (\<forall>i n. pc s i = Releasing n \<longrightarrow> n = owner (the_lock s)) \<and>
     (\<forall>i n. pc s i \<in> {Taking n, Trying n, TryStore n} \<and> monitor s i \<longrightarrow> n = next_ticket (the_lock s)) \<and>
     (\<forall>i n. pc s i = TryStore n \<and> monitor s i \<longrightarrow> n = owner (the_lock s))"

lemma lock_queueD:
  assumes "lock_queue s q"
  shows "distinct q" "i \<in> set q \<longleftrightarrow> ticket (pc s i)" "set q \<subseteq> {..<NCPU}"
    "next_ticket (the_lock s) = owner (the_lock s) + of_nat (length q)"
    "j < length q \<Longrightarrow> pc s (q ! j) = Spin n \<Longrightarrow> n = owner (the_lock s) + of_nat j"
    "j < length q \<Longrightarrow> served (pc s (q ! j)) \<Longrightarrow> j = 0"
    "pc s i = Releasing n \<Longrightarrow> n = owner (the_lock s)"
    "pc s i \<in> {Taking n, Trying n, TryStore n} \<Longrightarrow> monitor s i \<Longrightarrow> n = next_ticket (the_lock s)"
    "pc s i = TryStore n \<Longrightarrow> monitor s i \<Longrightarrow> n = owner (the_lock s)"
  using assms unfolding lock_queue_def by blast+

lemma queue_short:
  assumes "distinct q" "set q \<subseteq> {..<NCPU}"
  shows "length q \<le> 4"
proof -
  have "length q = card (set q)" using assms(1) by (simp add: distinct_card)
  also have "\<dots> \<le> card {..<NCPU}" using assms(2) by (intro card_mono) auto
  finally show ?thesis by (simp add: NCPU_def)
qed

lemma of_nat_zero_u32: "j \<le> 4 \<Longrightarrow> (of_nat j :: u32) = 0 \<longleftrightarrow> j = 0"
proof -
  assume j: "j \<le> 4"
  then have "j < 2 ^ 32" by simp
  then have "unat (of_nat j :: u32) = j" by (simp only: unat_of_nat) simp
  then show ?thesis by (metis unat_eq_0)
qed

text \<open>An abstract lock is the queue of the CPUs that wait for it or hold it.\<close>

inductive fifo_step :: "nat \<Rightarrow> nat list \<Rightarrow> nat list \<Rightarrow> bool" for i where
  Stay: "fifo_step i q q"
| Arrive: "i \<notin> set q \<Longrightarrow> fifo_step i q (q @ [i])"
| Leave: "fifo_step i (i # q) q"

lemma served_head:
  assumes "lock_queue s q" "served (pc s i)"
  obtains q' where "q = i # q'"
proof -
  have "ticket (pc s i)" using assms(2) by (cases "pc s i") (auto simp: served_def ticket_def)
  then have "i \<in> set q" using lock_queueD(2) [OF assms(1)] by simp
  then obtain j where j: "j < length q" "q ! j = i" by (auto simp: in_set_conv_nth)
  then have "j = 0" using lock_queueD(6) [OF assms(1) j(1)] assms(2) by simp
  then show thesis using j that by (cases q) auto
qed

text \<open>Moving a CPU that keeps or lacks its ticket.\<close>

lemma queue_goto:
  assumes q: "lock_queue s q" and t: "ticket p = ticket (pc s i)" "\<forall>n. p \<noteq> Spin n" "served p \<longrightarrow> hd q = i"
    and r: "\<And>n. p = Releasing n \<Longrightarrow> n = owner (the_lock s)"
    and m: "\<And>n. p \<in> {Taking n, Trying n, TryStore n} \<Longrightarrow> n = next_ticket (the_lock s) \<or> \<not> m i"
    and o: "\<And>n. p = TryStore n \<Longrightarrow> n = owner (the_lock s)"
    and s': "the_lock s' = the_lock s" "pc s' = (pc s)(i := p)" "monitor s' = m" "\<forall>j. j \<noteq> i \<longrightarrow> m j = monitor s j"
  shows "lock_queue s' q"
proof -
  note d = lock_queueD [OF q]
  have h: "j = 0" if "j < length q" "q ! j = i" "served p" for j
    using that t(3) d(1) by (cases q) (auto simp: nth_Cons split: nat.splits)
  show ?thesis
    unfolding lock_queue_def s'
  proof (intro conjI allI impI)
    show "set q = {j. ticket (((pc s)(i := p)) j)}" using d(2) t(1) by auto
    show "n = owner (the_lock s) + of_nat j" if "j < length q" "((pc s)(i := p)) (q ! j) = Spin n" for j n
      using d(5) [OF that(1)] that t(2) by (auto split: if_splits)
    show "j = 0" if "j < length q" "served (((pc s)(i := p)) (q ! j))" for j
      using d(6) [OF that(1)] h [OF that(1)] that by (auto split: if_splits)
    show "n = owner (the_lock s)" if "((pc s)(i := p)) j = Releasing n" for j n
      using d(7) [of j n] r that by (auto split: if_splits)
    show "n = next_ticket (the_lock s)" if "((pc s)(i := p)) j \<in> {Taking n, Trying n, TryStore n} \<and> m j" for j n
    proof (cases "j = i")
      case True then show ?thesis using m [of n] that by auto
    next
      case False then show ?thesis using d(8) [of j n] s'(4) that by auto
    qed
    show "n = owner (the_lock s)" if "((pc s)(i := p)) j = TryStore n \<and> m j" for j n
    proof (cases "j = i")
      case True then show ?thesis using o [of n] that by auto
    next
      case False then show ?thesis using d(9) [of j n] s'(4) that by auto
    qed
  qed (use d(1,3,4) in auto)
qed

text \<open>Taking the next ticket.\<close>

lemma queue_take:
  assumes q: "lock_queue s q" and i: "i < NCPU" "\<not> ticket (pc s i)" and n: "n = next_ticket (the_lock s)"
    and p: "p = Spin n \<or> p = Holds \<and> n = owner (the_lock s)"
  shows "lock_queue (stxr i (n + 1) p s) (q @ [i])"
proof -
  note d = lock_queueD [OF q]
  have notin: "i \<notin> set q" using d(2) i(2) by simp
  have len: "length q \<le> 4" using queue_short d(1,3) by blast
  have hold: "q = []" if "p = Holds"
    using p that n d(4) of_nat_zero_u32 [OF len] by simp
  show ?thesis
    unfolding lock_queue_def stxr_def
  proof (intro conjI allI impI)
    show "set (q @ [i]) = {j. ticket (pc (s\<lparr>the_lock := the_lock s\<lparr>next_ticket := n + 1\<rparr>, pc := (pc s)(i := p), monitor := \<lambda>_. False\<rparr>) j)}"
      using d(2) p by (auto simp: ticket_def)
    show "m = owner (the_lock (s\<lparr>the_lock := the_lock s\<lparr>next_ticket := n + 1\<rparr>, pc := (pc s)(i := p), monitor := \<lambda>_. False\<rparr>)) + of_nat j"
      if "j < length (q @ [i])" "pc (s\<lparr>the_lock := the_lock s\<lparr>next_ticket := n + 1\<rparr>, pc := (pc s)(i := p), monitor := \<lambda>_. False\<rparr>) ((q @ [i]) ! j) = Spin m" for j m
    proof (cases "j < length q")
      case True
      then have "q ! j \<noteq> i" using notin nth_mem by blast
      then show ?thesis using d(5) [OF True, of m] that(2) True by (simp add: nth_append)
    next
      case False
      then have "j = length q" using that(1) by simp
      then show ?thesis using that(2) p n d(4) by auto
    qed
    show "j = 0" if "j < length (q @ [i])" "served (pc (s\<lparr>the_lock := the_lock s\<lparr>next_ticket := n + 1\<rparr>, pc := (pc s)(i := p), monitor := \<lambda>_. False\<rparr>) ((q @ [i]) ! j))" for j
    proof (cases "j < length q")
      case True
      then have "q ! j \<noteq> i" using notin nth_mem by blast
      then show ?thesis using d(6) [OF True] that(2) True by (simp add: nth_append)
    next
      case False
      then have "j = length q" using that(1) by simp
      then show ?thesis using that(2) p hold by (auto simp: served_def)
    qed
    show "m = owner (the_lock (s\<lparr>the_lock := the_lock s\<lparr>next_ticket := n + 1\<rparr>, pc := (pc s)(i := p), monitor := \<lambda>_. False\<rparr>))"
      if "pc (s\<lparr>the_lock := the_lock s\<lparr>next_ticket := n + 1\<rparr>, pc := (pc s)(i := p), monitor := \<lambda>_. False\<rparr>) j = Releasing m" for j m
      using d(7) [of j m] p that by (auto split: if_splits)
  qed (use d(1,3,4) notin i n in auto)
qed

text \<open>Serving the next ticket.\<close>

lemma queue_release:
  assumes q: "lock_queue s (i # q)" and p: "pc s i = Releasing v"
  shows "lock_queue (goto i Out (s\<lparr>the_lock := (the_lock s)\<lparr>owner := v + 1\<rparr>\<rparr>)) q"
proof -
  note d = lock_queueD [OF q]
  have v: "v = owner (the_lock s)" using d(7) [OF p] .
  have ni: "i \<notin> set q" using d(1) by simp
  have spin: "n = v + 1 + of_nat j" if "j < length q" "pc s (q ! j) = Spin n" for j n
    using d(5) [of "Suc j" n] that v by simp
  have serv: False if "j < length q" "served (pc s (q ! j))" for j
    using d(6) [of "Suc j"] that by simp
  have rel: "j = i" if "pc s j = Releasing n" for j n
    using served_head [OF q, of j] that by (auto simp: served_def)
  have ne: "q ! j \<noteq> i" if "j < length q" for j using that ni nth_mem by blast
  have tick: "ticket (pc s j) \<longleftrightarrow> j = i \<or> j \<in> set q" for j using d(2) by auto
  show ?thesis
    unfolding lock_queue_def
  proof (intro conjI allI impI)
    let ?s = "goto i Out (s\<lparr>the_lock := (the_lock s)\<lparr>owner := v + 1\<rparr>\<rparr>)"
    show "set q = {j. ticket (pc ?s j)}" using tick ni by (auto simp: goto_def ticket_def)
    show "n = owner (the_lock ?s) + of_nat j" if "j < length q" "pc ?s (q ! j) = Spin n" for j n
      using spin [OF that(1)] ne [OF that(1)] that(2) by (simp add: goto_def)
    show "j = 0" if "j < length q" "served (pc ?s (q ! j))" for j
      using serv [OF that(1)] ne [OF that(1)] that(2) by (simp add: goto_def)
    show "n = owner (the_lock ?s)" if "pc ?s j = Releasing n" for j n
      using rel [of j n] that by (auto simp: goto_def split: if_splits)
    show "n = next_ticket (the_lock ?s)" if "pc ?s j \<in> {Taking n, Trying n, TryStore n} \<and> monitor ?s j" for j n
    proof (cases "j = i")
      case True then show ?thesis using that by (simp add: goto_def)
    next
      case False then show ?thesis using d(8) [of j n] that by (simp add: goto_def)
    qed
    have len: "Suc (length q) \<le> 4" using queue_short d(1,3) by fastforce
    show "n = owner (the_lock ?s)" if "pc ?s j = TryStore n \<and> monitor ?s j" for j n
    proof (cases "j = i")
      case True then show ?thesis using that by (simp add: goto_def)
    next
      case False
      then have "n = owner (the_lock s)" "n = next_ticket (the_lock s)"
        using d(9) [of j n] d(8) [of j n] that by (simp_all add: goto_def)
      then have "(of_nat (Suc (length q)) :: u32) = 0" using d(4) by simp
      then show ?thesis using of_nat_zero_u32 [OF len] by blast
    qed
  qed (use d(1,3,4) v in \<open>auto simp: goto_def\<close>)
qed

lemma served_ticket: "served p \<Longrightarrow> ticket p"
  by (cases p) (auto simp: served_def ticket_def)

lemma spin_owner_head:
  assumes q: "lock_queue s q" and p: "pc s i = Spin (owner (the_lock s))"
  shows "hd q = i"
proof -
  note d = lock_queueD [OF q]
  have "i \<in> set q" using d(2) p by (simp add: ticket_def)
  then obtain j where j: "j < length q" "q ! j = i" by (auto simp: in_set_conv_nth)
  have "length q \<le> 4" using queue_short d(1,3) by blast
  then have "j \<le> 4" using j(1) by simp
  then have "j = 0" using d(5) [OF j(1), of "owner (the_lock s)"] p j(2) of_nat_zero_u32 by simp
  then show ?thesis using j by (cases q) auto
qed

lemmas goto_simps = goto_def ldaxr_def ticket_def served_def

lemma step_lock_queue:
  assumes q: "lock_queue s q" and i: "i < NCPU" and st: "step_lock i s s'"
  shows "\<exists>q'. lock_queue s' q' \<and> fifo_step i q q'"
  using st
proof (cases rule: step_lock.cases)
  case Load
  have "lock_queue s' q"
    by (rule queue_goto [OF q, where i = i and p = "Taking (next_ticket (the_lock s))" and m = "(monitor s)(i := True)"])
      (use Load in \<open>auto simp: goto_simps\<close>)
  then show ?thesis using Stay by blast
next
  case (Store n)
  have "\<not> ticket (pc s i)" using Store by (simp add: ticket_def)
  moreover have n: "n = next_ticket (the_lock s)" using lock_queueD(8) [OF q, of i n] Store by simp
  ultimately have "lock_queue s' (q @ [i])" using queue_take [OF q i _ n, of "Spin n"] Store(1) by simp
  moreover have "i \<notin> set q" using lock_queueD(2) [OF q] \<open>\<not> ticket (pc s i)\<close> by simp
  ultimately show ?thesis using Arrive by blast
next
  case (Retry n)
  have "lock_queue s' q"
    by (rule queue_goto [OF q, where i = i and p = Out and m = "monitor s"]) (use Retry in \<open>auto simp: goto_simps\<close>)
  then show ?thesis using Stay by blast
next
  case (Enter n)
  have "lock_queue s' q"
    by (rule queue_goto [OF q, where i = i and p = Holds and m = "monitor s"])
      (use Enter spin_owner_head [OF q, of i] in \<open>auto simp: goto_simps\<close>)
  then show ?thesis using Stay by blast
next
  case (Wait n)
  then show ?thesis using q Stay by blast
qed

lemma step_try_queue:
  assumes q: "lock_queue s q" and i: "i < NCPU" and st: "step_try i s s'"
  shows "\<exists>q'. lock_queue s' q' \<and> fifo_step i q q'"
  using st
proof (cases rule: step_try.cases)
  case TryLoad
  have "lock_queue s' q"
    by (rule queue_goto [OF q, where i = i and p = "Trying (next_ticket (the_lock s))" and m = "(monitor s)(i := True)"])
      (use TryLoad in \<open>auto simp: goto_simps\<close>)
  then show ?thesis using Stay by blast
next
  case (TryBusy n)
  have "lock_queue s' q"
    by (rule queue_goto [OF q, where i = i and p = Out and m = "monitor s"]) (use TryBusy in \<open>auto simp: goto_simps\<close>)
  then show ?thesis using Stay by blast
next
  case (TryFree n)
  have "n = next_ticket (the_lock s) \<or> \<not> monitor s i" using lock_queueD(8) [OF q, of i n] TryFree by auto
  then have "lock_queue s' q"
    by (intro queue_goto [OF q, where i = i and p = "TryStore n" and m = "monitor s"]) (use TryFree in \<open>auto simp: goto_simps\<close>)
  then show ?thesis using Stay by blast
next
  case (TrySuccess n)
  have nt: "\<not> ticket (pc s i)" using TrySuccess by (simp add: ticket_def)
  have n: "n = next_ticket (the_lock s)" using lock_queueD(8) [OF q, of i n] TrySuccess by simp
  have "n = owner (the_lock s)" using lock_queueD(9) [OF q, of i n] TrySuccess by simp
  then have "lock_queue s' (q @ [i])" using queue_take [OF q i nt n, of Holds] TrySuccess(1) by simp
  moreover have "i \<notin> set q" using lock_queueD(2) [OF q] nt by simp
  ultimately show ?thesis using Arrive by blast
next
  case (TryFail n)
  have "lock_queue s' q"
    by (rule queue_goto [OF q, where i = i and p = Out and m = "monitor s"]) (use TryFail in \<open>auto simp: goto_simps\<close>)
  then show ?thesis using Stay by blast
qed

lemma step_unlock_queue:
  assumes q: "lock_queue s q" and i: "i < NCPU" and st: "step_unlock i s s'"
  shows "\<exists>q'. lock_queue s' q' \<and> fifo_step i q q'"
  using st
proof (cases rule: step_unlock.cases)
  case Read
  obtain q' where q': "q = i # q'" by (rule served_head [OF q, of i]) (use Read in \<open>simp add: served_def\<close>)
  have "lock_queue s' q"
    by (rule queue_goto [OF q, where i = i and p = "Releasing (owner (the_lock s))" and m = "monitor s"])
      (use Read q' in \<open>auto simp: goto_simps\<close>)
  then show ?thesis using Stay by blast
next
  case (Write v)
  obtain q' where q': "q = i # q'" by (rule served_head [OF q, of i]) (use Write in \<open>simp add: served_def\<close>)
  then have "lock_queue s' q'" using queue_release q Write by blast
  then show ?thesis using Leave q' by blast
qed

lemma lock_step_queue:
  assumes "lock_queue s q" "i < NCPU" "lock_step i s s'"
  shows "\<exists>q'. lock_queue s' q' \<and> fifo_step i q q'"
  using assms(3) step_lock_queue [OF assms(1,2)] step_try_queue [OF assms(1,2)] step_unlock_queue [OF assms(1,2)]
  unfolding lock_step_def by blast

lemma reach_queue: "lock_reach s \<Longrightarrow> \<exists>q. lock_queue s q"
proof (induction rule: lock_reach.induct)
  case (init s l)
  then have "lock_queue s []" by (auto simp: lock_queue_def ticket_def lock_init_def)
  then show ?case by blast
next
  case (step s i s')
  then show ?case using lock_step_queue by blast
qed

section \<open>Properties\<close>

text \<open>
  C8: mutual exclusion. In no reachable state are two CPUs between the end of
  \<^verbatim>\<open>lock\<close> (or a successful \<^verbatim>\<open>try_lock\<close>) and the store of \<^verbatim>\<open>unlock\<close>.
\<close>

theorem ticket_lock_mutex:
  assumes "lock_reach s" "served (pc s i)" "served (pc s j)"
  shows "i = j"
proof -
  obtain q where q: "lock_queue s q" using reach_queue [OF assms(1)] by blast
  show ?thesis
    by (rule served_head [OF q assms(2)], rule served_head [OF q assms(3)]) simp
qed

definition lock_start :: lock_state where
  "lock_start = \<lparr>the_lock = \<lparr>owner = 0, next_ticket = 0\<rparr>, pc = \<lambda>_. Out, monitor = \<lambda>_. False\<rparr>"

text \<open>CPU 2 has taken the lock.\<close>

definition lock_taken :: lock_state where
  "lock_taken = goto 2 Holds (stxr 2 1 (Spin 0) (ldaxr 2 Taking lock_start))"

lemma lock_taken_reach: "lock_reach lock_taken"
proof -
  have "lock_reach lock_start" by (rule lock_reach.init [of _ "the_lock lock_start"]) (auto simp: lock_start_def lock_init_def)
  moreover have "step_lock 2 lock_start (ldaxr 2 Taking lock_start)" by (rule Load) (simp add: lock_start_def)
  ultimately have 1: "lock_reach (ldaxr 2 Taking lock_start)"
    using lock_reach.step [of lock_start 2] by (simp add: lock_step_def NCPU_def)
  moreover have "step_lock 2 (ldaxr 2 Taking lock_start) (stxr 2 (0 + 1) (Spin 0) (ldaxr 2 Taking lock_start))"
    by (rule Store) (simp_all add: lock_start_def ldaxr_def)
  ultimately have 2: "lock_reach (stxr 2 1 (Spin 0) (ldaxr 2 Taking lock_start))"
    using lock_reach.step [OF 1, of 2] by (simp add: lock_step_def NCPU_def)
  moreover have "step_lock 2 (stxr 2 1 (Spin 0) (ldaxr 2 Taking lock_start)) lock_taken"
    unfolding lock_taken_def by (rule Enter [of _ _ 0]) (simp_all add: lock_start_def ldaxr_def stxr_def)
  ultimately show ?thesis
    using lock_reach.step [OF 2, of 2] by (simp add: lock_step_def NCPU_def)
qed

theorem ticket_lock_mutex_witness: "served (pc lock_taken 2) \<and> (2 :: nat) = 2"
  using ticket_lock_mutex [OF lock_taken_reach, of 2 2] by (simp add: lock_taken_def goto_simps)

text \<open>
  C25: the lock implements a FIFO queue. In every reachable state there is a queue of the CPUs with a
  ticket; every step appends a CPU, removes the one at the head, or leaves the queue; and the CPU at
  the head holds the lock or finds its ticket equal to \<^verbatim>\<open>owner\<close>, so it never waits.
\<close>

theorem ticket_lock_fifo:
  assumes "lock_reach s"
  shows "\<exists>q. lock_queue s q \<and> (\<forall>i s'. i < NCPU \<and> lock_step i s s' \<longrightarrow> (\<exists>q'. lock_queue s' q' \<and> fifo_step i q q')) \<and>
    (q \<noteq> [] \<longrightarrow> served (pc s (hd q)) \<or> pc s (hd q) = Spin (owner (the_lock s)))"
proof -
  obtain q where q: "lock_queue s q" using reach_queue [OF assms] by blast
  have "served (pc s (hd q)) \<or> pc s (hd q) = Spin (owner (the_lock s))" if "q \<noteq> []"
  proof -
    have "ticket (pc s (hd q))" using lock_queueD(2) [OF q, of "hd q"] that by simp
    moreover have "pc s (hd q) = Spin n \<Longrightarrow> n = owner (the_lock s)" for n
      using lock_queueD(5) [OF q, of 0 n] that by (simp add: hd_conv_nth)
    ultimately show ?thesis by (cases "pc s (hd q)") (auto simp: ticket_def served_def)
  qed
  then show ?thesis using q lock_step_queue [OF q] by blast
qed

theorem ticket_lock_fifo_witness:
  "\<exists>q. lock_queue lock_taken q \<and>
    (\<forall>i s'. i < NCPU \<and> lock_step i lock_taken s' \<longrightarrow> (\<exists>q'. lock_queue s' q' \<and> fifo_step i q q')) \<and>
    (q \<noteq> [] \<longrightarrow> served (pc lock_taken (hd q)) \<or> pc lock_taken (hd q) = Spin (owner (the_lock lock_taken)))"
  by (rule ticket_lock_fifo [OF lock_taken_reach])

text \<open>
  \<^verbatim>\<open>is_locked\<close> tells whether the queue is empty as long as the tickets have not
  wrapped around; when the holder has ticket \<open>2^32 - 1\<close> it says unlocked.
\<close>

theorem is_locked_wraps:
  assumes q: "lock_queue s q"
  shows "(unat (owner (the_lock s)) + length q < 2 ^ 32 \<longrightarrow> is_locked (the_lock s) = (if q = [] then 0 else 1)) \<and>
    (owner (the_lock s) = 0xFFFFFFFF \<longrightarrow> is_locked (the_lock s) = 0)"
proof (intro conjI impI)
  note d = lock_queueD [OF q]
  assume b: "unat (owner (the_lock s)) + length q < 2 ^ 32"
  then have "unat (of_nat (length q) :: u32) = length q" by (simp only: unat_of_nat) simp
  then have "unat (next_ticket (the_lock s)) = unat (owner (the_lock s)) + length q"
    using b unfolding d(4) by (subst unat_add_lem [THEN iffD1]) simp_all
  then show "is_locked (the_lock s) = (if q = [] then 0 else 1)"
    by (simp add: is_locked_def word_less_nat_alt)
next
  assume "owner (the_lock s) = 0xFFFFFFFF"
  moreover have "\<not> (0xFFFFFFFF :: u32) < w" for w
    using unsigned_less [of w, where ?'a = nat] by (simp add: word_less_nat_alt)
  ultimately show "is_locked (the_lock s) = 0" by (simp add: is_locked_def)
qed

definition lock_wrapped :: lock_state where
  "lock_wrapped = \<lparr>the_lock = \<lparr>owner = 0xFFFFFFFF, next_ticket = 0\<rparr>, pc = (\<lambda>_. Out)(2 := Holds), monitor = \<lambda>_. False\<rparr>"

theorem is_locked_wraps_witness: "is_locked (the_lock lock_wrapped) = 0 \<and> served (pc lock_wrapped 2)"
proof -
  have "lock_queue lock_wrapped [2]" by (auto simp: lock_queue_def lock_wrapped_def ticket_def served_def NCPU_def)
  from is_locked_wraps [OF this] show ?thesis by (simp add: lock_wrapped_def served_def)
qed

end
