(* ===== verification/SlotTable.thy ===== *)
theory SlotTable
  imports Bitmap
begin

text \<open>
  The table that maps the capabilities of a process to slots (\<^verbatim>\<open>struct slot_table\<close> in
  \<^verbatim>\<open>process/process.h\<close>, its functions in \<^verbatim>\<open>process/process.c\<close>). A slot pointer is
  an identifier, NULL is \<open>None\<close>. Functions that call \<^verbatim>\<open>kzalloc\<close> get the list of the
  addresses that the next calls return (0 is NULL, and so is the end of the list) and return the rest.
\<close>

record slot_table =
  slots_size :: u32
  st_slots :: "nat option list"
  full_slots_bmp :: bitmap
  slots_bmp :: bitmap

definition BASE_OBJECT_NUM :: u64 where "BASE_OBJECT_NUM = 64"
definition PROCESS_OBJ_ID :: int where "PROCESS_OBJ_ID = 0"
definition VMSPACE_OBJ_ID :: int where "VMSPACE_OBJ_ID = 1"

text \<open>A negative identifier is a large number when it is compared with the unsigned size.\<close>

definition is_valid_slot_id :: "slot_table \<Rightarrow> int \<Rightarrow> bool res" where
  "is_valid_slot_id t slot_id =
     (if slot_id < 0 \<and> (word_of_int slot_id :: u32) \<ge> slots_size t then Inr False
      else
        bindR (get_bit (word_of_int slot_id) (slots_bmp t)) (\<lambda>b.
          if b = 0 then Inr False
          else bindR (arr_get (st_slots t) (nat slot_id)) (\<lambda>sl.
            if sl = None then Inl BUG else Inr True)))"

definition get_slot :: "slot_table \<Rightarrow> int \<Rightarrow> nat option res" where
  "get_slot t slot_id =
     (if slot_id < 0 \<or> (word_of_int slot_id :: u32) \<ge> slots_size t then Inr None
      else arr_get (st_slots t) (nat slot_id))"

definition install_slot :: "slot_table \<Rightarrow> int \<Rightarrow> nat \<Rightarrow> slot_table res" where
  "install_slot t slot_id sl =
     bindR (get_bit (word_of_int slot_id) (slots_bmp t)) (\<lambda>b.
     bindR (bug_on (b = 0)) (\<lambda>_.
     bindR (arr_set (st_slots t) (nat slot_id) (Some sl)) (\<lambda>xs. Inr (t\<lparr>st_slots := xs\<rparr>))))"

definition free_slot_id :: "slot_table \<Rightarrow> int \<Rightarrow> slot_table res" where
  "free_slot_id t slot_id =
     bindR (clear_bit (word_of_int slot_id) (slots_bmp t)) (\<lambda>bmp.
     bindR (clear_bit (ucast (word_of_int slot_id div BASE_OBJECT_NUM)) (full_slots_bmp t)) (\<lambda>full.
     bindR (arr_set (st_slots t) (nat slot_id) None) (\<lambda>xs.
     Inr (t\<lparr>slots_bmp := bmp, full_slots_bmp := full, st_slots := xs\<rparr>))))"

text \<open>The next \<^verbatim>\<open>kzalloc\<close>.\<close>

definition kz :: "nat list \<Rightarrow> bool \<times> nat list" where
  "kz m = (case m of [] \<Rightarrow> (False, []) | a # as \<Rightarrow> (a \<noteq> 0, as))"

definition slot_table_init :: "u32 \<Rightarrow> nat list \<Rightarrow> int \<times> slot_table option \<times> nat list" where
  "slot_table_init sz m =
     (let sz = ucast ((ucast sz + BASE_OBJECT_NUM - 1) div BASE_OBJECT_NUM * BASE_OBJECT_NUM); n = unat sz in
      case kz m of (ok, m) \<Rightarrow> if \<not> ok then (- ENOMEM, None, m) else
      case kz m of (ok, m) \<Rightarrow> if \<not> ok then (- ENOMEM, None, m) else
      case kz m of (ok, m) \<Rightarrow> if \<not> ok then (- ENOMEM, None, m) else
      (0, Some \<lparr>slots_size = sz, st_slots = replicate n None,
            full_slots_bmp = replicate (BITS_TO_LONGS (BITS_TO_LONGS n)) 0,
            slots_bmp = replicate (BITS_TO_LONGS n) 0\<rparr>, m))"

text \<open>\<^verbatim>\<open>memcpy\<close> of the first \<open>n\<close> elements.\<close>

definition copy_into :: "'a list \<Rightarrow> 'a list \<Rightarrow> nat \<Rightarrow> 'a list res" where
  "copy_into dst src n = (if n \<le> length dst \<and> n \<le> length src then Inr (take n src @ drop n dst) else Inl WILD)"

definition expand_slot_table :: "slot_table \<Rightarrow> nat list \<Rightarrow> (int \<times> slot_table \<times> nat list) res" where
  "expand_slot_table t m =
     (let old_size = slots_size t; new_size = ucast (ucast old_size + BASE_OBJECT_NUM); n = unat old_size in
      case slot_table_init new_size m of
        (r, None, m) \<Rightarrow> Inr (r, t, m)
      | (r, Some new, m) \<Rightarrow>
          bindR (copy_into (st_slots new) (st_slots t) n) (\<lambda>xs.
          bindR (copy_into (slots_bmp new) (slots_bmp t) (BITS_TO_LONGS n)) (\<lambda>bmp.
          bindR (copy_into (full_slots_bmp new) (full_slots_bmp t) (BITS_TO_LONGS (BITS_TO_LONGS n))) (\<lambda>full.
          Inr (0, \<lparr>slots_size = new_size, st_slots = xs, full_slots_bmp = full, slots_bmp = bmp\<rparr>, m)))))"

text \<open>The search at the head of the loop of \<^verbatim>\<open>alloc_slot_id\<close>; \<open>None\<close> is \<^verbatim>\<open>goto expand\<close>.\<close>

definition find_free_slot :: "slot_table \<Rightarrow> nat option res" where
  "find_free_slot t =
     (let bmp_size = unat (slots_size t); full_bmp_size = BITS_TO_LONGS bmp_size in
      bindR (find_next_zero_bit (full_slots_bmp t) (of_nat full_bmp_size) 0) (\<lambda>empty_idx.
      if empty_idx \<ge> full_bmp_size then Inr None
      else
        bindR (find_next_zero_bit (slots_bmp t) (of_nat bmp_size) (of_nat (empty_idx * 64))) (\<lambda>empty_idx.
        Inr (if empty_idx \<ge> bmp_size then None else Some empty_idx))))"

lemma expand_consumes:
  assumes "expand_slot_table t m = Inr (r, t', m')" "\<not> r < 0"
  shows "length m' < length m"
  using assms
  by (auto simp: expand_slot_table_def slot_table_init_def kz_def Let_def errno_defs
      split: list.splits if_splits elim!: bindR_InrE)

function slot_loop :: "slot_table \<Rightarrow> nat list \<Rightarrow> (int \<times> slot_table \<times> nat list) res" where
  "slot_loop t m =
     bindR (find_free_slot t) (\<lambda>e. case e of
       Some i \<Rightarrow> Inr (int i, t, m)
     | None \<Rightarrow>
         bindR (expand_slot_table t m) (\<lambda>r.
           if fst r < 0 then Inr r else slot_loop (fst (snd r)) (snd (snd r))))"
  by pat_completeness auto
termination
  by (relation "measure (\<lambda>(t, m). length m)") (auto dest: expand_consumes)

declare slot_loop.simps [simp del]

text \<open>
  After the search the code tests the word of \<^verbatim>\<open>full_slots_bmp\<close>, not of
  \<^verbatim>\<open>slots_bmp\<close>.
\<close>

definition alloc_slot_id :: "slot_table \<Rightarrow> nat list \<Rightarrow> (int \<times> slot_table \<times> nat list) res" where
  "alloc_slot_id t m =
     bindR (slot_loop t m) (\<lambda>(empty_idx, t, m).
       if empty_idx < 0 then Inr (empty_idx, t, m)
       else
         bindR (set_bit_c (word_of_int empty_idx) (slots_bmp t)) (\<lambda>bmp.
         bindR (arr_get (full_slots_bmp t) (nat empty_idx div 64)) (\<lambda>w.
         bindR (if w = - 1 then set_bit_c (ucast (word_of_int empty_idx div BASE_OBJECT_NUM)) (full_slots_bmp t) else Inr (full_slots_bmp t)) (\<lambda>full.
         Inr (empty_idx, t\<lparr>slots_bmp := bmp, full_slots_bmp := full\<rparr>, m)))))"

section \<open>The invariant\<close>

definition used_slot :: "slot_table \<Rightarrow> nat \<Rightarrow> bool" where
  "used_slot t i \<longleftrightarrow> bmp_bit (slots_bmp t) i"

text \<open>
  No bit of \<^verbatim>\<open>full_slots_bmp\<close> is ever set; only the first 64 slots can be handed out.
\<close>

definition table_ok :: "slot_table \<Rightarrow> bool" where
  "table_ok t \<longleftrightarrow> unat (slots_size t) = 64 \<and> length (st_slots t) = 64 \<and> length (slots_bmp t) = 1 \<and>
     full_slots_bmp t = [0] \<and> (\<forall>i < 64. st_slots t ! i \<noteq> None \<longrightarrow> used_slot t i)"

lemma empty_table_ok:
  "table_ok \<lparr>slots_size = 64, st_slots = replicate 64 None, full_slots_bmp = [0], slots_bmp = [0]\<rparr>"
  by (simp add: table_ok_def)

lemma find_full_zero: "find_next_zero_bit [0] 1 0 = Inr 0"
  by code_simp

lemma find_free_slot_spec:
  assumes "table_ok t"
  shows "\<exists>r. find_free_slot t = Inr (if r < 64 then Some r else None) \<and>
    first_from (\<lambda>i. \<not> used_slot t i) 64 0 r"
proof -
  have sz: "unat (slots_size t) = 64" and f: "full_slots_bmp t = [0]" and l: "length (slots_bmp t) = 1"
    using assms by (simp_all add: table_ok_def)
  obtain r where r: "find_next_zero_bit (slots_bmp t) 64 0 = Inr r" "first_from (\<lambda>i. \<not> used_slot t i) 64 0 r"
    using find_next_bit_helper_spec [of 64 "slots_bmp t" 0 True] l
    by (auto simp: find_next_zero_bit_def used_slot_def)
  have "find_free_slot t = Inr (if r < 64 then Some r else None)"
    by (simp add: find_free_slot_def sz f BITS_TO_LONGS_def find_full_zero r(1) not_less)
  then show ?thesis using r(2) by blast
qed

lemma table_ok_mark:
  assumes ok: "table_ok t" and i: "i < 64" and b: "length bmp = 1" "\<And>j. bmp_bit bmp j \<longleftrightarrow> j = i \<or> used_slot t j"
  shows "table_ok (t\<lparr>slots_bmp := bmp\<rparr>)"
  using assms by (auto simp: table_ok_def used_slot_def)

lemma alloc_slot_id_free:
  assumes ok: "table_ok t" and fr: "i < 64" "\<not> used_slot t i" "\<forall>j < i. used_slot t j"
  shows "\<exists>t'. alloc_slot_id t m = Inr (int i, t', m) \<and> table_ok t' \<and> st_slots t' = st_slots t \<and>
    (\<forall>j. used_slot t' j \<longleftrightarrow> j = i \<or> used_slot t j)"
proof -
  obtain r where r: "find_free_slot t = Inr (if r < 64 then Some r else None)" "first_from (\<lambda>i. \<not> used_slot t i) 64 0 r"
    using find_free_slot_spec [OF ok] by blast
  have ri: "r = i"
  proof (rule ccontr)
    assume "r \<noteq> i"
    then consider "r < i" | "i < r" by linarith
    then show False using r(2) fr by cases (auto simp: first_from_def)
  qed
  have l: "length (slots_bmp t) = 1" and f: "full_slots_bmp t = [0]" using ok by (simp_all add: table_ok_def)
  have ui: "unat (word_of_int (int i) :: u32) = i" using fr(1) by (simp add: unat_of_nat_u32)
  obtain bmp where bmp: "set_bit_c (word_of_int (int i)) (slots_bmp t) = Inr bmp" "length bmp = 1"
      "\<And>j. bmp_bit bmp j \<longleftrightarrow> j = i \<or> used_slot t j"
    using set_bit_c_spec [of "word_of_int (int i)" "slots_bmp t"] fr(1) l ui by (auto simp: used_slot_def)
  have "slot_loop t m = Inr (int i, t, m)"
    by (subst slot_loop.simps) (simp add: r(1) ri fr(1))
  then have "alloc_slot_id t m = Inr (int i, t\<lparr>slots_bmp := bmp\<rparr>, m)"
    using bmp(1) fr(1) by (simp add: alloc_slot_id_def f)
  then show ?thesis
    using table_ok_mark [OF ok fr(1) bmp(2,3)] bmp(3) by (auto simp: used_slot_def)
qed

lemma all_used_loop:
  assumes ok: "table_ok t" and all: "\<forall>j < 64. used_slot t j"
  shows "slot_loop t m = bindR (expand_slot_table t m) (\<lambda>r. if fst r < 0 then Inr r else slot_loop (fst (snd r)) (snd (snd r)))"
proof -
  obtain r where r: "find_free_slot t = Inr (if r < 64 then Some r else None)" "first_from (\<lambda>i. \<not> used_slot t i) 64 0 r"
    using find_free_slot_spec [OF ok] by blast
  have "\<not> r < 64" using r(2) all by (auto simp: first_from_def)
  then show ?thesis using r(1) by (subst slot_loop.simps) simp
qed

lemma alloc_slot_id_nomem:
  assumes "table_ok t" "\<forall>j < 64. used_slot t j" "0 \<in> set (take 3 m) \<or> length m < 3"
  shows "\<exists>m'. alloc_slot_id t m = Inr (- ENOMEM, t, m')"
proof -
  have "\<exists>m'. expand_slot_table t m = Inr (- ENOMEM, t, m')"
    using assms(3) by (auto simp: expand_slot_table_def slot_table_init_def kz_def Let_def numeral_eq_Suc split: list.splits)
  then show ?thesis
    by (auto simp: alloc_slot_id_def all_used_loop [OF assms(1,2)] errno_defs)
qed

lemma alloc_slot_id_expanded:
  assumes ok: "table_ok t" and all: "\<forall>j < 64. used_slot t j" and nz: "a \<noteq> 0" "b \<noteq> 0" "c \<noteq> 0"
  shows "alloc_slot_id t (a # b # c # m) = Inl WILD"
proof -
  obtain w where w: "slots_bmp t = [w]" using ok by (cases "slots_bmp t") (auto simp: table_ok_def)
  have bits: "bit w j" if "j < 64" for j using all that w by (auto simp: used_slot_def bmp_bit_def)
  have "of_nat (unat (slots_size t)) = (of_nat 64 :: u32)" using ok by (simp only: table_ok_def)
  then have sz: "slots_size t = 64" by simp
  let ?t = "\<lparr>slots_size = 128, st_slots = st_slots t @ replicate 64 None, full_slots_bmp = [0], slots_bmp = [w, 0]\<rparr>"
  have ex: "expand_slot_table t (a # b # c # m) = Inr (0, ?t, m)"
    using ok w nz by (simp add: expand_slot_table_def slot_table_init_def kz_def BASE_OBJECT_NUM_def BITS_TO_LONGS_def Let_def
        copy_into_def table_ok_def sz)
  have "w = - 1" using bits by (intro bit_word_eqI) simp
  moreover have "find_next_zero_bit [0] 2 0 = Inr 0" "find_next_zero_bit [- 1, 0] 128 0 = Inr 64"
    by code_simp+
  ultimately have "find_free_slot ?t = Inr (Some 64)"
    by (simp add: find_free_slot_def BITS_TO_LONGS_def)
  then have "slot_loop ?t m = Inr (64, ?t, m)" by (subst slot_loop.simps) simp
  then have "slot_loop t (a # b # c # m) = Inr (64, ?t, m)"
    by (simp add: all_used_loop [OF ok all] ex)
  moreover have "set_bit_c 64 [w, 0] = Inr [w, 1]" by (simp add: set_bit_c_def)
  ultimately show ?thesis by (simp add: alloc_slot_id_def arr_get_def)
qed

section \<open>Properties\<close>

text \<open>
  While one of the first 64 slots of a table is free, \<^verbatim>\<open>alloc_slot_id\<close> needs no memory: it
  returns the first free slot and marks it, and changes no other slot.
\<close>

theorem alloc_slot_id_first_free:
  assumes "table_ok t" "i < 64" "\<not> used_slot t i" "\<forall>j < i. used_slot t j"
  shows "\<exists>t'. alloc_slot_id t m = Inr (int i, t', m) \<and> table_ok t' \<and> st_slots t' = st_slots t \<and>
    (\<forall>j. used_slot t' j \<longleftrightarrow> j = i \<or> used_slot t j)"
  by (rule alloc_slot_id_free [OF assms])

definition demo_table :: slot_table where
  "demo_table = \<lparr>slots_size = 64, st_slots = replicate 64 None, full_slots_bmp = [0], slots_bmp = [0x37]\<rparr>"

definition full_table :: slot_table where
  "full_table = \<lparr>slots_size = 64, st_slots = replicate 64 (Some 7), full_slots_bmp = [0], slots_bmp = [- 1]\<rparr>"

lemma full_table_used: "\<forall>j < 64. used_slot full_table j"
  by (simp add: used_slot_def full_table_def bmp_bit_def)

lemma full_table_ok: "table_ok full_table"
  using full_table_used by (simp add: table_ok_def full_table_def)

theorem alloc_slot_id_first_free_witness:
  "\<exists>t'. alloc_slot_id demo_table [] = Inr (int 3, t', []) \<and> table_ok t' \<and> st_slots t' = st_slots demo_table \<and>
    (\<forall>j. used_slot t' j \<longleftrightarrow> j = 3 \<or> used_slot demo_table j)"
proof (rule alloc_slot_id_first_free)
  show "table_ok demo_table" by (simp add: table_ok_def demo_table_def)
  show "\<not> used_slot demo_table 3" by (simp add: used_slot_def demo_table_def bmp_bit_def)
  have "used_slot demo_table 0" "used_slot demo_table 1" "used_slot demo_table 2"
    by (simp_all add: used_slot_def demo_table_def bmp_bit_def)
  moreover have "j = 0 \<or> j = 1 \<or> j = 2" if "j < 3" for j :: nat using that by linarith
  ultimately show "\<forall>j < 3. used_slot demo_table j" by metis
qed simp

text \<open>
  The 65th slot of a table cannot be handed out. The table is expanded (or \<^verbatim>\<open>-ENOMEM\<close> is
  returned when one of the three allocations fails, with the table unchanged), slot 64 is found, and
  then word 1 of \<^verbatim>\<open>full_slots_bmp\<close> is read, which has a single word.
\<close>

theorem slot_table_full:
  assumes "table_ok t" "\<forall>j < 64. used_slot t j"
  shows "(0 \<in> set (take 3 m) \<or> length m < 3) \<and> (\<exists>m'. alloc_slot_id t m = Inr (- ENOMEM, t, m')) \<or>
    (0 \<notin> set (take 3 m) \<and> 3 \<le> length m) \<and> alloc_slot_id t m = Inl WILD"
proof (cases "0 \<in> set (take 3 m) \<or> length m < 3")
  case True
  then show ?thesis using alloc_slot_id_nomem [OF assms] by blast
next
  case False
  then obtain a b c m' where "m = a # b # c # m'" "a \<noteq> 0" "b \<noteq> 0" "c \<noteq> 0"
    by (cases m; cases "tl m"; cases "tl (tl m)") (auto simp: numeral_eq_Suc)
  then show ?thesis using alloc_slot_id_expanded [OF assms] False by auto
qed

theorem slot_table_full_witness:
  "(0 \<in> set (take 3 [11, 12, 13 :: nat]) \<or> length [11, 12, 13 :: nat] < 3) \<and>
    (\<exists>m'. alloc_slot_id full_table [11, 12, 13] = Inr (- ENOMEM, full_table, m')) \<or>
    (0 \<notin> set (take 3 [11, 12, 13 :: nat]) \<and> 3 \<le> length [11, 12, 13 :: nat]) \<and> alloc_slot_id full_table [11, 12, 13] = Inl WILD"
  by (rule slot_table_full [OF full_table_ok full_table_used])

end
