(* ===== verification/Memory.thy ===== *)
theory Memory
  imports Prelude
begin

text \<open>
  Byte-addressed memory, for the components that take apart files and messages: a partial function
  from addresses to bytes, read and written at \<open>base + offset\<close>. An access outside it is \<open>WILD\<close>. The CPU
  is little-endian.
\<close>

type_synonym mem = "u64 \<Rightarrow> u8 option"

section \<open>Reading memory\<close>

fun rd_bytes :: "mem \<Rightarrow> u64 \<Rightarrow> nat \<Rightarrow> nat \<Rightarrow> u8 list res" where
  "rd_bytes m a off 0 = Inr []"
| "rd_bytes m a off (Suc n) =
     bindR (deref (m (a + of_nat off))) (\<lambda>b. bindR (rd_bytes m a (Suc off) n) (\<lambda>bs. Inr (b # bs)))"

text \<open>A little-endian field of \<open>n\<close> bytes.\<close>

definition rd_field :: "mem \<Rightarrow> u64 \<Rightarrow> nat \<Rightarrow> nat \<Rightarrow> 'a::len word res" where
  "rd_field m a off n = bindR (rd_bytes m a off n) (\<lambda>bs. Inr (word_rcat (rev bs)))"

abbreviation rd16 :: "mem \<Rightarrow> u64 \<Rightarrow> nat \<Rightarrow> u16 res" where "rd16 m a off \<equiv> rd_field m a off 2"
abbreviation rd32 :: "mem \<Rightarrow> u64 \<Rightarrow> nat \<Rightarrow> u32 res" where "rd32 m a off \<equiv> rd_field m a off 4"
abbreviation rd64 :: "mem \<Rightarrow> u64 \<Rightarrow> nat \<Rightarrow> u64 res" where "rd64 m a off \<equiv> rd_field m a off 8"

text \<open>\<^verbatim>\<open>memcpy\<close> to memory.\<close>

fun wr_bytes :: "mem \<Rightarrow> u64 \<Rightarrow> nat \<Rightarrow> u8 list \<Rightarrow> mem res" where
  "wr_bytes m a off [] = Inr m"
| "wr_bytes m a off (b # bs) =
     bindR (deref (m (a + of_nat off))) (\<lambda>_. wr_bytes (m(a + of_nat off \<mapsto> b)) a (Suc off) bs)"

section \<open>Fields and their bytes\<close>

text \<open>The bytes of a field, first the least significant.\<close>

definition le_bytes :: "nat \<Rightarrow> 'a::len word \<Rightarrow> u8 list" where
  "le_bytes n w = map (\<lambda>i. ucast (drop_bit (8 * i) w)) [0..<n]"

definition bytes_of :: "bool \<Rightarrow> nat \<Rightarrow> 'a::len word \<Rightarrow> u8 list" where
  "bytes_of be n w = (if be then rev (le_bytes n w) else le_bytes n w)"

definition holds :: "mem \<Rightarrow> u64 \<Rightarrow> u8 list \<Rightarrow> bool" where
  "holds m a bs \<longleftrightarrow> (\<forall>i < length bs. m (a + of_nat i) = Some (bs ! i))"

lemma length_le_bytes [simp]: "length (le_bytes n w) = n"
  by (simp add: le_bytes_def)

lemma rd_bytes_holds:
  "holds m a bs \<Longrightarrow> off + n \<le> length bs \<Longrightarrow> rd_bytes m a off n = Inr (take n (drop off bs))"
proof (induction n arbitrary: off)
  case (Suc n)
  then have "rd_bytes m a (Suc off) n = Inr (take n (drop (Suc off) bs))" by simp
  moreover have "m (a + of_nat off) = Some (bs ! off)" using Suc.prems by (simp add: holds_def)
  ultimately show ?case using Suc.prems by (simp add: Cons_nth_drop_Suc [symmetric])
qed simp

lemma rd_field_at:
  assumes "holds m a (xs @ f @ ys)" "length xs = off" "length f = n"
  shows "rd_field m a off n = Inr (word_rcat (rev f))"
  using rd_bytes_holds [OF assms(1), of off n] assms(2,3) by (simp add: rd_field_def)

lemma bit_rcat:
  "bit (word_rcat (bs :: u8 list) :: 'a::len word) k \<longleftrightarrow>
    k < LENGTH('a) \<and> k div 8 < length bs \<and> bit (rev bs ! (k div 8)) (k mod 8)"
  using bit_horner_sum_uint_exp_iff [of "rev bs" k]
  by (simp add: word_rcat_def bit_simps)

lemma word_rcat_le:
  fixes w :: "'a::len word"
  assumes "LENGTH('a) = 8 * n"
  shows "word_rcat (rev (le_bytes n w)) = w"
proof (rule bit_word_eqI)
  fix k assume k: "k < LENGTH('a)"
  then have "k div 8 < n" using assms by simp
  then show "bit (word_rcat (rev (le_bytes n w)) :: 'a word) k = bit w k"
    using k by (simp add: bit_rcat bit_simps le_bytes_def)
qed

lemma bit_word_rcat_be:
  fixes w :: "'a::len word"
  assumes "LENGTH('a) = 8 * n" "k < 8 * n"
  shows "bit (word_rcat (le_bytes n w) :: 'a word) k = bit w (8 * (n - 1 - k div 8) + k mod 8)"
proof -
  have d: "k div 8 < n" using assms by simp
  then show ?thesis using assms by (simp add: bit_rcat bit_simps le_bytes_def rev_nth)
qed

text \<open>\<open>bs\<close> is in memory \<open>off\<close> bytes after \<open>a\<close>.\<close>

definition at :: "mem \<Rightarrow> u64 \<Rightarrow> nat \<Rightarrow> u8 list \<Rightarrow> bool" where
  "at m a off bs \<longleftrightarrow> (\<exists>xs. length xs = off \<and> holds m a (xs @ bs))"

lemma length_bytes_of [simp]: "length (bytes_of be n w) = n"
  by (simp add: bytes_of_def)

lemma at_step: "at m a off (bytes_of be n w @ ys) \<Longrightarrow> at m a (n + off) ys"
proof -
  assume "at m a off (bytes_of be n w @ ys)"
  then obtain xs where "length xs = off" "holds m a (xs @ bytes_of be n w @ ys)" by (auto simp: at_def)
  then show ?thesis by (auto simp: at_def intro!: exI [of _ "xs @ bytes_of be n w"])
qed

end
