(* ===== verification/Elf.thy ===== *)
theory Elf
  imports Memory
begin

text \<open>
  ELF files: \<^verbatim>\<open>common/elf.c\<close>, \<^verbatim>\<open>common/elf.h\<close> and the byte-order macros of
  \<^verbatim>\<open>common/endianness.h\<close>. The file is in memory, where a structure of C is read field by
  field at the offsets of its declaration (no structure has padding). Storing a parsed header beyond
  the array that was allocated for it is \<open>WILD\<close>.
\<close>

section \<open>Byte order\<close>

definition le_to_cpu :: "'a::len word \<Rightarrow> 'a word" where
  "le_to_cpu x = x"

definition be16_to_cpu :: "'a::len word \<Rightarrow> 'a word" where
  "be16_to_cpu x = push_bit 8 (x AND 0xff) OR (drop_bit 8 x AND 0xff)"

definition be32_to_cpu :: "'a::len word \<Rightarrow> 'a word" where
  "be32_to_cpu x = push_bit 16 (be16_to_cpu x) OR be16_to_cpu (drop_bit 16 x)"

definition be64_to_cpu :: "'a::len word \<Rightarrow> 'a word" where
  "be64_to_cpu x = push_bit 32 (be32_to_cpu x) OR be32_to_cpu (drop_bit 32 x)"

section \<open>Headers\<close>

record elf_indent =
  ei_magic :: "u8 list"
  ei_class :: u8
  ei_data :: u8
  ei_rest :: "u8 list"

record elf_header =
  e_indent :: elf_indent
  e_type :: u16
  e_machine :: u16
  e_version :: u32
  e_entry :: u64
  e_phoff :: u64
  e_shoff :: u64
  e_flags :: u32
  e_ehsize :: u16
  e_phentsize :: u16
  e_phnum :: u16
  e_shentsize :: u16
  e_shnum :: u16
  e_shstrndx :: u16

record elf_program_header =
  ph_type :: u32
  ph_flags :: u32
  ph_offset :: u64
  ph_vaddr :: u64
  ph_paddr :: u64
  ph_filesz :: u64
  ph_memsz :: u64
  ph_align :: u64

record elf_section_header =
  sh_name :: u32
  sh_type :: u32
  sh_flags :: u64
  sh_addr :: u64
  sh_offset :: u64
  sh_size :: u64
  sh_link :: u32
  sh_info :: u32
  sh_addralign :: u64
  sh_entsize :: u64

record elf_file =
  ef_header :: elf_header
  ef_p_headers :: "elf_program_header list"
  ef_s_headers :: "elf_section_header list"

definition ELF_ENDIAN_LE :: "elf_indent \<Rightarrow> bool" where "ELF_ENDIAN_LE d \<longleftrightarrow> ei_data d = 1"
definition ELF_ENDIAN_BE :: "elf_indent \<Rightarrow> bool" where "ELF_ENDIAN_BE d \<longleftrightarrow> ei_data d = 2"
definition ELF_BITS_32 :: "elf_indent \<Rightarrow> bool" where "ELF_BITS_32 d \<longleftrightarrow> ei_class d = 1"
definition ELF_BITS_64 :: "elf_indent \<Rightarrow> bool" where "ELF_BITS_64 d \<longleftrightarrow> ei_class d = 2"

lemmas elf_ident_defs = ELF_ENDIAN_LE_def ELF_ENDIAN_BE_def ELF_BITS_32_def ELF_BITS_64_def

definition is_elf_magic :: "elf_indent \<Rightarrow> bool" where
  "is_elf_magic d \<longleftrightarrow> ei_magic d = [0x7F, 0x45, 0x4C, 0x46]"

definition rd_indent :: "mem \<Rightarrow> u64 \<Rightarrow> elf_indent res" where
  "rd_indent m a = bindR (rd_bytes m a 0 16) (\<lambda>bs.
     Inr \<lparr>ei_magic = take 4 bs, ei_class = bs ! 4, ei_data = bs ! 5, ei_rest = drop 6 bs\<rparr>)"

text \<open>
  The fields of the two layouts of a header; \<open>c16\<close>, \<open>c32\<close> and \<open>c64\<close> are the conversions of
  the byte order. The first three fields have the same place in both.
\<close>

definition header_32 :: "(u16 \<Rightarrow> u16) \<Rightarrow> (u32 \<Rightarrow> u32) \<Rightarrow> elf_indent \<Rightarrow> mem \<Rightarrow> u64 \<Rightarrow> elf_header res" where
  "header_32 c16 c32 d m a =
     bindR (rd16 m a 16) (\<lambda>ty. bindR (rd16 m a 18) (\<lambda>ma. bindR (rd32 m a 20) (\<lambda>ve.
     bindR (rd32 m a 24) (\<lambda>en. bindR (rd32 m a 28) (\<lambda>ph. bindR (rd32 m a 32) (\<lambda>sh.
     bindR (rd32 m a 36) (\<lambda>fl. bindR (rd16 m a 40) (\<lambda>eh. bindR (rd16 m a 42) (\<lambda>pe.
     bindR (rd16 m a 44) (\<lambda>pn. bindR (rd16 m a 46) (\<lambda>se. bindR (rd16 m a 48) (\<lambda>sn.
     bindR (rd16 m a 50) (\<lambda>sx.
     Inr \<lparr>e_indent = d, e_type = c16 ty, e_machine = c16 ma, e_version = c32 ve,
       e_entry = ucast (c32 en), e_phoff = ucast (c32 ph), e_shoff = ucast (c32 sh), e_flags = c32 fl,
       e_ehsize = c16 eh, e_phentsize = c16 pe, e_phnum = c16 pn, e_shentsize = c16 se,
       e_shnum = c16 sn, e_shstrndx = c16 sx\<rparr>)))))))))))))"

definition header_64 :: "(u16 \<Rightarrow> u16) \<Rightarrow> (u32 \<Rightarrow> u32) \<Rightarrow> (u64 \<Rightarrow> u64) \<Rightarrow> elf_indent \<Rightarrow> mem \<Rightarrow> u64 \<Rightarrow> elf_header res" where
  "header_64 c16 c32 c64 d m a =
     bindR (rd16 m a 16) (\<lambda>ty. bindR (rd16 m a 18) (\<lambda>ma. bindR (rd32 m a 20) (\<lambda>ve.
     bindR (rd64 m a 24) (\<lambda>en. bindR (rd64 m a 32) (\<lambda>ph. bindR (rd64 m a 40) (\<lambda>sh.
     bindR (rd32 m a 48) (\<lambda>fl. bindR (rd16 m a 52) (\<lambda>eh. bindR (rd16 m a 54) (\<lambda>pe.
     bindR (rd16 m a 56) (\<lambda>pn. bindR (rd16 m a 58) (\<lambda>se. bindR (rd16 m a 60) (\<lambda>sn.
     bindR (rd16 m a 62) (\<lambda>sx.
     Inr \<lparr>e_indent = d, e_type = c16 ty, e_machine = c16 ma, e_version = c32 ve,
       e_entry = c64 en, e_phoff = c64 ph, e_shoff = c64 sh, e_flags = c32 fl,
       e_ehsize = c16 eh, e_phentsize = c16 pe, e_phnum = c16 pn, e_shentsize = c16 se,
       e_shnum = c16 sn, e_shstrndx = c16 sx\<rparr>)))))))))))))"

text \<open>The first three fields are read before the class is looked at.\<close>

definition header_start :: "mem \<Rightarrow> u64 \<Rightarrow> unit res" where
  "header_start m a =
     bindR (rd16 m a 16 :: u16 res) (\<lambda>_. bindR (rd16 m a 18 :: u16 res) (\<lambda>_.
     bindR (rd32 m a 20 :: u32 res) (\<lambda>_. Inr ())))"

text \<open>\<open>Inl\<close> of a result is the error number that the parsers return.\<close>

definition parse_elf_header :: "mem \<Rightarrow> u64 \<Rightarrow> (int + elf_header) res" where
  "parse_elf_header m code =
     bindR (rd_indent m code) (\<lambda>d.
     if \<not> is_elf_magic d then Inr (Inl (- EINVAL))
     else if ELF_ENDIAN_LE d then
       (if ELF_BITS_32 d then bindR (header_32 le_to_cpu le_to_cpu d m code) (\<lambda>h. Inr (Inr h))
        else if ELF_BITS_64 d then bindR (header_64 le_to_cpu le_to_cpu le_to_cpu d m code) (\<lambda>h. Inr (Inr h))
        else bindR (header_start m code) (\<lambda>_. Inr (Inl (- EINVAL))))
     else if ELF_ENDIAN_BE d then
       (if ELF_BITS_32 d then bindR (header_32 be16_to_cpu be32_to_cpu d m code) (\<lambda>h. Inr (Inr h))
        else if ELF_BITS_64 d then bindR (header_64 be16_to_cpu be32_to_cpu be64_to_cpu d m code) (\<lambda>h. Inr (Inr h))
        else bindR (header_start m code) (\<lambda>_. Inr (Inl (- EINVAL))))
     else Inr (Inl (- EINVAL)))"

definition pheader_32 :: "(u32 \<Rightarrow> u32) \<Rightarrow> mem \<Rightarrow> u64 \<Rightarrow> elf_program_header res" where
  "pheader_32 c32 m a =
     bindR (rd32 m a 0) (\<lambda>ty. bindR (rd32 m a 24) (\<lambda>fl. bindR (rd32 m a 4) (\<lambda>off.
     bindR (rd32 m a 8) (\<lambda>va. bindR (rd32 m a 12) (\<lambda>pa. bindR (rd32 m a 16) (\<lambda>fs.
     bindR (rd32 m a 20) (\<lambda>ms. bindR (rd32 m a 28) (\<lambda>al.
     Inr \<lparr>ph_type = c32 ty, ph_flags = c32 fl, ph_offset = ucast (c32 off), ph_vaddr = ucast (c32 va),
       ph_paddr = ucast (c32 pa), ph_filesz = ucast (c32 fs), ph_memsz = ucast (c32 ms), ph_align = ucast (c32 al)\<rparr>))))))))"

definition pheader_64 :: "(u32 \<Rightarrow> u32) \<Rightarrow> (u64 \<Rightarrow> u64) \<Rightarrow> mem \<Rightarrow> u64 \<Rightarrow> elf_program_header res" where
  "pheader_64 c32 c64 m a =
     bindR (rd32 m a 0) (\<lambda>ty. bindR (rd32 m a 4) (\<lambda>fl. bindR (rd64 m a 8) (\<lambda>off.
     bindR (rd64 m a 16) (\<lambda>va. bindR (rd64 m a 24) (\<lambda>pa. bindR (rd64 m a 32) (\<lambda>fs.
     bindR (rd64 m a 40) (\<lambda>ms. bindR (rd64 m a 48) (\<lambda>al.
     Inr \<lparr>ph_type = c32 ty, ph_flags = c32 fl, ph_offset = c64 off, ph_vaddr = c64 va,
       ph_paddr = c64 pa, ph_filesz = c64 fs, ph_memsz = c64 ms, ph_align = c64 al\<rparr>))))))))"

definition parse_elf_program_header :: "mem \<Rightarrow> u64 \<Rightarrow> elf_header \<Rightarrow> (int + elf_program_header) res" where
  "parse_elf_program_header m code elf = (let d = e_indent elf in
     if ELF_ENDIAN_LE d then
       (if ELF_BITS_32 d then bindR (pheader_32 le_to_cpu m code) (\<lambda>h. Inr (Inr h))
        else if ELF_BITS_64 d then bindR (pheader_64 le_to_cpu le_to_cpu m code) (\<lambda>h. Inr (Inr h))
        else Inr (Inl (- EINVAL)))
     else if ELF_ENDIAN_BE d then
       (if ELF_BITS_32 d then bindR (pheader_32 be32_to_cpu m code) (\<lambda>h. Inr (Inr h))
        else if ELF_BITS_64 d then bindR (pheader_64 be32_to_cpu be64_to_cpu m code) (\<lambda>h. Inr (Inr h))
        else Inr (Inl (- EINVAL)))
     else Inr (Inl (- EINVAL)))"

definition sheader_32 :: "(u32 \<Rightarrow> u32) \<Rightarrow> mem \<Rightarrow> u64 \<Rightarrow> elf_section_header res" where
  "sheader_32 c32 m a =
     bindR (rd32 m a 0) (\<lambda>na. bindR (rd32 m a 4) (\<lambda>ty. bindR (rd32 m a 8) (\<lambda>fl.
     bindR (rd32 m a 12) (\<lambda>ad. bindR (rd32 m a 16) (\<lambda>off. bindR (rd32 m a 20) (\<lambda>sz.
     bindR (rd32 m a 24) (\<lambda>li. bindR (rd32 m a 28) (\<lambda>inf. bindR (rd32 m a 32) (\<lambda>al.
     bindR (rd32 m a 36) (\<lambda>en.
     Inr \<lparr>sh_name = c32 na, sh_type = c32 ty, sh_flags = ucast (c32 fl), sh_addr = ucast (c32 ad),
       sh_offset = ucast (c32 off), sh_size = ucast (c32 sz), sh_link = c32 li, sh_info = c32 inf,
       sh_addralign = ucast (c32 al), sh_entsize = ucast (c32 en)\<rparr>))))))))))"

definition sheader_64 :: "(u32 \<Rightarrow> u32) \<Rightarrow> (u64 \<Rightarrow> u64) \<Rightarrow> mem \<Rightarrow> u64 \<Rightarrow> elf_section_header res" where
  "sheader_64 c32 c64 m a =
     bindR (rd32 m a 0) (\<lambda>na. bindR (rd32 m a 4) (\<lambda>ty. bindR (rd64 m a 8) (\<lambda>fl.
     bindR (rd64 m a 16) (\<lambda>ad. bindR (rd64 m a 24) (\<lambda>off. bindR (rd64 m a 32) (\<lambda>sz.
     bindR (rd32 m a 40) (\<lambda>li. bindR (rd32 m a 44) (\<lambda>inf. bindR (rd64 m a 48) (\<lambda>al.
     bindR (rd64 m a 56) (\<lambda>en.
     Inr \<lparr>sh_name = c32 na, sh_type = c32 ty, sh_flags = c64 fl, sh_addr = c64 ad,
       sh_offset = c64 off, sh_size = c64 sz, sh_link = c32 li, sh_info = c32 inf,
       sh_addralign = c64 al, sh_entsize = c64 en\<rparr>))))))))))"

definition parse_elf_section_header :: "mem \<Rightarrow> u64 \<Rightarrow> elf_header \<Rightarrow> (int + elf_section_header) res" where
  "parse_elf_section_header m code elf = (let d = e_indent elf in
     if ELF_ENDIAN_LE d then
       (if ELF_BITS_32 d then bindR (sheader_32 le_to_cpu m code) (\<lambda>h. Inr (Inr h))
        else if ELF_BITS_64 d then bindR (sheader_64 le_to_cpu le_to_cpu m code) (\<lambda>h. Inr (Inr h))
        else Inr (Inl (- EINVAL)))
     else if ELF_ENDIAN_BE d then
       (if ELF_BITS_32 d then bindR (sheader_32 be32_to_cpu m code) (\<lambda>h. Inr (Inr h))
        else if ELF_BITS_64 d then bindR (sheader_64 be32_to_cpu be64_to_cpu m code) (\<lambda>h. Inr (Inr h))
        else Inr (Inl (- EINVAL)))
     else Inr (Inl (- EINVAL)))"

text \<open>
  A loop over the entries of a table. Entry \<open>i\<close> is at \<open>off + entsize * i\<close>; it is stored as element \<open>i\<close>
  of an array of \<open>cap\<close> bytes with elements of \<open>elem\<close> bytes. \<open>Inl\<close> is the error of the entry that failed.
\<close>

fun parse_table :: "(u64 \<Rightarrow> (int + 'h) res) \<Rightarrow> u64 \<Rightarrow> u64 \<Rightarrow> nat \<Rightarrow> nat \<Rightarrow> nat list \<Rightarrow> (int + 'h list) res" where
  "parse_table parse base entsize elem cap [] = Inr (Inr [])"
| "parse_table parse base entsize elem cap (i # is) =
     bindR (parse (base + entsize * of_nat i)) (\<lambda>r. case r of
       Inl err \<Rightarrow> Inr (Inl err)
     | Inr h \<Rightarrow>
         if elem * (i + 1) > cap then Inl WILD
         else bindR (parse_table parse base entsize elem cap is) (\<lambda>r. case r of
           Inl err \<Rightarrow> Inr (Inl err) | Inr hs \<Rightarrow> Inr (Inr (h # hs))))"

definition SIZEOF_PHEADER :: nat where "SIZEOF_PHEADER = 56"
definition SIZEOF_SHEADER :: nat where "SIZEOF_SHEADER = 64"

text \<open>
  \<open>supply\<close> are the addresses that the next calls of \<^verbatim>\<open>kmalloc\<close> return, 0 for NULL. The array for the
  headers has the entry size of the file, its elements the size of the 64-bit structure.
\<close>

definition next_alloc :: "nat list \<Rightarrow> nat \<times> nat list" where
  "next_alloc ms = (case ms of [] \<Rightarrow> (0, []) | a # as \<Rightarrow> (a, as))"

definition elf_parse_file :: "mem \<Rightarrow> u64 \<Rightarrow> nat list \<Rightarrow> ((int + elf_file) \<times> nat list) res" where
  "elf_parse_file m code ms =
     (case next_alloc ms of (elf, ms) \<Rightarrow> if elf = 0 then Inr (Inl (- ENOMEM), ms) else
      bindR (parse_elf_header m code) (\<lambda>r. case r of
        Inl err \<Rightarrow> Inr (Inl err, ms)
      | Inr h \<Rightarrow>
      let pcap = unat (e_phentsize h) * unat (e_phnum h); scap = unat (e_shentsize h) * unat (e_shnum h) in
      case next_alloc ms of (ph, ms) \<Rightarrow> if ph = 0 then Inr (Inl (- ENOMEM), ms) else
      case next_alloc ms of (sh, ms) \<Rightarrow> if sh = 0 then Inr (Inl (- ENOMEM), ms) else
      bindR (parse_table (\<lambda>a. parse_elf_program_header m a h) (code + e_phoff h) (ucast (e_phentsize h))
        SIZEOF_PHEADER pcap [0..<unat (e_phnum h)]) (\<lambda>r. case r of
        Inl err \<Rightarrow> Inr (Inl err, ms)
      | Inr phs \<Rightarrow>
      bindR (parse_table (\<lambda>a. parse_elf_section_header m a h) (code + e_shoff h) (ucast (e_shentsize h))
        SIZEOF_SHEADER scap [0..<unat (e_shnum h)]) (\<lambda>r. case r of
        Inl err \<Rightarrow> Inr (Inl err, ms)
      | Inr shs \<Rightarrow> Inr (Inr \<lparr>ef_header = h, ef_p_headers = phs, ef_s_headers = shs\<rparr>, ms)))))"

section \<open>Encoding\<close>

lemma bit_be16:
  "bit (be16_to_cpu (x :: 'a::len word)) k \<longleftrightarrow>
     k < LENGTH('a) \<and> (8 \<le> k \<and> k < 16 \<and> bit x (k - 8) \<or> k < 8 \<and> bit x (k + 8))"
proof -
  have m: "(0xff :: 'a word) = mask 8" by (simp add: mask_eq_exp_minus_1)
  have "be16_to_cpu x = push_bit 8 (take_bit 8 x) OR take_bit 8 (drop_bit 8 x)"
    by (simp only: be16_to_cpu_def m take_bit_eq_mask)
  then show ?thesis by (auto simp: bit_simps add.commute dest: bit_imp_le_length)
qed

lemma bit_be32:
  "bit (be32_to_cpu (x :: 'a::len word)) k \<longleftrightarrow>
     k < LENGTH('a) \<and> (16 \<le> k \<and> bit (be16_to_cpu x) (k - 16) \<or> bit (be16_to_cpu (drop_bit 16 x)) k)"
  by (auto simp: be32_to_cpu_def bit_simps dest: bit_imp_le_length)

lemma bit_be64:
  "bit (be64_to_cpu (x :: 'a::len word)) k \<longleftrightarrow>
     k < LENGTH('a) \<and> (32 \<le> k \<and> bit (be32_to_cpu x) (k - 32) \<or> bit (be32_to_cpu (drop_bit 32 x)) k)"
  by (auto simp: be64_to_cpu_def bit_simps dest: bit_imp_le_length)

lemma byte_split:
  fixes k :: nat
  assumes "k < 8 * n"
  obtains d r where "k = 8 * d + r" "d < n" "r < 8"
proof
  show "k = 8 * (k div 8) + k mod 8" by simp
  show "k div 8 < n" "k mod 8 < 8" using assms by simp_all
qed

lemma byte_pos:
  fixes c r :: nat
  assumes "8 dvd c" "r < 8"
  shows "(c + r) div 8 = c div 8" "(c + r) mod 8 = r" "(r + c) div 8 = c div 8" "(r + c) mod 8 = r"
  using assms by auto

lemma be16_rcat: "be16_to_cpu (word_rcat (le_bytes 2 w)) = (w :: u16)"
proof (rule bit_word_eqI)
  fix k assume "k < LENGTH(16)"
  then have "k < 8 * 2" by simp
  then obtain d r where k: "k = 8 * d + r" "d < 2" "r < 8" by (rule byte_split)
  from k(2) have "d = 0 \<or> d = 1" by auto
  then show "bit (be16_to_cpu (word_rcat (le_bytes 2 w)) :: u16) k = bit w k"
    using k(1,3) by (elim disjE) (simp_all add: bit_be16 bit_word_rcat_be byte_pos)
qed

lemma be32_rcat: "be32_to_cpu (word_rcat (le_bytes 4 w)) = (w :: u32)"
proof (rule bit_word_eqI)
  fix k assume "k < LENGTH(32)"
  then have "k < 8 * 4" by simp
  then obtain d r where k: "k = 8 * d + r" "d < 4" "r < 8" by (rule byte_split)
  from k(2) have "d = 0 \<or> d = 1 \<or> d = 2 \<or> d = 3" by auto
  then show "bit (be32_to_cpu (word_rcat (le_bytes 4 w)) :: u32) k = bit w k"
    using k(1,3) by (elim disjE) (simp_all add: bit_be32 bit_be16 bit_drop_bit_eq bit_word_rcat_be byte_pos)
qed

lemma be64_rcat: "be64_to_cpu (word_rcat (le_bytes 8 w)) = (w :: u64)"
proof (rule bit_word_eqI)
  fix k assume "k < LENGTH(64)"
  then have "k < 8 * 8" by simp
  then obtain d r where k: "k = 8 * d + r" "d < 8" "r < 8" by (rule byte_split)
  from k(2) have "d = 0 \<or> d = 1 \<or> d = 2 \<or> d = 3 \<or> d = 4 \<or> d = 5 \<or> d = 6 \<or> d = 7" by auto
  then show "bit (be64_to_cpu (word_rcat (le_bytes 8 w)) :: u64) k = bit w k"
    using k(1,3) by (elim disjE) (simp_all add: bit_be64 bit_be32 bit_be16 bit_drop_bit_eq bit_word_rcat_be byte_pos)
qed

text \<open>What a field reads as before the conversion, and the conversion.\<close>

definition raw :: "bool \<Rightarrow> nat \<Rightarrow> 'a::len word \<Rightarrow> 'a word" where
  "raw be n w = (if be then word_rcat (le_bytes n w) else w)"

definition conv16 :: "bool \<Rightarrow> u16 \<Rightarrow> u16" where "conv16 be = (if be then be16_to_cpu else le_to_cpu)"
definition conv32 :: "bool \<Rightarrow> u32 \<Rightarrow> u32" where "conv32 be = (if be then be32_to_cpu else le_to_cpu)"
definition conv64 :: "bool \<Rightarrow> u64 \<Rightarrow> u64" where "conv64 be = (if be then be64_to_cpu else le_to_cpu)"

lemma conv_raw:
  "conv16 be (raw be 2 w2) = w2" "conv32 be (raw be 4 w4) = w4" "conv64 be (raw be 8 w8) = w8"
  by (simp_all add: conv16_def conv32_def conv64_def raw_def le_to_cpu_def be16_rcat be32_rcat be64_rcat)

lemma rd_field_raw:
  fixes w :: "'a::len word"
  assumes "at m a off (bytes_of be n w @ ys)" "LENGTH('a) = 8 * n"
  shows "rd_field m a off n = Inr (raw be n w)"
proof -
  obtain xs where "holds m a (xs @ bytes_of be n w @ ys)" "length xs = off" using assms(1) by (auto simp: at_def)
  then have "rd_field m a off n = Inr (word_rcat (rev (bytes_of be n w)) :: 'a word)" by (rule rd_field_at) simp
  then show ?thesis by (cases be) (simp_all add: bytes_of_def raw_def word_rcat_le [OF assms(2)])
qed

lemmas rd_raw16 = rd_field_raw [where ?'a = 16 and n = 2, simplified]
lemmas rd_raw32 = rd_field_raw [where ?'a = 32 and n = 4, simplified]
lemmas rd_raw64 = rd_field_raw [where ?'a = 64 and n = 8, simplified]

definition indent_bytes :: "elf_indent \<Rightarrow> u8 list" where
  "indent_bytes d = ei_magic d @ [ei_class d, ei_data d] @ ei_rest d"

definition header_bytes :: "elf_header \<Rightarrow> u8 list" where
  "header_bytes h = (let d = e_indent h; be = ELF_ENDIAN_BE d in
     indent_bytes d @ bytes_of be 2 (e_type h) @ bytes_of be 2 (e_machine h) @ bytes_of be 4 (e_version h) @
     (if ELF_BITS_32 d
      then bytes_of be 4 (ucast (e_entry h) :: u32) @ bytes_of be 4 (ucast (e_phoff h) :: u32) @
           bytes_of be 4 (ucast (e_shoff h) :: u32)
      else bytes_of be 8 (e_entry h) @ bytes_of be 8 (e_phoff h) @ bytes_of be 8 (e_shoff h)) @
     bytes_of be 4 (e_flags h) @ bytes_of be 2 (e_ehsize h) @ bytes_of be 2 (e_phentsize h) @
     bytes_of be 2 (e_phnum h) @ bytes_of be 2 (e_shentsize h) @ bytes_of be 2 (e_shnum h) @
     bytes_of be 2 (e_shstrndx h))"

text \<open>A header that a file of its class and byte order can hold.\<close>

definition header_ok :: "elf_header \<Rightarrow> bool" where
  "header_ok h \<longleftrightarrow> is_elf_magic (e_indent h) \<and> length (ei_rest (e_indent h)) = 10 \<and>
     (ELF_ENDIAN_LE (e_indent h) \<or> ELF_ENDIAN_BE (e_indent h)) \<and>
     (ELF_BITS_64 (e_indent h) \<or> ELF_BITS_32 (e_indent h) \<and>
        unat (e_entry h) < 2 ^ 32 \<and> unat (e_phoff h) < 2 ^ 32 \<and> unat (e_shoff h) < 2 ^ 32)"

lemma ucast_ucast_small: "unat (x :: u64) < 2 ^ 32 \<Longrightarrow> ucast (ucast x :: u32) = x"
  by (rule word_unat_eq_iff [THEN iffD2]) (simp add: unsigned_ucast_eq unsigned_take_bit_eq take_bit_nat_eq_self)

lemma header_64_enc:
  assumes "at m a 16 (bytes_of be 2 ty @ bytes_of be 2 ma @ bytes_of be 4 ve @ bytes_of be 8 en @
     bytes_of be 8 ph @ bytes_of be 8 sh @ bytes_of be 4 fl @ bytes_of be 2 eh @ bytes_of be 2 pe @
     bytes_of be 2 pn @ bytes_of be 2 se @ bytes_of be 2 sn @ bytes_of be 2 sx @ rest)"
  shows "header_64 (conv16 be) (conv32 be) (conv64 be) d m a = Inr \<lparr>e_indent = d, e_type = ty, e_machine = ma,
    e_version = ve, e_entry = en, e_phoff = ph, e_shoff = sh, e_flags = fl, e_ehsize = eh, e_phentsize = pe,
    e_phnum = pn, e_shentsize = se, e_shnum = sn, e_shstrndx = sx\<rparr>"
proof -
  note f1 = assms
  note f2 = at_step [OF f1, simplified] note f3 = at_step [OF f2, simplified]
  note f4 = at_step [OF f3, simplified] note f5 = at_step [OF f4, simplified]
  note f6 = at_step [OF f5, simplified] note f7 = at_step [OF f6, simplified]
  note f8 = at_step [OF f7, simplified] note f9 = at_step [OF f8, simplified]
  note f10 = at_step [OF f9, simplified] note f11 = at_step [OF f10, simplified]
  note f12 = at_step [OF f11, simplified] note f13 = at_step [OF f12, simplified]
  note raw16 = f1 [THEN rd_raw16] f2 [THEN rd_raw16] f8 [THEN rd_raw16] f9 [THEN rd_raw16] f10 [THEN rd_raw16]
    f11 [THEN rd_raw16] f12 [THEN rd_raw16] f13 [THEN rd_raw16]
  note raw64 = f3 [THEN rd_raw32] f4 [THEN rd_raw64] f5 [THEN rd_raw64] f6 [THEN rd_raw64] f7 [THEN rd_raw32]
  show ?thesis unfolding header_64_def by (simp add: raw16 raw64 conv_raw)
qed

lemma header_32_enc:
  fixes en ph sh :: u32
  assumes "at m a 16 (bytes_of be 2 ty @ bytes_of be 2 ma @ bytes_of be 4 ve @ bytes_of be 4 en @
     bytes_of be 4 ph @ bytes_of be 4 sh @ bytes_of be 4 fl @ bytes_of be 2 eh @ bytes_of be 2 pe @
     bytes_of be 2 pn @ bytes_of be 2 se @ bytes_of be 2 sn @ bytes_of be 2 sx @ rest)"
  shows "header_32 (conv16 be) (conv32 be) d m a = Inr \<lparr>e_indent = d, e_type = ty, e_machine = ma,
    e_version = ve, e_entry = ucast en, e_phoff = ucast ph, e_shoff = ucast sh, e_flags = fl, e_ehsize = eh,
    e_phentsize = pe, e_phnum = pn, e_shentsize = se, e_shnum = sn, e_shstrndx = sx\<rparr>"
proof -
  note f1 = assms
  note f2 = at_step [OF f1, simplified] note f3 = at_step [OF f2, simplified]
  note f4 = at_step [OF f3, simplified] note f5 = at_step [OF f4, simplified]
  note f6 = at_step [OF f5, simplified] note f7 = at_step [OF f6, simplified]
  note f8 = at_step [OF f7, simplified] note f9 = at_step [OF f8, simplified]
  note f10 = at_step [OF f9, simplified] note f11 = at_step [OF f10, simplified]
  note f12 = at_step [OF f11, simplified] note f13 = at_step [OF f12, simplified]
  note raw16 = f1 [THEN rd_raw16] f2 [THEN rd_raw16] f8 [THEN rd_raw16] f9 [THEN rd_raw16] f10 [THEN rd_raw16]
    f11 [THEN rd_raw16] f12 [THEN rd_raw16] f13 [THEN rd_raw16]
  note raw32 = f3 [THEN rd_raw32] f4 [THEN rd_raw32] f5 [THEN rd_raw32] f6 [THEN rd_raw32] f7 [THEN rd_raw32]
  show ?thesis unfolding header_32_def by (simp add: raw16 raw32 conv_raw)
qed

lemma rd_indent_enc:
  assumes "holds m a (indent_bytes d @ rest)" "length (ei_magic d) = 4" "length (ei_rest d) = 10"
  shows "rd_indent m a = Inr d"
proof -
  have "rd_bytes m a 0 16 = Inr (indent_bytes d)"
    using rd_bytes_holds [OF assms(1), of 0 16] assms(2,3) by (simp add: indent_bytes_def)
  then show ?thesis using assms(2,3) by (simp add: rd_indent_def indent_bytes_def nth_append)
qed

lemma at_indent:
  assumes "holds m a (indent_bytes d @ rest)" "length (ei_magic d) = 4" "length (ei_rest d) = 10"
  shows "at m a 16 rest"
  using assms by (auto simp: at_def indent_bytes_def intro!: exI [of _ "indent_bytes d"])

section \<open>Properties\<close>

text \<open>
  C28: parsing undoes encoding: for each class and byte order, when the bytes of a header that the class
  can hold are in memory, \<^verbatim>\<open>parse_elf_header\<close> returns that header.
\<close>

theorem elf_header_roundtrip:
  assumes "header_ok h" "holds m a (header_bytes h @ rest)"
  shows "parse_elf_header m a = Inr (Inr h)"
proof -
  define d where "d = e_indent h"
  define be where "be = ELF_ENDIAN_BE d"
  have m: "is_elf_magic d" "length (ei_magic d) = 4" "length (ei_rest d) = 10"
    and e: "ELF_ENDIAN_LE d \<longleftrightarrow> \<not> be" and c: "ELF_BITS_64 d \<longleftrightarrow> \<not> ELF_BITS_32 d"
    using assms(1) by (auto simp: header_ok_def d_def be_def is_elf_magic_def elf_ident_defs)
  have ind: "rd_indent m a = Inr d"
    using assms(2) m by (intro rd_indent_enc) (simp_all add: header_bytes_def Let_def d_def)
  have "parse_elf_header m a =
      bindR (if ELF_BITS_32 d then header_32 (conv16 be) (conv32 be) d m a
             else header_64 (conv16 be) (conv32 be) (conv64 be) d m a) (\<lambda>h. Inr (Inr h))"
    using m(1) e c by (auto simp: parse_elf_header_def ind be_def conv16_def conv32_def conv64_def)
  also have "\<dots> = Inr (Inr h)"
  proof (cases "ELF_BITS_32 d")
    case True
    then have "header_32 (conv16 be) (conv32 be) d m a = Inr \<lparr>e_indent = d, e_type = e_type h, e_machine = e_machine h,
      e_version = e_version h, e_entry = ucast (ucast (e_entry h) :: u32), e_phoff = ucast (ucast (e_phoff h) :: u32),
      e_shoff = ucast (ucast (e_shoff h) :: u32), e_flags = e_flags h, e_ehsize = e_ehsize h, e_phentsize = e_phentsize h,
      e_phnum = e_phnum h, e_shentsize = e_shentsize h, e_shnum = e_shnum h, e_shstrndx = e_shstrndx h\<rparr>"
      using assms(2) m by (intro header_32_enc at_indent) (simp_all add: header_bytes_def Let_def flip: d_def be_def)
    moreover have "ucast (ucast (e_entry h) :: u32) = e_entry h" "ucast (ucast (e_phoff h) :: u32) = e_phoff h"
        "ucast (ucast (e_shoff h) :: u32) = e_shoff h"
      using assms(1) True c by (auto simp: header_ok_def ucast_ucast_small simp flip: d_def)
    ultimately show ?thesis using True by (simp add: d_def)
  next
    case False
    then have "header_64 (conv16 be) (conv32 be) (conv64 be) d m a = Inr \<lparr>e_indent = d, e_type = e_type h,
      e_machine = e_machine h, e_version = e_version h, e_entry = e_entry h, e_phoff = e_phoff h, e_shoff = e_shoff h,
      e_flags = e_flags h, e_ehsize = e_ehsize h, e_phentsize = e_phentsize h, e_phnum = e_phnum h,
      e_shentsize = e_shentsize h, e_shnum = e_shnum h, e_shstrndx = e_shstrndx h\<rparr>"
      using assms(2) m by (intro header_64_enc at_indent) (simp_all add: header_bytes_def Let_def flip: d_def be_def)
    then show ?thesis using False by (simp add: d_def)
  qed
  finally show ?thesis .
qed

definition demo_header :: elf_header where
  "demo_header = \<lparr>e_indent = \<lparr>ei_magic = [0x7F, 0x45, 0x4C, 0x46], ei_class = 1, ei_data = 2, ei_rest = replicate 10 0\<rparr>,
     e_type = 2, e_machine = 0xB7, e_version = 1, e_entry = 0x400000, e_phoff = 0x34, e_shoff = 0x1000, e_flags = 0,
     e_ehsize = 52, e_phentsize = 32, e_phnum = 2, e_shentsize = 40, e_shnum = 3, e_shstrndx = 2\<rparr>"

definition demo_mem :: mem where
  "demo_mem x = (if unat x < length (header_bytes demo_header) then Some (header_bytes demo_header ! unat x) else None)"

theorem elf_header_roundtrip_witness: "parse_elf_header demo_mem 0 = Inr (Inr demo_header)"
proof (rule elf_header_roundtrip)
  show "header_ok demo_header" by (simp add: header_ok_def demo_header_def is_elf_magic_def elf_ident_defs)
  have "length (header_bytes demo_header) = 52"
    by (simp add: header_bytes_def demo_header_def elf_ident_defs indent_bytes_def)
  then show "holds demo_mem 0 (header_bytes demo_header @ [])"
    by (simp add: holds_def demo_mem_def unat_of_nat take_bit_nat_eq_self)
qed

end
