(* ===== verification/Cpio.thy ===== *)
theory Cpio
  imports Memory
begin

text \<open>
  The reader of the cpio archive that holds the initial file system: \<^verbatim>\<open>common/cpio.c\<close>.
  Addresses are 64-bit words in the memory of theory \<open>Memory\<close>, a C string given by the caller is the
  list of its bytes without the final 0. The loops end at the entry \<^verbatim>\<open>TRAILER!!!\<close>; on
  other memory they need not, so they have a bound on their rounds, and \<open>None\<close> is running out of it.
\<close>

section \<open>Headers\<close>

text \<open>\<^verbatim>\<open>strcmp(p, cs) == 0\<close>, and the same for the first bytes only: bytes after a difference are not read.\<close>

fun str_eq :: "mem \<Rightarrow> u64 \<Rightarrow> nat \<Rightarrow> u8 list \<Rightarrow> bool res" where
  "str_eq m p off [] = bindR (deref (m (p + of_nat off))) (\<lambda>b. Inr (b = 0))"
| "str_eq m p off (c # cs) =
     bindR (deref (m (p + of_nat off))) (\<lambda>b. if b = c then str_eq m p (Suc off) cs else Inr False)"

fun prefix_eq :: "mem \<Rightarrow> u64 \<Rightarrow> nat \<Rightarrow> u8 list \<Rightarrow> bool res" where
  "prefix_eq m p off [] = Inr True"
| "prefix_eq m p off (c # cs) =
     bindR (deref (m (p + of_nat off))) (\<lambda>b. if b = c then prefix_eq m p (Suc off) cs else Inr False)"

definition hex_digit :: "u8 \<Rightarrow> u64" where
  "hex_digit c = (if c \<ge> 0x41 \<and> c \<le> 0x46 then ucast c - 0x41 + 10 else ucast c - 0x30)"

definition hex8_u64 :: "u8 list \<Rightarrow> u64" where
  "hex8_u64 s = foldl (\<lambda>u c. push_bit 4 u + hex_digit c) 0 s"

record cpio_header =
  c_ino :: u64
  c_mode :: u64
  c_uid :: u64
  c_gid :: u64
  c_nlink :: u64
  c_mtime :: u64
  c_filesize :: u64
  c_devmajor :: u64
  c_devminor :: u64
  c_rdevmajor :: u64
  c_rdevminor :: u64
  c_namesize :: u64
  c_check :: u64

text \<open>\<^verbatim>\<open>"070701"\<close>, \<^verbatim>\<open>"TRAILER!!!"\<close> and the size of the header in the file.\<close>

definition NEWC_MAGIC :: "u8 list" where "NEWC_MAGIC = [0x30, 0x37, 0x30, 0x37, 0x30, 0x31]"
definition TRAILER :: "u8 list" where "TRAILER = [0x54, 0x52, 0x41, 0x49, 0x4C, 0x45, 0x52, 0x21, 0x21, 0x21]"
definition SIZEOF_NEWC :: u64 where "SIZEOF_NEWC = 110"

definition rd_hex8 :: "mem \<Rightarrow> u64 \<Rightarrow> nat \<Rightarrow> u64 res" where
  "rd_hex8 m p off = bindR (rd_bytes m p off 8) (\<lambda>bs. Inr (hex8_u64 bs))"

definition cpio_parse_header :: "mem \<Rightarrow> u64 \<Rightarrow> cpio_header res" where
  "cpio_parse_header m p =
     bindR (prefix_eq m p 0 NEWC_MAGIC) (\<lambda>newc. bindR (bug_on (\<not> newc)) (\<lambda>_.
     bindR (rd_hex8 m p 6) (\<lambda>ino. bindR (rd_hex8 m p 14) (\<lambda>mode. bindR (rd_hex8 m p 22) (\<lambda>uid.
     bindR (rd_hex8 m p 30) (\<lambda>gid. bindR (rd_hex8 m p 38) (\<lambda>nlink. bindR (rd_hex8 m p 46) (\<lambda>mtime.
     bindR (rd_hex8 m p 54) (\<lambda>filesize. bindR (rd_hex8 m p 62) (\<lambda>devmajor. bindR (rd_hex8 m p 70) (\<lambda>devminor.
     bindR (rd_hex8 m p 78) (\<lambda>rdevmajor. bindR (rd_hex8 m p 86) (\<lambda>rdevminor. bindR (rd_hex8 m p 94) (\<lambda>namesize.
     bindR (rd_hex8 m p 102) (\<lambda>chk.
     Inr \<lparr>c_ino = ino, c_mode = mode, c_uid = uid, c_gid = gid, c_nlink = nlink, c_mtime = mtime,
       c_filesize = filesize, c_devmajor = devmajor, c_devminor = devminor, c_rdevmajor = rdevmajor,
       c_rdevminor = rdevminor, c_namesize = namesize, c_check = chk\<rparr>)))))))))))))))"

definition ALIGN4_UP :: "u64 \<Rightarrow> u64" where
  "ALIGN4_UP x = (x AND NOT 3) + (if x AND 3 \<noteq> 0 then 4 else 0)"

section \<open>Reading the archive\<close>

text \<open>The list of files that \<^verbatim>\<open>cpio_extract\<close> appends to; \<open>allocs\<close> says which allocations of a file succeed.\<close>

record cpio_file =
  cf_header :: cpio_header
  cf_name :: u64
  cf_data :: u64

definition cpio_init_g_files :: "cpio_file list" where
  "cpio_init_g_files = []"

definition cpio_add_file :: "cpio_file \<Rightarrow> cpio_file list \<Rightarrow> cpio_file list" where
  "cpio_add_file f g_files = g_files @ [f]"

definition cpio_alloc_file :: "bool list \<Rightarrow> bool \<times> bool list" where
  "cpio_alloc_file allocs = (case allocs of [] \<Rightarrow> (False, []) | b # bs \<Rightarrow> (b, bs))"

fun cpio_extract :: "nat \<Rightarrow> mem \<Rightarrow> u64 \<Rightarrow> bool list \<Rightarrow> cpio_file list \<Rightarrow> cpio_file list res option" where
  "cpio_extract 0 m p allocs g_files = None"
| "cpio_extract (Suc n) m p allocs g_files = (case cpio_alloc_file allocs of
     (False, _) \<Rightarrow> Some (Inr g_files)
   | (True, allocs) \<Rightarrow>
       (case cpio_parse_header m p of
          Inl e \<Rightarrow> Some (Inl e)
        | Inr header \<Rightarrow>
            let p = p + SIZEOF_NEWC in
            (case str_eq m p 0 TRAILER of
               Inl e \<Rightarrow> Some (Inl e)
             | Inr trailer \<Rightarrow>
                 if trailer then Some (Inr g_files)
                 else
                   let name = p; p = ALIGN4_UP (p + c_namesize header); data = p;
                       p = ALIGN4_UP (p + c_filesize header) in
                   cpio_extract n m p allocs
                     (cpio_add_file \<lparr>cf_header = header, cf_name = name, cf_data = data\<rparr> g_files))))"

text \<open>
  The loop of \<^verbatim>\<open>cpio_extract_single\<close>: address and size of the data of the first file with the
  name \<open>target\<close>, or \<open>None\<close> at the trailer.
\<close>

fun single_loop :: "nat \<Rightarrow> mem \<Rightarrow> u64 \<Rightarrow> u8 list \<Rightarrow> (u64 \<times> u64) option res option" where
  "single_loop 0 m p target = None"
| "single_loop (Suc n) m p target =
     (case cpio_parse_header m p of
        Inl e \<Rightarrow> Some (Inl e)
      | Inr header \<Rightarrow>
          let p = p + SIZEOF_NEWC in
          (case str_eq m p 0 TRAILER of
             Inl e \<Rightarrow> Some (Inl e)
           | Inr trailer \<Rightarrow>
               if trailer then Some (Inr None)
               else
                 let filename = p; p = ALIGN4_UP (p + c_namesize header) in
                 (case str_eq m filename 0 target of
                    Inl e \<Rightarrow> Some (Inl e)
                  | Inr found \<Rightarrow>
                      if found then Some (Inr (Some (p, c_filesize header)))
                      else single_loop n m (ALIGN4_UP (p + c_filesize header)) target)))"

text \<open>
  \<open>filler\<close> is the callback with its data argument; \<^verbatim>\<open>target + 1\<close> of an empty string is outside
  the string. The result of a missing file is \<^verbatim>\<open>ERR_PTR(-ENOENT)\<close>.
\<close>

definition cpio_extract_single :: "nat \<Rightarrow> mem \<Rightarrow> u64 \<Rightarrow> u8 list \<Rightarrow> (u64 \<Rightarrow> u64 \<Rightarrow> u64 res) \<Rightarrow> u64 res option" where
  "cpio_extract_single n m addr target filler = (case target of
     [] \<Rightarrow> Some (Inl WILD)
   | _ # target \<Rightarrow> map_option (\<lambda>r. bindR r (\<lambda>found. case found of
       None \<Rightarrow> Inr (ERR_PTR (- ENOENT)) | Some (start, sz) \<Rightarrow> filler start sz)) (single_loop n m addr target))"

section \<open>Archives\<close>

definition hex_char :: "nat \<Rightarrow> u8" where
  "hex_char d = (if d < 10 then of_nat (0x30 + d) else of_nat (0x41 + (d - 10)))"

definition hex8 :: "nat \<Rightarrow> u8 list" where
  "hex8 v = map (\<lambda>i. hex_char (v div 16 ^ (7 - i) mod 16)) [0..<8]"

definition pad4 :: "nat \<Rightarrow> u8 list" where
  "pad4 n = replicate ((4 - n mod 4) mod 4) 0"

text \<open>
  The archives that \<^verbatim>\<open>cpio -o -Hnewc\<close> writes: what a header says of a file besides its name and its
  size is arbitrary in its 32 bits, for every file and for the trailer.
\<close>

record file_meta =
  f_ino :: nat
  f_mode :: nat
  f_uid :: nat
  f_gid :: nat
  f_nlink :: nat
  f_mtime :: nat
  f_devmajor :: nat
  f_devminor :: nat
  f_rdevmajor :: nat
  f_rdevminor :: nat
  f_check :: nat

definition newc_fields :: "file_meta \<Rightarrow> nat \<Rightarrow> nat \<Rightarrow> nat list" where
  "newc_fields mt namesize filesize =
     [f_ino mt, f_mode mt, f_uid mt, f_gid mt, f_nlink mt, f_mtime mt, filesize,
      f_devmajor mt, f_devminor mt, f_rdevmajor mt, f_rdevminor mt, namesize, f_check mt]"

definition meta_ok :: "file_meta \<Rightarrow> bool" where
  "meta_ok mt \<longleftrightarrow> list_all (\<lambda>v. v < 2 ^ 32) (newc_fields mt 0 0)"

definition newc_bytes :: "file_meta \<Rightarrow> nat \<Rightarrow> nat \<Rightarrow> u8 list" where
  "newc_bytes mt namesize filesize = NEWC_MAGIC @ concat (map hex8 (newc_fields mt namesize filesize))"

definition entry_bytes :: "file_meta \<Rightarrow> u8 list \<Rightarrow> u8 list \<Rightarrow> u8 list" where
  "entry_bytes mt name data =
     newc_bytes mt (length name + 1) (length data) @ name @ [0] @ pad4 (110 + length name + 1) @ data @ pad4 (length data)"

definition archive_bytes :: "(file_meta \<times> u8 list \<times> u8 list) list \<Rightarrow> file_meta \<Rightarrow> u8 list" where
  "archive_bytes fs tm = concat (map (\<lambda>(mt, name, data). entry_bytes mt name data) fs) @ entry_bytes tm TRAILER []"

lemma length_hex8 [simp]: "length (hex8 v) = 8"
  by (simp add: hex8_def)

lemma hex_digit_char: "d < 16 \<Longrightarrow> hex_digit (hex_char d) = of_nat d"
proof -
  assume "d < 16"
  then have "d \<in> set [0..<16]" by simp
  then show ?thesis by (simp add: upt_rec, elim disjE) (simp_all add: hex_digit_def hex_char_def)
qed

lemma horner16:
  "foldl (\<lambda>u d. u * 16 + d) 0 (map (\<lambda>i. v div 16 ^ (n - Suc i) mod 16) [0..<n]) = (v :: nat) mod 16 ^ n"
proof (induction n arbitrary: v)
  case (Suc n)
  have eq: "v div 16 ^ (Suc n - Suc i) mod 16 = v div 16 div 16 ^ (n - Suc i) mod 16" if "i < n" for i
  proof -
    have "(16 :: nat) ^ (n - i) = 16 * 16 ^ (n - Suc i)" using that by (simp add: Suc_diff_Suc flip: power_Suc)
    then show ?thesis by (simp add: div_mult2_eq)
  qed
  have "map (\<lambda>i. v div 16 ^ (Suc n - Suc i) mod 16) [0..<Suc n] =
      map (\<lambda>i. v div 16 div 16 ^ (n - Suc i) mod 16) [0..<n] @ [v mod 16]"
    using eq by simp
  then have "foldl (\<lambda>u d. u * 16 + d) 0 (map (\<lambda>i. v div 16 ^ (Suc n - Suc i) mod 16) [0..<Suc n]) =
      v div 16 mod 16 ^ n * 16 + v mod 16"
    by (simp only: foldl_append Suc.IH) simp
  also have "\<dots> = v mod 16 ^ Suc n" by (simp add: mod_mult2_eq mult.commute)
  finally show ?case .
qed simp

lemma foldl_hex: "\<forall>d \<in> set ds. d < 16 \<Longrightarrow>
  foldl (\<lambda>u c. push_bit 4 u + hex_digit c) (of_nat u) (map hex_char ds) = of_nat (foldl (\<lambda>u d. u * 16 + d) u ds)"
proof (induction ds arbitrary: u)
  case (Cons d ds)
  have "push_bit 4 (of_nat u :: u64) + hex_digit (hex_char d) = of_nat (u * 16 + d)"
    using Cons.prems by (simp add: hex_digit_char push_bit_eq_mult)
  moreover have "foldl (\<lambda>u c. push_bit 4 u + hex_digit c) (of_nat (u * 16 + d)) (map hex_char ds) =
      of_nat (foldl (\<lambda>u d. u * 16 + d) (u * 16 + d) ds)"
    using Cons.prems by (intro Cons.IH) simp
  ultimately show ?case by (simp only: foldl_Cons list.map)
qed simp

lemma hex8_roundtrip: "v < 2 ^ 32 \<Longrightarrow> hex8_u64 (hex8 v) = of_nat v"
  using foldl_hex [of "map (\<lambda>i. v div 16 ^ (8 - Suc i) mod 16) [0..<8]" 0] horner16 [of v 8]
  by (auto simp: hex8_u64_def hex8_def comp_def)

lemma holds_drop: "holds m a (xs @ ys) \<Longrightarrow> holds m (a + of_nat (length xs)) ys"
  by (auto simp: holds_def nth_append add.assoc dest: spec [of _ "length xs + _"])

lemma prefix_eq_holds: "holds m a (xs @ cs @ ys) \<Longrightarrow> prefix_eq m a (length xs) cs = Inr True"
proof (induction cs arbitrary: xs)
  case (Cons c cs)
  have "m (a + of_nat (length xs)) = Some c" using Cons.prems by (auto simp: holds_def nth_append dest: spec [of _ "length xs"])
  then show ?case using Cons.IH [of "xs @ [c]"] Cons.prems by simp
qed simp

lemma str_eq_holds:
  assumes "holds m a (xs @ s @ [0] @ ys)" "0 \<notin> set s" "0 \<notin> set cs"
  shows "str_eq m a (length xs) cs = Inr (s = cs)"
  using assms
proof (induction cs arbitrary: xs s)
  case Nil
  then show ?case by (cases s) (auto simp: holds_def nth_append dest: spec [of _ "length xs"])
next
  case (Cons c cs)
  show ?case
  proof (cases s)
    case Nil
    then show ?thesis using Cons.prems by (auto simp: holds_def nth_append dest: spec [of _ "length xs"])
  next
    case (Cons b s')
    then have "m (a + of_nat (length xs)) = Some b" using Cons.prems(1) by (auto simp: holds_def nth_append dest: spec [of _ "length xs"])
    then show ?thesis using Cons.IH [of "xs @ [b]" s'] Cons.prems Cons by simp
  qed
qed

lemma rd_hex8_at: "holds m a (xs @ hex8 v @ ys) \<Longrightarrow> length xs = off \<Longrightarrow> v < 2 ^ 32 \<Longrightarrow> rd_hex8 m a off = Inr (of_nat v)"
  using rd_bytes_holds [of m a "xs @ hex8 v @ ys" off 8] by (simp add: rd_hex8_def hex8_roundtrip)

lemma parse_newc:
  assumes h: "holds m a (newc_bytes mt ns fs @ rest)" and v: "ns < 2 ^ 32" "fs < 2 ^ 32" "meta_ok mt"
  shows "cpio_parse_header m a = Inr \<lparr>c_ino = of_nat (f_ino mt), c_mode = of_nat (f_mode mt), c_uid = of_nat (f_uid mt),
    c_gid = of_nat (f_gid mt), c_nlink = of_nat (f_nlink mt), c_mtime = of_nat (f_mtime mt), c_filesize = of_nat fs,
    c_devmajor = of_nat (f_devmajor mt), c_devminor = of_nat (f_devminor mt), c_rdevmajor = of_nat (f_rdevmajor mt),
    c_rdevminor = of_nat (f_rdevminor mt), c_namesize = of_nat ns, c_check = of_nat (f_check mt)\<rparr>"
proof -
  have p: "prefix_eq m a 0 NEWC_MAGIC = Inr True"
    using prefix_eq_holds [of m a "[]" NEWC_MAGIC] h by (simp add: newc_bytes_def)
  have six: "length NEWC_MAGIC = 6" by (simp add: NEWC_MAGIC_def)
  let ?ws = "newc_fields mt ns fs"
  have l: "length ?ws = 13" by (simp add: newc_fields_def)
  have r: "rd_hex8 m a (6 + 8 * i) = Inr (of_nat (?ws ! i))" if "i < 13" for i
  proof -
    have i: "i < length ?ws" using that l by simp
    have "?ws = take i ?ws @ ?ws ! i # drop (Suc i) ?ws" using i by (rule id_take_nth_drop)
    then have "concat (map hex8 ?ws) = concat (map hex8 (take i ?ws)) @ hex8 (?ws ! i) @ concat (map hex8 (drop (Suc i) ?ws))"
      by (metis concat.simps(2) concat_append list.simps(9) map_append)
    moreover have "length (concat (map hex8 (take i ?ws))) = 8 * i"
      using i by (simp add: length_concat comp_def sum_list_triv)
    moreover have "?ws ! i < 2 ^ 32"
      using v nth_mem [OF i] by (auto simp: meta_ok_def newc_fields_def)
    ultimately show ?thesis
      using h six by (intro rd_hex8_at [where xs = "NEWC_MAGIC @ concat (map hex8 (take i ?ws))"]) (auto simp: newc_bytes_def)
  qed
  show ?thesis
    using r [of 0] r [of 1] r [of 2] r [of 3] r [of 4] r [of 5] r [of 6] r [of 7] r [of 8] r [of 9] r [of 10] r [of 11] r [of 12] p
    by (simp add: cpio_parse_header_def newc_fields_def)
qed

lemma length_newc [simp]: "length (newc_bytes mt ns fs) = 110"
  by (simp add: newc_bytes_def newc_fields_def NEWC_MAGIC_def)

lemma length_pad4 [simp]: "length (pad4 n) = (4 - n mod 4) mod 4"
  by (simp add: pad4_def)

lemma pad4_mod: "(n + length (pad4 n)) mod 4 = 0"
proof -
  have "n mod 4 < 4" by simp
  then consider "n mod 4 = 0" | "n mod 4 = 1" | "n mod 4 = 2" | "n mod 4 = 3" by linarith
  then show ?thesis by cases (simp_all, presburger+)
qed

lemma unat_add_mod4:
  assumes "4 dvd unat (a :: u64)"
  shows "unat (a + of_nat n) mod 4 = n mod 4"
proof -
  have "unat (a + of_nat n) = (unat a + n) mod 2 ^ 64"
    by (simp add: unat_word_ariths unat_of_nat take_bit_eq_mod mod_simps)
  then have "unat (a + of_nat n) mod 4 = (unat a + n) mod 4"
    by (simp add: mod_mod_cancel)
  then show ?thesis using assms by (auto elim!: dvdE)
qed

lemma ALIGN4_UP_pad:
  assumes "4 dvd unat a"
  shows "ALIGN4_UP (a + of_nat n) = a + of_nat (n + length (pad4 n))"
proof -
  let ?p = "a + of_nat n :: u64"
  have m: "(3 :: u64) = mask 2" by (simp add: mask_eq_exp_minus_1)
  have "unat (?p AND mask 2) = n mod 4" using unat_add_mod4 [OF assms, of n] by (simp add: word_and_mask_unat)
  then have "of_nat (unat (?p AND mask 2)) = (of_nat (n mod 4) :: u64)" by (simp only:)
  then have lo: "?p AND mask 2 = of_nat (n mod 4)" by simp
  have nz: "(of_nat (n mod 4) :: u64) = 0 \<longleftrightarrow> n mod 4 = 0"
    using word_of_nat_eq_0_iff [of "n mod 4", where ?'a = 64] by (auto dest: dvd_imp_le)
  have "ALIGN4_UP ?p = ?p - of_nat (n mod 4) + (if n mod 4 \<noteq> 0 then 4 else 0)"
    by (simp only: ALIGN4_UP_def m word_and_not_mask lo nz)
  also have "\<dots> = ?p + of_nat ((4 - n mod 4) mod 4)"
  proof (cases "n mod 4 = 0")
    case False
    then have "(of_nat ((4 - n mod 4) mod 4) :: u64) = of_nat 4 - of_nat (n mod 4)"
      by (subst of_nat_diff [symmetric]) (simp_all add: less_imp_le)
    then show ?thesis using False by simp
  qed simp
  finally show ?thesis by (simp add: add.assoc)
qed

definition name_ok :: "u8 list \<Rightarrow> bool" where
  "name_ok s \<longleftrightarrow> 0 \<notin> set s \<and> length s < 2 ^ 31"

lemma trailer_no_zero: "0 \<notin> set TRAILER"
  by (simp add: TRAILER_def)

lemma dvd_length_entry: "4 dvd length (entry_bytes mt name data)"
proof -
  note dvd = pad4_mod [THEN dvd_eq_mod_eq_0 [THEN iffD2]]
  have "4 dvd (110 + length name + 1 + length (pad4 (110 + length name + 1))) + (length data + length (pad4 (length data)))"
    by (intro dvd_add dvd)
  moreover have "length (entry_bytes mt name data) =
      (110 + length name + 1 + length (pad4 (110 + length name + 1))) + (length data + length (pad4 (length data)))"
    by (simp add: entry_bytes_def del: length_pad4)
  ultimately show ?thesis by (simp only:)
qed

lemma entry_step:
  assumes h: "holds m a (entry_bytes mt name data @ rest)" and al: "4 dvd unat a"
    and nm: "name_ok name" and mt: "meta_ok mt" and d: "length data < 2 ^ 32" and t: "0 \<notin> set target"
  obtains header p where "cpio_parse_header m a = Inr header"
    "str_eq m (a + SIZEOF_NEWC) 0 target = Inr (name = target)"
    "str_eq m (a + SIZEOF_NEWC) 0 TRAILER = Inr (name = TRAILER)"
    "ALIGN4_UP (a + SIZEOF_NEWC + c_namesize header) = p" "holds m p data"
    "c_filesize header = of_nat (length data)"
    "ALIGN4_UP (p + c_filesize header) = a + of_nat (length (entry_bytes mt name data))"
proof -
  let ?n = "110 + length name + 1" and ?N = "newc_bytes mt (length name + 1) (length data)"
  have ns: "length name + 1 < 2 ^ 32" using nm by (simp add: name_ok_def)
  obtain header where hd: "cpio_parse_header m a = Inr header" "c_namesize header = of_nat (length name + 1)"
      "c_filesize header = of_nat (length data)"
    using parse_newc [OF _ ns d mt, of m a] h by (auto simp: entry_bytes_def)
  have sz: "SIZEOF_NEWC = of_nat (length ?N)" by (simp add: SIZEOF_NEWC_def)
  have h1: "holds m (a + SIZEOF_NEWC) (name @ [0] @ pad4 ?n @ data @ pad4 (length data) @ rest)"
    unfolding sz using h by (intro holds_drop) (simp add: entry_bytes_def)
  have str: "str_eq m (a + SIZEOF_NEWC) 0 cs = Inr (name = cs)" if "0 \<notin> set cs" for cs
    using str_eq_holds [of m "a + SIZEOF_NEWC" "[]" name] h1 nm that by (simp add: name_ok_def)
  define p where "p = a + of_nat (?n + length (pad4 ?n))"
  have pa: "ALIGN4_UP (a + SIZEOF_NEWC + c_namesize header) = p"
  proof -
    have "a + SIZEOF_NEWC + c_namesize header = a + of_nat ?n"
      by (simp add: hd(2) SIZEOF_NEWC_def add.assoc)
    then show ?thesis by (simp only: p_def ALIGN4_UP_pad [OF al])
  qed
  have len: "?n + length (pad4 ?n) = length (?N @ name @ [0] @ pad4 ?n)" by simp
  have hp: "holds m p (data @ pad4 (length data) @ rest)"
    unfolding p_def len using h by (intro holds_drop) (simp add: entry_bytes_def)
  then have "holds m p data" by (auto simp: holds_def nth_append)
  moreover have "4 dvd unat p"
  proof -
    have "unat p mod 4 = 0" using unat_add_mod4 [OF al, of "?n + length (pad4 ?n)"] by (simp only: p_def pad4_mod)
    then show ?thesis by (simp only: dvd_eq_mod_eq_0)
  qed
  then have "ALIGN4_UP (p + c_filesize header) = a + of_nat (length (entry_bytes mt name data))"
    by (simp only: hd(3) ALIGN4_UP_pad) (simp add: p_def entry_bytes_def)
  ultimately show thesis using that hd(1,3) str [OF t] str [OF trailer_no_zero] pa by blast
qed

section \<open>Properties\<close>

lemma single_loop_finds:
  assumes "holds m a (archive_bytes fs tm @ rest)" "4 dvd unat a"
    "list_all (\<lambda>(mt, name, data). meta_ok mt \<and> name_ok name \<and> name \<noteq> TRAILER \<and> length data < 2 ^ 32) fs" "meta_ok tm" "0 \<notin> set target"
  shows "\<exists>r. single_loop (Suc (length fs)) m a target = Some (Inr r) \<and>
    (case map_of (map snd fs) target of None \<Rightarrow> r = None
     | Some data \<Rightarrow> \<exists>start. r = Some (start, of_nat (length data)) \<and> holds m start data)"
  using assms
proof (induction fs arbitrary: a)
  case Nil
  have h: "holds m a (entry_bytes tm TRAILER [] @ rest)" using Nil.prems(1) by (simp add: archive_bytes_def)
  have nm: "name_ok TRAILER" using trailer_no_zero by (simp add: name_ok_def TRAILER_def)
  have d: "length ([] :: u8 list) < 2 ^ 32" by simp
  obtain header where "cpio_parse_header m a = Inr header"
      "str_eq m (a + SIZEOF_NEWC) 0 TRAILER = Inr (TRAILER = TRAILER)"
    by (rule entry_step [OF h Nil.prems(2) nm Nil.prems(4) d trailer_no_zero])
  then show ?case by simp
next
  case (Cons f fs)
  obtain mt name data where f: "f = (mt, name, data)" by (cases f) auto
  have h: "holds m a (entry_bytes mt name data @ archive_bytes fs tm @ rest)" and nm: "name_ok name" "name \<noteq> TRAILER"
      and d: "length data < 2 ^ 32" and mt: "meta_ok mt"
    using Cons.prems by (simp_all add: archive_bytes_def f)
  obtain header p where e: "cpio_parse_header m a = Inr header"
    "str_eq m (a + SIZEOF_NEWC) 0 target = Inr (name = target)"
    "str_eq m (a + SIZEOF_NEWC) 0 TRAILER = Inr (name = TRAILER)"
    "ALIGN4_UP (a + SIZEOF_NEWC + c_namesize header) = p" "holds m p data"
    "c_filesize header = of_nat (length data)"
    "ALIGN4_UP (p + c_filesize header) = a + of_nat (length (entry_bytes mt name data))"
    by (rule entry_step [OF h Cons.prems(2) nm(1) mt d Cons.prems(5)])
  show ?case
  proof (cases "name = target")
    case True
    then show ?thesis using e nm(2) by (simp add: f Let_def)
  next
    case False
    let ?a = "a + of_nat (length (entry_bytes mt name data))"
    have "holds m ?a (archive_bytes fs tm @ rest)" using h by (rule holds_drop)
    moreover have "4 dvd unat ?a"
      using unat_add_mod4 [OF Cons.prems(2), of "length (entry_bytes mt name data)"] dvd_length_entry [of mt name data]
      by (simp add: dvd_eq_mod_eq_0)
    moreover have "single_loop (Suc (length (f # fs))) m a target = single_loop (Suc (length fs)) m ?a target"
      using e nm(2) False by (simp add: Let_def)
    ultimately show ?thesis using Cons.IH [of ?a] Cons.prems(3-5) False by (simp add: f)
  qed
qed

text \<open>
  C29: in a newc archive of files with given names, contents and 32-bit header fields, at an aligned
  address, \<^verbatim>\<open>cpio_extract_single\<close> finds the first file whose name follows the first character of the path and
  hands its contents to the callback, after at most one round for each file; a missing file gives
  \<^verbatim>\<open>ERR_PTR(-ENOENT)\<close>.
\<close>

theorem cpio_extract_single_finds:
  assumes "holds m a (archive_bytes fs tm @ rest)" "4 dvd unat a"
    "list_all (\<lambda>(mt, name, data). meta_ok mt \<and> name_ok name \<and> name \<noteq> TRAILER \<and> length data < 2 ^ 32) fs" "meta_ok tm" "0 \<notin> set target"
  shows "case map_of (map snd fs) target of
      None \<Rightarrow> cpio_extract_single (Suc (length fs)) m a (c # target) filler = Some (Inr (ERR_PTR (- ENOENT)))
    | Some data \<Rightarrow> \<exists>start. holds m start data \<and>
        cpio_extract_single (Suc (length fs)) m a (c # target) filler = Some (filler start (of_nat (length data)))"
  using single_loop_finds [OF assms] by (auto simp: cpio_extract_single_def split: option.splits)

text \<open>Two files of mode 0644 with one link, as \<^verbatim>\<open>cpio\<close> describes them, and its trailer.\<close>

definition demo_meta :: "nat \<Rightarrow> file_meta" where
  "demo_meta ino = \<lparr>f_ino = ino, f_mode = 0x81A4, f_uid = 1000, f_gid = 1000, f_nlink = 1, f_mtime = 0x5E8F0000,
     f_devmajor = 8, f_devminor = 1, f_rdevmajor = 0, f_rdevminor = 0, f_check = 0\<rparr>"

definition demo_files :: "(file_meta \<times> u8 list \<times> u8 list) list" where
  "demo_files = [(demo_meta 71, [0x61], [1, 2, 3]), (demo_meta 72, [0x62, 0x63], [4, 5, 6, 7])]"

definition demo_trailer :: file_meta where
  "demo_trailer = (demo_meta 0)\<lparr>f_mode := 0, f_uid := 0, f_gid := 0, f_mtime := 0\<rparr>"

definition demo_archive :: mem where
  "demo_archive x = (if unat x < length (archive_bytes demo_files demo_trailer)
     then Some (archive_bytes demo_files demo_trailer ! unat x) else None)"

theorem cpio_extract_single_finds_witness:
  "\<exists>start. holds demo_archive start [4, 5, 6, 7] \<and>
     cpio_extract_single 3 demo_archive 0 [0x2F, 0x62, 0x63] (\<lambda>start sz. Inr start) = Some (Inr start)"
proof -
  have "length (archive_bytes demo_files demo_trailer) = 360"
    by (simp add: archive_bytes_def entry_bytes_def demo_files_def TRAILER_def)
  then have "holds demo_archive 0 (archive_bytes demo_files demo_trailer @ [])"
    by (simp add: holds_def demo_archive_def unat_of_nat take_bit_nat_eq_self)
  moreover have "list_all (\<lambda>(mt, name, data). meta_ok mt \<and> name_ok name \<and> name \<noteq> TRAILER \<and> length data < 2 ^ 32) demo_files"
    by (simp add: demo_files_def name_ok_def TRAILER_def meta_ok_def newc_fields_def demo_meta_def)
  moreover have "meta_ok demo_trailer"
    by (simp add: demo_trailer_def meta_ok_def newc_fields_def demo_meta_def)
  moreover have "map_of (map snd demo_files) [0x62, 0x63] = Some [4, 5, 6, 7]" "Suc (length demo_files) = 3"
    by (simp_all add: demo_files_def)
  ultimately show ?thesis
    using cpio_extract_single_finds [of demo_archive 0 demo_files demo_trailer "[]" "[0x62, 0x63]" "0x2F" "\<lambda>start sz. Inr start"]
    by simp
qed

end
