(* ===== verification/Capability.thy ===== *)
theory Capability
  imports SlotTable Sched Vmspace
begin

text \<open>
  Kernel objects and capabilities: \<^verbatim>\<open>process/capability.c\<close>, together with the parts of
  \<^verbatim>\<open>process/process.c\<close> and \<^verbatim>\<open>process/thread.c\<close> that it calls back
  (\<^verbatim>\<open>thread_deinit\<close>, \<^verbatim>\<open>process_exit\<close>).

  The state \<open>kernel\<close> collects what these functions share: the headers of the objects, their bodies
  (one map per type, under the address of the object), the slots, the ring of the slots of each
  object, the address spaces and the scheduler of the other theories. Freed memory is no longer in its
  map. The ring of an object is \<open>Headed\<close> if it goes through \<^verbatim>\<open>object->copies_head\<close>, and
  \<open>Headless\<close> if that head was never initialised. Unlinking a slot next to the head of an object that
  has been freed writes into freed memory; such objects are recorded in \<open>stale_writes\<close>.

  \<^verbatim>\<open>cap_free\<close>, \<^verbatim>\<open>thread_deinit\<close> and \<^verbatim>\<open>process_exit\<close> call each
  other; the component \<open>depth\<close> bounds the nesting. \<open>None\<close> in \<open>active_conn\<close> and \<open>server_config\<close> is the
  content that \<^verbatim>\<open>kmalloc\<close> left there. \<open>kconsole\<close> is what the system calls sent to the console, without
  the log messages of the kernel.
\<close>

datatype object_type =
  TYPE_PROCESS | TYPE_THREAD | TYPE_CONNECTION | TYPE_NOTIFICATION | TYPE_PMO | TYPE_VMSPACE

datatype ring = Headed (ring_slots: "nat list") | Headless (ring_slots: "nat list")

record kobject =
  ob_type :: object_type
  ob_size :: u64
  refcount :: u64

record object_slot =
  slot_id :: int
  sl_process :: nat
  isvalid :: bool
  sl_rights :: u64
  sl_object :: "nat option"

record process =
  p_table :: slot_table
  thread_list :: "nat list"

record kthread =
  th_process :: "nat option"
  active_conn :: "nat option option"
  server_config :: "nat option option"

record ipc_vm_config =
  stack_base_addr :: u64
  stack_size :: u64
  buf_base_addr :: u64
  buf_size :: u64

record server_ipc_config =
  sc_callback :: u64
  max_client :: u64
  conn_bmp :: "bitmap option"
  vm_config :: ipc_vm_config

record ipc_connection =
  conn_source :: "thread_ptr option"
  conn_target :: "nat option"
  server_conn_cap :: u64
  server_stack_top :: u64
  client_user_addr :: u64
  server_user_addr :: u64

record kernel =
  kobjs :: "nat \<Rightarrow> kobject option"
  copies :: "nat \<Rightarrow> ring"
  kslots :: "nat \<Rightarrow> object_slot option"
  procs :: "nat \<Rightarrow> process option"
  kthreads :: "nat \<Rightarrow> kthread option"
  vspaces :: "nat \<Rightarrow> vmspace option"
  conns :: "nat \<Rightarrow> ipc_connection option"
  configs :: "nat \<Rightarrow> server_ipc_config option"
  stale_writes :: "nat list"
  depth :: nat
  kmm :: mm_state
  krad :: rheap
  ksch :: sched_state
  umem :: "nat \<Rightarrow> u64 \<Rightarrow> u8 option"
  kdata :: "u64 \<Rightarrow> u8 option"
  kconsole :: "u8 list"

section \<open>Sequencing\<close>

text \<open>Functions on the kernel state, in sequence.\<close>

type_synonym 'a kop = "kernel \<Rightarrow> ('a \<times> kernel) res"

definition retK :: "'a \<Rightarrow> 'a kop" where
  "retK x k = Inr (x, k)"

definition bindK :: "'a kop \<Rightarrow> ('a \<Rightarrow> 'b kop) \<Rightarrow> 'b kop" where
  "bindK m f k = bindR (m k) (\<lambda>(x, k). f x k)"

abbreviation seqK :: "'a kop \<Rightarrow> 'b kop \<Rightarrow> 'b kop" where
  "seqK m n \<equiv> bindK m (\<lambda>_. n)"

definition getK :: "(kernel \<Rightarrow> 'a) \<Rightarrow> 'a kop" where
  "getK f k = Inr (f k, k)"

definition derefK :: "(kernel \<Rightarrow> 'a option) \<Rightarrow> 'a kop" where
  "derefK f k = bindR (deref (f k)) (\<lambda>x. Inr (x, k))"

definition modK :: "(kernel \<Rightarrow> kernel) \<Rightarrow> unit kop" where
  "modK f k = Inr ((), f k)"

definition failK :: "crash \<Rightarrow> 'a kop" where
  "failK e k = Inl e"

definition liftK :: "'a res \<Rightarrow> 'a kop" where
  "liftK m k = bindR m (\<lambda>x. Inr (x, k))"

definition bugK :: "bool \<Rightarrow> unit kop" where
  "bugK b = liftK (bug_on b)"

text \<open>An operation of the scheduler.\<close>

definition schK :: "(sched_state \<Rightarrow> ('a \<times> sched_state) res) \<Rightarrow> 'a kop" where
  "schK f k = bindR (f (ksch k)) (\<lambda>(x, s). Inr (x, k\<lparr>ksch := s\<rparr>))"

definition schU :: "(sched_state \<Rightarrow> sched_state res) \<Rightarrow> unit kop" where
  "schU f k = bindR (f (ksch k)) (\<lambda>s. Inr ((), k\<lparr>ksch := s\<rparr>))"

lemmas kop_defs = retK_def bindK_def getK_def derefK_def modK_def failK_def liftK_def bugK_def schK_def schU_def

text \<open>The address the next \<^verbatim>\<open>kmalloc\<close> returns, 0 for NULL.\<close>

definition kmallocK :: "nat kop" where
  "kmallocK = schK (\<lambda>s. Inr (kmem_next s))"

text \<open>The conversion of an argument to \<^verbatim>\<open>int\<close>.\<close>

definition cint :: "u64 \<Rightarrow> int" where
  "cint x = sint (ucast x :: 32 word)"

section \<open>Slot tables of processes\<close>

definition upd_table :: "nat \<Rightarrow> (slot_table \<Rightarrow> slot_table res) \<Rightarrow> unit kop" where
  "upd_table p f = bindK (derefK (\<lambda>k. procs k p)) (\<lambda>q. bindK (liftK (f (p_table q))) (\<lambda>t.
     modK (\<lambda>k. k\<lparr>procs := (procs k)(p \<mapsto> q\<lparr>p_table := t\<rparr>)\<rparr>)))"

definition table_get :: "nat \<Rightarrow> (slot_table \<Rightarrow> 'a res) \<Rightarrow> 'a kop" where
  "table_get p f = bindK (derefK (\<lambda>k. procs k p)) (\<lambda>q. liftK (f (p_table q)))"

definition alloc_slot_id_of :: "nat \<Rightarrow> int kop" where
  "alloc_slot_id_of p k = bindR (deref (procs k p)) (\<lambda>q.
     bindR (alloc_slot_id (p_table q) (kmem (ksch k))) (\<lambda>(r, t, m).
     Inr (r, k\<lparr>procs := (procs k)(p \<mapsto> q\<lparr>p_table := t\<rparr>), ksch := ksch k\<lparr>kmem := m\<rparr>\<rparr>)))"

section \<open>Objects\<close>

definition upd_refcount :: "nat \<Rightarrow> (u64 \<Rightarrow> u64) \<Rightarrow> unit kop" where
  "upd_refcount ob f = bindK (derefK (\<lambda>k. kobjs k ob)) (\<lambda>x.
     modK (\<lambda>k. k\<lparr>kobjs := (kobjs k)(ob \<mapsto> x\<lparr>refcount := f (refcount x)\<rparr>)\<rparr>))"

text \<open>\<^verbatim>\<open>kfree\<close> of an object: its header and its body are gone.\<close>

definition kfree_object :: "nat \<Rightarrow> kernel \<Rightarrow> kernel" where
  "kfree_object ob k = k\<lparr>kobjs := (kobjs k)(ob := None), procs := (procs k)(ob := None),
     kthreads := (kthreads k)(ob := None), vspaces := (vspaces k)(ob := None), conns := (conns k)(ob := None),
     kmm := kmm k\<lparr>pmos := (pmos (kmm k))(ob := None)\<rparr>\<rparr>"

definition get_opaque :: "nat \<Rightarrow> int \<Rightarrow> object_type option \<Rightarrow> nat option kop" where
  "get_opaque p sid type =
     bindK (table_get p (\<lambda>t. is_valid_slot_id t sid)) (\<lambda>valid.
     if \<not> valid then retK None
     else
       bindK (table_get p (\<lambda>t. get_slot t sid)) (\<lambda>sl.
       bindK (liftK (deref sl)) (\<lambda>sl.
       bindK (derefK (\<lambda>k. kslots k sl)) (\<lambda>slot.
       seqK (bugK (\<not> isvalid slot)) (
       seqK (bugK (sl_object slot = None)) (
       bindK (liftK (deref (sl_object slot))) (\<lambda>ob.
       bindK (derefK (\<lambda>k. kobjs k ob)) (\<lambda>x.
       if type = None \<or> type = Some (ob_type x)
       then seqK (upd_refcount ob (\<lambda>n. n + 1)) (retK (Some ob))
       else retK None))))))))"

definition object_get :: "nat \<Rightarrow> int \<Rightarrow> nat option kop" where
  "object_get p sid = get_opaque p sid None"

definition object_put :: "nat \<Rightarrow> unit kop" where
  "object_put ob =
     bindK (derefK (\<lambda>k. kobjs k ob)) (\<lambda>x. let old_refcount = refcount x in
     seqK (upd_refcount ob (\<lambda>n. n - 1))
     (if old_refcount = 1 then modK (kfree_object ob) else retK ()))"

definition obj_get :: "nat \<Rightarrow> int \<Rightarrow> object_type \<Rightarrow> nat option kop" where
  "obj_get p sid type = get_opaque p sid (Some type)"

text \<open>\<^verbatim>\<open>container_of\<close> of NULL is no object.\<close>

definition obj_put :: "nat option \<Rightarrow> unit kop" where
  "obj_put obj = bindK (liftK (deref obj)) object_put"

definition obj_alloc :: "object_type \<Rightarrow> u64 \<Rightarrow> nat option kop" where
  "obj_alloc type sz = bindK kmallocK (\<lambda>ob.
     if ob = 0 then retK None
     else seqK (modK (\<lambda>k. k\<lparr>kobjs := (kobjs k)(ob \<mapsto> \<lparr>ob_type = type, ob_size = sz, refcount = 0\<rparr>),
                          copies := (copies k)(ob := Headed [])\<rparr>))
               (retK (Some ob)))"

section \<open>The slots of an object\<close>

definition ring_map :: "(nat list \<Rightarrow> nat list) \<Rightarrow> ring \<Rightarrow> ring" where
  "ring_map f r = (case r of Headed xs \<Rightarrow> Headed (f xs) | Headless xs \<Rightarrow> Headless (f xs))"

fun insert_after :: "nat \<Rightarrow> nat \<Rightarrow> nat list \<Rightarrow> nat list" where
  "insert_after new x [] = []"
| "insert_after new x (y # ys) = (if x = y then y # new # ys else y # insert_after new x ys)"

text \<open>\<^verbatim>\<open>list_add\<close> after the head of an object and after a slot.\<close>

definition ring_add_head :: "nat \<Rightarrow> nat \<Rightarrow> unit kop" where
  "ring_add_head new ob = bindK (getK (\<lambda>k. copies k ob)) (\<lambda>r. case r of
     Headless _ \<Rightarrow> failK WILD
   | Headed xs \<Rightarrow> modK (\<lambda>k. k\<lparr>copies := (copies k)(ob := Headed (new # xs))\<rparr>))"

definition ring_add_after :: "nat \<Rightarrow> nat \<Rightarrow> nat \<Rightarrow> unit kop" where
  "ring_add_after new sl ob = bindK (getK (\<lambda>k. copies k ob)) (\<lambda>r.
     if sl \<in> set (ring_slots r)
     then modK (\<lambda>k. k\<lparr>copies := (copies k)(ob := ring_map (insert_after new sl) r)\<rparr>)
     else failK WILD)"

definition next_to_head :: "nat \<Rightarrow> ring \<Rightarrow> bool" where
  "next_to_head sl r = (case r of Headless _ \<Rightarrow> False
     | Headed xs \<Rightarrow> xs \<noteq> [] \<and> (hd xs = sl \<or> last xs = sl))"

definition ring_del :: "nat \<Rightarrow> nat \<Rightarrow> unit kop" where
  "ring_del sl ob = bindK (getK (\<lambda>k. copies k ob)) (\<lambda>r.
     if sl \<in> set (ring_slots r)
     then modK (\<lambda>k. k\<lparr>copies := (copies k)(ob := ring_map (remove1 sl) r),
            stale_writes := (if kobjs k ob = None \<and> next_to_head sl r then ob # stale_writes k else stale_writes k)\<rparr>)
     else failK WILD)"

definition cap_alloc :: "nat \<Rightarrow> nat \<Rightarrow> u64 \<Rightarrow> int kop" where
  "cap_alloc p object rights =
     bindK (alloc_slot_id_of p) (\<lambda>sid.
     if sid < 0 then retK (- ENOMEM)
     else
       bindK kmallocK (\<lambda>slot.
       if slot = 0 then seqK (upd_table p (\<lambda>t. free_slot_id t sid)) (retK (- ENOMEM))
       else
         seqK (modK (\<lambda>k. k\<lparr>kslots := (kslots k)(slot \<mapsto>
           \<lparr>slot_id = sid, sl_process = p, isvalid = True, sl_rights = rights, sl_object = Some object\<rparr>)\<rparr>)) (
         seqK (ring_add_head slot object) (
         bindK (derefK (\<lambda>k. kobjs k object)) (\<lambda>x.
         seqK (bugK (refcount x \<noteq> 0)) (
         seqK (upd_refcount object (\<lambda>_. 1)) (
         seqK (upd_table p (\<lambda>t. install_slot t sid slot))
         (retK sid))))))))"

section \<open>Freeing\<close>

text \<open>
  The three functions that call each other take \<^verbatim>\<open>cap_free\<close> as an argument \<open>cf\<close>.
  \<open>exit_loop\<close> is the loop over the bits of the slot bitmap; \<open>n\<close> bounds the number of its rounds.
\<close>

type_synonym cap_free_fn = "nat \<Rightarrow> int \<Rightarrow> int kop"

fun exit_loop :: "nat \<Rightarrow> cap_free_fn \<Rightarrow> nat \<Rightarrow> nat \<Rightarrow> unit kop" where
  "exit_loop 0 cf p start = failK FUEL"
| "exit_loop (Suc n) cf p start =
     bindK (table_get p (\<lambda>t. find_next_bit (slots_bmp t) (ucast (slots_size t)) (of_nat start))) (\<lambda>b.
     bindK (table_get p (\<lambda>t. Inr (unat (slots_size t)))) (\<lambda>size.
     if b < size then seqK (cf p (int b)) (exit_loop n cf p (b + 1)) else retK ()))"

definition process_exit_with :: "cap_free_fn \<Rightarrow> nat \<Rightarrow> unit kop" where
  "process_exit_with cf p =
     bindK (obj_get p PROCESS_OBJ_ID TYPE_PROCESS) (\<lambda>process_get.
     if process_get = None then retK ()
     else
       bindK (table_get p (\<lambda>t. Inr (unat (slots_size t)))) (\<lambda>size.
       seqK (exit_loop (size + 1) cf p 0)
       (obj_put (Some p))))"

text \<open>\<^verbatim>\<open>list_del\<close> of a thread from the list of its process.\<close>

definition thread_unlink :: "nat \<Rightarrow> nat \<Rightarrow> unit kop" where
  "thread_unlink thread p = bindK (derefK (\<lambda>k. procs k p)) (\<lambda>q.
     if thread \<in> set (thread_list q)
     then modK (\<lambda>k. k\<lparr>procs := (procs k)(p \<mapsto> q\<lparr>thread_list := remove1 thread (thread_list q)\<rparr>)\<rparr>)
     else failK WILD)"

definition thread_deinit_with :: "cap_free_fn \<Rightarrow> nat \<Rightarrow> unit kop" where
  "thread_deinit_with cf thread =
     bindK (derefK (\<lambda>k. ctxs (ksch k) (Thr thread))) (\<lambda>ctx.
     if t_state ctx = TS_RUNNING then
       seqK (upd_refcount thread (\<lambda>_. 1))
       (schU (upd_ctx (Thr thread) (\<lambda>c. c\<lparr>t_state := TS_EXITING\<rparr>)))
     else
       seqK (if t_state ctx = TS_READY then seqK (schK (rr_sched_dequeue (Some (Thr thread)))) (retK ()) else retK ()) (
       bindK (derefK (\<lambda>k. kthreads k thread)) (\<lambda>th.
       bindK (liftK (deref (th_process th))) (\<lambda>process.
       seqK (thread_unlink thread process) (
       bindK (derefK (\<lambda>k. procs k process)) (\<lambda>q. let exit_process = (thread_list q = []) in
       seqK (schU (destroy_thread_ctx (Thr thread)))
       (if exit_process then process_exit_with cf process else retK ())))))))"

definition deinit_object :: "cap_free_fn \<Rightarrow> nat \<Rightarrow> unit kop" where
  "deinit_object cf object = bindK (derefK (\<lambda>k. kobjs k object)) (\<lambda>x.
     if ob_type x = TYPE_THREAD then thread_deinit_with cf object else retK ())"

definition cap_free_with :: "cap_free_fn \<Rightarrow> cap_free_fn" where
  "cap_free_with cf p sid =
     bindK (table_get p (\<lambda>t. get_slot t sid)) (\<lambda>sl. case sl of
       None \<Rightarrow> retK (- ECAPBILITY)
     | Some sl \<Rightarrow>
         bindK (derefK (\<lambda>k. kslots k sl)) (\<lambda>slot.
         if \<not> isvalid slot then retK (- ECAPBILITY)
         else
           seqK (upd_table p (\<lambda>t. free_slot_id t sid)) (
           bindK (liftK (deref (sl_object slot))) (\<lambda>object.
           bindK (derefK (\<lambda>k. kobjs k object)) (\<lambda>x. let old_refcount = refcount x in
           seqK (upd_refcount object (\<lambda>n. n - 1)) (
           seqK (if old_refcount = 1 then
                   seqK (deinit_object cf object) (
                   bindK (derefK (\<lambda>k. kobjs k object)) (\<lambda>x.
                   if refcount x = 0 then modK (kfree_object object) else retK ()))
                 else retK ()) (
           bindK (derefK (\<lambda>k. kslots k sl)) (\<lambda>slot.
           seqK (modK (\<lambda>k. k\<lparr>kslots := (kslots k)(sl \<mapsto> slot\<lparr>isvalid := False, sl_object := None\<rparr>)\<rparr>)) (
           seqK (ring_del sl object) (
           seqK (modK (\<lambda>k. k\<lparr>kslots := (kslots k)(sl := None)\<rparr>))
           (retK 0)))))))))))"

primrec cap_free_rec :: "nat \<Rightarrow> cap_free_fn" where
  "cap_free_rec 0 p sid = failK FUEL"
| "cap_free_rec (Suc n) p sid = cap_free_with (cap_free_rec n) p sid"

definition cap_free :: "nat \<Rightarrow> int \<Rightarrow> int kop" where
  "cap_free p sid = bindK (getK depth) (\<lambda>n. cap_free_rec n p sid)"

definition process_exit :: "nat \<Rightarrow> unit kop" where
  "process_exit p = process_exit_with cap_free p"

definition thread_deinit :: "nat \<Rightarrow> unit kop" where
  "thread_deinit thread = thread_deinit_with cap_free thread"

text \<open>
  The safe iteration over the slots of an object: \<open>tmp\<close> is read before the body, its successor after it.
  \<open>None\<close> is the head. A slot that left the ring in between has been freed.
\<close>

fun succ_in :: "nat \<Rightarrow> nat list \<Rightarrow> nat option option" where
  "succ_in x [] = None"
| "succ_in x (y # ys) = (if x = y then Some (case ys of [] \<Rightarrow> None | z # _ \<Rightarrow> Some z) else succ_in x ys)"

definition ring_next :: "nat \<Rightarrow> nat option \<Rightarrow> nat option kop" where
  "ring_next ob sl = (case sl of None \<Rightarrow> retK None
     | Some s \<Rightarrow> derefK (\<lambda>k. succ_in s (ring_slots (copies k ob))))"

fun free_copies :: "nat \<Rightarrow> nat \<Rightarrow> nat option \<Rightarrow> nat option \<Rightarrow> unit kop" where
  "free_copies n ob None tmp = retK ()"
| "free_copies 0 ob (Some sl) tmp = failK FUEL"
| "free_copies (Suc n) ob (Some sl) tmp =
     bindK (derefK (\<lambda>k. kslots k sl)) (\<lambda>slot.
     bindK (cap_free (sl_process slot) (slot_id slot)) (\<lambda>r.
     seqK (bugK (r \<noteq> 0)) (
     bindK (ring_next ob tmp) (\<lambda>tmp'.
     free_copies n ob tmp tmp'))))"

definition obj_free :: "nat option \<Rightarrow> unit kop" where
  "obj_free obj = (case obj of None \<Rightarrow> retK ()
   | Some object \<Rightarrow>
       bindK (derefK (\<lambda>k. kobjs k object)) (\<lambda>x.
       if refcount x = 0 then modK (kfree_object object)
       else bindK (getK (\<lambda>k. copies k object)) (\<lambda>r. case r of
         Headless _ \<Rightarrow> failK WILD
       | Headed xs \<Rightarrow>
           let first = (case xs of [] \<Rightarrow> None | s # _ \<Rightarrow> Some s) in
           bindK (ring_next object first) (\<lambda>tmp. free_copies (length xs) object first tmp))))"

section \<open>Copying and moving\<close>

definition cap_copy :: "nat \<Rightarrow> nat \<Rightarrow> int \<Rightarrow> bool \<Rightarrow> u64 \<Rightarrow> int kop" where
  "cap_copy src_process dest_process src_slot_id new_rights_valid new_rights =
     bindK (table_get src_process (\<lambda>t. get_slot t src_slot_id)) (\<lambda>sl. case sl of
       None \<Rightarrow> retK (- ECAPBILITY)
     | Some src_slot \<Rightarrow>
         bindK (derefK (\<lambda>k. kslots k src_slot)) (\<lambda>s.
         if \<not> isvalid s then retK (- ECAPBILITY)
         else
           bindK (alloc_slot_id_of dest_process) (\<lambda>dest_slot_id.
           if dest_slot_id = - 1 then retK (- ENOMEM)
           else
             bindK kmallocK (\<lambda>dest_slot.
             if dest_slot = 0
             then seqK (upd_table dest_process (\<lambda>t. free_slot_id t dest_slot_id)) (retK (- ENOMEM))
             else
               bindK (table_get src_process (\<lambda>t. get_slot t src_slot_id)) (\<lambda>sl.
               bindK (liftK (deref sl)) (\<lambda>src_slot.
               bindK (derefK (\<lambda>k. kslots k src_slot)) (\<lambda>s.
               bindK (liftK (deref (sl_object s))) (\<lambda>object.
               seqK (upd_refcount object (\<lambda>n. n + 1)) (
               seqK (modK (\<lambda>k. k\<lparr>kslots := (kslots k)(dest_slot \<mapsto>
                 \<lparr>slot_id = dest_slot_id, sl_process = dest_process, isvalid = True,
                  sl_rights = (if new_rights_valid then new_rights else sl_rights s), sl_object = Some object\<rparr>)\<rparr>)) (
               seqK (ring_add_after dest_slot src_slot object) (
               seqK (upd_table dest_process (\<lambda>t. install_slot t dest_slot_id dest_slot))
               (retK dest_slot_id))))))))))))"

definition cap_copy_local :: "nat \<Rightarrow> int \<Rightarrow> u64 \<Rightarrow> int kop" where
  "cap_copy_local process src_slot_id new_rights = cap_copy process process src_slot_id True new_rights"

definition cap_move :: "nat \<Rightarrow> nat \<Rightarrow> int \<Rightarrow> bool \<Rightarrow> u64 \<Rightarrow> int kop" where
  "cap_move src_process dest_process src_slot_id new_rights_valid new_rights =
     bindK (cap_copy src_process dest_process src_slot_id new_rights_valid new_rights) (\<lambda>r.
     if r < 0 then retK r
     else
       bindK (cap_free src_process src_slot_id) (\<lambda>r.
       seqK (bugK (r \<noteq> 0)) (retK r)))"

definition cap_revoke :: "nat \<Rightarrow> int \<Rightarrow> int kop" where
  "cap_revoke process sid =
     bindK (object_get process sid) (\<lambda>object. case object of
       None \<Rightarrow> retK (- ECAPBILITY)
     | Some ob \<Rightarrow> seqK (obj_free (Some ob)) (seqK (object_put ob) (retK 0)))"

end
