(* ===== verification/CapDepth.thy ===== *)
theory CapDepth
  imports Capability
begin

text \<open>
  The recursion of \<^verbatim>\<open>cap_free\<close>, \<^verbatim>\<open>thread_deinit\<close> and
  \<^verbatim>\<open>process_exit\<close> ends: each level empties a slot before it goes deeper, and no step fills
  one. So a bound on the depth above the number of used slots is never reached.
\<close>

section \<open>Tables only lose slots\<close>

definition tbl_le :: "slot_table \<Rightarrow> slot_table \<Rightarrow> bool" where
  "tbl_le t' t \<longleftrightarrow> slots_size t' = slots_size t \<and> length (st_slots t') = length (st_slots t) \<and>
     (\<forall>i < length (st_slots t). st_slots t' ! i \<noteq> None \<longrightarrow> st_slots t ! i \<noteq> None)"

definition shrinks :: "kernel \<Rightarrow> kernel \<Rightarrow> bool" where
  "shrinks k k' \<longleftrightarrow> depth k' = depth k \<and>
     (\<forall>p q'. procs k' p = Some q' \<longrightarrow> (\<exists>q. procs k p = Some q \<and> tbl_le (p_table q') (p_table q)))"

definition used_slots :: "process option \<Rightarrow> nat set" where
  "used_slots pq = (case pq of None \<Rightarrow> {} | Some q \<Rightarrow>
     {i. i < length (st_slots (p_table q)) \<and> st_slots (p_table q) ! i \<noteq> None})"

definition slot_count :: "kernel \<Rightarrow> nat" where
  "slot_count k = (\<Sum>p \<in> dom (procs k). card (used_slots (procs k p)))"

lemma finite_used [simp]: "finite (used_slots pq)"
  by (simp add: used_slots_def split: option.split)

lemma tbl_le_refl [simp]: "tbl_le t t"
  by (simp add: tbl_le_def)

lemma tbl_le_trans: "tbl_le a b \<Longrightarrow> tbl_le b c \<Longrightarrow> tbl_le a c"
  by (auto simp: tbl_le_def)

lemma shrinks_refl [simp]: "shrinks k k"
  by (auto simp: shrinks_def)

lemma shrinks_trans: "shrinks a b \<Longrightarrow> shrinks b c \<Longrightarrow> shrinks a c"
proof -
  assume ab: "shrinks a b" and bc: "shrinks b c"
  have "\<exists>q. procs a p = Some q \<and> tbl_le (p_table q') (p_table q)" if c: "procs c p = Some q'" for p q'
  proof -
    obtain r where r: "procs b p = Some r" "tbl_le (p_table q') (p_table r)"
      using bc c by (auto simp: shrinks_def)
    obtain q where "procs a p = Some q" "tbl_le (p_table r) (p_table q)"
      using ab r(1) by (auto simp: shrinks_def)
    then show ?thesis using tbl_le_trans [OF r(2)] by blast
  qed
  then show ?thesis using ab bc by (simp add: shrinks_def)
qed

lemma shrinks_procs: "procs k' = procs k \<Longrightarrow> depth k' = depth k \<Longrightarrow> shrinks k k'"
  by (auto simp: shrinks_def)

lemma used_slots_mono:
  assumes s: "shrinks k k'"
  shows "used_slots (procs k' p) \<subseteq> used_slots (procs k p)"
proof (cases "procs k' p")
  case (Some q')
  then obtain q where "procs k p = Some q" "tbl_le (p_table q') (p_table q)" using s by (auto simp: shrinks_def)
  then show ?thesis using Some by (auto simp: used_slots_def tbl_le_def)
qed (simp add: used_slots_def)

lemma shrinks_count:
  assumes s: "shrinks k k'" and f: "finite (dom (procs k))"
  shows "finite (dom (procs k'))" "slot_count k' \<le> slot_count k"
proof -
  have d: "dom (procs k') \<subseteq> dom (procs k)" using s by (auto simp: shrinks_def)
  then show f': "finite (dom (procs k'))" using f by (rule finite_subset)
  have "slot_count k' \<le> (\<Sum>p \<in> dom (procs k'). card (used_slots (procs k p)))"
    unfolding slot_count_def using used_slots_mono [OF s] by (intro sum_mono card_mono) auto
  also have "\<dots> \<le> slot_count k"
    unfolding slot_count_def using d f by (intro sum_mono2) auto
  finally show "slot_count k' \<le> slot_count k" .
qed

section \<open>Operations that need no fuel\<close>

definition no_fuel :: "'a res \<Rightarrow> bool" where
  "no_fuel m \<longleftrightarrow> m \<noteq> Inl FUEL"

named_theorems no_fuel_intros

lemma no_fuel_basic [no_fuel_intros]:
  "no_fuel (Inr x)" "no_fuel (bug_on b)" "no_fuel (deref p)" "no_fuel (arr_get xs i)" "no_fuel (arr_set xs i v)"
  by (simp_all add: no_fuel_def bug_on_def deref_def arr_get_def arr_set_def split: option.split)

lemma no_fuel_Inl [no_fuel_intros]: "e \<noteq> FUEL \<Longrightarrow> no_fuel (Inl e)"
  by (simp add: no_fuel_def)

lemma no_fuel_bindR [no_fuel_intros]: "no_fuel m \<Longrightarrow> (\<And>x. m = Inr x \<Longrightarrow> no_fuel (f x)) \<Longrightarrow> no_fuel (bindR m f)"
  by (cases m) (auto simp: no_fuel_def)

lemma no_fuel_split [no_fuel_intros]:
  "(b \<Longrightarrow> no_fuel x) \<Longrightarrow> (\<not> b \<Longrightarrow> no_fuel y) \<Longrightarrow> no_fuel (if b then x else y)"
  by simp

lemma no_fuel_bits [no_fuel_intros]:
  "no_fuel (get_bit n p)" "no_fuel (clear_bit n p)"
  by (auto simp: get_bit_def clear_bit_def Let_def intro!: no_fuel_intros)

lemma find_in_word_ge:
  "no_fuel (find_in_word p e invert cur_bit max_bit r) \<and>
   (\<forall>x. find_in_word p e invert cur_bit max_bit r = Inr x \<longrightarrow> r \<le> (case x of Inl y \<Rightarrow> y | Inr y \<Rightarrow> y))"
proof (induction p e invert cur_bit max_bit r rule: find_in_word.induct)
  case (1 p e invert cur_bit max_bit r)
  show ?case
  proof (cases "cur_bit \<le> max_bit \<and> e < length p")
    case False
    then show ?thesis by (auto simp: find_in_word.simps [of p e] arr_get_def no_fuel_def)
  next
    case True
    let ?hit = "if invert then get_bit_in_slot (p ! e) cur_bit = 0 else get_bit_in_slot (p ! e) cur_bit \<noteq> 0"
    have eq: "find_in_word p e invert cur_bit max_bit r =
        (if ?hit then Inr (Inl r) else find_in_word p e invert (Suc cur_bit) max_bit (Suc r))"
      by (subst find_in_word.simps) (simp add: True Let_def)
    show ?thesis
    proof (cases ?hit)
      case True
      then show ?thesis by (simp only: eq if_True) (simp add: no_fuel_def)
    next
      case False
      have "no_fuel (find_in_word p e invert (Suc cur_bit) max_bit (Suc r)) \<and>
          (\<forall>x. find_in_word p e invert (Suc cur_bit) max_bit (Suc r) = Inr x \<longrightarrow> Suc r \<le> (case x of Inl y \<Rightarrow> y | Inr y \<Rightarrow> y))"
        using 1 True False by auto
      then show ?thesis using False by (auto simp only: eq if_False dest: Suc_leD)
    qed
  qed
qed

lemma find_elems_ge:
  "no_fuel (find_elems p sz invert cur_elem max_elem cur_bit r) \<and>
   (\<forall>x. find_elems p sz invert cur_elem max_elem cur_bit r = Inr x \<longrightarrow> r \<le> x \<or> x = unat sz)"
proof (induction p sz invert cur_elem max_elem cur_bit r rule: find_elems.induct)
  case (1 p sz invert cur_elem max_elem cur_bit r)
  define mb where "mb = (if cur_elem < max_elem then BITS_PER_LONG - 1 else unat (sz - 1) mod BITS_PER_LONG)"
  show ?case
  proof (cases "cur_elem \<le> max_elem")
    case False
    then show ?thesis by (simp add: find_elems.simps [of p sz] no_fuel_def)
  next
    case True
    note IH = 1 [OF True mb_def]
    have eq: "find_elems p sz invert cur_elem max_elem cur_bit r =
        bindR (find_in_word p cur_elem invert cur_bit mb r) (\<lambda>x. case x of
          Inl found \<Rightarrow> Inr found | Inr r' \<Rightarrow> find_elems p sz invert (Suc cur_elem) max_elem 0 r')"
      by (subst find_elems.simps) (simp add: True mb_def Let_def)
    note w = find_in_word_ge [of p cur_elem invert cur_bit mb r]
    show ?thesis
    proof (cases "find_in_word p cur_elem invert cur_bit mb r")
      case (Inl e)
      then show ?thesis using w by (simp add: eq no_fuel_def)
    next
      case (Inr x)
      then have ge: "r \<le> (case x of Inl y \<Rightarrow> y | Inr y \<Rightarrow> y)" using w by blast
      show ?thesis
      proof (cases x)
        case (Inl y)
        then show ?thesis using Inr ge by (simp add: eq no_fuel_def)
      next
        case (Inr y)
        then have "no_fuel (find_elems p sz invert (Suc cur_elem) max_elem 0 y) \<and>
            (\<forall>x. find_elems p sz invert (Suc cur_elem) max_elem 0 y = Inr x \<longrightarrow> y \<le> x \<or> x = unat sz)"
          using IH [OF \<open>find_in_word p cur_elem invert cur_bit mb r = Inr x\<close> Inr] by blast
        then show ?thesis using Inr \<open>find_in_word p cur_elem invert cur_bit mb r = Inr x\<close> ge by (auto simp: eq)
      qed
    qed
  qed
qed

lemma find_next_bit_ge:
  assumes "find_next_bit p sz start = Inr b" "b \<noteq> unat sz"
  shows "unat start \<le> b"
  using assms find_elems_ge unfolding find_next_bit_def find_next_bit_helper_def by blast

lemma no_fuel_find [no_fuel_intros]: "no_fuel (find_next_bit p sz start)"
  using find_elems_ge unfolding find_next_bit_def find_next_bit_helper_def by blast

lemma no_fuel_table [no_fuel_intros]:
  "no_fuel (is_valid_slot_id t sid)" "no_fuel (get_slot t sid)" "no_fuel (free_slot_id t sid)"
  by (auto simp: is_valid_slot_id_def get_slot_def free_slot_id_def intro!: no_fuel_intros)

lemma no_fuel_sched [no_fuel_intros]:
  "no_fuel (upd_ctx t f s)" "no_fuel (destroy_thread_ctx t s)" "no_fuel (rr_sched_dequeue (Some t) s)"
  by (auto simp: upd_ctx_def destroy_thread_ctx_def rr_sched_dequeue_def rq_del_def
    intro!: no_fuel_intros split: option.split)

section \<open>Tame operations\<close>

text \<open>Below \<open>N\<close> used slots, the operation does not run out of fuel and fills no slot.\<close>

definition outcome_ok :: "kernel \<Rightarrow> ('a \<times> kernel) res \<Rightarrow> bool" where
  "outcome_ok k r \<longleftrightarrow> (case r of Inl e \<Rightarrow> e \<noteq> FUEL | Inr (x, k') \<Rightarrow> shrinks k k')"

definition tame :: "nat \<Rightarrow> 'a kop \<Rightarrow> bool" where
  "tame N m \<longleftrightarrow> (\<forall>k. finite (dom (procs k)) \<and> slot_count k < N \<longrightarrow> outcome_ok k (m k))"

named_theorems tame_intros

lemma outcome_ok_Inr [simp]: "outcome_ok k (Inr (x, k')) \<longleftrightarrow> shrinks k k'"
  by (simp add: outcome_ok_def)

lemma tameD: "tame N m \<Longrightarrow> finite (dom (procs k)) \<Longrightarrow> slot_count k < N \<Longrightarrow> outcome_ok k (m k)"
  by (simp add: tame_def)

lemma bind_ok:
  assumes "outcome_ok k (m k)" "\<And>x k'. m k = Inr (x, k') \<Longrightarrow> shrinks k k' \<Longrightarrow> outcome_ok k' (f x k')"
  shows "outcome_ok k (bindK m f k)"
proof (cases "m k")
  case (Inl e)
  then show ?thesis using assms(1) by (simp add: bindK_def outcome_ok_def)
next
  case (Inr xk)
  obtain x k' where xk: "xk = (x, k')" by (cases xk)
  have s: "shrinks k k'" using assms(1) by (simp add: Inr xk)
  have "outcome_ok k' (f x k')" using assms(2) s by (simp add: Inr xk)
  then show ?thesis
    using s by (auto simp: bindK_def Inr xk outcome_ok_def split: sum.splits dest: shrinks_trans)
qed

lemma tame_bindK [tame_intros]:
  assumes "tame N m" "\<And>x. tame N (f x)"
  shows "tame N (bindK m f)"
  unfolding tame_def
proof (intro allI impI)
  fix k assume k: "finite (dom (procs k)) \<and> slot_count k < N"
  show "outcome_ok k (bindK m f k)"
  proof (rule bind_ok)
    show "outcome_ok k (m k)" using assms(1) k by (simp add: tame_def)
    fix x k' assume "shrinks k k'"
    from shrinks_count [OF this] k have "finite (dom (procs k'))" "slot_count k' < N" by auto
    then show "outcome_ok k' (f x k')" using assms(2) by (simp add: tame_def)
  qed
qed

lemma tame_basic [tame_intros]:
  "tame N (retK x)" "tame N (getK f)" "tame N (bugK b)" "tame N (derefK g)"
  by (auto simp: tame_def kop_defs bug_on_def deref_def outcome_ok_def split: option.split)

lemma tame_failK [tame_intros]: "e \<noteq> FUEL \<Longrightarrow> tame N (failK e)"
  by (simp add: tame_def failK_def outcome_ok_def)

lemma tame_liftK [tame_intros]: "no_fuel m \<Longrightarrow> tame N (liftK m)"
  by (cases m) (auto simp: tame_def liftK_def outcome_ok_def no_fuel_def)

lemma tame_modK [tame_intros]:
  "(\<And>k. procs (f k) = procs k) \<Longrightarrow> (\<And>k. depth (f k) = depth k) \<Longrightarrow> tame N (modK f)"
  by (simp add: tame_def modK_def shrinks_procs)

lemma tame_schK [tame_intros]: "(\<And>s. no_fuel (f s)) \<Longrightarrow> tame N (schK f)"
  unfolding tame_def schK_def outcome_ok_def no_fuel_def bindR_def
  by (auto split: sum.splits intro!: shrinks_procs)

lemma tame_schU [tame_intros]: "(\<And>s. no_fuel (f s)) \<Longrightarrow> tame N (schU f)"
  unfolding tame_def schU_def outcome_ok_def no_fuel_def bindR_def
  by (auto split: sum.splits intro!: shrinks_procs)

lemma tame_if [tame_intros]: "(b \<Longrightarrow> tame N x) \<Longrightarrow> (\<not> b \<Longrightarrow> tame N y) \<Longrightarrow> tame N (if b then x else y)"
  by simp

lemma tame_option [tame_intros]:
  "tame N x \<Longrightarrow> (\<And>a. tame N (f a)) \<Longrightarrow> tame N (case o' of None \<Rightarrow> x | Some a \<Rightarrow> f a)"
  by (simp split: option.split)

lemma tame_table_get [tame_intros]: "(\<And>t. no_fuel (f t)) \<Longrightarrow> tame N (table_get p f)"
  unfolding table_get_def by (intro tame_intros)

lemma tame_kfree_object [tame_intros]: "tame N (modK (kfree_object ob))"
  by (auto simp: tame_def modK_def kfree_object_def shrinks_def)

lemma tame_upd_refcount [tame_intros]: "tame N (upd_refcount ob f)"
  unfolding upd_refcount_def by (intro tame_intros) simp_all

section \<open>Freeing is tame\<close>

lemma free_slot_id_le: "free_slot_id t sid = Inr t' \<Longrightarrow> tbl_le t' t \<and> st_slots t' = (st_slots t)[nat sid := None]"
  by (auto simp: free_slot_id_def bindR_Inr_iff arr_set_Inr tbl_le_def nth_list_update split: if_splits)

lemma upd_table_le:
  assumes "\<And>t. no_fuel (f t)" "\<And>t t'. f t = Inr t' \<Longrightarrow> tbl_le t' t"
  shows "tame N (upd_table p f)"
  unfolding tame_def
proof (intro allI impI)
  fix k assume "finite (dom (procs k)) \<and> slot_count k < N"
  show "outcome_ok k (upd_table p f k)"
  proof (cases "procs k p")
    case None
    then show ?thesis by (simp add: upd_table_def kop_defs outcome_ok_def deref_def)
  next
    case (Some q)
    show ?thesis
    proof (cases "f (p_table q)")
      case (Inl e)
      then show ?thesis using assms(1) [of "p_table q"] Some by (simp add: upd_table_def kop_defs outcome_ok_def no_fuel_def)
    next
      case (Inr t)
      then show ?thesis using assms(2) Some by (auto simp: upd_table_def kop_defs shrinks_def)
    qed
  qed
qed

lemma tame_thread_unlink [tame_intros]: "tame N (thread_unlink t p)"
  unfolding tame_def
proof (intro allI impI)
  fix k assume "finite (dom (procs k)) \<and> slot_count k < N"
  show "outcome_ok k (thread_unlink t p k)"
    by (cases "procs k p") (auto simp: thread_unlink_def kop_defs outcome_ok_def deref_def shrinks_def)
qed

lemma tame_ring_del [tame_intros]: "tame N (ring_del sl ob)"
  unfolding ring_del_def by (intro tame_intros) simp_all

lemma tame_object_put [tame_intros]: "tame N (obj_put ob)" "tame N (object_put o')"
  unfolding obj_put_def object_put_def Let_def by (intro tame_intros no_fuel_intros)+

lemma tame_obj_get [tame_intros]: "tame N (obj_get p sid ty)"
  unfolding obj_get_def get_opaque_def by (intro tame_intros no_fuel_intros)

lemma exit_loop_ok:
  assumes cf: "\<And>p i. tame N (cf p i)"
    and k: "finite (dom (procs k))" "slot_count k < N"
    and n: "0 < n" "\<And>q. procs k p = Some q \<Longrightarrow> unat (slots_size (p_table q)) < n + start \<and> start \<le> unat (slots_size (p_table q))"
  shows "outcome_ok k (exit_loop n cf p start k)"
  using k n
proof (induction n arbitrary: k start)
  case (Suc n)
  show ?case
  proof (cases "procs k p")
    case None
    then show ?thesis by (simp add: table_get_def kop_defs outcome_ok_def deref_def)
  next
    case (Some q)
    define sz where "sz = unat (slots_size (p_table q))"
    have szb: "sz < 2 ^ 32" unfolding sz_def using unsigned_less [of "slots_size (p_table q)", where ?'a = nat] by simp
    have st: "sz < Suc n + start" "start \<le> sz" using Suc.prems(4) [OF Some] by (simp_all add: sz_def)
    have ust: "unat (of_nat start :: u64) = start" using st(2) szb by (simp add: unat_of_nat take_bit_nat_eq_self)
    show ?thesis
    proof (cases "find_next_bit (slots_bmp (p_table q)) (ucast (slots_size (p_table q))) (of_nat start)")
      case (Inl e)
      then show ?thesis
        using no_fuel_find [of "slots_bmp (p_table q)" "ucast (slots_size (p_table q))" "of_nat start"]
        by (simp add: table_get_def kop_defs Some outcome_ok_def no_fuel_def)
    next
      case (Inr b)
      show ?thesis
      proof (cases "b < sz")
        case False
        then show ?thesis using Inr by (simp add: table_get_def kop_defs Some sz_def)
      next
        case True
        have "unat (ucast (slots_size (p_table q)) :: u64) = sz" using szb by (simp add: sz_def unsigned_ucast_eq take_bit_nat_eq_self)
        then have "start \<le> b" using find_next_bit_ge [OF Inr] True ust by auto
        have "exit_loop (Suc n) cf p start k = bindK (cf p (int b)) (\<lambda>_. exit_loop n cf p (b + 1)) k"
          using Inr True by (simp add: table_get_def kop_defs Some sz_def)
        moreover have "outcome_ok k (bindK (cf p (int b)) (\<lambda>_. exit_loop n cf p (b + 1)) k)"
        proof (rule bind_ok)
          show "outcome_ok k (cf p (int b) k)" by (rule tameD [OF cf Suc.prems(1,2)])
          fix x k' assume s: "shrinks k k'"
          from shrinks_count [OF s Suc.prems(1)] Suc.prems(2) have "finite (dom (procs k'))" "slot_count k' < N" by auto
          moreover have "0 < n" using st \<open>start \<le> b\<close> True by linarith
          moreover have "unat (slots_size (p_table q')) < n + (b + 1) \<and> b + 1 \<le> unat (slots_size (p_table q'))"
            if p': "procs k' p = Some q'" for q'
          proof -
            obtain r where "procs k p = Some r" "tbl_le (p_table q') (p_table r)" using s p' by (auto simp: shrinks_def)
            then have "slots_size (p_table q') = slots_size (p_table q)" using Some by (simp add: tbl_le_def)
            then show ?thesis using st \<open>start \<le> b\<close> True by (simp add: sz_def)
          qed
          ultimately show "outcome_ok k' (exit_loop n cf p (b + 1) k')" by (rule Suc.IH)
        qed
        ultimately show ?thesis by simp
      qed
    qed
  qed
qed simp

lemma tame_process_exit:
  assumes cf: "\<And>p i. tame N (cf p i)"
  shows "tame N (process_exit_with cf p)"
proof -
  have "tame N (\<lambda>k. bindK (table_get p (\<lambda>t. Inr (unat (slots_size t)))) (\<lambda>size.
      seqK (exit_loop (size + 1) cf p 0) (obj_put (Some p))) k)"
    unfolding tame_def
  proof (intro allI impI)
    fix k assume k: "finite (dom (procs k)) \<and> slot_count k < N"
    show "outcome_ok k (bindK (table_get p (\<lambda>t. Inr (unat (slots_size t)))) (\<lambda>size.
        seqK (exit_loop (size + 1) cf p 0) (obj_put (Some p))) k)"
    proof (rule bind_ok)
      show "outcome_ok k (table_get p (\<lambda>t. Inr (unat (slots_size t))) k)"
        by (rule tameD [OF _ conjunct1 [OF k] conjunct2 [OF k]]) (intro tame_intros no_fuel_intros)
      fix sz k' assume g: "table_get p (\<lambda>t. Inr (unat (slots_size t))) k = Inr (sz, k')"
      have k': "k' = k" and sz: "\<And>q. procs k p = Some q \<Longrightarrow> unat (slots_size (p_table q)) = sz"
        using g by (auto simp: table_get_def kop_defs bindR_Inr_iff)
      show "outcome_ok k' (seqK (exit_loop (sz + 1) cf p 0) (obj_put (Some p)) k')"
      proof (rule bind_ok)
        show "outcome_ok k' (exit_loop (sz + 1) cf p 0 k')"
          using k sz by (intro exit_loop_ok [OF cf]) (simp_all add: k')
        fix x k2 assume s: "shrinks k' k2"
        from shrinks_count [OF s] k show "outcome_ok k2 (obj_put (Some p) k2)"
          by (intro tameD [OF tame_object_put(1), of _ N]) (auto simp: k')
      qed
    qed
  qed
  then have "tame N (bindK (table_get p (\<lambda>t. Inr (unat (slots_size t)))) (\<lambda>size.
      seqK (exit_loop (size + 1) cf p 0) (obj_put (Some p))))" .
  then have "tame N (if b then retK () else bindK (table_get p (\<lambda>t. Inr (unat (slots_size t)))) (\<lambda>size.
      seqK (exit_loop (size + 1) cf p 0) (obj_put (Some p))))" for b
    by (simp add: tame_basic(1))
  then show ?thesis
    unfolding process_exit_with_def by (rule tame_bindK [OF tame_obj_get])
qed

lemma tame_thread_deinit:
  assumes cf: "\<And>p i. tame N (cf p i)"
  shows "tame N (thread_deinit_with cf t)"
  unfolding thread_deinit_with_def Let_def
  by (intro tame_intros no_fuel_intros tame_process_exit cf)

lemma tame_cap_free_with:
  assumes cf: "\<And>p i. tame N (cf p i)"
  shows "tame (Suc N) (cap_free_with cf p sid)"
  unfolding tame_def
proof (intro allI impI)
  fix k assume k: "finite (dom (procs k)) \<and> slot_count k < Suc N"
  show "outcome_ok k (cap_free_with cf p sid k)"
  proof (cases "procs k p")
    case None
    then show ?thesis by (simp add: cap_free_with_def table_get_def kop_defs outcome_ok_def deref_def)
  next
    case (Some q)
    have g: "no_fuel (get_slot (p_table q) sid)" by (intro no_fuel_intros)
    consider e where "get_slot (p_table q) sid = Inl e" | "get_slot (p_table q) sid = Inr None"
      | sl where "get_slot (p_table q) sid = Inr (Some sl)"
      by (cases "get_slot (p_table q) sid"; cases "projr (get_slot (p_table q) sid)") auto
    then show ?thesis
    proof cases
      case 1
      then show ?thesis using g by (simp add: cap_free_with_def table_get_def kop_defs outcome_ok_def Some no_fuel_def)
    next
      case 2
      then show ?thesis by (simp add: cap_free_with_def table_get_def kop_defs Some)
    next
      case 3
      then have used: "nat sid < length (st_slots (p_table q))" "st_slots (p_table q) ! nat sid \<noteq> None"
        by (auto simp: get_slot_def arr_get_def split: if_splits)
      define rest where "rest = (\<lambda>slot :: object_slot. bindK (liftK (deref (sl_object slot))) (\<lambda>object.
           bindK (derefK (\<lambda>k. kobjs k object)) (\<lambda>x. let old_refcount = refcount x in
           seqK (upd_refcount object (\<lambda>n. n - 1)) (
           seqK (if old_refcount = 1 then
                   seqK (deinit_object cf object) (
                   bindK (derefK (\<lambda>k. kobjs k object)) (\<lambda>x.
                   if refcount x = 0 then modK (kfree_object object) else retK ()))
                 else retK ()) (
           bindK (derefK (\<lambda>k. kslots k sl)) (\<lambda>slot.
           seqK (modK (\<lambda>k. k\<lparr>kslots := (kslots k)(sl \<mapsto> slot\<lparr>isvalid := False, sl_object := None\<rparr>)\<rparr>)) (
           seqK (ring_del sl object) (
           seqK (modK (\<lambda>k. k\<lparr>kslots := (kslots k)(sl := None)\<rparr>))
           (retK (0 :: int))))))))))"
      have rest: "tame N (rest slot)" for slot
        unfolding rest_def Let_def deinit_object_def
        by (intro tame_intros no_fuel_intros tame_thread_deinit cf) simp_all
      have eq: "cap_free_with cf p sid k = bindK (derefK (\<lambda>k. kslots k sl)) (\<lambda>slot.
         if \<not> isvalid slot then retK (- ECAPBILITY)
         else seqK (upd_table p (\<lambda>t. free_slot_id t sid)) (rest slot)) k"
      proof -
        have tg: "table_get p (\<lambda>t. get_slot t sid) k = Inr (Some sl, k)"
          using 3 by (simp add: table_get_def kop_defs Some)
        show ?thesis
          unfolding cap_free_with_def rest_def by (subst bindK_def) (simp add: tg)
      qed
      have "outcome_ok k (seqK (upd_table p (\<lambda>t. free_slot_id t sid)) (rest slot) k)" for slot
      proof (rule bind_ok)
        have "tame (Suc N) (upd_table p (\<lambda>t. free_slot_id t sid))"
          by (rule upd_table_le) (auto intro: no_fuel_intros dest: free_slot_id_le)
        then show "outcome_ok k (upd_table p (\<lambda>t. free_slot_id t sid) k)" using k by (simp add: tame_def)
        fix x k' assume u: "upd_table p (\<lambda>t. free_slot_id t sid) k = Inr (x, k')" and s: "shrinks k k'"
        obtain t where t: "free_slot_id (p_table q) sid = Inr t" "procs k' = (procs k)(p \<mapsto> q\<lparr>p_table := t\<rparr>)"
          using u Some by (auto simp: upd_table_def kop_defs bindR_Inr_iff)
        have "used_slots (procs k' p) = used_slots (procs k p) - {nat sid}" "nat sid \<in> used_slots (procs k p)"
          using free_slot_id_le [OF t(1)] used Some by (auto simp: t(2) used_slots_def nth_list_update split: if_splits)
        then have "used_slots (procs k' p) \<subset> used_slots (procs k p)" by blast
        then have "card (used_slots (procs k' p)) < card (used_slots (procs k p))" by (simp add: psubset_card_mono)
        moreover have "dom (procs k') = dom (procs k)" using Some by (auto simp: t(2))
        moreover have "card (used_slots (procs k' a)) \<le> card (used_slots (procs k a))" for a
          using used_slots_mono [OF s] by (simp add: card_mono)
        ultimately have "slot_count k' < slot_count k"
          unfolding slot_count_def using k Some by (auto intro!: sum_strict_mono_ex1 bexI [of _ p])
        then show "outcome_ok k' (rest slot k')" using rest shrinks_count [OF s] k by (auto intro!: tameD [of N])
      qed
      then show ?thesis
        unfolding eq by (intro bind_ok)
          (auto simp: kop_defs outcome_ok_def deref_def split: option.splits)
    qed
  qed
qed

lemma tame_cap_free_rec: "tame n (cap_free_rec n p sid)"
proof (induction n arbitrary: p sid)
  case 0
  then show ?case by (simp add: tame_def)
next
  case (Suc n)
  have "cap_free_rec (Suc n) p sid = cap_free_with (cap_free_rec n) p sid" by (simp add: fun_eq_iff)
  then show ?case using tame_cap_free_with [of n "cap_free_rec n"] Suc.IH by simp
qed

lemma cap_free_outcome:
  assumes "finite (dom (procs k))" "slot_count k < depth k"
  shows "case cap_free p sid k of Inl e \<Rightarrow> e \<noteq> FUEL | Inr (r, k') \<Rightarrow> slot_count k' \<le> slot_count k"
proof -
  have "outcome_ok k (cap_free p sid k)"
    using tameD [OF tame_cap_free_rec assms] by (simp add: cap_free_def kop_defs)
  then show ?thesis
    using shrinks_count(2) assms(1) by (cases "cap_free p sid k") (auto simp: outcome_ok_def)
qed

end
