(* ===== verification/CapRefs.thy ===== *)
theory CapRefs
  imports CapDepth
begin

text \<open>
  Reference counts. In every state between two steps of the capability functions the count of an object
  is the number of its slots and of the temporary references that system calls hold, its ring lists
  exactly its slots, and slots and tables point to each other (\<open>caps_inv\<close>). Taking and dropping a
  reference, copying a capability and freeing one that is not the last are shown to be exactly the state
  changes they should be; freeing the last one frees the object.
\<close>

section \<open>Tables\<close>

definition tab_ok :: "slot_table \<Rightarrow> bool" where
  "tab_ok t \<longleftrightarrow> table_ok t \<and> (\<forall>i < 64. used_slot t i \<longrightarrow> st_slots t ! i \<noteq> None)"

lemma word_slots_size: "table_ok t \<Longrightarrow> slots_size t = 64"
proof -
  assume "table_ok t"
  then have "of_nat (unat (slots_size t)) = (of_nat 64 :: u32)" by (simp only: table_ok_def)
  then show ?thesis by simp
qed

lemma small_id: "i < 64 \<Longrightarrow> \<not> (64 \<le> (of_nat i :: u32)) \<and> unat (of_nat i :: u32) = i"
  by (simp add: word_le_nat_alt unat_of_nat_u32)

lemma get_slot_ok: "table_ok t \<Longrightarrow> i < 64 \<Longrightarrow> get_slot t (int i) = Inr (st_slots t ! i)"
  using small_id [of i] word_slots_size [of t]
  by (simp add: get_slot_def table_ok_def)

lemma get_bit_ok:
  assumes "table_ok t" "i < 64"
  shows "get_bit (of_nat i) (slots_bmp t) = Inr (if used_slot t i then 1 else 0)"
proof -
  have "unat (of_nat i :: u32) < 64 * length (slots_bmp t)"
    using assms small_id [of i] by (simp add: table_ok_def)
  from get_bit_spec [OF this] show ?thesis using small_id [OF assms(2)] by (simp add: used_slot_def)
qed

lemma is_valid_ok:
  assumes "tab_ok t" "i < 64"
  shows "is_valid_slot_id t (int i) = Inr (used_slot t i)"
proof -
  have t: "table_ok t" and u: "used_slot t i \<Longrightarrow> st_slots t ! i \<noteq> None" and l: "length (st_slots t) = 64"
    using assms by (auto simp: tab_ok_def table_ok_def)
  show ?thesis using get_bit_ok [OF t assms(2)] u assms(2) l by (simp add: is_valid_slot_id_def)
qed

lemma install_ok:
  assumes "table_ok t" "i < 64" "used_slot t i"
  shows "install_slot t (int i) s = Inr (t\<lparr>st_slots := (st_slots t)[i := Some s]\<rparr>)"
proof -
  have "length (st_slots t) = 64" using assms(1) by (simp add: table_ok_def)
  then show ?thesis using assms(2,3) by (simp add: install_slot_def get_bit_ok [OF assms(1,2)])
qed

lemma single_bmp_eq:
  assumes "length p = 1" "length p' = 1" "\<And>j. j < 64 \<Longrightarrow> bmp_bit p j \<longleftrightarrow> bmp_bit p' j"
  shows "p = (p' :: bitmap)"
proof -
  obtain w w' where w: "p = [w]" "p' = [w']"
    using assms(1,2) by (cases p; cases p') auto
  have "w = w'"
  proof (rule bit_word_eqI)
    fix j assume "j < LENGTH(64)"
    then show "bit w j = bit w' j" using assms(3) [of j] by (simp add: w bmp_bit_def)
  qed
  then show ?thesis by (simp add: w)
qed

lemma free_id_ok:
  assumes "table_ok t" "i < 64"
  shows "\<exists>bmp. free_slot_id t (int i) = Inr (t\<lparr>slots_bmp := bmp, st_slots := (st_slots t)[i := None]\<rparr>) \<and>
    length bmp = 1 \<and> (\<forall>j. bmp_bit bmp j \<longleftrightarrow> j \<noteq> i \<and> used_slot t j)"
proof -
  have l: "length (slots_bmp t) = 1" "length (st_slots t) = 64" "full_slots_bmp t = [0]"
    using assms by (simp_all add: table_ok_def)
  have "unat (of_nat i :: u32) < 64 * length (slots_bmp t)"
    using assms small_id [of i] l(1) by simp
  from clear_bit_spec [OF this] obtain bmp where bmp: "clear_bit (of_nat i) (slots_bmp t) = Inr bmp"
      "length bmp = 1" "\<forall>j. bmp_bit bmp j \<longleftrightarrow> j \<noteq> i \<and> used_slot t j"
    using small_id [OF assms(2)] l(1) by (auto simp: used_slot_def)
  have "(of_nat i :: u64) div BASE_OBJECT_NUM = 0"
    using assms(2) by (intro unat_eq_0 [THEN iffD1]) (simp add: unat_div BASE_OBJECT_NUM_def unat_of_nat take_bit_nat_eq_self)
  then have "clear_bit (ucast ((of_nat i :: u64) div BASE_OBJECT_NUM)) (full_slots_bmp t) = Inr (full_slots_bmp t)"
    by (simp add: clear_bit_def l(3))
  then show ?thesis
    using bmp assms(2) l(2) by (auto simp: free_slot_id_def)
qed

section \<open>The invariant\<close>

definition slot_at :: "kernel \<Rightarrow> nat \<Rightarrow> nat \<Rightarrow> nat \<Rightarrow> bool" where
  "slot_at k p i s \<longleftrightarrow> i < 64 \<and> (\<exists>q. procs k p = Some q \<and> st_slots (p_table q) ! i = Some s)"

text \<open>\<open>ext ob\<close> is the number of temporary references to \<open>ob\<close>.\<close>

definition caps_inv :: "(nat \<Rightarrow> nat) \<Rightarrow> kernel \<Rightarrow> bool" where
  "caps_inv ext k \<longleftrightarrow>
     (\<forall>p q. procs k p = Some q \<longrightarrow> tab_ok (p_table q)) \<and>
     (\<forall>p. procs k p \<noteq> None \<longrightarrow> (\<exists>x. kobjs k p = Some x \<and> ob_type x = TYPE_PROCESS)) \<and>
     (\<forall>p i s. slot_at k p i s \<longrightarrow> (\<exists>sl ob. kslots k s = Some sl \<and> slot_id sl = int i \<and> sl_process sl = p \<and> isvalid sl \<and>
        sl_object sl = Some ob \<and> kobjs k ob \<noteq> None \<and> s \<in> set (ring_slots (copies k ob)))) \<and>
     (\<forall>s sl. kslots k s = Some sl \<longrightarrow> 0 \<le> slot_id sl \<and> slot_at k (sl_process sl) (nat (slot_id sl)) s) \<and>
     (\<forall>ob x. kobjs k ob = Some x \<longrightarrow> distinct (ring_slots (copies k ob)) \<and>
        (\<forall>s \<in> set (ring_slots (copies k ob)). \<exists>sl. kslots k s = Some sl \<and> sl_object sl = Some ob) \<and>
        unat (refcount x) = length (ring_slots (copies k ob)) + ext ob)"

lemma caps_invD:
  assumes "caps_inv ext k"
  shows "procs k p = Some q \<Longrightarrow> tab_ok (p_table q)"
    "procs k p = Some q \<Longrightarrow> \<exists>x. kobjs k p = Some x \<and> ob_type x = TYPE_PROCESS"
    "slot_at k p i s \<Longrightarrow> \<exists>sl ob. kslots k s = Some sl \<and> slot_id sl = int i \<and> sl_process sl = p \<and> isvalid sl \<and>
        sl_object sl = Some ob \<and> kobjs k ob \<noteq> None \<and> s \<in> set (ring_slots (copies k ob))"
    "kslots k s = Some sl \<Longrightarrow> 0 \<le> slot_id sl \<and> slot_at k (sl_process sl) (nat (slot_id sl)) s"
    "kobjs k ob = Some x \<Longrightarrow> distinct (ring_slots (copies k ob))"
    "kobjs k ob = Some x \<Longrightarrow> s \<in> set (ring_slots (copies k ob)) \<Longrightarrow> \<exists>sl. kslots k s = Some sl \<and> sl_object sl = Some ob"
    "kobjs k ob = Some x \<Longrightarrow> unat (refcount x) = length (ring_slots (copies k ob)) + ext ob"
  using assms unfolding caps_inv_def by blast+

text \<open>The object that slot \<open>i\<close> of process \<open>p\<close> refers to.\<close>

definition cap_object :: "kernel \<Rightarrow> nat \<Rightarrow> nat \<Rightarrow> nat option" where
  "cap_object k p i = (if i < 64 then Option.bind (procs k p) (\<lambda>q. Option.bind (st_slots (p_table q) ! i)
     (\<lambda>s. Option.bind (kslots k s) sl_object)) else None)"

lemma cap_objectE:
  assumes inv: "caps_inv ext k" and c: "cap_object k p i = Some ob"
  obtains q s sl x where "procs k p = Some q" "i < 64" "st_slots (p_table q) ! i = Some s" "kslots k s = Some sl"
    "slot_id sl = int i" "sl_process sl = p" "isvalid sl" "sl_object sl = Some ob" "kobjs k ob = Some x"
    "s \<in> set (ring_slots (copies k ob))" "tab_ok (p_table q)" "used_slot (p_table q) i" "slot_at k p i s"
proof -
  obtain q s sl where q: "i < 64" "procs k p = Some q" "st_slots (p_table q) ! i = Some s" "kslots k s = Some sl" "sl_object sl = Some ob"
    using c by (auto simp: cap_object_def bind_eq_Some_conv split: if_splits)
  have at: "slot_at k p i s" using q by (simp add: slot_at_def)
  have t: "tab_ok (p_table q)" by (rule caps_invD(1) [OF inv q(2)])
  then have u: "used_slot (p_table q) i" using q by (simp add: tab_ok_def table_ok_def)
  show thesis using caps_invD(3) [OF inv at] q at t u by (auto intro: that)
qed

section \<open>References\<close>

lemma obj_get_eq:
  assumes inv: "caps_inv ext k" and c: "cap_object k p i = Some ob" and x: "kobjs k ob = Some x"
  shows "get_opaque p (int i) ty k = (if ty = None \<or> ty = Some (ob_type x)
    then Inr (Some ob, k\<lparr>kobjs := (kobjs k)(ob \<mapsto> x\<lparr>refcount := refcount x + 1\<rparr>)\<rparr>) else Inr (None, k))"
proof -
  obtain q s sl where q: "procs k p = Some q" "i < 64" "st_slots (p_table q) ! i = Some s" "kslots k s = Some sl"
    "isvalid sl" "sl_object sl = Some ob" "tab_ok (p_table q)" "used_slot (p_table q) i"
    by (rule cap_objectE [OF inv c])
  then have "table_ok (p_table q)" by (simp add: tab_ok_def)
  then show ?thesis
    using q x by (simp add: get_opaque_def table_get_def kop_defs is_valid_ok get_slot_ok upd_refcount_def)
qed

lemma upd_refcount_inv:
  assumes inv: "caps_inv ext k" and x: "kobjs k ob = Some x"
    and n: "unat (f (refcount x)) = length (ring_slots (copies k ob)) + ext' ob" and e: "\<And>o'. o' \<noteq> ob \<Longrightarrow> ext' o' = ext o'"
  shows "caps_inv ext' (k\<lparr>kobjs := (kobjs k)(ob \<mapsto> x\<lparr>refcount := f (refcount x)\<rparr>)\<rparr>)"
proof -
  let ?k = "k\<lparr>kobjs := (kobjs k)(ob \<mapsto> x\<lparr>refcount := f (refcount x)\<rparr>)\<rparr>"
  have at: "slot_at ?k p i s \<longleftrightarrow> slot_at k p i s" for p i s by (simp add: slot_at_def)
  note d = caps_invD [OF inv]
  show ?thesis
    unfolding caps_inv_def at
  proof (intro conjI allI impI)
    fix p assume "procs ?k p \<noteq> None"
    then show "\<exists>x. kobjs ?k p = Some x \<and> ob_type x = TYPE_PROCESS" using d(2) x by fastforce
  next
    fix p i s assume "slot_at k p i s"
    from d(3) [OF this] show "\<exists>sl o'. kslots ?k s = Some sl \<and> slot_id sl = int i \<and> sl_process sl = p \<and> isvalid sl \<and>
        sl_object sl = Some o' \<and> kobjs ?k o' \<noteq> None \<and> s \<in> set (ring_slots (copies ?k o'))"
      by fastforce
  next
    fix o' y assume "kobjs ?k o' = Some y"
    then show "distinct (ring_slots (copies ?k o'))" using d(5) x by (auto split: if_splits)
  next
    fix o' y assume y: "kobjs ?k o' = Some y"
    then show "\<forall>s \<in> set (ring_slots (copies ?k o')). \<exists>sl. kslots ?k s = Some sl \<and> sl_object sl = Some o'"
      using d(6) x by (auto split: if_splits)
    show "unat (refcount y) = length (ring_slots (copies ?k o')) + ext' o'"
      using y n d(7) e by (auto split: if_splits)
  qed (use d(1,4) in auto)
qed

lemma refcount_suc: "unat n < 2 ^ 64 - 1 \<Longrightarrow> unat (n + 1 :: u64) = unat n + 1"
  by (simp add: unat_word_ariths)

lemma obj_get_inv:
  assumes inv: "caps_inv ext k" and c: "cap_object k p i = Some ob" and x: "kobjs k ob = Some x" "unat (refcount x) < 2 ^ 64 - 1"
    and ty: "ob_type x = ty"
  shows "\<exists>k'. obj_get p (int i) ty k = Inr (Some ob, k') \<and> caps_inv (ext(ob := ext ob + 1)) k'"
proof -
  have "obj_get p (int i) ty k = Inr (Some ob, k\<lparr>kobjs := (kobjs k)(ob \<mapsto> x\<lparr>refcount := refcount x + 1\<rparr>)\<rparr>)"
    using obj_get_eq [OF inv c x(1), of "Some ty"] ty by (simp add: obj_get_def)
  moreover have "caps_inv (ext(ob := ext ob + 1)) (k\<lparr>kobjs := (kobjs k)(ob \<mapsto> x\<lparr>refcount := refcount x + 1\<rparr>)\<rparr>)"
    using caps_invD(7) [OF inv x(1)] refcount_suc [OF x(2)]
    by (intro upd_refcount_inv [OF inv x(1)]) simp_all
  ultimately show ?thesis by blast
qed

text \<open>A temporary reference to an object that still has a slot is dropped without freeing.\<close>

lemma get_put:
  assumes inv: "caps_inv ext k" and c: "cap_object k p i = Some ob" and x: "kobjs k ob = Some x" "unat (refcount x) < 2 ^ 64 - 1"
    and ty: "ob_type x = ty"
  shows "bindK (obj_get p (int i) ty) obj_put k = Inr ((), k)"
proof -
  have "refcount x \<noteq> 0"
  proof
    assume "refcount x = 0"
    then have "length (ring_slots (copies k ob)) = 0" using caps_invD(7) [OF inv x(1)] by simp
    moreover obtain s where "s \<in> set (ring_slots (copies k ob))" by (rule cap_objectE [OF inv c])
    ultimately show False by simp
  qed
  then show ?thesis
    using obj_get_eq [OF inv c x(1), of "Some ty"] ty x(1)
    by (simp add: bindK_def obj_get_def obj_put_def object_put_def kop_defs upd_refcount_def Let_def fun_upd_idem)
qed

section \<open>Adding and removing slots\<close>

lemma set_insert_after: "x \<in> set xs \<Longrightarrow> set (insert_after a x xs) = insert a (set xs)"
  by (induction xs) auto

lemma length_insert_after: "x \<in> set xs \<Longrightarrow> length (insert_after a x xs) = Suc (length xs)"
  by (induction xs) auto

lemma distinct_insert_after: "distinct xs \<Longrightarrow> a \<notin> set xs \<Longrightarrow> x \<in> set xs \<Longrightarrow> distinct (insert_after a x xs)"
  by (induction xs) (auto simp: set_insert_after)

lemma remove1_insert_after: "a \<notin> set xs \<Longrightarrow> x \<in> set xs \<Longrightarrow> remove1 a (insert_after a x xs) = xs"
  by (induction xs) auto

lemma ring_slots_map [simp]: "ring_slots (ring_map f r) = f (ring_slots r)"
  by (cases r) (simp_all add: ring_map_def)

lemma ring_map_map [simp]: "ring_map f (ring_map g r) = ring_map (\<lambda>xs. f (g xs)) r"
  by (cases r) (simp_all add: ring_map_def)

lemma ring_map_id: "f (ring_slots r) = ring_slots r \<Longrightarrow> ring_map f r = r"
  by (cases r) (simp_all add: ring_map_def)

lemma add_slot_inv:
  assumes inv: "caps_inv ext k" and q: "procs k p = Some q" and i: "i < 64" "\<not> used_slot (p_table q) i"
    and t: "tab_ok t" "st_slots t = (st_slots (p_table q))[i := Some a]"
    and a: "kslots k a = None" and x: "kobjs k ob = Some x" "ob_type x' = ob_type x"
    and r: "set (ring_slots r) = insert a (set (ring_slots (copies k ob)))" "distinct (ring_slots r)"
      "unat (refcount x') = length (ring_slots r) + ext ob"
  shows "caps_inv ext (k\<lparr>procs := (procs k)(p \<mapsto> q\<lparr>p_table := t\<rparr>), ksch := s, kobjs := (kobjs k)(ob \<mapsto> x'),
    kslots := (kslots k)(a \<mapsto> \<lparr>slot_id = int i, sl_process = p, isvalid = True, sl_rights = rg, sl_object = Some ob\<rparr>),
    copies := (copies k)(ob := r)\<rparr>)"
    (is "caps_inv ext ?k")
proof -
  note d = caps_invD [OF inv]
  have tq: "table_ok (p_table q)" "length (st_slots (p_table q)) = 64" using d(1) [OF q] by (auto simp: tab_ok_def table_ok_def)
  have free: "st_slots (p_table q) ! i = None" using tq i by (auto simp: table_ok_def)
  have at: "slot_at ?k p' j b \<longleftrightarrow> p' = p \<and> j = i \<and> b = a \<or> slot_at k p' j b" for p' j b
    using q t(2) i(1) tq(2) free by (auto simp: slot_at_def nth_list_update)
  have ring: "b \<notin> set (ring_slots (copies k o'))" if "kobjs k o' \<noteq> None" "kslots k b = None" for o' b
    using d(6) [of o' _ b] that by auto
  have old: "b \<noteq> a" if "slot_at k p' j b" for p' j b using d(3) [OF that] a by auto
  show ?thesis
    unfolding caps_inv_def at
  proof (intro conjI allI impI)
    fix p' q' assume "procs ?k p' = Some q'"
    then show "tab_ok (p_table q')" using d(1) t(1) by (auto split: if_splits)
  next
    fix p' assume "procs ?k p' \<noteq> None"
    then have "procs k p' \<noteq> None" using q by (auto split: if_splits)
    then show "\<exists>x. kobjs ?k p' = Some x \<and> ob_type x = TYPE_PROCESS" using d(2) x by fastforce
  next
    fix p' j b assume "p' = p \<and> j = i \<and> b = a \<or> slot_at k p' j b"
    then show "\<exists>sl o'. kslots ?k b = Some sl \<and> slot_id sl = int j \<and> sl_process sl = p' \<and> isvalid sl \<and>
        sl_object sl = Some o' \<and> kobjs ?k o' \<noteq> None \<and> b \<in> set (ring_slots (copies ?k o'))"
    proof
      assume at: "slot_at k p' j b"
      from d(3) [OF at] old [OF at] show ?thesis using r(1) by fastforce
    qed (simp add: r(1))
  next
    fix b sl assume "kslots ?k b = Some sl"
    then show "0 \<le> slot_id sl" using d(4) by (auto split: if_splits)
  next
    fix b sl assume "kslots ?k b = Some sl"
    then show "sl_process sl = p \<and> nat (slot_id sl) = i \<and> b = a \<or> slot_at k (sl_process sl) (nat (slot_id sl)) b"
      using d(4) by (auto split: if_splits)
  next
    fix o' y assume "kobjs ?k o' = Some y"
    then show "distinct (ring_slots (copies ?k o'))" using d(5) r(2) by (auto split: if_splits)
  next
    fix o' y assume y: "kobjs ?k o' = Some y"
    show "\<forall>b \<in> set (ring_slots (copies ?k o')). \<exists>sl. kslots ?k b = Some sl \<and> sl_object sl = Some o'"
    proof (cases "o' = ob")
      case True
      then show ?thesis using r(1) d(6) [OF x(1)] by auto
    next
      case False
      then have "kobjs k o' = Some y" using y by simp
      then show ?thesis using d(6) ring [of o' a] a False by auto
    qed
    show "unat (refcount y) = length (ring_slots (copies ?k o')) + ext o'"
      using y d(7) r(3) by (auto split: if_splits)
  qed
qed

lemma bindK_eq: "m k = Inr (x, k') \<Longrightarrow> f x k' = r \<Longrightarrow> bindK m f k = r"
  by (simp add: bindK_def)

lemma cap_copy_eq:
  assumes inv: "caps_inv ext k" and c: "cap_object k sp j = Some ob" and x: "kobjs k ob = Some x" "unat (refcount x) < 2 ^ 64 - 1"
    and q: "procs k dp = Some q" and i: "i < 64" "\<not> used_slot (p_table q) i" "\<forall>l < i. used_slot (p_table q) l"
    and m: "kmem (ksch k) = a # ms" "a \<noteq> 0" "kslots k a = None"
  shows "\<exists>t s ssl. slot_at k sp j s \<and> kslots k s = Some ssl \<and> tab_ok t \<and> st_slots t = (st_slots (p_table q))[i := Some a] \<and>
    slots_size t = slots_size (p_table q) \<and> full_slots_bmp t = full_slots_bmp (p_table q) \<and>
    (\<forall>l. used_slot t l \<longleftrightarrow> l = i \<or> used_slot (p_table q) l) \<and> s \<in> set (ring_slots (copies k ob)) \<and>
    cap_copy sp dp (int j) v rg k = Inr (int i, k\<lparr>procs := (procs k)(dp \<mapsto> q\<lparr>p_table := t\<rparr>), ksch := ksch k\<lparr>kmem := ms\<rparr>,
      kobjs := (kobjs k)(ob \<mapsto> x\<lparr>refcount := refcount x + 1\<rparr>),
      kslots := (kslots k)(a \<mapsto> \<lparr>slot_id = int i, sl_process = dp, isvalid = True,
        sl_rights = (if v then rg else sl_rights ssl), sl_object = Some ob\<rparr>),
      copies := (copies k)(ob := ring_map (insert_after a s) (copies k ob))\<rparr>)"
proof -
  obtain sq s ssl where s: "procs k sp = Some sq" "j < 64" "st_slots (p_table sq) ! j = Some s" "kslots k s = Some ssl"
    "isvalid ssl" "sl_object ssl = Some ob" "s \<in> set (ring_slots (copies k ob))" "tab_ok (p_table sq)" "slot_at k sp j s"
    by (rule cap_objectE [OF inv c])
  have tq: "tab_ok (p_table q)" by (rule caps_invD(1) [OF inv q])
  then have tb: "table_ok (p_table q)" and l: "length (st_slots (p_table q)) = 64" by (auto simp: tab_ok_def table_ok_def)
  obtain t where t: "alloc_slot_id (p_table q) (a # ms) = Inr (int i, t, a # ms)" "table_ok t" "st_slots t = st_slots (p_table q)"
      "\<forall>l. used_slot t l \<longleftrightarrow> l = i \<or> used_slot (p_table q) l"
    using alloc_slot_id_free [OF tb i] by blast
  have sa: "s \<noteq> a" using s(4) m(3) by auto
  have gs: "get_slot (p_table sq) (int j) = Inr (Some s)"
    using get_slot_ok [of "p_table sq" j] s by (simp add: tab_ok_def)
  let ?t = "t\<lparr>st_slots := (st_slots (p_table q))[i := Some a]\<rparr>"
  have gs': "sp = dp \<Longrightarrow> get_slot t (int j) = Inr (Some s)"
    using get_slot_ok [OF t(2) s(2)] s q t(3) by simp
  have ins: "install_slot t (int i) a = Inr ?t" using install_ok [OF t(2) i(1)] t(3,4) by simp
  define new where "new = \<lparr>slot_id = int i, sl_process = dp, isvalid = True,
    sl_rights = (if v then rg else sl_rights ssl), sl_object = Some ob\<rparr>"
  define k1 where "k1 = k\<lparr>procs := (procs k)(dp \<mapsto> q\<lparr>p_table := t\<rparr>), ksch := ksch k\<lparr>kmem := a # ms\<rparr>\<rparr>"
  define k2 where "k2 = k\<lparr>procs := (procs k)(dp \<mapsto> q\<lparr>p_table := t\<rparr>), ksch := ksch k\<lparr>kmem := ms\<rparr>\<rparr>"
  define k3 where "k3 = k2\<lparr>kobjs := (kobjs k)(ob \<mapsto> x\<lparr>refcount := refcount x + 1\<rparr>)\<rparr>"
  define k4 where "k4 = k3\<lparr>kslots := (kslots k)(a \<mapsto> new)\<rparr>"
  define k5 where "k5 = k4\<lparr>copies := (copies k)(ob := ring_map (insert_after a s) (copies k ob))\<rparr>"
  define k6 where "k6 = k5\<lparr>procs := (procs k)(dp \<mapsto> q\<lparr>p_table := ?t\<rparr>)\<rparr>"
  have steps:
    "table_get sp (\<lambda>t. get_slot t (int j)) k = Inr (Some s, k)"
    "derefK (\<lambda>k. kslots k s) k = Inr (ssl, k)"
    "alloc_slot_id_of dp k = Inr (int i, k1)"
    "kmallocK k1 = Inr (a, k2)"
    "derefK (\<lambda>k. kslots k s) k2 = Inr (ssl, k2)"
    "upd_refcount ob (\<lambda>n. n + 1) k2 = Inr ((), k3)"
    "modK (\<lambda>k. k\<lparr>kslots := (kslots k)(a \<mapsto> new)\<rparr>) k3 = Inr ((), k4)"
    "ring_add_after a s ob k4 = Inr ((), k5)"
    "upd_table dp (\<lambda>t. install_slot t (int i) a) k5 = Inr ((), k6)"
    using s gs q t(1) m x ins
    by (simp_all add: table_get_def kop_defs alloc_slot_id_of_def kmallocK_def kmem_next_def upd_refcount_def
        ring_add_after_def upd_table_def k1_def k2_def k3_def k4_def k5_def k6_def)
  have ne: "(int i = - 1) = False" by simp
  have lift: "liftK (deref (Some y)) k' = Inr (y, k')" for y :: nat and k' by (simp add: liftK_def)
  have again: "table_get sp (\<lambda>t. get_slot t (int j)) k2 = Inr (Some s, k2)"
  proof (cases "sp = dp")
    case True
    then show ?thesis using gs' by (simp add: table_get_def kop_defs k2_def)
  next
    case False
    then show ?thesis using gs s(1) by (simp add: table_get_def kop_defs k2_def)
  qed
  have "cap_copy sp dp (int j) v rg k = Inr (int i, k6)"
    unfolding cap_copy_def
    apply (rule bindK_eq, rule steps(1), simp only: option.case)
    apply (rule bindK_eq, rule steps(2), simp only: s(5) not_True_eq_False if_False)
    apply (rule bindK_eq, rule steps(3), simp only: ne if_False)
    apply (rule bindK_eq, rule steps(4), simp only: m(2) if_False)
    apply (rule bindK_eq, rule again, rule bindK_eq, rule lift, rule bindK_eq, rule steps(5))
    apply (simp only: s(6), rule bindK_eq, rule lift, rule bindK_eq, rule steps(6))
    apply (rule bindK_eq, rule steps(7) [unfolded new_def], rule bindK_eq, rule steps(8), rule bindK_eq, rule steps(9))
    apply (simp only: retK_def)
    done
  then have eq: "cap_copy sp dp (int j) v rg k = Inr (int i, k\<lparr>procs := (procs k)(dp \<mapsto> q\<lparr>p_table := ?t\<rparr>), ksch := ksch k\<lparr>kmem := ms\<rparr>,
      kobjs := (kobjs k)(ob \<mapsto> x\<lparr>refcount := refcount x + 1\<rparr>),
      kslots := (kslots k)(a \<mapsto> \<lparr>slot_id = int i, sl_process = dp, isvalid = True,
        sl_rights = (if v then rg else sl_rights ssl), sl_object = Some ob\<rparr>),
      copies := (copies k)(ob := ring_map (insert_after a s) (copies k ob))\<rparr>)"
    by (simp add: k6_def k5_def k4_def k3_def k2_def new_def)
  have fs: "slots_size ?t = slots_size (p_table q)" "full_slots_bmp ?t = full_slots_bmp (p_table q)"
    using t(2) tb word_slots_size [OF t(2)] word_slots_size [OF tb] by (simp_all add: table_ok_def)
  have u: "\<forall>l. used_slot ?t l \<longleftrightarrow> l = i \<or> used_slot (p_table q) l" using t(4) by (simp add: used_slot_def)
  have old: "st_slots (p_table q) ! l \<noteq> None \<longleftrightarrow> used_slot (p_table q) l" if "l < 64" for l
    using tq that by (auto simp: tab_ok_def table_ok_def)
  have new: "st_slots ?t ! l \<noteq> None \<longleftrightarrow> used_slot ?t l" if "l < 64" for l
    using that l u old [OF that] by (cases "l = i") simp_all
  have ok: "tab_ok ?t"
    using t(2) new l by (simp add: tab_ok_def table_ok_def)
  have st: "st_slots ?t = (st_slots (p_table q))[i := Some a]" by simp
  show ?thesis
    by (rule exI [of _ ?t], rule exI [of _ s], rule exI [of _ ssl], intro conjI; fact)
qed

lemma slot_not_in_ring:
  assumes "caps_inv ext k" "kobjs k ob = Some x" "kslots k a = None"
  shows "a \<notin> set (ring_slots (copies k ob))"
  using caps_invD(6) [OF assms(1,2), of a] assms(3) by auto

lemma cap_copy_spec:
  assumes inv: "caps_inv ext k" and c: "cap_object k sp j = Some ob" and x: "kobjs k ob = Some x" "unat (refcount x) < 2 ^ 64 - 1"
    and q: "procs k dp = Some q" and i: "i < 64" "\<not> used_slot (p_table q) i" "\<forall>l < i. used_slot (p_table q) l"
    and m: "kmem (ksch k) = a # ms" "a \<noteq> 0" "kslots k a = None"
  shows "\<exists>k'. cap_copy sp dp (int j) v rg k = Inr (int i, k') \<and> caps_inv ext k' \<and> cap_object k' dp i = Some ob \<and>
    kobjs k' = (kobjs k)(ob \<mapsto> x\<lparr>refcount := refcount x + 1\<rparr>) \<and> depth k' = depth k \<and>
    (\<forall>p l. p \<noteq> dp \<or> l \<noteq> i \<longrightarrow> cap_object k' p l = cap_object k p l)"
proof -
  obtain t s ssl where t: "slot_at k sp j s" "kslots k s = Some ssl" "tab_ok t" "st_slots t = (st_slots (p_table q))[i := Some a]"
    "s \<in> set (ring_slots (copies k ob))"
    and eq: "cap_copy sp dp (int j) v rg k = Inr (int i, k\<lparr>procs := (procs k)(dp \<mapsto> q\<lparr>p_table := t\<rparr>), ksch := ksch k\<lparr>kmem := ms\<rparr>,
      kobjs := (kobjs k)(ob \<mapsto> x\<lparr>refcount := refcount x + 1\<rparr>),
      kslots := (kslots k)(a \<mapsto> \<lparr>slot_id = int i, sl_process = dp, isvalid = True,
        sl_rights = (if v then rg else sl_rights ssl), sl_object = Some ob\<rparr>),
      copies := (copies k)(ob := ring_map (insert_after a s) (copies k ob))\<rparr>)" (is "_ = Inr (_, ?k)")
    using cap_copy_eq [OF inv c x q i m] by blast
  have na: "a \<notin> set (ring_slots (copies k ob))" by (rule slot_not_in_ring [OF inv x(1) m(3)])
  have "caps_inv ext ?k"
    by (rule add_slot_inv [OF inv q i(1,2) t(3,4) m(3) x(1)])
      (simp_all add: set_insert_after length_insert_after distinct_insert_after t(5) na caps_invD(5) [OF inv x(1)]
        refcount_suc [OF x(2)] caps_invD(7) [OF inv x(1)])
  moreover have l: "length (st_slots (p_table q)) = 64"
    using caps_invD(1) [OF inv q] by (simp add: tab_ok_def table_ok_def)
  then have "cap_object ?k dp i = Some ob" using i(1) by (simp add: cap_object_def t(4))
  moreover have "cap_object ?k p l = cap_object k p l" if "p \<noteq> dp \<or> l \<noteq> i" for p l
  proof -
    have "b \<noteq> a" if "procs k p = Some q'" "l < 64" "st_slots (p_table q') ! l = Some b" for q' b
      using caps_invD(3) [OF inv, of p l b] that m(3) by (auto simp: slot_at_def)
    then show ?thesis using that q by (auto simp: cap_object_def t(4) bind_eq_Some_conv split: Option.bind_split)
  qed
  ultimately show ?thesis using eq by (intro exI [of _ ?k]) simp
qed

section \<open>Freeing\<close>

lemma ring_del_alive:
  assumes "kobjs k ob \<noteq> None" "s \<in> set (ring_slots (copies k ob))"
  shows "ring_del s ob k = Inr ((), k\<lparr>copies := (copies k)(ob := ring_map (remove1 s) (copies k ob))\<rparr>)"
  using assms by (cases k) (simp add: ring_del_def kop_defs)

lemma cap_free_eq:
  assumes inv: "caps_inv ext k" and c: "cap_object k p i = Some ob" and x: "kobjs k ob = Some x" "refcount x \<noteq> 1"
    and dep: "0 < depth k"
  shows "\<exists>q s bmp. procs k p = Some q \<and> slot_at k p i s \<and> length bmp = 1 \<and>
    (\<forall>j. bmp_bit bmp j \<longleftrightarrow> j \<noteq> i \<and> used_slot (p_table q) j) \<and>
    cap_free p (int i) k = Inr (0, k\<lparr>procs := (procs k)(p \<mapsto> q\<lparr>p_table := (p_table q)\<lparr>slots_bmp := bmp, st_slots := (st_slots (p_table q))[i := None]\<rparr>\<rparr>),
      kobjs := (kobjs k)(ob \<mapsto> x\<lparr>refcount := refcount x - 1\<rparr>),
      copies := (copies k)(ob := ring_map (remove1 s) (copies k ob)), kslots := (kslots k)(s := None)\<rparr>)"
proof -
  obtain q s sl where s: "procs k p = Some q" "i < 64" "st_slots (p_table q) ! i = Some s" "kslots k s = Some sl"
    "isvalid sl" "sl_object sl = Some ob" "s \<in> set (ring_slots (copies k ob))" "tab_ok (p_table q)" "slot_at k p i s"
    by (rule cap_objectE [OF inv c])
  have tb: "table_ok (p_table q)" using s(8) by (simp add: tab_ok_def)
  obtain bmp where bmp: "free_slot_id (p_table q) (int i) = Inr ((p_table q)\<lparr>slots_bmp := bmp, st_slots := (st_slots (p_table q))[i := None]\<rparr>)"
      "length bmp = 1" "\<forall>j. bmp_bit bmp j \<longleftrightarrow> j \<noteq> i \<and> used_slot (p_table q) j"
    using free_id_ok [OF tb s(2)] by blast
  obtain n where n: "depth k = Suc n" using dep by (cases "depth k") auto
  define t where "t = (p_table q)\<lparr>slots_bmp := bmp, st_slots := (st_slots (p_table q))[i := None]\<rparr>"
  define k1 where "k1 = k\<lparr>procs := (procs k)(p \<mapsto> q\<lparr>p_table := t\<rparr>)\<rparr>"
  define k2 where "k2 = k1\<lparr>kobjs := (kobjs k)(ob \<mapsto> x\<lparr>refcount := refcount x - 1\<rparr>)\<rparr>"
  define k3 where "k3 = k2\<lparr>kslots := (kslots k)(s \<mapsto> sl\<lparr>isvalid := False, sl_object := None\<rparr>)\<rparr>"
  define k4 where "k4 = k3\<lparr>copies := (copies k)(ob := ring_map (remove1 s) (copies k ob))\<rparr>"
  define k5 where "k5 = k4\<lparr>kslots := (kslots k)(s := None)\<rparr>"
  have rd: "ring_del s ob k3 = Inr ((), k4)"
    using ring_del_alive [of k3 ob s] s(7) by (simp add: k1_def k2_def k3_def k4_def)
  have steps:
    "getK depth k = Inr (Suc n, k)"
    "table_get p (\<lambda>t. get_slot t (int i)) k = Inr (Some s, k)"
    "derefK (\<lambda>k. kslots k s) k = Inr (sl, k)"
    "upd_table p (\<lambda>t. free_slot_id t (int i)) k = Inr ((), k1)"
    "derefK (\<lambda>k. kobjs k ob) k1 = Inr (x, k1)"
    "upd_refcount ob (\<lambda>n. n - 1) k1 = Inr ((), k2)"
    "derefK (\<lambda>k. kslots k s) k2 = Inr (sl, k2)"
    "modK (\<lambda>k. k\<lparr>kslots := (kslots k)(s \<mapsto> sl\<lparr>isvalid := False, sl_object := None\<rparr>)\<rparr>) k2 = Inr ((), k3)"
    "modK (\<lambda>k. k\<lparr>kslots := (kslots k)(s := None)\<rparr>) k4 = Inr ((), k5)"
    using s(1,3-6) get_slot_ok [OF tb s(2)] x(1) bmp(1) n
    by (simp_all add: table_get_def kop_defs upd_table_def upd_refcount_def k1_def k2_def k3_def k4_def k5_def flip: t_def)
  have lift: "liftK (deref (Some y)) k' = Inr (y, k')" for y :: nat and k' by (simp add: liftK_def)
  have "cap_free p (int i) k = Inr (0, k5)"
    unfolding cap_free_def
    apply (rule bindK_eq, rule steps(1), simp only: cap_free_rec.simps cap_free_with_def)
    apply (rule bindK_eq, rule steps(2), simp only: option.case)
    apply (rule bindK_eq, rule steps(3), simp only: s(5) not_True_eq_False if_False)
    apply (rule bindK_eq, rule steps(4), simp only: s(6))
    apply (rule bindK_eq, rule lift, rule bindK_eq, rule steps(5), simp only: Let_def x(2) if_False)
    apply (rule bindK_eq, rule steps(6), rule bindK_eq, simp only: retK_def)
    apply (rule bindK_eq, rule steps(7), rule bindK_eq, rule steps(8), rule bindK_eq, rule rd)
    apply (rule bindK_eq, rule steps(9), simp only: retK_def)
    done
  then show ?thesis
    using s(1,9) bmp(2,3) by (auto simp: k1_def k2_def k3_def k4_def k5_def t_def)
qed

lemma remove_slot_inv:
  assumes inv: "caps_inv ext k" and q: "procs k p = Some q" and s: "slot_at k p i s" and c: "cap_object k p i = Some ob"
    and t: "tab_ok t" "st_slots t = (st_slots (p_table q))[i := None]" and x: "kobjs k ob = Some x"
    and k': "procs k' = (procs k)(p \<mapsto> q\<lparr>p_table := t\<rparr>)" "kslots k' = (kslots k)(s := None)"
      "copies k' = (copies k)(ob := ring_map (remove1 s) (copies k ob))" "kobjs k' = (kobjs k)(ob := y)"
    and y: "case y of None \<Rightarrow> ob_type x \<noteq> TYPE_PROCESS | Some x' \<Rightarrow> ob_type x' = ob_type x \<and>
      Suc (unat (refcount x')) = unat (refcount x)" "y = None \<Longrightarrow> unat (refcount x) = 1"
  shows "caps_inv ext k'" "\<And>p' j. cap_object k' p' j = (if p' = p \<and> j = i then None else cap_object k p' j)"
proof -
  note d = caps_invD [OF inv]
  have l: "length (st_slots (p_table q)) = 64" using d(1) [OF q] by (simp add: tab_ok_def table_ok_def)
  have i: "i < 64" and si: "st_slots (p_table q) ! i = Some s" using s q by (auto simp: slot_at_def)
  obtain sl where sl: "kslots k s = Some sl" "slot_id sl = int i" "sl_process sl = p" "sl_object sl = Some ob"
      "s \<in> set (ring_slots (copies k ob))"
    using d(3) [OF s] c q si i by (auto simp: cap_object_def bind_eq_Some_conv)
  have uniq: "b = s \<longleftrightarrow> p' = p \<and> j = i" if b: "slot_at k p' j b" for p' j b
  proof
    assume "b = s"
    then show "p' = p \<and> j = i" using d(3) [OF b] sl by auto
  next
    assume "p' = p \<and> j = i"
    then show "b = s" using b q si by (auto simp: slot_at_def)
  qed
  have at: "slot_at k' p' j b \<longleftrightarrow> b \<noteq> s \<and> slot_at k p' j b" for p' j b
  proof (cases "p' = p")
    case True
    then show ?thesis using uniq [of p' j b] q l i by (auto simp: slot_at_def k'(1) t(2) nth_list_update)
  next
    case False
    then show ?thesis using uniq [of p' j b] by (auto simp: slot_at_def k'(1))
  qed
  have other: "kobjs k' o' = kobjs k o'" "copies k' o' = copies k o'" if "o' \<noteq> ob" for o'
    using that by (simp_all add: k')
  have alone: "ring_slots (copies k ob) = [s]" "ext ob = 0" if "y = None"
  proof -
    have "length (ring_slots (copies k ob)) + ext ob = 1" using d(7) [OF x] y(2) [OF that] by simp
    then show "ring_slots (copies k ob) = [s]" "ext ob = 0"
      using sl(5) by (cases "ring_slots (copies k ob)"; auto)+
  qed
  show "caps_inv ext k'"
    unfolding caps_inv_def at
  proof (intro conjI allI impI)
    fix p' q' assume "procs k' p' = Some q'"
    then show "tab_ok (p_table q')" using d(1) t(1) by (auto simp: k'(1) split: if_splits)
  next
    fix p' assume "procs k' p' \<noteq> None"
    then obtain q' where "procs k p' = Some q'" using q by (auto simp: k'(1) split: if_splits)
    then obtain z where z: "kobjs k p' = Some z" "ob_type z = TYPE_PROCESS" using d(2) by blast
    show "\<exists>x. kobjs k' p' = Some x \<and> ob_type x = TYPE_PROCESS"
      using z x y(1) by (cases "p' = ob") (auto simp: k'(4) split: option.splits)
  next
    fix p' j b assume b: "b \<noteq> s \<and> slot_at k p' j b"
    then obtain sb o' where sb: "kslots k b = Some sb" "slot_id sb = int j" "sl_process sb = p'" "isvalid sb" "sl_object sb = Some o'"
        "kobjs k o' \<noteq> None" "b \<in> set (ring_slots (copies k o'))"
      using d(3) by blast
    have "kobjs k' o' \<noteq> None \<and> b \<in> set (ring_slots (copies k' o'))"
    proof (cases "o' = ob")
      case True
      have "y \<noteq> None"
      proof
        assume "y = None"
        then have "ring_slots (copies k ob) = [s]" by (rule alone(1))
        then show False using sb(7) b True by simp
      qed
      then show ?thesis using True sb(7) b by (auto simp: k'(3,4))
    next
      case False
      then show ?thesis using sb(6,7) other by simp
    qed
    then show "\<exists>sl o'. kslots k' b = Some sl \<and> slot_id sl = int j \<and> sl_process sl = p' \<and> isvalid sl \<and>
        sl_object sl = Some o' \<and> kobjs k' o' \<noteq> None \<and> b \<in> set (ring_slots (copies k' o'))"
      using sb b by (auto simp: k'(2))
  next
    fix b sb assume "kslots k' b = Some sb"
    then show "0 \<le> slot_id sb" "b \<noteq> s" "slot_at k (sl_process sb) (nat (slot_id sb)) b"
      using d(4) by (auto simp: k'(2) split: if_splits)
  next
    fix o' z assume z: "kobjs k' o' = Some z"
    have dist: "distinct (ring_slots (copies k ob))" by (rule d(5) [OF x])
    show "distinct (ring_slots (copies k' o'))"
      using z d(5) dist other by (cases "o' = ob") (auto simp: k'(3))
    show "\<forall>b \<in> set (ring_slots (copies k' o')). \<exists>sl. kslots k' b = Some sl \<and> sl_object sl = Some o'"
    proof (cases "o' = ob")
      case True
      then show ?thesis using d(6) [OF x] dist by (auto simp: k'(2,3))
    next
      case False
      then have "s \<notin> set (ring_slots (copies k o'))" using d(6) [of o' z s] z other sl(1,4) by auto
      then show ?thesis using d(6) [of o' z] z other [OF False] by (auto simp: k'(2))
    qed
    show "unat (refcount z) = length (ring_slots (copies k' o')) + ext o'"
    proof (cases "o' = ob")
      case True
      obtain m where m: "length (ring_slots (copies k ob)) = Suc m"
        using sl(5) by (cases "ring_slots (copies k ob)") auto
      have "y = Some z" using z True by (simp add: k'(4))
      then have "Suc (unat (refcount z)) = unat (refcount x)" using y(1) by simp
      then have "unat (refcount z) = m + ext ob" using d(7) [OF x] m by simp
      then show ?thesis using True m sl(5) by (simp add: k'(3) length_remove1)
    next
      case False
      then show ?thesis using d(7) z other by simp
    qed
  qed
  show "cap_object k' p' j = (if p' = p \<and> j = i then None else cap_object k p' j)" for p' j
  proof (cases "p' = p \<and> j = i")
    case True
    then show ?thesis using i l by (simp add: cap_object_def k'(1) t(2))
  next
    case False
    have "b \<noteq> s" if "procs k p' = Some q'" "j < 64" "st_slots (p_table q') ! j = Some b" for q' b
      using uniq [of p' j b] that False by (auto simp: slot_at_def)
    then show ?thesis
      using False q by (auto simp: cap_object_def k'(1,2) t(2) bind_eq_Some_conv split: Option.bind_split)
  qed
qed

end
