(* ===== verification/CapLife.thy ===== *)
theory CapLife
  imports CapRefs
begin

text \<open>
  The life of a capability: what \<^verbatim>\<open>cap_free\<close> and \<^verbatim>\<open>cap_revoke\<close> do to all
  processes, and the properties of \<^verbatim>\<open>process/capability.c\<close>.
\<close>

section \<open>Freeing one capability\<close>

lemma free_table_ok:
  assumes "tab_ok t" "i < 64" "length bmp = 1" "\<forall>j. bmp_bit bmp j \<longleftrightarrow> j \<noteq> i \<and> used_slot t j"
  shows "tab_ok (t\<lparr>slots_bmp := bmp, st_slots := (st_slots t)[i := None]\<rparr>)"
proof -
  have t: "table_ok t" and l: "length (st_slots t) = 64" using assms(1) by (auto simp: tab_ok_def table_ok_def)
  have u: "used_slot (t\<lparr>slots_bmp := bmp, st_slots := (st_slots t)[i := None]\<rparr>) j \<longleftrightarrow> j \<noteq> i \<and> used_slot t j" for j
    using assms(4) by (simp add: used_slot_def)
  have old: "st_slots t ! j \<noteq> None \<longleftrightarrow> used_slot t j" if "j < 64" for j
    using assms(1) that by (auto simp: tab_ok_def table_ok_def)
  have "(st_slots t)[i := None] ! j \<noteq> None \<longleftrightarrow> j \<noteq> i \<and> used_slot t j" if "j < 64" for j
    using that l old [OF that] by (cases "j = i") simp_all
  then show ?thesis
    using t l assms(3) old by (simp add: tab_ok_def table_ok_def u)
qed

lemma refcount_pred: "n \<noteq> 0 \<Longrightarrow> Suc (unat (n - 1 :: u64)) = unat n"
  by (metis Suc_pred' unat_gt_0 unat_minus_one)

lemma cap_free_shared:
  assumes inv: "caps_inv ext k" and c: "cap_object k p i = Some ob" and x: "kobjs k ob = Some x" "refcount x \<noteq> 1"
    and dep: "0 < depth k"
  shows "\<exists>k' s. slot_at k p i s \<and> cap_free p (int i) k = Inr (0, k') \<and> caps_inv ext k' \<and>
    (\<forall>p' j. cap_object k' p' j = (if p' = p \<and> j = i then None else cap_object k p' j)) \<and>
    kobjs k' = (kobjs k)(ob \<mapsto> x\<lparr>refcount := refcount x - 1\<rparr>) \<and>
    copies k' = (copies k)(ob := ring_map (remove1 s) (copies k ob)) \<and>
    depth k' = depth k \<and> stale_writes k' = stale_writes k"
proof -
  obtain q s bmp where q: "procs k p = Some q" "slot_at k p i s" "length bmp = 1"
    "\<forall>j. bmp_bit bmp j \<longleftrightarrow> j \<noteq> i \<and> used_slot (p_table q) j"
    and eq: "cap_free p (int i) k = Inr (0, k\<lparr>procs := (procs k)(p \<mapsto> q\<lparr>p_table := (p_table q)\<lparr>slots_bmp := bmp, st_slots := (st_slots (p_table q))[i := None]\<rparr>\<rparr>),
      kobjs := (kobjs k)(ob \<mapsto> x\<lparr>refcount := refcount x - 1\<rparr>),
      copies := (copies k)(ob := ring_map (remove1 s) (copies k ob)), kslots := (kslots k)(s := None)\<rparr>)" (is "_ = Inr (_, ?k)")
    using cap_free_eq [OF inv c x dep] by blast
  have i: "i < 64" using q(2) by (simp add: slot_at_def)
  have "ring_slots (copies k ob) \<noteq> []"
    by (rule cap_objectE [OF inv c]) auto
  then have "refcount x \<noteq> 0" using caps_invD(7) [OF inv x(1)] by auto
  then have n: "Suc (unat (refcount x - 1)) = unat (refcount x)" by (rule refcount_pred)
  note tok = free_table_ok [OF caps_invD(1) [OF inv q(1)] i q(3,4)]
  note r = remove_slot_inv [OF inv q(1,2) c tok _ x(1), of ?k "Some (x\<lparr>refcount := refcount x - 1\<rparr>)"]
  have "caps_inv ext ?k" by (rule r(1)) (simp_all add: n)
  moreover have "cap_object ?k p' j = (if p' = p \<and> j = i then None else cap_object k p' j)" for p' j
    by (rule r(2)) (simp_all add: n)
  ultimately show ?thesis using eq q(2) by (intro exI [of _ ?k] exI [of _ s]) simp
qed

text \<open>
  Freeing the last capability: the object is freed first and the slot is unlinked from it afterwards.
\<close>

definition plain_object :: "kobject \<Rightarrow> bool" where
  "plain_object x \<longleftrightarrow> ob_type x \<noteq> TYPE_PROCESS \<and> ob_type x \<noteq> TYPE_THREAD"

lemma not_a_process:
  assumes "caps_inv ext k" "kobjs k ob = Some x" "ob_type x \<noteq> TYPE_PROCESS"
  shows "procs k ob = None"
  using caps_invD(2) [OF assms(1), of ob] assms(2,3) by (cases "procs k ob") auto

lemma cap_free_last:
  assumes inv: "caps_inv ext k" and c: "cap_object k p i = Some ob" and x: "kobjs k ob = Some x" "refcount x = 1"
    and pl: "plain_object x" and dep: "0 < depth k"
  shows "\<exists>k'. cap_free p (int i) k = Inr (0, k') \<and> caps_inv ext k' \<and>
    (\<forall>p' j. cap_object k' p' j = (if p' = p \<and> j = i then None else cap_object k p' j)) \<and>
    kobjs k' = (kobjs k)(ob := None) \<and> depth k' = depth k \<and>
    stale_writes k' = (case copies k ob of Headed _ \<Rightarrow> ob # stale_writes k | Headless _ \<Rightarrow> stale_writes k)"
proof -
  obtain q s sl where s: "procs k p = Some q" "i < 64" "st_slots (p_table q) ! i = Some s" "kslots k s = Some sl"
    "isvalid sl" "sl_object sl = Some ob" "s \<in> set (ring_slots (copies k ob))" "tab_ok (p_table q)" "slot_at k p i s"
    by (rule cap_objectE [OF inv c])
  have tb: "table_ok (p_table q)" using s(8) by (simp add: tab_ok_def)
  obtain bmp where bmp: "free_slot_id (p_table q) (int i) = Inr ((p_table q)\<lparr>slots_bmp := bmp, st_slots := (st_slots (p_table q))[i := None]\<rparr>)"
      "length bmp = 1" "\<forall>j. bmp_bit bmp j \<longleftrightarrow> j \<noteq> i \<and> used_slot (p_table q) j"
    using free_id_ok [OF tb s(2)] by blast
  have "length (ring_slots (copies k ob)) + ext ob = 1" using caps_invD(7) [OF inv x(1)] x(2) by simp
  then have ring: "ring_slots (copies k ob) = [s]" using s(7) by (cases "ring_slots (copies k ob)") auto
  have np: "p \<noteq> ob" "procs k ob = None"
    using not_a_process [OF inv x(1)] pl s(1) by (auto simp: plain_object_def)
  obtain n where n: "depth k = Suc n" using dep by (cases "depth k") auto
  define t where "t = (p_table q)\<lparr>slots_bmp := bmp, st_slots := (st_slots (p_table q))[i := None]\<rparr>"
  define x1 where "x1 = x\<lparr>refcount := 0\<rparr>"
  define k1 where "k1 = k\<lparr>procs := (procs k)(p \<mapsto> q\<lparr>p_table := t\<rparr>)\<rparr>"
  define k2 where "k2 = k1\<lparr>kobjs := (kobjs k)(ob \<mapsto> x1)\<rparr>"
  define k3 where "k3 = kfree_object ob k2"
  define k4 where "k4 = k3\<lparr>kslots := (kslots k)(s \<mapsto> sl\<lparr>isvalid := False, sl_object := None\<rparr>)\<rparr>"
  define k5 where "k5 = k4\<lparr>copies := (copies k)(ob := ring_map (remove1 s) (copies k ob)),
    stale_writes := (case copies k ob of Headed _ \<Rightarrow> ob # stale_writes k | Headless _ \<Rightarrow> stale_writes k)\<rparr>"
  define k6 where "k6 = k5\<lparr>kslots := (kslots k)(s := None)\<rparr>"
  have nh: "next_to_head s (copies k ob) = (case copies k ob of Headed _ \<Rightarrow> True | Headless _ \<Rightarrow> False)"
    using ring by (cases "copies k ob") (simp_all add: next_to_head_def)
  have rd: "ring_del s ob k4 = Inr ((), k5)"
    using ring nh by (cases "copies k ob") (simp_all add: ring_del_def kop_defs k1_def k2_def k3_def k4_def k5_def kfree_object_def)
  have steps:
    "getK depth k = Inr (Suc n, k)"
    "table_get p (\<lambda>t. get_slot t (int i)) k = Inr (Some s, k)"
    "derefK (\<lambda>k. kslots k s) k = Inr (sl, k)"
    "upd_table p (\<lambda>t. free_slot_id t (int i)) k = Inr ((), k1)"
    "derefK (\<lambda>k. kobjs k ob) k1 = Inr (x, k1)"
    "upd_refcount ob (\<lambda>n. n - 1) k1 = Inr ((), k2)"
    "deinit_object cf ob k2 = Inr ((), k2)"
    "derefK (\<lambda>k. kobjs k ob) k2 = Inr (x1, k2)"
    "modK (kfree_object ob) k2 = Inr ((), k3)"
    "derefK (\<lambda>k. kslots k s) k3 = Inr (sl, k3)"
    "modK (\<lambda>k. k\<lparr>kslots := (kslots k)(s \<mapsto> sl\<lparr>isvalid := False, sl_object := None\<rparr>)\<rparr>) k3 = Inr ((), k4)"
    "modK (\<lambda>k. k\<lparr>kslots := (kslots k)(s := None)\<rparr>) k5 = Inr ((), k6)" for cf
    using s(1,3-6) get_slot_ok [OF tb s(2)] x bmp(1) n pl
    by (simp_all add: table_get_def kop_defs upd_table_def upd_refcount_def deinit_object_def plain_object_def
        k1_def k2_def k3_def k4_def k5_def k6_def x1_def kfree_object_def flip: t_def)
  have lift: "liftK (deref (Some y)) k' = Inr (y, k')" for y :: nat and k' by (simp add: liftK_def)
  have z: "refcount x1 = 0" by (simp add: x1_def)
  have eq: "cap_free p (int i) k = Inr (0, k6)"
    unfolding cap_free_def
    apply (rule bindK_eq, rule steps(1), simp only: cap_free_rec.simps cap_free_with_def)
    apply (rule bindK_eq, rule steps(2), simp only: option.case)
    apply (rule bindK_eq, rule steps(3), simp only: s(5) not_True_eq_False if_False)
    apply (rule bindK_eq, rule steps(4), simp only: s(6))
    apply (rule bindK_eq, rule lift, rule bindK_eq, rule steps(5), simp only: Let_def x(2) simp_thms if_True)
    apply (rule bindK_eq, rule steps(6), rule bindK_eq, rule bindK_eq, rule steps(7))
    apply (rule bindK_eq, rule steps(8), simp only: z simp_thms if_True, rule steps(9))
    apply (rule bindK_eq, rule steps(10), rule bindK_eq, rule steps(11), rule bindK_eq, rule rd)
    apply (rule bindK_eq, rule steps(12), simp only: retK_def)
    done
  have fld: "procs k6 = (procs k)(p \<mapsto> q\<lparr>p_table := t\<rparr>)" "kslots k6 = (kslots k)(s := None)"
      "copies k6 = (copies k)(ob := ring_map (remove1 s) (copies k ob))" "kobjs k6 = (kobjs k)(ob := None)"
    using np by (auto simp: k1_def k2_def k3_def k4_def k5_def k6_def kfree_object_def)
  have tok: "tab_ok t" using free_table_ok [OF s(8,2) bmp(2,3)] by (simp add: t_def)
  have "st_slots t = (st_slots (p_table q))[i := None]" by (simp add: t_def)
  note r = remove_slot_inv [OF inv s(1,9) c tok this x(1) fld]
  have "caps_inv ext k6" by (rule r(1)) (use pl x(2) in \<open>simp_all add: plain_object_def\<close>)
  moreover have "cap_object k6 p' j = (if p' = p \<and> j = i then None else cap_object k p' j)" for p' j
    by (rule r(2)) (use pl x(2) in \<open>simp_all add: plain_object_def\<close>)
  moreover have "depth k6 = depth k"
    "stale_writes k6 = (case copies k ob of Headed _ \<Rightarrow> ob # stale_writes k | Headless _ \<Rightarrow> stale_writes k)"
    by (simp_all add: k1_def k2_def k3_def k4_def k5_def k6_def kfree_object_def)
  ultimately show ?thesis using eq fld(4) by (intro exI [of _ k6]) simp
qed

section \<open>Copying and freeing the copy\<close>

lemma slot_table_eqI:
  assumes "tab_ok t" "tab_ok t'" "\<And>j. j < 64 \<Longrightarrow> st_slots t ! j = st_slots t' ! j"
  shows "t = (t' :: slot_table)"
proof -
  have ok: "table_ok t" "table_ok t'" using assms(1,2) by (simp_all add: tab_ok_def)
  have len: "length (st_slots t) = 64" "length (st_slots t') = 64" "length (slots_bmp t) = 1" "length (slots_bmp t') = 1"
    using ok by (simp_all add: table_ok_def)
  have "st_slots t = st_slots t'" by (rule nth_equalityI) (use len assms(3) in simp_all)
  moreover have u: "used_slot u j \<longleftrightarrow> st_slots u ! j \<noteq> None" if "tab_ok u" "j < 64" for u j
    using that by (auto simp: tab_ok_def table_ok_def)
  have "slots_bmp t = slots_bmp t'"
    by (rule single_bmp_eq)
      (use len assms(3) u [OF assms(1)] u [OF assms(2)] in \<open>simp_all add: used_slot_def\<close>)
  moreover have "slots_size t = slots_size t'" by (simp add: word_slots_size ok)
  moreover have "full_slots_bmp t = full_slots_bmp t'" using ok by (simp add: table_ok_def)
  ultimately show ?thesis by simp
qed

lemma copy_then_free:
  assumes inv: "caps_inv ext k" and c: "cap_object k sp j = Some ob" and x: "kobjs k ob = Some x" "unat (refcount x) < 2 ^ 64 - 1"
    and q: "procs k dp = Some q" and i: "i < 64" "\<not> used_slot (p_table q) i" "\<forall>l < i. used_slot (p_table q) l"
    and m: "kmem (ksch k) = a # ms" "a \<noteq> 0" "kslots k a = None" and dep: "0 < depth k"
  shows "bindK (cap_copy sp dp (int j) v rg) (cap_free dp) k = Inr (0, k\<lparr>ksch := ksch k\<lparr>kmem := ms\<rparr>\<rparr>)"
proof -
  obtain t s ssl where t: "slot_at k sp j s" "kslots k s = Some ssl" "tab_ok t" "st_slots t = (st_slots (p_table q))[i := Some a]"
    "s \<in> set (ring_slots (copies k ob))"
    and eq: "cap_copy sp dp (int j) v rg k = Inr (int i, k\<lparr>procs := (procs k)(dp \<mapsto> q\<lparr>p_table := t\<rparr>), ksch := ksch k\<lparr>kmem := ms\<rparr>,
      kobjs := (kobjs k)(ob \<mapsto> x\<lparr>refcount := refcount x + 1\<rparr>),
      kslots := (kslots k)(a \<mapsto> \<lparr>slot_id = int i, sl_process = dp, isvalid = True,
        sl_rights = (if v then rg else sl_rights ssl), sl_object = Some ob\<rparr>),
      copies := (copies k)(ob := ring_map (insert_after a s) (copies k ob))\<rparr>)" (is "_ = Inr (_, ?k)")
    using cap_copy_eq [OF inv c x q i m] by blast
  obtain k1 where k1: "cap_copy sp dp (int j) v rg k = Inr (int i, k1)" "caps_inv ext k1" "cap_object k1 dp i = Some ob"
    using cap_copy_spec [OF inv c x q i m] by blast
  have k: "k1 = ?k" using eq k1(1) by simp
  have na: "a \<notin> set (ring_slots (copies k ob))" by (rule slot_not_in_ring [OF inv x(1) m(3)])
  have l: "length (st_slots (p_table q)) = 64" and tq: "tab_ok (p_table q)"
    using caps_invD(1) [OF inv q] by (simp_all add: tab_ok_def table_ok_def)
  have "ring_slots (copies k ob) \<noteq> []" using t(5) by auto
  then have n: "refcount x \<noteq> 0" using caps_invD(7) [OF inv x(1)] by auto
  have x1: "kobjs k1 ob = Some (x\<lparr>refcount := refcount x + 1\<rparr>)" "refcount (x\<lparr>refcount := refcount x + 1\<rparr>) \<noteq> 1"
    using n by (simp_all add: k)
  have "0 < depth k1" using dep by (simp add: k)
  from cap_free_eq [OF k1(2,3) x1 this] obtain bmp where bmp: "length bmp = 1"
      "\<forall>l. bmp_bit bmp l \<longleftrightarrow> l \<noteq> i \<and> used_slot t l"
    and fr: "cap_free dp (int i) k1 = Inr (0, k1\<lparr>procs := (procs k1)(dp \<mapsto> q\<lparr>p_table := t\<lparr>slots_bmp := bmp, st_slots := (st_slots t)[i := None]\<rparr>\<rparr>),
      kobjs := (kobjs k1)(ob \<mapsto> x), copies := (copies k1)(ob := ring_map (remove1 a) (copies k1 ob)), kslots := (kslots k1)(a := None)\<rparr>)"
    using l i(1) by (auto simp: k t(4) slot_at_def)
  have "t\<lparr>slots_bmp := bmp, st_slots := (st_slots t)[i := None]\<rparr> = p_table q"
  proof (rule slot_table_eqI [OF free_table_ok [OF t(3) i(1) bmp] tq])
    fix b :: nat assume "b < 64"
    moreover have "st_slots (p_table q) ! i = None" using tq i by (auto simp: tab_ok_def table_ok_def)
    ultimately show "st_slots (t\<lparr>slots_bmp := bmp, st_slots := (st_slots t)[i := None]\<rparr>) ! b = st_slots (p_table q) ! b"
      using l by (cases "b = i") (simp_all add: t(4))
  qed
  then have "q\<lparr>p_table := t\<lparr>slots_bmp := bmp, st_slots := (st_slots t)[i := None]\<rparr>\<rparr> = q" by simp
  moreover have "ring_map (remove1 a) (ring_map (insert_after a s) (copies k ob)) = copies k ob"
    using remove1_insert_after [OF na t(5)] by (simp add: ring_map_id)
  ultimately have "cap_free dp (int i) k1 = Inr (0, k\<lparr>ksch := ksch k\<lparr>kmem := ms\<rparr>\<rparr>)"
    using fr q x(1) m(3) by (cases k) (simp add: k fun_upd_idem)
  then show ?thesis by (intro bindK_eq [where k' = k1 and x = "int i"]) (simp_all only: k1(1))
qed

section \<open>Revoking\<close>

lemma slot_cap:
  assumes inv: "caps_inv ext k" and x: "kobjs k ob = Some x" and s: "s \<in> set (ring_slots (copies k ob))"
  shows "\<exists>sl i. kslots k s = Some sl \<and> slot_id sl = int i \<and> slot_at k (sl_process sl) i s \<and> cap_object k (sl_process sl) i = Some ob"
proof -
  obtain sl where sl: "kslots k s = Some sl" "sl_object sl = Some ob" using caps_invD(6) [OF inv x s] by blast
  then have at: "0 \<le> slot_id sl" "slot_at k (sl_process sl) (nat (slot_id sl)) s" using caps_invD(4) [OF inv] by blast+
  then have "cap_object k (sl_process sl) (nat (slot_id sl)) = Some ob" using sl by (auto simp: cap_object_def slot_at_def)
  then show ?thesis using sl at by (intro exI [of _ sl] exI [of _ "nat (slot_id sl)"]) simp
qed

lemma slot_at_unique: "slot_at k p i s \<Longrightarrow> slot_at k p i s' \<Longrightarrow> s = s'"
  by (auto simp: slot_at_def)

lemma no_caps:
  assumes "caps_inv ext k" "ring_slots (copies k ob) = []"
  shows "cap_object k p j \<noteq> Some ob"
proof
  assume "cap_object k p j = Some ob"
  then show False by (rule cap_objectE [OF assms(1)]) (simp add: assms(2))
qed

lemma free_ring_slot:
  assumes inv: "caps_inv ext k" and x: "kobjs k ob = Some x" and e: "0 < ext ob" and s: "s \<in> set (ring_slots (copies k ob))"
    and dep: "0 < depth k"
  shows "\<exists>sl p i k1. kslots k s = Some sl \<and> sl_process sl = p \<and> slot_id sl = int i \<and> cap_object k p i = Some ob \<and>
    cap_free p (int i) k = Inr (0, k1) \<and> caps_inv ext k1 \<and> kobjs k1 = (kobjs k)(ob \<mapsto> x\<lparr>refcount := refcount x - 1\<rparr>) \<and>
    ring_slots (copies k1 ob) = remove1 s (ring_slots (copies k ob)) \<and> depth k1 = depth k \<and> stale_writes k1 = stale_writes k \<and>
    (\<forall>p' j. cap_object k1 p' j = (if p' = p \<and> j = i then None else cap_object k p' j))"
proof -
  obtain sl i where sl: "kslots k s = Some sl" "slot_id sl = int i" "slot_at k (sl_process sl) i s" "cap_object k (sl_process sl) i = Some ob"
    using slot_cap [OF inv x s] by auto
  obtain m where "length (ring_slots (copies k ob)) = Suc m" using s by (cases "ring_slots (copies k ob)") auto
  then have "refcount x \<noteq> 1" using caps_invD(7) [OF inv x] e by auto
  from cap_free_shared [OF inv sl(4) x this dep] obtain k1 where
    "cap_free (sl_process sl) (int i) k = Inr (0, k1)" "caps_inv ext k1" "kobjs k1 = (kobjs k)(ob \<mapsto> x\<lparr>refcount := refcount x - 1\<rparr>)"
      "copies k1 = (copies k)(ob := ring_map (remove1 s) (copies k ob))" "depth k1 = depth k" "stale_writes k1 = stale_writes k"
      "\<forall>p' j. cap_object k1 p' j = (if p' = sl_process sl \<and> j = i then None else cap_object k p' j)"
    using slot_at_unique [OF _ sl(3)] by blast
  then show ?thesis using sl by (intro exI [of _ sl] exI [of _ "sl_process sl"] exI [of _ i] exI [of _ k1]) simp
qed

lemma free_copies_all:
  assumes "caps_inv ext k" "kobjs k ob = Some x" "0 < ext ob" "ring_slots (copies k ob) = s # ss" "0 < depth k"
  shows "\<exists>k'. free_copies (Suc (length ss)) ob (Some s) (case ss of [] \<Rightarrow> None | t # _ \<Rightarrow> Some t) k = Inr ((), k') \<and>
    caps_inv ext k' \<and> ring_slots (copies k' ob) = [] \<and> depth k' = depth k \<and> stale_writes k' = stale_writes k \<and>
    (\<exists>n. kobjs k' = (kobjs k)(ob \<mapsto> x\<lparr>refcount := n\<rparr>)) \<and>
    (\<forall>p j. cap_object k' p j = (if cap_object k p j = Some ob then None else cap_object k p j))"
  using assms
proof (induction ss arbitrary: s k x)
  case (Cons t ts)
  obtain sl p i k1 where sl: "kslots k s = Some sl" "sl_process sl = p" "slot_id sl = int i" "cap_object k p i = Some ob"
    and k1: "cap_free p (int i) k = Inr (0, k1)" "caps_inv ext k1" "kobjs k1 = (kobjs k)(ob \<mapsto> x\<lparr>refcount := refcount x - 1\<rparr>)"
      "ring_slots (copies k1 ob) = t # ts" "depth k1 = depth k" "stale_writes k1 = stale_writes k"
      "\<forall>p' j. cap_object k1 p' j = (if p' = p \<and> j = i then None else cap_object k p' j)"
    using free_ring_slot [OF Cons.prems(1-3) _ Cons.prems(5), of s] Cons.prems(4) by auto
  have "kobjs k1 ob = Some (x\<lparr>refcount := refcount x - 1\<rparr>)" "0 < depth k1" using k1(3,5) Cons.prems(5) by simp_all
  from Cons.IH [OF k1(2) this(1) Cons.prems(3) k1(4) this(2)] obtain k2 n where
    k2: "free_copies (Suc (length ts)) ob (Some t) (case ts of [] \<Rightarrow> None | t # _ \<Rightarrow> Some t) k1 = Inr ((), k2)"
      "caps_inv ext k2" "ring_slots (copies k2 ob) = []" "depth k2 = depth k1" "stale_writes k2 = stale_writes k1"
      "kobjs k2 = (kobjs k1)(ob \<mapsto> x\<lparr>refcount := refcount x - 1, refcount := n\<rparr>)"
      "\<forall>p j. cap_object k2 p j = (if cap_object k1 p j = Some ob then None else cap_object k1 p j)"
    by blast
  have "free_copies (Suc (length (t # ts))) ob (Some s) (Some t) k = Inr ((), k2)"
    using k2(1) by (simp add: kop_defs sl k1(1) ring_next_def k1(4))
  moreover have "cap_object k2 p j = (if cap_object k p j = Some ob then None else cap_object k p j)" for p j
    using k2(7) k1(7) sl(4) by auto
  moreover have "kobjs k2 = (kobjs k)(ob \<mapsto> x\<lparr>refcount := n\<rparr>)" by (simp add: k2(6) k1(3))
  ultimately show ?case using k2(2-5) k1(5,6) by (intro exI [of _ k2]) auto
next
  case Nil
  obtain sl p i k1 where sl: "kslots k s = Some sl" "sl_process sl = p" "slot_id sl = int i" "cap_object k p i = Some ob"
    and k1: "cap_free p (int i) k = Inr (0, k1)" "caps_inv ext k1" "kobjs k1 = (kobjs k)(ob \<mapsto> x\<lparr>refcount := refcount x - 1\<rparr>)"
      "ring_slots (copies k1 ob) = []" "depth k1 = depth k" "stale_writes k1 = stale_writes k"
      "\<forall>p' j. cap_object k1 p' j = (if p' = p \<and> j = i then None else cap_object k p' j)"
    using free_ring_slot [OF Nil.prems(1-3) _ Nil.prems(5), of s] Nil.prems(4) by auto
  have "free_copies (Suc 0) ob (Some s) None k = Inr ((), k1)"
    by (simp add: kop_defs sl k1(1) ring_next_def)
  moreover have "cap_object k1 p j = (if cap_object k p j = Some ob then None else cap_object k p j)" for p j
    using k1(7) sl(4) no_caps [OF k1(2,4), of p j] by auto
  ultimately show ?case using k1 by (intro exI [of _ k1]) auto
qed

lemma kfree_inv:
  assumes inv: "caps_inv ext k" and x: "kobjs k ob = Some x" "ob_type x \<noteq> TYPE_PROCESS" and r: "ring_slots (copies k ob) = []"
    and e: "\<And>o'. o' \<noteq> ob \<Longrightarrow> ext' o' = ext o'"
  shows "caps_inv ext' (kfree_object ob k)" "cap_object (kfree_object ob k) p j = cap_object k p j"
proof -
  have np: "procs k ob = None" by (rule not_a_process [OF inv x])
  then have k: "procs (kfree_object ob k) = procs k" "kslots (kfree_object ob k) = kslots k" "copies (kfree_object ob k) = copies k"
    "kobjs (kfree_object ob k) = (kobjs k)(ob := None)"
    by (auto simp: kfree_object_def)
  have at: "slot_at (kfree_object ob k) = slot_at k" by (simp add: slot_at_def fun_eq_iff k)
  note d = caps_invD [OF inv]
  show "cap_object (kfree_object ob k) p j = cap_object k p j" by (simp add: cap_object_def k)
  show "caps_inv ext' (kfree_object ob k)"
    unfolding caps_inv_def at k
  proof (intro conjI allI impI)
    fix p assume p: "procs k p \<noteq> None"
    then have "p \<noteq> ob" using np by auto
    then show "\<exists>x. ((kobjs k)(ob := None)) p = Some x \<and> ob_type x = TYPE_PROCESS" using d(2) p by auto
  next
    fix p i s assume "slot_at k p i s"
    from d(3) [OF this] show "\<exists>sl o'. kslots k s = Some sl \<and> slot_id sl = int i \<and> sl_process sl = p \<and> isvalid sl \<and>
        sl_object sl = Some o' \<and> ((kobjs k)(ob := None)) o' \<noteq> None \<and> s \<in> set (ring_slots (copies k o'))"
      using r by fastforce
  next
    fix o' y assume y: "((kobjs k)(ob := None)) o' = Some y"
    then show "distinct (ring_slots (copies k o'))" "\<forall>s \<in> set (ring_slots (copies k o')). \<exists>sl. kslots k s = Some sl \<and> sl_object sl = Some o'"
        "unat (refcount y) = length (ring_slots (copies k o')) + ext' o'"
      using d(5-7) e by (auto split: if_splits)
  qed (use d(1,4) in auto)
qed

lemma cap_revoke_all:
  assumes inv: "caps_inv ext k" and c: "cap_object k p i = Some ob" and x: "kobjs k ob = Some x" "unat (refcount x) < 2 ^ 64 - 1"
    and ty: "ob_type x \<noteq> TYPE_PROCESS" and hd: "copies k ob = Headed ss" and dep: "0 < depth k"
  shows "\<exists>k'. cap_revoke p (int i) k = Inr (0, k') \<and> caps_inv ext k' \<and> stale_writes k' = stale_writes k \<and>
    (\<exists>n. kobjs k' = (kobjs k)(ob := if ext ob = 0 then None else Some (x\<lparr>refcount := n\<rparr>))) \<and>
    (\<forall>p j. cap_object k' p j = (if cap_object k p j = Some ob then None else cap_object k p j))"
proof -
  let ?e = "ext(ob := ext ob + 1)"
  define k1 where "k1 = k\<lparr>kobjs := (kobjs k)(ob \<mapsto> x\<lparr>refcount := refcount x + 1\<rparr>)\<rparr>"
  have og: "object_get p (int i) k = Inr (Some ob, k1)"
    using obj_get_eq [OF inv c x(1), of None] by (simp add: object_get_def k1_def)
  have inv1: "caps_inv ?e k1"
    unfolding k1_def using caps_invD(7) [OF inv x(1)] refcount_suc [OF x(2)] by (intro upd_refcount_inv [OF inv x(1)]) simp_all
  have n1: "refcount x + 1 \<noteq> 0" using refcount_suc [OF x(2)] by auto
  have x1: "kobjs k1 ob = Some (x\<lparr>refcount := refcount x + 1\<rparr>)" "depth k1 = depth k" "copies k1 ob = Headed ss"
    "stale_writes k1 = stale_writes k" "cap_object k1 = cap_object k"
    by (simp_all add: k1_def hd cap_object_def fun_eq_iff)
  have "ss \<noteq> []" by (rule cap_objectE [OF inv c]) (auto simp: hd)
  then obtain s ts where ss: "ss = s # ts" by (cases ss) auto
  have ring: "ring_slots (copies k1 ob) = s # ts" and ep: "0 < ?e ob" and dep1: "0 < depth k1" using x1 ss dep by simp_all
  obtain k2 n where fc: "free_copies (Suc (length ts)) ob (Some s) (case ts of [] \<Rightarrow> None | t # _ \<Rightarrow> Some t) k1 = Inr ((), k2)"
    and k2: "caps_inv ?e k2" "ring_slots (copies k2 ob) = []" "depth k2 = depth k1" "stale_writes k2 = stale_writes k1"
      "kobjs k2 = (kobjs k1)(ob \<mapsto> x\<lparr>refcount := refcount x + 1, refcount := n\<rparr>)"
      "\<forall>p j. cap_object k2 p j = (if cap_object k1 p j = Some ob then None else cap_object k1 p j)"
    using free_copies_all [OF inv1 x1(1) ep ring dep1] by blast
  have "obj_free (Some ob) k1 = free_copies (length ss) ob (Some s) (case ts of [] \<Rightarrow> None | t # _ \<Rightarrow> Some t) k1"
    using n1 by (simp add: obj_free_def kop_defs x1 ss Let_def ring_next_def)
  then have free: "obj_free (Some ob) k1 = Inr ((), k2)" using fc by (simp add: ss)
  have x2: "kobjs k2 ob = Some (x\<lparr>refcount := n\<rparr>)" by (simp add: k2(5))
  have n: "unat n = ext ob + 1" using caps_invD(7) [OF k2(1) x2] k2(2) by simp
  have n0: "n \<noteq> 0" using n by auto
  have pred: "unat (n - 1) = ext ob" using refcount_pred [OF n0] n by simp
  define k3 where "k3 = k2\<lparr>kobjs := (kobjs k2)(ob \<mapsto> (x\<lparr>refcount := n\<rparr>)\<lparr>refcount := n - 1\<rparr>)\<rparr>"
  have inv3: "caps_inv ext k3"
    unfolding k3_def using upd_refcount_inv [OF k2(1) x2, of "\<lambda>n. n - 1" ext] pred k2(2) by simp
  define k4 where "k4 = (if n = 1 then kfree_object ob k3 else k3)"
  have put: "object_put ob k2 = Inr ((), k4)"
    by (simp add: object_put_def kop_defs x2 upd_refcount_def Let_def k4_def k3_def)
  have "cap_revoke p (int i) k = Inr (0, k4)"
    unfolding cap_revoke_def
    apply (rule bindK_eq, rule og, simp only: option.case)
    apply (rule bindK_eq, rule free, rule bindK_eq, rule put, simp only: retK_def)
    done
  moreover have x3: "kobjs k3 ob = Some (x\<lparr>refcount := n - 1\<rparr>)" "ring_slots (copies k3 ob) = []" "stale_writes k3 = stale_writes k"
    "cap_object k3 = cap_object k2" "kobjs k3 = (kobjs k)(ob \<mapsto> x\<lparr>refcount := n - 1\<rparr>)"
    using k2(2,4,5) x1(4) by (simp_all add: k3_def cap_object_def fun_eq_iff k1_def)
  have ty3: "ob_type (x\<lparr>refcount := n - 1\<rparr>) \<noteq> TYPE_PROCESS" using ty by simp
  have "caps_inv ext k4" using inv3 kfree_inv(1) [OF inv3 x3(1) ty3 x3(2)] by (simp add: k4_def)
  moreover have "cap_object k4 p j = (if cap_object k p j = Some ob then None else cap_object k p j)" for p j
    using kfree_inv(2) [OF inv3 x3(1) ty3 x3(2)] k2(6) x1(5) x3(4) by (simp add: k4_def)
  moreover have "n = 1 \<longleftrightarrow> ext ob = 0" using n by (auto simp: word_unat_eq_iff)
  then have "kobjs k4 = (kobjs k)(ob := if ext ob = 0 then None else Some (x\<lparr>refcount := n - 1\<rparr>))"
    using x3(5) by (auto simp: k4_def kfree_object_def)
  moreover have "stale_writes k4 = stale_writes k" using x3(3) by (simp add: k4_def kfree_object_def)
  ultimately show ?thesis by (intro exI [of _ k4]) auto
qed

section \<open>An example state\<close>

text \<open>
  Two processes, 10 and 20, that share the memory object 13; 20 has another one, 14, for itself. Thread 1
  of process 10 runs on the first CPU and has the connection 15 to process 20, with the shadow thread 2.
\<close>

definition table_of_slots :: "nat option list \<Rightarrow> slot_table" where
  "table_of_slots ss = \<lparr>slots_size = 64, st_slots = ss @ replicate (64 - length ss) None, full_slots_bmp = [0],
     slots_bmp = [mask (length ss)]\<rparr>"

definition demo_slot :: "nat \<Rightarrow> nat \<Rightarrow> nat \<Rightarrow> object_slot" where
  "demo_slot p i ob = \<lparr>slot_id = int i, sl_process = p, isvalid = True, sl_rights = 0, sl_object = Some ob\<rparr>"

definition demo_context :: "thread_type \<Rightarrow> thread_state \<Rightarrow> nat option \<Rightarrow> thread_ctx" where
  "demo_context ty st sc = \<lparr>t_regs = replicate REG_NUM 0, t_sc = sc, t_type = ty, t_state = st, t_prio = 5, t_affinity = NO_AFF, t_cpuid = 0\<rparr>"

definition demo_connection :: ipc_connection where
  "demo_connection = \<lparr>conn_source = None, conn_target = Some 2, server_conn_cap = 0, server_stack_top = 0x9000,
     client_user_addr = 0x1000, server_user_addr = 0x2000\<rparr>"

definition demo_config :: server_ipc_config where
  "demo_config = \<lparr>sc_callback = 0x4000, max_client = 0, conn_bmp = None,
     vm_config = \<lparr>stack_base_addr = 0x8000, stack_size = 0x1000, buf_base_addr = 0x2000, buf_size = 0x1000\<rparr>\<rparr>"

definition demo_kernel :: kernel where
  "demo_kernel = \<lparr>
     kobjs = [10 \<mapsto> \<lparr>ob_type = TYPE_PROCESS, ob_size = 0, refcount = 1\<rparr>, 20 \<mapsto> \<lparr>ob_type = TYPE_PROCESS, ob_size = 0, refcount = 1\<rparr>,
              13 \<mapsto> \<lparr>ob_type = TYPE_PMO, ob_size = 0, refcount = 2\<rparr>, 14 \<mapsto> \<lparr>ob_type = TYPE_PMO, ob_size = 0, refcount = 1\<rparr>,
              15 \<mapsto> \<lparr>ob_type = TYPE_CONNECTION, ob_size = 72, refcount = 1\<rparr>],
     copies = (\<lambda>_. Headed [])(10 := Headless [100], 20 := Headless [102], 13 := Headed [103, 101], 14 := Headed [104], 15 := Headed [105]),
     kslots = [100 \<mapsto> demo_slot 10 0 10, 101 \<mapsto> demo_slot 10 1 13, 102 \<mapsto> demo_slot 20 0 20, 103 \<mapsto> demo_slot 20 1 13,
               104 \<mapsto> demo_slot 20 2 14, 105 \<mapsto> demo_slot 10 2 15],
     procs = [10 \<mapsto> \<lparr>p_table = table_of_slots [Some 100, Some 101, Some 105], thread_list = [1]\<rparr>,
              20 \<mapsto> \<lparr>p_table = table_of_slots [Some 102, Some 103, Some 104], thread_list = []\<rparr>],
     kthreads = [1 \<mapsto> \<lparr>th_process = Some 10, active_conn = None, server_config = None\<rparr>,
                 2 \<mapsto> \<lparr>th_process = Some 20, active_conn = None, server_config = Some (Some 40)\<rparr>],
     vspaces = Map.empty, conns = [15 \<mapsto> demo_connection], configs = [40 \<mapsto> demo_config], stale_writes = [], depth = 100,
     kmm = \<lparr>vmrs = Map.empty, pmos = Map.empty, vmr_supply = [], mm_pt = demo_pt\<rparr>,
     krad = \<lparr>rmem = Map.empty, avail = []\<rparr>,
     ksch = \<lparr>ctxs = [Thr 1 \<mapsto> demo_context TYPE_USER TS_RUNNING (Some 50), Thr 2 \<mapsto> demo_context TYPE_SHADOW TS_INIT None],
       rr_ready_queue = replicate 4 [], current_threads = [Some (Thr 1), None, None, None], thread_vmspace = [Thr 1 \<mapsto> 61, Thr 2 \<mapsto> 62],
       budgets = [50 \<mapsto> 2], kmem = [200, 201]\<rparr>,
     umem = (\<lambda>_. Map.empty), kdata = Map.empty, kconsole = []\<rparr>"

lemma table_of_slots_used: "length ss \<le> 64 \<Longrightarrow> i < 64 \<Longrightarrow> used_slot (table_of_slots ss) i \<longleftrightarrow> i < length ss"
  by (simp add: used_slot_def table_of_slots_def bmp_bit_def bit_mask_iff)

lemma table_of_slots_ok: "length ss \<le> 64 \<Longrightarrow> None \<notin> set ss \<Longrightarrow> tab_ok (table_of_slots ss)"
proof -
  assume ss: "length ss \<le> 64" "None \<notin> set ss"
  have "st_slots (table_of_slots ss) ! i \<noteq> None \<longleftrightarrow> i < length ss" if "i < 64" for i
  proof (cases "i < length ss")
    case True
    then have "ss ! i \<noteq> None" using ss(2) nth_mem [of i ss] by metis
    then show ?thesis using True by (simp add: table_of_slots_def nth_append)
  next
    case False
    then show ?thesis using ss that by (simp add: table_of_slots_def nth_append)
  qed
  then show ?thesis
    using ss table_of_slots_used [of ss] by (simp add: tab_ok_def table_ok_def) (simp add: table_of_slots_def)
qed

lemma demo_slot_at: "slot_at demo_kernel p i s \<longleftrightarrow> (p, i, s) \<in> {(10, 0, 100), (10, 1, 101), (10, 2, 105), (20, 0, 102), (20, 1, 103), (20, 2, 104)}"
  by (auto simp: slot_at_def demo_kernel_def table_of_slots_def nth_append nth_Cons less_Suc_eq split: if_splits nat.splits)

lemma demo_ring:
  "ring_slots (copies demo_kernel ob) = (if ob = 10 then [100] else if ob = 20 then [102] else if ob = 13 then [103, 101]
     else if ob = 14 then [104] else if ob = 15 then [105] else [])"
  by (simp add: demo_kernel_def)

lemma demo_inv: "caps_inv (\<lambda>_. 0) demo_kernel"
  unfolding caps_inv_def demo_slot_at demo_ring
proof (intro conjI allI impI)
  fix p q assume "procs demo_kernel p = Some q"
  then show "tab_ok (p_table q)" by (auto simp: demo_kernel_def table_of_slots_ok split: if_splits)
next
  fix p assume "procs demo_kernel p \<noteq> None"
  then show "\<exists>x. kobjs demo_kernel p = Some x \<and> ob_type x = TYPE_PROCESS" by (auto simp: demo_kernel_def split: if_splits)
qed (auto simp: demo_kernel_def demo_slot_def split: if_splits)

lemma demo_facts:
  "cap_object demo_kernel 10 1 = Some 13" "cap_object demo_kernel 20 1 = Some 13" "cap_object demo_kernel 20 2 = Some 14"
  "kobjs demo_kernel 13 = Some \<lparr>ob_type = TYPE_PMO, ob_size = 0, refcount = 2\<rparr>"
  "kobjs demo_kernel 14 = Some \<lparr>ob_type = TYPE_PMO, ob_size = 0, refcount = 1\<rparr>"
  "procs demo_kernel 20 = Some \<lparr>p_table = table_of_slots [Some 102, Some 103, Some 104], thread_list = []\<rparr>"
  "procs demo_kernel 10 = Some \<lparr>p_table = table_of_slots [Some 100, Some 101, Some 105], thread_list = [1]\<rparr>"
  "depth demo_kernel = 100" "kmem (ksch demo_kernel) = [200, 201]" "kslots demo_kernel 200 = None"
  "copies demo_kernel 13 = Headed [103, 101]" "copies demo_kernel 14 = Headed [104]" "stale_writes demo_kernel = []"
  by (simp_all add: cap_object_def demo_kernel_def table_of_slots_def demo_slot_def)

lemma demo_count: "finite (dom (procs demo_kernel))" "slot_count demo_kernel = 6"
proof -
  have d: "dom (procs demo_kernel) = {10, 20}" by (auto simp: demo_kernel_def split: if_splits)
  have u: "used_slots (Some \<lparr>p_table = table_of_slots ss, thread_list = ts\<rparr>) = {..<length ss}"
    if "length ss \<le> 64" "None \<notin> set ss" for ss ts
  proof -
    have "st_slots (table_of_slots ss) ! i \<noteq> None \<longleftrightarrow> i < length ss" if "i < 64" for i
      using table_of_slots_ok [OF \<open>length ss \<le> 64\<close> \<open>None \<notin> set ss\<close>] table_of_slots_used [OF \<open>length ss \<le> 64\<close> that] that
      by (auto simp: tab_ok_def table_ok_def)
    then show ?thesis using that by (auto simp: used_slots_def table_of_slots_def)
  qed
  show "finite (dom (procs demo_kernel))" by (simp add: d)
  show "slot_count demo_kernel = 6" by (simp add: slot_count_def d demo_facts(6,7) u)
qed

section \<open>Properties\<close>

text \<open>
  C12: copying a capability to another process (or the same one) puts a new capability on the same
  object into the first free slot of the destination, counts one more reference, and changes no other
  capability of any process; tables, slots, rings and reference counts stay consistent.
\<close>

theorem cap_copy_correct:
  assumes "caps_inv ext k" "cap_object k sp j = Some ob" "kobjs k ob = Some x" "unat (refcount x) < 2 ^ 64 - 1"
    and "procs k dp = Some q" "i < 64" "\<not> used_slot (p_table q) i" "\<forall>l < i. used_slot (p_table q) l"
    and "kmem (ksch k) = a # ms" "a \<noteq> 0" "kslots k a = None"
  shows "\<exists>k'. cap_copy sp dp (int j) v rg k = Inr (int i, k') \<and> caps_inv ext k' \<and>
    (\<forall>p l. cap_object k' p l = (if p = dp \<and> l = i then Some ob else cap_object k p l)) \<and>
    kobjs k' = (kobjs k)(ob \<mapsto> x\<lparr>refcount := refcount x + 1\<rparr>)"
  using cap_copy_spec [OF assms] by (metis (no_types, lifting))

theorem cap_copy_correct_witness:
  "\<exists>k'. cap_copy 10 20 (int 1) False 0 demo_kernel = Inr (int 3, k') \<and> caps_inv (\<lambda>_. 0) k' \<and>
    (\<forall>p l. cap_object k' p l = (if p = 20 \<and> l = 3 then Some 13 else cap_object demo_kernel p l)) \<and>
    kobjs k' = (kobjs demo_kernel)(13 \<mapsto> \<lparr>ob_type = TYPE_PMO, ob_size = 0, refcount = 2\<rparr>
      \<lparr>refcount := refcount \<lparr>ob_type = TYPE_PMO, ob_size = 0, refcount = 2\<rparr> + 1\<rparr>)"
  by (rule cap_copy_correct [OF demo_inv demo_facts(1,4) _ demo_facts(6) _ _ _ demo_facts(9) _ demo_facts(10)])
    (simp_all add: table_of_slots_used)

text \<open>
  C27: copying a capability and freeing the copy is the identity on the whole kernel state, except that
  the memory block of the slot has been taken from the allocator (a freed block is not handed out again).
\<close>

theorem cap_copy_free_roundtrip:
  assumes "caps_inv ext k" "cap_object k sp j = Some ob" "kobjs k ob = Some x" "unat (refcount x) < 2 ^ 64 - 1"
    and "procs k dp = Some q" "i < 64" "\<not> used_slot (p_table q) i" "\<forall>l < i. used_slot (p_table q) l"
    and "kmem (ksch k) = a # ms" "a \<noteq> 0" "kslots k a = None" "0 < depth k"
  shows "bindK (cap_copy sp dp (int j) v rg) (cap_free dp) k = Inr (0, k\<lparr>ksch := ksch k\<lparr>kmem := ms\<rparr>\<rparr>)"
  using assms by (rule copy_then_free)

theorem cap_copy_free_roundtrip_witness:
  "bindK (cap_copy 10 20 (int 1) True 7) (cap_free 20) demo_kernel = Inr (0, demo_kernel\<lparr>ksch := ksch demo_kernel\<lparr>kmem := [201]\<rparr>\<rparr>)"
  by (rule cap_copy_free_roundtrip [OF demo_inv demo_facts(1,4) _ demo_facts(6) _ _ _ demo_facts(9) _ demo_facts(10), of 3])
    (simp_all add: table_of_slots_used demo_facts)

text \<open>
  C11: freeing a capability that is not the last reference to its object, whatever the object is, or the
  last one of an object other than a process or a thread, removes exactly that capability; the object
  loses one reference, and is freed with the last one. Consistency is kept. The last reference to a
  thread is left out, because its end can take the capabilities of its process with it, and so is the last
  one to a process, which frees the slot table itself.
\<close>

theorem cap_free_correct:
  assumes "caps_inv ext k" "cap_object k p i = Some ob" "kobjs k ob = Some x" "refcount x = 1 \<longrightarrow> plain_object x" "0 < depth k"
  shows "\<exists>k'. cap_free p (int i) k = Inr (0, k') \<and> caps_inv ext k' \<and>
    (\<forall>p' j. cap_object k' p' j = (if p' = p \<and> j = i then None else cap_object k p' j)) \<and>
    kobjs k' = (kobjs k)(ob := if refcount x = 1 then None else Some (x\<lparr>refcount := refcount x - 1\<rparr>))"
proof (cases "refcount x = 1")
  case True
  then show ?thesis using cap_free_last [OF assms(1-3) True _ assms(5)] assms(4) by auto
next
  case False
  then show ?thesis using cap_free_shared [OF assms(1-3) False assms(5)] by auto
qed

theorem cap_free_correct_witness:
  "\<exists>k'. cap_free 20 (int 2) demo_kernel = Inr (0, k') \<and> caps_inv (\<lambda>_. 0) k' \<and>
    (\<forall>p' j. cap_object k' p' j = (if p' = 20 \<and> j = 2 then None else cap_object demo_kernel p' j)) \<and>
    kobjs k' = (kobjs demo_kernel)(14 := if refcount \<lparr>ob_type = TYPE_PMO, ob_size = 0, refcount = 1\<rparr> = 1 then None
      else Some (\<lparr>ob_type = TYPE_PMO, ob_size = 0, refcount = 1\<rparr>\<lparr>refcount := refcount \<lparr>ob_type = TYPE_PMO, ob_size = 0, refcount = 1\<rparr> - 1\<rparr>))"
  by (rule cap_free_correct [OF demo_inv demo_facts(3,5)]) (simp_all add: plain_object_def demo_facts)

text \<open>
  \<^verbatim>\<open>cap_free\<close> unlinks the slot after the object has been freed: giving up the last
  capability on an object writes to the list head inside the freed object.
\<close>

theorem cap_free_writes_freed:
  assumes "caps_inv ext k" "cap_object k p i = Some ob" "kobjs k ob = Some x" "refcount x = 1"
    and "plain_object x" "copies k ob = Headed ss" "0 < depth k"
  shows "\<exists>k'. cap_free p (int i) k = Inr (0, k') \<and> kobjs k' ob = None \<and> stale_writes k' = ob # stale_writes k"
  using cap_free_last [OF assms(1-5,7)] assms(6) by auto

theorem cap_free_writes_freed_witness:
  "\<exists>k'. cap_free 20 (int 2) demo_kernel = Inr (0, k') \<and> kobjs k' 14 = None \<and> stale_writes k' = 14 # stale_writes demo_kernel"
  by (rule cap_free_writes_freed [OF demo_inv demo_facts(3,5) _ _ demo_facts(12)]) (simp_all add: plain_object_def demo_facts)

text \<open>
  C1: revoking a capability on an object that is not a process, and whose ring of capabilities has its
  head (which \<^verbatim>\<open>obj_alloc\<close> initialises), takes away every capability on the object, in all
  processes and no other one; the object is freed unless somebody else still holds a temporary reference,
  and no freed memory is written. A process is left out: freeing it frees its slot table, and in the
  root process the head of the ring, which \<^verbatim>\<open>obj_free\<close> walks, is never initialised.
\<close>

theorem cap_revoke_correct:
  assumes "caps_inv ext k" "cap_object k p i = Some ob" "kobjs k ob = Some x" "unat (refcount x) < 2 ^ 64 - 1"
    and "ob_type x \<noteq> TYPE_PROCESS" "copies k ob = Headed ss" "0 < depth k"
  shows "\<exists>k' n. cap_revoke p (int i) k = Inr (0, k') \<and> caps_inv ext k' \<and> stale_writes k' = stale_writes k \<and>
    kobjs k' = (kobjs k)(ob := if ext ob = 0 then None else Some (x\<lparr>refcount := n\<rparr>)) \<and>
    (\<forall>p j. cap_object k' p j = (if cap_object k p j = Some ob then None else cap_object k p j))"
  using cap_revoke_all [OF assms] by blast

theorem cap_revoke_correct_witness:
  "\<exists>k' n. cap_revoke 20 (int 1) demo_kernel = Inr (0, k') \<and> caps_inv (\<lambda>_. 0) k' \<and> stale_writes k' = stale_writes demo_kernel \<and>
    kobjs k' = (kobjs demo_kernel)(13 := if (0 :: nat) = 0 then None
      else Some (\<lparr>ob_type = TYPE_PMO, ob_size = 0, refcount = 2\<rparr>\<lparr>refcount := n\<rparr>)) \<and>
    (\<forall>p j. cap_object k' p j = (if cap_object demo_kernel p j = Some 13 then None else cap_object demo_kernel p j))"
  by (rule cap_revoke_correct [OF demo_inv demo_facts(2,4) _ _ demo_facts(11)]) (simp_all add: demo_facts)

text \<open>
  C26: freeing a capability ends, whatever it tears down: with a depth above the number of used slots of
  all processes the recursion through \<^verbatim>\<open>thread_deinit\<close> and \<^verbatim>\<open>process_exit\<close>
  stays within the bound, and no process gains a slot.
\<close>

theorem cap_free_terminates:
  assumes "finite (dom (procs k))" "slot_count k < depth k"
  shows "case cap_free p sid k of Inl e \<Rightarrow> e \<noteq> FUEL | Inr (r, k') \<Rightarrow> slot_count k' \<le> slot_count k"
  using assms by (rule cap_free_outcome)

theorem cap_free_terminates_witness:
  "case cap_free 20 0 demo_kernel of Inl e \<Rightarrow> e \<noteq> FUEL | Inr (r, k') \<Rightarrow> slot_count k' \<le> slot_count demo_kernel"
  by (rule cap_free_terminates) (simp_all add: demo_count demo_facts)

end
