(* ===== verification/Process.thy ===== *)
theory Process
  imports Capability Elf Cpio
begin

text \<open>
  Processes, threads and the capability system calls: the rest of \<^verbatim>\<open>process/process.c\<close> and
  \<^verbatim>\<open>process/thread.c\<close>, the \<^verbatim>\<open>sys_cap_*\<close> functions of \<^verbatim>\<open>process/capability.c\<close>,
  \<^verbatim>\<open>process/thread_env.c\<close> and \<^verbatim>\<open>mm/uaccess.c\<close>. The first argument \<open>cpu\<close> is the CPU
  that runs the system call. Kernel memory that is read and written byte by byte (files, stacks, memory
  objects) is \<open>kdata\<close>, user memory is one memory for each address space; that both may be the same
  pages is not modelled. \<^verbatim>\<open>kfree\<close> of plain buffers has no effect in the model.
\<close>

section \<open>The current thread and user memory\<close>

definition cur_thread :: "nat \<Rightarrow> thread_ptr option kop" where
  "cur_thread cpu k = bindR (arr_get (current_threads (ksch k)) cpu) (\<lambda>t. Inr (t, k))"

definition thread_of :: "thread_ptr \<Rightarrow> nat kop" where
  "thread_of t = (case t of Thr i \<Rightarrow> retK i | Idle _ \<Rightarrow> failK WILD)"

definition cur_kthread :: "nat \<Rightarrow> kthread kop" where
  "cur_kthread cpu = bindK (cur_thread cpu) (\<lambda>t. bindK (liftK (deref t)) (\<lambda>t.
     bindK (thread_of t) (\<lambda>i. derefK (\<lambda>k. kthreads k i))))"

definition cur_process :: "nat \<Rightarrow> nat kop" where
  "cur_process cpu = bindK (cur_kthread cpu) (\<lambda>th. liftK (deref (th_process th)))"

definition cur_space :: "nat \<Rightarrow> nat kop" where
  "cur_space cpu = bindK (cur_thread cpu) (\<lambda>t. bindK (liftK (deref t)) (\<lambda>t.
     derefK (\<lambda>k. thread_vmspace (ksch k) t)))"

definition copy_from_user :: "nat \<Rightarrow> u64 \<Rightarrow> nat \<Rightarrow> u8 list kop" where
  "copy_from_user cpu user_buf sz = seqK (bugK (user_buf \<ge> KBASE)) (
     bindK (cur_space cpu) (\<lambda>v. bindK (getK (\<lambda>k. umem k v)) (\<lambda>m. liftK (rd_bytes m user_buf 0 sz))))"

definition copy_to_user :: "nat \<Rightarrow> u64 \<Rightarrow> u8 list \<Rightarrow> unit kop" where
  "copy_to_user cpu user_buf bs = seqK (bugK (user_buf \<ge> KBASE)) (
     bindK (cur_space cpu) (\<lambda>v. bindK (getK (\<lambda>k. umem k v)) (\<lambda>m.
     bindK (liftK (wr_bytes m user_buf 0 bs)) (\<lambda>m. modK (\<lambda>k. k\<lparr>umem := (umem k)(v := m)\<rparr>)))))"

definition kread :: "u64 \<Rightarrow> nat \<Rightarrow> u8 list kop" where
  "kread a n = bindK (getK kdata) (\<lambda>m. liftK (rd_bytes m a 0 n))"

definition kwrite :: "u64 \<Rightarrow> u8 list \<Rightarrow> unit kop" where
  "kwrite a bs = bindK (getK kdata) (\<lambda>m. bindK (liftK (wr_bytes m a 0 bs)) (\<lambda>m. modK (\<lambda>k. k\<lparr>kdata := m\<rparr>)))"

text \<open>Element \<open>i\<close> of an array of 64-bit and of 32-bit numbers.\<close>

definition u64_at :: "u8 list \<Rightarrow> nat \<Rightarrow> u64" where
  "u64_at bs i = word_rcat (rev (take 8 (drop (8 * i) bs)))"

definition s32_at :: "u8 list \<Rightarrow> nat \<Rightarrow> int" where
  "s32_at bs i = sint (word_rcat (rev (take 4 (drop (4 * i) bs))) :: 32 word)"

fun mapK :: "('a \<Rightarrow> 'b kop) \<Rightarrow> 'a list \<Rightarrow> 'b list kop" where
  "mapK f [] = retK []"
| "mapK f (x # xs) = bindK (f x) (\<lambda>y. bindK (mapK f xs) (\<lambda>ys. retK (y # ys)))"

section \<open>Capability system calls\<close>

definition sys_cap_copy_to :: "nat \<Rightarrow> u64 \<Rightarrow> u64 \<Rightarrow> int kop" where
  "sys_cap_copy_to cpu dest_process_cap src_slot_id =
     bindK (cur_process cpu) (\<lambda>cur.
     bindK (obj_get cur (cint dest_process_cap) TYPE_PROCESS) (\<lambda>dest. case dest of
       None \<Rightarrow> retK (- ECAPBILITY)
     | Some dest_process \<Rightarrow>
         bindK (cap_copy cur dest_process (cint src_slot_id) False 0) (\<lambda>r.
         seqK (obj_put dest) (retK r))))"

definition sys_cap_copy_from :: "nat \<Rightarrow> u64 \<Rightarrow> u64 \<Rightarrow> int kop" where
  "sys_cap_copy_from cpu src_process_cap src_slot_id =
     bindK (cur_process cpu) (\<lambda>cur.
     bindK (obj_get cur (cint src_process_cap) TYPE_PROCESS) (\<lambda>src. case src of
       None \<Rightarrow> retK (- ECAPBILITY)
     | Some src_process \<Rightarrow>
         bindK (cap_copy src_process cur (cint src_slot_id) False 0) (\<lambda>r.
         seqK (obj_put src) (retK r))))"

definition sys_transfer_caps :: "nat \<Rightarrow> u64 \<Rightarrow> u64 \<Rightarrow> int \<Rightarrow> u64 \<Rightarrow> int kop" where
  "sys_transfer_caps cpu dest_group_cap src_caps_buf nr_caps dst_caps_buf =
     bindK (cur_process cpu) (\<lambda>cur.
     bindK (obj_get cur (cint dest_group_cap) TYPE_PROCESS) (\<lambda>dest. case dest of
       None \<Rightarrow> retK (- ECAPBILITY)
     | Some dest_process \<Rightarrow>
         let sz = unat (4 * word_of_int nr_caps :: u64) in
         bindK kmallocK (\<lambda>src_caps.
         bindK kmallocK (\<lambda>dst_caps.
         if src_caps = 0 \<or> dst_caps = 0 then failK WILD
         else
           bindK (copy_from_user cpu src_caps_buf sz) (\<lambda>bs.
           bindK (mapK (\<lambda>i. cap_copy cur dest_process (s32_at bs i) False 0) [0..<nat nr_caps]) (\<lambda>caps.
           seqK (copy_to_user cpu dst_caps_buf (concat (map (\<lambda>c. le_bytes 4 (word_of_int c :: 32 word)) caps))) (
           seqK (obj_put dest) (retK 0))))))))"

definition sys_cap_move :: "nat \<Rightarrow> u64 \<Rightarrow> u64 \<Rightarrow> int kop" where
  "sys_cap_move cpu dest_process_cap src_slot_id =
     bindK (cur_process cpu) (\<lambda>cur.
     bindK (obj_get cur (cint dest_process_cap) TYPE_PROCESS) (\<lambda>dest. case dest of
       None \<Rightarrow> retK (- ECAPBILITY)
     | Some dest_process \<Rightarrow>
         bindK (cap_move cur dest_process (cint src_slot_id) False 0) (\<lambda>r.
         seqK (obj_put dest) (retK r))))"

text \<open>One round of the loop of \<^verbatim>\<open>sys_get_all_caps\<close>, which reads what it prints.\<close>

definition show_cap :: "nat \<Rightarrow> nat \<Rightarrow> unit kop" where
  "show_cap p i = bindK (table_get p (\<lambda>t. get_slot t (int i))) (\<lambda>sl. case sl of
     None \<Rightarrow> retK ()
   | Some sl \<Rightarrow> bindK (derefK (\<lambda>k. kslots k sl)) (\<lambda>slot.
       seqK (bugK (\<not> isvalid slot)) (
       bindK (liftK (deref (sl_object slot))) (\<lambda>ob.
       seqK (derefK (\<lambda>k. kobjs k ob)) (retK ())))))"

definition sys_get_all_caps :: "nat \<Rightarrow> u64 \<Rightarrow> int kop" where
  "sys_get_all_caps cpu process_cap =
     bindK (cur_process cpu) (\<lambda>cur.
     bindK (obj_get cur (cint process_cap) TYPE_PROCESS) (\<lambda>pr. case pr of
       None \<Rightarrow> retK (- ECAPBILITY)
     | Some process \<Rightarrow>
         bindK (table_get process (\<lambda>t. Inr (unat (slots_size t)))) (\<lambda>n.
         seqK (mapK (show_cap process) [0..<n]) (
         seqK (obj_put pr) (retK 0)))))"

section \<open>Creating processes\<close>

definition SIZEOF_PROCESS :: u64 where "SIZEOF_PROCESS = 48"
definition SIZEOF_THREAD :: u64 where "SIZEOF_THREAD = 88"
definition SIZEOF_VMSPACE :: u64 where "SIZEOF_VMSPACE = 40"
definition SIZEOF_PMO :: u64 where "SIZEOF_PMO = 56"

definition process_init :: "nat \<Rightarrow> u32 \<Rightarrow> unit kop" where
  "process_init p sz k = (case slot_table_init sz (kmem (ksch k)) of
     (r, None, m) \<Rightarrow> Inl BUG
   | (r, Some t, m) \<Rightarrow> Inr ((), k\<lparr>procs := (procs k)(p \<mapsto> \<lparr>p_table = t, thread_list = []\<rparr>), ksch := ksch k\<lparr>kmem := m\<rparr>\<rparr>))"

definition vmspace_init_of :: "nat \<Rightarrow> unit kop" where
  "vmspace_init_of v k = bindR (vmspace_init (kmm k)) (\<lambda>(r, vs, mm).
     Inr ((), k\<lparr>vspaces := (vspaces k)(v \<mapsto> vs), kmm := mm\<rparr>))"

definition vmspace_map_range_of :: "nat \<Rightarrow> u64 \<Rightarrow> u64 \<Rightarrow> u64 \<Rightarrow> nat \<Rightarrow> int kop" where
  "vmspace_map_range_of v va len flags pmo k = bindR (deref (vspaces k v)) (\<lambda>vs.
     bindR (vmspace_map_range vs va len flags pmo (kmm k)) (\<lambda>(r, vs, mm).
     Inr (r, k\<lparr>vspaces := (vspaces k)(v \<mapsto> vs), kmm := mm\<rparr>)))"

text \<open>
  \<^verbatim>\<open>pmo_init\<close>, with its allocations: the data of a \<^verbatim>\<open>PMO_DATA\<close> object (NULL is not
  noticed), or a radix tree and its root.
\<close>

definition pmo_init_of :: "nat \<Rightarrow> u64 \<Rightarrow> u64 \<Rightarrow> u64 \<Rightarrow> unit kop" where
  "pmo_init_of pmo type len paddr =
     (let set = (\<lambda>p. modK (\<lambda>k. k\<lparr>kmm := kmm k\<lparr>pmos := (pmos (kmm k))(pmo \<mapsto> p)\<rparr>\<rparr>));
          no_radix = \<lparr>root = 0, value_deleter = 0\<rparr> in
      if type = PMO_DATA then bindK kmallocK (\<lambda>buf. set (pmo_init type len paddr (of_nat buf) no_radix))
      else if type = PMO_DEVICE then set (pmo_init type len paddr 0 no_radix)
      else
        bindK kmallocK (\<lambda>radix.
        seqK (bugK (radix = 0)) (
        bindK (\<lambda>k. bindR (init_radix (krad k)) (\<lambda>(r, h). Inr (r, k\<lparr>krad := h\<rparr>))) (\<lambda>r.
        set (pmo_init type len paddr 0 r)))))"

definition process_create :: "nat option kop" where
  "process_create =
     bindK kmallocK (\<lambda>object.
     if object = 0 then retK None
     else
       seqK (modK (\<lambda>k. k\<lparr>kobjs := (kobjs k)(object \<mapsto> \<lparr>ob_type = TYPE_PROCESS, ob_size = SIZEOF_PROCESS, refcount = 1\<rparr>)\<rparr>)) (
       seqK (process_init object (ucast BASE_OBJECT_NUM)) (
       bindK (alloc_slot_id_of object) (\<lambda>sid.
       seqK (bugK (sid \<noteq> PROCESS_OBJ_ID)) (
       bindK kmallocK (\<lambda>slot.
       if slot = 0 then failK WILD
       else
         seqK (modK (\<lambda>k. k\<lparr>kslots := (kslots k)(slot \<mapsto> \<lparr>slot_id = sid, sl_process = object, isvalid = True,
              sl_rights = 0, sl_object = Some object\<rparr>), copies := (copies k)(object := Headless [slot])\<rparr>)) (
         seqK (upd_table object (\<lambda>t. bindR (arr_set (st_slots t) (nat sid) (Some slot)) (\<lambda>xs. Inr (t\<lparr>st_slots := xs\<rparr>)))) (
         bindK (obj_alloc TYPE_VMSPACE SIZEOF_VMSPACE) (\<lambda>v.
         seqK (bugK (v = None)) (
         bindK (liftK (deref v)) (\<lambda>vmspace.
         seqK (vmspace_init_of vmspace) (
         bindK (cap_alloc object vmspace 0) (\<lambda>sid.
         seqK (bugK (sid \<noteq> VMSPACE_OBJ_ID)) (retK (Some object)))))))))))))))"

definition sys_create_process :: "nat \<Rightarrow> int kop" where
  "sys_create_process cpu =
     bindK (obj_alloc TYPE_PROCESS SIZEOF_PROCESS) (\<lambda>np. case np of
       None \<Rightarrow> retK (- ENOMEM)
     | Some new_process \<Rightarrow>
         seqK (process_init new_process (ucast BASE_OBJECT_NUM)) (
         bindK (cur_process cpu) (\<lambda>cur.
         bindK (cap_alloc cur new_process 0) (\<lambda>cap.
         if cap < 0 then seqK (obj_free np) (retK cap)
         else
           bindK (cap_copy cur new_process cap False 0) (\<lambda>c0.
           if c0 \<noteq> PROCESS_OBJ_ID then seqK (cap_free cur cap) (seqK (obj_free None) (retK (- 1)))
           else
             bindK (obj_alloc TYPE_VMSPACE SIZEOF_VMSPACE) (\<lambda>v. case v of
               None \<Rightarrow> seqK (obj_free None) (seqK (cap_free cur cap) (seqK (obj_free None) (retK (- ENOMEM))))
             | Some vmspace \<Rightarrow>
                 seqK (vmspace_init_of vmspace) (
                 bindK (cap_alloc new_process vmspace 0) (\<lambda>r.
                 if r < 0 then seqK (obj_free v) (seqK (cap_free cur cap) (seqK (obj_free None) (retK r)))
                 else seqK (bugK (r \<noteq> VMSPACE_OBJ_ID)) (retK cap)))))))))"

section \<open>Threads\<close>

definition thread_init :: "nat \<Rightarrow> nat \<Rightarrow> u64 \<Rightarrow> u64 \<Rightarrow> u32 \<Rightarrow> thread_type \<Rightarrow> s32 \<Rightarrow> int kop" where
  "thread_init thread process stack pc prio type aff =
     bindK (obj_get process PROCESS_OBJ_ID TYPE_PROCESS) (\<lambda>tp.
     bindK (obj_get process VMSPACE_OBJ_ID TYPE_VMSPACE) (\<lambda>tv.
     seqK (modK (\<lambda>k. k\<lparr>kthreads := (kthreads k)(thread \<mapsto> \<lparr>th_process = tp, active_conn = None, server_config = None\<rparr>),
        ksch := ksch k\<lparr>thread_vmspace := (thread_vmspace (ksch k))(Thr thread := tv)\<rparr>\<rparr>)) (
     seqK (obj_put tp) (
     seqK (obj_put tv) (
     bindK (schK (\<lambda>s. Inr (create_thread_ctx s))) (\<lambda>ctx.
     seqK (schU (\<lambda>s. Inr (s\<lparr>ctxs := (ctxs s)(Thr thread := ctx)\<rparr>))) (
     if ctx = None then retK (- ENOMEM)
     else
       seqK (schU (init_thread_ctx (Thr thread) stack pc prio type aff)) (
       bindK (derefK (\<lambda>k. procs k process)) (\<lambda>q.
       seqK (modK (\<lambda>k. k\<lparr>procs := (procs k)(process \<mapsto> q\<lparr>thread_list := thread # thread_list q\<rparr>)\<rparr>))
       (retK 0))))))))))"

definition thread_create :: "nat \<Rightarrow> nat option \<Rightarrow> u64 \<Rightarrow> u64 \<Rightarrow> u64 \<Rightarrow> u32 \<Rightarrow> thread_type \<Rightarrow> s32 \<Rightarrow> int kop" where
  "thread_create cpu proc stack pc arg prio type aff = (case proc of
     None \<Rightarrow> retK (- ECAPBILITY)
   | Some process \<Rightarrow>
       bindK (obj_alloc TYPE_THREAD SIZEOF_THREAD) (\<lambda>th. case th of
         None \<Rightarrow> seqK (obj_put proc) (retK (- ENOMEM))
       | Some thread \<Rightarrow>
           bindK (thread_init thread process stack pc prio type aff) (\<lambda>ret.
           if ret \<noteq> 0 then seqK (obj_free th) (seqK (obj_put proc) (retK ret))
           else
             seqK (schU (arch_set_thread_arg (Thr thread) arg)) (
             bindK (cap_alloc process thread 0) (\<lambda>cap.
             if cap < 0 then seqK (obj_free th) (seqK (obj_put proc) (retK cap))
             else
               bindK (cur_process cpu) (\<lambda>cur.
               bindK (cap_copy process cur cap False 0) (\<lambda>cap.
               seqK (if type = TYPE_USER then
                       bindK (schK (rr_sched_enqueue cpu (Some (Thr thread)))) (\<lambda>ret. bugK (ret \<noteq> 0))
                     else retK ())
               (retK cap))))))))"

definition sys_create_thread :: "nat \<Rightarrow> u64 \<Rightarrow> u64 \<Rightarrow> u64 \<Rightarrow> u64 \<Rightarrow> u32 \<Rightarrow> s32 \<Rightarrow> int kop" where
  "sys_create_thread cpu process_cap stack pc arg prio aff =
     bindK (cur_process cpu) (\<lambda>cur.
     bindK (obj_get cur (cint process_cap) TYPE_PROCESS) (\<lambda>process.
     bindK (thread_create cpu process stack pc arg prio TYPE_USER aff) (\<lambda>thread_cap.
     seqK (obj_put process) (retK thread_cap))))"

text \<open>
  \<^verbatim>\<open>sys_exit\<close>; a thread that is no object (idle or shadow) has no object header in front of it.
  The result is the thread and address space that run next.
\<close>

definition sys_exit :: "nat \<Rightarrow> int \<Rightarrow> (thread_ptr \<times> nat option) kop" where
  "sys_exit cpu ret =
     bindK (cur_thread cpu) (\<lambda>t. bindK (liftK (deref t)) (\<lambda>target.
     seqK (schU (upd_ctx target (\<lambda>c. c\<lparr>t_state := TS_EXIT\<rparr>))) (
     bindK (thread_of target) (\<lambda>i.
     seqK (obj_free (Some i)) (
     seqK (schU (\<lambda>s. bindR (arr_set (current_threads s) cpu None) (\<lambda>cur. Inr (s\<lparr>current_threads := cur\<rparr>)))) (
     seqK (schK (rr_sched cpu))
     (bindK (getK ksch) (\<lambda>s. liftK (switch_context cpu s)))))))))"

text \<open>The thread that a system call names; -1 is the current one. The flag tells whether a reference was taken.\<close>

definition affinity_thread :: "nat \<Rightarrow> u64 \<Rightarrow> (thread_ptr option \<times> bool) kop" where
  "affinity_thread cpu thread_cap =
     (if thread_cap = - 1 then bindK (cur_thread cpu) (\<lambda>t. retK (t, False))
      else
        bindK (cur_process cpu) (\<lambda>cur.
        bindK (obj_get cur (cint thread_cap) TYPE_THREAD) (\<lambda>th. retK (map_option Thr th, True))))"

definition put_thread :: "thread_ptr option \<Rightarrow> bool \<Rightarrow> unit kop" where
  "put_thread t taken = (if taken then (case t of None \<Rightarrow> obj_put None
     | Some t \<Rightarrow> bindK (thread_of t) (\<lambda>i. obj_put (Some i))) else retK ())"

definition sys_set_affinity :: "nat \<Rightarrow> u64 \<Rightarrow> s32 \<Rightarrow> int kop" where
  "sys_set_affinity cpu thread_cap aff =
     bindK (affinity_thread cpu thread_cap) (\<lambda>(thread, taken).
     bindK (schK (set_affinity_of thread aff)) (\<lambda>r.
     if thread = None then retK r
     else seqK (put_thread thread taken) (retK r)))"

definition sys_get_affinity :: "nat \<Rightarrow> u64 \<Rightarrow> int kop" where
  "sys_get_affinity cpu thread_cap =
     bindK (affinity_thread cpu thread_cap) (\<lambda>(thread, taken).
     bindK (getK ksch) (\<lambda>s.
     bindK (liftK (get_affinity_of thread s)) (\<lambda>r.
     seqK (put_thread thread taken) (retK r))))"

end
