(* ===== verification/Loader.thy ===== *)
theory Loader
  imports Process
begin

text \<open>
  Starting a program: \<^verbatim>\<open>load_binary\<close> and \<^verbatim>\<open>thread_create_main\<close> of
  \<^verbatim>\<open>process/thread.c\<close>, the initial stack (\<^verbatim>\<open>process/thread_env.c\<close>) and the root
  process (\<^verbatim>\<open>process/process.c\<close>). The instruction cache flush is not modelled.
\<close>

section \<open>The initial stack\<close>

record process_metadata =
  phdr_addr :: u64
  phentsize :: u64
  phnum :: u64
  md_flags :: u64
  md_entry :: u64

definition ENV_SIZE_ON_STACK :: u64 where "ENV_SIZE_ON_STACK = 0x1000"

definition AT_NULL :: u64 where "AT_NULL = 0"
definition AT_PHDR :: u64 where "AT_PHDR = 3"
definition AT_PHENT :: u64 where "AT_PHENT = 4"
definition AT_PHNUM :: u64 where "AT_PHNUM = 5"
definition AT_PAGESZ :: u64 where "AT_PAGESZ = 6"
definition AT_FLAGS :: u64 where "AT_FLAGS = 8"
definition AT_ENTRY :: u64 where "AT_ENTRY = 9"
definition AT_UID :: u64 where "AT_UID = 11"
definition AT_EUID :: u64 where "AT_EUID = 12"
definition AT_GID :: u64 where "AT_GID = 13"
definition AT_EGID :: u64 where "AT_EGID = 14"
definition AT_PLATFORM :: u64 where "AT_PLATFORM = 15"
definition AT_HWCAP :: u64 where "AT_HWCAP = 16"
definition AT_CLKTCK :: u64 where "AT_CLKTCK = 17"
definition AT_SECURE :: u64 where "AT_SECURE = 23"
definition AT_RANDOM :: u64 where "AT_RANDOM = 25"

lemmas auxv_defs = AT_NULL_def AT_PHDR_def AT_PHENT_def AT_PHNUM_def AT_PAGESZ_def AT_FLAGS_def AT_ENTRY_def
  AT_UID_def AT_EUID_def AT_GID_def AT_EGID_def AT_PLATFORM_def AT_HWCAP_def AT_CLKTCK_def AT_SECURE_def AT_RANDOM_def

definition PLAT :: "u8 list" where
  "PLAT = [0x61, 0x61, 0x72, 0x63, 0x68, 0x36, 0x34]"

text \<open>The words that are stored from \<^verbatim>\<open>buf\<close> on.\<close>

definition env_words :: "u64 \<Rightarrow> process_metadata \<Rightarrow> u64 list" where
  "env_words top_vaddr meta =
     [1, top_vaddr - 64, 0, 0,
      AT_SECURE, 0, AT_PAGESZ, 0x1000, AT_PHDR, phdr_addr meta, AT_PHENT, phentsize meta,
      AT_PHNUM, phnum meta, AT_FLAGS, md_flags meta, AT_ENTRY, md_entry meta,
      AT_UID, 1000, AT_EUID, 1000, AT_GID, 1000, AT_EGID, 1000, AT_CLKTCK, 100, AT_HWCAP, 0,
      AT_PLATFORM, top_vaddr - 64 * 2, AT_RANDOM, top_vaddr - 64, AT_NULL, 0]"

text \<open>The name is copied up to its end, whatever its length.\<close>

definition prepare_env :: "u64 \<Rightarrow> u64 \<Rightarrow> process_metadata \<Rightarrow> u8 list \<Rightarrow> mem \<Rightarrow> mem res" where
  "prepare_env env top_vaddr meta name m =
     (let env = env - ENV_SIZE_ON_STACK in
      bindR (wr_bytes m env 0 (replicate 0x1000 0)) (\<lambda>m.
      bindR (wr_bytes m (env + 0x1000 - 64) 0 name) (\<lambda>m.
      bindR (wr_bytes m (env + 0x1000 - 2 * 64) 0 PLAT) (\<lambda>m.
      wr_bytes m env 0 (concat (map (le_bytes 8) (env_words top_vaddr meta)))))))"

section \<open>Loading segments\<close>

definition PT_LOAD :: u32 where "PT_LOAD = 1"
definition PF_X :: u32 where "PF_X = 1"
definition PF_W :: u32 where "PF_W = 2"
definition PF_R :: u32 where "PF_R = 4"

definition PFLAGS2VMRFLAGS :: "u32 \<Rightarrow> u64" where
  "PFLAGS2VMRFLAGS pf = (if pf AND PF_X \<noteq> 0 then VMR_EXEC else 0) OR
     (if pf AND PF_W \<noteq> 0 then VMR_WRITE else 0) OR (if pf AND PF_R \<noteq> 0 then VMR_READ else 0)"

definition pmo_of :: "nat \<Rightarrow> pmobject kop" where
  "pmo_of pmo = derefK (\<lambda>k. pmos (kmm k) pmo)"

text \<open>A segment of type \<^verbatim>\<open>PT_LOAD\<close>; the result is its capability, or the error and what has to be undone.\<close>

definition load_segment :: "nat \<Rightarrow> nat \<Rightarrow> u64 \<Rightarrow> elf_program_header \<Rightarrow> (int + int) kop" where
  "load_segment process vmspace bin ph =
     (let seg_sz = ph_memsz ph; p_vaddr = ph_vaddr ph;
          seg_map_sz = ROUND_UP (seg_sz + p_vaddr) PAGE_SIZE - ROUND_DOWN p_vaddr PAGE_SIZE in
      bindK (obj_alloc TYPE_PMO SIZEOF_PMO) (\<lambda>po. case po of
        None \<Rightarrow> retK (Inl (- ENOMEM))
      | Some pmo \<Rightarrow>
          seqK (pmo_init_of pmo PMO_DATA seg_map_sz 0) (
          bindK (cap_alloc process pmo 0) (\<lambda>cap.
          if cap < 0 then seqK (obj_free po) (retK (Inl cap))
          else
            bindK (pmo_of pmo) (\<lambda>p.
            bindK (kread (bin + ph_offset ph) (unat (ph_filesz ph))) (\<lambda>bs.
            seqK (kwrite (phys_to_virt (pmo_start p) + (p_vaddr - ROUND_DOWN p_vaddr PAGE_SIZE)) bs) (
            bindK (vmspace_map_range_of vmspace (ROUND_DOWN p_vaddr PAGE_SIZE) seg_map_sz (PFLAGS2VMRFLAGS (ph_flags ph)) pmo) (\<lambda>ret.
            seqK (bugK (ret \<noteq> 0)) (retK (Inr cap))))))))))"

text \<open>The loop, with the capabilities of the earlier segments in reverse order (-1 for those that are not loaded).\<close>

fun load_segments :: "nat \<Rightarrow> nat \<Rightarrow> u64 \<Rightarrow> int list \<Rightarrow> elf_program_header list \<Rightarrow> (int \<times> int list + unit) kop" where
  "load_segments process vmspace bin caps [] = retK (Inr ())"
| "load_segments process vmspace bin caps (ph # phs) =
     (if ph_type ph = PT_LOAD then
        bindK (load_segment process vmspace bin ph) (\<lambda>r. case r of
          Inl err \<Rightarrow> retK (Inl (err, caps))
        | Inr cap \<Rightarrow> load_segments process vmspace bin (cap # caps) phs)
      else load_segments process vmspace bin (- 1 # caps) phs)"

text \<open>
  The result is the entry point, or the error number converted to an address, and the metadata, which
  are written only on success. A pointer from \<^verbatim>\<open>elf_parse_file\<close> that encodes an error is followed.
\<close>

definition load_binary :: "nat \<Rightarrow> nat \<Rightarrow> u64 \<Rightarrow> (u64 \<times> process_metadata option) kop" where
  "load_binary process vmspace bin =
     bindK (\<lambda>k. bindR (elf_parse_file (kdata k) bin (kmem (ksch k))) (\<lambda>(r, m).
        Inr (r, k\<lparr>ksch := ksch k\<lparr>kmem := m\<rparr>\<rparr>))) (\<lambda>r. case r of
       Inl err \<Rightarrow> failK WILD
     | Inr elf \<Rightarrow>
         bindK kmallocK (\<lambda>pmo_cap.
         if pmo_cap = 0 then retK (word_of_int (- ENOMEM), None)
         else
           bindK (load_segments process vmspace bin [] (ef_p_headers elf)) (\<lambda>r. case r of
             Inl (err, caps) \<Rightarrow>
               seqK (mapK (\<lambda>c. if c \<noteq> 0 then cap_free process c else retK 0) caps)
               (retK (word_of_int err, None))
           | Inr _ \<Rightarrow>
               bindK (liftK (arr_get (ef_p_headers elf) 0)) (\<lambda>ph0.
               let h = ef_header elf in
               retK (e_entry h, Some \<lparr>phdr_addr = ph_vaddr ph0 + e_phoff h, phentsize = ucast (e_phentsize h),
                 phnum = ucast (e_phnum h), md_flags = ucast (e_flags h), md_entry = e_entry h\<rparr>)))))"

text \<open>\<open>stale\<close> stands for the contents of \<^verbatim>\<open>meta\<close> when \<^verbatim>\<open>load_binary\<close> did not write it.\<close>

definition thread_create_main ::
  "process_metadata \<Rightarrow> nat \<Rightarrow> u64 \<Rightarrow> u64 \<Rightarrow> u32 \<Rightarrow> thread_type \<Rightarrow> s32 \<Rightarrow> u64 \<Rightarrow> u8 list \<Rightarrow> int kop" where
  "thread_create_main stale process stack_base stack_sz prio type aff bin_start bin_name =
     bindK (obj_get process VMSPACE_OBJ_ID TYPE_VMSPACE) (\<lambda>init_vmspace.
     seqK (obj_put init_vmspace) (
     bindK (obj_alloc TYPE_PMO SIZEOF_PMO) (\<lambda>sp. case sp of
       None \<Rightarrow> retK (- ENOMEM)
     | Some stack_pmo \<Rightarrow>
         seqK (pmo_init_of stack_pmo PMO_DATA stack_sz 0) (
         bindK (cap_alloc process stack_pmo 0) (\<lambda>stack_pmo_cap.
         if stack_pmo_cap < 0 then seqK (obj_free sp) (retK stack_pmo_cap)
         else
           bindK (liftK (deref init_vmspace)) (\<lambda>vmspace.
           bindK (vmspace_map_range_of vmspace stack_base stack_sz (VMR_READ OR VMR_WRITE) stack_pmo) (\<lambda>ret.
           seqK (bugK (ret \<noteq> 0)) (
           bindK (obj_alloc TYPE_THREAD SIZEOF_THREAD) (\<lambda>th. case th of
             None \<Rightarrow> seqK (cap_free process stack_pmo_cap) (seqK (obj_free None) (retK (- ENOMEM)))
           | Some thread \<Rightarrow>
               let stack = stack_base + stack_sz in
               bindK (load_binary process vmspace bin_start) (\<lambda>(pc, meta).
               bindK (pmo_of stack_pmo) (\<lambda>p.
               seqK (bindK (getK kdata) (\<lambda>m. bindK (liftK (prepare_env (phys_to_virt (pmo_start p) + stack_sz) stack
                       (case meta of None \<Rightarrow> stale | Some md \<Rightarrow> md) bin_name m)) (\<lambda>m. modK (\<lambda>k. k\<lparr>kdata := m\<rparr>)))) (
               bindK (thread_init thread process (stack - ENV_SIZE_ON_STACK) pc prio type aff) (\<lambda>ret.
               seqK (bugK (ret \<noteq> 0)) (
               bindK (cap_alloc process thread 0) (\<lambda>thread_cap.
               if thread_cap < 0
               then seqK (obj_free th) (seqK (cap_free process stack_pmo_cap) (seqK (obj_free None) (retK thread_cap)))
               else retK thread_cap)))))))))))))))"

section \<open>The root process\<close>

text \<open>\<open>n\<close> bounds the entries of the archive at \<open>start\<close> (\<^verbatim>\<open>binary_cpio_bin_start\<close>). Errors come back as pointers.\<close>

definition cpio_cb_file :: "u64 \<Rightarrow> u64 \<Rightarrow> u64 kop" where
  "cpio_cb_file start sz = bindK kmallocK (\<lambda>buff.
     if buff = 0 then retK (ERR_PTR (- ENOMEM))
     else bindK (kread start (unat sz)) (\<lambda>bs. seqK (kwrite (of_nat buff) bs) (retK (of_nat buff))))"

definition ramdisk_read_file :: "nat \<Rightarrow> u64 \<Rightarrow> u8 list \<Rightarrow> (int \<times> u64) kop" where
  "ramdisk_read_file n start path k =
     (case path of [] \<Rightarrow> Inl WILD | _ # target \<Rightarrow>
      (case single_loop n (kdata k) start target of
         None \<Rightarrow> Inl FUEL
       | Some (Inl e) \<Rightarrow> Inl e
       | Some (Inr None) \<Rightarrow> Inr ((0, ERR_PTR (- ENOENT)), k)
       | Some (Inr (Some (p, sz))) \<Rightarrow> bindR (cpio_cb_file p sz k) (\<lambda>(buf, k). Inr ((0, buf), k))))"

definition ROOT_THREAD_STACK_BASE :: u64 where "ROOT_THREAD_STACK_BASE = 0x8000000"
definition ROOT_THREAD_STACK_SIZE :: u64 where "ROOT_THREAD_STACK_SIZE = 0x10000"
definition ROOT_THREAD_PRIO :: u32 where "ROOT_THREAD_PRIO = 254"

definition process_create_root :: "process_metadata \<Rightarrow> nat \<Rightarrow> u64 \<Rightarrow> nat \<Rightarrow> u8 list \<Rightarrow> unit kop" where
  "process_create_root stale n start cpu bin_name =
     bindK (ramdisk_read_file n start bin_name) (\<lambda>(ret, binary).
     seqK (bugK (ret < 0)) (
     seqK (bugK (binary = 0)) (
     bindK process_create (\<lambda>rp.
     bindK (liftK (deref rp)) (\<lambda>root_process.
     bindK (thread_create_main stale root_process ROOT_THREAD_STACK_BASE ROOT_THREAD_STACK_SIZE ROOT_THREAD_PRIO
       TYPE_ROOT (of_nat cpu) binary bin_name) (\<lambda>thread_cap.
     bindK (obj_get root_process thread_cap TYPE_THREAD) (\<lambda>root_thread.
     bindK (schK (rr_sched_enqueue cpu (map_option Thr root_thread))) (\<lambda>r.
     seqK (bugK (r \<noteq> 0))
     (obj_put root_thread)))))))))"

end
