(* ===== verification/VmSyscall.thy ===== *)
theory VmSyscall
  imports Loader
begin

text \<open>
  The system calls on memory objects and address spaces: \<^verbatim>\<open>mm/vm_syscall.c\<close>.
\<close>

section \<open>Creating memory objects\<close>

definition create_pmo :: "nat \<Rightarrow> u64 \<Rightarrow> u64 \<Rightarrow> u64 \<Rightarrow> int kop" where
  "create_pmo cpu sz type paddr =
     seqK (bugK (sz = 0)) (
     bindK (obj_alloc TYPE_PMO SIZEOF_PMO) (\<lambda>po. case po of
       None \<Rightarrow> retK (- ENOMEM)
     | Some pmo \<Rightarrow>
         seqK (pmo_init_of pmo type sz paddr) (
         bindK (cur_process cpu) (\<lambda>cur.
         bindK (cap_alloc cur pmo 0) (\<lambda>cap.
         if cap < 0 then seqK (obj_free po) (retK cap) else retK cap)))))"

definition sys_create_device_pmo :: "nat \<Rightarrow> u64 \<Rightarrow> u64 \<Rightarrow> int kop" where
  "sys_create_device_pmo cpu paddr sz = create_pmo cpu sz PMO_DEVICE paddr"

definition sys_create_pmo :: "nat \<Rightarrow> u64 \<Rightarrow> u64 \<Rightarrow> int kop" where
  "sys_create_pmo cpu sz type = create_pmo cpu sz type 0"

definition MAX_CNT :: u64 where "MAX_CNT = 32"

text \<open>A request has three words; the last one receives the result. The results of \<^verbatim>\<open>int\<close> are sign-extended.\<close>

definition create_request :: "nat \<Rightarrow> u8 list \<Rightarrow> nat \<Rightarrow> u8 list kop" where
  "create_request cpu reqs i =
     bindK (sys_create_pmo cpu (u64_at reqs (3 * i)) (u64_at reqs (3 * i + 1))) (\<lambda>cap.
     retK (take 16 (drop (24 * i) reqs) @ le_bytes 8 (word_of_int cap :: u64)))"

definition sys_create_pmos :: "nat \<Rightarrow> u64 \<Rightarrow> u64 \<Rightarrow> int kop" where
  "sys_create_pmos cpu user_buf cnt =
     (if cnt > MAX_CNT then retK (- EINVAL)
      else
        bindK kmallocK (\<lambda>requests.
        if requests = 0 then retK (- EAGAIN)
        else
          bindK (copy_from_user cpu user_buf (24 * unat cnt)) (\<lambda>reqs.
          bindK (mapK (create_request cpu reqs) [0..<unat cnt]) (\<lambda>rs.
          seqK (copy_to_user cpu user_buf (concat rs)) (retK 0)))))"

section \<open>Reading and writing memory objects\<close>

definition WRITE_PMO :: u64 where "WRITE_PMO = 0"
definition READ_PMO :: u64 where "READ_PMO = 1"

definition read_write_pmo :: "nat \<Rightarrow> u64 \<Rightarrow> u64 \<Rightarrow> u64 \<Rightarrow> u64 \<Rightarrow> u64 \<Rightarrow> int kop" where
  "read_write_pmo cpu pmo_cap offset user_buf sz type =
     bindK (cur_process cpu) (\<lambda>cur.
     bindK (obj_get cur (cint pmo_cap) TYPE_PMO) (\<lambda>po. case po of
       None \<Rightarrow> retK (- ECAPBILITY)
     | Some pmo \<Rightarrow>
         bindK (pmo_of pmo) (\<lambda>p.
         bindK (if pmo_type p \<noteq> PMO_DATA then retK (- EINVAL)
                else if offset + sz < offset \<or> offset + sz > pmo_size p then retK (- EINVAL)
                else if type = WRITE_PMO then
                  bindK (copy_from_user cpu user_buf (unat sz)) (\<lambda>bs.
                  seqK (kwrite (phys_to_virt (pmo_start p) + offset) bs) (retK 0))
                else if type = READ_PMO then
                  bindK (kread (phys_to_virt (pmo_start p) + offset) (unat sz)) (\<lambda>bs.
                  seqK (copy_to_user cpu user_buf bs) (retK 0))
                else failK BUG) (\<lambda>r.
         seqK (obj_put po) (retK r)))))"

definition sys_write_pmo :: "nat \<Rightarrow> u64 \<Rightarrow> u64 \<Rightarrow> u64 \<Rightarrow> u64 \<Rightarrow> int kop" where
  "sys_write_pmo cpu pmo_cap offset user_ptr len = read_write_pmo cpu pmo_cap offset user_ptr len WRITE_PMO"

definition sys_read_pmo :: "nat \<Rightarrow> u64 \<Rightarrow> u64 \<Rightarrow> u64 \<Rightarrow> u64 \<Rightarrow> int kop" where
  "sys_read_pmo cpu pmo_cap offset user_ptr len = read_write_pmo cpu pmo_cap offset user_ptr len READ_PMO"

section \<open>Mapping\<close>

definition vmspace_unmap_range_of :: "nat \<Rightarrow> u64 \<Rightarrow> u64 \<Rightarrow> int kop" where
  "vmspace_unmap_range_of v va len k = bindR (deref (vspaces k v)) (\<lambda>vs.
     bindR (vmspace_unmap_range vs va len (kmm k)) (\<lambda>(r, vs, mm).
     Inr (r, k\<lparr>vspaces := (vspaces k)(v \<mapsto> vs), kmm := mm\<rparr>)))"

definition sys_map_pmo :: "nat \<Rightarrow> u64 \<Rightarrow> u64 \<Rightarrow> u64 \<Rightarrow> u64 \<Rightarrow> int kop" where
  "sys_map_pmo cpu target_process_cap pmo_cap addr perm =
     bindK (cur_process cpu) (\<lambda>cur.
     bindK (obj_get cur (cint pmo_cap) TYPE_PMO) (\<lambda>po. case po of
       None \<Rightarrow> retK (- ECAPBILITY)
     | Some pmo \<Rightarrow>
         bindK (obj_get cur (cint target_process_cap) TYPE_PROCESS) (\<lambda>tp. case tp of
           None \<Rightarrow> seqK (obj_put po) (retK (- ECAPBILITY))
         | Some target_process \<Rightarrow>
             bindK (obj_get target_process VMSPACE_OBJ_ID TYPE_VMSPACE) (\<lambda>vp.
             seqK (bugK (vp = None)) (
             bindK (liftK (deref vp)) (\<lambda>vmspace.
             bindK (pmo_of pmo) (\<lambda>p.
             bindK (vmspace_map_range_of vmspace addr (pmo_size p) perm pmo) (\<lambda>r.
             bindK (if r \<noteq> 0 then retK (- EPERM)
                    else if target_process \<noteq> cur then cap_copy cur target_process (cint pmo_cap) False 0
                    else retK 0) (\<lambda>r.
             seqK (obj_put vp) (seqK (obj_put tp) (seqK (obj_put po) (retK r))))))))))))"

text \<open>A request has four words; the last one receives the result.\<close>

definition map_request :: "nat \<Rightarrow> u64 \<Rightarrow> u8 list \<Rightarrow> nat \<Rightarrow> u8 list kop" where
  "map_request cpu target_process_cap reqs i =
     bindK (sys_map_pmo cpu target_process_cap (u64_at reqs (4 * i)) (u64_at reqs (4 * i + 1)) (u64_at reqs (4 * i + 2))) (\<lambda>ret.
     retK (take 24 (drop (32 * i) reqs) @ le_bytes 8 (word_of_int ret :: u64)))"

definition sys_map_pmos :: "nat \<Rightarrow> u64 \<Rightarrow> u64 \<Rightarrow> u64 \<Rightarrow> int kop" where
  "sys_map_pmos cpu target_process_cap user_buf cnt =
     (if cnt > MAX_CNT then retK (- EINVAL)
      else
        bindK kmallocK (\<lambda>requests.
        if requests = 0 then retK (- EAGAIN)
        else
          bindK (copy_from_user cpu user_buf (32 * unat cnt)) (\<lambda>reqs.
          bindK (mapK (map_request cpu target_process_cap reqs) [0..<unat cnt]) (\<lambda>rs.
          seqK (copy_to_user cpu user_buf (concat rs)) (retK 0)))))"

definition sys_unmap_pmo :: "nat \<Rightarrow> u64 \<Rightarrow> u64 \<Rightarrow> u64 \<Rightarrow> int kop" where
  "sys_unmap_pmo cpu target_process_cap pmo_cap addr =
     bindK (cur_process cpu) (\<lambda>cur.
     bindK (obj_get cur (cint pmo_cap) TYPE_PMO) (\<lambda>po. case po of
       None \<Rightarrow> retK (- EPERM)
     | Some pmo \<Rightarrow>
         bindK (obj_get cur (cint target_process_cap) TYPE_PROCESS) (\<lambda>tp. case tp of
           None \<Rightarrow> seqK (obj_put po) (retK (- EPERM))
         | Some target_process \<Rightarrow>
             bindK (obj_get target_process VMSPACE_OBJ_ID TYPE_VMSPACE) (\<lambda>vp. case vp of
               None \<Rightarrow> seqK (obj_put tp) (seqK (obj_put po) (retK (- EPERM)))
             | Some vmspace \<Rightarrow>
                 bindK (pmo_of pmo) (\<lambda>p.
                 bindK (vmspace_unmap_range_of vmspace addr (pmo_size p)) (\<lambda>ret.
                 seqK (obj_put vp) (seqK (obj_put tp) (seqK (obj_put po)
                 (retK (if ret \<noteq> 0 then - EPERM else ret))))))))))"

section \<open>The heap\<close>

text \<open>
  The first call makes an empty heap; it keeps its reference to the address space, and on its error
  paths it leaves the memory object behind.
\<close>

definition brk_init :: "nat \<Rightarrow> nat \<Rightarrow> u64 kop" where
  "brk_init cpu vmspace =
     bindK (obj_alloc TYPE_PMO SIZEOF_PMO) (\<lambda>po. case po of
       None \<Rightarrow> seqK (obj_put (Some vmspace)) (retK (word_of_int (- ENOMEM)))
     | Some pmo \<Rightarrow>
         seqK (pmo_init_of pmo PMO_ANONYM 0 0) (
         bindK (cur_process cpu) (\<lambda>cur.
         bindK (cap_alloc cur pmo 0) (\<lambda>pmo_cap.
         if pmo_cap < 0 then seqK (obj_put (Some vmspace)) (retK (word_of_int pmo_cap))
         else
           bindK (derefK (\<lambda>k. vspaces k vmspace)) (\<lambda>vs.
           bindK (\<lambda>k. bindR (init_heap_vmr vs (user_current_heap vs) pmo (kmm k)) (\<lambda>(h, vs, mm).
               Inr (h, k\<lparr>vspaces := (vspaces k)(vmspace \<mapsto> vs), kmm := mm\<rparr>))) (\<lambda>h.
           if h = None then seqK (obj_put (Some vmspace)) (retK (word_of_int (- EINVAL)))
           else
             bindK (derefK (\<lambda>k. vspaces k vmspace)) (\<lambda>vs.
             seqK (modK (\<lambda>k. k\<lparr>vspaces := (vspaces k)(vmspace \<mapsto> vs\<lparr>heap_vmr := h\<rparr>)\<rparr>))
             (retK (user_current_heap vs)))))))))"

definition sys_handle_brk :: "nat \<Rightarrow> u64 \<Rightarrow> u64 kop" where
  "sys_handle_brk cpu addr =
     bindK (cur_process cpu) (\<lambda>cur.
     bindK (obj_get cur VMSPACE_OBJ_ID TYPE_VMSPACE) (\<lambda>vp.
     bindK (liftK (deref vp)) (\<lambda>vmspace.
     if addr = 0 then brk_init cpu vmspace
     else
       bindK (derefK (\<lambda>k. vspaces k vmspace)) (\<lambda>vs.
       bindK (\<lambda>k. bindR (brk_grow vs addr (kmm k)) (\<lambda>(r, mm). Inr (r, k\<lparr>kmm := mm\<rparr>))) (\<lambda>retval.
       seqK (obj_put vp) (retK retval))))))"

section \<open>The initial file system\<close>

text \<open>
  \<^verbatim>\<open>sys_fs_load_cpio\<close> of \<^verbatim>\<open>common/fs.c\<close>; \<open>start\<close> and \<open>bin_size\<close> are the symbols
  of the archive that is linked into the kernel.
\<close>

definition sys_fs_load_cpio :: "u64 \<Rightarrow> u64 \<Rightarrow> nat \<Rightarrow> u64 \<Rightarrow> int kop" where
  "sys_fs_load_cpio start bin_size cpu vaddr =
     bindK (obj_alloc TYPE_PMO SIZEOF_PMO) (\<lambda>po. case po of
       None \<Rightarrow> retK (- ENOMEM)
     | Some cpio_pmo \<Rightarrow>
         let len = ROUND_UP bin_size PAGE_SIZE in
         seqK (pmo_init_of cpio_pmo PMO_DATA len 0) (
         bindK (cur_process cpu) (\<lambda>cur.
         bindK (cap_alloc cur cpio_pmo 0) (\<lambda>cap.
         if cap < 0 then seqK (obj_free po) (retK (- ENOMEM))
         else
           bindK (obj_get cur VMSPACE_OBJ_ID TYPE_VMSPACE) (\<lambda>vp.
           bindK (liftK (deref vp)) (\<lambda>vmspace.
           bindK (vmspace_map_range_of vmspace vaddr len VMR_READ cpio_pmo) (\<lambda>ret.
           bindK (pmo_of cpio_pmo) (\<lambda>p.
           bindK (kread start (unat bin_size)) (\<lambda>bs.
           seqK (kwrite (phys_to_virt (pmo_start p)) bs) (
           seqK (obj_put vp) (retK ret)))))))))))"

end
