(* ===== verification/Ipc.thy ===== *)
theory Ipc
  imports VmSyscall
begin

text \<open>
  Synchronous IPC by thread migration: the files of \<^verbatim>\<open>kernel/ipc\<close>. A connection is an object;
  its shadow thread and the server's configuration come from plain \<^verbatim>\<open>kmalloc\<close>. A system
  call that switches to another thread does not return: its result is \<open>Inr\<close> of the thread and the
  address space that run next, and \<open>Inl\<close> of the return value otherwise.
\<close>

section \<open>Servers\<close>

definition IPC_MAX_CONN_PER_SERVER :: u64 where "IPC_MAX_CONN_PER_SERVER = 32"
definition SHADOW_THREAD_PRIO :: u32 where "SHADOW_THREAD_PRIO = 254"
definition SIZEOF_CONN :: u64 where "SIZEOF_CONN = 72"

definition is_user_addr :: "u64 \<Rightarrow> bool" where
  "is_user_addr vaddr \<longleftrightarrow> vaddr < KBASE"

definition is_user_addr_range :: "u64 \<Rightarrow> u64 \<Rightarrow> bool" where
  "is_user_addr_range vaddr len \<longleftrightarrow> vaddr + len \<ge> vaddr \<and> is_user_addr (vaddr + len)"

definition vm_config_at :: "u8 list \<Rightarrow> ipc_vm_config" where
  "vm_config_at bs = \<lparr>stack_base_addr = u64_at bs 0, stack_size = u64_at bs 1, buf_base_addr = u64_at bs 2, buf_size = u64_at bs 3\<rparr>"

definition vm_config_bytes :: "ipc_vm_config \<Rightarrow> u8 list" where
  "vm_config_bytes c = le_bytes 8 (stack_base_addr c) @ le_bytes 8 (stack_size c) @ le_bytes 8 (buf_base_addr c) @ le_bytes 8 (buf_size c)"

text \<open>
  \<^verbatim>\<open>register_server\<close> stores the pointer to the configuration before it checks the arguments;
  on an error it frees the configuration and leaves the pointer.
\<close>

definition free_config :: "nat \<Rightarrow> unit kop" where
  "free_config cfg = modK (\<lambda>k. k\<lparr>configs := (configs k)(cfg := None)\<rparr>)"

definition upd_kthread :: "nat \<Rightarrow> (kthread \<Rightarrow> kthread) \<Rightarrow> unit kop" where
  "upd_kthread t f = bindK (derefK (\<lambda>k. kthreads k t)) (\<lambda>th. modK (\<lambda>k. k\<lparr>kthreads := (kthreads k)(t \<mapsto> f th)\<rparr>))"

definition register_server :: "nat \<Rightarrow> nat \<Rightarrow> u64 \<Rightarrow> u64 \<Rightarrow> u64 \<Rightarrow> int kop" where
  "register_server cpu server callback maxc vm_config_ptr =
     bindK kmallocK (\<lambda>cfg.
     if cfg = 0 then retK (- ENOMEM)
     else
       seqK (upd_kthread server (\<lambda>th. th\<lparr>server_config := Some (Some cfg)\<rparr>)) (
       if maxc > IPC_MAX_CONN_PER_SERVER then seqK (free_config cfg) (retK (- EINVAL))
       else
         bindK kmallocK (\<lambda>bmp.
         if bmp = 0 then seqK (free_config cfg) (retK (- ENOMEM))
         else
           bindK (copy_from_user cpu vm_config_ptr 32) (\<lambda>bs. let vc = vm_config_at bs in
           seqK (modK (\<lambda>k. k\<lparr>configs := (configs k)(cfg \<mapsto> \<lparr>sc_callback = callback, max_client = maxc,
               conn_bmp = Some (replicate (BITS_TO_LONGS (unat maxc)) 0), vm_config = vc\<rparr>)\<rparr>)) (
           if \<not> is_user_addr_range (stack_base_addr vc) (stack_size vc) \<or>
              \<not> is_user_addr_range (buf_base_addr vc) (buf_size vc) \<or>
              \<not> IS_ALIGNED (stack_base_addr vc) PAGE_SIZE \<or> \<not> IS_ALIGNED (stack_size vc) PAGE_SIZE \<or>
              \<not> IS_ALIGNED (buf_base_addr vc) PAGE_SIZE \<or> \<not> IS_ALIGNED (buf_size vc) PAGE_SIZE
           then seqK (free_config cfg) (retK (- EINVAL))
           else retK 0)))))"

definition sys_register_server :: "nat \<Rightarrow> u64 \<Rightarrow> u64 \<Rightarrow> u64 \<Rightarrow> int kop" where
  "sys_register_server cpu callback maxc vm_config_ptr =
     bindK (cur_thread cpu) (\<lambda>t. seqK (bugK (t = None)) (
     bindK (liftK (deref t)) (\<lambda>t. bindK (thread_of t) (\<lambda>server.
     register_server cpu server callback maxc vm_config_ptr))))"

section \<open>Connections\<close>

definition config_of :: "nat \<Rightarrow> nat kop" where
  "config_of t = bindK (derefK (\<lambda>k. kthreads k t)) (\<lambda>th.
     bindK (liftK (deref (server_config th))) (\<lambda>c. liftK (deref c)))"

definition create_server_thread :: "nat \<Rightarrow> nat option kop" where
  "create_server_thread src =
     bindK kmallocK (\<lambda>new.
     seqK (bugK (new = 0)) (
     bindK (derefK (\<lambda>k. kthreads k src)) (\<lambda>st.
     bindK (liftK (deref (th_process st))) (\<lambda>sp.
     bindK (obj_get sp VMSPACE_OBJ_ID TYPE_VMSPACE) (\<lambda>v.
     seqK (bugK (v = None)) (
     bindK (schK (\<lambda>s. Inr (create_thread_ctx s))) (\<lambda>ctx. case ctx of
       None \<Rightarrow> seqK (obj_put v) (retK None)
     | Some c \<Rightarrow>
         bindK (derefK (\<lambda>k. ctxs (ksch k) (Thr src))) (\<lambda>sc.
         seqK (schU (\<lambda>s. Inr (s\<lparr>ctxs := (ctxs s)(Thr new \<mapsto> c\<lparr>t_regs := t_regs sc, t_prio := SHADOW_THREAD_PRIO,
             t_state := TS_INIT, t_affinity := NO_AFF, t_sc := None, t_type := TYPE_SHADOW\<rparr>),
             thread_vmspace := (thread_vmspace s)(Thr new := v)\<rparr>))) (
         bindK kmallocK (\<lambda>cfg.
         if cfg = 0 then seqK (schU (destroy_thread_ctx (Thr new))) (seqK (obj_put v) (retK None))
         else
           bindK (config_of src) (\<lambda>scfg.
           bindK (derefK (\<lambda>k. configs k scfg)) (\<lambda>sc.
           seqK (modK (\<lambda>k. k\<lparr>configs := (configs k)(cfg \<mapsto> \<lparr>sc_callback = sc_callback sc, max_client = 0, conn_bmp = None,
                 vm_config = vm_config sc\<rparr>),
               kthreads := (kthreads k)(new \<mapsto> \<lparr>th_process = Some sp, active_conn = None, server_config = Some (Some cfg)\<rparr>)\<rparr>)) (
           seqK (obj_put v) (retK (Some new)))))))))))))))"

definition upd_conn :: "nat \<Rightarrow> (ipc_connection \<Rightarrow> ipc_connection) \<Rightarrow> unit kop" where
  "upd_conn c f = bindK (derefK (\<lambda>k. conns k c)) (\<lambda>x. modK (\<lambda>k. k\<lparr>conns := (conns k)(c \<mapsto> f x)\<rparr>))"

text \<open>The first free number of a client, which is \<^verbatim>\<open>max_client\<close> when all are taken.\<close>

definition take_conn_idx :: "nat \<Rightarrow> nat kop" where
  "take_conn_idx cfg =
     bindK (derefK (\<lambda>k. configs k cfg)) (\<lambda>sc.
     bindK (liftK (deref (conn_bmp sc))) (\<lambda>bmp.
     bindK (liftK (find_next_zero_bit bmp (max_client sc) 0)) (\<lambda>conn_idx.
     bindK (liftK (set_bit_c (of_nat conn_idx) bmp)) (\<lambda>bmp.
     seqK (modK (\<lambda>k. k\<lparr>configs := (configs k)(cfg \<mapsto> sc\<lparr>conn_bmp := Some bmp\<rparr>)\<rparr>)) (retK conn_idx)))))"

definition kfree_pmo :: "nat \<Rightarrow> unit kop" where
  "kfree_pmo pmo = modK (\<lambda>k. k\<lparr>kmm := kmm k\<lparr>pmos := (pmos (kmm k))(pmo := None)\<rparr>\<rparr>)"

definition thread_space :: "nat \<Rightarrow> nat kop" where
  "thread_space t = derefK (\<lambda>k. thread_vmspace (ksch k) (Thr t))"

text \<open>
  The results of the three mappings are not looked at. The second result is the updated configuration
  of the client.
\<close>

definition create_connection :: "nat \<Rightarrow> nat \<Rightarrow> ipc_vm_config \<Rightarrow> (int \<times> ipc_vm_config) kop" where
  "create_connection cpu target client_vm_config =
     bindK (obj_alloc TYPE_CONNECTION SIZEOF_CONN) (\<lambda>co. case co of
       None \<Rightarrow> retK (- ENOMEM, client_vm_config)
     | Some conn \<Rightarrow>
     bindK (create_server_thread target) (\<lambda>shadow.
     if shadow = None then retK (- ENOMEM, client_vm_config)
     else
       seqK (modK (\<lambda>k. k\<lparr>conns := (conns k)(conn \<mapsto> \<lparr>conn_source = None, conn_target = shadow, server_conn_cap = 0,
          server_stack_top = 0, client_user_addr = 0, server_user_addr = 0\<rparr>)\<rparr>)) (
       bindK (config_of target) (\<lambda>cfg.
       bindK (take_conn_idx cfg) (\<lambda>conn_idx.
       bindK (derefK (\<lambda>k. configs k cfg)) (\<lambda>sc. let vc = vm_config sc; server_stack_base = stack_base_addr vc + of_nat conn_idx * stack_size vc in
       bindK kmallocK (\<lambda>stack_pmo.
       if stack_pmo = 0 then seqK (obj_free co) (retK (- ENOMEM, client_vm_config))
       else
         seqK (pmo_init_of stack_pmo PMO_DATA (stack_size vc) 0) (
         bindK (thread_space target) (\<lambda>tv.
         seqK (vmspace_map_range_of tv server_stack_base (stack_size vc) (VMR_READ OR VMR_WRITE) stack_pmo) (
         seqK (upd_conn conn (\<lambda>c. c\<lparr>server_stack_top := server_stack_base + stack_size vc\<rparr>)) (
         let server_buf_base = buf_base_addr vc + of_nat conn_idx * buf_size vc;
             client_buf_base = buf_base_addr client_vm_config;
             bufsz = (if buf_size vc < buf_size client_vm_config then buf_size vc else buf_size client_vm_config);
             client_vm_config = client_vm_config\<lparr>buf_size := bufsz\<rparr> in
         bindK kmallocK (\<lambda>buf_pmo.
         if buf_pmo = 0 then seqK (kfree_pmo stack_pmo) (seqK (obj_free co) (retK (- ENOMEM, client_vm_config)))
         else
           seqK (pmo_init_of buf_pmo PMO_DATA bufsz 0) (
           bindK (cur_space cpu) (\<lambda>cv.
           seqK (vmspace_map_range_of cv client_buf_base bufsz (VMR_READ OR VMR_WRITE) buf_pmo) (
           seqK (vmspace_map_range_of tv server_buf_base bufsz (VMR_READ OR VMR_WRITE) buf_pmo) (
           seqK (upd_conn conn (\<lambda>c. c\<lparr>client_user_addr := client_buf_base, server_user_addr := server_buf_base\<rparr>)) (
           bindK (cur_process cpu) (\<lambda>cur.
           bindK (cap_alloc cur conn 0) (\<lambda>conn_cap.
           if conn_cap < 0 then seqK (obj_free co) (retK (conn_cap, client_vm_config))
           else
             bindK (derefK (\<lambda>k. kthreads k target)) (\<lambda>tt.
             bindK (liftK (deref (th_process tt))) (\<lambda>tp.
             bindK (cap_copy cur tp conn_cap False 0) (\<lambda>server_cap.
             if server_cap < 0 then seqK (obj_free co) (retK (server_cap, client_vm_config))
             else
               seqK (upd_conn conn (\<lambda>c. c\<lparr>server_conn_cap := word_of_int server_cap\<rparr>))
               (retK (conn_cap, client_vm_config))))))))))))))))))))))))"

definition sys_register_client :: "nat \<Rightarrow> u32 \<Rightarrow> u64 \<Rightarrow> int kop" where
  "sys_register_client cpu server_cap vm_config_ptr =
     bindK (copy_from_user cpu vm_config_ptr 32) (\<lambda>bs. let vc = vm_config_at bs in
     if \<not> is_user_addr_range (buf_base_addr vc) (buf_size vc) \<or> \<not> IS_ALIGNED (buf_base_addr vc) PAGE_SIZE \<or>
        \<not> IS_ALIGNED (buf_size vc) PAGE_SIZE
     then retK (- EINVAL)
     else
       bindK (cur_process cpu) (\<lambda>cur.
       bindK (obj_get cur (sint server_cap) TYPE_THREAD) (\<lambda>server. case server of
         None \<Rightarrow> retK (- ECAPBILITY)
       | Some target \<Rightarrow>
           bindK (create_connection cpu target vc) (\<lambda>(conn_cap, vc').
           if conn_cap < 0 then seqK (obj_put server) (retK conn_cap)
           else
             bindK (obj_get cur conn_cap TYPE_CONNECTION) (\<lambda>conn.
             seqK (if buf_size vc \<noteq> buf_size vc' then copy_to_user cpu vm_config_ptr (vm_config_bytes vc') else retK ()) (
             seqK (obj_put conn) (seqK (obj_put server) (retK conn_cap))))))))"

section \<open>Calls\<close>

definition MAX_CAP_TRANSFER :: u64 where "MAX_CAP_TRANSFER = 8"

definition target_process :: "nat \<Rightarrow> nat kop" where
  "target_process conn = bindK (derefK (\<lambda>k. conns k conn)) (\<lambda>c. bindK (liftK (deref (conn_target c))) (\<lambda>t.
     bindK (derefK (\<lambda>k. kthreads k t)) (\<lambda>th. liftK (deref (th_process th)))))"

text \<open>
  The message is in user memory: its words 2 and 4 are \<^verbatim>\<open>cap_slot_number\<close> and
  \<^verbatim>\<open>cap_slots_offset\<close>. The result of \<^verbatim>\<open>cap_copy\<close> is stored as an unsigned number
  and compared with 0 as such, so the clean-up of the code is never reached and the error numbers go
  into the message.
\<close>

definition send_one_cap :: "nat \<Rightarrow> nat \<Rightarrow> u8 list \<Rightarrow> nat \<Rightarrow> u64 kop" where
  "send_one_cap cpu conn bs i =
     bindK (cur_process cpu) (\<lambda>cur.
     bindK (target_process conn) (\<lambda>tp.
     bindK (cap_copy cur tp (cint (u64_at bs i)) False 0) (\<lambda>dest_cap. retK (word_of_int dest_cap))))"

definition ipc_send_cap :: "nat \<Rightarrow> nat \<Rightarrow> u64 \<Rightarrow> int kop" where
  "ipc_send_cap cpu conn ipc_msg =
     bindK (copy_from_user cpu (ipc_msg + 16) 8) (\<lambda>bs. let cap_slot_number = u64_at bs 0 in
     if cap_slot_number = 0 then retK 0
     else if cap_slot_number \<ge> MAX_CAP_TRANSFER then retK (- EINVAL)
     else
       bindK (copy_from_user cpu (ipc_msg + 32) 8) (\<lambda>bs. let cap_slots_offset = u64_at bs 0 in
       bindK kmallocK (\<lambda>cap_buf.
       if cap_buf = 0 then retK (- ENOMEM)
       else
         bindK (copy_from_user cpu (ipc_msg + cap_slots_offset) (8 * unat cap_slot_number)) (\<lambda>bs.
         bindK (mapK (send_one_cap cpu conn bs) [0..<unat cap_slot_number]) (\<lambda>caps.
         seqK (copy_to_user cpu (ipc_msg + cap_slots_offset) (concat (map (le_bytes 8) caps))) (retK 0))))))"

definition switch_to :: "nat \<Rightarrow> thread_ptr \<Rightarrow> (thread_ptr \<times> nat option) kop" where
  "switch_to cpu t = seqK (schK (switch_to_thread cpu (Some t))) (bindK (getK ksch) (\<lambda>s. liftK (switch_context cpu s)))"

definition thread_migrate_to_server :: "nat \<Rightarrow> nat \<Rightarrow> u64 \<Rightarrow> (thread_ptr \<times> nat option) kop" where
  "thread_migrate_to_server cpu conn arg =
     bindK (derefK (\<lambda>k. conns k conn)) (\<lambda>c.
     bindK (liftK (deref (conn_target c))) (\<lambda>target.
     bindK (cur_thread cpu) (\<lambda>cur.
     seqK (upd_conn conn (\<lambda>c. c\<lparr>conn_source := cur\<rparr>)) (
     seqK (upd_kthread target (\<lambda>th. th\<lparr>active_conn := Some (Some conn)\<rparr>)) (
     bindK (liftK (deref cur)) (\<lambda>client.
     seqK (schU (upd_ctx client (\<lambda>x. x\<lparr>t_state := TS_WAITING\<rparr>))) (
     seqK (obj_put (Some conn)) (
     bindK (derefK (\<lambda>k. conns k conn)) (\<lambda>c.
     seqK (schU (arch_set_thread_stack (Thr target) (server_stack_top c))) (
     bindK (config_of target) (\<lambda>cfg.
     bindK (derefK (\<lambda>k. configs k cfg)) (\<lambda>sc.
     seqK (schU (arch_set_thread_next_ip (Thr target) (sc_callback sc))) (
     seqK (schU (arch_set_thread_arg (Thr target) arg)) (
     bindK (derefK (\<lambda>k. ctxs (ksch k) client)) (\<lambda>x.
     seqK (schU (upd_ctx (Thr target) (\<lambda>y. y\<lparr>t_sc := t_sc x\<rparr>)))
     (switch_to cpu (Thr target)))))))))))))))))"

definition sys_ipc_call :: "nat \<Rightarrow> u32 \<Rightarrow> u64 \<Rightarrow> (int + thread_ptr \<times> nat option) kop" where
  "sys_ipc_call cpu conn_cap ipc_msg =
     bindK (cur_process cpu) (\<lambda>cur.
     bindK (obj_get cur (sint conn_cap) TYPE_CONNECTION) (\<lambda>co. case co of
       None \<Rightarrow> retK (Inl (- ECAPBILITY))
     | Some conn \<Rightarrow>
         bindK (derefK (\<lambda>k. conns k conn)) (\<lambda>c.
         seqK (copy_to_user cpu ipc_msg (le_bytes 8 (server_conn_cap c))) (
         bindK (ipc_send_cap cpu conn ipc_msg) (\<lambda>r.
         if r < 0 then seqK (obj_put co) (retK (Inl r))
         else
           bindK (derefK (\<lambda>k. conns k conn)) (\<lambda>c.
           bindK (thread_migrate_to_server cpu conn (server_user_addr c)) (\<lambda>n. retK (Inr n))))))))"

definition sys_ipc_reg_call :: "nat \<Rightarrow> u32 \<Rightarrow> u64 \<Rightarrow> (int + thread_ptr \<times> nat option) kop" where
  "sys_ipc_reg_call cpu conn_cap arg0 =
     bindK (cur_process cpu) (\<lambda>cur.
     bindK (obj_get cur (sint conn_cap) TYPE_CONNECTION) (\<lambda>co. case co of
       None \<Rightarrow> retK (Inl (- ECAPBILITY))
     | Some conn \<Rightarrow> bindK (thread_migrate_to_server cpu conn arg0) (\<lambda>n. retK (Inr n))))"

section \<open>Returns\<close>

definition thread_migrate_to_client :: "nat \<Rightarrow> nat \<Rightarrow> u64 \<Rightarrow> (thread_ptr \<times> nat option) kop" where
  "thread_migrate_to_client cpu conn ret_value =
     bindK (derefK (\<lambda>k. conns k conn)) (\<lambda>c.
     bindK (cur_thread cpu) (\<lambda>t. bindK (liftK (deref t)) (\<lambda>t. bindK (thread_of t) (\<lambda>server.
     seqK (upd_kthread server (\<lambda>th. th\<lparr>active_conn := Some None\<rparr>)) (
     bindK (liftK (deref (conn_source c))) (\<lambda>source.
     seqK (schU (arch_set_thread_return source ret_value))
     (switch_to cpu source)))))))"

definition sys_ipc_return :: "nat \<Rightarrow> u64 \<Rightarrow> (unit + thread_ptr \<times> nat option) kop" where
  "sys_ipc_return cpu ret =
     bindK (cur_kthread cpu) (\<lambda>th.
     bindK (liftK (deref (active_conn th))) (\<lambda>conn. case conn of
       None \<Rightarrow> retK (Inl ())
     | Some conn \<Rightarrow> bindK (thread_migrate_to_client cpu conn ret) (\<lambda>n. retK (Inr n))))"

end
