(* ===== verification/Printk.thy ===== *)
theory Printk
  imports Memory
begin

text \<open>
  Formatted output of the kernel, \<^verbatim>\<open>common/printk.c\<close>; the user library's copy is in
  \<^verbatim>\<open>UserPrint\<close>. It is only called with
  \<^verbatim>\<open>out = NULL\<close>, so characters go to the console in the order of the list that the
  functions return, together with their count. A format is the list of its bytes without the final 0;
  going past that 0 is \<open>WILD\<close>. The variable arguments are the 64-bit slots of the calling convention.
  The union in which an argument is stored keeps the bytes that a narrower member does not cover. The
  text of a \<^verbatim>\<open>%s\<close> is read from memory; \<open>n\<close> bounds its length.
\<close>

section \<open>Padding\<close>

definition PRINT_BUF_LEN :: nat where "PRINT_BUF_LEN = 64"
definition PAD_ZERO :: u32 where "PAD_ZERO = 1"
definition PAD_RIGHT :: u32 where "PAD_RIGHT = 2"

lemmas pad_defs = PAD_ZERO_def PAD_RIGHT_def

text \<open>The width that is left to pad: none if the text is long enough.\<close>

definition prints :: "u8 list \<Rightarrow> int \<Rightarrow> u32 \<Rightarrow> u8 list \<times> int" where
  "prints text width flags =
     (let len = int (length text);
          padchar = (if width > 0 \<and> flags AND PAD_ZERO \<noteq> 0 then 0x30 else 0x20);
          pad = (if width > 0 then (if len \<ge> width then 0 else width - len) else width);
          left = (if flags AND PAD_RIGHT = 0 then replicate (nat pad) padchar else []);
          right = (if flags AND PAD_RIGHT = 0 then [] else replicate (nat pad) padchar)
      in (left @ text @ right, int (length left) + len + int (length right)))"

section \<open>Numbers\<close>

text \<open>A digit; \<open>letbase\<close> is only tested for 0.\<close>

definition kernel_digit :: "u8 \<Rightarrow> u64 \<Rightarrow> u8" where
  "kernel_digit letbase t =
     (if t < 10 then ucast t + 0x30
      else if letbase \<noteq> 0 then ucast t - 10 + 0x61 else ucast t - 10 + 0x41)"

text \<open>The loop that fills the buffer from its end; \<open>s\<close> is the index of the last digit written.\<close>

fun digit_loop :: "u8 \<Rightarrow> u64 \<Rightarrow> nat \<Rightarrow> u64 \<Rightarrow> u8 list \<Rightarrow> (nat \<times> u8 list) res" where
  "digit_loop letbase base 0 u buf = (if u = 0 then Inr (0, buf) else Inl WILD)"
| "digit_loop letbase base (Suc s) u buf =
     (if u = 0 then Inr (Suc s, buf) else digit_loop letbase base s (u div base) (kernel_digit letbase (u mod base) # buf))"

definition printk_write_num :: "u8 \<Rightarrow> u64 \<Rightarrow> u64 \<Rightarrow> bool \<Rightarrow> int \<Rightarrow> u32 \<Rightarrow> (u8 list \<times> int) res" where
  "printk_write_num letbase i base sign width flags =
     (if i = 0 then Inr (prints [0x30] width flags)
      else
        let neg = (sign \<and> base = 10 \<and> sint i < 0); u = (if neg then - i else i) in
        bindR (digit_loop letbase base (PRINT_BUF_LEN - 1) u []) (\<lambda>(s, buf).
        if neg then
          (if width \<noteq> 0 \<and> flags AND PAD_ZERO \<noteq> 0 then
             (let (text, pc) = prints buf (width - 1) flags in Inr (0x2D # text, 1 + pc))
           else if s = 0 then Inl WILD else Inr (prints (0x2D # buf) width flags))
        else Inr (prints buf width flags)))"

section \<open>Conversions\<close>

text \<open>The letters \<^verbatim>\<open>d u o x X p c s l h\<close> and the other bytes with a meaning in a format.\<close>

definition ch_d :: u8 where "ch_d = 0x64"
definition ch_u :: u8 where "ch_u = 0x75"
definition ch_o :: u8 where "ch_o = 0x6F"
definition ch_x :: u8 where "ch_x = 0x78"
definition ch_X :: u8 where "ch_X = 0x58"
definition ch_p :: u8 where "ch_p = 0x70"
definition ch_c :: u8 where "ch_c = 0x63"
definition ch_s :: u8 where "ch_s = 0x73"
definition ch_l :: u8 where "ch_l = 0x6C"
definition ch_h :: u8 where "ch_h = 0x68"
definition ch_percent :: u8 where "ch_percent = 0x25"
definition ch_minus :: u8 where "ch_minus = 0x2D"
definition ch_star :: u8 where "ch_star = 0x2A"
definition ch_0 :: u8 where "ch_0 = 0x30"
definition ch_9 :: u8 where "ch_9 = 0x39"
definition ch_a :: u8 where "ch_a = 0x61"
definition ch_A :: u8 where "ch_A = 0x41"

lemmas ch_defs = ch_d_def ch_u_def ch_o_def ch_x_def ch_X_def ch_p_def ch_c_def ch_s_def ch_l_def ch_h_def
  ch_percent_def ch_minus_def ch_star_def ch_0_def ch_9_def ch_a_def ch_A_def

definition va_arg :: "u64 list \<Rightarrow> (u64 \<times> u64 list) res" where
  "va_arg ap = (case ap of [] \<Rightarrow> Inl WILD | a # ap \<Rightarrow> Inr (a, ap))"

text \<open>Assigning to a member of \<open>n\<close> bits of the union.\<close>

definition store_low :: "nat \<Rightarrow> u64 \<Rightarrow> u64 \<Rightarrow> u64" where
  "store_low n v un = (un AND NOT (mask n)) OR (v AND mask n)"

definition sext16 :: "u64 \<Rightarrow> u64" where "sext16 x = scast (ucast x :: u16)"
definition sext8 :: "u64 \<Rightarrow> u64" where "sext8 x = scast (ucast x :: u8)"
definition sext32 :: "u64 \<Rightarrow> u64" where "sext32 x = scast (ucast x :: u32)"
definition zext32 :: "u64 \<Rightarrow> u64" where "zext32 x = ucast (ucast x :: u32)"

text \<open>
  One conversion turns the union and the arguments into the output, its length, and the two again.
  \<open>num_conv\<close> stores an argument in a member of \<open>n\<close> bits and prints the value \<open>val\<close> of a member.
\<close>

type_synonym conv = "u64 \<Rightarrow> u64 list \<Rightarrow> int \<Rightarrow> u32 \<Rightarrow> ((u8 list \<times> int) \<times> u64 \<times> u64 list) res"

definition num_conv :: "nat \<Rightarrow> (u64 \<Rightarrow> u64) \<Rightarrow> u64 \<Rightarrow> bool \<Rightarrow> u8 \<Rightarrow> conv" where
  "num_conv n val base sign letbase un ap width flags =
     bindR (va_arg ap) (\<lambda>(a, ap). let un = store_low n a un in
     bindR (printk_write_num letbase (val un) base sign width flags) (\<lambda>out. Inr (out, un, ap)))"

definition no_conv :: conv where
  "no_conv un ap width flags = Inr (([], 0), un, ap)"

fun cstr :: "nat \<Rightarrow> mem \<Rightarrow> u64 \<Rightarrow> nat \<Rightarrow> u8 list res" where
  "cstr 0 m p off = Inl FUEL"
| "cstr (Suc n) m p off = bindR (deref (m (p + of_nat off))) (\<lambda>c.
     if c = 0 then Inr [] else bindR (cstr n m p (Suc off)) (\<lambda>cs. Inr (c # cs)))"

text \<open>\<^verbatim>\<open>"(null)"\<close>\<close>

definition null_text :: "u8 list" where "null_text = [0x28, 0x6E, 0x75, 0x6C, 0x6C, 0x29]"

definition char_conv :: conv where
  "char_conv un ap width flags = bindR (va_arg ap) (\<lambda>(a, ap). let un = store_low 8 a un; c = ucast un :: u8 in
     Inr (prints (if c = 0 then [] else [c]) width flags, un, ap))"

definition string_conv :: "nat \<Rightarrow> mem \<Rightarrow> conv" where
  "string_conv n m un ap width flags = bindR (va_arg ap) (\<lambda>(a, ap). let un = a in
     bindR (if un = 0 then Inr null_text else cstr n m un 0) (\<lambda>text. Inr (prints text width flags, un, ap)))"

text \<open>The conversion letters without a modifier, after \<^verbatim>\<open>l\<close>, \<^verbatim>\<open>ll\<close>, \<^verbatim>\<open>h\<close> and \<^verbatim>\<open>hh\<close>.\<close>

definition conv_plain :: "nat \<Rightarrow> mem \<Rightarrow> u8 \<Rightarrow> conv" where
  "conv_plain n m c =
     (if c = ch_d then num_conv 32 sext32 10 True ch_a
      else if c = ch_u then num_conv 32 zext32 10 False ch_a
      else if c = ch_o then num_conv 32 zext32 8 False ch_a
      else if c = ch_x then num_conv 32 zext32 16 False ch_a
      else if c = ch_X then num_conv 32 zext32 16 False ch_A
      else if c = ch_p then num_conv 64 id 16 False ch_a
      else if c = ch_c then char_conv
      else if c = ch_s then string_conv n m
      else no_conv)"

definition conv_l :: "u8 \<Rightarrow> conv" where
  "conv_l c =
     (if c = ch_d then num_conv 64 id 10 True ch_a
      else if c = ch_u then num_conv 64 id 10 False ch_a
      else if c = ch_o then num_conv 64 id 8 False ch_a
      else if c = ch_x then num_conv 64 id 16 False ch_a
      else if c = ch_X then num_conv 64 id 16 False ch_A
      else no_conv)"

definition conv_ll :: "u8 \<Rightarrow> conv" where
  "conv_ll c =
     (if c = ch_d then num_conv 64 id 10 True ch_a
      else if c = ch_u then num_conv 64 id 10 False ch_a
      else if c = ch_o then num_conv 64 id 8 False ch_a
      else if c = ch_x then num_conv 64 id 16 False ch_a
      else if c = ch_X then num_conv 64 id 16 False ch_A
      else no_conv)"

definition conv_h :: "u8 \<Rightarrow> conv" where
  "conv_h c =
     (if c = ch_d then num_conv 16 sext16 10 True ch_a
      else if c = ch_u then num_conv 16 id 10 False ch_a
      else if c = ch_o then num_conv 16 id 8 False ch_a
      else if c = ch_x then num_conv 16 id 16 False ch_a
      else if c = ch_X then num_conv 16 id 16 False ch_A
      else no_conv)"

definition conv_hh :: "u8 \<Rightarrow> conv" where
  "conv_hh c =
     (if c = ch_d then num_conv 8 sext8 10 True ch_a
      else if c = ch_u then num_conv 8 id 10 False ch_a
      else if c = ch_o then num_conv 8 id 8 False ch_a
      else if c = ch_x then num_conv 8 id 16 False ch_a
      else if c = ch_X then num_conv 8 id 16 False ch_A
      else no_conv)"

section \<open>Formats\<close>

text \<open>\<^verbatim>\<open>*format\<close> and \<^verbatim>\<open>++format\<close>.\<close>

definition peek :: "u8 list \<Rightarrow> u8" where
  "peek f = (case f of [] \<Rightarrow> 0 | c # _ \<Rightarrow> c)"

definition adv :: "u8 list \<Rightarrow> u8 list res" where
  "adv f = (case f of [] \<Rightarrow> Inl WILD | _ # f \<Rightarrow> Inr f)"

fun skip_zeros :: "u8 list \<Rightarrow> u32 \<Rightarrow> u8 list \<times> u32" where
  "skip_zeros [] flags = ([], flags)"
| "skip_zeros (c # f) flags = (if c = ch_0 then skip_zeros f (flags OR PAD_ZERO) else (c # f, flags))"

fun read_width :: "u8 list \<Rightarrow> int \<Rightarrow> u8 list \<times> int" where
  "read_width [] width = ([], width)"
| "read_width (c # f) width =
     (if c \<ge> ch_0 \<and> c \<le> ch_9 then read_width f (width * 10 + (uint c - uint ch_0)) else (c # f, width))"

definition parse_spec :: "u8 list \<Rightarrow> u64 list \<Rightarrow> (u8 list \<times> int \<times> u32 \<times> u64 list) res" where
  "parse_spec f ap =
     (let (f, flags) = (if peek f = ch_minus then (tl f, PAD_RIGHT) else (f, 0));
          (f, flags) = skip_zeros f flags in
      if peek f = ch_star then bindR (va_arg ap) (\<lambda>(a, ap). Inr (tl f, sint (ucast a :: u32), flags, ap))
      else let (f, width) = read_width f 0 in Inr (f, width, flags, ap))"

definition convert :: "nat \<Rightarrow> mem \<Rightarrow> u8 list \<Rightarrow> u64 \<Rightarrow> u64 list \<Rightarrow> int \<Rightarrow> u32 \<Rightarrow> (u8 list \<times> (u8 list \<times> int) \<times> u64 \<times> u64 list) res" where
  "convert n m f un ap width flags =
     (let at = (\<lambda>cv f. bindR (cv (peek f) un ap width flags) (\<lambda>r. Inr (f, r))) in
      if peek f = ch_l then
        bindR (adv f) (\<lambda>f. if peek f = ch_l then bindR (adv f) (at conv_ll) else at conv_l f)
      else if peek f = ch_h then
        bindR (adv f) (\<lambda>f. if peek f = ch_h then bindR (adv f) (at conv_hh) else at conv_h f)
      else at (conv_plain n m) f)"

lemma adv_length: "adv f = Inr f' \<Longrightarrow> length f = Suc (length f')"
  by (cases f) (auto simp: adv_def)

lemma skip_zeros_length: "length (fst (skip_zeros f flags)) \<le> length f"
  by (induction f flags rule: skip_zeros.induct) auto

lemma read_width_length: "length (fst (read_width f w)) \<le> length f"
  by (induction f w rule: read_width.induct) auto

lemma parse_spec_length: "parse_spec f ap = Inr (f', r) \<Longrightarrow> length f' \<le> length f"
proof -
  assume p: "parse_spec f ap = Inr (f', r)"
  define f1 where "f1 = (if peek f = ch_minus then tl f else f)"
  obtain f2 fl where z: "skip_zeros f1 (if peek f = ch_minus then PAD_RIGHT else 0) = (f2, fl)" by force
  have "length f1 \<le> length f" by (simp add: f1_def)
  moreover have "length f2 \<le> length f1" using skip_zeros_length [of f1] z by (metis fst_conv)
  moreover have "length f' \<le> length f2"
    using p z read_width_length [of f2 0]
    by (auto simp: parse_spec_def f1_def split: if_splits prod.splits elim!: bindR_InrE)
  ultimately show ?thesis by simp
qed

lemma convert_length: "convert n m f un ap width flags = Inr (f', r) \<Longrightarrow> length f' \<le> length f"
  by (auto simp: convert_def Let_def split: if_splits elim!: bindR_InrE dest!: adv_length)

function vsprintf_loop :: "nat \<Rightarrow> mem \<Rightarrow> u8 list \<Rightarrow> u64 \<Rightarrow> u64 list \<Rightarrow> (u8 list \<times> int) res" where
  "vsprintf_loop n m f un ap = (case f of
     [] \<Rightarrow> Inr ([], 0)
   | c # f \<Rightarrow>
       if c = ch_percent then
         (if f = [] then Inr ([], 0)
          else if peek f = ch_percent then
            bindR (vsprintf_loop n m (tl f) un ap) (\<lambda>(text, pc). Inr (ch_percent # text, 1 + pc))
          else
            bindR (parse_spec f ap) (\<lambda>(f, width, flags, ap).
            bindR (convert n m f un ap width flags) (\<lambda>(f, (text, pc), un, ap).
            bindR (adv f) (\<lambda>f.
            bindR (vsprintf_loop n m f un ap) (\<lambda>(text', pc'). Inr (text @ text', pc + pc'))))))
       else bindR (vsprintf_loop n m f un ap) (\<lambda>(text, pc). Inr (c # text, 1 + pc)))"
  by pat_completeness auto

termination vsprintf_loop
proof (relation "measure (\<lambda>(n, m, f, un, ap). length f)")
qed (auto dest!: parse_spec_length convert_length adv_length)

declare vsprintf_loop.simps [simp del]

text \<open>The union is not initialised: \<open>un\<close> is what the stack holds.\<close>

definition simple_vsprintf :: "nat \<Rightarrow> mem \<Rightarrow> u64 \<Rightarrow> u8 list \<Rightarrow> u64 list \<Rightarrow> (u8 list \<times> int) res" where
  "simple_vsprintf n m un format ap = vsprintf_loop n m format un ap"

definition printk :: "nat \<Rightarrow> mem \<Rightarrow> u64 \<Rightarrow> u8 list \<Rightarrow> u64 list \<Rightarrow> u8 list res" where
  "printk n m un fmt va = bindR (simple_vsprintf n m un fmt va) (\<lambda>(text, pc). Inr text)"

lemma printk_sample: "printk 0 Map.empty 0 [0x61, 0x25, 0x30, 0x35, 0x64, 0x25, 0x6C, 0x78] [- 42, 0xBEEF] =
  Inr [0x61, 0x2D, 0x30, 0x30, 0x34, 0x32, 0x62, 0x65, 0x65, 0x66]"
  by code_simp

end
