(* ===== verification/Exception.thy ===== *)
theory Exception
  imports Ipc Printk
begin

text \<open>
  Entries to the kernel: \<^verbatim>\<open>exception/exception.c\<close>, \<^verbatim>\<open>exception/irq.c\<close>,
  \<^verbatim>\<open>exception/timer.c\<close> and the system call table of \<^verbatim>\<open>syscall/syscall.c\<close>.
  The registers that say what happened (the syndrome, the fault address, the interrupt source) are
  arguments. An entry ends in \<open>Back\<close> to the interrupted code, in a \<open>Result\<close> for the caller, or in the
  \<open>Next\<close> thread and address space. The first part of a result tells whether the entry took the kernel
  lock; the assembly code behind it releases the lock in every case.
\<close>

datatype outcome = Back | Result u64 | Next "thread_ptr \<times> nat option"

definition nextK :: "(thread_ptr \<times> nat option) kop \<Rightarrow> outcome kop" where
  "nextK m = bindK m (\<lambda>n. retK (Next n))"

section \<open>Interrupts\<close>

definition IRQ_EL0_64 :: nat where "IRQ_EL0_64 = 9"
definition IRQ_EL0_32 :: nat where "IRQ_EL0_32 = 13"
definition INT_SRC_TIMER3 :: u32 where "INT_SRC_TIMER3 = 8"

text \<open>The other effect of \<^verbatim>\<open>handle_timer_irq\<close> is on the timer register.\<close>

definition handle_timer_irq :: "nat \<Rightarrow> unit kop" where
  "handle_timer_irq cpu = schU (rr_sched_handle_timer_irq cpu)"

definition plat_handle_irq :: "nat \<Rightarrow> u32 \<Rightarrow> unit kop" where
  "plat_handle_irq cpu irq_src = (let irq = push_bit (ctzl (ucast irq_src)) 1 :: u32 in
     if irq = INT_SRC_TIMER3 then handle_timer_irq cpu else retK ())"

definition current_is_idle :: "nat \<Rightarrow> bool kop" where
  "current_is_idle cpu = bindK (cur_thread cpu) (\<lambda>t. bindK (liftK (deref t)) (\<lambda>t.
     bindK (derefK (\<lambda>k. ctxs (ksch k) t)) (\<lambda>c. retK (t_type c = TYPE_IDLE))))"

definition handle_irq :: "nat \<Rightarrow> nat \<Rightarrow> u32 \<Rightarrow> (bool \<times> outcome) kop" where
  "handle_irq cpu type irq_src =
     bindK (if type = IRQ_EL0_64 \<or> type = IRQ_EL0_32 then retK True else current_is_idle cpu) (\<lambda>locked.
     seqK (plat_handle_irq cpu irq_src) (
     seqK (schU (rr_sched_handle_timer_irq cpu)) (
     seqK (schK (rr_sched cpu)) (
     bindK (getK ksch) (\<lambda>s. bindK (liftK (switch_context cpu s)) (\<lambda>n. retK (locked, Next n)))))))"

section \<open>Synchronous exceptions\<close>

definition SYNC_EL0_64 :: nat where "SYNC_EL0_64 = 8"
definition ESR_EL1_EC_UNKNOWN :: u64 where "ESR_EL1_EC_UNKNOWN = 0"
definition ESR_EL1_EC_IABT_LEL :: u64 where "ESR_EL1_EC_IABT_LEL = 0x20"
definition ESR_EL1_EC_IABT_CEL :: u64 where "ESR_EL1_EC_IABT_CEL = 0x21"
definition ESR_EL1_EC_DABT_LEL :: u64 where "ESR_EL1_EC_DABT_LEL = 0x24"
definition ESR_EL1_EC_DABT_CEL :: u64 where "ESR_EL1_EC_DABT_CEL = 0x25"

definition GET_ESR_EL1_EC :: "u64 \<Rightarrow> u64" where
  "GET_ESR_EL1_EC esr = drop_bit 26 esr AND (BIT 6 - 1)"

definition do_page_fault_of :: "nat \<Rightarrow> u64 \<Rightarrow> u64 \<Rightarrow> outcome kop" where
  "do_page_fault_of cpu esr fault_addr =
     bindK (cur_space cpu) (\<lambda>v.
     bindK (derefK (\<lambda>k. vspaces k v)) (\<lambda>vs.
     bindK (\<lambda>k. bindR (do_page_fault esr fault_addr vs (kmm k)) (\<lambda>(r, mm). Inr (r, k\<lparr>kmm := mm\<rparr>))) (\<lambda>r. case r of
       None \<Rightarrow> retK Back | Some ret \<Rightarrow> nextK (sys_exit cpu ret))))"

definition handle_entry_c :: "nat \<Rightarrow> nat \<Rightarrow> u64 \<Rightarrow> u64 \<Rightarrow> (bool \<times> outcome) kop" where
  "handle_entry_c cpu type esr fault_addr =
     (let locked = (type \<ge> SYNC_EL0_64); esr_ec = GET_ESR_EL1_EC esr in
      bindK (if esr_ec = ESR_EL1_EC_UNKNOWN then nextK (sys_exit cpu (- ESUPPORT))
             else if esr_ec = ESR_EL1_EC_IABT_LEL \<or> esr_ec = ESR_EL1_EC_IABT_CEL then nextK (sys_exit cpu 0)
             else if esr_ec = ESR_EL1_EC_DABT_LEL \<or> esr_ec = ESR_EL1_EC_DABT_CEL then do_page_fault_of cpu esr fault_addr
             else retK Back) (\<lambda>r. retK (locked, r)))"

section \<open>System calls\<close>

definition resultI :: "int kop \<Rightarrow> outcome kop" where
  "resultI m = bindK m (\<lambda>r. retK (Result (word_of_int r)))"

definition resultU :: "u64 kop \<Rightarrow> outcome kop" where
  "resultU m = bindK m (\<lambda>r. retK (Result r))"

definition result_or_next :: "(int + thread_ptr \<times> nat option) kop \<Rightarrow> outcome kop" where
  "result_or_next m = bindK m (\<lambda>r. case r of Inl r \<Rightarrow> retK (Result (word_of_int r)) | Inr n \<Rightarrow> retK (Next n))"

text \<open>The calls that write to the console; \<^verbatim>\<open>kinfo\<close> is \<^verbatim>\<open>printk\<close> with a tag.\<close>

definition console_text :: "u8 list \<Rightarrow> unit kop" where
  "console_text cs k = Inr ((), k\<lparr>kconsole := kconsole k @ cs\<rparr>)"

definition sys_putc :: "u8 \<Rightarrow> unit kop" where
  "sys_putc ch = console_text [ch]"

definition debug_format :: "u8 list" where
  "debug_format = map of_char ''[INFO] [syscall] sys_debug: %lx'' @ [10]"

definition sys_debug :: "u64 \<Rightarrow> unit kop" where
  "sys_debug arg = bindK (liftK (printk 0 Map.empty 0 debug_format [arg])) console_text"

definition sys_getc :: "u32 \<Rightarrow> u32 kop" where
  "sys_getc recv = retK recv"

definition sys_get_cpu_id :: "nat \<Rightarrow> u32 kop" where
  "sys_get_cpu_id cpu = retK (of_nat cpu)"

text \<open>A handler without a result, and one with a 32-bit result, which the register holds extended.\<close>

definition resultV :: "unit kop \<Rightarrow> outcome kop" where
  "resultV m = seqK m (retK Back)"

definition resultW :: "u32 kop \<Rightarrow> outcome kop" where
  "resultW m = bindK m (\<lambda>r. retK (Result (ucast r)))"

definition NR_SYSCALL :: u32 where "NR_SYSCALL = 256"

text \<open>
  The table, for the registers \<open>x0\<close> to \<open>x5\<close>. \<open>ch\<close> is the character that the console gives, \<open>start\<close> and
  \<open>bin_size\<close> are the symbols of the archive. The assembly code uses the number as an index without a
  check: an entry that is not set is the NULL pointer, and 256 and more are behind the table.
\<close>

definition syscall_table :: "u32 \<Rightarrow> u64 \<Rightarrow> u64 \<Rightarrow> nat \<Rightarrow> u32 \<Rightarrow> u64 \<Rightarrow> u64 \<Rightarrow> u64 \<Rightarrow> u64 \<Rightarrow> u64 \<Rightarrow> u64 \<Rightarrow> outcome kop" where
  "syscall_table ch start bin_size cpu nr x0 x1 x2 x3 x4 x5 =
     (if nr = 0 then resultV (sys_putc (ucast x0))
      else if nr = 3 then nextK (sys_exit cpu (cint x0))
      else if nr = 5 then resultI (sys_create_pmo cpu x0 x1)
      else if nr = 6 then resultI (sys_map_pmo cpu x0 x1 x2 x3)
      else if nr = 201 then resultU (sys_handle_brk cpu x0)
      else if nr = 1 then resultW (sys_getc ch)
      else if nr = 2 then nextK (schK (sys_yield cpu))
      else if nr = 20 then resultI (sys_create_device_pmo cpu x0 x1)
      else if nr = 17 then resultI (sys_unmap_pmo cpu x0 x1 x2)
      else if nr = 7 then resultI (sys_create_thread cpu x0 x1 x2 x3 (ucast x4) (ucast x5))
      else if nr = 8 then resultI (sys_create_process cpu)
      else if nr = 9 then resultI (sys_register_server cpu x0 x1 x2)
      else if nr = 10 then resultI (sys_register_client cpu (ucast x0) x1)
      else if nr = 12 then result_or_next (sys_ipc_call cpu (ucast x0) x1)
      else if nr = 13 then bindK (sys_ipc_return cpu x0) (\<lambda>r. case r of Inl _ \<Rightarrow> retK Back | Inr n \<Rightarrow> retK (Next n))
      else if nr = 51 then result_or_next (sys_ipc_reg_call cpu (ucast x0) x1)
      else if nr = 15 then resultI (sys_cap_copy_to cpu x0 x1)
      else if nr = 16 then resultI (sys_cap_copy_from cpu x0 x1)
      else if nr = 18 then resultI (sys_set_affinity cpu x0 (ucast x1))
      else if nr = 19 then resultI (sys_get_affinity cpu x0)
      else if nr = 50 then resultW (sys_get_cpu_id cpu)
      else if nr = 101 then resultI (sys_create_pmos cpu x0 x1)
      else if nr = 103 then resultI (sys_write_pmo cpu x0 x1 x2 x3)
      else if nr = 102 then resultI (sys_map_pmos cpu x0 x1 x2)
      else if nr = 104 then resultI (sys_read_pmo cpu x0 x1 x2 x3)
      else if nr = 105 then resultI (sys_transfer_caps cpu x0 x1 (cint x2) x3)
      else if nr = 253 then resultI (sys_fs_load_cpio start bin_size cpu x0)
      else if nr = 255 then resultV (sys_debug x0)
      else failK WILD)"

end
