(* ===== verification/IpcProps.thy ===== *)
theory IpcProps
  imports CapLife Exception
begin

text \<open>
  Properties of the entries to the kernel: an IPC call and its return, the timer interrupt, and system
  calls whose arguments are not checked.
\<close>

section \<open>IPC\<close>

lemma small_cap: "i < 64 \<Longrightarrow> sint (of_nat i :: u32) = int i"
  by (simp add: signed_of_nat signed_take_bit_int_eq_self)

lemma cint_small: "i < 64 \<Longrightarrow> cint (of_nat i) = int i"
proof -
  assume i: "i < 64"
  have "(ucast (of_nat i :: u64) :: u32) = of_nat i" using i by (simp add: unsigned_of_nat take_bit_nat_eq_self)
  then show ?thesis using small_cap [OF i] by (simp add: cint_def)
qed

text \<open>
  A client thread \<open>c\<close> that runs on a CPU and holds, in slot \<open>i\<close> of its process, a connection whose shadow
  thread is \<open>t\<close>. \<open>cc\<close> and \<open>tc\<close> are the contexts of the two threads, \<open>top\<close> and \<open>callback\<close> the stack and the
  entry point of the server.
\<close>

definition connected :: "(nat \<Rightarrow> nat) \<Rightarrow> nat \<Rightarrow> nat \<Rightarrow> nat \<Rightarrow> nat \<Rightarrow> nat \<Rightarrow> kernel \<Rightarrow> bool" where
  "connected ext cpu c i conn t k \<longleftrightarrow> caps_inv ext k \<and> i < 64 \<and> c \<noteq> t \<and>
     cpu < length (current_threads (ksch k)) \<and> current (ksch k) cpu = Some (Thr c) \<and>
     (\<exists>ct p. kthreads k c = Some ct \<and> th_process ct = Some p \<and> cap_object k p i = Some conn) \<and>
     (\<exists>x. kobjs k conn = Some x \<and> ob_type x = TYPE_CONNECTION \<and> unat (refcount x) < 2 ^ 64 - 1) \<and>
     (\<exists>cn. conns k conn = Some cn \<and> conn_target cn = Some t)"

definition server_thread :: "nat \<Rightarrow> nat \<Rightarrow> server_ipc_config \<Rightarrow> kernel \<Rightarrow> bool" where
  "server_thread t vt sc k \<longleftrightarrow> (\<exists>tt cfg. kthreads k t = Some tt \<and> server_config tt = Some (Some cfg) \<and> configs k cfg = Some sc) \<and>
     (\<exists>tc. ctxs (ksch k) (Thr t) = Some tc \<and> t_type tc = TYPE_SHADOW \<and> t_state tc \<noteq> TS_READY) \<and>
     thread_vmspace (ksch k) (Thr t) = Some vt"

text \<open>The context with which the server starts.\<close>

definition server_ctx :: "nat \<Rightarrow> u64 \<Rightarrow> u64 \<Rightarrow> u64 \<Rightarrow> thread_ctx \<Rightarrow> thread_ctx \<Rightarrow> thread_ctx" where
  "server_ctx cpu stk callback arg cc tc =
     (set_reg X0 arg (set_reg ELR_EL1 callback (set_reg SP_EL0 stk tc)))\<lparr>t_sc := t_sc cc, t_cpuid := of_nat cpu, t_state := TS_RUNNING\<rparr>"

definition after_call :: "nat \<Rightarrow> nat \<Rightarrow> nat \<Rightarrow> nat \<Rightarrow> thread_ctx \<Rightarrow> thread_ctx \<Rightarrow> ipc_connection \<Rightarrow> kthread \<Rightarrow> kernel \<Rightarrow> kernel" where
  "after_call cpu c conn t cc sctx cn tt k = k\<lparr>
     kthreads := (kthreads k)(t \<mapsto> tt\<lparr>active_conn := Some (Some conn)\<rparr>),
     conns := (conns k)(conn \<mapsto> cn\<lparr>conn_source := Some (Thr c)\<rparr>),
     ksch := ksch k\<lparr>ctxs := (ctxs (ksch k))(Thr c \<mapsto> cc\<lparr>t_state := TS_WAITING\<rparr>, Thr t \<mapsto> sctx),
       current_threads := (current_threads (ksch k))[cpu := Some (Thr t)]\<rparr>\<rparr>"

lemma ipc_call_eq:
  assumes con: "connected ext cpu c i conn t k" and srv: "server_thread t vt sc k"
    and cc: "ctxs (ksch k) (Thr c) = Some cc" and tc: "ctxs (ksch k) (Thr t) = Some tc"
    and cn: "conns k conn = Some cn" and tt: "kthreads k t = Some tt"
  shows "sys_ipc_reg_call cpu (of_nat i) arg k = Inr (Inr (Thr t, Some vt),
    after_call cpu c conn t cc (server_ctx cpu (server_stack_top cn) (sc_callback sc) arg cc tc) cn tt k)"
proof -
  obtain ct p x where inv: "caps_inv ext k" and i: "i < 64" and ct: "c \<noteq> t"
      "cpu < length (current_threads (ksch k))" "current (ksch k) cpu = Some (Thr c)"
      "kthreads k c = Some ct" "th_process ct = Some p"
    and cap: "cap_object k p i = Some conn" and x: "kobjs k conn = Some x" "ob_type x = TYPE_CONNECTION" "unat (refcount x) < 2 ^ 64 - 1"
    and tg: "conn_target cn = Some t"
    using con cn by (auto simp: connected_def)
  obtain cfg where cfg: "server_config tt = Some (Some cfg)" "configs k cfg = Some sc"
    and st: "t_type tc = TYPE_SHADOW" "t_state tc \<noteq> TS_READY" and vt: "thread_vmspace (ksch k) (Thr t) = Some vt"
    using srv tt tc by (auto simp: server_thread_def)
  define k1 where "k1 = k\<lparr>kobjs := (kobjs k)(conn \<mapsto> x\<lparr>refcount := refcount x + 1\<rparr>)\<rparr>"
  define k2 where "k2 = k1\<lparr>conns := (conns k)(conn \<mapsto> cn\<lparr>conn_source := Some (Thr c)\<rparr>)\<rparr>"
  define k3 where "k3 = k2\<lparr>kthreads := (kthreads k)(t \<mapsto> tt\<lparr>active_conn := Some (Some conn)\<rparr>)\<rparr>"
  define s4 where "s4 = ksch k\<lparr>ctxs := (ctxs (ksch k))(Thr c \<mapsto> cc\<lparr>t_state := TS_WAITING\<rparr>)\<rparr>"
  define k4 where "k4 = k3\<lparr>ksch := s4\<rparr>"
  define k5 where "k5 = k4\<lparr>kobjs := kobjs k\<rparr>"
  have get: "obj_get p (int i) TYPE_CONNECTION k = Inr (Some conn, k1)"
    using obj_get_eq [OF inv cap x(1), of "Some TYPE_CONNECTION"] x(2) by (simp add: obj_get_def k1_def)
  have put: "obj_put (Some conn) k4 = Inr ((), k5)"
  proof -
    have "ring_slots (copies k conn) \<noteq> []" by (rule cap_objectE [OF inv cap]) auto
    then have "refcount x \<noteq> 0" using caps_invD(7) [OF inv x(1)] by auto
    then show ?thesis
      using x(1) by (simp add: obj_put_def object_put_def kop_defs upd_refcount_def Let_def fun_upd_idem
          k5_def k4_def k3_def k2_def k1_def)
  qed
  define w where "w = (\<lambda>ctx. k5\<lparr>ksch := s4\<lparr>ctxs := (ctxs s4)(Thr t \<mapsto> ctx)\<rparr>\<rparr>)"
  let ?sp = "set_reg SP_EL0 (server_stack_top cn) tc"
  let ?ip = "set_reg ELR_EL1 (sc_callback sc) ?sp"
  let ?ar = "set_reg X0 arg ?ip"
  have steps:
    "cur_process cpu k = Inr (p, k)"
    "derefK (\<lambda>k. conns k conn) k1 = Inr (cn, k1)"
    "liftK (deref (conn_target cn)) k1 = Inr (t, k1)"
    "cur_thread cpu k1 = Inr (Some (Thr c), k1)"
    "upd_conn conn (\<lambda>x. x\<lparr>conn_source := Some (Thr c)\<rparr>) k1 = Inr ((), k2)"
    "upd_kthread t (\<lambda>th. th\<lparr>active_conn := Some (Some conn)\<rparr>) k2 = Inr ((), k3)"
    "liftK (deref (Some (Thr c))) k3 = Inr (Thr c, k3)"
    "schU (upd_ctx (Thr c) (\<lambda>x. x\<lparr>t_state := TS_WAITING\<rparr>)) k3 = Inr ((), k4)"
    "derefK (\<lambda>k. conns k conn) k5 = Inr (cn\<lparr>conn_source := Some (Thr c)\<rparr>, k5)"
    "schU (arch_set_thread_stack (Thr t) (server_stack_top (cn\<lparr>conn_source := Some (Thr c)\<rparr>))) k5 = Inr ((), w ?sp)"
    "config_of t (w ?sp) = Inr (cfg, w ?sp)"
    "derefK (\<lambda>k. configs k cfg) (w ?sp) = Inr (sc, w ?sp)"
    "schU (arch_set_thread_next_ip (Thr t) (sc_callback sc)) (w ?sp) = Inr ((), w ?ip)"
    "schU (arch_set_thread_arg (Thr t) arg) (w ?ip) = Inr ((), w ?ar)"
    "derefK (\<lambda>k. ctxs (ksch k) (Thr c)) (w ?ar) = Inr (cc\<lparr>t_state := TS_WAITING\<rparr>, w ?ar)"
    "schU (upd_ctx (Thr t) (\<lambda>y. y\<lparr>t_sc := t_sc (cc\<lparr>t_state := TS_WAITING\<rparr>)\<rparr>)) (w ?ar) = Inr ((), w (?ar\<lparr>t_sc := t_sc cc\<rparr>))"
    using ct cn tt tg cc tc cfg
    by (simp_all add: cur_process_def cur_kthread_def cur_thread_def thread_of_def kop_defs upd_conn_def upd_kthread_def upd_ctx_def
        config_of_def arch_set_thread_stack_def arch_set_thread_next_ip_def arch_set_thread_arg_def
        k1_def k2_def k3_def k4_def k5_def s4_def w_def)
  have sw: "switch_to cpu (Thr t) (w (?ar\<lparr>t_sc := t_sc cc\<rparr>)) = Inr ((Thr t, Some vt),
      after_call cpu c conn t cc (server_ctx cpu (server_stack_top cn) (sc_callback sc) arg cc tc) cn tt k)"
    using ct st vt by (simp add: switch_to_def kop_defs switch_to_thread_def switch_context_def set_reg_def server_ctx_def after_call_def
        w_def s4_def k5_def k4_def k3_def k2_def k1_def)
  show ?thesis
    unfolding sys_ipc_reg_call_def thread_migrate_to_server_def small_cap [OF i]
    apply (rule bindK_eq, rule steps(1), rule bindK_eq, rule get, simp only: option.case)
    apply (rule bindK_eq, rule bindK_eq, rule steps(2), rule bindK_eq, rule steps(3), rule bindK_eq, rule steps(4))
    apply (rule bindK_eq, rule steps(5), rule bindK_eq, rule steps(6), rule bindK_eq, rule steps(7), rule bindK_eq, rule steps(8))
    apply (rule bindK_eq, rule put, rule bindK_eq, rule steps(9), rule bindK_eq, rule steps(10), rule bindK_eq, rule steps(11))
    apply (rule bindK_eq, rule steps(12), rule bindK_eq, rule steps(13), rule bindK_eq, rule steps(14), rule bindK_eq, rule steps(15))
    apply (rule bindK_eq, rule steps(16), rule sw, simp only: retK_def)
    done
qed

lemma ipc_return_eq:
  assumes ct: "c \<noteq> t" "cpu < length (current_threads (ksch k))" "current (ksch k) cpu = Some (Thr c)"
    and vc: "thread_vmspace (ksch k) (Thr c) = Some vc" "t_type cc \<in> {TYPE_ROOT, TYPE_USER, TYPE_SHADOW}"
  shows "sys_ipc_return cpu ret (after_call cpu c conn t cc sctx cn tt k) = Inr (Inr (Thr c, Some vc),
    k\<lparr>kthreads := (kthreads k)(t \<mapsto> tt\<lparr>active_conn := Some None\<rparr>), conns := (conns k)(conn \<mapsto> cn\<lparr>conn_source := Some (Thr c)\<rparr>),
      ksch := ksch k\<lparr>ctxs := (ctxs (ksch k))(Thr t \<mapsto> sctx, Thr c \<mapsto> (set_reg X0 ret cc)\<lparr>t_cpuid := of_nat cpu, t_state := TS_RUNNING\<rparr>)\<rparr>\<rparr>)"
proof -
  let ?k = "after_call cpu c conn t cc sctx cn tt k"
  define k1 where "k1 = ?k\<lparr>kthreads := (kthreads k)(t \<mapsto> tt\<lparr>active_conn := Some None\<rparr>)\<rparr>"
  define k2 where "k2 = k1\<lparr>ksch := ksch k1\<lparr>ctxs := (ctxs (ksch k1))(Thr c \<mapsto> set_reg X0 ret (cc\<lparr>t_state := TS_WAITING\<rparr>))\<rparr>\<rparr>"
  have steps:
    "cur_kthread cpu ?k = Inr (tt\<lparr>active_conn := Some (Some conn)\<rparr>, ?k)"
    "liftK (deref (active_conn (tt\<lparr>active_conn := Some (Some conn)\<rparr>))) ?k = Inr (Some conn, ?k)"
    "derefK (\<lambda>k. conns k conn) ?k = Inr (cn\<lparr>conn_source := Some (Thr c)\<rparr>, ?k)"
    "cur_thread cpu ?k = Inr (Some (Thr t), ?k)"
    "liftK (deref (Some (Thr t))) ?k = Inr (Thr t, ?k)"
    "thread_of (Thr t) ?k = Inr (t, ?k)"
    "upd_kthread t (\<lambda>th. th\<lparr>active_conn := Some None\<rparr>) ?k = Inr ((), k1)"
    "liftK (deref (conn_source (cn\<lparr>conn_source := Some (Thr c)\<rparr>))) k1 = Inr (Thr c, k1)"
    "schU (arch_set_thread_return (Thr c) ret) k1 = Inr ((), k2)"
    using ct by (simp_all add: cur_kthread_def cur_thread_def thread_of_def kop_defs upd_kthread_def upd_ctx_def
        arch_set_thread_return_def after_call_def k1_def k2_def)
  have old: "(current_threads (ksch k))[cpu := Some (Thr c)] = current_threads (ksch k)"
    using ct(3) by (metis list_update_id)
  have sw: "switch_to cpu (Thr c) k2 = Inr ((Thr c, Some vc),
    k\<lparr>kthreads := (kthreads k)(t \<mapsto> tt\<lparr>active_conn := Some None\<rparr>), conns := (conns k)(conn \<mapsto> cn\<lparr>conn_source := Some (Thr c)\<rparr>),
      ksch := ksch k\<lparr>ctxs := (ctxs (ksch k))(Thr t \<mapsto> sctx, Thr c \<mapsto> (set_reg X0 ret cc)\<lparr>t_cpuid := of_nat cpu, t_state := TS_RUNNING\<rparr>)\<rparr>\<rparr>)"
    using ct vc by (auto simp: switch_to_def kop_defs switch_to_thread_def switch_context_def set_reg_def after_call_def
        k1_def k2_def old fun_upd_twist)
  show ?thesis
    unfolding sys_ipc_return_def thread_migrate_to_client_def
    apply (rule bindK_eq, rule steps(1), rule bindK_eq, rule steps(2), simp only: option.case)
    apply (rule bindK_eq, rule bindK_eq, rule steps(3), rule bindK_eq, rule steps(4), rule bindK_eq, rule steps(5))
    apply (rule bindK_eq, rule steps(6), rule bindK_eq, rule steps(7), rule bindK_eq, rule steps(8), rule bindK_eq, rule steps(9))
    apply (rule sw, simp only: retK_def)
    done
qed

section \<open>The timer\<close>

lemma timer_irq_eq:
  assumes inv: "sched_ok (ksch k)" and c: "cpu < PLAT_CPU_NUM"
  shows "plat_handle_irq cpu INT_SRC_TIMER3 k =
    Inr ((), k\<lparr>ksch := map_budget cpu (\<lambda>b. if b > 0 then b - 1 else b) (ksch k)\<rparr>)"
proof -
  have "push_bit (ctzl (ucast INT_SRC_TIMER3)) 1 = INT_SRC_TIMER3" by code_simp
  then show ?thesis
    using timer_spec [OF assms] by (simp add: plat_handle_irq_def handle_timer_irq_def schU_def Let_def)
qed

lemma budget_u32: "b \<le> 2 \<Longrightarrow> b = 0 \<or> b = 1 \<or> b = (2 :: u32)"
proof -
  assume "b \<le> 2"
  then have "unat b \<le> 2" by (simp add: word_le_nat_alt)
  then consider "unat b = 0" | "unat b = 1" | "unat b = 2" by linarith
  then show ?thesis by cases (auto simp: word_unat_eq_iff)
qed

lemma two_ticks:
  assumes inv: "sched_ok s" and c: "cpu < PLAT_CPU_NUM" and b: "\<And>t. current s cpu = Some t \<Longrightarrow> \<exists>b \<le> DEFAULT_BUDGET. budget_of t s = Some b"
  defines "f \<equiv> \<lambda>b. if b > 0 then b - 1 else b"
  shows "exhausted cpu (map_budget cpu f (map_budget cpu f s))"
proof (cases "current s cpu")
  case None
  then show ?thesis by (simp add: exhausted_def)
next
  case (Some t)
  obtain k p b where k: "ctxs s t = Some k" "t_sc k = Some p" "budgets s p = Some b" "t_state k = TS_RUNNING"
    by (rule current_ctx [OF inv c Some])
  have "b \<le> 2" using assms(3) [OF Some] k by (auto simp: budget_of_def DEFAULT_BUDGET_def)
  then have "f (f b) = 0" using budget_u32 [of b] by (auto simp: f_def)
  then show ?thesis using Some k by (simp add: map_budget_def exhausted_def has_budget_def)
qed

section \<open>Properties\<close>

text \<open>
  C10: an IPC call moves the client to the server and back: the call continues in the shadow thread of the
  connection, on the client's CPU, in the server's address space, with the callback as its program
  counter, the stack of the connection, the argument in \<open>x0\<close> and the client's time slice. The return
  continues in the client with the result in \<open>x0\<close> and every other register as it was, and leaves no
  reference on the connection: objects, slots and tables are those before the call.
\<close>

theorem ipc_call_return_roundtrip:
  assumes "connected ext cpu c i conn t k" "server_thread t vt sc k"
    and "ctxs (ksch k) (Thr c) = Some cc" "ctxs (ksch k) (Thr t) = Some tc" "conns k conn = Some cn"
    and "thread_vmspace (ksch k) (Thr c) = Some vc" "t_type cc \<in> {TYPE_ROOT, TYPE_USER, TYPE_SHADOW}"
  shows "\<exists>k1 k2. sys_ipc_reg_call cpu (of_nat i) arg k = Inr (Inr (Thr t, Some vt), k1) \<and>
    ctxs (ksch k1) (Thr t) = Some (server_ctx cpu (server_stack_top cn) (sc_callback sc) arg cc tc) \<and>
    sys_ipc_return cpu ret k1 = Inr (Inr (Thr c, Some vc), k2) \<and>
    ctxs (ksch k2) (Thr c) = Some ((set_reg X0 ret cc)\<lparr>t_cpuid := of_nat cpu, t_state := TS_RUNNING\<rparr>) \<and>
    current_threads (ksch k2) = current_threads (ksch k) \<and>
    kobjs k2 = kobjs k \<and> copies k2 = copies k \<and> kslots k2 = kslots k \<and> procs k2 = procs k"
proof -
  obtain tt where tt: "kthreads k t = Some tt" using assms(2) by (auto simp: server_thread_def)
  have ct: "c \<noteq> t" "cpu < length (current_threads (ksch k))" "current (ksch k) cpu = Some (Thr c)"
    using assms(1) by (auto simp: connected_def)
  show ?thesis
    using ipc_call_eq [OF assms(1-5) tt] ipc_return_eq [OF ct assms(6,7)] ct(1)
    by (auto simp: after_call_def)
qed

theorem ipc_call_return_roundtrip_witness:
  "\<exists>k1 k2. sys_ipc_reg_call 0 (of_nat 2) 77 demo_kernel = Inr (Inr (Thr 2, Some 62), k1) \<and>
    ctxs (ksch k1) (Thr 2) = Some (server_ctx 0 (server_stack_top demo_connection) (sc_callback demo_config) 77
      (demo_context TYPE_USER TS_RUNNING (Some 50)) (demo_context TYPE_SHADOW TS_INIT None)) \<and>
    sys_ipc_return 0 88 k1 = Inr (Inr (Thr 1, Some 61), k2) \<and>
    ctxs (ksch k2) (Thr 1) = Some ((set_reg X0 88 (demo_context TYPE_USER TS_RUNNING (Some 50)))\<lparr>t_cpuid := of_nat 0, t_state := TS_RUNNING\<rparr>) \<and>
    current_threads (ksch k2) = current_threads (ksch demo_kernel) \<and>
    kobjs k2 = kobjs demo_kernel \<and> copies k2 = copies demo_kernel \<and> kslots k2 = kslots demo_kernel \<and> procs k2 = procs demo_kernel"
proof (rule ipc_call_return_roundtrip)
  show "connected (\<lambda>_. 0) 0 1 2 15 2 demo_kernel"
    using demo_inv unfolding connected_def
    by (simp add: cap_object_def) (simp add: demo_kernel_def table_of_slots_def demo_slot_def demo_connection_def)
qed (simp_all add: server_thread_def demo_kernel_def demo_context_def)

text \<open>
  C39: a timer interrupt from user mode always ends the time slice of the current thread: the tick is
  counted twice, by \<^verbatim>\<open>plat_handle_irq\<close> and again by \<^verbatim>\<open>handle_irq\<close>, so the default
  budget of 2 is used up at once. The next thread of the queue (or the idle thread) runs, the current one
  goes to the end, and the invariant of the scheduler is kept.
\<close>

theorem timer_interrupt_switches:
  assumes "sched_ok (ksch k)" "vm_ok (ksch k)" "cpu < PLAT_CPU_NUM"
    and "case current (ksch k) cpu of None \<Rightarrow> True | Some t \<Rightarrow> (case budget_of t (ksch k) of None \<Rightarrow> False | Some b \<Rightarrow> b \<le> DEFAULT_BUDGET)"
  shows "\<exists>t v s'. handle_irq cpu IRQ_EL0_64 INT_SRC_TIMER3 k = Inr ((True, Next (t, v)), k\<lparr>ksch := s'\<rparr>) \<and>
    sched_ok s' \<and> vm_ok s' \<and> current_threads s' = (current_threads (ksch k))[cpu := Some t] \<and>
    (t, rr_ready_queue s') = next_of cpu (ksch k)"
proof -
  let ?f = "\<lambda>b :: u32. if b > 0 then b - 1 else b"
  let ?s = "map_budget cpu ?f (ksch k)"
  let ?s2 = "map_budget cpu ?f ?s"
  note i1 = map_budget_inv [OF assms(1,3), of ?f] and i2 = map_budget_inv [OF map_budget_inv [OF assms(1,3)] assms(3), of ?f ?f]
  have "exhausted cpu ?s2"
    by (rule two_ticks [OF assms(1,3)]) (use assms(4) in \<open>auto split: option.splits\<close>)
  then obtain s' t where s': "rr_sched cpu ?s2 = Inr (0, s')" "sched_ok s'" "current_threads s' = (current_threads (ksch k))[cpu := Some t]"
    "(t, rr_ready_queue s') = next_of cpu (ksch k)"
    using rr_sched_spec [OF i2 assms(3)] unfolding requeued_budget map_budget_simps next_of_def by blast
  have vm: "vm_ok s'"
    using same_types_vm_ok [OF assms(2)] same_types_trans [OF map_budget_types same_types_trans [OF map_budget_types rr_sched_types [OF s'(1)]]] .
  have "current s' cpu = Some t" using s'(3) assms(3) sched_invD(2) [OF assms(1)] by simp
  then obtain v where v: "switch_context cpu s' = Inr (t, v)" using switch_context_spec [OF s'(2) vm assms(3)] by blast
  have "handle_irq cpu IRQ_EL0_64 INT_SRC_TIMER3 k = Inr ((True, Next (t, v)), k\<lparr>ksch := s'\<rparr>)"
    using timer_irq_eq [OF assms(1,3)] timer_spec [OF i1 assms(3)] s'(1) v
    by (simp add: handle_irq_def kop_defs)
  then show ?thesis using s' vm by blast
qed

theorem timer_interrupt_switches_witness:
  "\<exists>t v s'. handle_irq 0 IRQ_EL0_64 INT_SRC_TIMER3 (demo_kernel\<lparr>ksch := demo_sched\<rparr>) =
      Inr ((True, Next (t, v)), demo_kernel\<lparr>ksch := demo_sched\<rparr>\<lparr>ksch := s'\<rparr>) \<and>
    sched_ok s' \<and> vm_ok s' \<and> current_threads s' = (current_threads (ksch (demo_kernel\<lparr>ksch := demo_sched\<rparr>)))[0 := Some t] \<and>
    (t, rr_ready_queue s') = next_of 0 (ksch (demo_kernel\<lparr>ksch := demo_sched\<rparr>))"
  by (rule timer_interrupt_switches)
    (simp_all add: demo_sched_ok PLAT_CPU_NUM_def demo_sched_sel budget_of_def DEFAULT_BUDGET_def, simp add: demo_sched_def)

text \<open>
  C40: system calls run into a \<^verbatim>\<open>BUG_ON\<close> or a null object on arguments that any user program
  can pass: creating a memory object of size 0, creating a thread in a process for which the caller has
  no capability, and asking for the affinity of a thread for which it has none.
\<close>

theorem unchecked_arguments_crash:
  assumes "cur_process cpu k = Inr (p, k)" "procs k p = Some q" "tab_ok (p_table q)" "i < 64" "\<not> used_slot (p_table q) i"
  shows "sys_create_pmo cpu 0 ty k = Inl BUG \<and>
    sys_create_thread cpu (of_nat i) stack pc arg prio aff k = Inl WILD \<and>
    sys_get_affinity cpu (of_nat i) k = Inl WILD"
proof -
  have get: "obj_get p (int i) type k = Inr (None, k)" for type
    using assms(2,5) is_valid_ok [OF assms(3,4)] by (simp add: obj_get_def get_opaque_def table_get_def kop_defs)
  have "(of_nat i :: u64) \<noteq> - 1"
  proof
    assume "(of_nat i :: u64) = - 1"
    then have "(of_nat (Suc i) :: u64) = 0" by simp
    then have "2 ^ 64 dvd Suc i" by (simp add: word_of_nat_eq_0_iff del: of_nat_Suc)
    then show False using assms(4) by (auto dest: dvd_imp_le)
  qed
  then show ?thesis
    using assms(1) get cint_small [OF assms(4)]
    by (simp add: sys_create_pmo_def create_pmo_def sys_create_thread_def thread_create_def sys_get_affinity_def affinity_thread_def
        get_affinity_of_def put_thread_def obj_put_def kop_defs)
qed

theorem unchecked_arguments_crash_witness:
  "sys_create_pmo 0 0 PMO_ANONYM demo_kernel = Inl BUG \<and>
    sys_create_thread 0 (of_nat 9) 0x8000 0x4000 0 10 0 demo_kernel = Inl WILD \<and> sys_get_affinity 0 (of_nat 9) demo_kernel = Inl WILD"
proof (rule unchecked_arguments_crash)
  show "cur_process 0 demo_kernel = Inr (10, demo_kernel)"
    by (simp add: cur_process_def cur_kthread_def cur_thread_def thread_of_def kop_defs demo_kernel_def)
  show "procs demo_kernel 10 = Some \<lparr>p_table = table_of_slots [Some 100, Some 101, Some 105], thread_list = [1]\<rparr>"
    by (rule demo_facts(7))
qed (simp_all add: table_of_slots_ok table_of_slots_used)

end
