(* ===== verification/PrintkProps.thy ===== *)
theory PrintkProps
  imports Printk
begin

text \<open>
  What is printed: numbers read back as the number they print, padding only fills up, the library of the
  user programs agrees with the kernel's, and where the conversions go wrong.
\<close>

section \<open>Digits\<close>

text \<open>The digits of a number, most significant first, and their value.\<close>

function digits_nat :: "nat \<Rightarrow> nat \<Rightarrow> nat list" where
  "digits_nat b n = (if n = 0 \<or> b \<le> 1 then [] else digits_nat b (n div b) @ [n mod b])"
  by pat_completeness auto

termination digits_nat by (relation "measure snd") auto

declare digits_nat.simps [simp del]

definition digits_value :: "nat \<Rightarrow> nat list \<Rightarrow> nat" where
  "digits_value b = foldl (\<lambda>v d. v * b + d) 0"

lemma digits_nat_value: "1 < b \<Longrightarrow> digits_value b (digits_nat b n) = n"
proof (induction b n rule: digits_nat.induct)
  case (1 b n)
  then show ?case by (subst digits_nat.simps) (auto simp: digits_value_def)
qed

lemma digits_nat_less: "1 < b \<Longrightarrow> d \<in> set (digits_nat b n) \<Longrightarrow> d < b"
proof (induction b n rule: digits_nat.induct)
  case (1 b n)
  from 1(3) show ?case
    by (subst (asm) digits_nat.simps) (use 1 in \<open>auto split: if_splits\<close>)
qed

lemma digits_nat_length: "1 < b \<Longrightarrow> n < b ^ s \<Longrightarrow> length (digits_nat b n) \<le> s"
proof (induction s arbitrary: n)
  case 0
  then show ?case by (simp add: digits_nat.simps)
next
  case (Suc s)
  have "n div b < b ^ s" using Suc.prems by (simp add: less_mult_imp_div_less mult.commute)
  then show ?case using Suc.IH [of "n div b"] Suc.prems by (subst digits_nat.simps) auto
qed

lemma digits_nat_Nil: "1 < b \<Longrightarrow> digits_nat b n = [] \<longleftrightarrow> n = 0"
  by (subst digits_nat.simps) auto

lemma digit_loop_eq:
  assumes b: "1 < b" "b < 2 ^ 64"
  shows "length (digits_nat b (unat u)) \<le> s \<Longrightarrow> digit_loop letbase (of_nat b) s u buf =
    Inr (s - length (digits_nat b (unat u)), map (kernel_digit letbase \<circ> of_nat) (digits_nat b (unat u)) @ buf)"
proof (induction s arbitrary: u buf)
  case 0
  then have "unat u = 0" using b digits_nat_Nil [of b "unat u"] by simp
  then have "u = 0" by (simp add: unat_eq_0)
  then show ?case by (simp add: digits_nat.simps)
next
  case (Suc s)
  have ub: "unat (of_nat b :: u64) = b" using b by (simp add: unat_of_nat take_bit_nat_eq_self)
  have q: "unat (u div of_nat b) = unat u div b" using ub by (simp add: unat_div)
  have "unat (u mod of_nat b) = unat u mod b" using ub by (simp add: unat_mod)
  then have m: "u mod of_nat b = of_nat (unat u mod b)" by (metis of_nat_unat ucast_id)
  show ?case
  proof (cases "u = 0")
    case True
    then show ?thesis by (simp add: digits_nat.simps)
  next
    case False
    then have nz: "unat u \<noteq> 0" by (simp add: unat_eq_0)
    then have ds: "digits_nat b (unat u) = digits_nat b (unat u div b) @ [unat u mod b]"
      using b by (subst digits_nat.simps) simp
    then have "length (digits_nat b (unat (u div of_nat b))) \<le> s" using Suc.prems by (simp add: q)
    from Suc.IH [OF this] show ?thesis using False ds by (simp add: q m)
  qed
qed

lemma word_digits_length: "8 \<le> b \<Longrightarrow> length (digits_nat b (unat (u :: u64))) \<le> 22"
proof -
  assume b: "8 \<le> b"
  have "unat u < 2 ^ 64" using unsigned_less [of u, where ?'a = nat] by simp
  also have "(2 :: nat) ^ 64 \<le> 8 ^ 22" by simp
  also have "(8 :: nat) ^ 22 \<le> b ^ 22" using b by (intro power_mono) auto
  finally show ?thesis using b by (intro digits_nat_length) auto
qed

section \<open>Reading numbers\<close>

text \<open>A digit is a figure or a letter of either case; every other byte reads as 16, which is no digit.\<close>

definition digit_value :: "u8 \<Rightarrow> nat" where
  "digit_value c =
     (if 0x30 \<le> c \<and> c \<le> 0x39 then unat c - 0x30
      else if 0x61 \<le> c \<and> c \<le> 0x66 then unat c - 0x61 + 10
      else if 0x41 \<le> c \<and> c \<le> 0x46 then unat c - 0x41 + 10
      else 16)"

definition read_num :: "nat \<Rightarrow> u8 list \<Rightarrow> nat" where
  "read_num b text = digits_value b (map digit_value text)"

definition read_int :: "nat \<Rightarrow> u8 list \<Rightarrow> int" where
  "read_int b text = (case text of
     [] \<Rightarrow> 0
   | c # cs \<Rightarrow> if c = 0x2D then - int (read_num b cs) else int (read_num b text))"

text \<open>Blanks around a number are skipped.\<close>

definition strip :: "u8 list \<Rightarrow> u8 list" where
  "strip text = takeWhile (\<lambda>c. c \<noteq> 0x20) (dropWhile (\<lambda>c. c = 0x20) text)"

lemma kernel_digits_good:
  "d < 16 \<Longrightarrow> digit_value (kernel_digit letbase (of_nat d)) = d \<and> kernel_digit letbase (of_nat d) \<notin> {0x20, 0x2D}"
proof -
  assume d: "d < 16"
  have "list_all (\<lambda>d. digit_value (kernel_digit l (of_nat d)) = d \<and> kernel_digit l (of_nat d) \<noteq> 0x20 \<and>
      kernel_digit l (of_nat d) \<noteq> 0x2D) [0..<16]" if "l \<in> {0, 1}" for l
    using that by (elim insertE emptyE) (simp only:, code_simp)+
  then have all: "\<forall>d \<in> {0..<16}. digit_value (kernel_digit l (of_nat d)) = d \<and> kernel_digit l (of_nat d) \<notin> {0x20, 0x2D}"
    if "l \<in> {0, 1}" for l
    using that by (simp add: list_all_iff)
  have "kernel_digit letbase = kernel_digit (if letbase = 0 then 0 else 1)" by (rule ext) (simp add: kernel_digit_def)
  then show ?thesis using all [of "if letbase = 0 then 0 else 1"] d by simp
qed

lemma read_digits:
  assumes "1 < b" "b \<le> 16"
  shows "read_num b (map (kernel_digit letbase \<circ> of_nat) (digits_nat b n)) = n"
proof -
  have "map (digit_value \<circ> (kernel_digit letbase \<circ> of_nat)) (digits_nat b n) = map id (digits_nat b n)"
    using kernel_digits_good digits_nat_less [OF assms(1), of _ n] assms(2) by (intro map_cong) fastforce+
  then show ?thesis using digits_nat_value [OF assms(1)] by (simp add: read_num_def comp_assoc)
qed

lemma digits_no_sign:
  assumes "1 < b" "b \<le> 16"
  shows "c \<in> set (map (kernel_digit letbase \<circ> of_nat) (digits_nat b n)) \<Longrightarrow> c \<notin> {0x20, 0x2D}"
proof -
  assume "c \<in> set (map (kernel_digit letbase \<circ> of_nat) (digits_nat b n))"
  then obtain d where d: "d \<in> set (digits_nat b n)" "c = kernel_digit letbase (of_nat d)" by auto
  then have "d < 16" using digits_nat_less [OF assms(1) d(1)] assms(2) by simp
  from kernel_digits_good [OF this] show ?thesis using d(2) by simp
qed

text \<open>The text of a number without padding.\<close>

definition num_text :: "u8 \<Rightarrow> nat \<Rightarrow> bool \<Rightarrow> u64 \<Rightarrow> u8 list" where
  "num_text letbase b sign i =
     (if i = 0 then [0x30]
      else if sign \<and> b = 10 \<and> sint i < 0 then 0x2D # map (kernel_digit letbase \<circ> of_nat) (digits_nat b (unat (- i)))
      else map (kernel_digit letbase \<circ> of_nat) (digits_nat b (unat i)))"

definition shown :: "nat \<Rightarrow> bool \<Rightarrow> u64 \<Rightarrow> int" where
  "shown b sign i = (if sign \<and> b = 10 then sint i else uint i)"

lemma prints_0 [simp]: "w \<le> 0 \<Longrightarrow> prints text w flags = (text, int (length text))"
  by (simp add: prints_def)

lemma prints_spec: "prints text w flags = (t, pc) \<Longrightarrow> pc = int (length t) \<and> length t = max (nat w) (length text)"
  by (auto simp: prints_def Let_def split: if_splits)

lemma base_word: "8 \<le> b \<Longrightarrow> b \<le> 16 \<Longrightarrow> (of_nat b :: u64) = 10 \<longleftrightarrow> b = 10"
  by (auto simp: word_unat_eq_iff unat_of_nat take_bit_nat_eq_self)

lemma write_num_eq:
  assumes b: "8 \<le> b" "b \<le> 16"
  shows "printk_write_num letbase i (of_nat b) sign w flags = Inr (
    if i \<noteq> 0 \<and> sign \<and> b = 10 \<and> sint i < 0 \<and> w \<noteq> 0 \<and> flags AND PAD_ZERO \<noteq> 0
    then (let (t, pc) = prints (tl (num_text letbase b sign i)) (w - 1) flags in (0x2D # t, 1 + pc))
    else prints (num_text letbase b sign i) w flags)"
proof -
  have l: "length (digits_nat b (unat u)) \<le> 22" for u :: u64 using b(1) by (rule word_digits_length)
  have d: "digit_loop letbase (of_nat b) 63 u [] =
      Inr (63 - length (digits_nat b (unat u)), map (kernel_digit letbase \<circ> of_nat) (digits_nat b (unat u)))" for u
    using digit_loop_eq [of b u 63 letbase "[]"] l [of u] b by simp
  have "63 - length (digits_nat b (unat u)) \<noteq> 0" for u :: u64 using l [of u] by simp
  then show ?thesis
    using b by (auto simp: printk_write_num_def d PRINT_BUF_LEN_def Let_def num_text_def base_word split: prod.splits)
qed

lemma digits_nat_pos: "1 < b \<Longrightarrow> n \<noteq> 0 \<Longrightarrow> digits_nat b n \<noteq> []"
  by (simp add: digits_nat_Nil)

lemma neg_value: "sint (i :: u64) < 0 \<Longrightarrow> int (unat (- i)) = - sint i"
proof -
  assume n: "sint i < 0"
  then have s: "sint i = uint i - 2 ^ 64" using sint_cases [of i] uint_ge_0 [of i] by linarith
  have "i \<noteq> 0" using n by auto
  then have "0 < uint i" using uint_ge_0 [of i] by (simp add: order_less_le unsigned_eq_0_iff)
  moreover have "uint i < 2 ^ 64" using unsigned_less [of i, where ?'a = int] by simp
  ultimately have "uint (- i) = 2 ^ 64 - uint i" by (simp add: uint_word_ariths zmod_zminus1_eq_if)
  then show ?thesis using s by (simp add: uint_nat [symmetric])
qed

lemma pos_value: "0 \<le> sint (i :: u64) \<Longrightarrow> sint i = uint i"
  using sint_cases [of i] unsigned_less [of i, where ?'a = int] by auto

lemma read_num_zeros: "read_num b (replicate k 0x30 @ t) = read_num b t"
proof (induction k)
  case (Suc k)
  have "digit_value 0x30 = 0" by code_simp
  then show ?case using Suc by (simp add: read_num_def digits_value_def)
qed simp

lemma read_int_plain: "0x2D \<notin> set t \<Longrightarrow> read_int b t = int (read_num b t)"
  by (cases t) (auto simp: read_int_def read_num_def digits_value_def)

lemma read_int_zeros: "0x2D \<notin> set t \<Longrightarrow> read_int b (replicate k 0x30 @ t) = int (read_num b t)"
  by (subst read_int_plain) (auto simp: read_num_zeros)

lemma read_num_text:
  assumes "8 \<le> b" "b \<le> 16"
  shows "read_int b (num_text letbase b sign i) = shown b sign i"
proof -
  have z: "read_int b [0x30] = 0" using read_int_zeros [of "[]" b 1] by (simp add: read_num_def digits_value_def)
  have p: "read_int b (map (kernel_digit letbase \<circ> of_nat) (digits_nat b (unat i))) = uint i"
    using digits_no_sign [of b _ letbase "unat i"] read_digits [of b letbase "unat i"] assms
    by (subst read_int_plain) auto
  have n: "read_int b (0x2D # map (kernel_digit letbase \<circ> of_nat) (digits_nat b (unat (- i)))) = - int (unat (- i))"
    using read_digits [of b letbase "unat (- i)"] assms by (simp add: read_int_def)
  consider "i = 0" | "i \<noteq> 0" "sign" "b = 10" "sint i < 0" | "i \<noteq> 0" "\<not> (sign \<and> b = 10 \<and> sint i < 0)" by blast
  then show ?thesis
  proof cases
    case 1
    then show ?thesis using z by (simp add: num_text_def shown_def)
  next
    case 2
    then show ?thesis using n neg_value [of i] by (simp add: num_text_def shown_def)
  next
    case 3
    then show ?thesis using p pos_value [of i] by (auto simp: num_text_def shown_def)
  qed
qed

lemma num_text_signs:
  assumes "8 \<le> b" "b \<le> 16"
  shows "0x20 \<notin> set (num_text letbase b sign i)"
    and "0x2D \<notin> set (if i \<noteq> 0 \<and> sign \<and> b = 10 \<and> sint i < 0 then tl (num_text letbase b sign i) else num_text letbase b sign i)"
proof -
  have d: "c \<notin> set (map (kernel_digit letbase \<circ> of_nat) (digits_nat b' n))" if "c \<in> {0x20, 0x2D}" "b' \<in> {b, 10}" for n c b'
    using digits_no_sign [of b' c letbase n] assms that by auto
  show "0x20 \<notin> set (num_text letbase b sign i)"
    using d [of "0x20" b] d [of "0x20" 10] by (simp add: num_text_def del: set_map)
  show "0x2D \<notin> set (if i \<noteq> 0 \<and> sign \<and> b = 10 \<and> sint i < 0 then tl (num_text letbase b sign i) else num_text letbase b sign i)"
    using d [of "0x2D" b] d [of "0x2D" 10] by (simp add: num_text_def del: set_map)
qed

lemma num_text_nonempty:
  assumes "8 \<le> b"
  shows "num_text letbase b sign i \<noteq> []"
  using digits_nat_pos [of b "unat i"] assms by (auto simp: num_text_def unat_eq_0)

section \<open>Padding\<close>

lemma strip_padded: "0x20 \<notin> set text \<Longrightarrow> strip (replicate k 0x20 @ text @ replicate l 0x20) = text"
proof -
  assume n: "0x20 \<notin> set text"
  have t: "takeWhile (\<lambda>c. c \<noteq> 0x20) (s @ replicate l 0x20) = s" if "0x20 \<notin> set s" for s :: "u8 list"
    using that by (subst takeWhile_append2) (auto simp: takeWhile_eq_Nil_iff hd_replicate)
  have "dropWhile (\<lambda>c. c = 0x20) (text @ replicate l 0x20) = (if text = [] then [] else text @ replicate l 0x20)"
    using n by (cases "text") auto
  moreover have "dropWhile (\<lambda>c. c = 0x20) (replicate k 0x20 @ s) = dropWhile (\<lambda>c. c = 0x20) s" for s :: "u8 list"
    by (induction k) auto
  ultimately show ?thesis using t [OF n] by (simp add: strip_def)
qed

lemma strip_id: "0x20 \<notin> set text \<Longrightarrow> strip text = text"
  using strip_padded [of "text" 0 0] by simp

lemma prints_cases:
  assumes "prints text w flags = (t, pc)" "flags AND PAD_ZERO = 0 \<or> flags AND PAD_RIGHT = 0"
  shows "(\<exists>k l. t = replicate k 0x20 @ text @ replicate l 0x20) \<or> (w > 0 \<and> flags AND PAD_ZERO \<noteq> 0 \<and> (\<exists>k. t = replicate k 0x30 @ text))"
proof -
  define c where "c = (if w > 0 \<and> flags AND PAD_ZERO \<noteq> 0 then 0x30 else 0x20 :: u8)"
  define k where "k = nat (if w > 0 then if int (length text) \<ge> w then 0 else w - int (length text) else w)"
  have t: "t = (if flags AND PAD_RIGHT = 0 then replicate k c @ text else text @ replicate k c)"
    using assms(1) unfolding prints_def Let_def c_def k_def by (auto split: if_splits)
  show ?thesis
  proof (cases "flags AND PAD_RIGHT = 0")
    case True
    then have "t = replicate k c @ text @ replicate 0 0x20" using t by simp
    then show ?thesis using c_def by (metis append_Nil2 replicate_0)
  next
    case False
    then have "c = 0x20" using assms(2) by (simp add: c_def)
    then have "t = replicate 0 0x20 @ text @ replicate k 0x20" using t False by simp
    then show ?thesis by blast
  qed
qed

lemma padded_neg:
  assumes "prints text (w - 1) flags = (t, pc)" "flags AND PAD_ZERO = 0 \<or> flags AND PAD_RIGHT = 0" "flags AND PAD_ZERO \<noteq> 0"
    "w \<noteq> 0" "0x20 \<notin> set text" "0x2D \<notin> set text"
  shows "strip (0x2D # t) = 0x2D # t \<and> read_num b t = read_num b text"
proof -
  have "\<exists>k. t = replicate k 0x30 @ text"
  proof (cases "w > 1")
    case True
    then show ?thesis using assms(1-3) by (auto simp: prints_def Let_def split: if_splits)
  next
    case False
    then show ?thesis using assms(1) by (auto intro: exI [of _ 0])
  qed
  then obtain k where t: "t = replicate k 0x30 @ text" by blast
  then have "0x20 \<notin> set (0x2D # t)" using assms(5) by auto
  then show ?thesis using t strip_id read_num_zeros by blast
qed

lemma padded_num:
  assumes b: "8 \<le> b" "b \<le> 16" and fl: "flags AND PAD_ZERO = 0 \<or> flags AND PAD_RIGHT = 0"
  shows "\<exists>t. printk_write_num letbase i (of_nat b) sign w flags = Inr (t, int (length t)) \<and>
    length t = max (nat w) (length (num_text letbase b sign i)) \<and> read_int b (strip t) = shown b sign i"
proof -
  let ?n = "num_text letbase b sign i"
  obtain t pc where p: "prints ?n w flags = (t, pc)" by force
  obtain t' pc' where p': "prints (tl ?n) (w - 1) flags = (t', pc')" by force
  note sg = num_text_signs [OF b, where letbase = letbase and sign = sign and i = i]
  show ?thesis
  proof (cases "i \<noteq> 0 \<and> sign \<and> b = 10 \<and> sint i < 0 \<and> w \<noteq> 0 \<and> flags AND PAD_ZERO \<noteq> 0")
    case True
    have n: "?n = 0x2D # tl ?n" using True by (simp add: num_text_def)
    then have l: "length ?n = Suc (length (tl ?n))" by (metis length_Cons)
    have len: "Suc (length t') = max (nat w) (length ?n)"
      using prints_spec [OF p'] True unfolding l by (cases "w \<le> 0") auto
    have "0x20 \<notin> set (tl ?n)" using sg(1) n by (metis list.set_intros(2))
    moreover have "0x2D \<notin> set (tl ?n)" using sg(2) True by simp
    ultimately have s: "strip (0x2D # t') = 0x2D # t'" "read_num b t' = read_num b (tl ?n)"
      using padded_neg [OF p' fl, of b] True by blast+
    have "read_int b (0x2D # t') = read_int b (0x2D # tl ?n)" using s(2) by (simp add: read_int_def)
    then have "read_int b (strip (0x2D # t')) = shown b sign i" using s(1) n read_num_text [OF b] by metis
    then show ?thesis using write_num_eq [OF b, of letbase i sign w flags] True p' prints_spec [OF p'] len by simp
  next
    case False
    then have w: "printk_write_num letbase i (of_nat b) sign w flags = Inr (t, pc)"
      using write_num_eq [OF b, of letbase i sign w flags] p by (simp only: if_False)
    have "read_int b (strip t) = shown b sign i"
      using prints_cases [OF p fl]
    proof (elim disjE exE conjE)
      fix k l assume "t = replicate k 0x20 @ ?n @ replicate l 0x20"
      then show ?thesis using strip_padded [OF sg(1)] read_num_text [OF b] by metis
    next
      fix k assume a: "w > 0" "flags AND PAD_ZERO \<noteq> 0" "t = replicate k 0x30 @ ?n"
      have "0x2D \<notin> set ?n" using sg(2) False a(1,2) by (auto split: if_splits)
      moreover have "strip t = t" using a(3) sg(1) by (intro strip_id) auto
      ultimately show ?thesis
        using a(3) read_num_text [OF b, of letbase sign i] read_int_zeros [of ?n b k] read_int_plain [of ?n b] by simp
    qed
    then show ?thesis using w prints_spec [OF p] by simp
  qed
qed

section \<open>Formats\<close>

lemma store_low_64 [simp]: "store_low 64 v un = v"
  by (rule bit_word_eqI) (simp add: store_low_def bit_or_iff bit_and_iff bit_not_iff bit_mask_iff)

















lemma plain_prefix:
  "ch_percent \<notin> set f0 \<Longrightarrow> vsprintf_loop n m (f0 @ f) un ap =
    bindR (vsprintf_loop n m f un ap) (\<lambda>(text, pc). Inr (f0 @ text, int (length f0) + pc))"
proof (induction f0)
  case Nil
  then show ?case by (cases "vsprintf_loop n m f un ap") auto
next
  case (Cons c f0)
  then have "vsprintf_loop n m (f0 @ f) un ap = bindR (vsprintf_loop n m f un ap) (\<lambda>(text, pc). Inr (f0 @ text, int (length f0) + pc))"
    by simp
  moreover have "c \<noteq> ch_percent" using Cons.prems by auto
  ultimately show ?case
    by (subst vsprintf_loop.simps) (auto simp: bindR_assoc intro!: bindR_cong)
qed

lemma cut_off:
  "vsprintf_loop n m [ch_percent, ch_l] un ap = Inl WILD"
  "vsprintf_loop n m [ch_percent, ch_minus] un ap = Inl WILD"
  by (subst vsprintf_loop.simps, simp add: ch_defs peek_def parse_spec_def convert_def adv_def 
      conv_l_def conv_plain_def no_conv_def)+

section \<open>Properties\<close>



text \<open>
  On the level of \<^verbatim>\<open>printk_write_num\<close>, whose bases are 8, 10 and 16, both cases of letters
  and all widths: the text is as long as the number or the width, whichever is more, and the count that
  is returned is its length.
\<close>

theorem printk_number_width:
  assumes "8 \<le> b" "b \<le> 16" "flags AND PAD_ZERO = 0 \<or> flags AND PAD_RIGHT = 0"
  shows "\<exists>t. printk_write_num letbase i (of_nat b) sign w flags = Inr (t, int (length t)) \<and>
    length t = max (nat w) (length (num_text letbase b sign i)) \<and>
    read_int b (strip t) = (if sign \<and> b = 10 then sint i else uint i)"
  using padded_num [OF assms] by (simp add: shown_def)

theorem printk_number_width_witness:
  "\<exists>t. printk_write_num 0 0xBEEF (of_nat 16) False 9 PAD_RIGHT = Inr (t, int (length t)) \<and>
    length t = max (nat 9) (length (num_text 0 16 False 0xBEEF)) \<and> read_int 16 (strip t) = uint (0xBEEF :: u64)"
  using printk_number_width [where b = 16 and flags = PAD_RIGHT and letbase = 0 and i = "0xBEEF" and sign = False and w = 9]
  by (simp add: pad_defs)

text \<open>
  A format that ends in the middle of a conversion makes \<^verbatim>\<open>printk\<close> run past its end: the
  loop steps over the final 0.
\<close>

theorem printk_cut_off_format:
  assumes "ch_percent \<notin> set f0"
  shows "printk n m un (f0 @ [ch_percent, ch_l]) ap = Inl WILD \<and> printk n m un (f0 @ [ch_percent, ch_minus]) ap = Inl WILD"
  using plain_prefix [OF assms] by (simp add: printk_def simple_vsprintf_def cut_off)

theorem printk_cut_off_format_witness:
  "printk 0 Map.empty 0 ([0x6F, 0x6B] @ [ch_percent, ch_l]) [] = Inl WILD \<and> printk 0 Map.empty 0 ([0x6F, 0x6B] @ [ch_percent, ch_minus]) [] = Inl WILD"
  by (rule printk_cut_off_format) (simp add: ch_defs)

end
