(* ===== verification/UserPrint.thy ===== *)
theory UserPrint
  imports PrintkProps
begin

text \<open>
  Formatted output of the user library, \<^verbatim>\<open>user/lib/print.c\<close>, translated on its own: the
  functions thread the characters sent so far, \<open>out\<close>, and the running count \<open>pc\<close> the way the
  code does, character by character. Then the comparison with the kernel's \<^verbatim>\<open>printk\<close>, of
  which it is an edited copy. From \<^verbatim>\<open>Printk\<close> it uses the names of the bytes, the flags,
  the calling convention (\<open>va_arg\<close>), the bytes of a string in memory (\<open>cstr\<close>) and of a union
  (\<open>store_low\<close>), which are not code of either file.
\<close>

section \<open>Output\<close>

text \<open>\<^verbatim>\<open>usys_putc\<close> sends one character.\<close>

definition simple_outputchar :: "u8 list \<Rightarrow> u8 \<Rightarrow> u8 list" where
  "simple_outputchar out c = out @ [c]"

text \<open>The loops \<^verbatim>\<open>for (; width > 0; --width)\<close> and \<^verbatim>\<open>for (; *string; ++string)\<close>.\<close>

function pad_loop :: "int \<Rightarrow> u8 \<Rightarrow> u8 list \<Rightarrow> int \<Rightarrow> int \<times> u8 list \<times> int" where
  "pad_loop width padchar out pc =
     (if width > 0 then pad_loop (width - 1) padchar (simple_outputchar out padchar) (pc + 1) else (width, out, pc))"
  by pat_completeness auto

termination pad_loop by (relation "measure (\<lambda>(width, _). nat width)") auto

declare pad_loop.simps [simp del]

fun string_loop :: "u8 list \<Rightarrow> u8 list \<Rightarrow> int \<Rightarrow> u8 list \<times> int" where
  "string_loop [] out pc = (out, pc)"
| "string_loop (c # string) out pc = string_loop string (simple_outputchar out c) (pc + 1)"

definition user_prints :: "u8 list \<Rightarrow> u8 list \<Rightarrow> int \<Rightarrow> u32 \<Rightarrow> u8 list \<times> int" where
  "user_prints out string width flags =
     (let (width, padchar) =
            (if width > 0 then
               (let len = int (length string) in
                (if len \<ge> width then 0 else width - len, if flags AND PAD_ZERO \<noteq> 0 then 0x30 else 0x20))
             else (width, 0x20));
          (width, out, pc) = (if flags AND PAD_RIGHT = 0 then pad_loop width padchar out 0 else (width, out, 0));
          (out, pc) = string_loop string out pc;
          (width, out, pc) = pad_loop width padchar out pc
      in (out, pc))"

section \<open>Numbers\<close>

text \<open>The byte written for a remainder \<^verbatim>\<open>t\<close>; \<open>letbase\<close> is the letter that stands for 10.\<close>

definition user_digit :: "u8 \<Rightarrow> u64 \<Rightarrow> u8" where
  "user_digit letbase t =
     (let t = (if t \<ge> 10 then t + ucast letbase - 0x30 - 10 else t) in ucast t + 0x30)"

text \<open>\<^verbatim>\<open>while (u)\<close>: \<open>s\<close> bytes of the buffer are left in front of \<open>string\<close>.\<close>

fun output_loop :: "u8 \<Rightarrow> u64 \<Rightarrow> nat \<Rightarrow> u64 \<Rightarrow> u8 list \<Rightarrow> (nat \<times> u8 list) res" where
  "output_loop letbase base s u string =
     (if u = 0 then Inr (s, string)
      else case s of
        0 \<Rightarrow> Inl WILD
      | Suc s \<Rightarrow> output_loop letbase base s (u div base) (user_digit letbase (u mod base) # string))"

declare output_loop.simps [simp del]

definition simple_outputi :: "u8 list \<Rightarrow> u64 \<Rightarrow> u64 \<Rightarrow> bool \<Rightarrow> int \<Rightarrow> u32 \<Rightarrow> u8 \<Rightarrow> (u8 list \<times> int) res" where
  "simple_outputi out i base sign width flags letbase =
     (if i = 0 then Inr (user_prints out [0x30] width flags)
      else
        let (neg, u) = (if sign \<and> base = 10 \<and> sint i < 0 then (True, - i) else (False, i)) in
        bindR (output_loop letbase base (PRINT_BUF_LEN - 1) u []) (\<lambda>(s, string).
        bindR (if neg then
                 (if width \<noteq> 0 \<and> flags AND PAD_ZERO \<noteq> 0 then
                    Inr (simple_outputchar out 0x2D, 1, width - 1, string)
                  else if s = 0 then Inl WILD else Inr (out, 0, width, 0x2D # string))
               else Inr (out, 0, width, string)) (\<lambda>(out, pc, width, string).
        let (out, pc') = user_prints out string width flags in Inr (out, pc + pc'))))"

section \<open>Conversions\<close>

text \<open>
  A conversion turns the union, the arguments, the width, the flags and the output into the output, what
  it adds to the count, the union and the arguments left.
\<close>

type_synonym user_conv = "u64 \<Rightarrow> u64 list \<Rightarrow> int \<Rightarrow> u32 \<Rightarrow> u8 list \<Rightarrow> ((u8 list \<times> int) \<times> u64 \<times> u64 list) res"

definition user_num :: "nat \<Rightarrow> (u64 \<Rightarrow> u64) \<Rightarrow> u64 \<Rightarrow> bool \<Rightarrow> u8 \<Rightarrow> user_conv" where
  "user_num n val base sign letbase un ap width flags out =
     bindR (va_arg ap) (\<lambda>(a, ap). let un = store_low n a un in
     bindR (simple_outputi out (val un) base sign width flags letbase) (\<lambda>o'. Inr (o', un, ap)))"

text \<open>\<^verbatim>\<open>%p\<close> reads an \<^verbatim>\<open>unsigned int\<close> into the long member.\<close>

definition user_pointer :: user_conv where
  "user_pointer un ap width flags out =
     bindR (va_arg ap) (\<lambda>(a, ap). let un = zext32 a in
     bindR (simple_outputi out un 16 False width flags ch_a) (\<lambda>o'. Inr (o', un, ap)))"

definition user_char :: user_conv where
  "user_char un ap width flags out =
     bindR (va_arg ap) (\<lambda>(a, ap). let un = store_low 8 a un; c = ucast un :: u8; scr = takeWhile (\<lambda>c. c \<noteq> 0) [c] in
     Inr (user_prints out scr width flags, un, ap))"

definition user_string :: "nat \<Rightarrow> mem \<Rightarrow> user_conv" where
  "user_string n m un ap width flags out =
     bindR (va_arg ap) (\<lambda>(s, ap).
     bindR (if s \<noteq> 0 then cstr n m s 0 else Inr [0x28, 0x6E, 0x75, 0x6C, 0x6C, 0x29]) (\<lambda>string.
     Inr (user_prints out string width flags, s, ap)))"

definition user_default :: user_conv where
  "user_default un ap width flags out = Inr ((out, 0), un, ap)"

definition user_switch :: "nat \<Rightarrow> mem \<Rightarrow> u8 \<Rightarrow> user_conv" where
  "user_switch n m c =
     (if c = ch_d then user_num 32 sext32 10 True ch_a
      else if c = ch_u then user_num 32 zext32 10 False ch_a
      else if c = ch_o then user_num 32 zext32 8 False ch_a
      else if c = ch_x then user_num 32 zext32 16 False ch_a
      else if c = ch_X then user_num 32 zext32 16 False ch_A
      else if c = ch_p then user_pointer
      else if c = ch_c then user_char
      else if c = ch_s then user_string n m
      else user_default)"

text \<open>After \<^verbatim>\<open>l\<close> and \<^verbatim>\<open>ll\<close>; \<^verbatim>\<open>%lo\<close> stores 16 bits and prints 64.\<close>

definition user_switch_l :: "u8 \<Rightarrow> user_conv" where
  "user_switch_l c =
     (if c = ch_d then user_num 64 id 10 True ch_a
      else if c = ch_u then user_num 64 id 10 False ch_a
      else if c = ch_o then user_num 16 id 8 False ch_a
      else if c = ch_x then user_num 64 id 16 False ch_a
      else if c = ch_X then user_num 64 id 16 False ch_A
      else user_default)"

definition user_switch_ll :: "u8 \<Rightarrow> user_conv" where
  "user_switch_ll c =
     (if c = ch_d then user_num 64 id 10 True ch_a
      else if c = ch_u then user_num 64 id 10 False ch_a
      else if c = ch_o then user_num 16 id 8 False ch_a
      else if c = ch_x then user_num 64 id 16 False ch_a
      else if c = ch_X then user_num 64 id 16 False ch_A
      else user_default)"

definition user_switch_h :: "u8 \<Rightarrow> user_conv" where
  "user_switch_h c =
     (if c = ch_d then user_num 16 sext16 10 True ch_a
      else if c = ch_u then user_num 16 id 10 False ch_a
      else if c = ch_o then user_num 16 id 8 False ch_a
      else if c = ch_x then user_num 16 id 16 False ch_a
      else if c = ch_X then user_num 16 id 16 False ch_A
      else user_default)"

definition user_switch_hh :: "u8 \<Rightarrow> user_conv" where
  "user_switch_hh c =
     (if c = ch_d then user_num 8 sext8 10 True ch_a
      else if c = ch_u then user_num 8 id 10 False ch_a
      else if c = ch_o then user_num 8 id 8 False ch_a
      else if c = ch_x then user_num 8 id 16 False ch_a
      else if c = ch_X then user_num 8 id 16 False ch_A
      else user_default)"

section \<open>Formats\<close>

text \<open>
  \<open>at f\<close> is \<^verbatim>\<open>*format\<close>, the 0 at the end included; \<open>next f\<close> is
  \<^verbatim>\<open>++format\<close>, which must not step over that 0.
\<close>

definition at_format :: "u8 list \<Rightarrow> u8" where
  "at_format f = (if f = [] then 0 else hd f)"

definition next_format :: "u8 list \<Rightarrow> u8 list res" where
  "next_format f = (if f = [] then Inl WILD else Inr (tl f))"

fun zero_loop :: "u8 list \<Rightarrow> u32 \<Rightarrow> u8 list \<times> u32" where
  "zero_loop f flags =
     (case f of
        c # f' \<Rightarrow> if c = ch_0 then zero_loop f' (flags OR PAD_ZERO) else (f, flags)
      | [] \<Rightarrow> ([], flags))"

declare zero_loop.simps [simp del]

fun width_loop :: "u8 list \<Rightarrow> int \<Rightarrow> u8 list \<times> int" where
  "width_loop f width =
     (case f of
        c # f' \<Rightarrow>
          if ch_0 \<le> c \<and> c \<le> ch_9 then
            (let width = width * 10; width = width + (uint c - uint ch_0) in width_loop f' width)
          else (f, width)
      | [] \<Rightarrow> ([], width))"

declare width_loop.simps [simp del]

definition user_spec :: "u8 list \<Rightarrow> u64 list \<Rightarrow> (u8 list \<times> int \<times> u32 \<times> u64 list) res" where
  "user_spec f ap =
     bindR (if at_format f = ch_minus then bindR (next_format f) (\<lambda>f. Inr (f, PAD_RIGHT)) else Inr (f, 0)) (\<lambda>(f, flags).
     let (f, flags) = zero_loop f flags in
     if at_format f = ch_star then
       bindR (va_arg ap) (\<lambda>(a, ap). let width = sint (ucast a :: u32) in
       bindR (next_format f) (\<lambda>f. Inr (f, width, flags, ap)))
     else let (f, width) = width_loop f 0 in Inr (f, width, flags, ap))"

definition user_convert :: "nat \<Rightarrow> mem \<Rightarrow> u8 list \<Rightarrow> u64 \<Rightarrow> u64 list \<Rightarrow> int \<Rightarrow> u32 \<Rightarrow> u8 list \<Rightarrow>
    (u8 list \<times> (u8 list \<times> int) \<times> u64 \<times> u64 list) res" where
  "user_convert n m f un ap width flags out =
     bindR (if at_format f = ch_l then
              bindR (next_format f) (\<lambda>f.
              if at_format f = ch_l then bindR (next_format f) (\<lambda>f. Inr (f, user_switch_ll (at_format f)))
              else Inr (f, user_switch_l (at_format f)))
            else if at_format f = ch_h then
              bindR (next_format f) (\<lambda>f.
              if at_format f = ch_h then bindR (next_format f) (\<lambda>f. Inr (f, user_switch_hh (at_format f)))
              else Inr (f, user_switch_h (at_format f)))
            else Inr (f, user_switch n m (at_format f))) (\<lambda>(f, conv).
     bindR (conv un ap width flags out) (\<lambda>r. Inr (f, r)))"

lemma next_format_length: "next_format f = Inr f' \<Longrightarrow> length f = Suc (length f')"
  by (cases f) (auto simp: next_format_def)

lemma next_adv: "next_format f = adv f"
  by (cases f) (auto simp: next_format_def adv_def)

lemma at_peek: "at_format f = peek f"
  by (cases f) (auto simp: at_format_def peek_def)

lemma zero_loop_eq: "zero_loop f flags = skip_zeros f flags"
  by (induction f arbitrary: flags) (simp_all add: zero_loop.simps)

lemma width_loop_eq: "width_loop f w = read_width f w"
  by (induction f arbitrary: w) (simp_all add: width_loop.simps Let_def)

lemma user_spec_eq: "user_spec f ap = parse_spec f ap"
proof -
  have tl: "peek f = c \<Longrightarrow> c \<noteq> 0 \<Longrightarrow> adv f = Inr (tl f)" for f c by (cases f) (auto simp: peek_def adv_def)
  have c: "ch_minus \<noteq> 0" "ch_star \<noteq> 0" by (simp_all add: ch_defs)
  show ?thesis
    using tl [OF _ c(1), of f] tl [OF _ c(2)]
    by (auto simp: user_spec_def parse_spec_def at_peek next_adv zero_loop_eq width_loop_eq Let_def intro!: bindR_cong
        split: prod.splits)
qed

lemma user_convert_length: "user_convert n m f un ap width flags out = Inr (f', r) \<Longrightarrow> length f' \<le> length f"
  by (auto simp: user_convert_def split: if_splits elim!: bindR_InrE dest!: next_format_length)

function user_loop :: "nat \<Rightarrow> mem \<Rightarrow> u8 list \<Rightarrow> u64 \<Rightarrow> u64 list \<Rightarrow> u8 list \<Rightarrow> int \<Rightarrow> (u8 list \<times> int) res" where
  "user_loop n m f un ap out pc =
     (if f = [] then Inr (out, pc)
      else if at_format f = ch_percent then
        (let f = tl f in
         if f = [] then Inr (out, pc)
         else if at_format f = ch_percent then user_loop n m (tl f) un ap (simple_outputchar out (at_format f)) (pc + 1)
         else
           bindR (user_spec f ap) (\<lambda>(f, width, flags, ap).
           bindR (user_convert n m f un ap width flags out) (\<lambda>(f, (out, pc'), un, ap).
           bindR (next_format f) (\<lambda>f. user_loop n m f un ap out (pc + pc')))))
      else user_loop n m (tl f) un ap (simple_outputchar out (at_format f)) (pc + 1))"
  by pat_completeness auto

termination user_loop
proof (relation "measure (\<lambda>(n, m, f, un, ap, out, pc). length f)")
qed (auto simp: user_spec_eq neq_Nil_conv dest!: parse_spec_length user_convert_length next_format_length)

declare user_loop.simps [simp del]

definition user_vsprintf :: "nat \<Rightarrow> mem \<Rightarrow> u64 \<Rightarrow> u8 list \<Rightarrow> u64 list \<Rightarrow> (u8 list \<times> int) res" where
  "user_vsprintf n m un format ap = user_loop n m format un ap [] 0"

text \<open>\<open>printf\<close> returns nothing: its result is what was sent.\<close>

definition printf :: "nat \<Rightarrow> mem \<Rightarrow> u64 \<Rightarrow> u8 list \<Rightarrow> u64 list \<Rightarrow> u8 list res" where
  "printf n m un fmt va = bindR (user_vsprintf n m un fmt va) (\<lambda>(text, pc). Inr text)"

section \<open>Comparison with the kernel\<close>

lemma pad_loop_eq: "pad_loop w c out pc = (min w 0, out @ replicate (nat w) c, pc + int (nat w))"
proof (induction w c out pc rule: pad_loop.induct)
  case (1 w c out pc)
  show ?case
  proof (cases "w > 0")
    case True
    then have "nat w = Suc (nat (w - 1))" by simp
    then show ?thesis using 1 [OF True] True by (subst pad_loop.simps) (simp add: simple_outputchar_def)
  qed (subst pad_loop.simps, simp)
qed

lemma string_loop_eq: "string_loop s out pc = (out @ s, pc + int (length s))"
  by (induction s out pc rule: string_loop.induct) (simp_all add: simple_outputchar_def)

lemma user_prints_eq: "user_prints out s w fl = (out @ fst (prints s w fl), snd (prints s w fl))"
  by (simp add: user_prints_def prints_def Let_def pad_loop_eq string_loop_eq)

lemma digits_agree: "t < 16 \<Longrightarrow> kernel_digit ch_a t = user_digit ch_a t"
proof -
  assume t: "t < 16"
  have "list_all (\<lambda>d. kernel_digit ch_a (of_nat d) = user_digit ch_a (of_nat d)) [0..<16]" by code_simp
  then have all: "\<forall>d \<in> {0..<16}. kernel_digit ch_a (of_nat d) = user_digit ch_a (of_nat d)" by (simp add: list_all_iff)
  have "unat t \<in> {0..<16}" using t by (simp add: word_less_nat_alt)
  from bspec [OF all this] show ?thesis by simp
qed

lemma output_loop_eq:
  assumes "b \<in> {8, 10, 16}"
  shows "output_loop ch_a b s u string = digit_loop ch_a b s u string"
proof (induction s arbitrary: u string)
  case (Suc s)
  have "u mod b < b" using assms by (auto simp: word_less_nat_alt unat_mod)
  moreover have "b \<le> 16" using assms by (auto simp: word_le_nat_alt)
  ultimately have "u mod b < 16" by (rule order_less_le_trans)
  then show ?case using Suc digits_agree by (subst output_loop.simps) simp
qed (simp add: output_loop.simps)

text \<open>What a conversion of the user library does is what the kernel's does, after what was sent before.\<close>

definition same_conv :: "user_conv \<Rightarrow> conv \<Rightarrow> bool" where
  "same_conv u k \<longleftrightarrow> (\<forall>un ap w fl out. u un ap w fl out =
     bindR (k un ap w fl) (\<lambda>((t, pc), un, ap). Inr ((out @ t, pc), un, ap)))"

lemma outputi_eq:
  assumes "b \<in> {8, 10, 16}"
  shows "simple_outputi out i b sign w fl ch_a = bindR (printk_write_num ch_a i b sign w fl) (\<lambda>(t, pc). Inr (out @ t, pc))"
  by (auto simp: simple_outputi_def printk_write_num_def user_prints_eq output_loop_eq [OF assms] Let_def bindR_assoc
      simple_outputchar_def intro!: bindR_cong split: prod.splits)

lemma user_num_same: "b \<in> {8, 10, 16} \<Longrightarrow> same_conv (user_num n val b sign ch_a) (num_conv n val b sign ch_a)"
  unfolding same_conv_def user_num_def num_conv_def Let_def
  by (auto simp: outputi_eq bindR_assoc intro!: bindR_cong)

lemma convs_same:
  assumes "c \<noteq> ch_X" "c \<noteq> ch_p" "c \<noteq> ch_o"
  shows "same_conv (user_switch n m c) (conv_plain n m c)" "same_conv (user_switch_l c) (conv_l c)"
    "same_conv (user_switch_ll c) (conv_ll c)" "same_conv (user_switch_h c) (conv_h c)" "same_conv (user_switch_hh c) (conv_hh c)"
proof -
  have d: "same_conv user_default no_conv" by (simp add: same_conv_def user_default_def no_conv_def)
  have ch: "same_conv user_char char_conv"
    by (auto simp: same_conv_def user_char_def char_conv_def user_prints_eq bindR_assoc Let_def intro!: bindR_cong
        split: prod.splits)
  have st: "same_conv (user_string n m) (string_conv n m)"
    by (auto simp: same_conv_def user_string_def string_conv_def user_prints_eq null_text_def bindR_assoc Let_def
        split: prod.splits intro!: bindR_cong)
  show "same_conv (user_switch n m c) (conv_plain n m c)" "same_conv (user_switch_l c) (conv_l c)"
    "same_conv (user_switch_ll c) (conv_ll c)" "same_conv (user_switch_h c) (conv_h c)" "same_conv (user_switch_hh c) (conv_hh c)"
    using assms d ch st
    by (simp_all add: user_switch_def conv_plain_def user_switch_l_def conv_l_def user_switch_ll_def conv_ll_def
        user_switch_h_def conv_h_def user_switch_hh_def conv_hh_def user_num_same)
qed

text \<open>What is left of a format has no other bytes than the format.\<close>

lemma adv_set: "adv f = Inr f' \<Longrightarrow> set f' \<subseteq> set f"
  by (cases f) (auto simp: adv_def)

lemma skip_zeros_set: "set (fst (skip_zeros f flags)) \<subseteq> set f"
  by (induction f flags rule: skip_zeros.induct) auto

lemma read_width_set: "set (fst (read_width f w)) \<subseteq> set f"
  by (induction f w rule: read_width.induct) auto

lemma tl_set: "set (tl f) \<subseteq> set f"
  by (cases f) auto

lemma parse_spec_set: "parse_spec f ap = Inr (f', r) \<Longrightarrow> set f' \<subseteq> set f"
proof -
  assume p: "parse_spec f ap = Inr (f', r)"
  define f1 where "f1 = (if peek f = ch_minus then tl f else f)"
  obtain f2 fl where z: "skip_zeros f1 (if peek f = ch_minus then PAD_RIGHT else 0) = (f2, fl)" by force
  have "set f1 \<subseteq> set f" by (simp add: f1_def tl_set)
  moreover have "set f2 \<subseteq> set f1" using skip_zeros_set [of f1] z by (metis fst_conv)
  moreover have "set f' \<subseteq> set f2"
    using p z read_width_set [of f2 0] tl_set [of f2]
    by (auto simp: parse_spec_def f1_def split: if_splits prod.splits elim!: bindR_InrE)
  ultimately show ?thesis by blast
qed

lemma convert_set: "convert n m f un ap width flags = Inr (f', r) \<Longrightarrow> set f' \<subseteq> set f"
  by (auto simp: convert_def Let_def split: if_splits elim!: bindR_InrE dest!: adv_set) blast+

definition portable :: "u8 list \<Rightarrow> bool" where
  "portable f \<longleftrightarrow> ch_X \<notin> set f \<and> ch_p \<notin> set f \<and> ch_o \<notin> set f"

lemma portable_subset: "portable f \<Longrightarrow> set f' \<subseteq> set f \<Longrightarrow> portable f'"
  by (auto simp: portable_def)

lemma portable_peek: "portable f \<Longrightarrow> peek f \<noteq> ch_X \<and> peek f \<noteq> ch_p \<and> peek f \<noteq> ch_o"
  by (cases f) (auto simp: portable_def peek_def ch_defs)

lemma user_convert_eq:
  assumes "portable f"
  shows "user_convert n m f un ap w fl out =
    bindR (convert n m f un ap w fl) (\<lambda>(f, (t, pc), un, ap). Inr (f, (out @ t, pc), un, ap))"
proof -
  have at: "u un ap w fl out = bindR (k un ap w fl) (\<lambda>((t, pc), un, ap). Inr ((out @ t, pc), un, ap))" if "same_conv u k" for u k
    using that by (simp add: same_conv_def)
  note sw = convs_same [THEN at, of "peek f'" for f']
  have p: "peek f' \<noteq> ch_X" "peek f' \<noteq> ch_p" "peek f' \<noteq> ch_o" if "set f' \<subseteq> set f" for f'
    using portable_peek [OF portable_subset [OF assms that]] by blast+
  note sw0 = sw [OF p [OF order_refl]]
  show ?thesis
  proof (cases "adv f")
    case (Inl e)
    then show ?thesis
      unfolding user_convert_def convert_def Let_def at_peek next_adv
      by (auto simp: bindR_assoc sw0 intro!: bindR_cong)
  next
    case (Inr f1)
    note s1 = adv_set [OF Inr]
    note sw1 = sw [OF p [OF s1]]
    have sw2: "user_switch_ll (peek f2) un ap w fl out = bindR (conv_ll (peek f2) un ap w fl) (\<lambda>((t, pc), un, ap). Inr ((out @ t, pc), un, ap))"
      "user_switch_hh (peek f2) un ap w fl out = bindR (conv_hh (peek f2) un ap w fl) (\<lambda>((t, pc), un, ap). Inr ((out @ t, pc), un, ap))"
      if "adv f1 = Inr f2" for f2
      using sw [of f2] p [OF order_trans [OF adv_set [OF that] s1]] by blast+
    have sw_l: "user_switch_h ch_l un ap w fl out = bindR (conv_h ch_l un ap w fl) (\<lambda>((t, pc), un, ap). Inr ((out @ t, pc), un, ap))"
      by (rule convs_same(4) [THEN at]) (simp_all add: ch_defs)
    show ?thesis
      unfolding user_convert_def convert_def Let_def at_peek next_adv Inr
      by (cases "adv f1") (auto simp: bindR_assoc sw0 sw1 sw2 sw_l intro!: bindR_cong)
  qed
qed

lemma user_loop_eq:
  "portable f \<Longrightarrow> user_loop n m f un ap out pc =
    bindR (vsprintf_loop n m f un ap) (\<lambda>(text, pc'). Inr (out @ text, pc + pc'))"
proof (induction "length f" arbitrary: f un ap out pc rule: less_induct)
  case less
  note IH = less.hyps
  show ?case
  proof (cases f)
    case Nil
    then show ?thesis by (simp add: vsprintf_loop.simps user_loop.simps)
  next
    case (Cons c g)
    have pg: "portable g" by (rule portable_subset [OF less.prems]) (auto simp: Cons)
    have ptl: "portable (tl g)" by (rule portable_subset [OF pg tl_set])
    have spec: "bindR (parse_spec g ap) (\<lambda>(f, width, flags, ap).
            bindR (user_convert n m f un ap width flags out) (\<lambda>(f, (out, pc'), un, ap).
            bindR (adv f) (\<lambda>f. user_loop n m f un ap out (pc + pc'))))
        = bindR (bindR (parse_spec g ap) (\<lambda>(f, width, flags, ap).
            bindR (convert n m f un ap width flags) (\<lambda>(f, (text, pc), un, ap).
            bindR (adv f) (\<lambda>f. bindR (vsprintf_loop n m f un ap) (\<lambda>(text', pc'). Inr (text @ text', pc + pc'))))))
          (\<lambda>(text, pc'). Inr (out @ text, pc + pc'))"
      unfolding bindR_assoc
    proof (rule bindR_cong [OF refl], clarsimp simp: bindR_assoc, goal_cases)
      case (1 f1 w fl ap1)
      have p1: "portable f1" by (rule portable_subset [OF pg parse_spec_set [OF 1]])
      show ?case
        unfolding user_convert_eq [OF p1] bindR_assoc
      proof (rule bindR_cong [OF refl], clarsimp simp: bindR_assoc, goal_cases)
        case (1 f2 t pc2 un2 ap2)
        note c = 1
        show ?case
        proof (rule bindR_cong [OF refl])
          fix f3 assume a: "adv f2 = Inr f3"
          have "portable f3" by (rule portable_subset [OF portable_subset [OF p1 convert_set [OF c]] adv_set [OF a]])
          moreover have "length f3 < length f"
            using adv_length [OF a] convert_length [OF c] parse_spec_length [OF \<open>parse_spec g ap = Inr (f1, w, fl, ap1)\<close>] Cons by simp
          ultimately show "user_loop n m f3 un2 ap2 (out @ t) (pc + pc2) =
              bindR (vsprintf_loop n m f3 un2 ap2) (\<lambda>x. bindR (case x of (text', pc') \<Rightarrow> Inr (t @ text', pc2 + pc'))
                (\<lambda>(text, pc'). Inr (out @ text, pc + pc')))"
            using IH by (auto intro!: bindR_cong)
        qed
      qed
    qed
    have "user_loop n m g un ap out' pc' = bindR (vsprintf_loop n m g un ap) (\<lambda>(text, pc). Inr (out' @ text, pc' + pc))"
      "user_loop n m (tl g) un ap out' pc' = bindR (vsprintf_loop n m (tl g) un ap) (\<lambda>(text, pc). Inr (out' @ text, pc' + pc))" for out' pc'
      using IH [OF _ pg] IH [OF _ ptl] Cons by simp_all
    then show ?thesis
      using spec
      by (auto simp: Cons vsprintf_loop.simps [of _ _ "c # g"] user_loop.simps [of _ _ "c # g"] user_spec_eq next_adv at_peek
          peek_def [of "c # g"] Let_def simple_outputchar_def bindR_assoc split: prod.splits intro!: bindR_cong)
  qed
qed

section \<open>Properties\<close>

text \<open>
  C35: the \<^verbatim>\<open>printf\<close> of the user library prints what \<^verbatim>\<open>printk\<close> prints, for every
  format without the letters \<^verbatim>\<open>X\<close>, \<^verbatim>\<open>p\<close> and \<^verbatim>\<open>o\<close> and all arguments, with
  the same behaviour where it fails. The two are translated separately from the two files.
\<close>

theorem user_printf_equals_printk:
  assumes "portable fmt"
  shows "printf n m un fmt va = printk n m un fmt va"
  using user_loop_eq [OF assms]
  by (auto simp: printf_def printk_def user_vsprintf_def simple_vsprintf_def bindR_assoc intro!: bindR_cong)

theorem user_printf_equals_printk_witness:
  "printf 9 Map.empty 7 [ch_percent, ch_0, 0x35, ch_l, ch_x, ch_percent, ch_h, ch_u] [0xABC, 99] =
    printk 9 Map.empty 7 [ch_percent, ch_0, 0x35, ch_l, ch_x, ch_percent, ch_h, ch_u] [0xABC, 99]"
  by (rule user_printf_equals_printk) (simp add: portable_def ch_defs)

text \<open>
  Four conversions print a wrong text: \<^verbatim>\<open>%X\<close> of \<^verbatim>\<open>printk\<close> gives small letters,
  \<^verbatim>\<open>%-05d\<close> fills up with zeros on the right (42 is printed as 42000), \<^verbatim>\<open>%hu\<close> prints the
  whole union, with what an earlier conversion left in it, and \<^verbatim>\<open>%p\<close> of the user library loses
  the upper half of an address.
\<close>

theorem printk_wrong_conversions:
  "printk 0 Map.empty 0 [ch_percent, ch_X] [0xBEEF] = Inr [0x62, 0x65, 0x65, 0x66] \<and>
   printk 0 Map.empty 0 [ch_percent, ch_minus, ch_0, 0x35, ch_d] [42] = Inr [0x34, 0x32, 0x30, 0x30, 0x30] \<and>
   printk 0 Map.empty 0 [ch_percent, ch_l, ch_x, 0x20, ch_percent, ch_h, ch_x] [0x10000, 5] =
     Inr [0x31, 0x30, 0x30, 0x30, 0x30, 0x20, 0x31, 0x30, 0x30, 0x30, 0x35] \<and>
   printf 0 Map.empty 0 [ch_percent, ch_p] [0x700000001] = Inr [0x31]"
  by code_simp

end
