(* ===== verification/Strings.thy ===== *)
theory Strings
  imports Memory
begin

text \<open>
  Memory and string functions: \<^verbatim>\<open>user/lib/string.c\<close> of the user library and the kernel's
  \<^verbatim>\<open>common/util.h\<close>. Loops that end at a 0 byte have a bound \<open>n\<close> on their rounds; running out of
  it is \<open>FUEL\<close>. Characters are unsigned, as on this processor. A result that is compared with 0 or has a
  sign in C is an \<open>int\<close>.
\<close>

definition rd_char :: "mem \<Rightarrow> u64 \<Rightarrow> nat \<Rightarrow> u8 res" where
  "rd_char m p i = deref (m (p + of_nat i))"

definition wr_char :: "mem \<Rightarrow> u64 \<Rightarrow> nat \<Rightarrow> u8 \<Rightarrow> mem res" where
  "wr_char m p i c = bindR (deref (m (p + of_nat i))) (\<lambda>_. Inr (m(p + of_nat i \<mapsto> c)))"

section \<open>The user library\<close>

text \<open>Rounds \<open>i, i + 1, \<dots>\<close> of which \<open>n\<close> are left.\<close>

fun memset_loop :: "u64 \<Rightarrow> u8 \<Rightarrow> nat \<Rightarrow> nat \<Rightarrow> mem \<Rightarrow> mem res" where
  "memset_loop dst c i 0 m = Inr m"
| "memset_loop dst c i (Suc n) m = bindR (wr_char m dst i c) (memset_loop dst c (Suc i) n)"

definition memset :: "u64 \<Rightarrow> int \<Rightarrow> u64 \<Rightarrow> mem \<Rightarrow> mem res" where
  "memset dst c len = memset_loop dst (word_of_int c) 0 (unat len)"

fun memcpy_loop :: "u64 \<Rightarrow> u64 \<Rightarrow> nat \<Rightarrow> nat \<Rightarrow> mem \<Rightarrow> mem res" where
  "memcpy_loop dst src i 0 m = Inr m"
| "memcpy_loop dst src i (Suc n) m =
     bindR (rd_char m src i) (\<lambda>c. bindR (wr_char m dst i c) (memcpy_loop dst src (Suc i) n))"

definition memcpy :: "u64 \<Rightarrow> u64 \<Rightarrow> u64 \<Rightarrow> mem \<Rightarrow> mem res" where
  "memcpy dst src len = memcpy_loop dst src 0 (unat len)"

fun memcmp_loop :: "mem \<Rightarrow> u64 \<Rightarrow> u64 \<Rightarrow> nat \<Rightarrow> nat \<Rightarrow> int res" where
  "memcmp_loop m p q i 0 = Inr 0"
| "memcmp_loop m p q i (Suc n) = bindR (rd_char m p i) (\<lambda>a. bindR (rd_char m q i) (\<lambda>b.
     if a = b then memcmp_loop m p q (Suc i) n else Inr (uint a - uint b)))"

definition memcmp :: "mem \<Rightarrow> u64 \<Rightarrow> u64 \<Rightarrow> u64 \<Rightarrow> int res" where
  "memcmp m s1 s2 n = memcmp_loop m s1 s2 0 (unat n)"

fun strcpy_loop :: "nat \<Rightarrow> u64 \<Rightarrow> u64 \<Rightarrow> nat \<Rightarrow> nat \<Rightarrow> mem \<Rightarrow> mem res" where
  "strcpy_loop 0 dst src i j m = Inl FUEL"
| "strcpy_loop (Suc n) dst src i j m = bindR (rd_char m src j) (\<lambda>c.
     if c \<noteq> 0 then bindR (wr_char m dst (i + j) c) (strcpy_loop n dst src i (Suc j)) else wr_char m dst (i + j) 0)"

definition strcpy :: "nat \<Rightarrow> u64 \<Rightarrow> u64 \<Rightarrow> mem \<Rightarrow> mem res" where
  "strcpy n dst src = strcpy_loop n dst src 0 0"

text \<open>
  \<^verbatim>\<open>*q\<close> is only read if \<^verbatim>\<open>*p\<close> is not 0, and again for the result.
\<close>

fun strcmp_loop :: "nat \<Rightarrow> mem \<Rightarrow> u64 \<Rightarrow> u64 \<Rightarrow> nat \<Rightarrow> u32 res" where
  "strcmp_loop 0 m p q i = Inl FUEL"
| "strcmp_loop (Suc n) m p q i = bindR (rd_char m p i) (\<lambda>a. bindR (rd_char m q i) (\<lambda>b.
     if a \<noteq> 0 \<and> a = b then strcmp_loop n m p q (Suc i) else Inr (ucast a - ucast b)))"

definition strcmp :: "nat \<Rightarrow> mem \<Rightarrow> u64 \<Rightarrow> u64 \<Rightarrow> u32 res" where
  "strcmp n m p q = strcmp_loop n m p q 0"

fun strncmp_loop :: "mem \<Rightarrow> u64 \<Rightarrow> u64 \<Rightarrow> nat \<Rightarrow> nat \<Rightarrow> u32 res" where
  "strncmp_loop m p q i 0 = Inr 0"
| "strncmp_loop m p q i (Suc n) = bindR (rd_char m p i) (\<lambda>a. bindR (rd_char m q i) (\<lambda>b.
     if a \<noteq> 0 \<and> a = b then strncmp_loop m p q (Suc i) n else Inr (ucast a - ucast b)))"

definition strncmp :: "mem \<Rightarrow> u64 \<Rightarrow> u64 \<Rightarrow> u64 \<Rightarrow> u32 res" where
  "strncmp m p q n = strncmp_loop m p q 0 (unat n)"

fun strlen_loop :: "nat \<Rightarrow> mem \<Rightarrow> u64 \<Rightarrow> nat \<Rightarrow> u64 res" where
  "strlen_loop 0 m s i = Inl FUEL"
| "strlen_loop (Suc n) m s i = bindR (rd_char m s i) (\<lambda>c. if c \<noteq> 0 then strlen_loop n m s (Suc i) else Inr (of_nat i))"

definition strlen :: "nat \<Rightarrow> mem \<Rightarrow> u64 \<Rightarrow> u64 res" where
  "strlen n m s = strlen_loop n m s 0"

fun compare_loop :: "nat \<Rightarrow> mem \<Rightarrow> u64 \<Rightarrow> u64 \<Rightarrow> nat \<Rightarrow> bool res" where
  "compare_loop 0 m x y i = Inl FUEL"
| "compare_loop (Suc n) m x y i = bindR (rd_char m x i) (\<lambda>a. bindR (rd_char m y i) (\<lambda>b.
     if a \<noteq> 0 \<and> b \<noteq> 0 then (if a \<noteq> b then Inr False else compare_loop n m x y (Suc i)) else Inr (b = 0)))"

fun strstr_loop :: "nat \<Rightarrow> nat \<Rightarrow> mem \<Rightarrow> u64 \<Rightarrow> u64 \<Rightarrow> nat \<Rightarrow> u64 option res" where
  "strstr_loop 0 n' m x y i = Inl FUEL"
| "strstr_loop (Suc n) n' m x y i = bindR (rd_char m x i) (\<lambda>a.
     if a = 0 then Inr None
     else bindR (rd_char m y 0) (\<lambda>b.
       bindR (if a = b then compare_loop n' m (x + of_nat i) y 0 else Inr False) (\<lambda>r.
       if r then Inr (Some (x + of_nat i)) else strstr_loop n n' m x y (Suc i))))"

definition strstr :: "nat \<Rightarrow> mem \<Rightarrow> u64 \<Rightarrow> u64 \<Rightarrow> u64 option res" where
  "strstr n m x y = strstr_loop n n m x y 0"

definition strcat :: "nat \<Rightarrow> u64 \<Rightarrow> u64 \<Rightarrow> mem \<Rightarrow> mem res" where
  "strcat n dest src m = bindR (strlen_loop n m dest 0) (\<lambda>i. strcpy_loop n dest src (unat i) 0 m)"

section \<open>The kernel\<close>

definition kmemset :: "u64 \<Rightarrow> u8 \<Rightarrow> u64 \<Rightarrow> mem \<Rightarrow> mem res" where
  "kmemset dst ch sz = memset_loop dst ch 0 (unat sz)"

text \<open>From the last byte to the first; a size of more than \<open>2 ^ 63\<close> is a negative index.\<close>

fun kmemcpy_loop :: "u64 \<Rightarrow> u64 \<Rightarrow> nat \<Rightarrow> mem \<Rightarrow> mem res" where
  "kmemcpy_loop dst src 0 m = Inr m"
| "kmemcpy_loop dst src (Suc i) m =
     bindR (rd_char m src i) (\<lambda>c. bindR (wr_char m dst i c) (kmemcpy_loop dst src i))"

definition kmemcpy :: "u64 \<Rightarrow> u64 \<Rightarrow> u64 \<Rightarrow> mem \<Rightarrow> mem res" where
  "kmemcpy dst src sz = kmemcpy_loop dst src (nat (sint (sz - 1) + 1))"

fun kstrcmp_loop :: "nat \<Rightarrow> mem \<Rightarrow> u64 \<Rightarrow> u64 \<Rightarrow> nat \<Rightarrow> int res" where
  "kstrcmp_loop 0 m src dst i = Inl FUEL"
| "kstrcmp_loop (Suc n) m src dst i = bindR (rd_char m src i) (\<lambda>a. bindR (rd_char m dst i) (\<lambda>b.
     if a \<noteq> 0 \<and> b \<noteq> 0 then (if a = b then kstrcmp_loop n m src dst (Suc i) else Inr (uint a - uint b))
     else if a = 0 \<and> b = 0 then Inr 0
     else if a = 0 then Inr (- 1)
     else Inr 1))"

definition kstrcmp :: "nat \<Rightarrow> mem \<Rightarrow> u64 \<Rightarrow> u64 \<Rightarrow> int res" where
  "kstrcmp n m src dst = kstrcmp_loop n m src dst 0"

fun kstrncmp_loop :: "mem \<Rightarrow> u64 \<Rightarrow> u64 \<Rightarrow> nat \<Rightarrow> nat \<Rightarrow> int res" where
  "kstrncmp_loop m src dst i 0 = Inr 0"
| "kstrncmp_loop m src dst i (Suc n) = bindR (rd_char m src i) (\<lambda>a.
     if a = 0 then bindR (rd_char m dst i) (\<lambda>b. Inr (uint a - uint b))
     else bindR (rd_char m dst i) (\<lambda>b. if a \<noteq> b then Inr (uint a - uint b) else kstrncmp_loop m src dst (Suc i) n))"

definition kstrncmp :: "mem \<Rightarrow> u64 \<Rightarrow> u64 \<Rightarrow> u64 \<Rightarrow> int res" where
  "kstrncmp m src dst sz = kstrncmp_loop m src dst 0 (unat sz)"

definition kstrlen :: "nat \<Rightarrow> mem \<Rightarrow> u64 \<Rightarrow> u64 res" where
  "kstrlen n m src = strlen_loop n m src 0"

section \<open>Strings in memory\<close>

definition cstring :: "mem \<Rightarrow> u64 \<Rightarrow> u8 list \<Rightarrow> bool" where
  "cstring m p s \<longleftrightarrow> holds m p (s @ [0]) \<and> 0 \<notin> set s"

lemma cstring_char:
  "cstring m p s \<Longrightarrow> i < length s \<Longrightarrow> rd_char m p i = Inr (s ! i) \<and> s ! i \<noteq> 0"
  "cstring m p s \<Longrightarrow> i = length s \<Longrightarrow> rd_char m p i = Inr 0"
proof -
  assume c: "cstring m p s"
  show "i < length s \<Longrightarrow> rd_char m p i = Inr (s ! i) \<and> s ! i \<noteq> 0"
  proof
    assume i: "i < length s"
    then show "rd_char m p i = Inr (s ! i)" using c by (simp add: cstring_def holds_def rd_char_def nth_append)
    show "s ! i \<noteq> 0" using c i nth_mem [of i s] by (metis cstring_def)
  qed
  show "i = length s \<Longrightarrow> rd_char m p i = Inr 0"
    using c by (auto simp: cstring_def holds_def rd_char_def nth_append)
qed

lemma cstring_suffix: "cstring m p s \<Longrightarrow> i \<le> length s \<Longrightarrow> cstring m (p + of_nat i) (drop i s)"
  by (auto simp: cstring_def holds_def nth_append add.assoc algebra_simps dest: in_set_dropD simp flip: of_nat_add)

lemma strlen_spec:
  assumes "cstring m p s"
  shows "i \<le> length s \<Longrightarrow> length s - i < n \<Longrightarrow> strlen_loop n m p i = Inr (of_nat (length s))"
proof (induction n arbitrary: i)
  case (Suc n)
  show ?case
  proof (cases "i < length s")
    case True
    then have "strlen_loop n m p (Suc i) = Inr (of_nat (length s))" using Suc.prems by (intro Suc.IH) linarith+
    then show ?thesis using cstring_char(1) [OF assms True] by simp
  next
    case False
    then show ?thesis using cstring_char(2) [OF assms, of i] Suc.prems by simp
  qed
qed simp

definition occurs_at :: "u8 list \<Rightarrow> u8 list \<Rightarrow> nat \<Rightarrow> bool" where
  "occurs_at t s i \<longleftrightarrow> take (length t) (drop i s) = t"

lemma compare_spec:
  assumes x: "cstring m x s" and y: "cstring m y t"
  shows "i \<le> length s \<Longrightarrow> i \<le> length t \<Longrightarrow> length t - i < n \<Longrightarrow>
    compare_loop n m x y i = Inr (take (length t - i) (drop i s) = drop i t)"
proof (induction n arbitrary: i)
  case (Suc n)
  show ?case
  proof (cases "i < length s \<and> i < length t")
    case True
    then have "take (length t - i) (drop i s) = drop i t \<longleftrightarrow> s ! i = t ! i \<and> take (length t - Suc i) (drop (Suc i) s) = drop (Suc i) t"
      by (simp add: Cons_nth_drop_Suc [symmetric] take_Suc_conv_app_nth Suc_diff_Suc [symmetric])
    moreover have "compare_loop n m x y (Suc i) = Inr (take (length t - Suc i) (drop (Suc i) s) = drop (Suc i) t)"
      using True Suc.prems by (intro Suc.IH) linarith+
    ultimately show ?thesis using cstring_char(1) [OF x, of i] cstring_char(1) [OF y, of i] True by simp
  next
    case False
    consider "i = length t" | "i = length s" "i < length t" using False Suc.prems by linarith
    then show ?thesis
    proof cases
      case 1
      then obtain a where "rd_char m x i = Inr a"
        using cstring_char [OF x, of i] Suc.prems(1) by (cases "i = length s") auto
      then show ?thesis using 1 cstring_char(2) [OF y 1] by simp
    next
      case 2
      then show ?thesis using cstring_char(2) [OF x, of i] cstring_char(1) [OF y, of i] by simp
    qed
  qed
qed simp

lemma strstr_spec:
  assumes x: "cstring m x s" and y: "cstring m y t" and t: "t \<noteq> []" "length t < n'"
  shows "i \<le> length s \<Longrightarrow> length s - i < n \<Longrightarrow>
    strstr_loop n n' m x y i = Inr (map_option (\<lambda>j. x + of_nat j) (find (occurs_at t s) [i..<length s]))"
proof (induction n arbitrary: i)
  case (Suc n)
  show ?case
  proof (cases "i < length s")
    case True
    have IH: "strstr_loop n n' m x y (Suc i) = Inr (map_option (\<lambda>j. x + of_nat j) (find (occurs_at t s) [Suc i..<length s]))"
      using True Suc.prems by (intro Suc.IH) linarith+
    have up: "[i..<length s] = i # [Suc i..<length s]" using True by (simp add: upt_conv_Cons)
    have cmp: "compare_loop n' m (x + of_nat i) y 0 = Inr (occurs_at t s i)"
      using compare_spec [OF cstring_suffix [OF x, of i] y, of 0 n'] True t by (simp add: occurs_at_def)
    have "occurs_at t s i \<Longrightarrow> s ! i = t ! 0"
      using True t(1) by (cases t) (auto simp: occurs_at_def Cons_nth_drop_Suc [symmetric])
    then show ?thesis
      using cstring_char(1) [OF x True] cstring_char(1) [OF y, of 0] t(1) cmp IH up by (cases "occurs_at t s i") auto
  next
    case False
    then show ?thesis using cstring_char(2) [OF x, of i] Suc.prems by simp
  qed
qed simp

section \<open>Copying\<close>

text \<open>Memory after the bytes with the indices in \<open>S\<close> have been copied.\<close>

definition copied :: "u64 \<Rightarrow> u64 \<Rightarrow> nat set \<Rightarrow> mem \<Rightarrow> mem" where
  "copied dst src S m a = (if unat (a - dst) \<in> S then m (src + (a - dst)) else m a)"

definition copyable :: "u64 \<Rightarrow> u64 \<Rightarrow> nat \<Rightarrow> mem \<Rightarrow> bool" where
  "copyable dst src n m \<longleftrightarrow> n \<le> 2 ^ 63 \<and>
     (\<forall>i < n. m (dst + of_nat i) \<noteq> None \<and> m (src + of_nat i) \<noteq> None) \<and>
     (\<forall>i < n. \<forall>j < n. src + of_nat i \<noteq> dst + of_nat j)"

lemma copied_insert:
  assumes "i < 2 ^ 64" "m (src + of_nat i) = Some c"
  shows "(copied dst src S m)(dst + of_nat i \<mapsto> c) = copied dst src (insert i S) m"
proof
  fix a :: u64
  have "a = dst + of_nat i \<longleftrightarrow> a - dst = of_nat i" by (auto simp: algebra_simps)
  also have "\<dots> \<longleftrightarrow> unat (a - dst) = i" using assms(1) by (auto simp: unat_of_nat take_bit_nat_eq_self simp flip: word_unat_eq_iff)
  finally have eq: "a = dst + of_nat i \<longleftrightarrow> unat (a - dst) = i" .
  show "((copied dst src S m)(dst + of_nat i \<mapsto> c)) a = copied dst src (insert i S) m a"
  proof (cases "a = dst + of_nat i")
    case True
    then show ?thesis using assms eq by (simp add: copied_def)
  next
    case False
    then show ?thesis using eq by (simp add: copied_def)
  qed
qed

lemma copy_byte:
  assumes ok: "copyable dst src n m" and i: "i < n" "S \<subseteq> {..<n}"
  shows "\<exists>c. rd_char (copied dst src S m) src i = Inr c \<and>
    wr_char (copied dst src S m) dst i c = Inr (copied dst src (insert i S) m)"
proof -
  obtain c where c: "m (src + of_nat i) = Some c" using ok i(1) by (auto simp: copyable_def)
  have n: "n \<le> 2 ^ 63" and apart: "src + of_nat i \<noteq> dst + of_nat j" if "j < n" for j
    using ok i(1) that by (auto simp: copyable_def)
  have "unat (src + of_nat i - dst) \<notin> S"
  proof
    assume s: "unat (src + of_nat i - dst) \<in> S"
    then have "src + of_nat i \<noteq> dst + of_nat (unat (src + of_nat i - dst))" using apart i(2) by blast
    then show False by simp
  qed
  then have r: "rd_char (copied dst src S m) src i = Inr c" using c by (simp add: rd_char_def copied_def)
  have "copied dst src S m (dst + of_nat i) \<noteq> None"
    using ok i(1) c by (auto simp: copied_def copyable_def)
  then obtain d where "copied dst src S m (dst + of_nat i) = Some d" by blast
  moreover have "i < 2 ^ 64" using i(1) ok by (simp add: copyable_def)
  ultimately show ?thesis using r copied_insert [of i m src c dst S] c by (simp add: wr_char_def)
qed

lemma copied_empty [simp]: "copied dst src {} m = m"
  by (simp add: copied_def fun_eq_iff)

lemma memcpy_forward:
  assumes "copyable dst src n m"
  shows "i + k \<le> n \<Longrightarrow> memcpy_loop dst src i k (copied dst src {..<i} m) = Inr (copied dst src {..<i + k} m)"
proof (induction k arbitrary: i)
  case (Suc k)
  have in_i: "insert i {..<i} = {..<Suc i}" "{..<i} \<subseteq> {..<n}" using Suc.prems by auto
  obtain c where "rd_char (copied dst src {..<i} m) src i = Inr c"
      "wr_char (copied dst src {..<i} m) dst i c = Inr (copied dst src {..<Suc i} m)"
    using copy_byte [OF assms _ in_i(2), of i] Suc.prems in_i(1) by auto
  then show ?case using Suc.IH [of "Suc i"] Suc.prems by simp
qed simp

lemma memcpy_backward:
  assumes "copyable dst src n m"
  shows "k \<le> n \<Longrightarrow> kmemcpy_loop dst src k (copied dst src {k..<n} m) = Inr (copied dst src {..<n} m)"
proof (induction k)
  case 0
  then show ?case by (simp add: atLeast0LessThan)
next
  case (Suc k)
  have in_k: "insert k {Suc k..<n} = {k..<n}" "{Suc k..<n} \<subseteq> {..<n}" using Suc.prems by auto
  obtain c where "rd_char (copied dst src {Suc k..<n} m) src k = Inr c"
      "wr_char (copied dst src {Suc k..<n} m) dst k c = Inr (copied dst src {k..<n} m)"
    using copy_byte [OF assms _ in_k(2), of k] Suc.prems in_k(1) by auto
  then show ?case using Suc by simp
qed

lemma index_range:
  assumes "unat (sz :: u64) < 2 ^ 63"
  shows "nat (sint (sz - 1) + 1) = unat sz"
proof (cases "sz = 0")
  case False
  have u: "unat (sz - 1) = unat sz - 1" "0 < unat sz" using False by (simp_all add: unat_minus_one unat_gt_0)
  have "int (unat (sz - 1)) = int (unat sz) - 1" using u by (simp only: of_nat_diff)
  then have "uint (sz - 1) = int (unat sz) - 1" by simp
  moreover have "- (2 ^ 63) \<le> sint (sz - 1)" using sint_greater_eq [of "sz - 1"] by simp
  moreover have "int (unat sz) < 2 ^ 63" using assms by (metis of_nat_less_iff of_nat_numeral of_nat_power)
  ultimately have "sint (sz - 1) = int (unat sz) - 1" using sint_cases [of "sz - 1"] by simp
  then show ?thesis by simp
qed simp

lemma copies_agree:
  assumes ok: "copyable dst src (unat sz) m" and sz: "unat sz < 2 ^ 63"
  shows "memcpy dst src sz m = Inr (copied dst src {..<unat sz} m)" "kmemcpy dst src sz m = Inr (copied dst src {..<unat sz} m)"
  using memcpy_forward [OF ok, of 0 "unat sz"] memcpy_backward [OF ok, of "unat sz"] index_range [OF sz]
  by (simp_all add: memcpy_def kmemcpy_def)

section \<open>Properties\<close>

text \<open>
  \<^verbatim>\<open>strstr\<close> returns the first place where the second string occurs in the first one, and NULL
  if there is none, for every second string that is not empty.
\<close>

theorem strstr_finds_first:
  assumes "cstring m x s" "cstring m y t" "t \<noteq> []" "length s < n" "length t < n"
  shows "strstr n m x y = Inr (map_option (\<lambda>j. x + of_nat j) (find (occurs_at t s) [0..<length s]))"
  using strstr_spec [OF assms(1-3,5), of 0 n] assms(4) by (simp add: strstr_def)

definition demo_text :: mem where
  "demo_text a = (if a < 6 then Some ([0x61, 0x62, 0x61, 0x62, 0x63, 0] ! unat a) else if a < 9 then Some ([0x62, 0x63, 0] ! unat (a - 6)) else None)"

theorem strstr_finds_first_witness:
  "strstr 8 demo_text 0 6 = Inr (Some 3)"
proof -
  have c: "cstring demo_text 0 [0x61, 0x62, 0x61, 0x62, 0x63]" "cstring demo_text 6 [0x62, 0x63]"
    by (simp_all add: cstring_def holds_def demo_text_def less_Suc_eq all_conj_distrib imp_conjR nth_Cons' conj_disj_distribL)
  show ?thesis using strstr_finds_first [OF c, of 8] by (simp add: occurs_at_def)
qed

text \<open>
  On ranges that do not overlap the kernel's \<^verbatim>\<open>memcpy\<close>, which copies from the last byte to the
  first, does the same as the user library's, which copies forwards.
\<close>

theorem kernel_memcpy_equals_user:
  assumes "copyable dst src (unat sz) m" "unat sz < 2 ^ 63"
  shows "kmemcpy dst src sz m = memcpy dst src sz m"
  using copies_agree [OF assms] by simp

theorem kernel_memcpy_equals_user_witness: "kmemcpy 6 0 3 demo_text = memcpy 6 0 3 demo_text"
proof -
  have "list_all (\<lambda>i. demo_text (6 + of_nat i) \<noteq> None \<and> demo_text (of_nat i) \<noteq> None) [0..<3]"
    "list_all (\<lambda>i. list_all (\<lambda>j. of_nat i \<noteq> (6 + of_nat j :: u64)) [0..<3]) [0..<3]"
    by code_simp+
  then have "copyable 6 0 (unat (3 :: u64)) demo_text" by (auto simp: copyable_def list_all_iff)
  then show ?thesis by (rule kernel_memcpy_equals_user) simp
qed

end
