(* ===== verification/MemWrite.thy ===== *)
theory MemWrite
  imports Strings
begin

text \<open>
  Writing to memory in closed form: what a sequence of stores leaves, as one function of the old
  memory. Offsets from a base address are natural numbers below \<open>2 ^ 64\<close>.
\<close>

definition putb :: "mem \<Rightarrow> u64 \<Rightarrow> nat \<Rightarrow> u8 list \<Rightarrow> mem" where
  "putb m b off bs = (\<lambda>x. let d = unat (x - b) in
     if off \<le> d \<and> d < off + length bs then Some (bs ! (d - off)) else m x)"

definition writable :: "mem \<Rightarrow> u64 \<Rightarrow> nat \<Rightarrow> nat \<Rightarrow> bool" where
  "writable m b off n \<longleftrightarrow> (\<forall>i < n. m (b + of_nat (off + i)) \<noteq> None)"

text \<open>The memory outside the \<open>n\<close> bytes from \<open>b\<close> on is the same.\<close>

definition same_outside :: "u64 \<Rightarrow> nat \<Rightarrow> mem \<Rightarrow> mem \<Rightarrow> bool" where
  "same_outside b n m m' \<longleftrightarrow> (\<forall>x. n \<le> unat (x - b) \<longrightarrow> m' x = m x)"

lemma unat_offset: "d < 2 ^ 64 \<Longrightarrow> unat (b + of_nat d - b :: u64) = d"
  by (simp add: unat_of_nat take_bit_nat_eq_self)

lemma putb_at:
  "i < 2 ^ 64 \<Longrightarrow> putb m b off bs (b + of_nat i) =
     (if off \<le> i \<and> i < off + length bs then Some (bs ! (i - off)) else m (b + of_nat i))"
  unfolding putb_def Let_def using unat_offset [of i b] by simp

lemma putb_Nil [simp]: "putb m b off [] = m"
  by (auto simp: putb_def fun_eq_iff Let_def)

lemma putb_Cons:
  assumes "off + length bs < 2 ^ 64"
  shows "putb (m(b + of_nat off \<mapsto> c)) b (Suc off) bs = putb m b off (c # bs)"
proof
  fix x
  have "x = b + of_nat off \<longleftrightarrow> unat (x - b) = off"
  proof
    assume "unat (x - b) = off"
    then have "x - b = of_nat off" by (metis of_nat_unat ucast_id)
    then show "x = b + of_nat off" by (simp add: algebra_simps)
  qed (use assms unat_offset [of off b] in simp)
  then show "putb (m(b + of_nat off \<mapsto> c)) b (Suc off) bs x = putb m b off (c # bs) x"
    by (auto simp: putb_def Let_def nth_Cons')
qed

lemma wr_bytes_putb:
  "off + length bs \<le> 2 ^ 64 \<Longrightarrow> writable m b off (length bs) \<Longrightarrow> wr_bytes m b off bs = Inr (putb m b off bs)"
proof (induction bs arbitrary: m off)
  case (Cons c bs)
  have w: "m (b + of_nat (off + i)) \<noteq> None" if "i < length (c # bs)" for i
    using Cons.prems(2) that by (auto simp: writable_def)
  have "writable (m(b + of_nat off \<mapsto> c)) b (Suc off) (length bs)"
    using w [of "Suc _"] by (auto simp: writable_def)
  then show ?case using Cons.IH [of "Suc off"] Cons.prems(1) w [of 0] putb_Cons [of off bs m b c] by auto
qed simp

lemma memset_loop_putb:
  "i + n \<le> 2 ^ 64 \<Longrightarrow> writable m b i n \<Longrightarrow> memset_loop b c i n m = Inr (putb m b i (replicate n c))"
proof (induction n arbitrary: m i)
  case (Suc n)
  have w: "m (b + of_nat (i + j)) \<noteq> None" if "j < Suc n" for j
    using Suc.prems(2) that by (auto simp: writable_def)
  have "writable (m(b + of_nat i \<mapsto> c)) b (Suc i) n"
    using w [of "Suc _"] by (auto simp: writable_def)
  then show ?case using Suc.IH [of "Suc i"] Suc.prems(1) w [of 0] putb_Cons [of i "replicate n c" m b c]
    by (auto simp: wr_char_def)
qed simp

lemma memset_loop_shift: "memset_loop (b + of_nat o') c i n m = memset_loop b c (o' + i) n m"
  by (induction n arbitrary: i m) (auto simp: wr_char_def add.assoc intro!: bindR_cong)

lemma writable_putb: "writable m b' off' n \<Longrightarrow> writable (putb m b off bs) b' off' n"
  by (auto simp: writable_def putb_def Let_def)

lemma writable_part: "writable m b off n \<Longrightarrow> off \<le> off' \<Longrightarrow> off' + n' \<le> off + n \<Longrightarrow> writable m b off' n'"
proof -
  assume w: "writable m b off n" "off \<le> off'" "off' + n' \<le> off + n"
  have "m (b + of_nat (off' + i)) \<noteq> None" if "i < n'" for i
  proof -
    have "off' + i = off + (off' + i - off)" "off' + i - off < n" using w that by simp_all
    then show ?thesis using w(1) unfolding writable_def by metis
  qed
  then show ?thesis unfolding writable_def by blast
qed

lemma putb_overwrite:
  assumes "length zs \<le> length ys"
  shows "putb (putb m b off (xs @ zs)) b (off + length xs) ys = putb m b off (xs @ ys)"
  using assms by (auto simp: putb_def Let_def fun_eq_iff nth_append)

lemma putb_append: "putb (putb m b off xs) b (off + length xs) ys = putb m b off (xs @ ys)"
  using putb_overwrite [of "[]" ys] by simp

lemma same_outside_putb: "off + length bs \<le> n \<Longrightarrow> same_outside b n m (putb m b off bs)"
  by (auto simp: same_outside_def putb_def Let_def)

lemma same_outside_trans: "same_outside b n m m' \<Longrightarrow> same_outside b n m' m'' \<Longrightarrow> same_outside b n m m''"
  by (auto simp: same_outside_def)

lemma same_outside_refl [simp]: "same_outside b n m m"
  by (simp add: same_outside_def)

section \<open>Reading what was written\<close>

lemma rd_bytes_Inr: "rd_bytes m b off n = Inr bs \<longleftrightarrow> length bs = n \<and> (\<forall>i < n. m (b + of_nat (off + i)) = Some (bs ! i))"
proof (induction n arbitrary: off bs)
  case (Suc n)
  show ?case
    by (cases bs; cases "m (b + of_nat off)") (auto simp: bindR_Inr_iff Suc.IH All_less_Suc2 simp del: of_nat_add)
qed auto

lemma rd_bytes_cong: "(\<And>i. i < n \<Longrightarrow> m (b + of_nat (off + i)) = m' (b' + of_nat (off' + i))) \<Longrightarrow> rd_bytes m b off n = rd_bytes m' b' off' n"
proof (induction n arbitrary: off off')
  case (Suc n)
  have "rd_bytes m b (Suc off) n = rd_bytes m' b' (Suc off') n"
    using Suc.prems [of "Suc _"] by (intro Suc.IH) auto
  then show ?case using Suc.prems [of 0] by simp
qed simp

lemma rd_bytes_putb_in:
  assumes "off \<le> off'" "off' + n \<le> off + length bs" "off + length bs \<le> 2 ^ 64"
  shows "rd_bytes (putb m b off bs) b off' n = Inr (take n (drop (off' - off) bs))"
  unfolding rd_bytes_Inr using assms by (auto simp: putb_at simp del: of_nat_add)

lemma rd_bytes_putb_out:
  assumes "off' + n \<le> off \<or> off + length bs \<le> off'" "off' + n \<le> 2 ^ 64"
  shows "rd_bytes (putb m b off bs) b off' n = rd_bytes m b off' n"
  using assms by (intro rd_bytes_cong) (auto simp: putb_at simp del: of_nat_add)

lemma rd_bytes_outside:
  "same_outside b n m m' \<Longrightarrow> (\<And>i. i < k \<Longrightarrow> n \<le> unat (a + of_nat (off + i) - b)) \<Longrightarrow> rd_bytes m' a off k = rd_bytes m a off k"
  by (intro rd_bytes_cong) (simp add: same_outside_def del: of_nat_add)

text \<open>A list of words of 8 bytes.\<close>

definition words_bytes :: "u64 list \<Rightarrow> u8 list" where
  "words_bytes ws = concat (map (le_bytes 8) ws)"

lemma length_words_bytes [simp]: "length (words_bytes ws) = 8 * length ws"
  by (induction ws) (simp_all add: words_bytes_def)

lemma words_bytes_append: "words_bytes (xs @ ys) = words_bytes xs @ words_bytes ys"
  by (simp add: words_bytes_def)

lemma take_drop_words: "k < length ws \<Longrightarrow> take 8 (drop (8 * k) (words_bytes ws)) = le_bytes 8 (ws ! k)"
proof -
  assume k: "k < length ws"
  then have "words_bytes ws = words_bytes (take k ws) @ le_bytes 8 (ws ! k) @ words_bytes (drop (Suc k) ws)"
    using id_take_nth_drop [OF k] by (metis append_Cons append_Nil append_assoc concat.simps(2) list.simps(9) words_bytes_append words_bytes_def)
  then show ?thesis using k by (simp add: min_def)
qed

lemma rd64_words:
  assumes "k < length ws" "off + 8 * length ws \<le> 2 ^ 64"
  shows "rd64 (putb m b off (words_bytes ws)) b (off + 8 * k) = Inr (ws ! k)"
proof -
  have "rd_bytes (putb m b off (words_bytes ws)) b (off + 8 * k) 8 = Inr (le_bytes 8 (ws ! k))"
    using assms by (subst rd_bytes_putb_in) (simp_all add: take_drop_words)
  then show ?thesis using word_rcat_le [of 8 "ws ! k"] by (simp add: rd_field_def)
qed

section \<open>Separate pieces of memory\<close>

text \<open>The \<open>n\<close> bytes at \<open>a\<close> are not among the \<open>l\<close> bytes at \<open>b\<close>.\<close>

definition apart :: "u64 \<Rightarrow> nat \<Rightarrow> u64 \<Rightarrow> nat \<Rightarrow> bool" where
  "apart a n b l \<longleftrightarrow> (\<forall>k < n. l \<le> unat (a + of_nat k - b))"

lemma rd_bytes_apart:
  "same_outside b l m m' \<Longrightarrow> apart a n b l \<Longrightarrow> off + k \<le> n \<Longrightarrow> rd_bytes m' a off k = rd_bytes m a off k"
  by (rule rd_bytes_outside) (auto simp: apart_def simp del: of_nat_add)

lemma rd_field_apart:
  "same_outside b l m m' \<Longrightarrow> apart a n b l \<Longrightarrow> off + k \<le> n \<Longrightarrow> rd_field m' a off k = rd_field m a off k"
  by (simp add: rd_field_def rd_bytes_apart)

lemma holds_apart: "same_outside b l m m' \<Longrightarrow> apart a n b l \<Longrightarrow> length bs \<le> n \<Longrightarrow> holds m a bs \<Longrightarrow> holds m' a bs"
  by (auto simp: holds_def apart_def same_outside_def)

lemma wr_bytes_shift: "wr_bytes m (b + of_nat o') off bs = wr_bytes m b (o' + off) bs"
  by (induction bs arbitrary: m off) (simp_all add: add.assoc)

lemma apartI: "l \<le> unat (a - b) \<Longrightarrow> unat (a - b) + n \<le> 2 ^ 64 \<Longrightarrow> apart a n b l"
proof (unfold apart_def, intro allI impI)
  fix k assume a: "l \<le> unat (a - b)" "unat (a - b) + n \<le> 2 ^ 64" "k < n"
  have e: "a + of_nat k - b = a - b + of_nat k" by simp
  have "unat (a + of_nat k - b) = unat (a - b) + k"
    unfolding e using a unat_offset [of "unat (a - b) + k" 0] by simp
  then show "l \<le> unat (a + of_nat k - b)" using a by simp
qed

text \<open>Copying from a piece of memory that the copy does not touch.\<close>

lemma memcpy_loop_putb:
  assumes "apart src n b l" "o' + n \<le> l" "l \<le> 2 ^ 64"
  shows "rd_bytes m src i k = Inr bs \<Longrightarrow> i + k = n \<Longrightarrow> writable m b (o' + i) k \<Longrightarrow>
    memcpy_loop (b + of_nat o') src i k m = Inr (putb m b (o' + i) bs)"
proof (induction k arbitrary: i m bs)
  case (Suc k)
  then obtain c cs where bs: "bs = c # cs" "m (src + of_nat i) = Some c" "rd_bytes m src (Suc i) k = Inr cs"
    by (cases "m (src + of_nat i)") (auto simp: bindR_Inr_iff)
  let ?m = "m(b + of_nat (o' + i) \<mapsto> c)"
  have w: "m (b + of_nat (o' + i + j)) \<noteq> None" if "j < Suc k" for j
    using Suc.prems(3) that by (auto simp: writable_def add.assoc)
  have "same_outside b l m ?m"
    using Suc.prems(2) assms(2,3) unat_offset [of "o' + i" b] by (auto simp: same_outside_def simp del: of_nat_add)
  then have "rd_bytes ?m src (Suc i) k = Inr cs"
    using rd_bytes_apart [of b l m ?m src n "Suc i" k] assms(1) Suc.prems(2) bs(3) by simp
  moreover have "Suc i + k = n" using Suc.prems(2) by simp
  moreover have "writable ?m b (o' + Suc i) k"
    using w [of "Suc _"] by (auto simp: writable_def add.assoc)
  ultimately have "memcpy_loop (b + of_nat o') src (Suc i) k ?m = Inr (putb ?m b (o' + Suc i) cs)"
    by (rule Suc.IH)
  moreover have "putb ?m b (o' + Suc i) cs = putb m b (o' + i) bs"
    using putb_Cons [of "o' + i" cs m b c] Suc.prems(2) assms(2,3) bs rd_bytes_Inr [of m src "Suc i" k cs] by simp
  ultimately show ?case using bs w [of 0]
    by (auto simp: rd_char_def wr_char_def add.assoc fun_upd_def)
qed simp

lemma rd_bytes_part:
  "rd_bytes m b off n = Inr bs \<Longrightarrow> off \<le> off' \<Longrightarrow> off' + k \<le> off + n \<Longrightarrow> rd_bytes m b off' k = Inr (take k (drop (off' - off) bs))"
  unfolding rd_bytes_Inr
proof (intro conjI allI impI)
  assume r: "length bs = n \<and> (\<forall>i < n. m (b + of_nat (off + i)) = Some (bs ! i))" and "off \<le> off'" "off' + k \<le> off + n"
  then show "length (take k (drop (off' - off) bs)) = k" by simp
  fix i assume "i < k"
  then have "m (b + of_nat (off + (off' - off + i))) = Some (bs ! (off' - off + i))"
    using r \<open>off' + k \<le> off + n\<close> \<open>off \<le> off'\<close> by (intro r [THEN conjunct2, rule_format]) simp
  then show "m (b + of_nat (off' + i)) = Some (take k (drop (off' - off) bs) ! i)"
    using r \<open>i < k\<close> \<open>off' + k \<le> off + n\<close> \<open>off \<le> off'\<close> by (simp add: add.assoc [symmetric])
qed

lemma rd_bytes_writable: "rd_bytes m b off n = Inr bs \<Longrightarrow> off \<le> off' \<Longrightarrow> off' + k \<le> off + n \<Longrightarrow> writable m b off' k"
  using rd_bytes_part [of m b off n bs off' k] by (auto simp: rd_bytes_Inr writable_def)

lemma rd_bytes_update:
  assumes "rd_bytes m b off n = Inr bs" "off \<le> off'" "off' + length xs \<le> off + n" "off + n \<le> 2 ^ 64"
  shows "rd_bytes (putb m b off' xs) b off n = Inr (take (off' - off) bs @ xs @ drop (off' - off + length xs) bs)"
  using assms unfolding rd_bytes_Inr
  by (auto simp: putb_at nth_append add.commute simp del: of_nat_add)

text \<open>Any bytes are the bytes of some words.\<close>

lemma le_bytes_rcat: "length bs = 8 \<Longrightarrow> le_bytes 8 (word_rcat (rev bs) :: u64) = bs"
proof (rule nth_equalityI)
  fix i assume l: "length bs = 8" and "i < length (le_bytes 8 (word_rcat (rev bs) :: u64))"
  then have i: "i < 8" by simp
  have "ucast (drop_bit (8 * i) (word_rcat (rev bs) :: u64)) = bs ! i"
    by (rule bit_word_eqI) (use i l in \<open>simp add: bit_simps bit_rcat\<close>)
  then show "le_bytes 8 (word_rcat (rev bs) :: u64) ! i = bs ! i" using i by (simp add: le_bytes_def)
qed simp

lemma bytes_words: "length bs = 8 * k \<Longrightarrow> \<exists>ws. length ws = k \<and> bs = words_bytes ws"
proof (induction k arbitrary: bs)
  case (Suc k)
  then have "length (drop 8 bs) = 8 * k" by simp
  then obtain ws where "length ws = k" "drop 8 bs = words_bytes ws" using Suc.IH by blast
  moreover have "le_bytes 8 (word_rcat (rev (take 8 bs)) :: u64) = take 8 bs"
    using Suc.prems by (intro le_bytes_rcat) simp
  then have "words_bytes (word_rcat (rev (take 8 bs)) # ws) = take 8 bs @ words_bytes ws" by (simp add: words_bytes_def)
  ultimately have "length (word_rcat (rev (take 8 bs)) # ws) = Suc k \<and> bs = words_bytes (word_rcat (rev (take 8 bs)) # ws)"
    by (metis append_take_drop_id length_Cons)
  then show ?case by blast
qed (auto simp: words_bytes_def)

lemma writable_rd: "writable m b off n \<Longrightarrow> \<exists>bs. rd_bytes m b off n = Inr bs \<and> length bs = n"
proof -
  assume "writable m b off n"
  then have "\<forall>i < n. m (b + of_nat (off + i)) = Some (the (m (b + of_nat (off + i))))" by (auto simp: writable_def)
  then show ?thesis
    by (intro exI [of _ "map (\<lambda>i. the (m (b + of_nat (off + i)))) [0..<n]"]) (simp add: rd_bytes_Inr)
qed

lemma rd_bytes_append:
  "rd_bytes m b off n = Inr xs \<Longrightarrow> rd_bytes m b (off + n) k = Inr ys \<Longrightarrow> rd_bytes m b off (n + k) = Inr (xs @ ys)"
  unfolding rd_bytes_Inr
proof (intro conjI allI impI)
  fix i assume x: "length xs = n \<and> (\<forall>i < n. m (b + of_nat (off + i)) = Some (xs ! i))"
    and y: "length ys = k \<and> (\<forall>i < k. m (b + of_nat (off + n + i)) = Some (ys ! i))" and i: "i < n + k"
  show "m (b + of_nat (off + i)) = Some ((xs @ ys) ! i)"
  proof (cases "i < n")
    case False
    then show ?thesis using y [THEN conjunct2, rule_format, of "i - n"] x i by (simp add: nth_append)
  qed (use x in \<open>simp add: nth_append\<close>)
qed simp

end
