(* ===== verification/UserCall.thy ===== *)
theory UserCall
  imports Exception
begin

text \<open>
  System calls from user mode: \<^verbatim>\<open>user/lib/syscall.c\<close>, and with them the seam between the user
  library and the kernel. A user function runs on the kernel state like the kernel's own functions; a
  system call enters \<open>syscall_table\<close>. It comes back with a value in \<open>x0\<close> (\<open>Reply\<close>), or the CPU goes on in
  another thread (\<open>Away\<close>), and then the caller does not continue here. The environment is
  what the table needs besides: the character at the console, the archive's symbols, the CPU, the MMU
  (theory \<open>UserLib\<close>), and \<open>ue_x0\<close>, what a handler without a result leaves in \<open>x0\<close>; of the wrappers only
  \<^verbatim>\<open>usys_debug\<close> returns that.
\<close>

record uenv =
  ue_char :: u32
  ue_start :: u64
  ue_size :: u64
  ue_cpu :: nat
  ue_mmu :: "kernel \<Rightarrow> kernel"
  ue_x0 :: u64

datatype 'a reply = Reply 'a | Away "thread_ptr \<times> nat option"

type_synonym 'a uop = "'a reply kop"

definition retU :: "'a \<Rightarrow> 'a uop" where
  "retU x = retK (Reply x)"

definition bindU :: "'a uop \<Rightarrow> ('a \<Rightarrow> 'b uop) \<Rightarrow> 'b uop" where
  "bindU m f = bindK m (\<lambda>r. case r of Reply x \<Rightarrow> f x | Away n \<Rightarrow> retK (Away n))"

abbreviation seqU :: "'a uop \<Rightarrow> 'b uop \<Rightarrow> 'b uop" where
  "seqU m n \<equiv> bindU m (\<lambda>_. n)"

definition outcome_reply :: "u64 \<Rightarrow> outcome \<Rightarrow> u64 reply" where
  "outcome_reply x0 out = (case out of Back \<Rightarrow> Reply x0 | Result r \<Rightarrow> Reply r | Next n \<Rightarrow> Away n)"

text \<open>\<^verbatim>\<open>syscall\<close>: the number in \<open>x8\<close>, the arguments in \<open>x0\<close> to \<open>x5\<close> (no call has more).\<close>

definition syscall :: "uenv \<Rightarrow> u32 \<Rightarrow> u64 \<Rightarrow> u64 \<Rightarrow> u64 \<Rightarrow> u64 \<Rightarrow> u64 \<Rightarrow> u64 \<Rightarrow> u64 uop" where
  "syscall e sys_no arg0 arg1 arg2 arg3 arg4 arg5 =
     bindK (syscall_table (ue_char e) (ue_start e) (ue_size e) (ue_cpu e) sys_no arg0 arg1 arg2 arg3 arg4 arg5)
       (\<lambda>r. retK (outcome_reply (ue_x0 e) r))"

text \<open>The conversion of the result to \<^verbatim>\<open>int\<close> and to \<^verbatim>\<open>u32\<close>.\<close>

definition as_int :: "u64 uop \<Rightarrow> int uop" where
  "as_int m = bindU m (\<lambda>r. retU (cint r))"

definition as_u32 :: "u64 uop \<Rightarrow> u32 uop" where
  "as_u32 m = bindU m (\<lambda>r. retU (ucast r))"

section \<open>The wrappers\<close>

definition usys_putc :: "uenv \<Rightarrow> u8 \<Rightarrow> unit uop" where
  "usys_putc e ch = seqU (syscall e 0 (ucast ch) 0 0 0 0 0) (retU ())"

definition usys_exit :: "uenv \<Rightarrow> int \<Rightarrow> unit uop" where
  "usys_exit e ret = seqU (syscall e 3 (word_of_int ret) 0 0 0 0 0) (retU ())"

definition usys_create_pmo :: "uenv \<Rightarrow> u64 \<Rightarrow> u64 \<Rightarrow> int uop" where
  "usys_create_pmo e sz type = as_int (syscall e 5 sz type 0 0 0 0)"

definition usys_map_pmo :: "uenv \<Rightarrow> u64 \<Rightarrow> u64 \<Rightarrow> u64 \<Rightarrow> u64 \<Rightarrow> int uop" where
  "usys_map_pmo e process_cap pmo_cap addr rights = as_int (syscall e 6 process_cap pmo_cap addr rights 0 0)"

definition usys_handle_brk :: "uenv \<Rightarrow> u64 \<Rightarrow> u64 uop" where
  "usys_handle_brk e addr = syscall e 201 addr 0 0 0 0 0"

definition usys_getc :: "uenv \<Rightarrow> u32 uop" where
  "usys_getc e = as_u32 (syscall e 1 0 0 0 0 0 0)"

definition usys_yield :: "uenv \<Rightarrow> u64 uop" where
  "usys_yield e = syscall e 2 0 0 0 0 0 0"

definition usys_create_device_pmo :: "uenv \<Rightarrow> u64 \<Rightarrow> u64 \<Rightarrow> int uop" where
  "usys_create_device_pmo e paddr sz = as_int (syscall e 20 paddr sz 0 0 0 0)"

definition usys_unmap_pmo :: "uenv \<Rightarrow> u64 \<Rightarrow> u64 \<Rightarrow> u64 \<Rightarrow> int uop" where
  "usys_unmap_pmo e process_cap pmo_cap addr = as_int (syscall e 17 process_cap pmo_cap addr 0 0 0)"

definition usys_set_affinity :: "uenv \<Rightarrow> u64 \<Rightarrow> s32 \<Rightarrow> int uop" where
  "usys_set_affinity e thread_cap aff = as_int (syscall e 18 thread_cap (scast aff) 0 0 0 0)"

definition usys_get_affinity :: "uenv \<Rightarrow> u64 \<Rightarrow> int uop" where
  "usys_get_affinity e thread_cap = as_int (syscall e 19 thread_cap 0 0 0 0 0)"

definition usys_get_cpu_id :: "uenv \<Rightarrow> u32 uop" where
  "usys_get_cpu_id e = as_u32 (syscall e 50 0 0 0 0 0 0)"

definition usys_create_thread :: "uenv \<Rightarrow> u64 \<Rightarrow> u64 \<Rightarrow> u64 \<Rightarrow> u64 \<Rightarrow> u32 \<Rightarrow> s32 \<Rightarrow> int uop" where
  "usys_create_thread e process_cap stack pc arg prio aff =
     as_int (syscall e 7 process_cap stack pc arg (ucast prio) (scast aff))"

definition usys_create_process :: "uenv \<Rightarrow> int uop" where
  "usys_create_process e = as_int (syscall e 8 0 0 0 0 0 0)"

definition usys_register_server :: "uenv \<Rightarrow> u64 \<Rightarrow> u64 \<Rightarrow> u64 \<Rightarrow> u64 uop" where
  "usys_register_server e callback maxc vm_config_ptr = syscall e 9 callback maxc vm_config_ptr 0 0 0"

definition usys_register_client :: "uenv \<Rightarrow> u32 \<Rightarrow> u64 \<Rightarrow> u32 uop" where
  "usys_register_client e server_cap vm_config_ptr = as_u32 (syscall e 10 (ucast server_cap) vm_config_ptr 0 0 0 0)"

definition usys_ipc_call :: "uenv \<Rightarrow> u32 \<Rightarrow> u64 \<Rightarrow> u64 uop" where
  "usys_ipc_call e conn_cap arg0 = syscall e 12 (ucast conn_cap) arg0 0 0 0 0"

definition usys_ipc_reg_call :: "uenv \<Rightarrow> u32 \<Rightarrow> u64 \<Rightarrow> u64 uop" where
  "usys_ipc_reg_call e conn_cap arg0 = syscall e 51 (ucast conn_cap) arg0 0 0 0 0"

definition usys_ipc_return :: "uenv \<Rightarrow> u64 \<Rightarrow> unit uop" where
  "usys_ipc_return e ret = seqU (syscall e 13 ret 0 0 0 0 0) (retU ())"

definition usys_debug :: "uenv \<Rightarrow> int uop" where
  "usys_debug e = as_int (syscall e 255 0 0 0 0 0 0)"

definition usys_cap_copy_to :: "uenv \<Rightarrow> u64 \<Rightarrow> u64 \<Rightarrow> int uop" where
  "usys_cap_copy_to e dest_process_cap src_slot_id = as_int (syscall e 15 dest_process_cap src_slot_id 0 0 0 0)"

definition usys_cap_copy_from :: "uenv \<Rightarrow> u64 \<Rightarrow> u64 \<Rightarrow> int uop" where
  "usys_cap_copy_from e src_process_cap src_slot_id = as_int (syscall e 16 src_process_cap src_slot_id 0 0 0 0)"

definition usys_fs_load_cpio :: "uenv \<Rightarrow> u64 \<Rightarrow> int uop" where
  "usys_fs_load_cpio e vaddr = as_int (syscall e 253 vaddr 0 0 0 0 0)"

definition usys_create_pmos :: "uenv \<Rightarrow> u64 \<Rightarrow> u64 \<Rightarrow> int uop" where
  "usys_create_pmos e req cnt = as_int (syscall e 101 req cnt 0 0 0 0)"

definition usys_map_pmos :: "uenv \<Rightarrow> u64 \<Rightarrow> u64 \<Rightarrow> u64 \<Rightarrow> int uop" where
  "usys_map_pmos e cap req cnt = as_int (syscall e 102 cap req cnt 0 0 0)"

definition usys_write_pmo :: "uenv \<Rightarrow> u64 \<Rightarrow> u64 \<Rightarrow> u64 \<Rightarrow> u64 \<Rightarrow> int uop" where
  "usys_write_pmo e cap off buf sz = as_int (syscall e 103 cap off buf sz 0 0)"

definition usys_read_pmo :: "uenv \<Rightarrow> u64 \<Rightarrow> u64 \<Rightarrow> u64 \<Rightarrow> u64 \<Rightarrow> int uop" where
  "usys_read_pmo e cap off buf sz = as_int (syscall e 104 cap off buf sz 0 0)"

definition usys_transfer_caps :: "uenv \<Rightarrow> u64 \<Rightarrow> u64 \<Rightarrow> int \<Rightarrow> u64 \<Rightarrow> int uop" where
  "usys_transfer_caps e process src_caps nr dst_caps = as_int (syscall e 105 process src_caps (word_of_int nr) dst_caps 0 0)"

definition usys_top :: "uenv \<Rightarrow> unit uop" where
  "usys_top e = seqU (syscall e 252 0 0 0 0 0 0) (retU ())"

lemmas usys_defs = usys_putc_def usys_exit_def usys_create_pmo_def usys_map_pmo_def usys_handle_brk_def usys_getc_def usys_yield_def
  usys_create_device_pmo_def usys_unmap_pmo_def usys_set_affinity_def usys_get_affinity_def usys_get_cpu_id_def usys_create_thread_def
  usys_create_process_def usys_register_server_def usys_register_client_def usys_ipc_call_def usys_ipc_reg_call_def usys_ipc_return_def
  usys_cap_copy_to_def usys_cap_copy_from_def usys_fs_load_cpio_def usys_create_pmos_def usys_map_pmos_def usys_write_pmo_def
  usys_read_pmo_def usys_transfer_caps_def usys_debug_def usys_top_def

section \<open>What the wrappers reach\<close>

definition int_result :: "int kop \<Rightarrow> int uop" where
  "int_result m = bindK m (\<lambda>r. retU (cint (word_of_int r)))"

definition next_result :: "(thread_ptr \<times> nat option) kop \<Rightarrow> 'a uop" where
  "next_result m = bindK m (\<lambda>n. retK (Away n))"

definition call_result :: "(int + thread_ptr \<times> nat option) kop \<Rightarrow> u64 uop" where
  "call_result m = bindK m (\<lambda>r. case r of Inl r \<Rightarrow> retU (word_of_int r) | Inr n \<Rightarrow> retK (Away n))"

lemma bindK_assoc: "bindK (bindK m f) g = bindK m (\<lambda>x. bindK (f x) g)"
  by (auto simp: bindK_def fun_eq_iff bindR_assoc intro!: bindR_cong)

lemma bindK_ret [simp]: "bindK (retK x) f = f x"
  by (simp add: bindK_def retK_def fun_eq_iff)

lemma outcome_reply_simps [simp]:
  "outcome_reply x Back = Reply x" "outcome_reply x (Result r) = Reply r" "outcome_reply x (Next n) = Away n"
  by (simp_all add: outcome_reply_def)

lemma as_int_result: "bindK (resultI m) (\<lambda>r. retK (outcome_reply x r)) = bindK m (\<lambda>r. retU (word_of_int r))"
  by (simp add: resultI_def bindK_assoc retU_def)

lemma as_int_eq: "as_int (bindK m (\<lambda>r. retU (word_of_int r))) = int_result m"
  by (simp add: as_int_def int_result_def bindU_def bindK_assoc retU_def)

lemma as_u32_eq: "as_u32 (bindK m (\<lambda>r. retU (word_of_int r))) = bindK m (\<lambda>r. retU (word_of_int r))"
proof -
  have "(ucast (word_of_int r :: u64) :: u32) = word_of_int r" for r
    by (rule bit_word_eqI) (simp add: bit_simps)
  then show ?thesis by (simp add: as_u32_def bindU_def bindK_assoc retU_def)
qed

lemma resultU_reply: "bindK (resultU m) (\<lambda>r. retK (outcome_reply x r)) = bindK m retU"
proof -
  have "retU = (\<lambda>r :: u64. retK (Reply r))" by (simp add: retU_def fun_eq_iff)
  then show ?thesis by (simp add: resultU_def bindK_assoc)
qed

lemma next_reply: "bindK (nextK m) (\<lambda>r. retK (outcome_reply x r)) = next_result m"
  by (simp add: nextK_def next_result_def bindK_assoc)

lemma call_reply: "bindK (result_or_next m) (\<lambda>r. retK (outcome_reply x r)) = call_result m"
proof -
  have "(\<lambda>r. bindK (case r of Inl r \<Rightarrow> retK (Result (word_of_int r)) | Inr n \<Rightarrow> retK (Next n)) (\<lambda>r. retK (outcome_reply x r)))
      = (\<lambda>r. case r of Inl r \<Rightarrow> retU (word_of_int r) | Inr n \<Rightarrow> retK (Away n))"
    by (auto simp: fun_eq_iff retU_def split: sum.split)
  then show ?thesis by (simp add: result_or_next_def call_result_def bindK_assoc)
qed

lemma narrow_scast [simp]: "(ucast (scast (x :: s32) :: u64) :: s32) = x"
  by (rule bit_word_eqI) (simp add: bit_simps)

lemma narrow_ucast [simp]: "(ucast (ucast (x :: u32) :: u64) :: u32) = x"
  by (rule bit_word_eqI) (simp add: bit_simps)

lemma cint_ucast: "cint (ucast (x :: u32)) = sint x"
  by (simp add: cint_def)

lemma narrow_ucast8 [simp]: "(ucast (ucast (x :: u8) :: u64) :: u8) = x"
  by (rule bit_word_eqI) (simp add: bit_simps)

lemma seqU_reply: "seqU (bindK m (\<lambda>r. retK (Reply (f r)))) n = bindK m (\<lambda>_. n)"
  by (simp add: bindU_def bindK_assoc)

lemma seqU_next: "seqU (next_result m) n = next_result m"
  by (simp add: bindU_def bindK_assoc next_result_def)

lemma void_reply: "bindK (resultV m) (\<lambda>r. retK (outcome_reply x r)) = bindK m (\<lambda>_. retK (Reply x))"
  by (simp add: resultV_def bindK_assoc)

lemma narrow_reply: "as_u32 (bindK (resultW m) (\<lambda>r. retK (outcome_reply x r))) = bindK m retU"
proof -
  have "retU = (\<lambda>r :: u32. retK (Reply r))" by (simp add: retU_def fun_eq_iff)
  then show ?thesis by (simp add: as_u32_def resultW_def bindU_def bindK_assoc retU_def)
qed

lemma return_reply:
  "seqU (bindK (bindK m (\<lambda>r. case r of Inl _ \<Rightarrow> retK Back | Inr n \<Rightarrow> retK (Next n))) (\<lambda>r. retK (outcome_reply x r))) (retU ())
    = bindK m (\<lambda>r. case r of Inl _ \<Rightarrow> retU () | Inr n \<Rightarrow> retK (Away n))"
  by (auto simp: bindU_def bindK_assoc fun_eq_iff intro!: arg_cong [where f = "\<lambda>f. bindK m f _"] split: sum.split)

lemma debug_text: "sys_debug 0 = console_text (map of_char ''[INFO] [syscall] sys_debug: 0'' @ [10])"
proof -
  have "printk 0 Map.empty 0 debug_format [0] = Inr (map of_char ''[INFO] [syscall] sys_debug: 0'' @ [10])" by code_simp
  then show ?thesis by (simp add: sys_debug_def bindK_def liftK_def fun_eq_iff)
qed

lemma void_calls:
  "usys_putc e ch = bindK (sys_putc ch) retU"
  "usys_exit e ret = next_result (sys_exit (ue_cpu e) (cint (word_of_int ret)))"
  "usys_getc e = bindK (sys_getc (ue_char e)) retU"
  "usys_get_cpu_id e = bindK (sys_get_cpu_id (ue_cpu e)) retU"
  "usys_ipc_return e rv = bindK (sys_ipc_return (ue_cpu e) rv) (\<lambda>r. case r of Inl _ \<Rightarrow> retU () | Inr n \<Rightarrow> retK (Away n))"
  "usys_debug e = bindK (sys_debug 0) (\<lambda>_. retU (cint (ue_x0 e)))"
  "usys_top e = failK WILD"
proof -
  have u: "retU = (\<lambda>_. retU ())" by (simp add: fun_eq_iff)
  have f: "bindK (failK x) g = failK x" for x and g :: "'b \<Rightarrow> 'c kop" by (simp add: bindK_def failK_def fun_eq_iff)
  show "usys_putc e ch = bindK (sys_putc ch) retU"
    by (subst u) (simp add: usys_defs syscall_def syscall_table_def void_reply seqU_reply)
  show "usys_exit e ret = next_result (sys_exit (ue_cpu e) (cint (word_of_int ret)))"
    by (simp add: usys_defs syscall_def syscall_table_def next_reply seqU_next)
  show "usys_getc e = bindK (sys_getc (ue_char e)) retU" "usys_get_cpu_id e = bindK (sys_get_cpu_id (ue_cpu e)) retU"
    by (simp_all add: usys_defs syscall_def syscall_table_def narrow_reply)
  show "usys_ipc_return e rv = bindK (sys_ipc_return (ue_cpu e) rv) (\<lambda>r. case r of Inl _ \<Rightarrow> retU () | Inr n \<Rightarrow> retK (Away n))"
    by (simp add: usys_defs syscall_def syscall_table_def return_reply)
  show "usys_debug e = bindK (sys_debug 0) (\<lambda>_. retU (cint (ue_x0 e)))"
    by (simp add: usys_defs syscall_def syscall_table_def void_reply as_int_def bindU_def bindK_assoc)
  show "usys_top e = failK WILD"
    by (simp add: usys_defs syscall_def syscall_table_def bindU_def bindK_assoc f)
qed

lemma user_calls:
  "usys_create_pmo e sz type = int_result (sys_create_pmo (ue_cpu e) sz type)"
  "usys_map_pmo e p c a r = int_result (sys_map_pmo (ue_cpu e) p c a r)"
  "usys_unmap_pmo e p c a = int_result (sys_unmap_pmo (ue_cpu e) p c a)"
  "usys_create_device_pmo e pa sz = int_result (sys_create_device_pmo (ue_cpu e) pa sz)"
  "usys_create_thread e p st pc arg prio aff = int_result (sys_create_thread (ue_cpu e) p st pc arg prio aff)"
  "usys_create_process e = int_result (sys_create_process (ue_cpu e))"
  "usys_set_affinity e t aff = int_result (sys_set_affinity (ue_cpu e) t aff)"
  "usys_get_affinity e t = int_result (sys_get_affinity (ue_cpu e) t)"
  "usys_cap_copy_to e p c = int_result (sys_cap_copy_to (ue_cpu e) p c)"
  "usys_cap_copy_from e p c = int_result (sys_cap_copy_from (ue_cpu e) p c)"
  "usys_create_pmos e b n = int_result (sys_create_pmos (ue_cpu e) b n)"
  "usys_map_pmos e p b n = int_result (sys_map_pmos (ue_cpu e) p b n)"
  "usys_write_pmo e c off b sz = int_result (sys_write_pmo (ue_cpu e) c off b sz)"
  "usys_read_pmo e c off b sz = int_result (sys_read_pmo (ue_cpu e) c off b sz)"
  "usys_transfer_caps e p b nr d = int_result (sys_transfer_caps (ue_cpu e) p b (cint (word_of_int nr)) d)"
  "usys_fs_load_cpio e a = int_result (sys_fs_load_cpio (ue_start e) (ue_size e) (ue_cpu e) a)"
  "usys_register_server e cb n vc = bindK (sys_register_server (ue_cpu e) cb n vc) (\<lambda>r. retU (word_of_int r))"
  "usys_register_client e s vc = bindK (sys_register_client (ue_cpu e) s vc) (\<lambda>r. retU (word_of_int r))"
  "usys_handle_brk e a = bindK (sys_handle_brk (ue_cpu e) a) retU"
  "usys_yield e = next_result (schK (sys_yield (ue_cpu e)))"
  "usys_ipc_call e conn m = call_result (sys_ipc_call (ue_cpu e) conn m)"
  "usys_ipc_reg_call e conn m = call_result (sys_ipc_reg_call (ue_cpu e) conn m)"
  by (simp_all add: usys_defs syscall_def syscall_table_def as_int_result as_int_eq as_u32_eq next_reply call_reply cint_ucast
      resultU_reply)

section \<open>Properties\<close>

text \<open>
  C30: each of the 29 wrappers of \<^verbatim>\<open>syscall.c\<close> reaches the handler of its name in the kernel,
  with its arguments in the handler's order and types and the handler's result as its own: number,
  registers and conversions on the two sides fit together. Two do not do what they are for:
  \<^verbatim>\<open>usys_debug\<close> returns what the handler, which has no result, happens to leave in the
  register, and the number of \<^verbatim>\<open>usys_top\<close> has no entry in the table, so that the kernel
  jumps through a NULL pointer.
\<close>

theorem wrappers_reach_handlers:
  "(usys_create_pmo e sz type = int_result (sys_create_pmo (ue_cpu e) sz type)) \<and>
   (usys_map_pmo e p c a r = int_result (sys_map_pmo (ue_cpu e) p c a r)) \<and>
   (usys_unmap_pmo e p c a = int_result (sys_unmap_pmo (ue_cpu e) p c a)) \<and>
   (usys_create_device_pmo e pa sz = int_result (sys_create_device_pmo (ue_cpu e) pa sz)) \<and>
   (usys_create_thread e p st pc arg prio aff = int_result (sys_create_thread (ue_cpu e) p st pc arg prio aff)) \<and>
   (usys_create_process e = int_result (sys_create_process (ue_cpu e))) \<and>
   (usys_set_affinity e t aff = int_result (sys_set_affinity (ue_cpu e) t aff)) \<and>
   (usys_get_affinity e t = int_result (sys_get_affinity (ue_cpu e) t)) \<and>
   (usys_cap_copy_to e p c = int_result (sys_cap_copy_to (ue_cpu e) p c)) \<and>
   (usys_cap_copy_from e p c = int_result (sys_cap_copy_from (ue_cpu e) p c)) \<and>
   (usys_create_pmos e b n = int_result (sys_create_pmos (ue_cpu e) b n)) \<and>
   (usys_map_pmos e p b n = int_result (sys_map_pmos (ue_cpu e) p b n)) \<and>
   (usys_write_pmo e c off b sz = int_result (sys_write_pmo (ue_cpu e) c off b sz)) \<and>
   (usys_read_pmo e c off b sz = int_result (sys_read_pmo (ue_cpu e) c off b sz)) \<and>
   (usys_transfer_caps e p b nr d = int_result (sys_transfer_caps (ue_cpu e) p b (cint (word_of_int nr)) d)) \<and>
   (usys_fs_load_cpio e a = int_result (sys_fs_load_cpio (ue_start e) (ue_size e) (ue_cpu e) a)) \<and>
   (usys_register_server e cb n vc = bindK (sys_register_server (ue_cpu e) cb n vc) (\<lambda>r. retU (word_of_int r))) \<and>
   (usys_register_client e s vc = bindK (sys_register_client (ue_cpu e) s vc) (\<lambda>r. retU (word_of_int r))) \<and>
   (usys_handle_brk e a = bindK (sys_handle_brk (ue_cpu e) a) retU) \<and>
   (usys_yield e = next_result (schK (sys_yield (ue_cpu e)))) \<and>
   (usys_ipc_call e conn m = call_result (sys_ipc_call (ue_cpu e) conn m)) \<and>
   (usys_ipc_reg_call e conn m = call_result (sys_ipc_reg_call (ue_cpu e) conn m)) \<and>
   (usys_putc e ch = bindK (sys_putc ch) retU) \<and>
   (usys_exit e ret = next_result (sys_exit (ue_cpu e) (cint (word_of_int ret)))) \<and>
   (usys_getc e = bindK (sys_getc (ue_char e)) retU) \<and>
   (usys_get_cpu_id e = bindK (sys_get_cpu_id (ue_cpu e)) retU) \<and>
   (usys_ipc_return e rv = bindK (sys_ipc_return (ue_cpu e) rv) (\<lambda>r. case r of Inl _ \<Rightarrow> retU () | Inr n \<Rightarrow> retK (Away n))) \<and>
   (usys_debug e = bindK (sys_debug 0) (\<lambda>_. retU (cint (ue_x0 e)))) \<and>
   (usys_top e = failK WILD)"
  by (intro conjI) (rule user_calls void_calls)+

end
