(* ===== verification/UserLib.thy ===== *)
theory UserLib
  imports UserCall Strings
begin

text \<open>
  The user library above the system calls: messages and connections (\<^verbatim>\<open>user/lib/ipc.c\<close>),
  \<^verbatim>\<open>malloc.c\<close> and \<^verbatim>\<open>thread.c\<close>. User code reads and writes the memory of the address
  space it runs in. A \<^verbatim>\<open>BUG_ON\<close> of the library prints and loops, as in the kernel. Which
  memory an address space shows after a mapping has changed is the work of the MMU on the page tables,
  a part of the environment here (\<open>ue_mmu\<close>): it may copy bytes between user memory and the objects.
\<close>

definition mem_get :: "uenv \<Rightarrow> (mem \<Rightarrow> 'a res) \<Rightarrow> 'a uop" where
  "mem_get e f = bindK (cur_space (ue_cpu e)) (\<lambda>v. bindK (getK (\<lambda>k. umem k v)) (\<lambda>m. bindK (liftK (f m)) retU))"

definition mem_mod :: "uenv \<Rightarrow> (mem \<Rightarrow> ('a \<times> mem) res) \<Rightarrow> 'a uop" where
  "mem_mod e f = bindK (cur_space (ue_cpu e)) (\<lambda>v. bindK (getK (\<lambda>k. umem k v)) (\<lambda>m.
     bindK (liftK (f m)) (\<lambda>(x, m). bindK (modK (\<lambda>k. k\<lparr>umem := (umem k)(v := m)\<rparr>)) (\<lambda>_. retU x))))"

definition bugU :: "bool \<Rightarrow> unit uop" where
  "bugU b = bindK (bugK b) retU"

text \<open>\<^verbatim>\<open>usys_map_pmo\<close> and \<^verbatim>\<open>usys_unmap_pmo\<close> with what the MMU does with the new page tables.\<close>

definition map_pmo :: "uenv \<Rightarrow> u64 \<Rightarrow> u64 \<Rightarrow> u64 \<Rightarrow> u64 \<Rightarrow> int uop" where
  "map_pmo e process_cap pmo_cap addr rights =
     bindU (usys_map_pmo e process_cap pmo_cap addr rights) (\<lambda>r. seqK (modK (ue_mmu e)) (retU r))"

definition unmap_pmo :: "uenv \<Rightarrow> u64 \<Rightarrow> u64 \<Rightarrow> u64 \<Rightarrow> int uop" where
  "unmap_pmo e process_cap pmo_cap addr =
     bindU (usys_unmap_pmo e process_cap pmo_cap addr) (\<lambda>r. seqK (modK (ue_mmu e)) (retU r))"

abbreviation wr64 :: "mem \<Rightarrow> u64 \<Rightarrow> nat \<Rightarrow> u64 \<Rightarrow> mem res" where
  "wr64 m a off v \<equiv> wr_bytes m a off (le_bytes 8 v)"

section \<open>Messages\<close>

text \<open>
  \<^verbatim>\<open>struct ipc_msg\<close>: the connection, the length of the data, the number of capabilities and the
  offsets of data and capabilities, 8 bytes each.
\<close>

definition MSG_DATA_LEN :: nat where "MSG_DATA_LEN = 8"
definition MSG_CAP_SLOT_NUMBER :: nat where "MSG_CAP_SLOT_NUMBER = 16"
definition MSG_DATA_OFFSET :: nat where "MSG_DATA_OFFSET = 24"
definition MSG_CAP_SLOTS_OFFSET :: nat where "MSG_CAP_SLOTS_OFFSET = 32"
definition SIZEOF_IPC_MSG :: u64 where "SIZEOF_IPC_MSG = 40"

lemmas msg_defs = MSG_DATA_LEN_def MSG_CAP_SLOT_NUMBER_def MSG_DATA_OFFSET_def MSG_CAP_SLOTS_OFFSET_def SIZEOF_IPC_MSG_def

definition ipc_get_msg_data :: "mem \<Rightarrow> u64 \<Rightarrow> u64 res" where
  "ipc_get_msg_data m ipc_msg = bindR (rd64 m ipc_msg MSG_DATA_OFFSET) (\<lambda>off. Inr (ipc_msg + off))"

definition ipc_set_msg_data :: "u64 \<Rightarrow> u64 \<Rightarrow> u64 \<Rightarrow> u64 \<Rightarrow> mem \<Rightarrow> (int \<times> mem) res" where
  "ipc_set_msg_data ipc_msg data off len m =
     (if off + len < off then Inr (- 1, m)
      else
        bindR (rd64 m ipc_msg MSG_DATA_LEN) (\<lambda>data_len.
        if off + len > data_len then Inr (- 1, m)
        else
          bindR (ipc_get_msg_data m ipc_msg) (\<lambda>p.
          bindR (memcpy (p + off) data len m) (\<lambda>m. Inr (0, m)))))"

definition ipc_get_msg_cap_ptr :: "mem \<Rightarrow> u64 \<Rightarrow> u64 \<Rightarrow> u64 res" where
  "ipc_get_msg_cap_ptr m ipc_msg cap_id =
     bindR (rd64 m ipc_msg MSG_CAP_SLOTS_OFFSET) (\<lambda>off. Inr (ipc_msg + off + 8 * cap_id))"

definition ipc_get_msg_cap :: "mem \<Rightarrow> u64 \<Rightarrow> u64 \<Rightarrow> u64 res" where
  "ipc_get_msg_cap m ipc_msg cap_slot_index =
     bindR (rd64 m ipc_msg MSG_CAP_SLOT_NUMBER) (\<lambda>n.
     if cap_slot_index \<ge> n then Inr (- 1)
     else bindR (ipc_get_msg_cap_ptr m ipc_msg cap_slot_index) (\<lambda>p. rd64 m p 0))"

definition ipc_set_msg_cap :: "u64 \<Rightarrow> u64 \<Rightarrow> u32 \<Rightarrow> mem \<Rightarrow> (int \<times> mem) res" where
  "ipc_set_msg_cap ipc_msg cap_slot_index cap m =
     bindR (rd64 m ipc_msg MSG_CAP_SLOT_NUMBER) (\<lambda>n.
     if cap_slot_index \<ge> n then Inr (- 1, m)
     else
       bindR (ipc_get_msg_cap_ptr m ipc_msg cap_slot_index) (\<lambda>p.
       bindR (wr64 m p 0 (ucast cap)) (\<lambda>m. Inr (0, m))))"

text \<open>
  The loop over the slots. Its counter is an \<^verbatim>\<open>int\<close>, which more than \<open>2 ^ 31\<close> slots, a message of
  16 gigabytes, would overflow. C leaves that case undefined; the model goes on counting.
\<close>

fun clear_caps :: "u64 \<Rightarrow> nat list \<Rightarrow> mem \<Rightarrow> mem res" where
  "clear_caps ipc_msg [] m = Inr m"
| "clear_caps ipc_msg (i # is) m = bindR (ipc_set_msg_cap ipc_msg (of_nat i) (- 1) m) (\<lambda>(_, m). clear_caps ipc_msg is m)"

definition ipc_create_msg :: "u64 \<Rightarrow> u64 \<Rightarrow> u64 \<Rightarrow> mem \<Rightarrow> mem res" where
  "ipc_create_msg ipc_msg data_len cap_slot_number m =
     bindR (wr64 m ipc_msg MSG_DATA_LEN data_len) (\<lambda>m.
     bindR (wr64 m ipc_msg MSG_CAP_SLOT_NUMBER cap_slot_number) (\<lambda>m.
     bindR (wr64 m ipc_msg MSG_DATA_OFFSET SIZEOF_IPC_MSG) (\<lambda>m.
     bindR (wr64 m ipc_msg MSG_CAP_SLOTS_OFFSET (SIZEOF_IPC_MSG + data_len)) (\<lambda>m.
     bindR (ipc_get_msg_data m ipc_msg) (\<lambda>p.
     bindR (memset p 0 data_len m) (\<lambda>m.
     clear_caps ipc_msg [0..<unat cap_slot_number] m))))))"

definition ipc_destroy_msg :: "u64 \<Rightarrow> int" where
  "ipc_destroy_msg ipc_msg = 0"

section \<open>Connections\<close>

record ipc_struct =
  is_conn_cap :: u64
  is_shared_buf :: u64
  is_shared_buf_len :: u64

definition SERVER_STACK_BASE :: u64 where "SERVER_STACK_BASE = 0x7000000"
definition SERVER_STACK_SIZE :: u64 where "SERVER_STACK_SIZE = 0x1000"
definition SERVER_BUF_BASE :: u64 where "SERVER_BUF_BASE = 0x7400000"
definition SERVER_BUF_SIZE :: u64 where "SERVER_BUF_SIZE = 0x1000"
definition CLIENT_BUF_BASE :: u64 where "CLIENT_BUF_BASE = 0x7800000"
definition CLIENT_BUF_SIZE :: u64 where "CLIENT_BUF_SIZE = 0x1000"
definition MAX_CLIENT :: u64 where "MAX_CLIENT = 16"

text \<open>The local \<^verbatim>\<open>vm_config\<close> is at \<open>vm\<close> on the stack; what the client does not set is 0.\<close>

definition ipc_register_server :: "uenv \<Rightarrow> u64 \<Rightarrow> u64 \<Rightarrow> int uop" where
  "ipc_register_server e vm server_handler =
     seqU (mem_mod e (\<lambda>m. bindR (wr_bytes m vm 0 (vm_config_bytes \<lparr>stack_base_addr = SERVER_STACK_BASE, stack_size = SERVER_STACK_SIZE,
         buf_base_addr = SERVER_BUF_BASE, buf_size = SERVER_BUF_SIZE\<rparr>)) (\<lambda>m. Inr ((), m)))) (
     bindU (usys_register_server e server_handler MAX_CLIENT vm) (\<lambda>r. retU (cint r)))"

definition ipc_register_client :: "uenv \<Rightarrow> u64 \<Rightarrow> int \<Rightarrow> ipc_struct \<Rightarrow> (int \<times> ipc_struct) uop" where
  "ipc_register_client e vm server_thread_cap ipc_struct =
     seqU (mem_mod e (\<lambda>m. bindR (wr_bytes m vm 0 (vm_config_bytes \<lparr>stack_base_addr = 0, stack_size = 0,
         buf_base_addr = CLIENT_BUF_BASE, buf_size = CLIENT_BUF_SIZE\<rparr>)) (\<lambda>m. Inr ((), m)))) (
     bindU (usys_register_client e (word_of_int server_thread_cap) vm) (\<lambda>r. let conn_cap = sint r in
     if conn_cap < 0 then retU (- 1, ipc_struct)
     else
       bindU (mem_get e (\<lambda>m. rd_bytes m vm 0 32)) (\<lambda>bs. let vc = vm_config_at bs in
       retU (0, ipc_struct\<lparr>is_shared_buf := buf_base_addr vc, is_shared_buf_len := buf_size vc, is_conn_cap := word_of_int conn_cap\<rparr>))))"

definition ipc_call :: "uenv \<Rightarrow> ipc_struct \<Rightarrow> u64 \<Rightarrow> int uop" where
  "ipc_call e icb ipc_msg = bindU (usys_ipc_call e (ucast (is_conn_cap icb)) ipc_msg) (\<lambda>ret. retU (cint ret))"

definition ipc_reg_call :: "uenv \<Rightarrow> ipc_struct \<Rightarrow> u64 \<Rightarrow> int uop" where
  "ipc_reg_call e icb arg = bindU (usys_ipc_reg_call e (ucast (is_conn_cap icb)) arg) (\<lambda>ret. retU (cint ret))"

definition ipc_return :: "uenv \<Rightarrow> int \<Rightarrow> unit uop" where
  "ipc_return e ret = usys_ipc_return e (word_of_int ret)"

section \<open>Memory and threads\<close>

definition MALLOC_SZ :: u64 where "MALLOC_SZ = 50 * 1024 * 1024"
definition MAP_VA :: u64 where "MAP_VA = 0x1000000"
definition SELF_CAP :: u64 where "SELF_CAP = 0"
definition VM_READ :: u64 where "VM_READ = 1"
definition VM_WRITE :: u64 where "VM_WRITE = 2"

text \<open>The static variables.\<close>

record heap_state =
  malloc_buf :: u64
  malloc_header :: u64

definition malloc_map :: "uenv \<Rightarrow> unit uop" where
  "malloc_map e =
     bindU (usys_create_pmo e MALLOC_SZ PMO_ANONYM) (\<lambda>pmo_cap.
     seqU (if pmo_cap < 0 then usys_exit e pmo_cap else retU ()) (
     bindU (map_pmo e SELF_CAP (word_of_int pmo_cap) MAP_VA (VM_READ OR VM_WRITE)) (\<lambda>r.
     if r < 0 then usys_exit e r else retU ())))"

definition malloc :: "uenv \<Rightarrow> u64 \<Rightarrow> heap_state \<Rightarrow> (u64 \<times> heap_state) uop" where
  "malloc e sz h =
     seqU (bugU (malloc_header h + sz > MALLOC_SZ)) (
     bindU (if malloc_header h = 0 then seqU (malloc_map e) (retU (h\<lparr>malloc_buf := MAP_VA\<rparr>)) else retU h) (\<lambda>h.
     retU (malloc_buf h + malloc_header h, h\<lparr>malloc_header := malloc_header h + sz\<rparr>)))"

definition calloc :: "uenv \<Rightarrow> u64 \<Rightarrow> u64 \<Rightarrow> heap_state \<Rightarrow> (u64 \<times> heap_state) uop" where
  "calloc e nmemb sz h =
     bindU (malloc e (nmemb * sz) h) (\<lambda>(ptr, h).
     seqU (mem_mod e (\<lambda>m. bindR (memset ptr 0 (nmemb * sz) m) (\<lambda>m. Inr ((), m)))) (retU (ptr, h)))"

definition CHILD_THREAD_STACK_BASE :: u64 where "CHILD_THREAD_STACK_BASE = 0x10000000"
definition CHILD_THREAD_STACK_SIZE :: u64 where "CHILD_THREAD_STACK_SIZE = 0x10000"

text \<open>\<open>n\<close> is the static \<^verbatim>\<open>thread_num_in_process\<close>.\<close>

definition create_thread :: "uenv \<Rightarrow> u64 \<Rightarrow> u64 \<Rightarrow> u32 \<Rightarrow> s32 \<Rightarrow> u64 \<Rightarrow> (int \<times> u64) uop" where
  "create_thread e func arg prio cpuid n =
     bindU (usys_create_pmo e CHILD_THREAD_STACK_SIZE PMO_ANONYM) (\<lambda>child_stack_pmo_cap.
     if child_stack_pmo_cap < 0 then retU (child_stack_pmo_cap, n)
     else
       bindU (map_pmo e SELF_CAP (word_of_int child_stack_pmo_cap) (CHILD_THREAD_STACK_BASE + n * CHILD_THREAD_STACK_SIZE)
         (VM_READ OR VM_WRITE)) (\<lambda>ret.
       if ret < 0 then retU (ret, n)
       else
         let n = n + 1 in
         bindU (usys_create_thread e SELF_CAP (CHILD_THREAD_STACK_BASE + n * CHILD_THREAD_STACK_SIZE) func arg prio cpuid)
           (\<lambda>child_thread_cap. retU (child_thread_cap, n))))"

section \<open>The start of a program\<close>

text \<open>\<open>main\<close> is the program, a function of \<^verbatim>\<open>argc\<close>, \<^verbatim>\<open>argv\<close> and \<^verbatim>\<open>envp\<close>; \<open>p\<close> is the stack pointer.\<close>

definition start_c :: "uenv \<Rightarrow> (int \<Rightarrow> u64 \<Rightarrow> u64 \<Rightarrow> unit uop) \<Rightarrow> u64 \<Rightarrow> unit uop" where
  "start_c e main p =
     bindU (mem_get e (\<lambda>m. rd64 m p 0)) (\<lambda>argc.
     seqU (main (cint argc) (p + 8) (p + 24)) (usys_exit e 0))"

end
