(* ===== verification/UserElf.thy ===== *)
theory UserElf
  imports Elf Cpio Strings
begin

text \<open>
  The user library's own readers of ELF files (\<^verbatim>\<open>user/lib/elf.c\<close>) and cpio archives
  (\<^verbatim>\<open>user/lib/cpio.c\<close>). Headers are filled in place: a parser takes the old contents of the
  structure and returns the error number with the new contents. The comparisons go through the
  library's string functions on strings in memory. They are proved equal to the kernel's readers.
\<close>

section \<open>ELF headers\<close>

text \<open>The branch for one byte order: the conversions are \<open>c16\<close>, \<open>c32\<close> and \<open>c64\<close>.\<close>

definition user_header :: "(u16 \<Rightarrow> u16) \<Rightarrow> (u32 \<Rightarrow> u32) \<Rightarrow> (u64 \<Rightarrow> u64) \<Rightarrow> mem \<Rightarrow> u64 \<Rightarrow> elf_header \<Rightarrow> (int \<times> elf_header) res" where
  "user_header c16 c32 c64 m code h =
     bindR (rd16 m code 16) (\<lambda>x. let h = h\<lparr>e_type := c16 x\<rparr> in
     bindR (rd16 m code 18) (\<lambda>x. let h = h\<lparr>e_machine := c16 x\<rparr> in
     bindR (rd32 m code 20) (\<lambda>x. let h = h\<lparr>e_version := c32 x\<rparr> in
     if ELF_BITS_32 (e_indent h) then
       bindR (rd32 m code 24) (\<lambda>x. let h = h\<lparr>e_entry := ucast (c32 x)\<rparr> in
       bindR (rd32 m code 28) (\<lambda>x. let h = h\<lparr>e_phoff := ucast (c32 x)\<rparr> in
       bindR (rd32 m code 32) (\<lambda>x. let h = h\<lparr>e_shoff := ucast (c32 x)\<rparr> in
       bindR (rd32 m code 36) (\<lambda>x. let h = h\<lparr>e_flags := c32 x\<rparr> in
       bindR (rd16 m code 40) (\<lambda>x. let h = h\<lparr>e_ehsize := c16 x\<rparr> in
       bindR (rd16 m code 42) (\<lambda>x. let h = h\<lparr>e_phentsize := c16 x\<rparr> in
       bindR (rd16 m code 44) (\<lambda>x. let h = h\<lparr>e_phnum := c16 x\<rparr> in
       bindR (rd16 m code 46) (\<lambda>x. let h = h\<lparr>e_shentsize := c16 x\<rparr> in
       bindR (rd16 m code 48) (\<lambda>x. let h = h\<lparr>e_shnum := c16 x\<rparr> in
       bindR (rd16 m code 50) (\<lambda>x. Inr (0, h\<lparr>e_shstrndx := c16 x\<rparr>)))))))))))
     else if ELF_BITS_64 (e_indent h) then
       bindR (rd64 m code 24) (\<lambda>x. let h = h\<lparr>e_entry := c64 x\<rparr> in
       bindR (rd64 m code 32) (\<lambda>x. let h = h\<lparr>e_phoff := c64 x\<rparr> in
       bindR (rd64 m code 40) (\<lambda>x. let h = h\<lparr>e_shoff := c64 x\<rparr> in
       bindR (rd32 m code 48) (\<lambda>x. let h = h\<lparr>e_flags := c32 x\<rparr> in
       bindR (rd16 m code 52) (\<lambda>x. let h = h\<lparr>e_ehsize := c16 x\<rparr> in
       bindR (rd16 m code 54) (\<lambda>x. let h = h\<lparr>e_phentsize := c16 x\<rparr> in
       bindR (rd16 m code 56) (\<lambda>x. let h = h\<lparr>e_phnum := c16 x\<rparr> in
       bindR (rd16 m code 58) (\<lambda>x. let h = h\<lparr>e_shentsize := c16 x\<rparr> in
       bindR (rd16 m code 60) (\<lambda>x. let h = h\<lparr>e_shnum := c16 x\<rparr> in
       bindR (rd16 m code 62) (\<lambda>x. Inr (0, h\<lparr>e_shstrndx := c16 x\<rparr>)))))))))))
     else Inr (- EINVAL, h))))"

definition user_parse_elf_header :: "mem \<Rightarrow> u64 \<Rightarrow> elf_header \<Rightarrow> (int \<times> elf_header) res" where
  "user_parse_elf_header m code header =
     bindR (rd_indent m code) (\<lambda>d.
     if \<not> is_elf_magic d then Inr (- EINVAL, header)
     else let header = header\<lparr>e_indent := d\<rparr> in
       if ELF_ENDIAN_LE d then user_header le_to_cpu le_to_cpu le_to_cpu m code header
       else if ELF_ENDIAN_BE d then user_header be16_to_cpu be32_to_cpu be64_to_cpu m code header
       else Inr (- EINVAL, header))"

definition user_pheader :: "(u32 \<Rightarrow> u32) \<Rightarrow> (u64 \<Rightarrow> u64) \<Rightarrow> mem \<Rightarrow> u64 \<Rightarrow> elf_indent \<Rightarrow> elf_program_header \<Rightarrow> (int \<times> elf_program_header) res" where
  "user_pheader c32 c64 m code d p =
     (if ELF_BITS_32 d then
       bindR (rd32 m code 0) (\<lambda>x. let p = p\<lparr>ph_type := c32 x\<rparr> in
       bindR (rd32 m code 24) (\<lambda>x. let p = p\<lparr>ph_flags := c32 x\<rparr> in
       bindR (rd32 m code 4) (\<lambda>x. let p = p\<lparr>ph_offset := ucast (c32 x)\<rparr> in
       bindR (rd32 m code 8) (\<lambda>x. let p = p\<lparr>ph_vaddr := ucast (c32 x)\<rparr> in
       bindR (rd32 m code 12) (\<lambda>x. let p = p\<lparr>ph_paddr := ucast (c32 x)\<rparr> in
       bindR (rd32 m code 16) (\<lambda>x. let p = p\<lparr>ph_filesz := ucast (c32 x)\<rparr> in
       bindR (rd32 m code 20) (\<lambda>x. let p = p\<lparr>ph_memsz := ucast (c32 x)\<rparr> in
       bindR (rd32 m code 28) (\<lambda>x. Inr (0, p\<lparr>ph_align := ucast (c32 x)\<rparr>)))))))))
     else if ELF_BITS_64 d then
       bindR (rd32 m code 0) (\<lambda>x. let p = p\<lparr>ph_type := c32 x\<rparr> in
       bindR (rd32 m code 4) (\<lambda>x. let p = p\<lparr>ph_flags := c32 x\<rparr> in
       bindR (rd64 m code 8) (\<lambda>x. let p = p\<lparr>ph_offset := c64 x\<rparr> in
       bindR (rd64 m code 16) (\<lambda>x. let p = p\<lparr>ph_vaddr := c64 x\<rparr> in
       bindR (rd64 m code 24) (\<lambda>x. let p = p\<lparr>ph_paddr := c64 x\<rparr> in
       bindR (rd64 m code 32) (\<lambda>x. let p = p\<lparr>ph_filesz := c64 x\<rparr> in
       bindR (rd64 m code 40) (\<lambda>x. let p = p\<lparr>ph_memsz := c64 x\<rparr> in
       bindR (rd64 m code 48) (\<lambda>x. Inr (0, p\<lparr>ph_align := c64 x\<rparr>)))))))))
     else Inr (- EINVAL, p))"

definition user_parse_elf_program_header :: "mem \<Rightarrow> u64 \<Rightarrow> elf_header \<Rightarrow> elf_program_header \<Rightarrow> (int \<times> elf_program_header) res" where
  "user_parse_elf_program_header m code elf p =
     (if ELF_ENDIAN_LE (e_indent elf) then user_pheader le_to_cpu le_to_cpu m code (e_indent elf) p
      else if ELF_ENDIAN_BE (e_indent elf) then user_pheader be32_to_cpu be64_to_cpu m code (e_indent elf) p
      else Inr (- EINVAL, p))"

definition user_sheader :: "(u32 \<Rightarrow> u32) \<Rightarrow> (u64 \<Rightarrow> u64) \<Rightarrow> mem \<Rightarrow> u64 \<Rightarrow> elf_indent \<Rightarrow> elf_section_header \<Rightarrow> (int \<times> elf_section_header) res" where
  "user_sheader c32 c64 m code d s =
     (if ELF_BITS_32 d then
       bindR (rd32 m code 0) (\<lambda>x. let s = s\<lparr>sh_name := c32 x\<rparr> in
       bindR (rd32 m code 4) (\<lambda>x. let s = s\<lparr>sh_type := c32 x\<rparr> in
       bindR (rd32 m code 8) (\<lambda>x. let s = s\<lparr>sh_flags := ucast (c32 x)\<rparr> in
       bindR (rd32 m code 12) (\<lambda>x. let s = s\<lparr>sh_addr := ucast (c32 x)\<rparr> in
       bindR (rd32 m code 16) (\<lambda>x. let s = s\<lparr>sh_offset := ucast (c32 x)\<rparr> in
       bindR (rd32 m code 20) (\<lambda>x. let s = s\<lparr>sh_size := ucast (c32 x)\<rparr> in
       bindR (rd32 m code 24) (\<lambda>x. let s = s\<lparr>sh_link := c32 x\<rparr> in
       bindR (rd32 m code 28) (\<lambda>x. let s = s\<lparr>sh_info := c32 x\<rparr> in
       bindR (rd32 m code 32) (\<lambda>x. let s = s\<lparr>sh_addralign := ucast (c32 x)\<rparr> in
       bindR (rd32 m code 36) (\<lambda>x. Inr (0, s\<lparr>sh_entsize := ucast (c32 x)\<rparr>)))))))))))
     else if ELF_BITS_64 d then
       bindR (rd32 m code 0) (\<lambda>x. let s = s\<lparr>sh_name := c32 x\<rparr> in
       bindR (rd32 m code 4) (\<lambda>x. let s = s\<lparr>sh_type := c32 x\<rparr> in
       bindR (rd64 m code 8) (\<lambda>x. let s = s\<lparr>sh_flags := c64 x\<rparr> in
       bindR (rd64 m code 16) (\<lambda>x. let s = s\<lparr>sh_addr := c64 x\<rparr> in
       bindR (rd64 m code 24) (\<lambda>x. let s = s\<lparr>sh_offset := c64 x\<rparr> in
       bindR (rd64 m code 32) (\<lambda>x. let s = s\<lparr>sh_size := c64 x\<rparr> in
       bindR (rd32 m code 40) (\<lambda>x. let s = s\<lparr>sh_link := c32 x\<rparr> in
       bindR (rd32 m code 44) (\<lambda>x. let s = s\<lparr>sh_info := c32 x\<rparr> in
       bindR (rd64 m code 48) (\<lambda>x. let s = s\<lparr>sh_addralign := c64 x\<rparr> in
       bindR (rd64 m code 56) (\<lambda>x. Inr (0, s\<lparr>sh_entsize := c64 x\<rparr>)))))))))))
     else Inr (- EINVAL, s))"

definition user_parse_elf_section_header :: "mem \<Rightarrow> u64 \<Rightarrow> elf_header \<Rightarrow> elf_section_header \<Rightarrow> (int \<times> elf_section_header) res" where
  "user_parse_elf_section_header m code elf s =
     (if ELF_ENDIAN_LE (e_indent elf) then user_sheader le_to_cpu le_to_cpu m code (e_indent elf) s
      else if ELF_ENDIAN_BE (e_indent elf) then user_sheader be32_to_cpu be64_to_cpu m code (e_indent elf) s
      else Inr (- EINVAL, s))"

text \<open>One of the two loops of \<^verbatim>\<open>elf_parse_file\<close>; \<open>hs\<close> is the array of the structure.\<close>

fun user_table :: "(u64 \<Rightarrow> 'h \<Rightarrow> (int \<times> 'h) res) \<Rightarrow> u64 \<Rightarrow> u64 \<Rightarrow> nat list \<Rightarrow> 'h list \<Rightarrow> (int \<times> 'h list) res" where
  "user_table parse base entsize [] hs = Inr (0, hs)"
| "user_table parse base entsize (i # is) hs =
     bindR (arr_get hs i) (\<lambda>h.
     bindR (parse (base + entsize * of_nat i) h) (\<lambda>(err, h).
     if err \<noteq> 0 then Inr (err, hs[i := h])
     else user_table parse base entsize is (hs[i := h])))"

definition MAX_P_HEADERS :: nat where "MAX_P_HEADERS = 128"
definition MAX_S_HEADERS :: nat where "MAX_S_HEADERS = 128"

text \<open>\<open>elf\<close> is the address of the structure with contents \<open>f\<close>, its arrays of the two lengths above.\<close>

definition user_elf_parse_file :: "mem \<Rightarrow> u64 \<Rightarrow> u64 \<Rightarrow> elf_file \<Rightarrow> (u64 \<times> elf_file) res" where
  "user_elf_parse_file m code elf f =
     (if elf = 0 then Inr (ERR_PTR (- ENOMEM), f)
      else
        bindR (user_parse_elf_header m code (ef_header f)) (\<lambda>(err, h). let f = f\<lparr>ef_header := h\<rparr> in
        if err \<noteq> 0 then Inr (ERR_PTR err, f)
        else
          bindR (user_table (\<lambda>a. user_parse_elf_program_header m a h) (code + e_phoff h) (ucast (e_phentsize h))
            [0..<unat (e_phnum h)] (ef_p_headers f)) (\<lambda>(err, ps). let f = f\<lparr>ef_p_headers := ps\<rparr> in
          if err \<noteq> 0 then Inr (ERR_PTR err, f)
          else
            bindR (user_table (\<lambda>a. user_parse_elf_section_header m a h) (code + e_shoff h) (ucast (e_shentsize h))
              [0..<unat (e_shnum h)] (ef_s_headers f)) (\<lambda>(err, ss). let f = f\<lparr>ef_s_headers := ss\<rparr> in
            if err \<noteq> 0 then Inr (ERR_PTR err, f) else Inr (elf, f)))))"

section \<open>Equality with the kernel's parsers\<close>

text \<open>The result of a parser of this theory in the form of the kernel's.\<close>

definition sum_of :: "int \<times> 'h \<Rightarrow> int + 'h" where
  "sum_of r = (case r of (err, h) \<Rightarrow> if err = 0 then Inr h else Inl err)"

lemma sum_of_simps [simp]:
  "sum_of (0, h) = Inr h" "sum_of (- EINVAL, h) = Inl (- EINVAL)"
  by (simp_all add: sum_of_def EINVAL_def)

lemma user_header_eq:
  "ELF_BITS_32 (e_indent h) \<Longrightarrow>
     bindR (user_header c16 c32 c64 m a h) (\<lambda>r. Inr (sum_of r)) = bindR (header_32 c16 c32 (e_indent h) m a) (\<lambda>h. Inr (Inr h))"
  "\<not> ELF_BITS_32 (e_indent h) \<Longrightarrow> ELF_BITS_64 (e_indent h) \<Longrightarrow>
     bindR (user_header c16 c32 c64 m a h) (\<lambda>r. Inr (sum_of r)) = bindR (header_64 c16 c32 c64 (e_indent h) m a) (\<lambda>h. Inr (Inr h))"
  "\<not> ELF_BITS_32 (e_indent h) \<Longrightarrow> \<not> ELF_BITS_64 (e_indent h) \<Longrightarrow>
     bindR (user_header c16 c32 c64 m a h) (\<lambda>r. Inr (sum_of r)) = bindR (header_start m a) (\<lambda>_. Inr (Inl (- EINVAL)))"
  by (cases h; simp add: user_header_def header_32_def header_64_def header_start_def Let_def bindR_assoc)+

lemma user_header_parsed:
  "bindR (user_parse_elf_header m a h) (\<lambda>r. Inr (sum_of r)) = parse_elf_header m a"
  unfolding user_parse_elf_header_def parse_elf_header_def bindR_assoc
  by (intro bindR_cong refl) (simp add: Let_def user_header_eq)

lemma user_pheader_parsed:
  "bindR (user_parse_elf_program_header m a h p) (\<lambda>r. Inr (sum_of r)) = parse_elf_program_header m a h"
  by (cases p; simp add: user_parse_elf_program_header_def parse_elf_program_header_def user_pheader_def
      pheader_32_def pheader_64_def Let_def bindR_assoc)

lemma user_sheader_parsed:
  "bindR (user_parse_elf_section_header m a h s) (\<lambda>r. Inr (sum_of r)) = parse_elf_section_header m a h"
  by (cases s; simp add: user_parse_elf_section_header_def parse_elf_section_header_def user_sheader_def
      sheader_32_def sheader_64_def Let_def bindR_assoc)

lemma user_table_eq:
  assumes pq: "\<And>a h. bindR (p a h) (\<lambda>r. Inr (sum_of r)) = q a"
  shows "n \<le> length hs \<Longrightarrow> parse_table q base es elem cap [i..<n] = Inr r \<Longrightarrow> i \<le> n \<Longrightarrow>
    \<exists>err hs'. user_table p base es [i..<n] hs = Inr (err, hs') \<and> length hs' = length hs \<and>
      take i hs' = take i hs \<and> sum_of (err, drop i (take n hs')) = r"
proof (induction "n - i" arbitrary: i hs r)
  case 0
  then show ?case by (intro exI [of _ 0] exI [of _ hs]) simp
next
  case (Suc k)
  then have i: "i < n" and l: "[i..<n] = i # [Suc i..<n]" by (simp_all add: upt_conv_Cons)
  let ?a = "base + es * of_nat i"
  obtain x where q: "q ?a = Inr x" using Suc.prems(2) by (auto simp: l)
  then obtain err h where p: "p ?a (hs ! i) = Inr (err, h)" and x: "x = sum_of (err, h)"
    using pq [of ?a "hs ! i"] by (auto simp: bindR_Inr_iff)
  show ?case
  proof (cases "err = 0")
    case False
    then have "r = Inl err" using Suc.prems(2) q x by (simp add: l sum_of_def)
    then show ?thesis using False i p Suc.prems(1)
      by (intro exI [of _ err] exI [of _ "hs[i := h]"]) (simp add: l sum_of_def)
  next
    case True
    let ?hs = "hs[i := h]"
    obtain r' where r': "parse_table q base es elem cap [Suc i..<n] = Inr r'"
      and r: "r = (case r' of Inl e \<Rightarrow> Inl e | Inr hs \<Rightarrow> Inr (h # hs))"
      using Suc.prems(2) q x True by (auto simp: l sum_of_def split: if_splits sum.splits elim!: bindR_InrE)
    have "k = n - Suc i" "n \<le> length ?hs" "Suc i \<le> n" using Suc.hyps(2) Suc.prems(1) i by simp_all
    from Suc.hyps(1) [OF this(1,2) r' this(3)]
    obtain err' hs' where u: "user_table p base es [Suc i..<n] ?hs = Inr (err', hs')" "length hs' = length hs"
      "take (Suc i) hs' = take (Suc i) ?hs" "sum_of (err', drop (Suc i) (take n hs')) = r'"
      by auto
    have "hs' ! i = h" using u(2,3) i Suc.prems(1) by (metis Suc_lessD lessI less_le_trans nth_list_update_eq nth_take)
    then have d: "drop i (take n hs') = h # drop (Suc i) (take n hs')"
      using i u(2) Suc.prems(1) Cons_nth_drop_Suc [of i "take n hs'"] by simp
    have "take i hs' = take i hs"
      using arg_cong [OF u(3), of "take i"] by (simp add: min_def)
    then show ?thesis using u i p True r d Suc.prems(1)
      by (intro exI [of _ err'] exI [of _ hs']) (auto simp: l sum_of_def split: if_splits)
  qed
qed

text \<open>With more entries than the array has, the table is never read to its end.\<close>

lemma user_table_too_long:
  "length hs < n \<Longrightarrow> i \<le> length hs \<Longrightarrow> user_table p base es [i..<n] hs \<noteq> Inr (0, hs')"
proof (induction "n - i" arbitrary: i hs)
  case (Suc k)
  then have "[i..<n] = i # [Suc i..<n]" by (simp add: upt_conv_Cons)
  then show ?case using Suc.hyps(1) [of "Suc i"] Suc.hyps(2) Suc.prems
    by (auto simp: arr_get_Inr bindR_Inr_iff split: if_splits)
qed simp

section \<open>The cpio archive\<close>

fun user_hex_loop :: "mem \<Rightarrow> u64 \<Rightarrow> nat \<Rightarrow> nat \<Rightarrow> u64 \<Rightarrow> u64 res" where
  "user_hex_loop m s i 0 u = Inr u"
| "user_hex_loop m s i (Suc n) u = bindR (rd_char m s i) (\<lambda>c.
     let u = push_bit 4 u in
     user_hex_loop m s (Suc i) n
       (if c \<ge> 0x41 \<and> c \<le> 0x46 then u + (ucast c - 0x41 + 10) else u + (ucast c - 0x30)))"

definition user_hex8_u64 :: "mem \<Rightarrow> u64 \<Rightarrow> nat \<Rightarrow> u64 res" where
  "user_hex8_u64 m p off = user_hex_loop m p off 8 0"

text \<open>\<open>magic\<close> and \<open>trailer\<close> are the addresses of the literals \<^verbatim>\<open>"070701"\<close> and \<^verbatim>\<open>"TRAILER!!!"\<close>.\<close>

definition user_cpio_parse_header :: "mem \<Rightarrow> u64 \<Rightarrow> u64 \<Rightarrow> cpio_header res" where
  "user_cpio_parse_header m magic p =
     bindR (strncmp m p magic 6) (\<lambda>r. bindR (bug_on (r \<noteq> 0)) (\<lambda>_.
     bindR (user_hex8_u64 m p 6) (\<lambda>ino. bindR (user_hex8_u64 m p 14) (\<lambda>mode.
     bindR (user_hex8_u64 m p 22) (\<lambda>uid. bindR (user_hex8_u64 m p 30) (\<lambda>gid.
     bindR (user_hex8_u64 m p 38) (\<lambda>nlink. bindR (user_hex8_u64 m p 46) (\<lambda>mtime.
     bindR (user_hex8_u64 m p 54) (\<lambda>filesize. bindR (user_hex8_u64 m p 62) (\<lambda>devmajor.
     bindR (user_hex8_u64 m p 70) (\<lambda>devminor. bindR (user_hex8_u64 m p 78) (\<lambda>rdevmajor.
     bindR (user_hex8_u64 m p 86) (\<lambda>rdevminor. bindR (user_hex8_u64 m p 94) (\<lambda>namesize.
     bindR (user_hex8_u64 m p 102) (\<lambda>chk.
     Inr \<lparr>c_ino = ino, c_mode = mode, c_uid = uid, c_gid = gid, c_nlink = nlink, c_mtime = mtime,
       c_filesize = filesize, c_devmajor = devmajor, c_devminor = devminor, c_rdevmajor = rdevmajor,
       c_rdevminor = rdevminor, c_namesize = namesize, c_check = chk\<rparr>)))))))))))))))"

text \<open>
  The loop of \<^verbatim>\<open>cpio_extract_single\<close>, at most \<open>n\<close> rounds; \<open>ns\<close> bounds the string comparisons.
  The result is where the file's data are and their size.
\<close>

fun user_single_loop :: "nat \<Rightarrow> nat \<Rightarrow> mem \<Rightarrow> u64 \<Rightarrow> u64 \<Rightarrow> u64 \<Rightarrow> u64 \<Rightarrow> (u64 \<times> u64) option res" where
  "user_single_loop 0 ns m magic trailer p target = Inl FUEL"
| "user_single_loop (Suc n) ns m magic trailer p target =
     bindR (user_cpio_parse_header m magic p) (\<lambda>header. let p = p + SIZEOF_NEWC in
     bindR (strcmp ns m p trailer) (\<lambda>r.
     if r = 0 then Inr None
     else
       let filename = p; p = ALIGN4_UP (p + c_namesize header) in
       bindR (strcmp ns m filename target) (\<lambda>r.
       if r = 0 then Inr (Some (p, c_filesize header))
       else user_single_loop n ns m magic trailer (ALIGN4_UP (p + c_filesize header)) target)))"

lemma byte_difference: "(ucast (a :: u8) :: u32) = ucast b \<longleftrightarrow> a = b"
proof -
  have "unat (ucast c :: u32) = unat c" for c :: u8
    using unsigned_less [of c, where ?'a = nat] by (simp add: unsigned_ucast_eq unsigned_take_bit_eq take_bit_nat_eq_self)
  then show ?thesis by (metis word_unat_eq_iff)
qed

lemmas byte_difference_0 = byte_difference [of _ 0, simplified]

lemma strcmp_str_eq:
  assumes "cstring m q cs"
  shows "i \<le> length cs \<Longrightarrow> length cs - i < n \<Longrightarrow>
    bindR (strcmp_loop n m p q i) (\<lambda>r. Inr (r = 0)) = str_eq m p i (drop i cs)"
proof (induction n arbitrary: i)
  case (Suc n)
  show ?case
  proof (cases "i < length cs")
    case True
    have "bindR (strcmp_loop n m p q (Suc i)) (\<lambda>r. Inr (r = 0)) = str_eq m p (Suc i) (drop (Suc i) cs)"
      using True Suc.prems by (intro Suc.IH) linarith+
    then show ?thesis using cstring_char(1) [OF assms True] True
      by (cases "m (p + of_nat i)") (auto simp: rd_char_def byte_difference Cons_nth_drop_Suc [symmetric])
  next
    case False
    then show ?thesis using cstring_char(2) [OF assms, of i] Suc.prems
      by (cases "m (p + of_nat i)") (auto simp: rd_char_def byte_difference_0)
  qed
qed simp

lemma strncmp_prefix_eq:
  assumes "cstring m q cs"
  shows "i + n = length cs \<Longrightarrow> bindR (strncmp_loop m p q i n) (\<lambda>r. Inr (r = 0)) = prefix_eq m p i (drop i cs)"
proof (induction n arbitrary: i)
  case (Suc n)
  then show ?case using cstring_char(1) [OF assms, of i]
    by (cases "m (p + of_nat i)") (auto simp: rd_char_def byte_difference Cons_nth_drop_Suc [symmetric])
qed simp

lemma user_hex_eq:
  "user_hex_loop m p off n u = bindR (rd_bytes m p off n) (\<lambda>bs. Inr (foldl (\<lambda>u c. push_bit 4 u + hex_digit c) u bs))"
  by (induction n arbitrary: off u) (auto simp: rd_char_def hex_digit_def bindR_assoc Let_def intro!: bindR_cong)

lemma user_hex8_eq: "user_hex8_u64 m p off = rd_hex8 m p off"
  by (simp add: user_hex8_u64_def rd_hex8_def user_hex_eq hex8_u64_def)

lemma user_cpio_header_eq:
  assumes "cstring m magic NEWC_MAGIC"
  shows "user_cpio_parse_header m magic p = cpio_parse_header m p"
proof -
  have "prefix_eq m p 0 NEWC_MAGIC = bindR (strncmp m p magic 6) (\<lambda>r. Inr (r = 0))"
    using strncmp_prefix_eq [OF assms, of 0 6 p] by (simp add: strncmp_def NEWC_MAGIC_def)
  then show ?thesis by (simp add: user_cpio_parse_header_def cpio_parse_header_def user_hex8_eq bindR_assoc)
qed

text \<open>A round of the loop with the comparisons as conditions.\<close>

lemma user_single_step:
  "user_single_loop (Suc n) ns m magic trailer p target =
     bindR (user_cpio_parse_header m magic p) (\<lambda>header. let p = p + SIZEOF_NEWC in
     bindR (bindR (strcmp ns m p trailer) (\<lambda>r. Inr (r = 0))) (\<lambda>t.
     if t then Inr None
     else
       let filename = p; p = ALIGN4_UP (p + c_namesize header) in
       bindR (bindR (strcmp ns m filename target) (\<lambda>r. Inr (r = 0))) (\<lambda>t.
       if t then Inr (Some (p, c_filesize header))
       else user_single_loop n ns m magic trailer (ALIGN4_UP (p + c_filesize header)) target)))"
  unfolding user_single_loop.simps bindR_assoc bindR_simps Let_def by (rule refl)

section \<open>Properties\<close>

text \<open>The tables behind a header that both readers accept.\<close>

lemma user_tables_equal_kernel:
  assumes kernel: "elf_parse_file m code [a, b, c] = Inr (r, ms)" "a \<noteq> 0" "b \<noteq> 0" "c \<noteq> 0"
    and u: "user_parse_elf_header m code (ef_header f) = Inr (0, h)" and kh: "parse_elf_header m code = Inr (Inr h)"
    and n: "unat (e_phnum h) \<le> length (ef_p_headers f)" "unat (e_shnum h) \<le> length (ef_s_headers f)" and elf: "elf \<noteq> 0"
  shows "\<exists>f'. user_elf_parse_file m code elf f = Inr (case r of Inl err \<Rightarrow> ERR_PTR err | Inr _ \<Rightarrow> elf, f') \<and>
    (\<forall>g. r = Inr g \<longrightarrow> ef_header f' = ef_header g \<and>
       take (unat (e_phnum (ef_header g))) (ef_p_headers f') = ef_p_headers g \<and>
       take (unat (e_shnum (ef_header g))) (ef_s_headers f') = ef_s_headers g)"
proof -
  let ?n = "unat (e_phnum h)" and ?n' = "unat (e_shnum h)"
  let ?pt = "parse_table (\<lambda>a. parse_elf_program_header m a h) (code + e_phoff h) (ucast (e_phentsize h))
    SIZEOF_PHEADER (unat (e_phentsize h) * ?n) [0..<?n]"
  let ?st = "parse_table (\<lambda>a. parse_elf_section_header m a h) (code + e_shoff h) (ucast (e_shentsize h))
    SIZEOF_SHEADER (unat (e_shentsize h) * ?n') [0..<?n']"
  have "bindR ?pt (\<lambda>r. case r of Inl err \<Rightarrow> Inr (Inl err, [])
     | Inr phs \<Rightarrow> bindR ?st (\<lambda>r. case r of Inl err \<Rightarrow> Inr (Inl err, [])
       | Inr shs \<Rightarrow> Inr (Inr \<lparr>ef_header = h, ef_p_headers = phs, ef_s_headers = shs\<rparr>, []))) = Inr (r, ms)"
    using kernel kh by (simp add: elf_parse_file_def next_alloc_def Let_def)
  then obtain pr where pt: "?pt = Inr pr" and rest: "(case pr of Inl err \<Rightarrow> Inr (Inl err, [])
     | Inr phs \<Rightarrow> bindR ?st (\<lambda>r. case r of Inl err \<Rightarrow> Inr (Inl err, [])
       | Inr shs \<Rightarrow> Inr (Inr \<lparr>ef_header = h, ef_p_headers = phs, ef_s_headers = shs\<rparr>, []))) = Inr (r, ms)"
    by (auto simp: bindR_Inr_iff)
  obtain e1 ps where p: "user_table (\<lambda>a. user_parse_elf_program_header m a h) (code + e_phoff h)
     (ucast (e_phentsize h)) [0..<?n] (ef_p_headers f) = Inr (e1, ps)" "sum_of (e1, take ?n ps) = pr"
    using user_table_eq [where p = "\<lambda>a. user_parse_elf_program_header m a h", OF user_pheader_parsed n(1) pt, simplified]
    by auto
  show ?thesis
  proof (cases "e1 = 0")
    case False
    then show ?thesis using u p rest elf
      by (auto simp: user_elf_parse_file_def sum_of_def Let_def)
  next
    case e1: True
    have pr: "pr = Inr (take ?n ps)" using p(2) e1 by (simp add: sum_of_def)
    obtain sr where st: "?st = Inr sr" using rest pr by (auto simp: bindR_Inr_iff)
    have rest': "(case sr of Inl err \<Rightarrow> Inr (Inl err, [])
       | Inr shs \<Rightarrow> Inr (Inr \<lparr>ef_header = h, ef_p_headers = take ?n ps, ef_s_headers = shs\<rparr>, [])) = (Inr (r, ms) :: ((int + elf_file) \<times> nat list) res)"
      using rest pr st by simp
    obtain e2 ss where s: "user_table (\<lambda>a. user_parse_elf_section_header m a h) (code + e_shoff h)
       (ucast (e_shentsize h)) [0..<?n'] (ef_s_headers f) = Inr (e2, ss)" "sum_of (e2, take ?n' ss) = sr"
      using user_table_eq [where p = "\<lambda>a. user_parse_elf_section_header m a h", OF user_sheader_parsed n(2) st, simplified] by auto
    show ?thesis using u p e1 s rest' elf
      by (auto simp: user_elf_parse_file_def sum_of_def Let_def split: if_splits)
  qed
qed

text \<open>
  C32: the user library's reader of ELF files is the kernel's: whatever the kernel makes of a file with
  at most 128 program and 128 section headers (its three allocations given), the user library makes of
  it too, with the same error, or with the same header and the same entries at the start of its
  arrays.
\<close>

theorem user_elf_equals_kernel:
  assumes kernel: "elf_parse_file m code [a, b, c] = Inr (r, ms)" "a \<noteq> 0" "b \<noteq> 0" "c \<noteq> 0"
    and room: "length (ef_p_headers f) = MAX_P_HEADERS" "length (ef_s_headers f) = MAX_S_HEADERS" "elf \<noteq> 0"
    and few: "\<forall>h. parse_elf_header m code = Inr (Inr h) \<longrightarrow>
      unat (e_phnum h) \<le> MAX_P_HEADERS \<and> unat (e_shnum h) \<le> MAX_S_HEADERS"
  shows "\<exists>f'. user_elf_parse_file m code elf f = Inr (case r of Inl err \<Rightarrow> ERR_PTR err | Inr _ \<Rightarrow> elf, f') \<and>
    (\<forall>g. r = Inr g \<longrightarrow> ef_header f' = ef_header g \<and>
       take (unat (e_phnum (ef_header g))) (ef_p_headers f') = ef_p_headers g \<and>
       take (unat (e_shnum (ef_header g))) (ef_s_headers f') = ef_s_headers g)"
proof -
  obtain err h where u: "user_parse_elf_header m code (ef_header f) = Inr (err, h)"
    and k: "parse_elf_header m code = Inr (sum_of (err, h))"
    using kernel user_header_parsed [of m code "ef_header f"]
    by (cases "user_parse_elf_header m code (ef_header f)")
       (auto simp: elf_parse_file_def next_alloc_def bindR_Inr_iff)
  show ?thesis
  proof (cases "err = 0")
    case False
    then show ?thesis using u k kernel room(3)
      by (auto simp: user_elf_parse_file_def elf_parse_file_def next_alloc_def sum_of_def)
  next
    case True
    then have kh: "parse_elf_header m code = Inr (Inr h)" using k by (simp add: sum_of_def)
    then have "unat (e_phnum h) \<le> length (ef_p_headers f)" "unat (e_shnum h) \<le> length (ef_s_headers f)" using few room by auto
    then show ?thesis using user_tables_equal_kernel [OF kernel _ kh] u True room(3) by blast
  qed
qed

definition demo_file :: mem where
  "demo_file x = Some (if x = 0 then 0x7F else if x = 1 then 0x45 else if x = 2 then 0x4C else if x = 3 then 0x46
     else if x = 4 then 2 else if x = 5 then 1 else if x = 54 then 56 else if x = 56 then 1 else 0)"

definition demo_ph :: elf_program_header where
  "demo_ph = \<lparr>ph_type = 1179403647, ph_flags = 258, ph_offset = 0, ph_vaddr = 0, ph_paddr = 0, ph_filesz = 0, ph_memsz = 0,
     ph_align = 15762598695796736\<rparr>"

definition demo_stale :: elf_file where
  "demo_stale = \<lparr>ef_header = demo_header, ef_p_headers = replicate 128 demo_ph,
     ef_s_headers = replicate 128 \<lparr>sh_name = 0, sh_type = 0, sh_flags = 0, sh_addr = 0, sh_offset = 0, sh_size = 0,
       sh_link = 0, sh_info = 0, sh_addralign = 0, sh_entsize = 0\<rparr>\<rparr>"

theorem user_elf_equals_kernel_witness:
  "\<exists>f'. user_elf_parse_file demo_file 0 7 demo_stale = Inr (7, f') \<and> e_phnum (ef_header f') = 1 \<and> take 1 (ef_p_headers f') = [demo_ph]"
proof -
  have "case elf_parse_file demo_file 0 [1, 2, 3] of
      Inr (Inr g, ms) \<Rightarrow> e_phnum (ef_header g) = 1 \<and> ef_p_headers g = [demo_ph] | _ \<Rightarrow> False"
    by code_simp
  then obtain g ms where k: "elf_parse_file demo_file 0 [1, 2, 3] = Inr (Inr g, ms)"
    and g: "e_phnum (ef_header g) = 1" "ef_p_headers g = [demo_ph]" by (auto split: sum.splits)
  have "case parse_elf_header demo_file 0 of Inr (Inr h) \<Rightarrow> e_phnum h = 1 \<and> e_shnum h = 0 | _ \<Rightarrow> False"
    by code_simp
  then have few: "\<forall>h. parse_elf_header demo_file 0 = Inr (Inr h) \<longrightarrow>
      unat (e_phnum h) \<le> MAX_P_HEADERS \<and> unat (e_shnum h) \<le> MAX_S_HEADERS"
    by (auto simp: MAX_P_HEADERS_def MAX_S_HEADERS_def)
  show ?thesis
    using user_elf_equals_kernel [OF k _ _ _ _ _ _ few, of demo_stale 7] g
    by (auto simp: demo_stale_def MAX_P_HEADERS_def MAX_S_HEADERS_def)
qed

text \<open>
  The user library finds the same files as the kernel: with the literals and the wanted name in
  memory, its search for a file is the kernel's on every archive, well-formed or not.
\<close>

theorem user_cpio_equals_kernel:
  assumes "cstring m magic NEWC_MAGIC" "cstring m trailer TRAILER" "cstring m target name"
    and "length TRAILER < ns" "length name < ns"
  shows "user_single_loop n ns m magic trailer p target =
    (case single_loop n m p name of None \<Rightarrow> Inl FUEL | Some r \<Rightarrow> r)"
proof (induction n arbitrary: p)
  case (Suc n)
  have t: "bindR (strcmp ns m a trailer) (\<lambda>r. Inr (r = 0)) = str_eq m a 0 TRAILER"
    and f: "bindR (strcmp ns m a target) (\<lambda>r. Inr (r = 0)) = str_eq m a 0 name" for a
    using strcmp_str_eq [OF assms(2), of 0 ns a] strcmp_str_eq [OF assms(3), of 0 ns a] assms(4,5)
    by (simp_all add: strcmp_def)
  show ?case unfolding user_single_step t f Suc.IH user_cpio_header_eq [OF assms(1)]
    by (simp add: bindR_def Let_def split: sum.split)
qed simp

text \<open>An archive with the file \<open>a\<close>, and after it the literals and the wanted name.\<close>

definition demo_archive :: mem where
  "demo_archive x = Some (let n = unat x in
     if n < 6 then NEWC_MAGIC ! n else if n = 61 then 0x31 else if n = 101 then 0x32
     else if n = 110 then 0x61 else if n = 111 then 0 else if n = 112 then 7
     else if 116 \<le> n \<and> n < 122 then NEWC_MAGIC ! (n - 116)
     else if 226 \<le> n \<and> n < 236 then TRAILER ! (n - 226) else if n = 236 then 0
     else if 240 \<le> n \<and> n < 246 then NEWC_MAGIC ! (n - 240) else if n = 246 then 0
     else if 247 \<le> n \<and> n < 257 then TRAILER ! (n - 247) else if n = 257 then 0
     else if n = 258 then 0x61 else if n = 259 then 0 else 0x30)"

theorem user_cpio_equals_kernel_witness: "user_single_loop 1 20 demo_archive 240 247 0 258 = Inr (Some (112, 1))"
proof -
  have c: "cstring demo_archive 240 NEWC_MAGIC" "cstring demo_archive 247 TRAILER" "cstring demo_archive 258 [0x61]"
    by code_simp+
  have k: "single_loop 1 demo_archive 0 [0x61] = Some (Inr (Some (112, 1)))" by code_simp
  show ?thesis using user_cpio_equals_kernel [OF c, of 20 1 0] k by (simp add: TRAILER_def)
qed

end
