(* ===== verification/IpcMsg.thy ===== *)
theory IpcMsg
  imports UserLib MemWrite
begin

text \<open>
  The messages of \<^verbatim>\<open>user/lib/ipc.c\<close> as an abstract data type: a message in the shared buffer
  stands for the list of its data bytes and the list of its capability words.
\<close>

definition msg_bytes :: "u8 list \<Rightarrow> u64 list \<Rightarrow> u8 list" where
  "msg_bytes data caps =
     words_bytes [of_nat (length data), of_nat (length caps), 40, 40 + of_nat (length data)] @ data @ words_bytes caps"

text \<open>The first word, the connection of the server, does not belong to the client.\<close>

definition is_msg :: "mem \<Rightarrow> u64 \<Rightarrow> u8 list \<Rightarrow> u64 list \<Rightarrow> bool" where
  "is_msg m b data caps \<longleftrightarrow> 40 + length data + 8 * length caps < 2 ^ 64 \<and>
     rd_bytes m b 8 (32 + length data + 8 * length caps) = Inr (msg_bytes data caps)"

lemma rd64_bytes: "rd_bytes m b off 8 = Inr (le_bytes 8 (w :: u64)) \<Longrightarrow> rd64 m b off = Inr w"
  using word_rcat_le [of 8 w] by (simp add: rd_field_def)

lemma words_bytes_Cons: "words_bytes (w # ws) = le_bytes 8 w @ words_bytes ws"
  by (simp add: words_bytes_def)

lemma is_msg_fields:
  assumes "is_msg m b data caps"
  shows "rd64 m b MSG_DATA_LEN = Inr (of_nat (length data))" "rd64 m b MSG_CAP_SLOT_NUMBER = Inr (of_nat (length caps))"
    "rd64 m b MSG_DATA_OFFSET = Inr 40" "rd64 m b MSG_CAP_SLOTS_OFFSET = Inr (40 + of_nat (length data))"
  using assms unfolding is_msg_def msg_defs
  by (auto intro!: rd64_bytes simp: rd_bytes_part [of m b 8 "32 + length data + 8 * length caps"] msg_bytes_def words_bytes_Cons)

lemma is_msg_cap:
  assumes "is_msg m b data caps" "i < length caps"
  shows "rd64 m b (40 + length data + 8 * i) = Inr (caps ! i)"
  using assms take_drop_words [OF assms(2)] unfolding is_msg_def
  by (intro rd64_bytes) (simp add: rd_bytes_part [of m b 8 "32 + length data + 8 * length caps"] msg_bytes_def)

lemma rd_field_shift: "rd_field m (b + of_nat k) off n = rd_field m b (k + off) n"
  unfolding rd_field_def by (rule arg_cong [where f = "\<lambda>r. bindR r _"]) (rule rd_bytes_cong, simp add: add.assoc)

lemma words_bytes_update:
  "i < length ws \<Longrightarrow> words_bytes (ws[i := w]) = take (8 * i) (words_bytes ws) @ le_bytes 8 w @ drop (8 + 8 * i) (words_bytes ws)"
proof -
  assume i: "i < length ws"
  have "words_bytes ws = words_bytes (take i ws) @ le_bytes 8 (ws ! i) @ words_bytes (drop (Suc i) ws)"
    by (subst id_take_nth_drop [OF i]) (simp add: words_bytes_append words_bytes_Cons)
  moreover have "words_bytes (ws[i := w]) = words_bytes (take i ws) @ le_bytes 8 w @ words_bytes (drop (Suc i) ws)"
    using i by (simp add: upd_conv_take_nth_drop words_bytes_append words_bytes_Cons)
  ultimately show ?thesis using i by (simp add: min_def)
qed

lemma length_msg_bytes [simp]: "length (msg_bytes data caps) = 32 + length data + 8 * length caps"
  by (simp add: msg_bytes_def)

lemma is_msg_set_cap:
  assumes "is_msg m b data caps" "i < length caps"
  shows "is_msg (putb m b (40 + length data + 8 * i) (le_bytes 8 w)) b data (caps[i := w])"
    "writable m b (40 + length data + 8 * i) 8"
proof -
  have r: "rd_bytes m b 8 (32 + length data + 8 * length caps) = Inr (msg_bytes data caps)"
    and l: "40 + length data + 8 * length caps < 2 ^ 64" using assms(1) by (auto simp: is_msg_def)
  have o: "8 \<le> 40 + length data + 8 * i" "40 + length data + 8 * i + length (le_bytes 8 w) \<le> 8 + (32 + length data + 8 * length caps)"
    using assms(2) by simp_all
  show "writable m b (40 + length data + 8 * i) 8" using rd_bytes_writable [OF r o(1)] o(2) by simp
  have "rd_bytes (putb m b (40 + length data + 8 * i) (le_bytes 8 w)) b 8 (32 + length data + 8 * length caps) =
      Inr (msg_bytes data (caps[i := w]))"
    using rd_bytes_update [OF r o] l assms(2) by (simp add: msg_bytes_def words_bytes_update)
  then show "is_msg (putb m b (40 + length data + 8 * i) (le_bytes 8 w)) b data (caps[i := w])"
    using l by (simp add: is_msg_def)
qed

lemma is_msg_set_data:
  assumes "is_msg m b data caps" "off + length bs \<le> length data"
  shows "is_msg (putb m b (40 + off) bs) b (take off data @ bs @ drop (off + length bs) data) caps"
    "writable m b (40 + off) (length bs)"
proof -
  have r: "rd_bytes m b 8 (32 + length data + 8 * length caps) = Inr (msg_bytes data caps)"
    and l: "40 + length data + 8 * length caps < 2 ^ 64" using assms(1) by (auto simp: is_msg_def)
  have o: "8 \<le> 40 + off" "40 + off + length bs \<le> 8 + (32 + length data + 8 * length caps)"
    using assms(2) by simp_all
  show "writable m b (40 + off) (length bs)" by (rule rd_bytes_writable [OF r o])
  have len: "length (take off data @ bs @ drop (off + length bs) data) = length data" using assms(2) by simp
  have "rd_bytes (putb m b (40 + off) bs) b 8 (32 + length data + 8 * length caps) =
      Inr (msg_bytes (take off data @ bs @ drop (off + length bs) data) caps)"
    using rd_bytes_update [OF r o] l assms(2) unfolding msg_bytes_def len by simp
  then show "is_msg (putb m b (40 + off) bs) b (take off data @ bs @ drop (off + length bs) data) caps"
    using l unfolding is_msg_def len by simp
qed

section \<open>The operations\<close>

lemma unat_length: "n < 2 ^ 64 \<Longrightarrow> unat (of_nat n :: u64) = n"
  by (simp add: unat_of_nat take_bit_nat_eq_self)

lemma set_cap_ok:
  assumes "is_msg m b data caps" "i < length caps"
  shows "\<exists>m'. ipc_set_msg_cap b (of_nat i) cap m = Inr (0, m') \<and> is_msg m' b data (caps[i := ucast cap])"
proof -
  let ?m = "putb m b (40 + length data + 8 * i) (le_bytes 8 (ucast cap :: u64))"
  have l: "40 + length data + 8 * length caps < 2 ^ 64" using assms(1) by (simp add: is_msg_def)
  have lt: "\<not> (of_nat i :: u64) \<ge> of_nat (length caps)"
    using assms(2) l unat_length [of i] unat_length [of "length caps"] by (simp add: word_le_nat_alt)
  have a: "b + (40 + of_nat (length data)) + 8 * of_nat i = b + of_nat (40 + length data + 8 * i)" by simp
  have "wr_bytes m b (40 + length data + 8 * i) (le_bytes 8 (ucast cap :: u64)) = Inr ?m"
    using is_msg_set_cap(2) [OF assms] l assms(2) by (intro wr_bytes_putb) simp_all
  then have "wr64 m (b + (40 + of_nat (length data)) + 8 * of_nat i) 0 (ucast cap) = Inr ?m"
    unfolding a wr_bytes_shift by simp
  then have "ipc_set_msg_cap b (of_nat i) cap m = Inr (0, ?m)"
    using lt by (simp add: ipc_set_msg_cap_def ipc_get_msg_cap_ptr_def is_msg_fields [OF assms(1)])
  then show ?thesis using is_msg_set_cap(1) [OF assms] by blast
qed

lemma minus_one_cap: "(ucast (- 1 :: u32) :: u64) = 0xFFFFFFFF"
  by code_simp

lemma clear_caps_ok:
  "is_msg m b data caps \<Longrightarrow> k \<le> length caps \<Longrightarrow>
    \<exists>m'. clear_caps b [k..<length caps] m = Inr m' \<and> is_msg m' b data (take k caps @ replicate (length caps - k) 0xFFFFFFFF)"
proof (induction "length caps - k" arbitrary: k caps m)
  case 0
  then show ?case by simp
next
  case (Suc j)
  then have k: "k < length caps" "[k..<length caps] = k # [Suc k..<length caps]" by (simp_all add: upt_conv_Cons)
  obtain m1 where m1: "ipc_set_msg_cap b (of_nat k) (- 1) m = Inr (0, m1)" "is_msg m1 b data (caps[k := 0xFFFFFFFF])"
    using set_cap_ok [OF Suc.prems(1) k(1), of "- 1"] unfolding minus_one_cap by blast
  have "j = length (caps[k := 0xFFFFFFFF]) - Suc k" "Suc k \<le> length (caps[k := 0xFFFFFFFF])" using Suc.hyps(2) k(1) by simp_all
  from Suc.hyps(1) [OF this(1) m1(2) this(2)] obtain m' where m': "clear_caps b [Suc k..<length caps] m1 = Inr m'"
      "is_msg m' b data (take (Suc k) (caps[k := 0xFFFFFFFF]) @ replicate (length caps - Suc k) 0xFFFFFFFF)"
    by auto
  have "take (Suc k) (caps[k := 0xFFFFFFFF]) @ replicate (length caps - Suc k) 0xFFFFFFFF =
      take k caps @ replicate (length caps - k) (0xFFFFFFFF :: u64)"
    using k(1) by (simp add: take_Suc_conv_app_nth Suc_diff_Suc [symmetric])
  then show ?case using m1 m' k by simp
qed

lemma create_ok:
  assumes "writable m b 0 (40 + unat n + 8 * unat c)" "40 + unat n + 8 * unat c < 2 ^ 64"
  shows "\<exists>m'. ipc_create_msg b n c m = Inr m' \<and> is_msg m' b (replicate (unat n) 0) (replicate (unat c) 0xFFFFFFFF)"
proof -
  let ?L = "40 + unat n + 8 * unat c"
  define m1 where "m1 = putb m b 8 (words_bytes [n, c, 40, 40 + n])"
  define m2 where "m2 = putb m1 b 40 (replicate (unat n) 0)"
  have wr: "wr64 m' b o' w = Inr (putb m' b o' (le_bytes 8 w))" if "writable m' b 0 ?L" "o' + 8 \<le> 40" for m' o' w
    using that assms(2) by (intro wr_bytes_putb) (auto intro: writable_part)
  have app: "putb (putb m' b 8 xs) b o' ys = putb m' b 8 (xs @ ys)" if "o' = 8 + length xs" for m' xs ys o'
    using putb_append [of m' b 8 xs ys] that by simp
  have w1: "writable m1 b 0 ?L" using assms(1) by (simp add: m1_def writable_putb)
  then have w2: "writable m2 b 0 ?L" by (simp add: m2_def writable_putb)
  have head: "bindR (wr64 m b MSG_DATA_LEN n) (\<lambda>m. bindR (wr64 m b MSG_CAP_SLOT_NUMBER c) (\<lambda>m.
      bindR (wr64 m b MSG_DATA_OFFSET 40) (\<lambda>m. wr64 m b MSG_CAP_SLOTS_OFFSET (40 + n)))) = Inr m1"
    using assms(1) by (simp add: msg_defs wr writable_putb app m1_def words_bytes_def)
  have off: "ipc_get_msg_data m1 b = Inr (b + of_nat 40)"
    using rd64_words [of 2 "[n, c, 40, 40 + n]" 8 m b] by (simp add: ipc_get_msg_data_def m1_def msg_defs)
  have "memset (b + of_nat 40) 0 n m1 = memset_loop b 0 40 (unat n) m1"
    unfolding memset_def memset_loop_shift by simp
  then have clear: "memset (b + of_nat 40) 0 n m1 = Inr m2"
    using memset_loop_putb [OF _ writable_part [OF w1], of 40 "unat n" 0] assms(2) by (simp add: m2_def)
  obtain raw where "rd_bytes m2 b (40 + unat n) (8 * unat c) = Inr raw" "length raw = 8 * unat c"
    using writable_rd [OF writable_part [OF w2]] by (metis add_0_left le_add1 order_refl zero_le)
  then obtain caps where caps: "length caps = unat c" "rd_bytes m2 b (40 + unat n) (8 * unat c) = Inr (words_bytes caps)"
    using bytes_words by blast
  have m2: "m2 = putb m b 8 (words_bytes [n, c, 40, 40 + n] @ replicate (unat n) 0)"
    unfolding m2_def m1_def by (subst app) simp_all
  have "rd_bytes m2 b 8 (32 + unat n) = Inr (words_bytes [n, c, 40, 40 + n] @ replicate (unat n) 0)"
    unfolding m2 using assms(2) by (subst rd_bytes_putb_in) simp_all
  from rd_bytes_append [OF this, of "8 * unat c" "words_bytes caps"]
  have "is_msg m2 b (replicate (unat n) 0) caps"
    using caps assms(2) by (simp add: is_msg_def msg_bytes_def add.assoc)
  from clear_caps_ok [OF this, of 0] obtain m' where "clear_caps b [0..<unat c] m2 = Inr m'"
      "is_msg m' b (replicate (unat n) 0) (replicate (unat c) 0xFFFFFFFF)" using caps(1) by auto
  moreover have "ipc_create_msg b n c m = clear_caps b [0..<unat c] m2"
  proof -
    have "ipc_create_msg b n c m =
        bindR (bindR (wr64 m b MSG_DATA_LEN n) (\<lambda>m. bindR (wr64 m b MSG_CAP_SLOT_NUMBER c) (\<lambda>m.
          bindR (wr64 m b MSG_DATA_OFFSET 40) (\<lambda>m. wr64 m b MSG_CAP_SLOTS_OFFSET (40 + n)))))
        (\<lambda>m. bindR (ipc_get_msg_data m b) (\<lambda>p. bindR (memset p 0 n m) (clear_caps b [0..<unat c])))"
      by (simp add: ipc_create_msg_def SIZEOF_IPC_MSG_def bindR_assoc)
    then show ?thesis by (simp only: head bindR_simps off clear)
  qed
  ultimately show ?thesis by simp
qed

lemma set_data_ok:
  assumes msg: "is_msg m b data caps" and src: "rd_bytes m src 0 (unat len) = Inr bs"
    and apart: "apart src (unat len) b (40 + length data + 8 * length caps)" and room: "unat off + unat len \<le> length data"
  shows "\<exists>m'. ipc_set_msg_data b src off len m = Inr (0, m') \<and>
    is_msg m' b (take (unat off) data @ bs @ drop (unat off + unat len) data) caps"
proof -
  have l: "40 + length data + 8 * length caps < 2 ^ 64" using msg by (simp add: is_msg_def)
  have bs: "length bs = unat len" using src by (simp add: rd_bytes_Inr)
  have sum: "unat (off + len) = unat off + unat len"
    using room l by (simp add: unat_word_ariths)
  then have c: "\<not> off + len < off" "\<not> off + len > of_nat (length data)"
    using room l unat_length [of "length data"] by (simp_all add: word_less_nat_alt)
  have a: "b + 40 + off = b + of_nat (40 + unat off)" by simp
  have "memcpy (b + 40 + off) src len m = Inr (putb m b (40 + unat off) bs)"
    unfolding a memcpy_def
    using memcpy_loop_putb [OF apart, of "40 + unat off" m 0 "unat len" bs] src room l
      is_msg_set_data(2) [OF msg, of "unat off" bs] bs by simp
  then have "ipc_set_msg_data b src off len m = Inr (0, putb m b (40 + unat off) bs)"
    using c by (simp add: ipc_set_msg_data_def ipc_get_msg_data_def is_msg_fields [OF msg])
  then show ?thesis using is_msg_set_data(1) [OF msg, of "unat off" bs] room bs by auto
qed

lemma set_data_refused:
  assumes "is_msg m b data caps" "length data < unat off + unat len"
  shows "ipc_set_msg_data b src off len m = Inr (- 1, m)"
proof -
  have l: "length data < 2 ^ 64" using assms(1) by (simp add: is_msg_def)
  have "off + len > of_nat (length data)" if "\<not> off + len < off"
    using that assms(2) unat_length [OF l] unat_plus_simple [of off len] by (simp add: word_less_nat_alt word_le_nat_alt not_less)
  then show ?thesis by (simp add: ipc_set_msg_data_def is_msg_fields [OF assms(1)])
qed

lemma cap_index:
  "is_msg m b data caps \<Longrightarrow> (i :: u64) \<ge> of_nat (length caps) \<longleftrightarrow> length caps \<le> unat i"
  using unat_length [of "length caps"] by (simp add: is_msg_def word_le_nat_alt)

section \<open>Properties\<close>

text \<open>
  C31: the message functions implement an abstract message, a pair of data and capabilities: a fresh
  one is all zeros with empty capabilities; \<^verbatim>\<open>ipc_set_msg_data\<close> replaces the given piece of the data
  and nothing else, or refuses a piece that is not inside (also when offset and length overflow);
  \<^verbatim>\<open>ipc_set_msg_cap\<close> and \<^verbatim>\<open>ipc_get_msg_cap\<close> write and read one capability, or answer -1 for a
  number beyond the last.
\<close>

theorem ipc_message_refines:
  assumes buffer: "writable m0 b 0 (40 + unat n + 8 * unat c)" "40 + unat n + 8 * unat c < 2 ^ 64"
    and msg: "is_msg m b data caps"
    and src: "rd_bytes m src 0 (unat len) = Inr bs" "apart src (unat len) b (40 + length data + 8 * length caps)"
  shows "(\<exists>m'. ipc_create_msg b n c m0 = Inr m' \<and> is_msg m' b (replicate (unat n) 0) (replicate (unat c) 0xFFFFFFFF)) \<and>
    (if unat off + unat len \<le> length data
     then \<exists>m'. ipc_set_msg_data b src off len m = Inr (0, m') \<and>
       is_msg m' b (take (unat off) data @ bs @ drop (unat off + unat len) data) caps
     else ipc_set_msg_data b src off len m = Inr (- 1, m)) \<and>
    (if unat i < length caps
     then \<exists>m'. ipc_set_msg_cap b i cap m = Inr (0, m') \<and> is_msg m' b data (caps[unat i := ucast cap])
     else ipc_set_msg_cap b i cap m = Inr (- 1, m)) \<and>
    ipc_get_msg_cap m b i = Inr (if unat i < length caps then caps ! unat i else - 1)"
proof -
  have "ipc_get_msg_cap m b i = Inr (caps ! unat i)" if "unat i < length caps"
  proof -
    have a: "b + (40 + of_nat (length data)) + 8 * i = b + of_nat (40 + length data + 8 * unat i)" by simp
    have "rd64 m (b + (40 + of_nat (length data)) + 8 * i) 0 = Inr (caps ! unat i)"
      unfolding a rd_field_shift add_0_right by (rule is_msg_cap [OF msg that])
    then show ?thesis using that
      by (simp add: ipc_get_msg_cap_def ipc_get_msg_cap_ptr_def is_msg_fields [OF msg] cap_index [OF msg])
  qed
  moreover have "ipc_get_msg_cap m b i = Inr (- 1)" "ipc_set_msg_cap b i cap m = Inr (- 1, m)" if "\<not> unat i < length caps"
    using that by (simp_all add: ipc_get_msg_cap_def ipc_set_msg_cap_def is_msg_fields [OF msg] cap_index [OF msg])
  moreover have "\<exists>m'. ipc_set_msg_cap b i cap m = Inr (0, m') \<and> is_msg m' b data (caps[unat i := ucast cap])" if "unat i < length caps"
    using set_cap_ok [OF msg that] by simp
  ultimately show ?thesis
    using create_ok [OF buffer] set_data_ok [OF msg src, of off] set_data_refused [OF msg, of off len src] by auto
qed

text \<open>A buffer at 0x1000 with two bytes of data and two capabilities, and a byte 7 at 0x3000.\<close>

definition demo_msg :: mem where
  "demo_msg x = Some (if x = 0x1008 \<or> x = 0x1010 then 2 else if x = 0x1018 then 40 else if x = 0x1020 then 42
     else if x = 0x3000 then 7 else 0)"

theorem ipc_message_refines_witness:
  "(\<exists>m'. ipc_create_msg 0x1000 2 2 demo_msg = Inr m' \<and> is_msg m' 0x1000 [0, 0] [0xFFFFFFFF, 0xFFFFFFFF]) \<and>
   (\<exists>m'. ipc_set_msg_data 0x1000 0x3000 1 1 demo_msg = Inr (0, m') \<and> is_msg m' 0x1000 [0, 7] [0, 0]) \<and>
   ipc_get_msg_cap demo_msg 0x1000 1 = Inr 0"
proof -
  have w: "writable demo_msg 0x1000 0 (40 + unat (2 :: u64) + 8 * unat (2 :: u64))"
    by (simp add: writable_def demo_msg_def)
  have "rd_bytes demo_msg 0x1000 8 50 = Inr (msg_bytes [0, 0] [0, 0])" by code_simp
  then have msg: "is_msg demo_msg 0x1000 [0, 0] [0, 0]" by (simp add: is_msg_def)
  have src: "rd_bytes demo_msg 0x3000 0 (unat (1 :: u64)) = Inr [7]" by code_simp
  have ap: "apart 0x3000 (unat (1 :: u64)) 0x1000 (40 + length [0 :: u8, 0] + 8 * length [0 :: u64, 0])"
    by (rule apartI) simp_all
  have rep: "replicate 2 x = [x, x]" for x :: 'a by (simp add: numeral_2_eq_2)
  show ?thesis using ipc_message_refines [OF w _ msg src ap, of 1 1] by (simp add: rep)
qed

end
