(* ===== verification/Spawn.thy ===== *)
theory Spawn
  imports UserLib UserElf MemWrite Loader
begin

text \<open>
  Starting programs from user mode: \<^verbatim>\<open>user/lib/liblauncher.c\<close> reads an ELF file into memory
  objects, \<^verbatim>\<open>user/lib/spawn.c\<close> makes a process of them. The structure \<^verbatim>\<open>user_elf\<close> and the
  local structures that are handed to system calls are in user memory, so that writing beyond them
  changes what is next to them. The printing of error messages is left out.
\<close>

section \<open>Data in memory\<close>

text \<open>
  \<^verbatim>\<open>struct user_elf\<close>: two segments of 32 bytes (object, size, address, flags), the path of 256
  bytes, and the metadata of five words.
\<close>

definition SEG_PMO :: "nat \<Rightarrow> nat" where "SEG_PMO j = 32 * j"
definition SEG_SZ :: "nat \<Rightarrow> nat" where "SEG_SZ j = 32 * j + 8"
definition SEG_VADDR :: "nat \<Rightarrow> nat" where "SEG_VADDR j = 32 * j + 16"
definition SEG_FLAGS :: "nat \<Rightarrow> nat" where "SEG_FLAGS j = 32 * j + 24"
definition UE_PATH :: u64 where "UE_PATH = 64"
definition UE_META :: u64 where "UE_META = 320"

definition META_PHDR :: nat where "META_PHDR = 0"
definition META_PHENT :: nat where "META_PHENT = 8"
definition META_PHNUM :: nat where "META_PHNUM = 16"
definition META_FLAGS :: nat where "META_FLAGS = 24"
definition META_ENTRY :: nat where "META_ENTRY = 32"

lemmas meta_defs = META_PHDR_def META_PHENT_def META_PHNUM_def META_FLAGS_def META_ENTRY_def

text \<open>
  What the image of the program fixes: the addresses of the literals and of \<^verbatim>\<open>init_env\<close>; and the
  bounds on the entries of the archive and on the length of strings.
\<close>

record image =
  im_rounds :: nat
  im_chars :: nat
  im_magic :: u64
  im_trailer :: u64
  im_env :: u64

definition rdU :: "uenv \<Rightarrow> u64 \<Rightarrow> nat \<Rightarrow> u64 uop" where
  "rdU e a off = mem_get e (\<lambda>m. rd64 m a off)"

definition wrU :: "uenv \<Rightarrow> (mem \<Rightarrow> mem res) \<Rightarrow> unit uop" where
  "wrU e f = mem_mod e (\<lambda>m. bindR (f m) (\<lambda>m. Inr ((), m)))"

definition setU :: "uenv \<Rightarrow> u64 \<Rightarrow> nat \<Rightarrow> u64 \<Rightarrow> unit uop" where
  "setU e a off v = wrU e (\<lambda>m. wr64 m a off v)"

section \<open>Reading the file\<close>

definition CPIO_BIN :: u64 where "CPIO_BIN = 0x5000000"
definition TMP_VADDR :: u64 where "TMP_VADDR = 0xc00000"
definition OFFSET_MASK :: u64 where "OFFSET_MASK = 0xfff"

text \<open>
  A segment to load becomes segment \<open>j\<close> of the structure at \<open>ue\<close>. The number of the object is stored
  as an unsigned word, so that the check that it is not negative never fails.
\<close>

definition load_user_segment :: "uenv \<Rightarrow> u64 \<Rightarrow> u64 \<Rightarrow> nat \<Rightarrow> elf_program_header \<Rightarrow> unit uop" where
  "load_user_segment e bin ue j ph =
     (let seg_sz = ph_memsz ph; p_vaddr = ph_vaddr ph in
      seqU (bugU (ph_filesz ph > seg_sz)) (
      let seg_map_sz = ROUND_UP (seg_sz + p_vaddr) PAGE_SIZE - ROUND_DOWN p_vaddr PAGE_SIZE in
      bindU (usys_create_pmo e seg_map_sz PMO_DATA) (\<lambda>cap. let elf_pmo = word_of_int cap in
      seqU (setU e ue (SEG_PMO j) elf_pmo) (
      bindU (map_pmo e SELF_CAP elf_pmo TMP_VADDR (VM_READ OR VM_WRITE)) (\<lambda>ret.
      seqU (bugU (ret < 0)) (
      seqU (wrU e (memset TMP_VADDR 0 seg_map_sz)) (
      seqU (wrU e (memcpy (TMP_VADDR + (p_vaddr AND OFFSET_MASK)) (bin + ph_offset ph) (ph_filesz ph))) (
      seqU (setU e ue (SEG_SZ j) seg_sz) (
      seqU (setU e ue (SEG_VADDR j) p_vaddr) (
      seqU (setU e ue (SEG_FLAGS j) (PFLAGS2VMRFLAGS (ph_flags ph))) (
      bindU (unmap_pmo e SELF_CAP elf_pmo TMP_VADDR) (\<lambda>_. retU ()))))))))))))"

text \<open>The loop over the program headers; \<open>j\<close> counts the segments to load.\<close>

fun load_user_segments :: "uenv \<Rightarrow> u64 \<Rightarrow> u64 \<Rightarrow> elf_program_header list \<Rightarrow> nat list \<Rightarrow> nat \<Rightarrow> unit uop" where
  "load_user_segments e bin ue phs [] j = retU ()"
| "load_user_segments e bin ue phs (i # is) j =
     bindU (bindK (liftK (arr_get phs i)) retU) (\<lambda>ph.
     if ph_type ph \<noteq> PT_LOAD then load_user_segments e bin ue phs is j
     else seqU (load_user_segment e bin ue j ph) (load_user_segments e bin ue phs is (j + 1)))"

text \<open>
  The local \<^verbatim>\<open>elf\<close> has the contents \<open>stale\<close> at first. What \<^verbatim>\<open>elf_parse_file\<close> returns is not
  looked at.
\<close>

definition parse_elf_from_binary :: "uenv \<Rightarrow> elf_file \<Rightarrow> u64 \<Rightarrow> u64 \<Rightarrow> int uop" where
  "parse_elf_from_binary e stale bin ue =
     bindU (mem_get e (\<lambda>m. user_elf_parse_file m bin 1 stale)) (\<lambda>(_, elf).
     seqU (setU e ue (SEG_PMO 0) (- 1)) (
     seqU (setU e ue (SEG_PMO 1) (- 1)) (
     seqU (load_user_segments e bin ue (ef_p_headers elf) [0..<unat (e_phnum (ef_header elf))] 0) (
     bindU (bindK (liftK (arr_get (ef_p_headers elf) 0)) retU) (\<lambda>p0. let h = ef_header elf; meta = ue + UE_META in
     seqU (setU e meta META_PHDR (ph_vaddr p0 + e_phoff h)) (
     seqU (setU e meta META_PHENT (ucast (e_phentsize h))) (
     seqU (setU e meta META_PHNUM (ucast (e_phnum h))) (
     seqU (setU e meta META_FLAGS (ucast (e_flags h))) (
     seqU (setU e meta META_ENTRY (e_entry h))
     (retU 0))))))))))"

definition single_file_handler :: "uenv \<Rightarrow> elf_file \<Rightarrow> u64 \<Rightarrow> u64 \<Rightarrow> u64 \<Rightarrow> u64 uop" where
  "single_file_handler e stale start sz ue =
     bindU (parse_elf_from_binary e stale start ue) (\<lambda>ret. retU (word_of_int ret))"

definition user_cpio_extract_single :: "uenv \<Rightarrow> image \<Rightarrow> u64 \<Rightarrow> u64 \<Rightarrow> (u64 \<Rightarrow> u64 \<Rightarrow> u64 uop) \<Rightarrow> u64 uop" where
  "user_cpio_extract_single e im addr target filler =
     bindU (mem_get e (\<lambda>m. user_single_loop (im_rounds im) (im_chars im) m (im_magic im) (im_trailer im) addr (target + 1))) (\<lambda>r.
     case r of None \<Rightarrow> retU (ERR_PTR (- ENOENT)) | Some (p, sz) \<Rightarrow> filler p sz)"

definition readelf_from_kernel_cpio :: "uenv \<Rightarrow> image \<Rightarrow> elf_file \<Rightarrow> u64 \<Rightarrow> u64 \<Rightarrow> int uop" where
  "readelf_from_kernel_cpio e im stale filename ue =
     seqU (wrU e (strcpy (im_chars im) (ue + UE_PATH) filename)) (
     bindU (user_cpio_extract_single e im CPIO_BIN filename (\<lambda>p sz. single_file_handler e stale p sz ue)) (\<lambda>r.
     retU (cint r)))"

section \<open>The initial environment\<close>

text \<open>Copying a string without its end.\<close>

fun copy_text :: "nat \<Rightarrow> u64 \<Rightarrow> u64 \<Rightarrow> nat \<Rightarrow> mem \<Rightarrow> mem res" where
  "copy_text 0 dst src i m = Inl FUEL"
| "copy_text (Suc n) dst src i m = bindR (rd_char m src i) (\<lambda>c.
     if c \<noteq> 0 then bindR (wr_char m dst i c) (copy_text n dst src (Suc i)) else Inr m)"

text \<open>Assignments \<^verbatim>\<open>*(buf + i) = ...\<close>; the right-hand side is read from memory at its turn.\<close>

fun wr_words :: "u64 \<Rightarrow> (nat \<times> (mem \<Rightarrow> u64 res)) list \<Rightarrow> mem \<Rightarrow> mem res" where
  "wr_words env [] m = Inr m"
| "wr_words env ((i, f) # ws) m = bindR (f m) (\<lambda>v. bindR (wr64 m env (8 * i) v) (wr_words env ws))"

abbreviation konst :: "u64 \<Rightarrow> mem \<Rightarrow> u64 res" where
  "konst v \<equiv> (\<lambda>_. Inr v)"

text \<open>The last assignments, from index \<open>i\<close> on. Index \<open>i + 25\<close> is assigned twice.\<close>

definition auxv_writes :: "u64 \<Rightarrow> u64 \<Rightarrow> nat \<Rightarrow> (nat \<times> (mem \<Rightarrow> u64 res)) list" where
  "auxv_writes top_vaddr meta i =
     [(i + 0, konst AT_SECURE), (i + 1, konst 0),
      (i + 2, konst AT_PAGESZ), (i + 3, konst 0x1000),
      (i + 4, konst AT_PHDR), (i + 5, \<lambda>m. rd64 m meta META_PHDR),
      (i + 6, konst AT_PHENT), (i + 7, \<lambda>m. rd64 m meta META_PHENT),
      (i + 8, konst AT_PHNUM), (i + 9, \<lambda>m. rd64 m meta META_PHNUM),
      (i + 10, konst AT_FLAGS), (i + 11, \<lambda>m. rd64 m meta META_FLAGS),
      (i + 12, konst AT_ENTRY), (i + 13, \<lambda>m. rd64 m meta META_ENTRY),
      (i + 14, konst AT_UID), (i + 15, konst 1000),
      (i + 16, konst AT_EUID), (i + 17, konst 1000),
      (i + 18, konst AT_GID), (i + 19, konst 1000),
      (i + 20, konst AT_EGID), (i + 21, konst 1000),
      (i + 22, konst AT_CLKTCK), (i + 23, konst 100),
      (i + 24, konst AT_HWCAP), (i + 25, konst 0),
      (i + 25, konst AT_PLATFORM), (i + 26, konst (top_vaddr - 64 * 2)),
      (i + 27, konst AT_RANDOM), (i + 28, konst (top_vaddr - 64)),
      (i + 29, konst AT_NULL), (i + 30, konst 0)]"

definition req_addr :: "u64 \<Rightarrow> nat \<Rightarrow> mem \<Rightarrow> u64 res" where
  "req_addr reqs j m = rd64 m reqs (32 * j + 8)"

definition cap_word :: "u64 \<Rightarrow> nat \<Rightarrow> mem \<Rightarrow> u64 res" where
  "cap_word caps j m = bindR (rd32 m caps (4 * j) :: u32 res) (\<lambda>c. Inr (scast c))"

definition env_writes :: "u64 \<Rightarrow> u64 \<Rightarrow> u64 \<Rightarrow> int \<Rightarrow> u64 \<Rightarrow> int \<Rightarrow> (nat \<times> (mem \<Rightarrow> u64 res)) list" where
  "env_writes top_vaddr meta reqs nr_reqs caps nr_caps =
     (let envp = (if nr_reqs = 0 then [konst 0] else map (req_addr reqs) [0..<nat nr_reqs]);
          i = 3 + length envp;
          cs = map (cap_word caps) [0..<nat nr_caps];
          i' = i + length cs
      in [(0, konst 1), (1, konst (top_vaddr - 64)), (2, konst 0)] @ enumerate 3 envp @ enumerate i cs @
         [(i', konst 0)] @ auxv_writes top_vaddr meta (i' + 1))"

definition construct_init_env :: "nat \<Rightarrow> u64 \<Rightarrow> u64 \<Rightarrow> u64 \<Rightarrow> u64 \<Rightarrow> u64 \<Rightarrow> int \<Rightarrow> u64 \<Rightarrow> int \<Rightarrow> mem \<Rightarrow> mem res" where
  "construct_init_env n env top_vaddr meta name reqs nr_reqs caps nr_caps m =
     bindR (wr_bytes m env 0 (replicate 0x1000 0)) (\<lambda>m.
     bindR (copy_text n (env + 0x1000 - 64) name 0 m) (\<lambda>m.
     bindR (wr_bytes m (env + 0x1000 - 2 * 64) 0 PLAT) (\<lambda>m.
     wr_words env (env_writes top_vaddr meta reqs nr_reqs caps nr_caps) m)))"

section \<open>Starting the process\<close>

definition MAIN_THREAD_STACK_BASE :: u64 where "MAIN_THREAD_STACK_BASE = 0x8000000"
definition MAIN_THREAD_STACK_SIZE :: u64 where "MAIN_THREAD_STACK_SIZE = 0x10000"
definition MAIN_THREAD_PRIO :: u32 where "MAIN_THREAD_PRIO = 254"

definition map_pmos :: "uenv \<Rightarrow> u64 \<Rightarrow> u64 \<Rightarrow> u64 \<Rightarrow> int uop" where
  "map_pmos e cap req cnt = bindU (usys_map_pmos e cap req cnt) (\<lambda>r. seqK (modK (ue_mmu e)) (retU r))"

definition map_user_segment :: "uenv \<Rightarrow> u64 \<Rightarrow> int \<Rightarrow> nat \<Rightarrow> unit uop" where
  "map_user_segment e ue cap i =
     bindU (rdU e ue (SEG_VADDR i)) (\<lambda>p_vaddr.
     bindU (rdU e ue (SEG_PMO i)) (\<lambda>elf_pmo.
     bindU (rdU e ue (SEG_FLAGS i)) (\<lambda>flags.
     bindU (map_pmo e (word_of_int cap) elf_pmo (ROUND_DOWN p_vaddr PAGE_SIZE) flags) (\<lambda>ret.
     if ret < 0 then usys_exit e (- 1) else retU ()))))"

text \<open>\<^verbatim>\<open>if (p) *p = v\<close> for a pointer to \<^verbatim>\<open>int\<close>.\<close>

definition put_int :: "uenv \<Rightarrow> u64 \<Rightarrow> int \<Rightarrow> unit uop" where
  "put_int e p v = (if p = 0 then retU () else wrU e (\<lambda>m. wr_bytes m p 0 (le_bytes 4 (word_of_int v :: u32))))"

text \<open>
  The locals are at \<open>frame\<close>: \<^verbatim>\<open>pmo_requests\<close> (24 bytes), \<^verbatim>\<open>pmo_map_requests\<close> (32) and
  \<^verbatim>\<open>transfer_caps\<close> (16 numbers of 4 bytes).
\<close>

text \<open>Writing the environment to the stack of the child, mapping the stack and starting the main thread.\<close>

definition write_child_env :: "uenv \<Rightarrow> image \<Rightarrow> u64 \<Rightarrow> u64 \<Rightarrow> int \<Rightarrow> u64 \<Rightarrow> int \<Rightarrow> int \<Rightarrow> int uop" where
  "write_child_env e im ue reqs nr_reqs transfer_caps nr_caps main_stack_cap =
     (let stack_top = MAIN_THREAD_STACK_BASE + MAIN_THREAD_STACK_SIZE;
          stack_offset = MAIN_THREAD_STACK_SIZE - PAGE_SIZE in
      seqU (wrU e (construct_init_env (im_chars im) (im_env im) stack_top (ue + UE_META) (ue + UE_PATH)
             reqs nr_reqs transfer_caps nr_caps))
      (usys_write_pmo e (word_of_int main_stack_cap) stack_offset (im_env im) PAGE_SIZE))"

definition map_child_stack :: "uenv \<Rightarrow> u64 \<Rightarrow> u64 \<Rightarrow> int \<Rightarrow> int uop" where
  "map_child_stack e process_cap pmo_map_requests main_stack_cap =
     seqU (setU e pmo_map_requests 0 (word_of_int main_stack_cap)) (
     seqU (setU e pmo_map_requests 8 MAIN_THREAD_STACK_BASE) (
     seqU (setU e pmo_map_requests 16 (VM_READ OR VM_WRITE))
     (map_pmos e process_cap pmo_map_requests 1)))"

definition start_child_thread :: "uenv \<Rightarrow> int \<Rightarrow> u64 \<Rightarrow> s32 \<Rightarrow> u64 \<Rightarrow> u64 \<Rightarrow> int uop" where
  "start_child_thread e new_process_cap pc aff child_process_cap child_main_thread_cap =
     (let stack_va = MAIN_THREAD_STACK_BASE + MAIN_THREAD_STACK_SIZE - PAGE_SIZE in
      bindU (usys_create_thread e (word_of_int new_process_cap) stack_va pc 0 MAIN_THREAD_PRIO aff) (\<lambda>main_thread_cap.
      if main_thread_cap < 0 then retU (- EINVAL)
      else
        seqU (put_int e child_process_cap new_process_cap) (
        seqU (put_int e child_main_thread_cap main_thread_cap)
        (retU 0))))"

definition launch_process_with_pmos_caps ::
  "uenv \<Rightarrow> image \<Rightarrow> u64 \<Rightarrow> u64 \<Rightarrow> u64 \<Rightarrow> u64 \<Rightarrow> u64 \<Rightarrow> int \<Rightarrow> u64 \<Rightarrow> int \<Rightarrow> s32 \<Rightarrow> int uop" where
  "launch_process_with_pmos_caps e im frame ue child_process_cap child_main_thread_cap reqs nr_reqs caps nr_caps aff =
     (let pmo_requests = frame; pmo_map_requests = frame + 24; transfer_caps = frame + 56; fail = retU (- EINVAL) in
      seqU (wrU e (\<lambda>m. wr_bytes m transfer_caps 0 (le_bytes 4 (0 :: u32)))) (
      bindU (usys_create_process e) (\<lambda>new_process_cap.
      if new_process_cap < 0 then fail
      else
        let child = word_of_int new_process_cap in
        seqU (map_user_segment e ue new_process_cap 0) (
        seqU (map_user_segment e ue new_process_cap 1) (
        bindU (rdU e (ue + UE_META) META_ENTRY) (\<lambda>pc.
        seqU (setU e pmo_requests 0 MAIN_THREAD_STACK_SIZE) (
        seqU (setU e pmo_requests 8 PMO_DATA) (
        bindU (usys_create_pmos e pmo_requests 1) (\<lambda>ret.
        if ret \<noteq> 0 then fail
        else
          bindU (rdU e pmo_requests 16) (\<lambda>ret_cap. let main_stack_cap = cint ret_cap in
          if main_stack_cap < 0 then fail
          else
            seqU (if nr_caps > 0
                  then bindU (usys_transfer_caps e child caps nr_caps transfer_caps) (\<lambda>ret.
                         if ret \<noteq> 0 then usys_exit e (- 1) else retU ())
                  else retU ()) (
            bindU (if nr_reqs > 0 then map_pmos e child reqs (word_of_int nr_reqs) else retU 0) (\<lambda>ret.
            if ret \<noteq> 0 then fail
            else
              bindU (write_child_env e im ue reqs nr_reqs transfer_caps nr_caps main_stack_cap) (\<lambda>ret.
              if ret \<noteq> 0 then fail
              else
                bindU (map_child_stack e child pmo_map_requests main_stack_cap) (\<lambda>ret.
                if ret \<noteq> 0 then fail
                else start_child_thread e new_process_cap pc aff child_process_cap child_main_thread_cap))))))))))))))"

text \<open>\<open>ue\<close> is the address of the local \<^verbatim>\<open>user_elf\<close>.\<close>

definition spawn :: "uenv \<Rightarrow> image \<Rightarrow> elf_file \<Rightarrow> u64 \<Rightarrow> u64 \<Rightarrow> u64 \<Rightarrow> u64 \<Rightarrow> u64 \<Rightarrow> u64 \<Rightarrow> int \<Rightarrow> u64 \<Rightarrow> int \<Rightarrow> s32 \<Rightarrow> int uop" where
  "spawn e im stale frame ue path new_process_cap new_thread_cap reqs nr_reqs caps nr_caps aff =
     bindU (readelf_from_kernel_cpio e im stale path ue) (\<lambda>ret.
     if ret < 0 then retU ret
     else launch_process_with_pmos_caps e im frame ue new_process_cap new_thread_cap reqs nr_reqs caps nr_caps aff)"

end
