(* ===== verification/SpawnProps.thy ===== *)
theory SpawnProps
  imports Spawn
begin

text \<open>
  Properties of the user library: the initial environment that \<^verbatim>\<open>spawn.c\<close> builds for a new
  process, what the process finds in it, and the messages of \<^verbatim>\<open>ipc.c\<close>.
\<close>

section \<open>Stores into a page\<close>

lemma copy_text_putb:
  assumes "0 \<notin> set s" "apart src (length s + 1) b l" "o' + length s \<le> l" "l \<le> 2 ^ 64"
  shows "holds m src (s @ [0]) \<Longrightarrow> writable m b 0 l \<Longrightarrow> i \<le> length s \<Longrightarrow> length s - i < n \<Longrightarrow>
    copy_text n (b + of_nat o') src i m = Inr (putb m b (o' + i) (drop i s))"
proof (induction n arbitrary: i m)
  case (Suc n)
  have str: "cstring m src s" using Suc.prems(1) assms(1) by (simp add: cstring_def)
  show ?case
  proof (cases "i < length s")
    case True
    let ?m = "m(b + of_nat (o' + i) \<mapsto> s ! i)"
    have in_page: "o' + i < l" using True assms(3) by linarith
    have so: "same_outside b l m ?m"
      using in_page assms(4) unat_offset [of "o' + i" b] by (auto simp: same_outside_def simp del: of_nat_add)
    have w: "m (b + of_nat (o' + i)) \<noteq> None"
      using Suc.prems(2) in_page by (auto simp: writable_def simp del: of_nat_add)
    have wm: "writable ?m b 0 l" using Suc.prems(2) by (auto simp: writable_def)
    have hm: "holds ?m src (s @ [0])" by (rule holds_apart [OF so assms(2) _ Suc.prems(1)]) simp
    have "copy_text n (b + of_nat o') src (Suc i) ?m = Inr (putb ?m b (o' + Suc i) (drop (Suc i) s))"
      using True Suc.prems(4) by (intro Suc.IH hm wm) linarith+
    also have "putb ?m b (o' + Suc i) (drop (Suc i) s) = putb m b (o' + i) (drop i s)"
      using putb_Cons [of "o' + i" "drop (Suc i) s" m b "s ! i"] True in_page assms(3,4)
      by (simp add: Cons_nth_drop_Suc)
    finally show ?thesis using cstring_char(1) [OF str True] w
      by (auto simp: wr_char_def add.assoc fun_upd_def)
  next
    case False
    then show ?thesis using cstring_char(2) [OF str, of i] Suc.prems by simp
  qed
qed simp

lemma wr_words_append: "wr_words env (xs @ ys) m = bindR (wr_words env xs m) (wr_words env ys)"
  by (induction xs arbitrary: m) (auto simp: bindR_assoc intro!: bindR_cong)

text \<open>A value that does not depend on the \<open>l\<close> bytes at \<open>b\<close>.\<close>

definition reads :: "u64 \<Rightarrow> nat \<Rightarrow> mem \<Rightarrow> (mem \<Rightarrow> u64 res) \<Rightarrow> u64 \<Rightarrow> bool" where
  "reads b l m f x \<longleftrightarrow> (\<forall>m'. same_outside b l m m' \<longrightarrow> f m' = Inr x)"

lemma reads_konst [simp]: "reads b l m (konst v) x \<longleftrightarrow> v = x"
  unfolding reads_def by (metis same_outside_refl sum.inject(2))

lemma reads_later: "same_outside b l m m' \<Longrightarrow> reads b l m f x \<Longrightarrow> reads b l m' f x"
  using same_outside_trans by (auto simp: reads_def)

lemma reads_rd64: "rd64 m a off = Inr x \<Longrightarrow> apart a n b l \<Longrightarrow> off + 8 \<le> n \<Longrightarrow> reads b l m (\<lambda>m. rd64 m a off) x"
  by (simp add: reads_def rd_field_apart)

lemma wr_words_enumerate:
  "list_all2 (reads env l m) fs xs \<Longrightarrow> 8 * (p + length fs) \<le> l \<Longrightarrow> l \<le> 2 ^ 64 \<Longrightarrow> writable m env 0 l \<Longrightarrow>
    wr_words env (enumerate p fs) m = Inr (putb m env (8 * p) (words_bytes xs))"
proof (induction fs arbitrary: xs p m)
  case Nil
  then show ?case by (simp add: words_bytes_def)
next
  case (Cons f fs)
  then obtain x xs' where xs: "xs = x # xs'" "reads env l m f x" "list_all2 (reads env l m) fs xs'"
    by (auto simp: list_all2_Cons1)
  let ?m = "putb m env (8 * p) (le_bytes 8 x)"
  have so: "same_outside env l m ?m" using Cons.prems(2) by (intro same_outside_putb) simp
  have f: "f m = Inr x" using xs(2) same_outside_refl by (auto simp: reads_def)
  have w: "wr64 m env (8 * p) x = Inr ?m"
    using Cons.prems(2-4) by (intro wr_bytes_putb) (auto intro: writable_part)
  have "list_all2 (reads env l ?m) fs xs'" using xs(3) reads_later [OF so] by (rule list_all2_mono)
  then have "wr_words env (enumerate (Suc p) fs) ?m = Inr (putb ?m env (8 * Suc p) (words_bytes xs'))"
    using Cons.prems by (intro Cons.IH) (auto simp: writable_putb)
  also have "putb ?m env (8 * Suc p) (words_bytes xs') = putb m env (8 * p) (words_bytes xs)"
    using putb_append [of m env "8 * p" "le_bytes 8 x" "words_bytes xs'"] by (simp add: xs(1) words_bytes_def add.commute)
  finally show ?case by (simp add: f w)
qed

section \<open>The initial environment\<close>

text \<open>What the words of the page should be, as a list, up to the auxiliary vector; and the vector.\<close>

definition spawn_auxv :: "u64 \<Rightarrow> process_metadata \<Rightarrow> u64 list" where
  "spawn_auxv top_vaddr md =
     [AT_SECURE, 0, AT_PAGESZ, 0x1000, AT_PHDR, phdr_addr md, AT_PHENT, phentsize md, AT_PHNUM, phnum md,
      AT_FLAGS, md_flags md, AT_ENTRY, md_entry md, AT_UID, 1000, AT_EUID, 1000, AT_GID, 1000, AT_EGID, 1000,
      AT_CLKTCK, 100, AT_HWCAP, AT_PLATFORM, top_vaddr - 64 * 2, AT_RANDOM, top_vaddr - 64, AT_NULL, 0]"

definition spawn_words :: "u64 \<Rightarrow> process_metadata \<Rightarrow> u64 list \<Rightarrow> u32 list \<Rightarrow> u64 list" where
  "spawn_words top_vaddr md rs cs =
     [1, top_vaddr - 64, 0] @ (if rs = [] then [0] else rs) @ map scast cs @ [0] @ spawn_auxv top_vaddr md"

definition metadata_at :: "mem \<Rightarrow> u64 \<Rightarrow> process_metadata \<Rightarrow> bool" where
  "metadata_at m meta md \<longleftrightarrow> rd64 m meta META_PHDR = Inr (phdr_addr md) \<and> rd64 m meta META_PHENT = Inr (phentsize md) \<and>
     rd64 m meta META_PHNUM = Inr (phnum md) \<and> rd64 m meta META_FLAGS = Inr (md_flags md) \<and>
     rd64 m meta META_ENTRY = Inr (md_entry md)"

text \<open>The first 26 assignments of the vector, and the rest from the repeated index on.\<close>

definition auxv_head :: "u64 \<Rightarrow> (mem \<Rightarrow> u64 res) list" where
  "auxv_head meta =
     [konst AT_SECURE, konst 0, konst AT_PAGESZ, konst 0x1000, konst AT_PHDR, \<lambda>m. rd64 m meta META_PHDR,
      konst AT_PHENT, \<lambda>m. rd64 m meta META_PHENT, konst AT_PHNUM, \<lambda>m. rd64 m meta META_PHNUM,
      konst AT_FLAGS, \<lambda>m. rd64 m meta META_FLAGS, konst AT_ENTRY, \<lambda>m. rd64 m meta META_ENTRY,
      konst AT_UID, konst 1000, konst AT_EUID, konst 1000, konst AT_GID, konst 1000, konst AT_EGID, konst 1000,
      konst AT_CLKTCK, konst 100, konst AT_HWCAP, konst 0]"

definition auxv_tail :: "u64 \<Rightarrow> (mem \<Rightarrow> u64 res) list" where
  "auxv_tail top_vaddr = [konst AT_PLATFORM, konst (top_vaddr - 64 * 2), konst AT_RANDOM, konst (top_vaddr - 64), konst AT_NULL, konst 0]"

lemma auxv_split: "auxv_writes top_vaddr meta i = enumerate i (auxv_head meta) @ enumerate (i + 25) (auxv_tail top_vaddr)"
  by (simp add: auxv_writes_def auxv_head_def auxv_tail_def enumerate_simps numeral_eq_Suc)

definition env_head :: "u64 \<Rightarrow> u64 \<Rightarrow> int \<Rightarrow> u64 \<Rightarrow> int \<Rightarrow> (mem \<Rightarrow> u64 res) list" where
  "env_head top_vaddr reqs nr_reqs caps nr_caps =
     [konst 1, konst (top_vaddr - 64), konst 0] @
     (if nr_reqs = 0 then [konst 0] else map (req_addr reqs) [0..<nat nr_reqs]) @
     map (cap_word caps) [0..<nat nr_caps] @ [konst 0]"

lemma env_split:
  "env_writes top_vaddr meta reqs nr_reqs caps nr_caps =
     enumerate 0 (env_head top_vaddr reqs nr_reqs caps nr_caps) @
     auxv_writes top_vaddr meta (length (env_head top_vaddr reqs nr_reqs caps nr_caps))"
  unfolding env_writes_def env_head_def Let_def enumerate_append_eq
  by (simp add: enumerate_simps numeral_eq_Suc)

lemma auxv_head_reads:
  assumes "metadata_at m meta md" "apart meta 40 b l"
  shows "list_all2 (reads b l m) (auxv_head meta) (take 25 (spawn_auxv top_vaddr md) @ [0])"
proof -
  have "reads b l m (\<lambda>m. rd64 m meta META_PHDR) (phdr_addr md)" "reads b l m (\<lambda>m. rd64 m meta META_PHENT) (phentsize md)"
    "reads b l m (\<lambda>m. rd64 m meta META_PHNUM) (phnum md)" "reads b l m (\<lambda>m. rd64 m meta META_FLAGS) (md_flags md)"
    "reads b l m (\<lambda>m. rd64 m meta META_ENTRY) (md_entry md)"
    using assms by (auto simp: metadata_at_def meta_defs intro!: reads_rd64 [where n = 40])
  then show ?thesis by (simp add: auxv_head_def spawn_auxv_def)
qed

lemma auxv_tail_reads: "list_all2 (reads b l m) (auxv_tail top_vaddr) (drop 25 (spawn_auxv top_vaddr md))"
  by (simp add: auxv_tail_def spawn_auxv_def)

lemma envp_reads:
  assumes "\<forall>j < length rs. rd64 m reqs (32 * j + 8) = Inr (rs ! j)" "apart reqs (32 * length rs) b l"
  shows "list_all2 (reads b l m) (map (req_addr reqs) [0..<length rs]) rs"
  unfolding list_all2_conv_all_nth
proof (intro conjI allI impI)
  fix j assume "j < length (map (req_addr reqs) [0..<length rs])"
  then have j: "j < length rs" by simp
  then have "reads b l m (\<lambda>m. rd64 m reqs (32 * j + 8)) (rs ! j)"
    using assms by (intro reads_rd64) auto
  then show "reads b l m (map (req_addr reqs) [0..<length rs] ! j) (rs ! j)"
    using j by (simp add: reads_def req_addr_def)
qed simp

lemma caps_reads:
  assumes "\<forall>j < length cs. rd32 m caps (4 * j) = Inr (cs ! j)" "apart caps (4 * length cs) b l"
  shows "list_all2 (reads b l m) (map (cap_word caps) [0..<length cs]) (map scast cs)"
  unfolding list_all2_conv_all_nth
proof (intro conjI allI impI)
  fix j assume "j < length (map (cap_word caps) [0..<length cs])"
  then have j: "j < length cs" by simp
  then have "rd_field m' caps (4 * j) 4 = (Inr (cs ! j) :: u32 res)" if "same_outside b l m m'" for m'
    using assms(1) rd_field_apart [where ?'a = 32, OF that assms(2), of "4 * j" 4] by simp
  then show "reads b l m (map (cap_word caps) [0..<length cs] ! j) (map scast cs ! j)"
    using j by (simp add: reads_def cap_word_def)
qed simp

lemma wr_auxv:
  assumes "metadata_at m meta md" "apart meta 40 env l"
    and room: "8 * (i + 31) \<le> l" "l \<le> 2 ^ 64" "writable m env 0 l"
  shows "wr_words env (auxv_writes top_vaddr meta i) m = Inr (putb m env (8 * i) (words_bytes (spawn_auxv top_vaddr md)))"
proof -
  let ?h = "take 25 (spawn_auxv top_vaddr md)" and ?t = "drop 25 (spawn_auxv top_vaddr md)"
  have len: "length ?h = 25" "length ?t = 6" by (simp_all add: spawn_auxv_def)
  let ?m = "putb m env (8 * i) (words_bytes (?h @ [0]))"
  have 1: "wr_words env (enumerate i (auxv_head meta)) m = Inr ?m"
    using room by (intro wr_words_enumerate [OF auxv_head_reads [OF assms(1,2)]]) (auto simp: auxv_head_def)
  have "wr_words env (enumerate (i + 25) (auxv_tail top_vaddr)) ?m = Inr (putb ?m env (8 * (i + 25)) (words_bytes ?t))"
    using room by (intro wr_words_enumerate [OF auxv_tail_reads]) (auto simp: auxv_tail_def writable_putb)
  also have "putb ?m env (8 * (i + 25)) (words_bytes ?t) = putb m env (8 * i) (words_bytes ?h @ words_bytes ?t)"
    using putb_overwrite [of "words_bytes [0]" "words_bytes ?t" m env "8 * i" "words_bytes ?h"] len
    by (simp add: words_bytes_append)
  finally show ?thesis using 1 by (simp add: auxv_split wr_words_append flip: words_bytes_append)
qed

lemma wr_env_writes:
  fixes rs :: "u64 list" and cs :: "u32 list"
  assumes "metadata_at m meta md" "apart meta 40 env l"
    and "\<forall>j < length rs. rd64 m reqs (32 * j + 8) = Inr (rs ! j)" "apart reqs (32 * length rs) env l"
    and "\<forall>j < length cs. rd32 m caps (4 * j) = Inr (cs ! j)" "apart caps (4 * length cs) env l"
    and room: "8 * length (spawn_words top_vaddr md rs cs) \<le> l" "l \<le> 2 ^ 64" "writable m env 0 l"
  shows "wr_words env (env_writes top_vaddr meta reqs (int (length rs)) caps (int (length cs))) m =
    Inr (putb m env 0 (words_bytes (spawn_words top_vaddr md rs cs)))"
proof -
  let ?h = "env_head top_vaddr reqs (int (length rs)) caps (int (length cs))"
  define ws where "ws = [1, top_vaddr - 64, 0] @ (if rs = [] then [0] else rs) @ map scast cs @ [0]"
  have "list_all2 (reads env l m) ?h ws"
    unfolding env_head_def ws_def append_assoc
    using envp_reads [OF assms(3,4)] caps_reads [OF assms(5,6)]
    by (intro list_all2_appendI) auto
  then have hr: "list_all2 (reads env l m) ?h ws" "length ?h = length ws"
    by (simp_all add: list_all2_lengthD)
  have words: "spawn_words top_vaddr md rs cs = ws @ spawn_auxv top_vaddr md" "length (spawn_auxv top_vaddr md) = 31"
    by (simp_all add: spawn_words_def ws_def spawn_auxv_def)
  let ?m = "putb m env (8 * 0) (words_bytes ws)"
  have 1: "wr_words env (enumerate 0 ?h) m = Inr ?m"
    using room hr words by (intro wr_words_enumerate [OF hr(1)]) auto
  have so: "same_outside env l m ?m" using room words by (intro same_outside_putb) simp
  have "metadata_at ?m meta md"
    using assms(1) rd_field_apart [where ?'a = 64, OF so assms(2)] by (simp add: metadata_at_def meta_defs)
  then have 2: "wr_words env (auxv_writes top_vaddr meta (length ?h)) ?m =
      Inr (putb ?m env (8 * length ws) (words_bytes (spawn_auxv top_vaddr md)))"
    using room words hr(2) assms(2) by (subst wr_auxv) (auto intro: writable_putb)
  then show ?thesis using 1 putb_append [of m env 0 "words_bytes ws" "words_bytes (spawn_auxv top_vaddr md)"]
    by (simp add: env_split wr_words_append words words_bytes_append)
qed

text \<open>Looking up an entry of an auxiliary vector, as a C library does.\<close>

fun auxv_lookup :: "u64 \<Rightarrow> u64 list \<Rightarrow> u64 option" where
  "auxv_lookup key (t # v # ws) = (if t = AT_NULL then None else if t = key then Some v else auxv_lookup key ws)"
| "auxv_lookup key ws = None"

section \<open>Properties\<close>

text \<open>
  C33: for a program name of less than 64 characters and a vector of words that fits in front of the two
  strings, \<^verbatim>\<open>construct_init_env\<close> changes only the page, and the page ends up with
  the argument count and pointers, the addresses of the mapped objects (or 0), the capabilities with their
  signs, and the vector with the metadata, and with the two strings at its end.
\<close>

theorem construct_init_env_words:
  fixes rs :: "u64 list" and cs :: "u32 list"
  assumes page: "writable m env 0 0x1000"
    and name: "cstring m name s" "apart name (length s + 1) env 0x1000" "length s < 64" "length s < n"
    and meta: "metadata_at m meta md" "apart meta 40 env 0x1000"
    and reqs: "\<forall>j < length rs. rd64 m reqs (32 * j + 8) = Inr (rs ! j)" "apart reqs (32 * length rs) env 0x1000"
    and caps: "\<forall>j < length cs. rd32 m caps (4 * j) = Inr (cs ! j)" "apart caps (4 * length cs) env 0x1000"
    and room: "8 * length (spawn_words top_vaddr md rs cs) \<le> 0xf80"
  shows "\<exists>m'. construct_init_env n env top_vaddr meta name reqs (int (length rs)) caps (int (length cs)) m = Inr m' \<and>
    same_outside env 0x1000 m m' \<and>
    (\<forall>k < length (spawn_words top_vaddr md rs cs). rd64 m' env (8 * k) = Inr (spawn_words top_vaddr md rs cs ! k)) \<and>
    cstring m' (env + 0x1000 - 64) s \<and> cstring m' (env + 0x1000 - 2 * 64) PLAT"
proof -
  let ?ws = "spawn_words top_vaddr md rs cs"
  define m1 where "m1 = putb m env 0 (replicate 0x1000 0)"
  define m2 where "m2 = putb m1 env 4032 s"
  define m3 where "m3 = putb m2 env 3968 PLAT"
  define m4 where "m4 = putb m3 env 0 (words_bytes ?ws)"
  have plat: "length PLAT = 7" "0 \<notin> set PLAT" by (simp_all add: PLAT_def)
  have so1: "same_outside env 0x1000 m m1" unfolding m1_def by (rule same_outside_putb) simp
  have so3: "same_outside env 0x1000 m m3"
  proof (rule same_outside_trans [OF same_outside_trans [OF so1]])
    show "same_outside env 0x1000 m1 m2" unfolding m2_def using name(3) by (intro same_outside_putb) simp
    show "same_outside env 0x1000 m2 m3" unfolding m3_def using plat by (intro same_outside_putb) simp
  qed
  have w: "writable m1 env 0 0x1000" "writable m2 env 0 0x1000" "writable m3 env 0 0x1000"
    using page by (simp_all add: m1_def m2_def m3_def writable_putb)
  have a1: "env + 0x1000 - 64 = env + of_nat 4032" and a2: "env + 0x1000 - 2 * 64 = env + of_nat 3968" by simp_all
  have 1: "wr_bytes m env 0 (replicate 0x1000 0) = Inr m1"
    using page unfolding m1_def by (intro wr_bytes_putb) auto
  have "holds m1 name (s @ [0])"
    using holds_apart [OF so1 name(2), of "s @ [0]"] name(1) by (simp add: cstring_def)
  then have 2: "copy_text n (env + 0x1000 - 64) name 0 m1 = Inr m2"
    using copy_text_putb [where i = 0, OF _ name(2) _ _ _ w(1), of 4032 n] name unfolding a1 m2_def
    by (simp add: cstring_def)
  have 3: "wr_bytes m2 (env + 0x1000 - 2 * 64) 0 PLAT = Inr m3"
    unfolding a2 wr_bytes_shift add_0_right m3_def using w(2) plat by (intro wr_bytes_putb) (auto intro: writable_part)
  have 4: "wr_words env (env_writes top_vaddr meta reqs (int (length rs)) caps (int (length cs))) m3 = Inr m4"
    unfolding m4_def
  proof (rule wr_env_writes [OF _ meta(2) _ reqs(2) _ caps(2) _ _ w(3)])
    show "metadata_at m3 meta md"
      using meta rd_field_apart [where ?'a = 64, OF so3 meta(2)] by (simp add: metadata_at_def meta_defs)
    show "\<forall>j < length rs. rd64 m3 reqs (32 * j + 8) = Inr (rs ! j)"
      using reqs(1) rd_field_apart [where ?'a = 64, OF so3 reqs(2)] by simp
    show "\<forall>j < length cs. rd32 m3 caps (4 * j) = Inr (cs ! j)"
      using caps(1) rd_field_apart [where ?'a = 32, OF so3 caps(2)] by simp
  qed (use room in simp_all)
  have words: "rd64 m4 env (8 * k) = Inr (?ws ! k)" if "k < length ?ws" for k
    using rd64_words [OF that, of 0 m3 env] room by (simp add: m4_def)
  have end_of_page: "m4 (env + of_nat j) = Some (if j < 3975 then PLAT ! (j - 3968)
      else if 4032 \<le> j \<and> j < 4032 + length s then s ! (j - 4032) else 0)" if "3968 \<le> j" "j < 4096" for j
    using that room plat by (auto simp: m4_def m3_def m2_def m1_def putb_at)
  have byte: "m4 (env + of_nat (o' + i)) = Some ((t @ [0]) ! i)"
    if "i \<le> length t" "o' = 4032 \<and> t = s \<or> o' = 3968 \<and> t = PLAT" for o' t i
    using that end_of_page [of "o' + i"] name(3) plat by (auto simp: nth_append)
  have str: "cstring m4 (env + 0x1000 - 64) s" "cstring m4 (env + 0x1000 - 2 * 64) PLAT"
    using byte [where t = s and o' = 4032] byte [where t = PLAT and o' = 3968] name(1) plat(2) unfolding a1 a2 cstring_def holds_def by (auto simp: add.assoc)
  have "same_outside env 0x1000 m m4"
    using room unfolding m4_def by (intro same_outside_trans [OF so3] same_outside_putb) simp
  moreover have "construct_init_env n env top_vaddr meta name reqs (int (length rs)) caps (int (length cs)) m = Inr m4"
    unfolding construct_init_env_def 1 bindR_simps 2 3 4 ..
  ultimately show ?thesis using words str by blast
qed

text \<open>A page at 0x1000, the name \<open>a\<close> at 0x3000, metadata at 0x4000 and capability 3 at 0x5000.\<close>

definition demo_env :: mem where
  "demo_env x = Some (if x = 0x3000 then 0x61 else if x = 0x4000 then 0x40 else if x = 0x5000 then 3 else 0)"

theorem construct_init_env_words_witness:
  "\<exists>m'. construct_init_env 2 0x1000 0x8010000 0x4000 0x3000 0 0 0x5000 1 demo_env = Inr m' \<and>
    rd64 m' 0x1000 (8 * 4) = Inr 3 \<and> rd64 m' 0x1000 (8 * 11) = Inr 0x40 \<and> cstring m' 0x1fc0 [0x61]"
proof -
  define md where "md = \<lparr>phdr_addr = 0x40, phentsize = 0, phnum = 0, md_flags = 0, md_entry = 0\<rparr>"
  have w: "writable demo_env 0x1000 0 0x1000" by (simp add: writable_def demo_env_def)
  have name: "cstring demo_env 0x3000 [0x61]" by code_simp
  have meta: "metadata_at demo_env 0x4000 md" unfolding md_def by code_simp
  have cap: "rd32 demo_env 0x5000 0 = Inr (3 :: u32)" by code_simp
  have "\<exists>m'. construct_init_env 2 0x1000 0x8010000 0x4000 0x3000 0 (int (length ([] :: u64 list))) 0x5000 (int (length [3 :: u32])) demo_env = Inr m' \<and>
    same_outside 0x1000 0x1000 demo_env m' \<and>
    (\<forall>k < length (spawn_words 0x8010000 md [] [3]). rd64 m' 0x1000 (8 * k) = Inr (spawn_words 0x8010000 md [] [3] ! k)) \<and>
    cstring m' (0x1000 + 0x1000 - 64) [0x61] \<and> cstring m' (0x1000 + 0x1000 - 2 * 64) PLAT"
    by (rule construct_init_env_words [OF w name _ _ _ meta])
       (auto intro!: apartI simp: cap spawn_words_def spawn_auxv_def)
  then obtain m' where m': "construct_init_env 2 0x1000 0x8010000 0x4000 0x3000 0 0 0x5000 1 demo_env = Inr m'"
      "cstring m' 0x1fc0 [0x61]"
    and words: "\<And>k. k < length (spawn_words 0x8010000 md [] [3]) \<Longrightarrow>
      rd64 m' 0x1000 (8 * k) = Inr (spawn_words 0x8010000 md [] [3] ! k)" by auto
  have "rd64 m' 0x1000 (8 * 4) = Inr 3" "rd64 m' 0x1000 (8 * 11) = Inr 0x40"
    using words [of 4] words [of 11] by (simp_all add: spawn_words_def spawn_auxv_def md_def)
  then show ?thesis using m' by blast
qed

text \<open>
  What a C library finds in the vectors: the kernel's, for the first program, has the platform,
  the capabilities of the processor and the random bytes; in the one of \<^verbatim>\<open>spawn.c\<close> the value
  of \<^verbatim>\<open>AT_HWCAP\<close> is the number \<^verbatim>\<open>AT_PLATFORM\<close>, and neither platform nor random bytes are found,
  since a word is overwritten and all later ones are off by one.
\<close>

theorem spawn_vector_misaligned:
  fixes m :: mem and stack_top :: u64
  defines "stack_top \<equiv> MAIN_THREAD_STACK_BASE + MAIN_THREAD_STACK_SIZE"
  assumes "writable m env 0 0x1000" "metadata_at m meta md" "apart meta 40 env 0x1000"
  shows "\<exists>m' v. wr_words env (auxv_writes stack_top meta 0) m = Inr m' \<and> length v = 31 \<and>
    (\<forall>k < 31. rd64 m' env (8 * k) = Inr (v ! k)) \<and>
    auxv_lookup AT_ENTRY v = Some (md_entry md) \<and> auxv_lookup AT_HWCAP v = Some AT_PLATFORM \<and>
    auxv_lookup AT_PLATFORM v = None \<and> auxv_lookup AT_RANDOM v = None \<and>
    auxv_lookup AT_HWCAP (drop 4 (env_words stack_top md)) = Some 0 \<and>
    auxv_lookup AT_PLATFORM (drop 4 (env_words stack_top md)) = Some (stack_top - 128) \<and>
    auxv_lookup AT_RANDOM (drop 4 (env_words stack_top md)) = Some (stack_top - 64)"
proof -
  have len: "length (spawn_auxv stack_top md) = 31" by (simp add: spawn_auxv_def)
  have w: "wr_words env (auxv_writes stack_top meta 0) m = Inr (putb m env 0 (words_bytes (spawn_auxv stack_top md)))"
    using wr_auxv [OF assms(3,4), of 0 stack_top] assms(2) by simp
  have r: "\<forall>k < 31. rd64 (putb m env 0 (words_bytes (spawn_auxv stack_top md))) env (8 * k) = Inr (spawn_auxv stack_top md ! k)"
    using rd64_words [of _ "spawn_auxv stack_top md" 0 m env] len by simp
  have "auxv_lookup AT_ENTRY (spawn_auxv stack_top md) = Some (md_entry md)"
    "auxv_lookup AT_HWCAP (spawn_auxv stack_top md) = Some AT_PLATFORM"
    "auxv_lookup AT_PLATFORM (spawn_auxv stack_top md) = None" "auxv_lookup AT_RANDOM (spawn_auxv stack_top md) = None"
    "auxv_lookup AT_HWCAP (drop 4 (env_words stack_top md)) = Some 0"
    "auxv_lookup AT_PLATFORM (drop 4 (env_words stack_top md)) = Some (stack_top - 128)"
    "auxv_lookup AT_RANDOM (drop 4 (env_words stack_top md)) = Some (stack_top - 64)"
    by (simp_all add: spawn_auxv_def env_words_def auxv_defs stack_top_def MAIN_THREAD_STACK_BASE_def MAIN_THREAD_STACK_SIZE_def)
  then show ?thesis using w r len by blast
qed

theorem spawn_vector_misaligned_witness:
  "\<exists>m' v. wr_words 0x1000 (auxv_writes (MAIN_THREAD_STACK_BASE + MAIN_THREAD_STACK_SIZE) 0x4000 0) demo_env = Inr m' \<and>
    rd64 m' 0x1000 (8 * 28) = Inr (v ! 28) \<and> auxv_lookup AT_HWCAP v = Some AT_PLATFORM \<and> auxv_lookup AT_RANDOM v = None"
proof -
  define md where "md = \<lparr>phdr_addr = 0x40, phentsize = 0, phnum = 0, md_flags = 0, md_entry = 0\<rparr>"
  have w: "writable demo_env 0x1000 0 0x1000" by (simp add: writable_def demo_env_def)
  have meta: "metadata_at demo_env 0x4000 md" unfolding md_def by code_simp
  have apart: "apart 0x4000 40 0x1000 0x1000" by (rule apartI) simp_all
  have k: "(28 :: nat) < 31" by simp
  show ?thesis using spawn_vector_misaligned [OF w meta apart] k by blast
qed

end
