(* ===== verification/SlabProps.thy ===== *)
theory SlabProps
  imports Slab
begin

text \<open>
  Correctness of \<^verbatim>\<open>kmalloc\<close> and \<^verbatim>\<open>kfree\<close>: the invariant of the heap (slabs in
  chains, free slots in chains inside each slab, the slab pointer of every page, and the blocks of the
  buddy allocator below), that initialisation establishes it and every operation keeps it, and the
  contract of an allocator of regions that follows.
\<close>

section \<open>Chains\<close>

fun chain :: "(u64 \<Rightarrow> u64 option) \<Rightarrow> u64 \<Rightarrow> u64 list \<Rightarrow> bool" where
  "chain nx h [] \<longleftrightarrow> h = 0"
| "chain nx h (x # xs) \<longleftrightarrow> h = x \<and> x \<noteq> 0 \<and> (\<exists>y. nx x = Some y \<and> chain nx y xs)"

lemma chain_cong: "(\<And>x. x \<in> set xs \<Longrightarrow> nx x = nx' x) \<Longrightarrow> chain nx h xs = chain nx' h xs"
  by (induction xs arbitrary: h) auto

lemma chain_upd: "a \<notin> set xs \<Longrightarrow> chain (nx(a := v)) h xs = chain nx h xs"
  by (rule chain_cong) auto

text \<open>The slots that \<open>link_slots\<close> visits.\<close>

definition run :: "u64 \<Rightarrow> u64 \<Rightarrow> nat \<Rightarrow> u64 list" where
  "run slot sz n = map (\<lambda>i. slot + of_nat i * sz) [0..<Suc n]"

lemma run_Suc: "run slot sz (Suc n) = slot # run (slot + sz) sz n"
proof -
  have "map (\<lambda>i. slot + of_nat i * sz) [Suc 0..<Suc (Suc n)] = map (\<lambda>i. slot + sz + of_nat i * sz) [0..<Suc n]"
    unfolding map_Suc_upt [symmetric] map_map by (simp add: comp_def algebra_simps)
  then show ?thesis unfolding run_def by (subst upt_conv_Cons) simp_all
qed

lemma link_slots_other: "x \<notin> set (run slot sz n) \<Longrightarrow> link_slots n slot sz m x = m x"
proof (induction n arbitrary: slot m)
  case 0
  then show ?case by (simp add: run_def)
next
  case (Suc n)
  then show ?case using Suc.IH [of "slot + sz"] by (simp add: run_Suc)
qed

lemma link_slots_chain:
  "distinct (run slot sz n) \<Longrightarrow> 0 \<notin> set (run slot sz n) \<Longrightarrow> chain (link_slots n slot sz m) slot (run slot sz n)"
proof (induction n arbitrary: slot m)
  case 0
  then show ?case by (simp add: run_def)
next
  case (Suc n)
  then have "chain (link_slots n (slot + sz) sz (m(slot \<mapsto> slot + sz))) (slot + sz) (run (slot + sz) sz n)"
    by (simp add: run_Suc)
  moreover have "link_slots n (slot + sz) sz (m(slot \<mapsto> slot + sz)) slot = Some (slot + sz)"
    using Suc.prems(1) by (simp add: run_Suc link_slots_other)
  ultimately show ?case using Suc.prems(2) by (simp add: run_Suc)
qed

section \<open>Addresses\<close>

abbreviation SLAB_ORDER :: nat where "SLAB_ORDER \<equiv> 9"

definition slot_at :: "phys_mem_pool \<Rightarrow> nat \<Rightarrow> nat \<Rightarrow> nat \<Rightarrow> u64" where
  "slot_at pool p k i = page_to_virt pool p + of_nat (i * 2 ^ k)"

definition slots :: "phys_mem_pool \<Rightarrow> nat \<Rightarrow> nat \<Rightarrow> u64 set" where
  "slots pool p k = {slot_at pool p k i | i. 1 \<le> i \<and> i * 2 ^ k < 2 ^ 21}"

definition room :: "phys_mem_pool \<Rightarrow> nat \<Rightarrow> bool" where
  "room pool p \<longleftrightarrow> geometry pool \<and> 0 < pfn pool \<and> p + 512 \<le> npages pool"

lemma room_unat: "room pool p \<Longrightarrow> unat (page_to_virt pool p) = 4096 * (pfn pool + p)"
  unfolding room_def by (rule page_addr_unat) linarith+

lemma pool_end: "geometry pool \<Longrightarrow> 4096 * (pfn pool + npages pool) < 2 ^ 64"
  by (auto simp: geometry_def pfn_def npages_def)

lemma slot_unat:
  assumes "room pool p" "i * 2 ^ k < 2 ^ 21"
  shows "unat (slot_at pool p k i) = 4096 * (pfn pool + p) + i * 2 ^ k"
proof -
  have g: "geometry pool" "p < npages pool" using assms(1) by (auto simp: room_def)
  have e: "4096 * (pfn pool + npages pool) < 2 ^ 64" "p + 512 \<le> npages pool"
    using pool_end [OF g(1)] assms(1) by (auto simp: room_def)
  have i: "unat (of_nat (i * 2 ^ k) :: u64) = i * 2 ^ k"
    using assms(2) by (simp only: unat_of_nat) (simp add: take_bit_nat_eq_self)
  have "unat (page_to_virt pool p) + unat (of_nat (i * 2 ^ k) :: u64) < 2 ^ LENGTH(64)"
    unfolding page_addr_unat [OF g] i using e assms(2) by simp
  then have "unat (slot_at pool p k i) = unat (page_to_virt pool p) + unat (of_nat (i * 2 ^ k) :: u64)"
    unfolding slot_at_def by (rule unat_add_lem [THEN iffD1])
  then show ?thesis by (simp only: page_addr_unat [OF g] i)
qed

lemma slot_page:
  assumes "room pool p" "i * 2 ^ k < 2 ^ 21"
  shows "virt_to_page pool (slot_at pool p k i) = p + i * 2 ^ k div 4096"
    "covers (p, SLAB_ORDER) (virt_to_page pool (slot_at pool p k i))"
proof -
  have st: "unat (pool_start_addr pool) = 4096 * pfn pool" using assms(1) by (simp add: room_def geometry_def pfn_def)
  have u: "unat (slot_at pool p k i - pool_start_addr pool) = 4096 * p + i * 2 ^ k"
    using slot_unat [OF assms] st by (subst unat_sub) (simp_all add: word_le_nat_alt)
  show "virt_to_page pool (slot_at pool p k i) = p + i * 2 ^ k div 4096"
    unfolding virt_to_page_def unat_div u by (simp add: buddy_consts)
  then show "covers (p, SLAB_ORDER) (virt_to_page pool (slot_at pool p k i))"
    using assms(2) by (simp add: covers_def)
qed

lemma slot_nonzero:
  assumes "room pool p" "i * 2 ^ k < 2 ^ 21"
  shows "slot_at pool p k i \<noteq> 0"
proof
  assume "slot_at pool p k i = 0"
  then have "4096 * (pfn pool + p) + i * 2 ^ k = 0" using slot_unat [OF assms] by (simp only: unsigned_0)
  then show False using assms(1) by (simp add: room_def)
qed

lemma slot_inj:
  assumes "room pool p" "i * 2 ^ k < 2 ^ 21" "j * 2 ^ k < 2 ^ 21" "slot_at pool p k i = slot_at pool p k j"
  shows "i = j"
proof -
  have "4096 * (pfn pool + p) + i * 2 ^ k = 4096 * (pfn pool + p) + j * 2 ^ k"
    by (simp only: slot_unat [OF assms(1,2), symmetric] slot_unat [OF assms(1,3), symmetric] assms(4))
  then have "i * 2 ^ k = j * 2 ^ k" by linarith
  then show ?thesis by simp
qed

lemma slot_0: "slot_at pool p k 0 = page_to_virt pool p"
  by (simp add: slot_at_def)

lemma slots_page:
  assumes "room pool p" "x \<in> slots pool p k"
  shows "covers (p, SLAB_ORDER) (virt_to_page pool x)" "x \<noteq> 0"
  using assms slot_page(2) slot_nonzero by (auto simp: slots_def)

text \<open>Addresses depend on the pool only through its place.\<close>

definition same_area :: "phys_mem_pool \<Rightarrow> phys_mem_pool \<Rightarrow> bool" where
  "same_area pool pool' \<longleftrightarrow> pool_start_addr pool' = pool_start_addr pool \<and> pool_mem_size pool' = pool_mem_size pool \<and>
     length (page_metadata pool') = length (page_metadata pool)"

lemma same_area_refl [simp]: "same_area pool pool" by (simp add: same_area_def)

lemma same_area_trans: "same_area p q \<Longrightarrow> same_area q r \<Longrightarrow> same_area p r" by (simp add: same_area_def)

lemma same_pool_area: "same_pool pool pool' \<Longrightarrow> same_area pool pool'"
  unfolding same_pool_def same_area_def by (metis length_map)

lemma same_place:
  assumes "same_area pool pool'"
  shows "page_to_virt pool' = page_to_virt pool" "virt_to_page pool' = virt_to_page pool"
    "slot_at pool' = slot_at pool" "slots pool' = slots pool" "room pool' = room pool"
    "npages pool' = npages pool" "pfn pool' = pfn pool" "geometry pool' = geometry pool"
proof -
  have st: "pool_start_addr pool' = pool_start_addr pool" using assms by (simp add: same_area_def)
  show 1: "page_to_virt pool' = page_to_virt pool" "virt_to_page pool' = virt_to_page pool"
    using st by (simp_all add: page_to_virt_def virt_to_page_def fun_eq_iff)
  then show 2: "slot_at pool' = slot_at pool" by (simp add: slot_at_def fun_eq_iff)
  then show "slots pool' = slots pool" by (simp add: slots_def fun_eq_iff)
  show 3: "npages pool' = npages pool" "pfn pool' = pfn pool" "geometry pool' = geometry pool"
    using assms by (simp_all add: same_area_def npages_def pfn_def geometry_def)
  then show "room pool' = room pool" by (simp add: room_def fun_eq_iff)
qed

lemma page_back: "geometry pool \<Longrightarrow> p < npages pool \<Longrightarrow> virt_to_page pool (page_to_virt pool p) = p"
proof -
  assume g: "geometry pool" "p < npages pool"
  have "unat (page_to_virt pool p - pool_start_addr pool) = 4096 * p"
    using page_addr_unat [OF g] g(1) by (subst unat_sub) (simp_all add: word_le_nat_alt geometry_def pfn_def)
  then show ?thesis by (simp add: virt_to_page_def buddy_consts unat_div)
qed

section \<open>Marking the pages of a slab\<close>

lemma set_slabs_spec:
  assumes "geometry pool" "p + n \<le> npages pool"
  shows "\<exists>meta. set_slabs n (page_to_virt pool p) addr pool = Inr (pool\<lparr>page_metadata := meta\<rparr>) \<and>
    length meta = length (page_metadata pool) \<and>
    (\<forall>i. meta ! i = (if p \<le> i \<and> i < p + n then (page_metadata pool ! i)\<lparr>pslab := addr\<rparr> else page_metadata pool ! i))"
  using assms
proof (induction n arbitrary: p pool)
  case 0
  then show ?case by (intro exI [of _ "page_metadata pool"]) auto
next
  case (Suc n)
  let ?m = "(page_metadata pool)[p := (page_metadata pool ! p)\<lparr>pslab := addr\<rparr>]"
  let ?q = "pool\<lparr>page_metadata := ?m\<rparr>"
  have len: "p < length (page_metadata pool)" using Suc.prems by (simp add: geometry_def)
  have a: "same_area pool ?q" by (simp add: same_area_def)
  have e: "page_to_virt pool p + BUDDY_PAGE_SIZE = page_to_virt ?q (Suc p)"
    by (simp add: page_to_virt_def algebra_simps)
  have "virt_to_page pool (page_to_virt pool p) = p" by (rule page_back) (use Suc.prems in simp_all)
  then have step: "set_slabs (Suc n) (page_to_virt pool p) addr pool = set_slabs n (page_to_virt ?q (Suc p)) addr ?q"
    using len by (simp add: set_slab_def upd_page_def e)
  obtain meta where m: "set_slabs n (page_to_virt ?q (Suc p)) addr ?q = Inr (?q\<lparr>page_metadata := meta\<rparr>)"
    "length meta = length ?m"
    "\<forall>i. meta ! i = (if Suc p \<le> i \<and> i < Suc p + n then (?m ! i)\<lparr>pslab := addr\<rparr> else ?m ! i)"
    using Suc.IH [of ?q "Suc p"] Suc.prems same_place(6,8) [OF a] by auto
  show ?case using m len unfolding step by (intro exI [of _ meta]) (auto simp: nth_list_update)
qed

text \<open>The slab pointers do not matter to the buddy allocator.\<close>

lemma buddy_ok_slabs:
  assumes "buddy_ok pool A" "length meta = length (page_metadata pool)"
    and "\<And>i. meta ! i = (page_metadata pool ! i)\<lparr>pslab := v i\<rparr>"
  shows "buddy_ok (pool\<lparr>page_metadata := meta\<rparr>) A"
proof -
  let ?q = "pool\<lparr>page_metadata := meta\<rparr>"
  have "marked meta a S = marked (page_metadata pool) a S" for a S
    using assms(2,3) by (simp add: marked_def)
  moreover have "free_blocks ?q = free_blocks pool" by (simp add: free_blocks_def)
  moreover have "same_area pool ?q" using assms(2) by (simp add: same_area_def)
  note same_place [OF this]
  ultimately show ?thesis using assms(1) by (simp add: buddy_ok_def buddy_inv_def)
qed

section \<open>The invariant\<close>

text \<open>
  \<open>Sl\<close> maps the first page of every slab to the order of its slots, \<open>F p\<close> are the free slots of a slab in
  the order of its chain, \<open>B\<close> are the blocks of pages that the clients hold.
\<close>

definition slab_ok :: "kheap \<Rightarrow> nat \<Rightarrow> nat \<Rightarrow> u64 list \<Rightarrow> bool" where
  "slab_ok s p k fs \<longleftrightarrow> (\<exists>h. hdrs s (page_to_virt (global_mem s) p) = Some h \<and>
     chain (next_free s) (free_list_head h) fs) \<and> distinct fs \<and> set fs \<subseteq> slots (global_mem s) p k"

definition slab_blocks :: "(nat \<Rightarrow> nat option) \<Rightarrow> (nat \<times> nat) set" where
  "slab_blocks Sl = (\<lambda>p. (p, SLAB_ORDER)) ` dom Sl"

definition owned :: "phys_mem_pool \<Rightarrow> (nat \<Rightarrow> nat option) \<Rightarrow> bool" where
  "owned pool Sl \<longleftrightarrow> (\<forall>i < npages pool. pslab (page_metadata pool ! i) =
     (if \<exists>p \<in> dom Sl. covers (p, SLAB_ORDER) i then page_to_virt pool (THE p. p \<in> dom Sl \<and> covers (p, SLAB_ORDER) i) else 0))"

definition heap_mem :: "kheap \<Rightarrow> (nat \<Rightarrow> nat option) \<Rightarrow> (nat \<Rightarrow> u64 list) \<Rightarrow> (nat \<times> nat) set \<Rightarrow> bool" where
  "heap_mem s Sl F B \<longleftrightarrow> buddy_ok (global_mem s) (slab_blocks Sl \<union> B) \<and> slab_blocks Sl \<inter> B = {} \<and>
     0 < pfn (global_mem s) \<and> owned (global_mem s) Sl \<and>
     (\<forall>p k. Sl p = Some k \<longrightarrow> k \<in> {SLAB_MIN_ORDER..SLAB_MAX_ORDER} \<and> slab_ok s p k (F p))"

text \<open>The chain of the slabs of every order that is set up, with the list \<open>C k\<close> of first pages.\<close>

definition chains :: "kheap \<Rightarrow> nat set \<Rightarrow> (nat \<Rightarrow> nat list) \<Rightarrow> (nat \<Rightarrow> nat option) \<Rightarrow> bool" where
  "chains s Os C Sl \<longleftrightarrow> length (slabs s) = Suc SLAB_MAX_ORDER \<and>
     (\<forall>k \<in> Os. C k \<noteq> [] \<and> distinct (C k) \<and> set (C k) = {p. Sl p = Some k} \<and>
        chain (\<lambda>a. map_option next_slab (hdrs s a)) (slabs s ! k) (map (page_to_virt (global_mem s)) (C k)))"

lemma heap_memD:
  assumes "heap_mem s Sl F B" "Sl p = Some k"
  shows "room (global_mem s) p" "SLAB_MIN_ORDER \<le> k" "k \<le> SLAB_MAX_ORDER" "slab_ok s p k (F p)" "(p, SLAB_ORDER) \<in> slab_blocks Sl"
proof -
  show b: "(p, SLAB_ORDER) \<in> slab_blocks Sl" using assms(2) by (auto simp: slab_blocks_def)
  have "buddy_inv (global_mem s) (slab_blocks Sl \<union> B)" using assms(1) by (simp add: heap_mem_def buddy_ok_def)
  from alloc_block_facts(2) [OF this, of p SLAB_ORDER] invD(1) [OF this] b assms(1)
  show "room (global_mem s) p" by (simp add: room_def heap_mem_def)
  show "SLAB_MIN_ORDER \<le> k" "k \<le> SLAB_MAX_ORDER" "slab_ok s p k (F p)" using assms by (auto simp: heap_mem_def)
qed

lemma slab_unique:
  assumes "heap_mem s Sl F B" "p \<in> dom Sl" "q \<in> dom Sl" "covers (p, SLAB_ORDER) i" "covers (q, SLAB_ORDER) i"
  shows "p = q"
proof -
  have "blocks_ok (pfn (global_mem s)) (npages (global_mem s)) (slab_blocks Sl)"
    using assms(1) invD(3) blocks_ok_subset by (fastforce simp: heap_mem_def buddy_ok_def)
  then show ?thesis using assms(2-5) unfolding blocks_ok_def slab_blocks_def by blast
qed

lemma slab_owner:
  assumes "heap_mem s Sl F B" "p \<in> dom Sl" "covers (p, SLAB_ORDER) i"
  shows "pslab (page_metadata (global_mem s) ! i) = page_to_virt (global_mem s) p"
    "i < length (page_metadata (global_mem s))"
proof -
  obtain k where "Sl p = Some k" using assms(2) by auto
  then have r: "room (global_mem s) p" by (rule heap_memD(1) [OF assms(1)])
  then show "i < length (page_metadata (global_mem s))" using assms(3) by (auto simp: room_def geometry_def covers_def)
  have "i < npages (global_mem s)" using r assms(3) by (auto simp: room_def covers_def)
  moreover have "(THE p. p \<in> dom Sl \<and> covers (p, SLAB_ORDER) i) = p"
    using assms slab_unique [OF assms(1)] by (intro the_equality) auto
  ultimately show "pslab (page_metadata (global_mem s) ! i) = page_to_virt (global_mem s) p"
    using assms by (auto simp: heap_mem_def owned_def)
qed

lemma slots_disjoint:
  assumes "heap_mem s Sl F B" "Sl p = Some k" "Sl q = Some j" "x \<in> slots (global_mem s) p k" "x \<in> slots (global_mem s) q j"
  shows "p = q"
proof (rule slab_unique [OF assms(1)])
  show "covers (p, SLAB_ORDER) (virt_to_page (global_mem s) x)"
    by (rule slots_page(1) [OF heap_memD(1) [OF assms(1,2)] assms(4)])
  show "covers (q, SLAB_ORDER) (virt_to_page (global_mem s) x)"
    by (rule slots_page(1) [OF heap_memD(1) [OF assms(1,3)] assms(5)])
qed (use assms(2,3) in auto)

lemma addr_inj:
  assumes "heap_mem s Sl F B" "p \<in> dom Sl" "q \<in> dom Sl" "page_to_virt (global_mem s) p = page_to_virt (global_mem s) q"
  shows "p = q"
proof -
  obtain k j where "Sl p = Some k" "Sl q = Some j" using assms(2,3) by auto
  then have r: "room (global_mem s) p" "room (global_mem s) q" using heap_memD(1) [OF assms(1)] by auto
  have "4096 * (pfn (global_mem s) + p) = 4096 * (pfn (global_mem s) + q)"
    by (simp only: room_unat [OF r(1), symmetric] room_unat [OF r(2), symmetric] assms(4))
  then show ?thesis by simp
qed

section \<open>Taking and returning slots\<close>

lemma slab_ok_cong:
  assumes "same_area (global_mem s) (global_mem s')"
    "hdrs s' (page_to_virt (global_mem s) p) = hdrs s (page_to_virt (global_mem s) p)"
    "\<And>x. x \<in> set fs \<Longrightarrow> next_free s' x = next_free s x"
  shows "slab_ok s' p k fs = slab_ok s p k fs"
  using chain_cong [of fs "next_free s'" "next_free s"] assms(2,3)
  unfolding slab_ok_def same_place [OF assms(1)] by auto

lemma chains_cong:
  assumes "chains s Os C Sl" "same_area (global_mem s) (global_mem s')" "slabs s' = slabs s"
    "\<And>a. map_option next_slab (hdrs s' a) = map_option next_slab (hdrs s a)"
  shows "chains s' Os C Sl"
  using assms(1) unfolding chains_def assms(3,4) same_place [OF assms(2)] .

text \<open>A change of the free slots of one slab.\<close>

lemma heap_mem_slab:
  assumes "heap_mem s Sl F B" "Sl p = Some k" "slab_ok s' p k fs" "global_mem s' = global_mem s"
    "\<And>a. a \<noteq> page_to_virt (global_mem s) p \<Longrightarrow> hdrs s' a = hdrs s a"
    "\<And>x. x \<notin> slots (global_mem s) p k \<Longrightarrow> next_free s' x = next_free s x"
  shows "heap_mem s' Sl (F(p := fs)) B"
proof -
  have "slab_ok s' q j ((F(p := fs)) q)" if q: "Sl q = Some j" for q j
  proof (cases "q = p")
    case True
    then show ?thesis using assms(2,3) q by simp
  next
    case False
    have "page_to_virt (global_mem s) q \<noteq> page_to_virt (global_mem s) p"
      using addr_inj [OF assms(1), of q p] False q assms(2) by auto
    moreover have "set (F q) \<subseteq> slots (global_mem s) q j" using heap_memD(4) [OF assms(1) q] by (simp add: slab_ok_def)
    then have "x \<notin> slots (global_mem s) p k" if "x \<in> set (F q)" for x
      using slots_disjoint [OF assms(1) q assms(2), of x] that False by blast
    ultimately have "slab_ok s' q j (F q) = slab_ok s q j (F q)"
      using assms(4-6) by (intro slab_ok_cong) auto
    then show ?thesis using heap_memD(4) [OF assms(1) q] False by simp
  qed
  then show ?thesis using assms(1,4) by (auto simp: heap_mem_def)
qed

definition objs :: "kheap \<Rightarrow> (nat \<Rightarrow> nat option) \<Rightarrow> (nat \<Rightarrow> u64 list) \<Rightarrow> (u64 \<times> nat) set" where
  "objs s Sl F = {(x, k). \<exists>p. Sl p = Some k \<and> x \<in> slots (global_mem s) p k - set (F p)}"

lemma objs_upd:
  assumes "Sl p = Some k" "global_mem s' = global_mem s"
    "set (F p) = insert x (set fs)" "x \<notin> set fs" "x \<in> slots (global_mem s) p k"
  shows "objs s' Sl (F(p := fs)) = insert (x, k) (objs s Sl F)"
proof (intro equalityI subrelI)
  fix z j assume "(z, j) \<in> objs s' Sl (F(p := fs))"
  then obtain q where "Sl q = Some j" "z \<in> slots (global_mem s) q j" "z \<notin> set ((F(p := fs)) q)"
    using assms(2) by (auto simp: objs_def)
  then show "(z, j) \<in> insert (x, k) (objs s Sl F)"
    using assms(1,3) by (cases "q = p") (auto simp: objs_def)
next
  fix z j assume "(z, j) \<in> insert (x, k) (objs s Sl F)"
  then consider "z = x" "j = k" | q where "Sl q = Some j" "z \<in> slots (global_mem s) q j" "z \<notin> set (F q)"
    by (auto simp: objs_def)
  then show "(z, j) \<in> objs s' Sl (F(p := fs))"
  proof cases
    case 1
    then show ?thesis using assms by (auto simp: objs_def)
  next
    case (2 q)
    then have "z \<notin> set ((F(p := fs)) q)" using assms(3) by (cases "q = p") auto
    then show ?thesis using 2 assms(2) unfolding objs_def by auto
  qed
qed

lemma pop_slot_empty:
  assumes "heap_mem s Sl F B" "Sl p = Some k" "F p = []"
  shows "pop_slot (page_to_virt (global_mem s) p) s = Inr (None, s)"
  using heap_memD(4) [OF assms(1,2)] assms(3) by (auto simp: slab_ok_def pop_slot_def)

lemma pop_slot_first:
  assumes hm: "heap_mem s Sl F B" and p: "Sl p = Some k" and f: "F p = x # xs"
  shows "\<exists>s'. pop_slot (page_to_virt (global_mem s) p) s = Inr (Some x, s') \<and> heap_mem s' Sl (F(p := xs)) B \<and>
    global_mem s' = global_mem s \<and> (\<forall>Os C. chains s Os C Sl \<longrightarrow> chains s' Os C Sl) \<and>
    (x, k) \<notin> objs s Sl F \<and> objs s' Sl (F(p := xs)) = insert (x, k) (objs s Sl F)"
proof -
  let ?a = "page_to_virt (global_mem s) p"
  obtain h y where h: "hdrs s ?a = Some h" "free_list_head h = x" "x \<noteq> 0" "next_free s x = Some y"
      "chain (next_free s) y xs" and d: "distinct (x # xs)" "set (x # xs) \<subseteq> slots (global_mem s) p k"
    using heap_memD(4) [OF hm p] f by (auto simp: slab_ok_def)
  let ?s = "s\<lparr>hdrs := (hdrs s)(?a \<mapsto> h\<lparr>free_list_head := y\<rparr>)\<rparr>"
  have 1: "pop_slot ?a s = Inr (Some x, ?s)" using h by (simp add: pop_slot_def)
  have 2: "heap_mem ?s Sl (F(p := xs)) B"
    by (rule heap_mem_slab [OF hm p]) (use h(5) d in \<open>auto simp: slab_ok_def\<close>)
  have 3: "chains ?s Os C Sl" if "chains s Os C Sl" for Os C
    by (rule chains_cong [OF that]) (auto simp: h(1))
  have only: "q = p" if "Sl q = Some j" "x \<in> slots (global_mem s) q j" for q j
    using slots_disjoint [OF hm that(1) p that(2)] d(2) by simp
  have 4: "(x, k) \<notin> objs s Sl F" using only f by (auto simp: objs_def)
  have "objs ?s Sl (F(p := xs)) = insert (x, k) (objs s Sl F)"
    by (rule objs_upd) (use p f d in auto)
  then show ?thesis using 1 2 3 4 by (intro exI [of _ ?s]) simp
qed

lemma free_slot_spec:
  assumes hm: "heap_mem s Sl F B" and x: "(x, k) \<in> objs s Sl F"
  shows "\<exists>p s'. Sl p = Some k \<and> x \<in> slots (global_mem s) p k \<and> free_in_slab x s = Inr s' \<and>
    heap_mem s' Sl (F(p := x # F p)) B \<and> global_mem s' = global_mem s \<and>
    (\<forall>Os C. chains s Os C Sl \<longrightarrow> chains s' Os C Sl) \<and> objs s' Sl (F(p := x # F p)) = objs s Sl F - {(x, k)}"
proof -
  obtain p where p: "Sl p = Some k" and x: "x \<in> slots (global_mem s) p k" "x \<notin> set (F p)"
    using x by (auto simp: objs_def)
  let ?a = "page_to_virt (global_mem s) p"
  obtain h where h: "hdrs s ?a = Some h" "chain (next_free s) (free_list_head h) (F p)"
      and d: "distinct (F p)" "set (F p) \<subseteq> slots (global_mem s) p k"
    using heap_memD(4) [OF hm p] by (auto simp: slab_ok_def)
  have pg: "covers (p, SLAB_ORDER) (virt_to_page (global_mem s) x)" "x \<noteq> 0"
    by (rule slots_page [OF heap_memD(1) [OF hm p] x(1)])+
  have dp: "p \<in> dom Sl" using p by auto
  let ?s = "s\<lparr>next_free := (next_free s)(x \<mapsto> free_list_head h), hdrs := (hdrs s)(?a \<mapsto> h\<lparr>free_list_head := x\<rparr>)\<rparr>"
  have 1: "free_in_slab x s = Inr ?s"
    using slab_owner [OF hm dp pg(1)] h(1) by (simp add: free_in_slab_def)
  have "slab_ok ?s p k (x # F p)"
    using h d x pg(2) chain_upd [OF x(2)] by (simp add: slab_ok_def)
  then have 2: "heap_mem ?s Sl (F(p := x # F p)) B"
    by (rule heap_mem_slab [OF hm p]) (use x(1) in auto)
  have 3: "chains ?s Os C Sl" if "chains s Os C Sl" for Os C
    by (rule chains_cong [OF that]) (auto simp: h(1))
  have "objs s Sl ((F(p := x # F p))(p := F p)) = insert (x, k) (objs ?s Sl (F(p := x # F p)))"
    by (rule objs_upd) (use p x in auto)
  moreover have "(x, k) \<notin> objs ?s Sl (F(p := x # F p))"
  proof
    assume "(x, k) \<in> objs ?s Sl (F(p := x # F p))"
    then obtain q where q: "Sl q = Some k" "x \<in> slots (global_mem s) q k" "x \<notin> set ((F(p := x # F p)) q)"
      by (auto simp: objs_def)
    then have "q = p" using slots_disjoint [OF hm q(1) p q(2) x(1)] by simp
    then show False using q(3) by simp
  qed
  ultimately have "objs ?s Sl (F(p := x # F p)) = objs s Sl F - {(x, k)}" by auto
  then show ?thesis using 1 2 3 p x(1) by (intro exI [of _ p] exI [of _ ?s]) simp
qed

text \<open>The walk finds the first slab with a free slot.\<close>

lemma scan_slabs_spec:
  assumes hm: "heap_mem s Sl F B"
  shows "chain (\<lambda>a. map_option next_slab (hdrs s a)) h (map (page_to_virt (global_mem s)) ps) \<Longrightarrow>
    \<forall>p \<in> set ps. Sl p = Some k \<Longrightarrow> length ps < fuel \<Longrightarrow>
    (\<forall>p \<in> set ps. F p = []) \<and> scan_slabs fuel h s = Inr (None, s) \<or>
    (\<exists>p s' x. Sl p = Some k \<and> F p \<noteq> [] \<and> pop_slot (page_to_virt (global_mem s) p) s = Inr (Some x, s') \<and>
       scan_slabs fuel h s = Inr (Some x, s'))"
proof (induction ps arbitrary: h fuel)
  case Nil
  then obtain f where "fuel = Suc f" by (cases fuel) auto
  then show ?case using Nil by simp
next
  case (Cons p ps)
  let ?a = "page_to_virt (global_mem s)"
  obtain f where f: "fuel = Suc f" "length ps < f" using Cons.prems(3) by (cases fuel) auto
  have p: "Sl p = Some k" using Cons.prems(2) by simp
  obtain hd where h: "h = ?a p" "h \<noteq> 0" "hdrs s h = Some hd"
    "chain (\<lambda>a. map_option next_slab (hdrs s a)) (next_slab hd) (map ?a ps)"
    using Cons.prems(1) by auto
  show ?case
  proof (cases "F p")
    case Nil
    have "scan_slabs fuel h s = scan_slabs f (next_slab hd) s"
      using h f(1) pop_slot_empty [OF hm p Nil] by simp
    moreover have "\<forall>p \<in> set ps. Sl p = Some k" using Cons.prems(2) by simp
    ultimately show ?thesis using Cons.IH [OF h(4) _ f(2)] Nil by auto
  next
    case (Cons x xs)
    obtain s' where s': "pop_slot (?a p) s = Inr (Some x, s')"
      using pop_slot_first [OF hm p Cons] by blast
    then have "scan_slabs fuel h s = Inr (Some x, s')" using h f(1) by simp
    then show ?thesis using s' p Cons by (intro disjI2 exI [of _ p] exI [of _ s'] exI [of _ x]) simp
  qed
qed

section \<open>New slabs\<close>

lemma slab_size_order: "size_to_order (SLAB_INIT_SIZE div BUDDY_PAGE_SIZE) = 9"
  by code_simp

lemma alloc_slab_memory_spec:
  assumes ok: "buddy_ok (global_mem s) A"
  shows "(alloc_slab_memory SLAB_INIT_SIZE s = Inl BUG \<and> (\<forall>(p, m) \<in> free_blocks (global_mem s). m < SLAB_ORDER)) \<or>
    (\<exists>p pool. alloc_slab_memory SLAB_INIT_SIZE s = Inr (page_to_virt (global_mem s) p, s\<lparr>global_mem := pool\<rparr>) \<and>
       (p, SLAB_ORDER) \<notin> A \<and> buddy_ok pool (insert (p, SLAB_ORDER) A) \<and> same_area (global_mem s) pool \<and>
       (\<forall>i < length (page_metadata pool). pslab (page_metadata pool ! i) = (if covers (p, SLAB_ORDER) i
          then page_to_virt (global_mem s) p else pslab (page_metadata (global_mem s) ! i))))"
proof -
  let ?g = "global_mem s"
  have k: "unat (of_nat 9 :: u64) < BUDDY_MAX_ORDER" by (simp add: buddy_consts)
  have o9: "unat (order_to_size 9) = 512" by code_simp
  obtain r pool' where r: "buddy_get_pages ?g (of_nat 9) = Inr (r, pool')"
    "case r of None \<Rightarrow> pool' = ?g \<and> (\<forall>(p, m) \<in> free_blocks ?g. m < 9)
     | Some p \<Rightarrow> (p, 9) \<notin> A \<and> buddy_ok pool' (insert (p, 9) A) \<and> same_pool ?g pool'"
    using buddy_get_ok [OF ok k] by (fastforce split: option.splits)
  show ?thesis
  proof (cases r)
    case None
    then show ?thesis using r by (simp add: alloc_slab_memory_def slab_size_order)
  next
    case (Some p)
    have p: "(p, 9) \<notin> A" "buddy_ok pool' (insert (p, 9) A)" "same_pool ?g pool'" using r(2) Some by auto
    note a = same_pool_area [OF p(3)]
    have inv: "buddy_inv pool' (insert (p, 9) A)" using p(2) by (simp add: buddy_ok_def)
    have "geometry pool'" "p + 512 \<le> npages pool'"
      using invD(1) [OF inv] alloc_block_facts(2) [OF inv, of p 9] by simp_all
    from set_slabs_spec [OF this, of "page_to_virt pool' p"]
    obtain meta where m: "set_slabs 512 (page_to_virt pool' p) (page_to_virt pool' p) pool' = Inr (pool'\<lparr>page_metadata := meta\<rparr>)"
      "length meta = length (page_metadata pool')"
      "\<forall>i. meta ! i = (if p \<le> i \<and> i < p + 512 then (page_metadata pool' ! i)\<lparr>pslab := page_to_virt pool' p\<rparr> else page_metadata pool' ! i)"
      by blast
    let ?pool = "pool'\<lparr>page_metadata := meta\<rparr>"
    have "buddy_ok ?pool (insert (p, 9) A)"
      by (rule buddy_ok_slabs [OF p(2) m(2), where v = "\<lambda>i. if p \<le> i \<and> i < p + 512 then page_to_virt pool' p else pslab (page_metadata pool' ! i)"])
        (simp add: m(3))
    moreover have "same_area ?g ?pool" using a m(2) by (simp add: same_area_def)
    moreover have "pslab (page_metadata pool' ! i) = pslab (page_metadata ?g ! i)" if "i < length (page_metadata pool')" for i
      by (rule same_pool_pslab [OF p(3) that])
    moreover have "alloc_slab_memory SLAB_INIT_SIZE s = Inr (page_to_virt ?g p, s\<lparr>global_mem := ?pool\<rparr>)"
      using r(1) Some m(1) by (simp add: alloc_slab_memory_def slab_size_order o9 same_place(1) [OF a])
    ultimately show ?thesis using p(1) m(2,3) unfolding same_place(1) [OF a]
      by (intro disjI2 exI [of _ p] exI [of _ ?pool]) (simp add: covers_def)
  qed
qed

lemma slot_range:
  fixes i :: nat
  assumes "k \<le> 21"
  shows "i * 2 ^ k < 2 ^ 21 \<longleftrightarrow> i < 2 ^ (21 - k)"
proof -
  have "(2 :: nat) ^ 21 = 2 ^ (21 - k) * 2 ^ k" using assms by (simp flip: power_add)
  then have "i * 2 ^ k < 2 ^ 21 \<longleftrightarrow> i * 2 ^ k < 2 ^ (21 - k) * 2 ^ k" by (simp only:)
  then show ?thesis by (simp only: mult_less_cancel2) simp
qed

lemma orders: "SLAB_MIN_ORDER \<le> k \<Longrightarrow> k \<le> SLAB_MAX_ORDER \<Longrightarrow> k \<in> {5, 6, 7, 8, 9, 10, 11}"
  by (auto simp: slab_consts)

lemma slot_count:
  assumes "SLAB_MIN_ORDER \<le> k" "k \<le> SLAB_MAX_ORDER"
  shows "Suc (unat (SLAB_INIT_SIZE div order_to_size k - 1 - 1)) = 2 ^ (21 - k) - 1" "(2 :: nat) < 2 ^ (21 - k)"
  using orders [OF assms] by (auto simp: slab_consts order_to_size_def)

lemma slot_run:
  assumes "room pool p" "SLAB_MIN_ORDER \<le> k" "k \<le> SLAB_MAX_ORDER"
  defines "r \<equiv> run (page_to_virt pool p + order_to_size k) (order_to_size k) (unat (SLAB_INIT_SIZE div order_to_size k - 1 - 1))"
  shows "set r = slots pool p k" "distinct r" "0 \<notin> set r" "r \<noteq> []"
proof -
  have k: "k \<le> 21" using assms(3) by (simp add: slab_consts)
  have "order_to_size k = of_nat (2 ^ k)" by (simp add: order_to_size_def push_bit_eq_mult)
  then have "page_to_virt pool p + order_to_size k + of_nat i * order_to_size k = slot_at pool p k (Suc i)" for i
    by (simp add: slot_at_def algebra_simps)
  moreover have "[Suc 0..<2 ^ (21 - k)] = map Suc [0..<2 ^ (21 - k) - 1]"
    using slot_count(2) [OF assms(2,3)] map_Suc_upt [of 0 "2 ^ (21 - k) - 1"] by simp
  ultimately have r: "r = map (slot_at pool p k) [Suc 0..<2 ^ (21 - k)]"
    unfolding r_def run_def slot_count(1) [OF assms(2,3)] by (simp add: comp_def)
  show "set r = slots pool p k" unfolding r slots_def slot_range [OF k] by (auto simp: Suc_le_eq)
  have "inj_on (slot_at pool p k) (set [Suc 0..<2 ^ (21 - k)])"
    by (intro inj_onI slot_inj [OF assms(1)]) (auto simp: slot_range [OF k, simplified])
  then show "distinct r" unfolding r distinct_map by simp
  show "0 \<notin> set r" unfolding r using slot_nonzero [OF assms(1)] by (force simp: slot_range [OF k, simplified])
  show "r \<noteq> []" unfolding r using slot_count(2) [OF assms(2,3)] by simp
qed

text \<open>The owners of the pages after a new slab.\<close>

lemma owned_new:
  assumes hm: "heap_mem s Sl F B" and ok: "buddy_ok pool (insert (p, SLAB_ORDER) (slab_blocks Sl \<union> B))"
    and p: "(p, SLAB_ORDER) \<notin> slab_blocks Sl" and a: "same_area (global_mem s) pool"
    and ps: "\<forall>i < length (page_metadata pool). pslab (page_metadata pool ! i) = (if covers (p, SLAB_ORDER) i
          then page_to_virt (global_mem s) p else pslab (page_metadata (global_mem s) ! i))"
  shows "owned pool (Sl(p \<mapsto> k))"
  unfolding owned_def
proof (intro allI impI)
  fix i assume i: "i < npages pool"
  have inv: "buddy_inv pool (insert (p, SLAB_ORDER) (slab_blocks Sl \<union> B))" using ok by (simp add: buddy_ok_def)
  have "i < length (page_metadata pool)" using invD(1) [OF inv] i by (simp add: geometry_def)
  note psi = ps [rule_format, OF this]
  have one: "q = p" if "covers (p, SLAB_ORDER) i" "covers (q, SLAB_ORDER) i" "q \<in> insert p (dom Sl)" for q
    using invD(3) [OF inv] that unfolding blocks_ok_def slab_blocks_def by blast
  show "pslab (page_metadata pool ! i) = (if \<exists>q \<in> dom (Sl(p \<mapsto> k)). covers (q, SLAB_ORDER) i
      then page_to_virt pool (THE q. q \<in> dom (Sl(p \<mapsto> k)) \<and> covers (q, SLAB_ORDER) i) else 0)"
  proof (cases "covers (p, SLAB_ORDER) i")
    case True
    then have "(THE q. q \<in> dom (Sl(p \<mapsto> k)) \<and> covers (q, SLAB_ORDER) i) = p"
      using one by (intro the_equality) auto
    then show ?thesis using True psi by (simp add: same_place(1) [OF a])
  next
    case False
    then have "(q \<in> dom (Sl(p \<mapsto> k)) \<and> covers (q, SLAB_ORDER) i) = (q \<in> dom Sl \<and> covers (q, SLAB_ORDER) i)" for q
      by auto
    moreover from this have "(\<exists>q \<in> dom (Sl(p \<mapsto> k)). covers (q, SLAB_ORDER) i) = (\<exists>q \<in> dom Sl. covers (q, SLAB_ORDER) i)"
      by blast
    ultimately show ?thesis using False psi hm i unfolding same_place [OF a] heap_mem_def owned_def by simp
  qed
qed

lemma init_slab_cache_spec:
  assumes hm: "heap_mem s Sl F B" and k: "SLAB_MIN_ORDER \<le> k" "k \<le> SLAB_MAX_ORDER"
  shows "(init_slab_cache k SLAB_INIT_SIZE s = Inl BUG \<and> (\<forall>(p, m) \<in> free_blocks (global_mem s). m < SLAB_ORDER)) \<or>
    (\<exists>p fs s' h. init_slab_cache k SLAB_INIT_SIZE s = Inr (page_to_virt (global_mem s) p, s') \<and> Sl p = None \<and>
       heap_mem s' (Sl(p \<mapsto> k)) (F(p := fs)) B \<and> same_area (global_mem s) (global_mem s') \<and>
       fs \<noteq> [] \<and> set fs = slots (global_mem s) p k \<and> slabs s' = slabs s \<and>
       hdrs s' = (hdrs s)(page_to_virt (global_mem s) p \<mapsto> h) \<and> next_slab h = 0 \<and> page_to_virt (global_mem s) p \<noteq> 0)"
proof -
  let ?A = "slab_blocks Sl \<union> B" and ?g = "global_mem s"
  have ok: "buddy_ok ?g ?A" using hm by (simp add: heap_mem_def)
  from alloc_slab_memory_spec [OF ok] show ?thesis
  proof (elim disjE conjE exE)
    assume "alloc_slab_memory SLAB_INIT_SIZE s = Inl BUG" "\<forall>(p, m) \<in> free_blocks (global_mem s). m < SLAB_ORDER"
    then show ?thesis by (simp add: init_slab_cache_def)
  next
    fix p pool
    assume al: "alloc_slab_memory SLAB_INIT_SIZE s = Inr (page_to_virt ?g p, s\<lparr>global_mem := pool\<rparr>)"
      and p: "(p, SLAB_ORDER) \<notin> ?A" and ok': "buddy_ok pool (insert (p, SLAB_ORDER) ?A)"
      and a: "same_area ?g pool"
      and ps: "\<forall>i < length (page_metadata pool). pslab (page_metadata pool ! i) = (if covers (p, SLAB_ORDER) i
          then page_to_virt ?g p else pslab (page_metadata ?g ! i))"
    note pl = same_place [OF a]
    let ?v = "page_to_virt ?g p" and ?o = "order_to_size k"
    define n where "n = unat (SLAB_INIT_SIZE div ?o - 1 - 1)"
    define fs where "fs = run (?v + ?o) ?o n"
    define h where "h = \<lparr>free_list_head = ?v + ?o, next_slab = 0, sl_order = k\<rparr>"
    define s' where "s' = s\<lparr>global_mem := pool, hdrs := (hdrs s)(?v \<mapsto> h), next_free := link_slots n (?v + ?o) ?o (next_free s)\<rparr>"
    have 1: "init_slab_cache k SLAB_INIT_SIZE s = Inr (?v, s')"
      by (simp add: init_slab_cache_def al s'_def h_def Let_def n_def)
    have np: "Sl p = None" using p by (auto simp: slab_blocks_def dom_def)
    have inv: "buddy_inv pool (insert (p, SLAB_ORDER) ?A)" using ok' by (simp add: buddy_ok_def)
    have rm: "room ?g p"
      using alloc_block_facts(2) [OF inv, of p SLAB_ORDER] invD(1) [OF inv] hm
      by (simp add: room_def pl heap_mem_def)
    note r = slot_run [OF rm k, folded n_def, folded fs_def]
    have ch: "chain (next_free s') (?v + ?o) fs"
      using link_slots_chain [OF r(2,3) [unfolded fs_def], of "next_free s"] by (simp add: s'_def fs_def)
    have sl: "slab_ok s' p k fs"
      unfolding slab_ok_def using ch r by (simp add: s'_def h_def pl)
    have sb: "slab_blocks (Sl(p \<mapsto> k)) = insert (p, SLAB_ORDER) (slab_blocks Sl)" by (simp add: slab_blocks_def)
    have apart: "\<not> (covers (p, SLAB_ORDER) i \<and> covers (q, SLAB_ORDER) i)" if "Sl q = Some j" for q j i
    proof
      assume "covers (p, SLAB_ORDER) i \<and> covers (q, SLAB_ORDER) i"
      moreover have "(q, SLAB_ORDER) \<in> insert (p, SLAB_ORDER) ?A" using that by (auto simp: slab_blocks_def)
      ultimately have "(p, SLAB_ORDER) = (q, SLAB_ORDER)" using invD(3) [OF inv] unfolding blocks_ok_def by blast
      then show False using that np by simp
    qed
    have old: "slab_ok s' q j (F q)" if q: "Sl q = Some j" for q j
    proof -
      note m = heap_memD [OF hm q]
      have "page_to_virt ?g q \<noteq> ?v"
      proof
        assume "page_to_virt ?g q = ?v"
        then have "4096 * (pfn ?g + q) = 4096 * (pfn ?g + p)" by (simp only: room_unat [OF m(1), symmetric] room_unat [OF rm, symmetric])
        then show False using q np by simp
      qed
      moreover have "next_free s' x = next_free s x" if "x \<in> set (F q)" for x
      proof -
        have "x \<in> slots ?g q j" using m(4) that by (auto simp: slab_ok_def)
        then have "x \<notin> slots ?g p k" using slots_page(1) [OF m(1)] slots_page(1) [OF rm] apart [OF q] by blast
        then have "x \<notin> set (run (?v + ?o) ?o n)" using r(1) by (simp add: fs_def)
        then show ?thesis by (simp add: s'_def link_slots_other)
      qed
      ultimately show ?thesis using m(4) a by (subst slab_ok_cong [where s = s]) (simp_all add: s'_def)
    qed
    have "heap_mem s' (Sl(p \<mapsto> k)) (F(p := fs)) B"
      unfolding heap_mem_def
    proof (intro conjI allI impI)
      show "buddy_ok (global_mem s') (slab_blocks (Sl(p \<mapsto> k)) \<union> B)" using ok' by (simp add: s'_def sb)
      show "slab_blocks (Sl(p \<mapsto> k)) \<inter> B = {}" using hm p by (simp add: sb heap_mem_def)
      show "0 < pfn (global_mem s')" using hm by (simp add: s'_def pl heap_mem_def)
      show "owned (global_mem s') (Sl(p \<mapsto> k))" using owned_new [OF hm ok' _ a ps] p by (simp add: s'_def)
      fix q j assume q: "(Sl(p \<mapsto> k)) q = Some j"
      show "j \<in> {SLAB_MIN_ORDER..SLAB_MAX_ORDER}" using q k heap_memD(2,3) [OF hm, of q j] by (auto split: if_splits)
      show "slab_ok s' q j ((F(p := fs)) q)" using q sl old [of q j] by (auto split: if_splits)
    qed
    moreover have "?v \<noteq> 0" using slot_nonzero [OF rm, of 0 k] by (simp add: slot_0)
    ultimately show ?thesis using 1 np a r
      by (intro disjI2 exI [of _ p] exI [of _ fs] exI [of _ s'] exI [of _ h]) (simp add: s'_def h_def)
  qed
qed

abbreviation nexts :: "kheap \<Rightarrow> u64 \<Rightarrow> u64 option" where
  "nexts s \<equiv> \<lambda>a. map_option next_slab (hdrs s a)"

text \<open>A new slab in front of the chain of its order.\<close>

lemma chains_push:
  assumes ch: "chains s Os C Sl" and hm': "heap_mem s' (Sl(p \<mapsto> k)) F B" and p: "Sl p = None"
    and a: "same_area (global_mem s) (global_mem s')" and v: "v = page_to_virt (global_mem s) p"
    and hd: "hdrs s' = (hdrs s)(v \<mapsto> h)" and sl: "slabs s' = (slabs s)[k := v]" and nz: "v \<noteq> 0"
    and ps: "distinct ps" "set ps = {q. Sl q = Some k}" "chain (nexts s) (next_slab h) (map (page_to_virt (global_mem s)) ps)"
  shows "chains s' (insert k Os) (C(k := p # ps)) (Sl(p \<mapsto> k))"
  unfolding chains_def
proof (intro conjI ballI)
  let ?a = "page_to_virt (global_mem s)"
  have kl: "k < length (slabs s)" using heap_memD(3) [OF hm', of p k] ch by (simp add: chains_def)
  show "length (slabs s') = Suc SLAB_MAX_ORDER" using ch sl by (simp add: chains_def)
  have keep: "chain (nexts s') x (map ?a qs) = chain (nexts s) x (map ?a qs)" if qs: "set qs \<subseteq> dom Sl" for x qs
  proof (rule chain_cong)
    fix y assume "y \<in> set (map ?a qs)"
    then have "y \<in> ?a ` set qs" by simp
    then obtain q where "y = ?a q" "q \<in> set qs" by (rule imageE)
    with qs have q: "q \<in> dom Sl" "y = ?a q" by (simp_all add: subset_iff)
    have "?a q \<noteq> ?a p"
      using addr_inj [OF hm', of q p] q(1) p by (auto simp: same_place(1) [OF a])
    then show "nexts s' y = nexts s y" using q(2) hd v by simp
  qed
  have psd: "set ps \<subseteq> dom Sl" using ps(2) by auto
  fix j assume j: "j \<in> insert k Os"
  show "(C(k := p # ps)) j \<noteq> []" using ch j by (auto simp: chains_def)
  show "distinct ((C(k := p # ps)) j)" using ch j ps(1,2) p by (auto simp: chains_def)
  show "set ((C(k := p # ps)) j) = {q. (Sl(p \<mapsto> k)) q = Some j}"
    using ch j ps(2) p by (auto simp: chains_def)
  show "chain (nexts s') (slabs s' ! j) (map (page_to_virt (global_mem s')) ((C(k := p # ps)) j))"
  proof (cases "j = k")
    case True
    then show ?thesis using ps(3) keep [OF psd] hd sl nz v kl by (simp add: same_place(1) [OF a])
  next
    case False
    then have o: "chain (nexts s) (slabs s ! j) (map ?a (C j))" "set (C j) = {q. Sl q = Some j}" using ch j by (auto simp: chains_def)
    then have "set (C j) \<subseteq> dom Sl" by auto
    then show ?thesis using o(1) keep False sl by (simp add: same_place(1) [OF a])
  qed
qed

lemma objs_new:
  assumes "same_area (global_mem s) (global_mem s')" "Sl p = None" "set fs = slots (global_mem s) p k"
  shows "objs s' (Sl(p \<mapsto> k)) (F(p := fs)) = objs s Sl F"
proof (intro equalityI subrelI)
  fix z j assume "(z, j) \<in> objs s' (Sl(p \<mapsto> k)) (F(p := fs))"
  then obtain q where "(Sl(p \<mapsto> k)) q = Some j" "z \<in> slots (global_mem s) q j" "z \<notin> set ((F(p := fs)) q)"
    using same_place(4) [OF assms(1)] by (auto simp: objs_def)
  then show "(z, j) \<in> objs s Sl F" using assms(3) by (cases "q = p") (auto simp: objs_def)
next
  fix z j assume "(z, j) \<in> objs s Sl F"
  then obtain q where "Sl q = Some j" "z \<in> slots (global_mem s) q j" "z \<notin> set (F q)" by (auto simp: objs_def)
  moreover from this assms(2) have "q \<noteq> p" by auto
  ultimately have "(Sl(p \<mapsto> k)) q = Some j" "z \<in> slots (global_mem s') q j" "z \<notin> set ((F(p := fs)) q)"
    using same_place(4) [OF assms(1)] by simp_all
  then show "(z, j) \<in> objs s' (Sl(p \<mapsto> k)) (F(p := fs))" unfolding objs_def by blast
qed

section \<open>Allocation of an object\<close>

definition heap_all :: "kheap \<Rightarrow> (nat \<Rightarrow> nat option) \<Rightarrow> (nat \<Rightarrow> u64 list) \<Rightarrow> (nat \<Rightarrow> nat list) \<Rightarrow> (nat \<times> nat) set \<Rightarrow> bool" where
  "heap_all s Sl F C B \<longleftrightarrow> heap_mem s Sl F B \<and> chains s {SLAB_MIN_ORDER..SLAB_MAX_ORDER} C Sl"

text \<open>The outcome of taking an object of order \<open>k\<close>.\<close>

definition took :: "nat \<Rightarrow> kheap \<Rightarrow> (nat \<Rightarrow> nat option) \<Rightarrow> (nat \<Rightarrow> u64 list) \<Rightarrow> (nat \<times> nat) set \<Rightarrow> u64 \<Rightarrow> kheap \<Rightarrow> bool" where
  "took k s Sl F B x s' \<longleftrightarrow> (\<exists>Sl' F' C'. heap_all s' Sl' F' C' B \<and> (x, k) \<notin> objs s Sl F \<and>
     objs s' Sl' F' = insert (x, k) (objs s Sl F) \<and> same_area (global_mem s) (global_mem s'))"

lemma took_pop:
  assumes h: "heap_all s Sl F C B" and p: "Sl p = Some k" "F p \<noteq> []"
  shows "\<exists>x s'. pop_slot (page_to_virt (global_mem s) p) s = Inr (Some x, s') \<and> took k s Sl F B x s'"
proof -
  obtain x xs where f: "F p = x # xs" using p(2) by (cases "F p") auto
  from h have "heap_mem s Sl F B" by (simp add: heap_all_def)
  from pop_slot_first [OF this, of p k x xs] p(1) f h show ?thesis
    unfolding took_def heap_all_def by (metis same_area_refl)
qed

lemma few_slabs:
  assumes "heap_all s Sl F C B" "SLAB_MIN_ORDER \<le> k" "k \<le> SLAB_MAX_ORDER"
  shows "length (C k) \<le> npages (global_mem s)"
proof -
  have c: "distinct (C k)" "set (C k) = {p. Sl p = Some k}" using assms by (auto simp: heap_all_def chains_def)
  have "p < npages (global_mem s)" if "Sl p = Some k" for p
    using heap_memD(1) [of s Sl F B p k] assms(1) that by (simp add: heap_all_def room_def)
  then have "set (C k) \<subseteq> {..<npages (global_mem s)}" using c(2) by auto
  then show ?thesis using card_mono [of "{..<npages (global_mem s)}" "set (C k)"] distinct_card [OF c(1)] by simp
qed

lemma new_slab_spec:
  assumes h: "heap_all s Sl F C B" and k: "SLAB_MIN_ORDER \<le> k" "k \<le> SLAB_MAX_ORDER"
    and i: "init_slab_cache k SLAB_INIT_SIZE s = Inr (v, s1)"
  shows "\<exists>hd x s3. hdrs s1 v = Some hd \<and> length (slabs s1) = Suc SLAB_MAX_ORDER \<and>
    pop_slot v (s1\<lparr>hdrs := (hdrs s1)(v \<mapsto> hd\<lparr>next_slab := slabs s ! k\<rparr>), slabs := (slabs s1)[k := v]\<rparr>) = Inr (Some x, s3) \<and>
    took k s Sl F B x s3"
proof -
  have hm: "heap_mem s Sl F B" and ch: "chains s {SLAB_MIN_ORDER..SLAB_MAX_ORDER} C Sl" using h by (simp_all add: heap_all_def)
  obtain p fs hd where c: "v = page_to_virt (global_mem s) p" "Sl p = None"
    "heap_mem s1 (Sl(p \<mapsto> k)) (F(p := fs)) B" "same_area (global_mem s) (global_mem s1)"
    "fs \<noteq> []" "set fs = slots (global_mem s) p k" "slabs s1 = slabs s"
    "hdrs s1 = (hdrs s)(v \<mapsto> hd)" "v \<noteq> 0"
    using init_slab_cache_spec [OF hm k] i by auto
  let ?s = "s1\<lparr>hdrs := (hdrs s1)(v \<mapsto> hd\<lparr>next_slab := slabs s ! k\<rparr>), slabs := (slabs s1)[k := v]\<rparr>"
  let ?Sl = "Sl(p \<mapsto> k)" and ?F = "F(p := fs)"
  have v1: "v = page_to_virt (global_mem s1) p" using c(1) by (simp add: same_place(1) [OF c(4)])
  have "slab_ok s1 p k fs" using heap_memD(4) [OF c(3), of p k] by simp
  then have "slab_ok ?s p k fs" using c(8) v1 by (simp add: slab_ok_def)
  then have "heap_mem ?s ?Sl (?F(p := fs)) B"
    by (intro heap_mem_slab [OF c(3)]) (simp_all add: v1)
  then have hm2: "heap_mem ?s ?Sl ?F B" by simp
  have kO: "k \<in> {SLAB_MIN_ORDER..SLAB_MAX_ORDER}" using k by simp
  note o = ch [unfolded chains_def, THEN conjunct2, rule_format, OF kO]
  have "chains ?s (insert k {SLAB_MIN_ORDER..SLAB_MAX_ORDER}) (C(k := p # C k)) ?Sl"
    by (rule chains_push [OF ch hm2 c(2) _ c(1), where h = "hd\<lparr>next_slab := slabs s ! k\<rparr>"]) (use c(4,7-9) o in simp_all)
  then have "heap_all ?s ?Sl ?F (C(k := p # C k)) B" using hm2 k by (simp add: heap_all_def insert_absorb)
  from took_pop [OF this, of p k] obtain x s3
    where x: "pop_slot v ?s = Inr (Some x, s3)" "took k ?s ?Sl ?F B x s3"
    using c(5) v1 by auto
  have "objs ?s ?Sl ?F = objs s Sl F" by (rule objs_new) (use c(2,4,6) in simp_all)
  then have "took k s Sl F B x s3"
    using x(2) c(4) unfolding took_def by (auto intro: same_area_trans)
  then show ?thesis using c(7,8) x(1) ch by (intro exI [of _ hd] exI [of _ x] exI [of _ s3]) (simp add: chains_def)
qed

lemma alloc_in_slab_nolock_spec:
  assumes h: "heap_all s Sl F C B" and k: "SLAB_MIN_ORDER \<le> k" "k \<le> SLAB_MAX_ORDER" and f: "npages (global_mem s) \<le> fuel"
  shows "(alloc_in_slab_nolock fuel (slabs s ! k) k s = Inl BUG \<and> (\<forall>(p, m) \<in> free_blocks (global_mem s). m < SLAB_ORDER)) \<or>
    (\<exists>x s'. alloc_in_slab_nolock fuel (slabs s ! k) k s = Inr (x, s') \<and> took k s Sl F B x s')"
proof -
  let ?a = "page_to_virt (global_mem s)"
  have hm: "heap_mem s Sl F B" using h by (simp add: heap_all_def)
  have o: "C k \<noteq> []" "set (C k) = {p. Sl p = Some k}" "chain (nexts s) (slabs s ! k) (map ?a (C k))"
    using h k by (auto simp: heap_all_def chains_def)
  obtain p ps where c: "C k = p # ps" using o(1) by (cases "C k") auto
  have p: "Sl p = Some k" "\<forall>p \<in> set ps. Sl p = Some k" using o(2) c by auto
  obtain hd where d: "slabs s ! k = ?a p" "hdrs s (?a p) = Some hd" "chain (nexts s) (next_slab hd) (map ?a ps)"
    using o(3) c by auto
  have len: "length ps < fuel" using few_slabs [OF h k] f c by simp
  show ?thesis
  proof (cases "F p = []")
    case False
    then obtain x s' where "pop_slot (?a p) s = Inr (Some x, s')" "took k s Sl F B x s'"
      using took_pop [OF h p(1)] by blast
    then show ?thesis by (simp add: alloc_in_slab_nolock_def d(1))
  next
    case True
    note e = pop_slot_empty [OF hm p(1) True]
    from scan_slabs_spec [OF hm d(3) p(2) len] show ?thesis
    proof (elim disjE conjE exE)
      fix q s' x assume q: "Sl q = Some k" "F q \<noteq> []" "pop_slot (?a q) s = Inr (Some x, s')"
        "scan_slabs fuel (next_slab hd) s = Inr (Some x, s')"
      then have "took k s Sl F B x s'" using took_pop [OF h q(1,2)] by auto
      then show ?thesis using q(4) by (simp add: alloc_in_slab_nolock_def d(1,2) e)
    next
      assume n: "scan_slabs fuel (next_slab hd) s = Inr (None, s)"
      show ?thesis
      proof (cases "init_slab_cache k SLAB_INIT_SIZE s")
        case (Inl err)
        then show ?thesis using init_slab_cache_spec [OF hm k] n by (simp add: alloc_in_slab_nolock_def d(1,2) e)
      next
        case (Inr r)
        obtain v s1 where r: "init_slab_cache k SLAB_INIT_SIZE s = Inr (v, s1)" using Inr by (cases r) auto
        from new_slab_spec [OF h k r] k show ?thesis
          by (auto simp: alloc_in_slab_nolock_def d(1,2) e n r)
      qed
    qed
  qed
qed

text \<open>The order of an object: the smallest that holds it, and at least the minimum.\<close>

lemma alloc_in_slab_spec:
  assumes h: "heap_all s Sl F C B" and f: "npages (global_mem s) \<le> fuel" and sz: "sz \<le> order_to_size SLAB_MAX_ORDER"
  shows "\<exists>k. k \<le> SLAB_MAX_ORDER \<and> unat sz \<le> 2 ^ k \<and> (k = SLAB_MIN_ORDER \<or> SLAB_MIN_ORDER < k \<and> 2 ^ (k - 1) < unat sz) \<and>
    ((alloc_in_slab fuel sz s = Inl BUG \<and> (\<forall>(p, m) \<in> free_blocks (global_mem s). m < SLAB_ORDER)) \<or>
     (\<exists>x s'. alloc_in_slab fuel sz s = Inr (x, s') \<and> took k s Sl F B x s'))"
proof -
  have sz': "unat sz \<le> 2 ^ 11"
    using sz by (simp add: word_le_nat_alt order_to_size_def slab_consts)
  define r where "r = size_to_order sz"
  have r: "unat sz \<le> 2 ^ r" "\<forall>j < r. 2 ^ j < unat sz"
  proof -
    have "sint (ucast sz :: 32 word) = int (unat sz)" by (rule small_order, rule le_less_trans [OF sz']) simp
    then have "r = (let k = halve_loop (unat sz) 0 in if unat sz > 2 ^ k then k + 1 else k)"
      unfolding r_def size_to_order_def by (simp only: nat_int)
    then show "unat sz \<le> 2 ^ r" "\<forall>j < r. 2 ^ j < unat sz"
      using round_order [of "unat sz"] unfolding Let_def by (fast, fast)
  qed
  have r11: "r \<le> 11"
  proof (rule ccontr)
    assume "\<not> r \<le> 11"
    then have "11 < r" by simp
    then have "2 ^ 11 < unat sz" by (rule r(2) [rule_format])
    then show False using sz' by simp
  qed
  define k where "k = (if r < SLAB_MIN_ORDER then SLAB_MIN_ORDER else r)"
  have "(2 :: nat) ^ r \<le> 2 ^ k" by (rule power_increasing) (simp_all add: k_def)
  with r(1) have k3: "unat sz \<le> 2 ^ k" by (rule le_trans)
  have k: "SLAB_MIN_ORDER \<le> k" "k \<le> SLAB_MAX_ORDER" using r11 by (simp_all add: k_def slab_consts)
  have "k = SLAB_MIN_ORDER \<or> SLAB_MIN_ORDER < k \<and> 2 ^ (k - 1) < unat sz"
    using r(2) by (auto simp: k_def not_less slab_consts)
  moreover have "length (slabs s) = Suc SLAB_MAX_ORDER" using h by (simp add: heap_all_def chains_def)
  then have "alloc_in_slab fuel sz s = alloc_in_slab_nolock fuel (slabs s ! k) k s"
    using leD [OF sz] k by (simp add: alloc_in_slab_def Let_def r_def [symmetric] k_def [symmetric])
  ultimately show ?thesis using alloc_in_slab_nolock_spec [OF h k f] k(2) k3 by auto
qed

section \<open>Regions\<close>

definition bytes :: "nat \<times> nat \<Rightarrow> nat set" where
  "bytes r = {fst r..<fst r + snd r}"

definition obj_region :: "u64 \<times> nat \<Rightarrow> nat \<times> nat" where
  "obj_region b = (unat (fst b), 2 ^ snd b)"

definition block_region :: "phys_mem_pool \<Rightarrow> nat \<times> nat \<Rightarrow> nat \<times> nat" where
  "block_region pool b = (4096 * (pfn pool + fst b), 4096 * 2 ^ snd b)"

text \<open>The heap with the regions \<open>A\<close> (address and size) in the hands of its clients.\<close>

definition heap_ok :: "kheap \<Rightarrow> (nat \<times> nat) set \<Rightarrow> bool" where
  "heap_ok s A \<longleftrightarrow> (\<exists>Sl F C B. heap_all s Sl F C B \<and>
     A = obj_region ` objs s Sl F \<union> block_region (global_mem s) ` B)"

lemma inj_obj_region: "inj obj_region"
  by (auto simp: inj_def obj_region_def word_unat_eq_iff)

lemma inj_block_region: "inj (block_region pool)"
  by (auto simp: inj_def block_region_def)

lemma blocks_bytes:
  assumes "buddy_ok pool A" "b \<in> A" "c \<in> A" "b \<noteq> c"
  shows "bytes (block_region pool b) \<inter> bytes (block_region pool c) = {}"
proof -
  obtain p k q j where bc: "b = (p, k)" "c = (q, j)" by (cases b, cases c)
  have "{p..<p + 2 ^ k} \<inter> {q..<q + 2 ^ j} = {}" using bud.disjoint_law [OF assms(1), of p k q j] assms(2-4) bc by simp
  moreover have "p \<in> {p..<p + 2 ^ k}" "q \<in> {q..<q + 2 ^ j}" by simp_all
  ultimately have "p \<notin> {q..<q + 2 ^ j}" "q \<notin> {p..<p + 2 ^ k}" by blast+
  then have "p + 2 ^ k \<le> q \<or> q + 2 ^ j \<le> p" by (simp only: atLeastLessThan_iff) linarith
  then show ?thesis by (auto simp: bytes_def block_region_def bc)
qed

lemma slot_bytes:
  assumes "room pool p" "k \<le> 21" "x \<in> slots pool p k"
  shows "bytes (obj_region (x, k)) \<subseteq> bytes (block_region pool (p, SLAB_ORDER))"
proof -
  obtain i where i: "x = slot_at pool p k i" "i * 2 ^ k < 2 ^ 21" using assms(3) by (auto simp: slots_def)
  then have "Suc i \<le> 2 ^ (21 - k)" using slot_range [OF assms(2)] by (simp add: Suc_le_eq)
  then have "Suc i * 2 ^ k \<le> 2 ^ (21 - k) * 2 ^ k" by (rule mult_le_mono1)
  also have "\<dots> = 2 ^ 21" using assms(2) by (simp flip: power_add)
  finally have e: "i * 2 ^ k + 2 ^ k \<le> 2097152" by simp
  have "unat x = 4096 * (pfn pool + p) + i * 2 ^ k" unfolding i(1) by (rule slot_unat [OF assms(1) i(2)])
  with e show ?thesis by (simp add: bytes_def block_region_def obj_region_def subset_iff)
qed

lemma obj_bytes:
  assumes "heap_mem s Sl F B" "Sl p = Some k" "x \<in> slots (global_mem s) p k"
  shows "bytes (obj_region (x, k)) \<subseteq> bytes (block_region (global_mem s) (p, SLAB_ORDER))"
  by (rule slot_bytes [OF heap_memD(1) [OF assms(1,2)] _ assms(3)])
    (use heap_memD(3) [OF assms(1,2)] in \<open>simp add: slab_consts\<close>)

text \<open>Everything in the hands of clients is apart.\<close>

lemma objs_apart:
  assumes hm: "heap_mem s Sl F B" and x: "(x, k) \<in> objs s Sl F" and y: "(y, j) \<in> objs s Sl F" and ne: "(x, k) \<noteq> (y, j)"
  shows "bytes (obj_region (x, k)) \<inter> bytes (obj_region (y, j)) = {}"
proof -
  let ?g = "global_mem s"
  have ok: "buddy_ok ?g (slab_blocks Sl \<union> B)" using hm by (simp add: heap_mem_def)
  obtain p q where p: "Sl p = Some k" "x \<in> slots ?g p k" and q: "Sl q = Some j" "y \<in> slots ?g q j"
    using x y by (auto simp: objs_def)
  show ?thesis
  proof (cases "p = q")
    case False
    then have "bytes (block_region ?g (p, SLAB_ORDER)) \<inter> bytes (block_region ?g (q, SLAB_ORDER)) = {}"
      using heap_memD(5) [OF hm p(1)] heap_memD(5) [OF hm q(1)] by (intro blocks_bytes [OF ok]) auto
    then show ?thesis using obj_bytes [OF hm p] obj_bytes [OF hm q] by blast
  next
    case True
    then have "j = k" using p q by simp
    then have xy: "x \<noteq> y" "y \<in> slots ?g p k" using ne q(2) True by simp_all
    note r = heap_memD(1) [OF hm p(1)]
    obtain i where i: "x = slot_at ?g p k i" "i * 2 ^ k < 2 ^ 21" using p(2) by (auto simp: slots_def)
    obtain l where l: "y = slot_at ?g p k l" "l * 2 ^ k < 2 ^ 21" using xy(2) by (auto simp: slots_def)
    have "i \<noteq> l" using xy(1) i(1) l(1) by auto
    then have "Suc i \<le> l \<or> Suc l \<le> i" by linarith
    then have "Suc i * 2 ^ k \<le> l * 2 ^ k \<or> Suc l * 2 ^ k \<le> i * 2 ^ k" using mult_le_mono1 by blast
    moreover have "unat x = 4096 * (pfn ?g + p) + i * 2 ^ k" unfolding i(1) by (rule slot_unat [OF r i(2)])
    moreover have "unat y = 4096 * (pfn ?g + p) + l * 2 ^ k" unfolding l(1) by (rule slot_unat [OF r l(2)])
    ultimately show ?thesis by (auto simp: bytes_def obj_region_def \<open>j = k\<close>)
  qed
qed

lemma obj_block_apart:
  assumes hm: "heap_mem s Sl F B" and x: "(x, k) \<in> objs s Sl F" and b: "b \<in> B"
  shows "bytes (obj_region (x, k)) \<inter> bytes (block_region (global_mem s) b) = {}"
proof -
  let ?g = "global_mem s"
  have ok: "buddy_ok ?g (slab_blocks Sl \<union> B)" "slab_blocks Sl \<inter> B = {}" using hm by (simp_all add: heap_mem_def)
  obtain p where p: "Sl p = Some k" "x \<in> slots ?g p k" using x by (auto simp: objs_def)
  have "bytes (block_region ?g (p, SLAB_ORDER)) \<inter> bytes (block_region ?g b) = {}"
    using heap_memD(5) [OF hm p(1)] b ok(2) by (intro blocks_bytes [OF ok(1)]) auto
  then show ?thesis using obj_bytes [OF hm p] by blast
qed

lemma regions_apart:
  assumes "heap_ok s A" "r \<in> A" "r' \<in> A" "r \<noteq> r'"
  shows "bytes r \<inter> bytes r' = {}"
proof -
  obtain Sl F C B where h: "heap_all s Sl F C B" "A = obj_region ` objs s Sl F \<union> block_region (global_mem s) ` B"
    using assms(1) by (auto simp: heap_ok_def)
  have hm: "heap_mem s Sl F B" using h(1) by (simp add: heap_all_def)
  have ok: "buddy_ok (global_mem s) (slab_blocks Sl \<union> B)" using hm by (simp add: heap_mem_def)
  have oo: "bytes (obj_region x) \<inter> bytes (obj_region y) = {}" if "x \<in> objs s Sl F" "y \<in> objs s Sl F" "x \<noteq> y" for x y
    using objs_apart [OF hm, of "fst x" "snd x" "fst y" "snd y"] that by simp
  have ob: "bytes (obj_region x) \<inter> bytes (block_region (global_mem s) b) = {}" if "x \<in> objs s Sl F" "b \<in> B" for x b
    using obj_block_apart [OF hm, of "fst x" "snd x" b] that by simp
  have bb: "bytes (block_region (global_mem s) b) \<inter> bytes (block_region (global_mem s) c) = {}" if "b \<in> B" "c \<in> B" "b \<noteq> c" for b c
    by (rule blocks_bytes [OF ok]) (use that in auto)
  from assms(2,3) show ?thesis unfolding h(2)
  proof (elim UnE imageE)
    fix x y assume a: "r = obj_region x" "x \<in> objs s Sl F" "r' = obj_region y" "y \<in> objs s Sl F"
    then have "x \<noteq> y" using assms(4) by blast
    then show ?thesis unfolding a(1,3) by (rule oo [OF a(2,4)])
  next
    fix x b assume a: "r = obj_region x" "x \<in> objs s Sl F" "r' = block_region (global_mem s) b" "b \<in> B"
    show ?thesis unfolding a(1,3) by (rule ob [OF a(2,4)])
  next
    fix b x assume a: "r = block_region (global_mem s) b" "b \<in> B" "r' = obj_region x" "x \<in> objs s Sl F"
    show ?thesis unfolding a(1,3) by (subst Int_commute) (rule ob [OF a(4,2)])
  next
    fix b c assume a: "r = block_region (global_mem s) b" "b \<in> B" "r' = block_region (global_mem s) c" "c \<in> B"
    then have "b \<noteq> c" using assms(4) by blast
    then show ?thesis unfolding a(1,3) by (rule bb [OF a(2,4)])
  qed
qed

lemma region_nonempty: "heap_ok s A \<Longrightarrow> r \<in> A \<Longrightarrow> fst r \<in> bytes r"
  by (auto simp: heap_ok_def bytes_def obj_region_def block_region_def)

text \<open>A change of the buddy allocator below the slabs.\<close>

lemma heap_all_pool:
  assumes h: "heap_all s Sl F C B" and sp: "same_pool (global_mem s) pool"
    and ok: "buddy_ok pool (slab_blocks Sl \<union> B')" "slab_blocks Sl \<inter> B' = {}"
  shows "heap_all (s\<lparr>global_mem := pool\<rparr>) Sl F C B'" "objs (s\<lparr>global_mem := pool\<rparr>) Sl F = objs s Sl F"
proof -
  let ?s = "s\<lparr>global_mem := pool\<rparr>"
  note a = same_pool_area [OF sp] and pl = same_place [OF same_pool_area [OF sp]]
  have hm: "heap_mem s Sl F B" and ch: "chains s {SLAB_MIN_ORDER..SLAB_MAX_ORDER} C Sl" using h by (simp_all add: heap_all_def)
  have "geometry pool" using ok(1) by (simp add: buddy_ok_def buddy_inv_def)
  then have "pslab (page_metadata pool ! i) = pslab (page_metadata (global_mem s) ! i)" if "i < npages pool" for i
    using that by (intro same_pool_pslab [OF sp]) (simp add: geometry_def)
  then have "owned pool Sl" using hm by (simp add: heap_mem_def owned_def pl)
  moreover have "slab_ok ?s p k (F p)" if "Sl p = Some k" for p k
    using heap_memD(4) [OF hm that] a by (subst slab_ok_cong [where s = s]) simp_all
  ultimately have "heap_mem ?s Sl F B'" using hm ok by (simp add: heap_mem_def pl)
  moreover have "chains ?s {SLAB_MIN_ORDER..SLAB_MAX_ORDER} C Sl" by (rule chains_cong [OF ch]) (use a in simp_all)
  ultimately show "heap_all ?s Sl F C B'" by (simp add: heap_all_def)
  show "objs ?s Sl F = objs s Sl F" by (simp add: objs_def pl)
qed

lemma took_region:
  assumes h: "heap_all s Sl F C B" "A = obj_region ` objs s Sl F \<union> block_region (global_mem s) ` B"
    and t: "took k s Sl F B x s'"
  shows "obj_region (x, k) \<notin> A" "heap_ok s' (insert (obj_region (x, k)) A)" "same_area (global_mem s) (global_mem s')"
proof -
  obtain Sl' F' C' where t: "heap_all s' Sl' F' C' B" "(x, k) \<notin> objs s Sl F"
      "objs s' Sl' F' = insert (x, k) (objs s Sl F)" "same_area (global_mem s) (global_mem s')"
    using t by (auto simp: took_def)
  have br: "block_region (global_mem s') = block_region (global_mem s)"
    by (simp add: block_region_def fun_eq_iff same_place(7) [OF t(4)])
  show "same_area (global_mem s) (global_mem s')" by (rule t(4))
  show "heap_ok s' (insert (obj_region (x, k)) A)"
    unfolding heap_ok_def h(2) using t(1,3) br by (intro exI [of _ Sl'] exI [of _ F'] exI [of _ C'] exI [of _ B]) simp
  show "obj_region (x, k) \<notin> A"
  proof
    assume "obj_region (x, k) \<in> A"
    moreover have "obj_region (x, k) \<notin> obj_region ` objs s Sl F"
      using t(2) inj_image_mem_iff [OF inj_obj_region] by simp
    ultimately obtain b where b: "b \<in> B" "obj_region (x, k) = block_region (global_mem s) b" using h(2) by auto
    have "heap_mem s' Sl' F' B" using t(1) by (simp add: heap_all_def)
    from obj_block_apart [OF this _ b(1), of x k] t(3)
    have "bytes (obj_region (x, k)) \<inter> bytes (block_region (global_mem s) b) = {}" unfolding br by simp
    then have "bytes (obj_region (x, k)) = {}" unfolding b(2) by (simp only: Int_absorb)
    then show False by (simp add: bytes_def obj_region_def)
  qed
qed

text \<open>Blocks of pages.\<close>

definition page_order :: "u64 \<Rightarrow> nat" where
  "page_order sz = (LEAST k. unat sz \<le> 4096 * 2 ^ k)"

lemma page_order_eq:
  assumes "(unat sz + 4095) div 4096 \<le> 2 ^ r" "\<forall>j < r. 2 ^ j < (unat sz + 4095) div 4096"
  shows "page_order sz = r" "unat sz \<le> 4096 * 2 ^ r"
proof -
  have i: "(unat sz + 4095) div 4096 \<le> m \<longleftrightarrow> unat sz \<le> 4096 * m" for m by linarith
  show le: "unat sz \<le> 4096 * 2 ^ r" using assms(1) by (simp only: i)
  show "page_order sz = r" unfolding page_order_def
  proof (rule Least_equality)
    show "unat sz \<le> 4096 * 2 ^ r" by (rule le)
  next
    fix j assume "unat sz \<le> 4096 * 2 ^ j"
    then have "(unat sz + 4095) div 4096 \<le> 2 ^ j" by (simp only: i)
    then show "r \<le> j" using assms(2) by (meson leD leI)
  qed
qed

lemma large_order:
  assumes "unat sz \<le> 2 ^ 25" "0 < sz"
  shows "(if sz \<le> BUDDY_PAGE_SIZE then Inr 0 else size_to_page_order sz) = Inr (page_order sz)"
    "page_order sz \<le> 13" "unat sz \<le> 4096 * 2 ^ page_order sz"
proof -
  let ?n = "(unat sz + 4095) div 4096"
  define k where "k = halve_loop ?n 0"
  define r where "r = (if ?n > 2 ^ k then k + 1 else k)"
  have r: "?n \<le> 2 ^ r" "\<forall>j < r. 2 ^ j < ?n" using round_order [of ?n] unfolding r_def k_def by (fast, fast)
  note o = page_order_eq [OF r]
  have sz: "unat sz \<le> 33554432" using assms(1) by simp
  then have le: "?n \<le> 8192" by linarith
  have r13: "r \<le> 13"
  proof (rule ccontr)
    assume "\<not> r \<le> 13"
    then have "13 < r" by simp
    then have "2 ^ 13 < ?n" by (rule r(2) [rule_format])
    then show False using le by simp
  qed
  show "page_order sz \<le> 13" "unat sz \<le> 4096 * 2 ^ page_order sz" using r13 o by simp_all
  show "(if sz \<le> BUDDY_PAGE_SIZE then Inr 0 else size_to_page_order sz) = Inr (page_order sz)"
  proof (cases "sz \<le> BUDDY_PAGE_SIZE")
    case True
    then have "?n = 1" using assms(2) by (simp add: buddy_consts word_le_nat_alt word_less_nat_alt)
    then have "r = 0" using r(2) by (metis gr0I less_one power_0 order_less_irrefl)
    then show ?thesis using True o(1) by simp
  next
    case False
    have u: "unat sz + (2 ^ 12 - 1) < 2 ^ 64" using assms(1) by simp
    have "unat (ROUND_UP sz BUDDY_PAGE_SIZE div BUDDY_PAGE_SIZE) = ?n"
      using page_round_up_unat [of sz] u by (simp add: buddy_consts unat_div)
    moreover have "k \<le> r" by (simp add: r_def)
    then have "k < 31" using r13 by simp
    ultimately have "size_to_page_order sz = Inr r"
      by (simp add: size_to_page_order_def Let_def k_def [symmetric] r_def)
    then show ?thesis using False o(1) by simp
  qed
qed

lemma page_order_least: "k < page_order sz \<Longrightarrow> 4096 * 2 ^ k < unat sz"
  unfolding page_order_def using not_less_Least by (metis not_le_imp_less)

lemma obj_region_inside:
  assumes "heap_mem s Sl F B" "(x, k) \<in> objs s Sl F"
  shows "4096 \<le> unat x" "unat x + 2 ^ k \<le> 4096 * (pfn (global_mem s) + npages (global_mem s))"
proof -
  obtain p where p: "Sl p = Some k" "x \<in> slots (global_mem s) p k" using assms(2) by (auto simp: objs_def)
  have r: "0 < pfn (global_mem s)" "p + 512 \<le> npages (global_mem s)"
    using heap_memD(1) [OF assms(1) p(1)] by (simp_all add: room_def)
  have sub: "bytes (obj_region (x, k)) \<subseteq> {4096 * (pfn (global_mem s) + p)..<4096 * (pfn (global_mem s) + p) + 2097152}"
    using obj_bytes [OF assms(1) p] by (simp add: bytes_def block_region_def)
  then have "4096 * (pfn (global_mem s) + p) \<le> unat x" "unat x + 2 ^ k \<le> 4096 * (pfn (global_mem s) + p) + 2097152"
    by (auto simp: bytes_def obj_region_def ivl_subset)
  then show "4096 \<le> unat x" "unat x + 2 ^ k \<le> 4096 * (pfn (global_mem s) + npages (global_mem s))"
    using r by (simp_all add: distrib_left)
qed

lemma region_bounds:
  assumes "heap_ok s A" "(a, n) \<in> A"
  shows "4096 \<le> a" "0 < n" "a + n \<le> 4096 * (pfn (global_mem s) + npages (global_mem s))"
proof -
  obtain Sl F C B where h: "heap_mem s Sl F B" "A = obj_region ` objs s Sl F \<union> block_region (global_mem s) ` B"
    using assms(1) by (auto simp: heap_ok_def heap_all_def)
  have "4096 \<le> a \<and> 0 < n \<and> a + n \<le> 4096 * (pfn (global_mem s) + npages (global_mem s))"
  proof (cases "(a, n) \<in> obj_region ` objs s Sl F")
    case True
    then obtain x k where "(x, k) \<in> objs s Sl F" "a = unat x" "n = 2 ^ k" by (auto simp: obj_region_def)
    then show ?thesis using obj_region_inside [OF h(1)] by simp
  next
    case False
    then obtain p k where b: "(p, k) \<in> B" "a = 4096 * (pfn (global_mem s) + p)" "n = 4096 * 2 ^ k"
      using assms(2) h(2) by (auto simp: block_region_def)
    have "buddy_inv (global_mem s) (slab_blocks Sl \<union> B)" "0 < pfn (global_mem s)"
      using h(1) by (simp_all add: heap_mem_def buddy_ok_def)
    with alloc_block_facts(2) [OF this(1), of p k] b show ?thesis by simp
  qed
  then show "4096 \<le> a" "0 < n" "a + n \<le> 4096 * (pfn (global_mem s) + npages (global_mem s))" by auto
qed

text \<open>The block of pages that a request needs when no free object serves it.\<close>

definition need :: "u64 \<Rightarrow> nat" where
  "need sz = (if sz \<le> order_to_size SLAB_MAX_ORDER then SLAB_ORDER else page_order sz)"

definition served :: "u64 \<Rightarrow> kheap \<Rightarrow> (nat \<times> nat) set \<Rightarrow> u64 \<Rightarrow> kheap \<Rightarrow> bool" where
  "served sz s A a s' \<longleftrightarrow> (\<exists>n. unat sz \<le> n \<and> (n < 2 * unat sz \<or> n = 32) \<and> (unat a, n) \<notin> A \<and>
     heap_ok s' (insert (unat a, n) A) \<and> same_area (global_mem s) (global_mem s'))"

lemma kmalloc_small:
  assumes h: "heap_ok s A" and f: "npages (global_mem s) \<le> fuel" and sz: "sz \<le> order_to_size SLAB_MAX_ORDER"
  shows "(kmalloc fuel sz s = Inl BUG \<and> (\<forall>(p, m) \<in> free_blocks (global_mem s). m < need sz)) \<or>
    (\<exists>a s'. kmalloc fuel sz s = Inr (a, s') \<and> served sz s A a s')"
proof -
  obtain Sl F C B where h: "heap_all s Sl F C B" "A = obj_region ` objs s Sl F \<union> block_region (global_mem s) ` B"
    using h by (auto simp: heap_ok_def)
  have k: "kmalloc fuel sz s = alloc_in_slab fuel sz s" using sz by (simp add: kmalloc_def)
  from alloc_in_slab_spec [OF h(1) f sz] show ?thesis
  proof (elim exE conjE disjE, goal_cases)
    case (1 k) then show ?case using k sz by (simp add: need_def)
  next
    case (3 k) then show ?case using k sz by (simp add: need_def)
  next
    case (2 j x s')
    then have "unat sz \<le> 2 ^ j" "(2 :: nat) ^ j = 32" "took j s Sl F B x s'" by (simp_all add: slab_consts)
    then have "served sz s A x s'" using took_region [OF h, of j x s'] by (auto simp: served_def obj_region_def)
    then show ?case using k 2 by auto
  next
    case (4 j x s')
    then obtain i where "j = Suc i" "2 ^ i < unat sz" by (cases j) auto
    then have "unat sz \<le> 2 ^ j" "(2 :: nat) ^ j < 2 * unat sz" "took j s Sl F B x s'" using 4 by simp_all
    then have "served sz s A x s'" using took_region [OF h, of j x s'] by (auto simp: served_def obj_region_def)
    then show ?case using k 4 by auto
  qed
qed

lemma block_region_pool: "same_area pool pool' \<Longrightarrow> block_region pool' = block_region pool"
  by (simp add: block_region_def fun_eq_iff same_place(7))

lemma block_addr:
  assumes "buddy_inv pool A" "(p, k) \<in> A"
  shows "block_region pool (p, k) = (unat (page_to_virt pool p), 4096 * 2 ^ k)"
  using page_addr_unat [OF invD(1) [OF assms(1)] alloc_block_facts(4) [OF assms]] by (simp add: block_region_def)

lemma kmalloc_large:
  assumes h: "heap_ok s A" and sz: "\<not> sz \<le> order_to_size SLAB_MAX_ORDER" "unat sz \<le> 2 ^ 25"
  shows "(kmalloc fuel sz s = Inr (pages_virt None s, s) \<and> (\<forall>(p, m) \<in> free_blocks (global_mem s). m < need sz)) \<or>
    (\<exists>a s'. kmalloc fuel sz s = Inr (a, s') \<and> served sz s A a s')"
proof -
  let ?g = "global_mem s" and ?k = "page_order sz"
  obtain Sl F C B where h: "heap_all s Sl F C B" "A = obj_region ` objs s Sl F \<union> block_region ?g ` B"
    using h by (auto simp: heap_ok_def)
  have hm: "heap_mem s Sl F B" using h(1) by (simp add: heap_all_def)
  then have ok: "buddy_ok ?g (slab_blocks Sl \<union> B)" and dis: "slab_blocks Sl \<inter> B = {}" by (simp_all add: heap_mem_def)
  have big: "2048 < unat sz"
    using sz(1) by (simp add: word_le_nat_alt not_le order_to_size_def slab_consts)
  then have "0 < sz" by (simp add: word_less_nat_alt)
  note o = large_order [OF sz(2) this]
  have ord: "unat (of_nat ?k :: u64) = ?k"
  proof -
    have "?k < 2 ^ 64" using o(2) by simp
    then show ?thesis by (simp only: unat_of_nat) (simp add: take_bit_nat_eq_self)
  qed
  have km: "kmalloc fuel sz s = get_pages (of_nat ?k) s" using sz(1) o(1) by (simp add: kmalloc_def)
  have ndk: "need sz = ?k" using sz(1) by (simp add: need_def)
  have "unat (of_nat ?k :: u64) < BUDDY_MAX_ORDER" using ord o(2) by (simp add: buddy_consts)
  from buddy_get_ok [OF ok this, unfolded ord] obtain r pool'
    where r: "buddy_get_pages ?g (of_nat ?k) = Inr (r, pool')"
    "case r of None \<Rightarrow> pool' = ?g \<and> (\<forall>(p, m) \<in> free_blocks ?g. m < ?k)
     | Some p \<Rightarrow> (p, ?k) \<notin> slab_blocks Sl \<union> B \<and> buddy_ok pool' (insert (p, ?k) (slab_blocks Sl \<union> B)) \<and> same_pool ?g pool'"
    by (fastforce split: option.splits)
  show ?thesis
  proof (cases r)
    case None
    then show ?thesis using r km ndk by (simp add: get_pages_def)
  next
    case (Some p)
    let ?s = "s\<lparr>global_mem := pool'\<rparr>" and ?r = "block_region ?g (p, ?k)"
    have p: "(p, ?k) \<notin> slab_blocks Sl" "(p, ?k) \<notin> B" "buddy_ok pool' (slab_blocks Sl \<union> insert (p, ?k) B)" "same_pool ?g pool'"
      using r(2) Some by auto
    note a = same_pool_area [OF p(4)]
    have ha: "heap_all ?s Sl F C (insert (p, ?k) B)" "objs ?s Sl F = objs s Sl F"
      using heap_all_pool [OF h(1) p(4,3)] p(1) dis by auto
    have inv: "buddy_inv pool' (slab_blocks Sl \<union> insert (p, ?k) B)" using p(3) by (simp add: buddy_ok_def)
    have e: "?r = (unat (page_to_virt ?g p), 4096 * 2 ^ ?k)"
      using block_addr [OF inv, of p ?k] by (simp add: block_region_pool [OF a] same_place(1) [OF a])
    have ok': "heap_ok ?s (insert ?r A)"
      unfolding heap_ok_def h(2) using ha by (intro exI [of _ Sl] exI [of _ F] exI [of _ C] exI [of _ "insert (p, ?k) B"])
        (simp add: block_region_pool [OF a])
    have new: "?r \<notin> A"
    proof
      assume "?r \<in> A"
      moreover have "?r \<notin> block_region ?g ` B" using p(2) inj_image_mem_iff [OF inj_block_region] by simp
      ultimately obtain x j where x: "(x, j) \<in> objs s Sl F" "?r = obj_region (x, j)" using h(2) by auto
      have "heap_mem ?s Sl F (insert (p, ?k) B)" using ha(1) by (simp add: heap_all_def)
      from obj_block_apart [OF this, of x j "(p, ?k)"] x(1) ha(2)
      have "bytes (obj_region (x, j)) \<inter> bytes ?r = {}" by (simp add: block_region_pool [OF a])
      then have "bytes ?r = {}" unfolding x(2) by (simp only: Int_absorb)
      then show False by (simp add: bytes_def block_region_def)
    qed
    have small: "4096 * 2 ^ ?k < 2 * unat sz"
    proof (cases ?k)
      case 0
      then show ?thesis using big by simp
    next
      case (Suc i)
      then show ?thesis using page_order_least [of i sz] by simp
    qed
    have "kmalloc fuel sz s = Inr (page_to_virt ?g p, ?s)"
      using km r(1) Some by (simp add: get_pages_def pages_virt_def same_place(1) [OF a])
    moreover have "served sz s A (page_to_virt ?g p) ?s"
      unfolding served_def using o(3) small new ok' a e by (intro exI [of _ "4096 * 2 ^ ?k"]) simp
    ultimately show ?thesis by blast
  qed
qed

lemma not_obj_and_block:
  assumes "heap_mem s Sl F B" "b \<in> B"
  shows "block_region (global_mem s) b \<notin> obj_region ` objs s Sl F"
proof
  assume "block_region (global_mem s) b \<in> obj_region ` objs s Sl F"
  then obtain x k where x: "(x, k) \<in> objs s Sl F" "block_region (global_mem s) b = obj_region (x, k)" by auto
  from obj_block_apart [OF assms(1) x(1) assms(2)] have "bytes (obj_region (x, k)) = {}" unfolding x(2) by (simp only: Int_absorb)
  then show False by (simp add: bytes_def obj_region_def)
qed

lemma kfree_object:
  assumes h: "heap_all s Sl F C B" "A = obj_region ` objs s Sl F \<union> block_region (global_mem s) ` B" and x: "(x, k) \<in> objs s Sl F"
  shows "\<exists>s'. kfree x s = Inr s' \<and> heap_ok s' (A - {obj_region (x, k)}) \<and> same_area (global_mem s) (global_mem s')"
proof -
  have hm: "heap_mem s Sl F B" and ch: "chains s {SLAB_MIN_ORDER..SLAB_MAX_ORDER} C Sl" using h(1) by (simp_all add: heap_all_def)
  obtain p s' where f: "Sl p = Some k" "x \<in> slots (global_mem s) p k" "free_in_slab x s = Inr s'"
    "heap_mem s' Sl (F(p := x # F p)) B" "global_mem s' = global_mem s"
    "chains s' {SLAB_MIN_ORDER..SLAB_MAX_ORDER} C Sl" "objs s' Sl (F(p := x # F p)) = objs s Sl F - {(x, k)}"
    using free_slot_spec [OF hm x] ch by blast
  note r = heap_memD(1) [OF hm f(1)]
  have "page_to_virt (global_mem s) p \<noteq> 0" using slot_nonzero [OF r, of 0 k] by (simp add: slot_0)
  moreover have "p \<in> dom Sl" using f(1) by auto
  note slab_owner [OF hm this slots_page(1) [OF r f(2)]]
  ultimately have "kfree x s = Inr s'" using f(3) by (simp add: kfree_def Let_def)
  moreover have "A - {obj_region (x, k)} = obj_region ` (objs s Sl F - {(x, k)}) \<union> block_region (global_mem s) ` B"
  proof -
    have "obj_region (x, k) \<notin> block_region (global_mem s) ` B"
      using not_obj_and_block [OF hm] x by (metis imageE imageI)
    then show ?thesis using image_set_diff [OF inj_obj_region, of "objs s Sl F" "{(x, k)}"]
      unfolding h(2) image_insert image_empty by blast
  qed
  ultimately show ?thesis using f(4-7) unfolding heap_ok_def heap_all_def by (metis same_area_refl)
qed

lemma kfree_block:
  assumes h: "heap_all s Sl F C B" "A = obj_region ` objs s Sl F \<union> block_region (global_mem s) ` B" and b: "(p, k) \<in> B"
  shows "\<exists>s'. kfree (page_to_virt (global_mem s) p) s = Inr s' \<and> heap_ok s' (A - {block_region (global_mem s) (p, k)}) \<and>
    same_area (global_mem s) (global_mem s')"
proof -
  let ?g = "global_mem s"
  have hm: "heap_mem s Sl F B" using h(1) by (simp add: heap_all_def)
  then have ok: "buddy_ok ?g (slab_blocks Sl \<union> B)" and dis: "slab_blocks Sl \<inter> B = {}" and ow: "owned ?g Sl"
    by (simp_all add: heap_mem_def)
  have inv: "buddy_inv ?g (slab_blocks Sl \<union> B)" and co: "coalesced (pfn ?g) (free_blocks ?g)" using ok by (simp_all add: buddy_ok_def)
  have m: "(p, k) \<in> slab_blocks Sl \<union> B" using b by simp
  note f = alloc_block_facts [OF inv m]
  have "\<not> (\<exists>q \<in> dom Sl. covers (q, SLAB_ORDER) p)"
  proof
    assume "\<exists>q \<in> dom Sl. covers (q, SLAB_ORDER) p"
    then obtain q where q: "(q, SLAB_ORDER) \<in> slab_blocks Sl" "covers (q, SLAB_ORDER) p" by (auto simp: slab_blocks_def)
    then have "(q, SLAB_ORDER) = (p, k)"
      using invD(3) [OF inv] m covers_self unfolding blocks_ok_def by blast
    then show False using q(1) b dis by blast
  qed
  then have z: "pslab (page_metadata ?g ! p) = 0" using ow f(4) by (simp add: owned_def)
  obtain pool' where fr: "buddy_free_pages ?g p = Inr pool'" "buddy_inv pool' (slab_blocks Sl \<union> B - {(p, k)})"
    "same_pool ?g pool'" "coalesced (pfn ?g) (free_blocks pool')"
    using buddy_free_pages_spec [OF inv m co] by blast
  have "buddy_ok pool' (slab_blocks Sl \<union> (B - {(p, k)}))"
  proof -
    have "slab_blocks Sl \<union> B - {(p, k)} = slab_blocks Sl \<union> (B - {(p, k)})" using b dis by blast
    then show ?thesis using fr same_pool_geometry(3) [OF fr(3)] by (simp add: buddy_ok_def)
  qed
  moreover have "slab_blocks Sl \<inter> (B - {(p, k)}) = {}" using dis by blast
  ultimately have ha: "heap_all (s\<lparr>global_mem := pool'\<rparr>) Sl F C (B - {(p, k)})" "objs (s\<lparr>global_mem := pool'\<rparr>) Sl F = objs s Sl F"
    by (rule heap_all_pool [OF h(1) fr(3)])+
  let ?s = "s\<lparr>global_mem := pool'\<rparr>"
  have "virt_to_page ?g (page_to_virt ?g p) = p" by (rule page_back [OF invD(1) [OF inv] f(4)])
  then have "kfree (page_to_virt ?g p) s = Inr ?s" using z f(5) fr(1) by (simp add: kfree_def)
  moreover have "heap_ok ?s (A - {block_region ?g (p, k)})"
  proof -
    have "A - {block_region ?g (p, k)} = obj_region ` objs s Sl F \<union> block_region ?g ` (B - {(p, k)})"
      using not_obj_and_block [OF hm b] image_set_diff [OF inj_block_region, of ?g B "{(p, k)}"]
      unfolding h(2) image_insert image_empty by blast
    then show ?thesis unfolding heap_ok_def using ha
      by (intro exI [of _ Sl] exI [of _ F] exI [of _ C] exI [of _ "B - {(p, k)}"])
        (simp add: block_region_pool [OF same_pool_area [OF fr(3)]])
  qed
  ultimately show ?thesis using same_pool_area [OF fr(3)] by (intro exI [of _ ?s]) simp
qed

lemma kfree_spec:
  assumes "heap_ok s A" "(unat a, n) \<in> A"
  shows "\<exists>s'. kfree a s = Inr s' \<and> heap_ok s' (A - {(unat a, n)}) \<and> same_area (global_mem s) (global_mem s')"
proof -
  obtain Sl F C B where h: "heap_all s Sl F C B" "A = obj_region ` objs s Sl F \<union> block_region (global_mem s) ` B"
    using assms(1) by (auto simp: heap_ok_def)
  show ?thesis
  proof (cases "(unat a, n) \<in> obj_region ` objs s Sl F")
    case True
    then obtain x k where x: "(x, k) \<in> objs s Sl F" "(unat a, n) = obj_region (x, k)" by auto
    then have "x = a" by (simp add: obj_region_def word_unat_eq_iff)
    then show ?thesis using kfree_object [OF h x(1)] x(2) by simp
  next
    case False
    then obtain p k where b: "(p, k) \<in> B" "(unat a, n) = block_region (global_mem s) (p, k)" using assms(2) h(2) by auto
    have "buddy_inv (global_mem s) (slab_blocks Sl \<union> B)" using h(1) by (simp add: heap_all_def heap_mem_def buddy_ok_def)
    from block_addr [OF this, of p k] b have "a = page_to_virt (global_mem s) p" by (simp add: word_unat_eq_iff)
    then show ?thesis using kfree_block [OF h b(1)] b(2) by simp
  qed
qed

end
