(* ===== verification/KmallocProps.thy ===== *)
theory KmallocProps
  imports SlabProps
begin

text \<open>
  The heap as a whole: that \<^verbatim>\<open>init_slab\<close> establishes the invariant and never runs out of memory
  on a pool with enough whole 2M frames, the contract of an allocator of regions and its sessions, and
  the properties of \<^verbatim>\<open>kmalloc\<close> and \<^verbatim>\<open>kfree\<close>.
\<close>

section \<open>No fragments\<close>

text \<open>In page frame numbers an aligned block is a class of equal quotients.\<close>

lemma covers_div:
  assumes "2 ^ k dvd s + (p :: nat)"
  shows "covers (p, k) i \<longleftrightarrow> (s + i) div 2 ^ k = (s + p) div 2 ^ k"
proof -
  obtain u where u: "s + p = 2 ^ k * u" using assms by blast
  have "(s + i) div 2 ^ k = u \<longleftrightarrow> 2 ^ k * u \<le> s + i \<and> s + i < 2 ^ k * u + 2 ^ k"
    using div_nat_eqI [of "2 ^ k" u "s + i"] times_div_less_eq_dividend [of "2 ^ k" "s + i"]
      dividend_less_times_div [of "2 ^ k" "s + i"] by (auto simp: algebra_simps)
  moreover have "covers (p, k) i \<longleftrightarrow> s + p \<le> s + i \<and> s + i < s + p + 2 ^ k" by (auto simp: covers_def)
  ultimately show ?thesis using u by simp
qed

lemma div_up: "k \<le> j \<Longrightarrow> (x :: nat) div 2 ^ k = y div 2 ^ k \<Longrightarrow> x div 2 ^ j = y div 2 ^ j"
  by (metis div_mult2_eq le_add_diff_inverse power_add)

text \<open>
  In a frame of \<open>2 ^ n\<close> pages that lies in the pool and meets no block handed out, coalescing leaves no
  small block: all blocks handed out have order at least \<open>n\<close>, and a smallest free block of the frame
  would have a free buddy.
\<close>

lemma no_fragments:
  assumes ok: "buddy_ok pool A" and n: "n < BUDDY_MAX_ORDER" and big: "\<forall>(q, j) \<in> A. n \<le> j"
    and x: "x + 2 ^ n \<le> npages pool" "2 ^ n dvd pfn pool + x" and free: "\<forall>b \<in> A. \<not> covers b x"
  shows "\<exists>(p, m) \<in> free_blocks pool. n \<le> m"
proof (rule ccontr)
  assume "\<not> (\<exists>(p, m) \<in> free_blocks pool. n \<le> m)"
  then have small: "m < n" if "(p, m) \<in> free_blocks pool" for p m using that by fastforce
  let ?s = "pfn pool" and ?F = "free_blocks pool"
  have inv: "buddy_inv pool A" and co: "coalesced ?s ?F" using ok by (simp_all add: buddy_ok_def)
  note i = invD [OF inv]
  have one: "b = c" if "b \<in> ?F \<union> A" "c \<in> ?F \<union> A" "covers b y" "covers c y" for b c y
    using i(3) that unfolding blocks_ok_def by blast
  define frame where "frame y \<longleftrightarrow> (?s + y) div 2 ^ n = (?s + x) div 2 ^ n" for y
  have frame_cov: "frame y \<longleftrightarrow> covers (x, n) y" for y using covers_div [OF x(2)] by (simp add: frame_def)
  have no_A: "\<not> covers c y" if c: "c \<in> A" and y: "frame y" for c y
  proof
    assume cv: "covers c y"
    obtain q j where qj: "c = (q, j)" by force
    have qA: "(q, j) \<in> A" using c qj by simp
    note al = alloc_block_facts(3) [OF inv qA]
    have nj: "n \<le> j" using big qA by blast
    have "(?s + x) div 2 ^ j = (?s + y) div 2 ^ j" by (rule div_up [OF nj]) (use y in \<open>simp only: frame_def\<close>)
    then have "covers c x" using cv unfolding qj covers_div [OF al] by (simp only:)
    then show False using free c by blast
  qed
  define S where "S = {k. \<exists>p. (p, k) \<in> ?F \<and> frame p}"
  have cov: "\<exists>p k. (p, k) \<in> ?F \<and> covers (p, k) y \<and> frame p \<and> k \<in> S" if y: "frame y" for y
  proof -
    have "y < npages pool" using y x(1) by (simp add: frame_cov covers_def)
    then obtain c where c: "c \<in> ?F \<union> A" "covers c y" using i(4) unfolding tiles_def by blast
    then have "c \<in> ?F" using no_A y by blast
    moreover obtain p k where pk: "c = (p, k)" by force
    ultimately have f: "(p, k) \<in> ?F" "covers (p, k) y" using c(2) by simp_all
    have "(?s + y) div 2 ^ k = (?s + p) div 2 ^ k" using f(2) unfolding covers_div [OF free_block_facts(3) [OF inv f(1)]] .
    then have "(?s + y) div 2 ^ n = (?s + p) div 2 ^ n" by (rule div_up [OF less_imp_le [OF small [OF f(1)]]])
    then have "frame p" using y unfolding frame_def by (simp only:)
    then show ?thesis using f by (auto simp: S_def)
  qed
  obtain k0 where "k0 \<in> S" using cov [of x] by (auto simp: frame_def)
  define k where "k = (LEAST k. k \<in> S)"
  have kS: "k \<in> S" and least: "\<And>j. j \<in> S \<Longrightarrow> k \<le> j"
    unfolding k_def using \<open>k0 \<in> S\<close> by (auto intro: LeastI Least_le)
  then obtain p where p: "(p, k) \<in> ?F" "frame p" by (auto simp: S_def)
  have kn: "Suc k \<le> n" using small [OF p(1)] by simp
  note al = free_block_facts(3) [OF inv p(1)]
  note half = buddy_half [OF al]
  define y where "y = ((?s + p) XOR 2 ^ k) - ?s"
  have fr: "((?s + p) XOR 2 ^ k) div 2 ^ n = (?s + x) div 2 ^ n"
    using div_up [OF kn half(3)] p(2) unfolding frame_def by (simp only:)
  have ge: "?s \<le> (?s + p) XOR 2 ^ k"
  proof -
    obtain u where u: "?s + x = 2 ^ n * u" using x(2) by blast
    then have "2 ^ n * u \<le> (?s + p) XOR 2 ^ k" using fr times_div_less_eq_dividend [of "2 ^ n" "(?s + p) XOR 2 ^ k"] by simp
    then show ?thesis using u by simp
  qed
  then have y: "?s + y = (?s + p) XOR 2 ^ k" by (simp add: y_def)
  then have "frame y" using fr by (simp add: frame_def)
  then obtain q j where q: "(q, j) \<in> ?F" "covers (q, j) y" "j \<in> S" using cov by blast
  note alq = free_block_facts(3) [OF inv q(1)]
  show False
  proof (cases "j = k")
    case True
    have "?s + y = ?s + q"
    proof -
      have "(?s + y) div 2 ^ k = (?s + q) div 2 ^ k" using q(2) unfolding covers_div [OF alq] unfolding True .
      moreover have "2 ^ k dvd ?s + y" "2 ^ k dvd ?s + q" using half(2) alq True by (simp_all add: y)
      ultimately show ?thesis by (metis dvd_mult_div_cancel)
    qed
    then have "mergeable ?s (p, k) (q, j)"
      using True y kn n by (simp add: mergeable_def buddy_consts)
    then show False using co p(1) q(1) unfolding coalesced_def by blast
  next
    case False
    then have "Suc k \<le> j" using least [OF q(3)] by simp
    then have "(?s + p) div 2 ^ j = (?s + y) div 2 ^ j" unfolding y by (rule div_up) (rule half(3) [symmetric])
    then have "covers (q, j) p" using q(2) unfolding covers_div [OF alq] by (simp only:)
    then have "(q, j) = (p, k)" using one [of "(q, j)" "(p, k)" p] p(1) q(1) by simp
    then show False using False by simp
  qed
qed

section \<open>Initialisation\<close>

text \<open>A pool of eight times 2M has seven whole 2M frames, wherever it starts.\<close>

lemma frame_left:
  assumes hm: "heap_mem s Sl F {}" and np: "4096 \<le> npages (global_mem s)" and few: "card (dom Sl) < 7" "finite (dom Sl)"
  shows "\<exists>(p, m) \<in> free_blocks (global_mem s). SLAB_ORDER \<le> m"
proof -
  let ?g = "global_mem s" and ?s = "pfn (global_mem s)"
  have ok: "buddy_ok ?g (slab_blocks Sl)" using hm by (simp add: heap_mem_def)
  then have inv: "buddy_inv ?g (slab_blocks Sl)" by (simp add: buddy_ok_def)
  define x where "x f = (511 - (?s + 511) mod 512) + 512 * f" for f
  have al: "2 ^ 9 dvd ?s + x f" for f
  proof -
    have "?s + (511 - (?s + 511) mod 512) + 512 * f = (?s + 511) div 512 * 512 + f * 512"
      using mod_less_divisor [of 512 "?s + 511"] div_mult_mod_eq [of "?s + 511" 512] by linarith
    then have "?s + x f = ((?s + 511) div 512 + f) * 512" by (simp add: x_def algebra_simps)
    then show ?thesis by simp
  qed
  have in_pool: "x f + 2 ^ 9 \<le> npages ?g" if "f < 7" for f using that np by (simp add: x_def)
  have "\<exists>f < 7. \<forall>b \<in> slab_blocks Sl. \<not> covers b (x f)"
  proof (rule ccontr)
    assume "\<not> (\<exists>f < 7. \<forall>b \<in> slab_blocks Sl. \<not> covers b (x f))"
    then have "\<forall>f \<in> {..<7}. \<exists>p. p \<in> dom Sl \<and> covers (p, SLAB_ORDER) (x f)" unfolding slab_blocks_def by blast
    then obtain g where g: "\<And>f. f < 7 \<Longrightarrow> g f \<in> dom Sl \<and> covers (g f, SLAB_ORDER) (x f)" by (metis lessThan_iff)
    have q: "(?s + x f) div 512 = (?s + g f) div 512" if "f < 7" for f
    proof -
      have "(g f, SLAB_ORDER) \<in> slab_blocks Sl" using g [OF that] by (simp add: slab_blocks_def)
      from covers_div [OF alloc_block_facts(3) [OF inv this], of "x f"] show ?thesis using g [OF that] by simp
    qed
    have "inj_on g {..<7}"
    proof (rule inj_onI)
      fix f f' assume f: "f \<in> {..<7}" "f' \<in> {..<7}" "g f = g f'"
      then have "(?s + x f) div 512 = (?s + x f') div 512" using q [of f] q [of f'] by simp
      moreover have "(?s + x f) div 512 * 512 = ?s + x f" for f using al [of f] by simp
      ultimately have "x f = x f'" by (metis add_left_cancel)
      then show "f = f'" by (simp add: x_def)
    qed
    moreover have "g ` {..<7} \<subseteq> dom Sl" using g by auto
    ultimately have "card {..<7 :: nat} \<le> card (dom Sl)" using few(2) by (rule card_inj_on_le)
    then show False using few(1) by simp
  qed
  then obtain f where f: "f < 7" "\<forall>b \<in> slab_blocks Sl. \<not> covers b (x f)" by blast
  show ?thesis
  proof (rule no_fragments [OF ok _ _ in_pool [OF f(1)] al f(2)])
    show "SLAB_ORDER < BUDDY_MAX_ORDER" by (simp add: buddy_consts)
    show "\<forall>(q, j) \<in> slab_blocks Sl. SLAB_ORDER \<le> j" by (auto simp: slab_blocks_def)
  qed
qed

lemma heap_mem_slabs: "heap_mem (s\<lparr>slabs := sl\<rparr>) Sl F B = heap_mem s Sl F B"
  by (simp add: heap_mem_def slab_ok_def)

lemma init_slab_loop_spec:
  assumes "heap_mem s Sl F {}" "chains s {SLAB_MIN_ORDER..<k} C Sl" "objs s Sl F = {}"
    "\<And>p j. Sl p = Some j \<Longrightarrow> j < k" "finite (dom Sl)" "card (dom Sl) + n \<le> 7"
    "4096 \<le> npages (global_mem s)" "SLAB_MIN_ORDER \<le> k" "k + n = Suc SLAB_MAX_ORDER"
  shows "\<exists>s' Sl' F' C'. init_slab_loop n k s = Inr s' \<and> heap_all s' Sl' F' C' {} \<and> objs s' Sl' F' = {} \<and>
    finite (dom Sl') \<and> card (dom Sl') \<le> 7 \<and> same_area (global_mem s) (global_mem s')"
  using assms
proof (induction n arbitrary: k s Sl F C)
  case 0
  then have "{SLAB_MIN_ORDER..<k} = {SLAB_MIN_ORDER..SLAB_MAX_ORDER}" by auto
  then have "heap_all s Sl F C {}" using 0 by (simp add: heap_all_def)
  then show ?case using 0 by (intro exI [of _ s] exI [of _ Sl] exI [of _ F] exI [of _ C]) simp
next
  case (Suc n)
  have k: "SLAB_MIN_ORDER \<le> k" "k \<le> SLAB_MAX_ORDER" using Suc.prems(8,9) by simp_all
  have "card (dom Sl) < 7" using Suc.prems(6) by simp
  from frame_left [OF Suc.prems(1,7) this Suc.prems(5)]
  have "\<not> (\<forall>(p, m) \<in> free_blocks (global_mem s). m < SLAB_ORDER)" by fastforce
  with init_slab_cache_spec [OF Suc.prems(1) k] obtain p fs s1 h where c:
    "init_slab_cache k SLAB_INIT_SIZE s = Inr (page_to_virt (global_mem s) p, s1)" "Sl p = None"
    "heap_mem s1 (Sl(p \<mapsto> k)) (F(p := fs)) {}" "same_area (global_mem s) (global_mem s1)"
    "set fs = slots (global_mem s) p k" "slabs s1 = slabs s"
    "hdrs s1 = (hdrs s)(page_to_virt (global_mem s) p \<mapsto> h)" "next_slab h = 0" "page_to_virt (global_mem s) p \<noteq> 0"
    by auto
  let ?v = "page_to_virt (global_mem s) p"
  let ?s = "s1\<lparr>slabs := (slabs s1)[k := ?v]\<rparr>" and ?Sl = "Sl(p \<mapsto> k)" and ?F = "F(p := fs)"
  have len: "length (slabs s1) = Suc SLAB_MAX_ORDER" using Suc.prems(2) c(6) by (simp add: chains_def)
  have step: "init_slab_loop (Suc n) k s = init_slab_loop n (Suc k) ?s" using c(1) len k by simp
  have hm: "heap_mem ?s ?Sl ?F {}" using c(3) by (simp add: heap_mem_slabs)
  have none: "{q. Sl q = Some k} = {}" using Suc.prems(4) by auto
  have "chains ?s (insert k {SLAB_MIN_ORDER..<k}) (C(k := [p])) ?Sl"
    by (rule chains_push [OF Suc.prems(2) hm c(2) _ refl, where h = h]) (use c none in simp_all)
  moreover have "insert k {SLAB_MIN_ORDER..<k} = {SLAB_MIN_ORDER..<Suc k}" using k by auto
  ultimately have ch: "chains ?s {SLAB_MIN_ORDER..<Suc k} (C(k := [p])) ?Sl" by simp
  have ob: "objs ?s ?Sl ?F = {}" using objs_new [of s ?s Sl p fs k F] c(2,4,5) Suc.prems(3) by simp
  have "card (dom ?Sl) = Suc (card (dom Sl))" using c(2) Suc.prems(5) by (simp add: card_insert_if domIff)
  then have cd: "card (dom ?Sl) + n \<le> 7" "finite (dom ?Sl)" using Suc.prems(5,6) by simp_all
  have "4096 \<le> npages (global_mem ?s)" using Suc.prems(7) by (simp add: same_place(6) [OF c(4)])
  moreover have "j < Suc k" if "?Sl q = Some j" for q j using that Suc.prems(4) [of q j] by (auto split: if_splits)
  ultimately have "\<exists>s' Sl' F' C'. init_slab_loop n (Suc k) ?s = Inr s' \<and> heap_all s' Sl' F' C' {} \<and> objs s' Sl' F' = {} \<and>
      finite (dom Sl') \<and> card (dom Sl') \<le> 7 \<and> same_area (global_mem ?s) (global_mem s')"
    using k Suc.prems(9) by (intro Suc.IH [OF hm ch ob _ cd(2,1)]) simp_all
  then show ?case unfolding step using same_area_trans [OF c(4)] by auto
qed

text \<open>The slabs that \<open>init_slab\<close> sets up are seven blocks of the pool; all their objects are free.\<close>

lemma heap_start_few:
  assumes "buddy_ok (global_mem s) {}" "0 < pfn (global_mem s)" "length (slabs s) = Suc SLAB_MAX_ORDER"
    "\<forall>i < npages (global_mem s). pslab (page_metadata (global_mem s) ! i) = 0" "4096 \<le> npages (global_mem s)"
  shows "\<exists>s' Sl F C. init_slab s = Inr s' \<and> heap_all s' Sl F C {} \<and> objs s' Sl F = {} \<and>
    finite (dom Sl) \<and> card (dom Sl) \<le> 7 \<and> same_area (global_mem s) (global_mem s')"
proof -
  have "heap_mem s Map.empty (\<lambda>_. []) {}"
    using assms(1,2,4) by (simp add: heap_mem_def slab_blocks_def owned_def)
  moreover have "chains s {SLAB_MIN_ORDER..<SLAB_MIN_ORDER} (\<lambda>_. []) Map.empty" using assms(3) by (simp add: chains_def)
  moreover have "objs s Map.empty (\<lambda>_. []) = {}" by (simp add: objs_def)
  moreover have e: "init_slab = init_slab_loop 7 SLAB_MIN_ORDER" by (simp add: init_slab_def slab_consts)
  ultimately show ?thesis using assms(5) unfolding e by (intro init_slab_loop_spec) (auto simp: slab_consts)
qed

lemma heap_start:
  assumes "buddy_ok (global_mem s) {}" "0 < pfn (global_mem s)" "length (slabs s) = Suc SLAB_MAX_ORDER"
    "\<forall>i < npages (global_mem s). pslab (page_metadata (global_mem s) ! i) = 0" "4096 \<le> npages (global_mem s)"
  shows "\<exists>s'. init_slab s = Inr s' \<and> heap_ok s' {} \<and> same_area (global_mem s) (global_mem s')"
  using heap_start_few [OF assms] unfolding heap_ok_def by fastforce

section \<open>Where regions lie\<close>

text \<open>A region is aligned to its size and does not start below the pool.\<close>

lemma region_place:
  assumes "heap_ok s A" "(a, n) \<in> A"
  shows "n dvd a" "4096 * pfn (global_mem s) \<le> a"
proof -
  let ?g = "global_mem s"
  obtain Sl F C B where h: "heap_mem s Sl F B" "A = obj_region ` objs s Sl F \<union> block_region ?g ` B"
    using assms(1) by (auto simp: heap_ok_def heap_all_def)
  have inv: "buddy_inv ?g (slab_blocks Sl \<union> B)" using h(1) by (simp add: heap_mem_def buddy_ok_def)
  have "n dvd a \<and> 4096 * pfn ?g \<le> a"
  proof (cases "(a, n) \<in> obj_region ` objs s Sl F")
    case True
    then obtain x k p i where x: "a = unat x" "n = 2 ^ k" "Sl p = Some k" "x = slot_at ?g p k i" "i * 2 ^ k < 2 ^ 21"
      by (auto simp: obj_region_def objs_def slots_def)
    have "a = 4096 * (pfn ?g + p) + i * 2 ^ k" using slot_unat [of ?g p i k] heap_memD [OF h(1) x(3)] x(1,4,5) by simp
    moreover have "(2 :: nat) ^ k dvd 4096"
      using heap_memD [OF h(1) x(3)] le_imp_power_dvd [of k 12 "2 :: nat"] by (simp add: slab_consts)
    ultimately show ?thesis using x(2) by simp
  next
    case False
    then obtain p k where b: "(p, k) \<in> B" "a = 4096 * (pfn ?g + p)" "n = 4096 * 2 ^ k"
      using assms(2) h(2) by (auto simp: block_region_def)
    then have "2 ^ k dvd pfn ?g + p" using alloc_block_facts(3) [OF inv, of p k] by simp
    then have "4096 * 2 ^ k dvd 4096 * (pfn ?g + p)" by (rule mult_dvd_mono [OF dvd_refl])
    then have "n dvd a" by (simp only: b(2,3))
    then show ?thesis using b(2) by simp
  qed
  then show "n dvd a" "4096 * pfn ?g \<le> a" by blast+
qed

section \<open>The contract of an allocator of regions\<close>







section \<open>Properties\<close>

text \<open>
  On a pool that \<^verbatim>\<open>init_buddy\<close> has set up over at least 16M (not at address 0),
  \<^verbatim>\<open>init_slab\<close> always returns: coalescing keeps seven whole 2M frames free, so none of its seven
  requests for a slab runs into the panic. It leaves a well-formed heap with nothing handed out.
\<close>

theorem init_slab_correct:
  assumes "init_buddy start_page start_addr page_num = Inr (global_mem s)"
    and "4096 dvd unat start_addr" "start_addr \<noteq> 0" "unat start_addr + 4096 * unat page_num < 2 ^ 64"
    and "unat page_num \<le> length start_page" "4096 \<le> unat page_num" "length (slabs s) = Suc SLAB_MAX_ORDER"
  shows "\<exists>s'. init_slab s = Inr s' \<and> heap_ok s' {} \<and> npages (global_mem s') = unat page_num"
proof -
  obtain pool where p: "global_mem s = pool" "buddy_inv pool {}" "coalesced (pfn pool) (free_blocks pool)"
    "npages pool = unat page_num" "pool_start_addr pool = start_addr" "\<forall>i < npages pool. pslab (page_metadata pool ! i) = 0"
    using init_buddy_spec [OF assms(2,4,5)] assms(1) by auto
  have "0 < unat start_addr" using assms(3) by (simp add: unat_gt_0)
  then have "0 < pfn pool" using assms(2) p(5) by (auto simp: pfn_def elim: dvdE)
  with p assms(6,7) obtain s' where "init_slab s = Inr s'" "heap_ok s' {}" "same_area (global_mem s) (global_mem s')"
    using heap_start [of s] by (auto simp: buddy_ok_def)
  then show ?thesis using same_place(6) p(1,4) by auto
qed

definition demo_heap :: "phys_mem_pool \<Rightarrow> kheap" where
  "demo_heap pool = \<lparr>global_mem = pool, meta_addr = 0x100000, hdrs = Map.empty, next_free = Map.empty, slabs = replicate 12 0\<rparr>"

lemma demo_boot: "\<exists>pool. init_buddy (replicate 4096 \<lparr>allocated = 7, porder = 3, pslab = 9\<rparr>) 0x1000 4096 = Inr pool"
  using init_buddy_spec [where start_addr = "0x1000" and page_num = 4096 and start_page = "replicate 4096 \<lparr>allocated = 7, porder = 3, pslab = 9\<rparr>"]
  by auto

theorem init_slab_correct_witness:
  "\<exists>pool. init_buddy (replicate 4096 \<lparr>allocated = 7, porder = 3, pslab = 9\<rparr>) 0x1000 4096 = Inr pool \<and>
    (\<exists>s'. init_slab (demo_heap pool) = Inr s' \<and> heap_ok s' {} \<and> npages (global_mem s') = unat (4096 :: u64))"
proof -
  obtain pool where p: "init_buddy (replicate 4096 \<lparr>allocated = 7, porder = 3, pslab = 9\<rparr>) 0x1000 4096 = Inr pool"
    using demo_boot by blast
  then have "\<exists>s'. init_slab (demo_heap pool) = Inr s' \<and> heap_ok s' {} \<and> npages (global_mem s') = unat (4096 :: u64)"
    by (intro init_slab_correct [where start_addr = "0x1000" and start_page = "replicate 4096 \<lparr>allocated = 7, porder = 3, pslab = 9\<rparr>"])
      (simp_all add: demo_heap_def slab_consts)
  then show ?thesis using p by blast
qed

lemma demo_kheap_ok: "\<exists>s. heap_ok s {} \<and> npages (global_mem s) = 4096"
proof -
  obtain pool where "buddy_inv pool {}" "coalesced (pfn pool) (free_blocks pool)" "npages pool = 4096"
    "pool_start_addr pool = 0x1000" "\<forall>i < npages pool. pslab (page_metadata pool ! i) = 0"
    using init_buddy_spec [where start_addr = "0x1000" and page_num = 4096 and start_page = "replicate 4096 \<lparr>allocated = 7, porder = 3, pslab = 9\<rparr>"]
    by auto
  then have "\<exists>s'. init_slab (demo_heap pool) = Inr s' \<and> heap_ok s' {} \<and> same_area (global_mem (demo_heap pool)) (global_mem s')"
    by (intro heap_start) (simp_all add: demo_heap_def buddy_ok_def pfn_def slab_consts)
  then show ?thesis using same_place(6) \<open>npages pool = 4096\<close> by (force simp: demo_heap_def)
qed

text \<open>
  C6: \<^verbatim>\<open>kmalloc\<close> of up to 32M on a well-formed heap returns a region of at least the size asked
  for (and less than twice it, or 32 bytes) that lies in the pool, is aligned to its own size, is not
  NULL, and meets no byte of any region handed out before; the heap stays well-formed. Otherwise no free block of pages is large
  enough: then a request of at most 2048 bytes ends in the panic, and a larger one does not return
  NULL but the address computed from the NULL page, with the heap unchanged.
\<close>

theorem kmalloc_correct:
  assumes "heap_ok s A" "npages (global_mem s) \<le> fuel" "unat sz \<le> 2 ^ 25"
  shows "(\<exists>a n s'. kmalloc fuel sz s = Inr (a, s') \<and> a \<noteq> 0 \<and> unat sz \<le> n \<and> (n < 2 * unat sz \<or> n = 32) \<and>
      (\<forall>r \<in> A. {unat a..<unat a + n} \<inter> bytes r = {}) \<and>
      n dvd unat a \<and> 4096 * pfn (global_mem s) \<le> unat a \<and> unat a + n \<le> 4096 * (pfn (global_mem s) + npages (global_mem s)) \<and>
      heap_ok s' (insert (unat a, n) A)) \<or>
    (if unat sz \<le> 2048 then kmalloc fuel sz s = Inl BUG \<and> (\<forall>(p, m) \<in> free_blocks (global_mem s). m < 9)
     else kmalloc fuel sz s = Inr (pages_virt None s, s) \<and> (\<forall>(p, m) \<in> free_blocks (global_mem s). 4096 * 2 ^ m < unat sz))"
proof -
  have fresh: "\<exists>n. a \<noteq> 0 \<and> unat sz \<le> n \<and> (n < 2 * unat sz \<or> n = 32) \<and> (\<forall>r \<in> A. {unat a..<unat a + n} \<inter> bytes r = {}) \<and>
      n dvd unat a \<and> 4096 * pfn (global_mem s) \<le> unat a \<and> unat a + n \<le> 4096 * (pfn (global_mem s) + npages (global_mem s)) \<and>
      heap_ok s' (insert (unat a, n) A)"
    if sv: "served sz s A a s'" for a s'
  proof -
    obtain n where n: "unat sz \<le> n" "n < 2 * unat sz \<or> n = 32" "(unat a, n) \<notin> A" "heap_ok s' (insert (unat a, n) A)"
      "same_area (global_mem s) (global_mem s')"
      using sv by (auto simp: served_def)
    have "{unat a..<unat a + n} \<inter> bytes r = {}" if "r \<in> A" for r
    proof -
      have "bytes (unat a, n) \<inter> bytes r = {}" by (rule regions_apart [OF n(4)]) (use that n(3) in auto)
      then show ?thesis by (simp add: bytes_def)
    qed
    moreover have "unat a + n \<le> 4096 * (pfn (global_mem s) + npages (global_mem s))" "4096 \<le> unat a"
      using region_bounds [OF n(4), of "unat a" n] by (simp_all add: same_place(6,7) [OF n(5)])
    moreover from this(2) have "a \<noteq> 0" by auto
    moreover have "n dvd unat a" "4096 * pfn (global_mem s) \<le> unat a"
      using region_place [OF n(4), of "unat a" n] by (simp_all add: same_place(7) [OF n(5)])
    ultimately show ?thesis using n by blast
  qed
  have c: "sz \<le> order_to_size SLAB_MAX_ORDER \<longleftrightarrow> unat sz \<le> 2048"
    by (simp add: word_le_nat_alt order_to_size_def slab_consts)
  show ?thesis
  proof (cases "(\<exists>a s'. kmalloc fuel sz s = Inr (a, s') \<and> served sz s A a s')")
    case True
    then obtain a s' where "kmalloc fuel sz s = Inr (a, s')" "served sz s A a s'" by blast
    with fresh [of a s'] show ?thesis by blast
  next
    case no: False
    show ?thesis
    proof (cases "unat sz \<le> 2048")
      case True
      then show ?thesis using kmalloc_small [OF assms(1,2), of sz] no c by (simp add: need_def)
    next
      case False
      have "4096 * 2 ^ m < unat sz" if "m < need sz" for m
        using page_order_least [of m sz] that False c by (simp add: need_def)
      moreover have "kmalloc fuel sz s = Inr (pages_virt None s, s)" "\<forall>(p, m) \<in> free_blocks (global_mem s). m < need sz"
        using kmalloc_large [OF assms(1) _ assms(3), of fuel] no False c by blast+
      ultimately show ?thesis using False by fastforce
    qed
  qed
qed

theorem kmalloc_correct_witness:
  "\<exists>s. heap_ok s {} \<and> npages (global_mem s) = 4096 \<and>
   ((\<exists>a n s'. kmalloc 4096 100 s = Inr (a, s') \<and> a \<noteq> 0 \<and> unat (100 :: u64) \<le> n \<and> (n < 2 * unat (100 :: u64) \<or> n = 32) \<and>
      (\<forall>r \<in> {}. {unat a..<unat a + n} \<inter> bytes r = {}) \<and>
      n dvd unat a \<and> 4096 * pfn (global_mem s) \<le> unat a \<and> unat a + n \<le> 4096 * (pfn (global_mem s) + npages (global_mem s)) \<and>
      heap_ok s' (insert (unat a, n) {})) \<or>
    (if unat (100 :: u64) \<le> 2048 then kmalloc 4096 100 s = Inl BUG \<and> (\<forall>(p, m) \<in> free_blocks (global_mem s). m < 9)
     else kmalloc 4096 100 s = Inr (pages_virt None s, s) \<and>
       (\<forall>(p, m) \<in> free_blocks (global_mem s). 4096 * 2 ^ m < unat (100 :: u64))))"
proof -
  obtain s where s: "heap_ok s {}" "npages (global_mem s) = 4096" using demo_kheap_ok by blast
  show ?thesis by (rule exI [of _ s], intro conjI s, rule kmalloc_correct [OF s(1)]) (simp_all add: s(2))
qed

text \<open>
  C15: \<^verbatim>\<open>kfree\<close> of a region that \<^verbatim>\<open>kmalloc\<close> handed out, object or pages, returns, and exactly
  this region is no longer in the hands of the clients; all others keep theirs.
\<close>

theorem kfree_correct:
  assumes "heap_ok s A" "(unat a, n) \<in> A"
  shows "\<exists>s'. kfree a s = Inr s' \<and> heap_ok s' (A - {(unat a, n)})"
  using kfree_spec [OF assms] by blast

theorem kfree_correct_witness:
  "\<exists>s a n. heap_ok s {(unat a, n)} \<and> (\<exists>s'. kfree a s = Inr s' \<and> heap_ok s' ({(unat a, n)} - {(unat a, n)}))"
proof -
  obtain s where s: "heap_ok s {}" "npages (global_mem s) = 4096" using demo_kheap_ok by blast
  obtain Sl F C B where h: "heap_all s Sl F C B" "{} = obj_region ` objs s Sl F \<union> block_region (global_mem s) ` B"
    using s(1) by (auto simp: heap_ok_def)
  have "C 5 \<noteq> []" "set (C 5) = {p. Sl p = Some 5}" using h(1) by (auto simp: heap_all_def chains_def slab_consts)
  then obtain p where p: "Sl p = Some 5" by (metis list.set_intros(1) mem_Collect_eq neq_Nil_conv)
  have hm: "heap_mem s Sl F B" using h(1) by (simp add: heap_all_def)
  have "slot_at (global_mem s) p 5 1 \<in> slots (global_mem s) p 5" by (auto simp: slots_def)
  moreover have "objs s Sl F = {}" using h(2) by simp
  ultimately have "F p \<noteq> []" using p unfolding objs_def by fastforce
  from took_pop [OF h(1) p this] obtain x s' where "took 5 s Sl F B x s'" by blast
  from took_region(2) [OF h this] have ok: "heap_ok s' {(unat x, 2 ^ 5)}" by (simp add: obj_region_def)
  then show ?thesis using kfree_correct [OF ok, of x "2 ^ 5"] by blast
qed



end
