(* ===== verification/Boot.thy ===== *)
theory Boot
  imports PageTable
begin

text \<open>
  The boot page tables (\<^verbatim>\<open>boot/mmu.c\<close>), which the processor uses from the moment the MMU is
  switched on, and \<^verbatim>\<open>clear_bss\<close> of \<^verbatim>\<open>boot/init_c.c\<close>. The six tables are arrays of the boot
  image at addresses that the linker chooses. \<open>vmsa_walk\<close> is the documented translation of the
  processor (4K granule), against which the tables are judged.
\<close>

section \<open>The code\<close>

definition PHYSMEM_START :: u64 where "PHYSMEM_START = 0"
definition PHYSMEM_BOOT_END :: u64 where "PHYSMEM_BOOT_END = 0x10000000"
definition PERIPHERAL_BASE :: u64 where "PERIPHERAL_BASE = 0x20000000"
definition PHYSMEM_END :: u64 where "PHYSMEM_END = 0x40000000"
definition PTP_ENTRIES :: nat where "PTP_ENTRIES = 512"
definition IS_VALID :: u64 where "IS_VALID = push_bit 0 1"
definition IS_TABLE :: u64 where "IS_TABLE = push_bit 1 1"
definition UXN :: u64 where "UXN = push_bit 54 1"
definition ACCESSED :: u64 where "ACCESSED = push_bit 10 1"
definition INNER_SHARABLE :: u64 where "INNER_SHARABLE = push_bit 8 3"
definition NORMAL_MEMORY :: u64 where "NORMAL_MEMORY = push_bit 2 4"
definition DEVICE_MEMORY :: u64 where "DEVICE_MEMORY = push_bit 2 0"
definition SIZE_2M :: u64 where "SIZE_2M = 2 * 1024 * 1024"
definition KERNEL_VADDR :: u64 where "KERNEL_VADDR = 0xffffff0000000000"

text \<open>\<^verbatim>\<open>GET_L0_INDEX\<close> to \<^verbatim>\<open>GET_L2_INDEX\<close> of the boot code.\<close>

definition boot_index :: "nat \<Rightarrow> u64 \<Rightarrow> nat" where
  "boot_index level x = unat (drop_bit (12 + 9 * (3 - level)) x AND 0x1ff)"

record boot_tables =
  boot_ttbr0_l0 :: "u64 list"
  boot_ttbr0_l1 :: "u64 list"
  boot_ttbr0_l2 :: "u64 list"
  boot_ttbr1_l0 :: "u64 list"
  boot_ttbr1_l1 :: "u64 list"
  boot_ttbr1_l2 :: "u64 list"

record boot_addrs =
  at_ttbr0_l0 :: u64
  at_ttbr0_l1 :: u64
  at_ttbr0_l2 :: u64
  at_ttbr1_l0 :: u64
  at_ttbr1_l1 :: u64
  at_ttbr1_l2 :: u64

text \<open>The loops over \<^verbatim>\<open>idx\<close>; \<open>attrs\<close> are the flags of their loop body.\<close>

fun fill_blocks :: "nat \<Rightarrow> nat \<Rightarrow> u64 \<Rightarrow> u64 list \<Rightarrow> u64 list res" where
  "fill_blocks 0 idx attrs tab = Inr tab"
| "fill_blocks (Suc n) idx attrs tab =
     bindR (arr_set tab idx ((PHYSMEM_START + of_nat idx * SIZE_2M) OR attrs)) (fill_blocks n (Suc idx) attrs)"

definition for_blocks :: "nat \<Rightarrow> nat \<Rightarrow> u64 \<Rightarrow> u64 list \<Rightarrow> u64 list res" where
  "for_blocks start_entry_idx end_entry_idx attrs tab =
     fill_blocks (end_entry_idx - start_entry_idx) start_entry_idx attrs tab"

definition normal_flags :: u64 where
  "normal_flags = UXN OR ACCESSED OR INNER_SHARABLE OR NORMAL_MEMORY OR IS_VALID"

definition device_flags :: u64 where
  "device_flags = UXN OR ACCESSED OR DEVICE_MEMORY OR IS_VALID"

definition init_ttbr0 :: "boot_addrs \<Rightarrow> boot_tables \<Rightarrow> boot_tables res" where
  "init_ttbr0 a b =
     bindR (arr_set (boot_ttbr0_l0 b) 0 (at_ttbr0_l1 a OR IS_TABLE OR IS_VALID)) (\<lambda>l0.
     bindR (arr_set (boot_ttbr0_l1 b) 0 (at_ttbr0_l2 a OR IS_TABLE OR IS_VALID)) (\<lambda>l1.
     let start_entry_idx = unat (PHYSMEM_START div SIZE_2M);
         end_entry_idx = unat (PERIPHERAL_BASE div SIZE_2M) in
     bindR (for_blocks start_entry_idx end_entry_idx normal_flags (boot_ttbr0_l2 b)) (\<lambda>l2.
     let start_entry_idx = end_entry_idx;
         end_entry_idx = unat (PHYSMEM_END div SIZE_2M) in
     bindR (for_blocks start_entry_idx end_entry_idx device_flags l2) (\<lambda>l2.
     Inr (b\<lparr>boot_ttbr0_l0 := l0, boot_ttbr0_l1 := l1, boot_ttbr0_l2 := l2\<rparr>)))))"

definition init_ttbr1 :: "boot_addrs \<Rightarrow> boot_tables \<Rightarrow> boot_tables res" where
  "init_ttbr1 a b =
     (let kva = KERNEL_VADDR in
     bindR (arr_set (boot_ttbr1_l0 b) (boot_index 0 kva) (at_ttbr1_l1 a OR IS_TABLE OR IS_VALID)) (\<lambda>l0.
     bindR (arr_set (boot_ttbr1_l1 b) (boot_index 1 kva) (at_ttbr1_l2 a OR IS_TABLE OR IS_VALID)) (\<lambda>l1.
     let start_entry_idx = boot_index 2 kva;
         end_entry_idx = start_entry_idx + unat (PHYSMEM_BOOT_END div SIZE_2M) in
     bindR (for_blocks start_entry_idx end_entry_idx normal_flags (boot_ttbr1_l2 b)) (\<lambda>l2.
     let start_entry_idx = start_entry_idx + unat (PERIPHERAL_BASE div SIZE_2M);
         end_entry_idx = unat (PHYSMEM_END div SIZE_2M) in
     bindR (for_blocks start_entry_idx end_entry_idx device_flags l2) (\<lambda>l2.
     let kva = KERNEL_VADDR + PHYSMEM_END in
     bindR (arr_set l1 (boot_index 1 kva) (PHYSMEM_END OR device_flags)) (\<lambda>l1.
     Inr (b\<lparr>boot_ttbr1_l0 := l0, boot_ttbr1_l1 := l1, boot_ttbr1_l2 := l2\<rparr>)))))))"

definition init_boot_pt :: "boot_addrs \<Rightarrow> boot_tables \<Rightarrow> boot_tables res" where
  "init_boot_pt a b = bindR (init_ttbr0 a b) (init_ttbr1 a)"

text \<open>\<^verbatim>\<open>clear_bss\<close>: the loop over the bytes from \<^verbatim>\<open>_bss_start\<close> to \<^verbatim>\<open>_bss_end\<close>.\<close>

definition clear_bss :: "u64 \<Rightarrow> u64 \<Rightarrow> (u64 \<Rightarrow> u8) \<Rightarrow> (u64 \<Rightarrow> u8)" where
  "clear_bss bss_start bss_end mem =
     fold (\<lambda>i m. m(of_nat i := 0)) [unat bss_start..<unat bss_end] mem"

section \<open>The translation of the processor\<close>

text \<open>
  Tables are found under physical addresses. The result is the output address and the descriptor.
  Bits 47 to 12 of a table or page descriptor, and 47 to 30 or 21 of a block, are the address.
\<close>

definition out_addr :: "nat \<Rightarrow> u64 \<Rightarrow> u64 \<Rightarrow> u64" where
  "out_addr level e va =
     (let n = 12 + 9 * (3 - level) in (take_bit 48 e AND NOT (mask n)) OR take_bit n va)"

fun vmsa_walk :: "nat \<Rightarrow> nat \<Rightarrow> (u64 \<Rightarrow> u64 list option) \<Rightarrow> u64 \<Rightarrow> u64 \<Rightarrow> (u64 \<times> u64) option" where
  "vmsa_walk 0 level m table va = None"
| "vmsa_walk (Suc n) level m table va =
     (case m table of None \<Rightarrow> None | Some ws \<Rightarrow>
       let e = ws ! GET_INDEX level va in
       if \<not> bit e 0 then None
       else if bit e 1 then
         (if level = 3 then Some (out_addr 3 e va, e)
          else vmsa_walk n (Suc level) m (take_bit 48 e AND NOT (mask 12)) va)
       else if level = 1 \<or> level = 2 then Some (out_addr level e va, e)
       else None)"

definition translate :: "(u64 \<Rightarrow> u64 list option) \<Rightarrow> u64 \<Rightarrow> u64 \<Rightarrow> (u64 \<times> u64) option" where
  "translate m ttbr va = vmsa_walk 4 0 m ttbr va"

text \<open>The memory type: index into the table of types, 4 for normal memory and 0 for devices.\<close>

definition mem_type :: "u64 \<Rightarrow> u64" where
  "mem_type e = get_field 2 3 e"

section \<open>Contents of the tables\<close>

lemmas boot_consts = PHYSMEM_START_def PHYSMEM_BOOT_END_def PERIPHERAL_BASE_def PHYSMEM_END_def PTP_ENTRIES_def
  IS_VALID_def IS_TABLE_def UXN_def ACCESSED_def INNER_SHARABLE_def NORMAL_MEMORY_def DEVICE_MEMORY_def
  SIZE_2M_def KERNEL_VADDR_def

definition block_entry :: "u64 \<Rightarrow> nat \<Rightarrow> u64" where
  "block_entry attrs i = (of_nat i * SIZE_2M) OR attrs"

lemma fill_blocks_spec:
  "idx + n \<le> length tab \<Longrightarrow> \<exists>tab'. fill_blocks n idx attrs tab = Inr tab' \<and> length tab' = length tab \<and>
    (\<forall>j. tab' ! j = (if idx \<le> j \<and> j < idx + n then block_entry attrs j else tab ! j))"
proof (induction n arbitrary: idx tab)
  case 0
  then show ?case by auto
next
  case (Suc n)
  let ?t = "tab[idx := block_entry attrs idx]"
  have "Suc idx + n \<le> length ?t" using Suc.prems by simp
  from Suc.IH [OF this] obtain tab' where t: "fill_blocks n (Suc idx) attrs ?t = Inr tab'" "length tab' = length ?t"
    "\<forall>j. tab' ! j = (if Suc idx \<le> j \<and> j < Suc idx + n then block_entry attrs j else ?t ! j)" by blast
  have "fill_blocks (Suc n) idx attrs tab = Inr tab'"
    using t(1) Suc.prems by (simp add: block_entry_def PHYSMEM_START_def)
  then show ?case using t(2,3) Suc.prems by (intro exI [of _ tab']) (auto simp: nth_list_update)
qed

lemma for_blocks_map:
  assumes "length tab = 512" "i \<le> j" "j \<le> 512"
  shows "for_blocks i j attrs tab = Inr (map (\<lambda>k. if i \<le> k \<and> k < j then block_entry attrs k else tab ! k) [0..<512])"
proof -
  have "i + (j - i) \<le> length tab" using assms by simp
  from fill_blocks_spec [OF this] obtain tab' where "fill_blocks (j - i) i attrs tab = Inr tab'" "length tab' = length tab"
    "\<forall>k. tab' ! k = (if i \<le> k \<and> k < i + (j - i) then block_entry attrs k else tab ! k)" by blast
  then show ?thesis unfolding for_blocks_def using assms by (auto intro!: nth_equalityI)
qed

definition zero_tables :: boot_tables where
  "zero_tables = (let z = replicate PTP_ENTRIES 0 in
     \<lparr>boot_ttbr0_l0 = z, boot_ttbr0_l1 = z, boot_ttbr0_l2 = z, boot_ttbr1_l0 = z, boot_ttbr1_l1 = z, boot_ttbr1_l2 = z\<rparr>)"

definition l2_identity :: "u64 list" where
  "l2_identity = map (\<lambda>k. if k < 256 then block_entry normal_flags k else block_entry device_flags k) [0..<512]"

definition l2_kernel :: "u64 list" where
  "l2_kernel = map (\<lambda>k. if k < 128 then block_entry normal_flags k else if k < 256 then 0 else block_entry device_flags k) [0..<512]"

lemma init_boot_pt_tables:
  "init_boot_pt a zero_tables = Inr
    \<lparr>boot_ttbr0_l0 = (replicate 512 0)[0 := at_ttbr0_l1 a OR 3], boot_ttbr0_l1 = (replicate 512 0)[0 := at_ttbr0_l2 a OR 3],
     boot_ttbr0_l2 = l2_identity,
     boot_ttbr1_l0 = (replicate 512 0)[510 := at_ttbr1_l1 a OR 3],
     boot_ttbr1_l1 = (replicate 512 0)[0 := at_ttbr1_l2 a OR 3, 1 := PHYSMEM_END OR device_flags],
     boot_ttbr1_l2 = l2_kernel\<rparr>"
proof -
  have n: "unat (PHYSMEM_START div SIZE_2M) = 0" "unat (PERIPHERAL_BASE div SIZE_2M) = 256"
    "unat (PHYSMEM_END div SIZE_2M) = 512" "unat (PHYSMEM_BOOT_END div SIZE_2M) = 128"
    "boot_index 0 KERNEL_VADDR = 510" "boot_index 1 KERNEL_VADDR = 0" "boot_index 2 KERNEL_VADDR = 0"
    "boot_index 1 (KERNEL_VADDR + PHYSMEM_END) = 1"
    by code_simp+
  have f: "IS_TABLE OR IS_VALID = 3" by code_simp
  define z where "z = replicate 512 (0 :: u64)"
  have z: "length z = 512" "\<And>k. k < 512 \<Longrightarrow> z ! k = 0" by (simp_all add: z_def)
  define t0 where "t0 = map (\<lambda>k. if k < 256 then block_entry normal_flags k else 0) [0..<512]"
  define t1 where "t1 = map (\<lambda>k. if k < 128 then block_entry normal_flags k else 0) [0..<512]"
  have l: "for_blocks 0 256 normal_flags z = Inr t0" "for_blocks 0 (0 + 128) normal_flags z = Inr t1"
    by (simp_all add: for_blocks_map z t0_def t1_def)
  have l': "for_blocks 256 512 device_flags t0 = Inr l2_identity" "for_blocks (0 + 256) 512 device_flags t1 = Inr l2_kernel"
    by (simp_all add: for_blocks_map t0_def t1_def l2_identity_def l2_kernel_def)
  have a: "init_ttbr0 a zero_tables = Inr (zero_tables\<lparr>boot_ttbr0_l0 := z[0 := at_ttbr0_l1 a OR 3],
      boot_ttbr0_l1 := z[0 := at_ttbr0_l2 a OR 3], boot_ttbr0_l2 := l2_identity\<rparr>)"
    unfolding init_ttbr0_def Let_def n zero_tables_def PTP_ENTRIES_def z_def [symmetric]
    by (simp add: z l l' or.assoc f)
  have "init_ttbr1 a (zero_tables\<lparr>boot_ttbr0_l0 := t, boot_ttbr0_l1 := u, boot_ttbr0_l2 := v\<rparr>) =
    Inr (zero_tables\<lparr>boot_ttbr0_l0 := t, boot_ttbr0_l1 := u, boot_ttbr0_l2 := v, boot_ttbr1_l0 := z[510 := at_ttbr1_l1 a OR 3],
      boot_ttbr1_l1 := z[0 := at_ttbr1_l2 a OR 3, 1 := PHYSMEM_END OR device_flags], boot_ttbr1_l2 := l2_kernel\<rparr>)" for t u v
    unfolding init_ttbr1_def Let_def n zero_tables_def PTP_ENTRIES_def z_def [symmetric] boot_tables.simps l bindR_simps
    by (simp add: z l l' [simplified] or.assoc f)
  then show ?thesis using a by (simp add: init_boot_pt_def zero_tables_def Let_def PTP_ENTRIES_def z_def)
qed

section \<open>Walking the tables\<close>

definition plain :: "u64 \<Rightarrow> bool" where
  "plain attrs \<longleftrightarrow> attrs AND 0x0000FFFFFFFFF000 = 0 \<and> bit attrs 0 \<and> \<not> bit attrs 1"

lemma flags_plain: "plain normal_flags" "plain device_flags"
  "mem_type normal_flags = 4" "mem_type device_flags = 0" "bit normal_flags 54" "bit device_flags 54"
  unfolding plain_def by code_simp+

lemma plain_bit:
  assumes "plain attrs" "12 \<le> j" "j < 48"
  shows "\<not> bit attrs j"
proof -
  have e: "(0x0000FFFFFFFFF000 :: u64) = mask 48 AND NOT (mask 12)" by code_simp
  have "bit (0x0000FFFFFFFFF000 :: u64) j" using assms(2,3) by (simp only: e bit_and_iff bit_not_iff bit_mask_iff) simp
  moreover have "\<not> bit (attrs AND 0x0000FFFFFFFFF000) j" using assms(1) by (simp add: plain_def)
  ultimately show ?thesis by (simp only: bit_and_iff) simp
qed

text \<open>The entry of an address: its index and the flags.\<close>

lemma block_entry_index: "block_entry attrs (GET_INDEX 2 va) = push_bit 21 (drop_bit 21 va AND 511) OR attrs"
proof -
  have "SIZE_2M = 2 ^ 21" by code_simp
  then show ?thesis by (simp add: block_entry_def GET_INDEX_def PAGE_SHIFT_def push_bit_eq_mult)
qed

lemma and_511: "(x :: u64) AND 511 = take_bit 9 x"
  by (simp add: take_bit_eq_mask mask_eq_exp_minus_1)

lemma block_out:
  assumes "plain attrs"
  shows "out_addr 2 (block_entry attrs (GET_INDEX 2 va)) va = take_bit 30 va"
  unfolding out_addr_def Let_def block_entry_index and_511
  by (rule bit_word_eqI) (auto simp: bit_simps plain_bit [OF assms])

lemma block_bits:
  assumes "j < 12 \<or> 48 \<le> j"
  shows "bit (block_entry attrs (GET_INDEX 2 va)) j = bit attrs j"
  unfolding block_entry_index and_511 using assms bit_imp_le_length [of attrs j] by (auto simp: bit_simps)

lemma block_type: "mem_type (block_entry attrs (GET_INDEX 2 va)) = mem_type attrs"
  unfolding mem_type_def by (rule bit_word_eqI) (use block_bits in auto)

text \<open>Addresses of tables.\<close>

definition table_at :: "u64 \<Rightarrow> bool" where
  "table_at a \<longleftrightarrow> take_bit 12 a = 0 \<and> drop_bit 30 a = 0"

lemma table_at_bit:
  assumes "table_at a" "j < 12 \<or> 30 \<le> j"
  shows "\<not> bit a j"
proof
  assume b: "bit a j"
  then have "bit (take_bit 12 a) j \<or> bit (drop_bit 30 a) (j - 30)" using assms(2) by (auto simp: bit_simps)
  then show False using assms(1) by (simp add: table_at_def)
qed

lemma table_entry:
  assumes "table_at a"
  shows "bit (a OR 3) 0" "bit (a OR 3) 1" "take_bit 48 (a OR 3) AND NOT (mask 12) = a" "IS_PTE_TABLE (a OR 3)" "\<not> IS_PTE_INVALID (a OR 3)"
    "GET_NEXT_PTP (a OR 3) = phys_to_virt a"
proof -
  have 3: "(3 :: u64) = mask 2" by (simp add: mask_eq_exp_minus_1)
  have b: "bit (3 :: u64) j \<longleftrightarrow> j < 2" for j by (simp only: 3 bit_mask_iff) auto
  have in_a: "bit a j \<Longrightarrow> 12 \<le> j \<and> j < 30" for j using table_at_bit [OF assms, of j] by linarith
  show "bit (a OR 3) 0" "bit (a OR 3) 1" by (simp_all only: bit_or_iff b) simp_all
  then show "IS_PTE_TABLE (a OR 3)" "\<not> IS_PTE_INVALID (a OR 3)" by (simp_all add: IS_PTE_TABLE_bit IS_PTE_INVALID_bit)
  show "take_bit 48 (a OR 3) AND NOT (mask 12) = a"
    by (rule bit_word_eqI) (auto simp: bit_simps b simp del: bit_numeral_word_iff dest: in_a)
  have "GET_PADDR_IN_PTE (a OR 3) = a"
    unfolding GET_PADDR_IN_PTE_def PAGE_SHIFT_def
    by (rule bit_word_eqI) (auto simp: bit_simps b simp del: bit_numeral_word_iff dest: in_a, metis in_a le_add_diff_inverse)
  then show "GET_NEXT_PTP (a OR 3) = phys_to_virt a" by (simp add: GET_NEXT_PTP_def)
qed

text \<open>A walk through two tables to the level-2 entry.\<close>

lemma walk_table:
  assumes "m t = Some ws" "ws ! GET_INDEX level va = a OR 3" "table_at a" "level < 3"
  shows "vmsa_walk (Suc n) level m t va = vmsa_walk n (Suc level) m a va"
  using assms table_entry(1-3) [OF assms(3)] by (simp add: Let_def)

lemma walk_block:
  assumes "m t = Some ws" "\<not> bit (ws ! GET_INDEX level va) 1" "level = 1 \<or> level = 2"
  shows "vmsa_walk (Suc n) level m t va =
    (if bit (ws ! GET_INDEX level va) 0 then Some (out_addr level (ws ! GET_INDEX level va) va, ws ! GET_INDEX level va) else None)"
  using assms by (simp add: Let_def)

lemma translate_l2:
  assumes "m r = Some l0" "l0 ! GET_INDEX 0 va = a1 OR 3" "table_at a1"
    and "m a1 = Some l1" "l1 ! GET_INDEX 1 va = a2 OR 3" "table_at a2" "m a2 = Some l2"
    and "l2 ! GET_INDEX 2 va = e" "\<not> bit e 1"
  shows "translate m r va = (if bit e 0 then Some (out_addr 2 e va, e) else None)"
proof -
  have four: "(4 :: nat) = Suc (Suc (Suc (Suc 0)))" by simp
  have "translate m r va = vmsa_walk (Suc (Suc (Suc (Suc 0)))) 0 m r va" unfolding translate_def four ..
  also have "\<dots> = vmsa_walk (Suc (Suc (Suc 0))) (Suc 0) m a1 va" by (rule walk_table) (use assms(1-3) in simp_all)
  also have "\<dots> = vmsa_walk (Suc (Suc 0)) (Suc (Suc 0)) m a2 va" by (rule walk_table) (use assms(4-6) in simp_all)
  also have "\<dots> = (if bit e 0 then Some (out_addr 2 e va, e) else None)"
    using walk_block [of m a2 l2 "Suc (Suc 0)" va "Suc 0"] assms(7-9) by (simp add: numeral_2_eq_2)
  finally show ?thesis .
qed

lemma kernel_index:
  assumes "pa < 0x80000000"
  shows "GET_INDEX 0 (KBASE + pa) = 510" "GET_INDEX 1 (KBASE + pa) = unat pa div 2 ^ 30"
    "GET_INDEX 2 (KBASE + pa) = unat pa div 2 ^ 21 mod 512" "take_bit 30 (KBASE + pa) = take_bit 30 pa" "take_bit 31 (KBASE + pa) = pa"
proof -
  have u: "unat pa < 2 ^ 31" using assms by (simp add: word_less_nat_alt)
  then have "take_bit 31 pa = pa" by (simp add: word_unat_eq_iff unsigned_take_bit_eq take_bit_nat_eq_self)
  then have hi: "\<not> bit pa j" if "31 \<le> j" for j using that by (metis bit_take_bit_iff not_less)
  then have lo: "bit pa j \<Longrightarrow> j < 31" for j using not_less by blast
  have d: "unat (drop_bit k pa) = unat pa div 2 ^ k" for k
    by (simp only: unat_drop_bit_eq) (simp only: drop_bit_eq_div)
  have kb: "bit KBASE j \<longleftrightarrow> 40 \<le> j \<and> j < 64" for j
  proof -
    have e: "KBASE = push_bit 40 (mask 24)" unfolding KBASE_def by code_simp
    show ?thesis by (simp only: e bit_push_bit_iff bit_mask_iff) auto
  qed
  have "KBASE + pa = KBASE OR pa" by (rule disjunctive_add) (use hi kb in auto)
  then have b: "bit (KBASE + pa) j \<longleftrightarrow> 40 \<le> j \<and> j < 64 \<or> bit pa j" for j by (simp add: bit_or_iff kb)
  have "drop_bit 39 (KBASE + pa) AND 511 = 510"
  proof -
    have e: "(510 :: u64) = push_bit 1 (mask 8)" by code_simp
    have b510: "bit (510 :: u64) j \<longleftrightarrow> 1 \<le> j \<and> j < 9" for j by (simp only: e bit_push_bit_iff bit_mask_iff) auto
    show ?thesis unfolding and_511
    proof (rule bit_word_eqI)
      fix j
      have "\<not> bit pa (39 + j)" using lo [of "39 + j"] by linarith
      then show "bit (take_bit 9 (drop_bit 39 (KBASE + pa))) j = bit (510 :: u64) j"
        unfolding b510 by (auto simp: bit_take_bit_iff bit_drop_bit_eq b)
    qed
  qed
  then show "GET_INDEX 0 (KBASE + pa) = 510" by (simp add: GET_INDEX_def PAGE_SHIFT_def)
  have "drop_bit 30 (KBASE + pa) AND 511 = drop_bit 30 pa"
    unfolding and_511
  proof (rule bit_word_eqI)
    fix j
    have "bit pa (30 + j) \<Longrightarrow> j < 9" using lo [of "30 + j"] by linarith
    then show "bit (take_bit 9 (drop_bit 30 (KBASE + pa))) j = bit (drop_bit 30 pa) j" by (auto simp: bit_simps b)
  qed
  then show "GET_INDEX 1 (KBASE + pa) = unat pa div 2 ^ 30" by (simp add: GET_INDEX_def PAGE_SHIFT_def d [of 30, simplified])
  have "drop_bit 21 (KBASE + pa) AND 511 = take_bit 9 (drop_bit 21 pa)"
    unfolding and_511 by (rule bit_word_eqI) (auto simp: bit_simps b)
  then show "GET_INDEX 2 (KBASE + pa) = unat pa div 2 ^ 21 mod 512"
    by (simp add: GET_INDEX_def PAGE_SHIFT_def unat_mod d [of 21, simplified] take_bit_eq_mod)
  show "take_bit 30 (KBASE + pa) = take_bit 30 pa" by (rule bit_word_eqI) (auto simp: bit_simps b)
  show "take_bit 31 (KBASE + pa) = pa"
  proof (rule bit_word_eqI)
    fix j
    show "bit (take_bit 31 (KBASE + pa)) j = bit pa j" using lo [of j] by (auto simp: bit_simps b)
  qed
qed

lemma identity_index:
  assumes "pa < 0x40000000"
  shows "GET_INDEX 0 pa = 0" "GET_INDEX 1 pa = 0" "GET_INDEX 2 pa = unat pa div 2 ^ 21" "take_bit 30 pa = pa"
proof -
  have u: "unat pa < 2 ^ 30" using assms by (simp add: word_less_nat_alt)
  then show "take_bit 30 pa = pa" by (simp add: word_unat_eq_iff unsigned_take_bit_eq take_bit_nat_eq_self)
  have d: "unat (drop_bit k pa AND 511) = unat pa div 2 ^ k mod 512" for k
    unfolding and_511 unsigned_take_bit_eq unat_drop_bit_eq by (simp only: drop_bit_eq_div take_bit_eq_mod) simp
  have "unat pa div 2 ^ 21 < 512" using u by (simp add: less_mult_imp_div_less)
  then show "GET_INDEX 2 pa = unat pa div 2 ^ 21" by (simp add: GET_INDEX_def PAGE_SHIFT_def d [simplified])
  have "unat pa div 2 ^ 30 = 0" "unat pa div 2 ^ 39 = 0" using u by simp_all
  then show "GET_INDEX 0 pa = 0" "GET_INDEX 1 pa = 0"
    using d [of 39] d [of 30] by (simp_all add: GET_INDEX_def PAGE_SHIFT_def)
qed

section \<open>The kernel address space\<close>

definition placed :: "boot_addrs \<Rightarrow> bool" where
  "placed a \<longleftrightarrow> (let as = [at_ttbr0_l0 a, at_ttbr0_l1 a, at_ttbr0_l2 a, at_ttbr1_l0 a, at_ttbr1_l1 a, at_ttbr1_l2 a] in
     distinct as \<and> (\<forall>x \<in> set as. table_at x \<and> x \<noteq> 0))"

definition boot_mem :: "boot_addrs \<Rightarrow> boot_tables \<Rightarrow> u64 \<Rightarrow> u64 list option" where
  "boot_mem a b = [at_ttbr0_l0 a \<mapsto> boot_ttbr0_l0 b, at_ttbr0_l1 a \<mapsto> boot_ttbr0_l1 b, at_ttbr0_l2 a \<mapsto> boot_ttbr0_l2 b,
     at_ttbr1_l0 a \<mapsto> boot_ttbr1_l0 b, at_ttbr1_l1 a \<mapsto> boot_ttbr1_l1 b, at_ttbr1_l2 a \<mapsto> boot_ttbr1_l2 b]"

text \<open>What a translation is about: the output address, the memory type, and whether user mode may execute.\<close>

definition summary :: "(u64 \<times> u64) option \<Rightarrow> (u64 \<times> u64 \<times> bool) option" where
  "summary = map_option (\<lambda>(pa, e). (pa, mem_type e, \<not> bit e 54))"

lemma block_summary:
  assumes "plain attrs"
  shows "\<not> bit (block_entry attrs (GET_INDEX 2 va)) 1" "bit (block_entry attrs (GET_INDEX 2 va)) 0"
    "summary (Some (out_addr 2 (block_entry attrs (GET_INDEX 2 va)) va, block_entry attrs (GET_INDEX 2 va))) =
      Some (take_bit 30 va, mem_type attrs, \<not> bit attrs 54)"
  using assms block_out [OF assms, of va] by (simp_all add: block_bits summary_def block_type) (simp_all add: plain_def)

lemma translate_l1:
  assumes "m r = Some l0" "l0 ! GET_INDEX 0 va = a1 OR 3" "table_at a1" "m a1 = Some l1"
    and "l1 ! GET_INDEX 1 va = e" "\<not> bit e 1" "bit e 0"
  shows "translate m r va = Some (out_addr 1 e va, e)"
proof -
  have four: "(4 :: nat) = Suc (Suc (Suc (Suc 0)))" by simp
  have "translate m r va = vmsa_walk (Suc (Suc (Suc (Suc 0)))) 0 m r va" unfolding translate_def four ..
  also have "\<dots> = vmsa_walk (Suc (Suc (Suc 0))) (Suc 0) m a1 va" by (rule walk_table) (use assms(1-3) in simp_all)
  also have "\<dots> = Some (out_addr 1 e va, e)"
    using walk_block [of m a1 l1 "Suc 0" va "Suc (Suc 0)"] assms(4-7) by simp
  finally show ?thesis .
qed

text \<open>The 1G block for the local peripherals.\<close>

lemma peripheral_block:
  assumes "0x40000000 \<le> pa" "pa < 0x80000000"
  shows "summary (Some (out_addr 1 (PHYSMEM_END OR device_flags) (KBASE + pa), PHYSMEM_END OR device_flags)) = Some (pa, 0, False)"
proof -
  have e: "PHYSMEM_END OR device_flags = 0x40000040000401" by code_simp
  have "out_addr 1 (PHYSMEM_END OR device_flags) (KBASE + pa) = 0x40000000 OR take_bit 30 pa"
  proof -
    have "take_bit 48 (PHYSMEM_END OR device_flags) AND NOT (mask 30) = 0x40000000" by code_simp
    then show ?thesis by (simp add: out_addr_def Let_def kernel_index(4) [OF assms(2)])
  qed
  also have "\<dots> = pa"
  proof -
    have "pa = take_bit 31 pa" using kernel_index(5) [OF assms(2)] by (metis take_bit_take_bit min.idem)
    have u: "unat pa < 2 * 2 ^ 30" "2 ^ 30 \<le> unat pa" using assms by (simp_all add: word_less_nat_alt word_le_nat_alt)
    have "0x40000000 OR take_bit 30 pa = 0x40000000 + take_bit 30 pa"
    proof (rule disjunctive_add [symmetric])
      have e30: "(0x40000000 :: u64) = push_bit 30 1" by code_simp
      show "\<not> bit (0x40000000 :: u64) n \<or> \<not> bit (take_bit 30 pa) n" for n
        by (simp only: e30 bit_push_bit_iff bit_1_iff bit_take_bit_iff) auto
    qed
    moreover have "unat (take_bit 30 pa) = unat pa - 2 ^ 30"
      using u by (simp only: unsigned_take_bit_eq) (simp add: take_bit_eq_mod mod_if)
    then have "unat (0x40000000 + take_bit 30 pa) = unat pa"
      using u by (subst unat_add_lem [THEN iffD1]) simp_all
    ultimately show ?thesis by (simp add: word_unat_eq_iff)
  qed
  finally show ?thesis unfolding summary_def e by (simp add: mem_type_def) code_simp
qed

lemma l2_identity_entry:
  assumes "pa < 0x40000000"
  shows "l2_identity ! GET_INDEX 2 pa = block_entry (if pa < PERIPHERAL_BASE then normal_flags else device_flags) (GET_INDEX 2 pa)"
proof -
  have "unat pa < 2 ^ 30" using assms by (simp add: word_less_nat_alt)
  moreover have "pa < PERIPHERAL_BASE \<longleftrightarrow> unat pa < 2 ^ 29" by (simp add: word_less_nat_alt PERIPHERAL_BASE_def)
  ultimately show ?thesis by (auto simp: l2_identity_def identity_index(3) [OF assms])
qed

lemma l2_kernel_entry:
  assumes "pa < 0x40000000"
  shows "l2_kernel ! GET_INDEX 2 (KBASE + pa) =
    (if pa < PHYSMEM_BOOT_END then block_entry normal_flags (GET_INDEX 2 (KBASE + pa))
     else if pa < PERIPHERAL_BASE then 0 else block_entry device_flags (GET_INDEX 2 (KBASE + pa)))"
proof -
  have u: "unat pa < 2 ^ 30" using assms by (simp add: word_less_nat_alt)
  have "pa < 0x80000000" using assms by (simp add: word_less_nat_alt)
  then have i: "GET_INDEX 2 (KBASE + pa) = unat pa div 2 ^ 21" using kernel_index(3) u by simp
  have "pa < PERIPHERAL_BASE \<longleftrightarrow> unat pa < 2 ^ 29" "pa < PHYSMEM_BOOT_END \<longleftrightarrow> unat pa < 2 ^ 28"
    by (simp_all add: word_less_nat_alt PERIPHERAL_BASE_def PHYSMEM_BOOT_END_def)
  then show ?thesis using u unfolding i by (auto simp: l2_kernel_def)
qed

section \<open>The tables of the boot code\<close>

lemma boot_mem_at:
  assumes "placed a"
  shows "boot_mem a b (at_ttbr0_l0 a) = Some (boot_ttbr0_l0 b)" "boot_mem a b (at_ttbr0_l1 a) = Some (boot_ttbr0_l1 b)"
    "boot_mem a b (at_ttbr0_l2 a) = Some (boot_ttbr0_l2 b)" "boot_mem a b (at_ttbr1_l0 a) = Some (boot_ttbr1_l0 b)"
    "boot_mem a b (at_ttbr1_l1 a) = Some (boot_ttbr1_l1 b)" "boot_mem a b (at_ttbr1_l2 a) = Some (boot_ttbr1_l2 b)"
  using assms by (auto simp: boot_mem_def placed_def Let_def)

lemma placed_at:
  assumes "placed a"
  shows "table_at (at_ttbr0_l1 a)" "table_at (at_ttbr0_l2 a)" "table_at (at_ttbr1_l1 a)" "table_at (at_ttbr1_l2 a)"
    "table_at (at_ttbr1_l0 a)" "at_ttbr1_l0 a \<noteq> 0" "at_ttbr1_l1 a \<noteq> 0" "at_ttbr1_l2 a \<noteq> 0"
    "at_ttbr1_l1 a \<noteq> at_ttbr1_l2 a" "at_ttbr1_l1 a \<noteq> at_ttbr1_l0 a" "at_ttbr1_l2 a \<noteq> at_ttbr1_l0 a"
  using assms by (auto simp: placed_def Let_def)

lemma identity_summary:
  assumes a: "placed a" and i: "init_boot_pt a zero_tables = Inr b" and pa: "pa < 0x40000000"
  shows "summary (translate (boot_mem a b) (at_ttbr0_l0 a) pa) = Some (pa, if pa < PERIPHERAL_BASE then 4 else 0, False)"
proof -
  have b: "boot_ttbr0_l0 b = (replicate 512 0)[0 := at_ttbr0_l1 a OR 3]" "boot_ttbr0_l1 b = (replicate 512 0)[0 := at_ttbr0_l2 a OR 3]"
    "boot_ttbr0_l2 b = l2_identity" using i unfolding init_boot_pt_tables by auto
  let ?f = "if pa < PERIPHERAL_BASE then normal_flags else device_flags"
  note bs = block_summary [of ?f pa]
  have pl: "plain ?f" using flags_plain by simp
  have "translate (boot_mem a b) (at_ttbr0_l0 a) pa =
      (if bit (block_entry ?f (GET_INDEX 2 pa)) 0 then Some (out_addr 2 (block_entry ?f (GET_INDEX 2 pa)) pa, block_entry ?f (GET_INDEX 2 pa)) else None)"
  proof (rule translate_l2 [OF boot_mem_at(1) [OF a] _ placed_at(1) [OF a] boot_mem_at(2) [OF a] _ placed_at(2) [OF a] boot_mem_at(3) [OF a]])
    show "boot_ttbr0_l0 b ! GET_INDEX 0 pa = at_ttbr0_l1 a OR 3" "boot_ttbr0_l1 b ! GET_INDEX 1 pa = at_ttbr0_l2 a OR 3"
      unfolding b identity_index [OF pa] by simp_all
    show "boot_ttbr0_l2 b ! GET_INDEX 2 pa = block_entry ?f (GET_INDEX 2 pa)" unfolding b by (rule l2_identity_entry [OF pa])
    show "\<not> bit (block_entry ?f (GET_INDEX 2 pa)) 1" by (rule bs(1) [OF pl])
  qed
  then show ?thesis using bs [OF pl] flags_plain by (simp add: identity_index(4) [OF pa])
qed

text \<open>The walk from the root of the kernel.\<close>

lemma kernel_translate:
  assumes "m root = Some l0" "l0 ! 510 = a1 OR 3" "table_at a1" "m a1 = Some l1" "l1 ! 0 = a2 OR 3" "table_at a2"
    and "l1 ! 1 = PHYSMEM_END OR device_flags" "m a2 = Some tab" and pa: "pa < 0x80000000"
    and e: "e = tab ! GET_INDEX 2 (KBASE + pa)" "pa < 0x40000000 \<Longrightarrow> \<not> bit e 1"
  shows "summary (translate m root (KBASE + pa)) = (if pa < 0x40000000
    then if bit e 0 then summary (Some (out_addr 2 e (KBASE + pa), e)) else None else Some (pa, 0, False))"
proof -
  note ki = kernel_index [OF pa]
  have l0: "l0 ! GET_INDEX 0 (KBASE + pa) = a1 OR 3" using assms(2) ki(1) by simp
  show ?thesis
  proof (cases "pa < 0x40000000")
    case True
    then have "unat pa < 2 ^ 30" by (simp add: word_less_nat_alt)
    then have "l1 ! GET_INDEX 1 (KBASE + pa) = a2 OR 3" using assms(5) unfolding ki(2) by simp
    from translate_l2 [of m root l0 "KBASE + pa" a1 l1 a2 tab e] assms l0 this True
    have "translate m root (KBASE + pa) = (if bit e 0 then Some (out_addr 2 e (KBASE + pa), e) else None)" by simp
    then show ?thesis using True by (simp add: summary_def)
  next
    case False
    then have ge: "0x40000000 \<le> pa" by (simp add: not_less)
    then have "GET_INDEX 1 (KBASE + pa) = 1"
      unfolding ki(2) using pa by (intro div_nat_eqI) (simp_all add: word_less_nat_alt word_le_nat_alt)
    then have "l1 ! GET_INDEX 1 (KBASE + pa) = PHYSMEM_END OR device_flags" using assms(7) by (simp only:)
    moreover have "\<not> bit (PHYSMEM_END OR device_flags) 1" "bit (PHYSMEM_END OR device_flags) 0" by code_simp+
    ultimately have "translate m root (KBASE + pa) = Some (out_addr 1 (PHYSMEM_END OR device_flags) (KBASE + pa), PHYSMEM_END OR device_flags)"
      using translate_l1 [OF assms(1) l0 assms(3,4)] by blast
    then show ?thesis using peripheral_block [OF ge pa] False by simp
  qed
qed

lemma below:
  "pa < PHYSMEM_BOOT_END \<longleftrightarrow> unat pa < 2 ^ 28" "pa < PERIPHERAL_BASE \<longleftrightarrow> unat pa < 2 ^ 29" "pa < 0x40000000 \<longleftrightarrow> unat pa < 2 ^ 30"
  by (simp_all add: word_less_nat_alt PERIPHERAL_BASE_def PHYSMEM_BOOT_END_def)

lemma block_range: "128 \<le> (u :: nat) div 2 ^ 21 \<longleftrightarrow> 2 ^ 28 \<le> u" "(u :: nat) div 2 ^ 21 < 256 \<longleftrightarrow> u < 2 ^ 29"
  by (simp_all add: less_eq_div_iff_mult_less_eq div_less_iff_less_mult)

lemma low_address:
  assumes "pa < 0x40000000"
  shows "take_bit 30 (KBASE + pa) = pa" "GET_INDEX 2 (KBASE + pa) = unat pa div 2 ^ 21" "unat pa div 2 ^ 21 < 512"
proof -
  have l: "pa < 0x80000000" "unat pa < 2 ^ 30" using assms by (simp_all add: word_less_nat_alt)
  show "take_bit 30 (KBASE + pa) = pa" using kernel_index(4) [OF l(1)] identity_index(4) [OF assms] by simp
  show i: "unat pa div 2 ^ 21 < 512" using l(2) by simp
  then show "GET_INDEX 2 (KBASE + pa) = unat pa div 2 ^ 21" using kernel_index(3) [OF l(1)] by simp
qed

lemma kernel_summary:
  assumes a: "placed a" and i: "init_boot_pt a zero_tables = Inr b" and pa: "pa < 0x80000000"
  shows "summary (translate (boot_mem a b) (at_ttbr1_l0 a) (KBASE + pa)) =
    (if pa < PHYSMEM_BOOT_END then Some (pa, 4, False) else if pa < PERIPHERAL_BASE then None else Some (pa, 0, False))"
proof -
  have b: "boot_ttbr1_l0 b = (replicate 512 0)[510 := at_ttbr1_l1 a OR 3]"
    "boot_ttbr1_l1 b = (replicate 512 0)[0 := at_ttbr1_l2 a OR 3, 1 := PHYSMEM_END OR device_flags]"
    "boot_ttbr1_l2 b = l2_kernel" using i unfolding init_boot_pt_tables by auto
  define e where "e = l2_kernel ! GET_INDEX 2 (KBASE + pa)"
  have en: "e = (if pa < PHYSMEM_BOOT_END then block_entry normal_flags (GET_INDEX 2 (KBASE + pa))
     else if pa < PERIPHERAL_BASE then 0 else block_entry device_flags (GET_INDEX 2 (KBASE + pa)))" if "pa < 0x40000000"
    unfolding e_def by (rule l2_kernel_entry [OF that])
  have n1: "\<not> bit e 1" if "pa < 0x40000000" unfolding en [OF that] using block_summary(1) flags_plain(1,2) by simp
  have "summary (translate (boot_mem a b) (at_ttbr1_l0 a) (KBASE + pa)) = (if pa < 0x40000000
    then if bit e 0 then summary (Some (out_addr 2 e (KBASE + pa), e)) else None else Some (pa, 0, False))"
    by (rule kernel_translate [OF boot_mem_at(4) [OF a] _ placed_at(3) [OF a] boot_mem_at(5) [OF a] _ placed_at(4) [OF a] _ boot_mem_at(6) [OF a] pa])
      (use n1 in \<open>simp_all add: b e_def\<close>)
  then show ?thesis
    using en block_summary(2,3) [of normal_flags "KBASE + pa"] block_summary(2,3) [of device_flags "KBASE + pa"] flags_plain low_address(1)
    by (auto simp: below)
qed

section \<open>The kernel maps the rest of its memory\<close>

lemma kv_nonzero: "table_at x \<Longrightarrow> phys_to_virt x \<noteq> 0"
proof
  assume t: "table_at x" and z: "phys_to_virt x = 0"
  then have "x = - KBASE" by (simp add: phys_to_virt_def eq_neg_iff_add_eq_0)
  then have "drop_bit 30 x = drop_bit 30 (- KBASE)" by simp
  also have "\<dots> \<noteq> 0" unfolding KBASE_def by code_simp
  finally show False using t by (simp add: table_at_def)
qed

lemma get_next_table:
  assumes "ptm s t = Some ws" "GET_INDEX level va < length ws" "ws ! GET_INDEX level va = a OR 3" "table_at a" "t \<noteq> 0" "level \<le> 3"
  shows "get_next_ptp t level va alloc s = Inr (NORMAL_PTP, phys_to_virt a, (t, GET_INDEX level va), s)"
  using assms table_entry [OF assms(4)] by (simp add: get_next_ptp_def rd_pte_def)

lemma get_next_fresh:
  assumes "ptm s t = Some ws" "GET_INDEX level va < length ws" "\<not> bit (ws ! GET_INDEX level va) 0" "t \<noteq> 0" "level \<le> 3"
    and "page_supply s = x # xs" "x \<noteq> 0" "x \<noteq> t"
  shows "\<exists>err nx. get_next_ptp t level va True s = Inr (err, nx, (t, GET_INDEX level va),
      s\<lparr>ptm := (ptm s)(x \<mapsto> replicate 512 0, t \<mapsto> ws[GET_INDEX level va := table_pte x]), page_supply := xs\<rparr>) \<and> 0 \<le> err"
  using assms by (auto simp: get_next_ptp_def rd_pte_def wr_pte_def get_page_0_def IS_PTE_INVALID_bit NORMAL_PTP_def BLOCK_PTP_def)

text \<open>The tables on the way to the level-2 entries: root, the table at \<open>a1\<close> and the one at \<open>a2\<close>.\<close>

definition kernel_path :: "pt_mem \<Rightarrow> u64 \<Rightarrow> u64 \<Rightarrow> u64 \<Rightarrow> u64 list \<Rightarrow> u64 list \<Rightarrow> u64 list \<Rightarrow> bool" where
  "kernel_path m root a1 a2 l0 l1 tab \<longleftrightarrow> root \<noteq> 0 \<and> table_at a1 \<and> table_at a2 \<and>
     m root = Some l0 \<and> length l0 = 512 \<and> l0 ! 510 = a1 OR 3 \<and>
     m (phys_to_virt a1) = Some l1 \<and> length l1 = 512 \<and> l1 ! 0 = a2 OR 3 \<and>
     m (phys_to_virt a2) = Some tab \<and> length tab = 512 \<and>
     root \<noteq> phys_to_virt a1 \<and> root \<noteq> phys_to_virt a2 \<and> a1 \<noteq> a2"

lemma small_block:
  assumes "k < 512"
  shows "of_nat (k * 2 ^ 21) < (0x40000000 :: u64)" "unat (of_nat (k * 2 ^ 21) :: u64) = k * 2 ^ 21"
proof -
  have b: "k * 2 ^ 21 < 2 ^ 30" using assms by simp
  show u: "unat (of_nat (k * 2 ^ 21) :: u64) = k * 2 ^ 21"
    using b by (simp only: unat_of_nat) (simp add: take_bit_nat_eq_self)
  show "of_nat (k * 2 ^ 21) < (0x40000000 :: u64)" unfolding word_less_nat_alt u using b by simp
qed

lemma map_block_step:
  assumes p: "kernel_path (ptm s) root a1 a2 l0 l1 tab" and k: "k < 512" "\<not> bit (tab ! k) 0"
    and x: "page_supply s = x # xs" "x \<noteq> 0" "x \<notin> {root, phys_to_virt a1, phys_to_virt a2}"
  defines "va \<equiv> KBASE + of_nat (k * 2 ^ 21)"
  shows "map_kernel_blocks (Suc n) root va pa s = map_kernel_blocks n root (va + BLOCK_SIZE) (pa + BLOCK_SIZE)
    (s\<lparr>ptm := (ptm s)(x \<mapsto> replicate 512 0, phys_to_virt a2 \<mapsto> tab[k := kernel_block_pte pa (table_pte x)]), page_supply := xs\<rparr>)"
proof -
  have lt: "of_nat (k * 2 ^ 21) < (0x80000000 :: u64)" using small_block(1) [OF k(1)] by (rule less_trans) simp
  have i: "GET_INDEX 0 va = 510" "GET_INDEX 1 va = 0" "GET_INDEX 2 va = k"
    using kernel_index(1-3) [OF lt] k(1) unfolding va_def small_block(2) [OF k(1)] by simp_all
  note pp = p [unfolded kernel_path_def]
  have 0: "get_next_ptp root 0 va True s = Inr (NORMAL_PTP, phys_to_virt a1, (root, GET_INDEX 0 va), s)"
    by (rule get_next_table [where ws = l0]) (use pp i in simp_all)
  have 1: "get_next_ptp (phys_to_virt a1) 1 va True s = Inr (NORMAL_PTP, phys_to_virt a2, (phys_to_virt a1, GET_INDEX 1 va), s)"
    by (rule get_next_table [where ws = l1]) (use pp i kv_nonzero in \<open>simp_all del: One_nat_def\<close>)
  let ?s = "s\<lparr>ptm := (ptm s)(x \<mapsto> replicate 512 0, phys_to_virt a2 \<mapsto> tab[k := table_pte x]), page_supply := xs\<rparr>"
  obtain err nx where 2: "get_next_ptp (phys_to_virt a2) 2 va True s = Inr (err, nx, (phys_to_virt a2, k), ?s)" "0 \<le> err"
    using get_next_fresh [of s "phys_to_virt a2" tab 2 va x xs] pp i(3) k x kv_nonzero by auto
  have "upd_pte (phys_to_virt a2, k) (kernel_block_pte pa) ?s = Inr (s\<lparr>ptm := (ptm s)(x \<mapsto> replicate 512 0,
      phys_to_virt a2 \<mapsto> tab[k := kernel_block_pte pa (table_pte x)]), page_supply := xs\<rparr>)"
    using pp k(1) by (simp add: upd_pte_def rd_pte_def wr_pte_def)
  then show ?thesis by (simp add: 0 1 [unfolded One_nat_def] 2(1) 2(2) [folded not_less] NORMAL_PTP_def)
qed

lemma map_blocks_spec:
  assumes "kernel_path (ptm s) root a1 a2 l0 l1 tab" "k + length xs \<le> 512"
    and "\<forall>j. k \<le> j \<and> j < k + length xs \<longrightarrow> \<not> bit (tab ! j) 0"
    and "page_supply s = xs @ ys" "\<forall>x \<in> set xs. x \<noteq> 0 \<and> x \<notin> {root, phys_to_virt a1, phys_to_virt a2}"
  shows "\<exists>s' tab'. map_kernel_blocks (length xs) root (KBASE + of_nat (k * 2 ^ 21)) (of_nat (k * 2 ^ 21)) s = Inr s' \<and>
    kernel_path (ptm s') root a1 a2 l0 l1 tab' \<and> page_supply s' = ys \<and>
    (\<forall>j < 512. tab' ! j = (if k \<le> j \<and> j < k + length xs then kernel_block_pte (of_nat (j * 2 ^ 21)) (table_pte (xs ! (j - k))) else tab ! j))"
  using assms
proof (induction xs arbitrary: k s tab)
  case Nil
  then show ?case by (intro exI [of _ s] exI [of _ tab]) auto
next
  case (Cons x xs)
  let ?pa = "of_nat (k * 2 ^ 21) :: u64"
  let ?tab = "tab[k := kernel_block_pte ?pa (table_pte x)]"
  let ?s = "s\<lparr>ptm := (ptm s)(x \<mapsto> replicate 512 0, phys_to_virt a2 \<mapsto> ?tab), page_supply := xs @ ys\<rparr>"
  have k: "k < 512" "\<not> bit (tab ! k) 0" using Cons.prems(2,3) by simp_all
  have x: "x \<noteq> 0" "x \<notin> {root, phys_to_virt a1, phys_to_virt a2}" using Cons.prems(5) by auto
  have ps: "page_supply s = x # (xs @ ys)" using Cons.prems(4) by simp
  have sz: "length tab = 512" using Cons.prems(1) by (simp add: kernel_path_def)
  have next_pa: "of_nat (k * 2 ^ 21) + BLOCK_SIZE = (of_nat (Suc k * 2 ^ 21) :: u64)" by (simp add: BLOCK_SIZE_def algebra_simps)
  have step: "map_kernel_blocks (length (x # xs)) root (KBASE + ?pa) ?pa s =
      map_kernel_blocks (length xs) root (KBASE + of_nat (Suc k * 2 ^ 21)) (of_nat (Suc k * 2 ^ 21)) ?s"
    using map_block_step [OF Cons.prems(1) k ps x, of "length xs" ?pa] by (simp only: next_pa add.assoc length_Cons)
  have "phys_to_virt a1 \<noteq> phys_to_virt a2" using Cons.prems(1) by (simp add: kernel_path_def phys_to_virt_def)
  then have kp: "kernel_path (ptm ?s) root a1 a2 l0 l1 ?tab" using Cons.prems(1) x by (auto simp: kernel_path_def)
  have inv: "\<forall>j. Suc k \<le> j \<and> j < Suc k + length xs \<longrightarrow> \<not> bit (?tab ! j) 0" using Cons.prems(3) by simp
  have le: "Suc k + length xs \<le> 512" using Cons.prems(2) by simp
  have ps': "page_supply ?s = xs @ ys" by simp
  have ok: "\<forall>y \<in> set xs. y \<noteq> 0 \<and> y \<notin> {root, phys_to_virt a1, phys_to_virt a2}" using Cons.prems(5) by simp
  from Cons.IH [OF kp le inv ps' ok] obtain s' tab' where r:
    "map_kernel_blocks (length xs) root (KBASE + of_nat (Suc k * 2 ^ 21)) (of_nat (Suc k * 2 ^ 21)) ?s = Inr s'"
    "kernel_path (ptm s') root a1 a2 l0 l1 tab'" "page_supply s' = ys"
    "\<forall>j < 512. tab' ! j = (if Suc k \<le> j \<and> j < Suc k + length xs
       then kernel_block_pte (of_nat (j * 2 ^ 21)) (table_pte (xs ! (j - Suc k))) else ?tab ! j)"
    by blast
  have "tab' ! j = (if k \<le> j \<and> j < k + length (x # xs) then kernel_block_pte (of_nat (j * 2 ^ 21)) (table_pte ((x # xs) ! (j - k))) else tab ! j)"
    if "j < 512" for j
  proof (cases "j = k")
    case True
    then show ?thesis using r(4) that sz by (simp del: of_nat_mult)
  next
    case False
    then show ?thesis using r(4) that by (auto simp: nth_Cons' simp del: of_nat_mult)
  qed
  then show ?case using r(1-3) unfolding step by blast
qed

lemma kernel_block_facts:
  fixes pa x :: u64
  assumes "\<not> bit (table_pte x) 54"
  defines "e \<equiv> kernel_block_pte pa (table_pte x)"
  shows "bit e 0" "\<not> bit e 1" "\<not> bit e 54" "mem_type e = 4" "j < 27 \<Longrightarrow> bit e (21 + j) \<longleftrightarrow> bit pa (21 + j)"
proof -
  have 4: "bit (4 :: u64) i \<longleftrightarrow> i = 2" for i
  proof -
    have e: "(4 :: u64) = push_bit 2 1" by code_simp
    show ?thesis by (simp only: e bit_push_bit_iff bit_1_iff) auto
  qed
  show "bit e 0" "\<not> bit e 1" by (simp_all add: e_def kernel_block_pte_def field_defs)
  show "\<not> bit e 54" using assms by (simp add: e_def kernel_block_pte_def field_defs)
  show "mem_type e = 4" unfolding mem_type_def
    by (rule bit_word_eqI) (auto simp: e_def kernel_block_pte_def field_defs 4 simp del: bit_numeral_word_iff)
  show "j < 27 \<Longrightarrow> bit e (21 + j) \<longleftrightarrow> bit pa (21 + j)"
    by (simp add: e_def kernel_block_pte_def field_defs bit_simps)
qed

lemma table_pte_54: "\<not> bit (table_pte x) 54"
  by (simp add: table_pte_def field_defs)

text \<open>The kernel sees the root by its physical address (through TTBR0) and the other tables in its own space.\<close>

definition kernel_pt :: "boot_addrs \<Rightarrow> boot_tables \<Rightarrow> u64 list \<Rightarrow> pt_state" where
  "kernel_pt a b supply = \<lparr>ptm = [at_ttbr1_l0 a \<mapsto> boot_ttbr1_l0 b, phys_to_virt (at_ttbr1_l1 a) \<mapsto> boot_ttbr1_l1 b,
     phys_to_virt (at_ttbr1_l2 a) \<mapsto> boot_ttbr1_l2 b], page_supply = supply\<rparr>"

definition hw_view :: "u64 \<Rightarrow> pt_mem \<Rightarrow> u64 \<Rightarrow> u64 list option" where
  "hw_view root m = (\<lambda>x. if x = root then m root else m (phys_to_virt x))"

lemma apart_from_kernel:
  assumes "table_at x" "table_at y"
  shows "x \<noteq> phys_to_virt y"
proof
  assume "x = phys_to_virt y"
  then have e: "x = KBASE + y" by (simp add: phys_to_virt_def add.commute)
  have "unat (drop_bit 30 y) = 0" using assms(2) by (simp add: table_at_def)
  then have "unat y div 2 ^ 30 = 0" unfolding unat_drop_bit_eq unfolding drop_bit_eq_div .
  then have "y < 0x80000000" by (simp add: word_less_nat_alt div_eq_0_iff)
  from kernel_index(1) [OF this] have "GET_INDEX 0 x = 510" using e by simp
  moreover have "drop_bit 39 x = 0" using table_at_bit [OF assms(1)] by (intro bit_word_eqI) (auto simp: bit_simps)
  ultimately show False by (simp add: GET_INDEX_def PAGE_SHIFT_def)
qed

lemma map_kernel_space_spec:
  assumes a: "placed a" and i: "init_boot_pt a zero_tables = Inr b" and n: "128 \<le> length supply"
    and sup: "\<And>x. x \<in> set supply \<Longrightarrow> x \<noteq> 0 \<and> x \<notin> {at_ttbr1_l0 a, phys_to_virt (at_ttbr1_l1 a), phys_to_virt (at_ttbr1_l2 a)}"
  shows "\<exists>s. map_kernel_space (at_ttbr1_l0 a) (KBASE + push_bit 21 128) (push_bit 21 128) (push_bit 21 128) (kernel_pt a b supply) = Inr s \<and>
    page_supply s = drop 128 supply \<and> (\<forall>pa < 0x80000000.
      summary (translate (hw_view (at_ttbr1_l0 a) (ptm s)) (at_ttbr1_l0 a) (KBASE + pa)) =
        Some (pa, if pa < PERIPHERAL_BASE then 4 else 0, PHYSMEM_BOOT_END \<le> pa \<and> pa < PERIPHERAL_BASE))"
proof -
  let ?r = "at_ttbr1_l0 a" and ?a1 = "at_ttbr1_l1 a" and ?a2 = "at_ttbr1_l2 a"
  let ?l0 = "(replicate 512 0)[510 := at_ttbr1_l1 a OR 3]" and ?l1 = "(replicate 512 0)[0 := at_ttbr1_l2 a OR 3, 1 := PHYSMEM_END OR device_flags]"
  let ?s = "kernel_pt a b supply"
  note pl = placed_at [OF a]
  have b: "boot_ttbr1_l0 b = ?l0" "boot_ttbr1_l1 b = ?l1" "boot_ttbr1_l2 b = l2_kernel" using i unfolding init_boot_pt_tables by auto
  have ap: "?r \<noteq> phys_to_virt ?a1" "?r \<noteq> phys_to_virt ?a2" "phys_to_virt ?a1 \<noteq> phys_to_virt ?a2" "?a1 \<noteq> ?r" "?a2 \<noteq> ?r"
    using apart_from_kernel [OF pl(5)] pl by (simp_all add: phys_to_virt_def)
  have kp: "kernel_path (ptm ?s) ?r ?a1 ?a2 ?l0 ?l1 l2_kernel"
    unfolding kernel_path_def using pl ap by (simp add: kernel_pt_def b) (simp add: l2_kernel_def)
  have inv: "\<forall>j. 128 \<le> j \<and> j < 128 + length (take 128 supply) \<longrightarrow> \<not> bit (l2_kernel ! j) 0"
    using n by (simp add: l2_kernel_def)
  have sp: "page_supply ?s = take 128 supply @ drop 128 supply" by (simp add: kernel_pt_def)
  have ok: "\<forall>x \<in> set (take 128 supply). x \<noteq> 0 \<and> x \<notin> {?r, phys_to_virt ?a1, phys_to_virt ?a2}"
    by (intro ballI sup) (rule in_set_takeD)
  have len: "length (take 128 supply) = 128" using n by simp
  have sum: "128 + 128 = (256 :: nat)" by simp
  have "128 + length (take 128 supply) \<le> 512" using len by simp
  note mb = map_blocks_spec [OF kp this inv sp ok, unfolded len sum]
  obtain s tab where m: "map_kernel_blocks 128 ?r (KBASE + of_nat (128 * 2 ^ 21)) (of_nat (128 * 2 ^ 21)) ?s = Inr s"
    "kernel_path (ptm s) ?r ?a1 ?a2 ?l0 ?l1 tab" "page_supply s = drop 128 supply"
    "\<forall>j < 512. tab ! j = (if 128 \<le> j \<and> j < 256 then kernel_block_pte (of_nat (j * 2 ^ 21)) (table_pte (take 128 supply ! (j - 128))) else l2_kernel ! j)"
    using mb by (elim exE conjE, intro that)
  have "unat (ROUND_UP (push_bit 21 128) BLOCK_SIZE div BLOCK_SIZE) = 128" by code_simp
  moreover have "push_bit 21 128 = (of_nat (128 * 2 ^ 21) :: u64)" by simp
  ultimately have ms: "map_kernel_space ?r (KBASE + push_bit 21 128) (push_bit 21 128) (push_bit 21 128) ?s = Inr s"
    using m(1) by (simp only: map_kernel_space_def)
  note p = m(2) [unfolded kernel_path_def]
  have hw: "hw_view ?r (ptm s) ?r = Some ?l0" "hw_view ?r (ptm s) ?a1 = Some ?l1" "hw_view ?r (ptm s) ?a2 = Some tab"
    using p ap by (simp_all add: hw_view_def)
  have "summary (translate (hw_view ?r (ptm s)) ?r (KBASE + pa)) =
      Some (pa, if pa < PERIPHERAL_BASE then 4 else 0, PHYSMEM_BOOT_END \<le> pa \<and> pa < PERIPHERAL_BASE)" if pa: "pa < 0x80000000" for pa
  proof -
    define va where "va = KBASE + pa"
    define e where "e = tab ! GET_INDEX 2 va"
    have e: "(\<not> bit e 1) \<and> bit e 0 \<and> summary (Some (out_addr 2 e va, e)) =
        Some (pa, if pa < PERIPHERAL_BASE then 4 else 0, PHYSMEM_BOOT_END \<le> pa \<and> pa < PERIPHERAL_BASE)" if lo: "pa < 0x40000000"
    proof -
      note low = low_address [OF lo, folded va_def]
      have j: "GET_INDEX 2 va < 512" using low(2,3) by simp
      show ?thesis
      proof (cases "PHYSMEM_BOOT_END \<le> pa \<and> pa < PERIPHERAL_BASE")
        case True
        then have "128 \<le> GET_INDEX 2 va" "GET_INDEX 2 va < 256"
          unfolding low(2) block_range using below(1,2) [of pa] by (simp_all add: not_less [symmetric])
        then obtain x where ex: "e = kernel_block_pte (of_nat (GET_INDEX 2 va * 2 ^ 21)) (table_pte x)"
          using m(4) j by (auto simp: e_def simp del: of_nat_mult)
        note f = kernel_block_facts [OF table_pte_54 [of x], where pa = "of_nat (GET_INDEX 2 va * 2 ^ 21)", folded ex]
        have pw: "of_nat (GET_INDEX 2 va * 2 ^ 21) = push_bit 21 (take_bit 9 (drop_bit 21 va))"
          by (simp add: GET_INDEX_def PAGE_SHIFT_def and_511 push_bit_eq_mult)
        have "out_addr 2 e va = take_bit 30 va"
        proof (rule bit_word_eqI)
          fix i
          have "bit e i \<longleftrightarrow> bit (take_bit 9 (drop_bit 21 va)) (i - 21)" if "21 \<le> i" "i < 48"
            using f(5) [where j = "i - 21"] that unfolding pw by (simp add: bit_push_bit_iff)
          then show "bit (out_addr 2 e va) i \<longleftrightarrow> bit (take_bit 30 va) i"
            by (auto simp: out_addr_def Let_def bit_simps)
        qed
        then show ?thesis using f(1-4) True low(1) by (simp add: summary_def)
      next
        case False
        then have nj: "\<not> (128 \<le> GET_INDEX 2 va \<and> GET_INDEX 2 va < 256)"
          unfolding low(2) block_range using below(1,2) [of pa] by (auto simp: not_less [symmetric])
        then have "e = l2_kernel ! GET_INDEX 2 va" using m(4) j by (auto simp: e_def)
        also have "\<dots> = block_entry (if pa < PHYSMEM_BOOT_END then normal_flags else device_flags) (GET_INDEX 2 va)"
          using l2_kernel_entry [OF lo, folded va_def] False by auto
        finally show ?thesis
          using block_summary [of normal_flags va] block_summary [of device_flags va] flags_plain low(1) False
          by (auto simp: below not_le)
      qed
    qed
    have "summary (translate (hw_view ?r (ptm s)) ?r (KBASE + pa)) = (if pa < 0x40000000
        then if bit e 0 then summary (Some (out_addr 2 e (KBASE + pa), e)) else None else Some (pa, 0, False))"
      by (rule kernel_translate [OF hw(1) _ pl(3) hw(2) _ pl(4) _ hw(3) pa]) (use e in \<open>simp_all add: e_def va_def\<close>)
    then show ?thesis using e by (auto simp: va_def below)
  qed
  then show ?thesis using ms m(3) by blast
qed

section \<open>Properties\<close>

definition demo_addrs :: boot_addrs where
  "demo_addrs = \<lparr>at_ttbr0_l0 = 0x80000, at_ttbr0_l1 = 0x81000, at_ttbr0_l2 = 0x82000,
     at_ttbr1_l0 = 0x83000, at_ttbr1_l1 = 0x84000, at_ttbr1_l2 = 0x85000\<rparr>"

lemma demo_placed: "placed demo_addrs"
  unfolding placed_def table_at_def demo_addrs_def by code_simp

text \<open>
  C13: The boot code builds its tables without leaving an array, wherever the linker puts them. Through
  TTBR0 the processor then translates every address of the first gigabyte to itself; through TTBR1 it
  translates \<^verbatim>\<open>KERNEL_VADDR + pa\<close> to \<open>pa\<close> for the first 256M as normal memory and from 512M to 2G as
  device memory, and nothing in between. No translation lets user mode execute.
\<close>

theorem boot_tables_correct:
  assumes "placed a"
  shows "\<exists>b. init_boot_pt a zero_tables = Inr b \<and>
    (\<forall>pa < 0x40000000. summary (translate (boot_mem a b) (at_ttbr0_l0 a) pa) =
       Some (pa, if pa < 0x20000000 then 4 else 0, False)) \<and>
    (\<forall>pa < 0x80000000. summary (translate (boot_mem a b) (at_ttbr1_l0 a) (KERNEL_VADDR + pa)) =
       (if pa < 0x10000000 then Some (pa, 4, False) else if pa < 0x20000000 then None else Some (pa, 0, False)))"
proof -
  obtain b where b: "init_boot_pt a zero_tables = Inr b" using init_boot_pt_tables by blast
  have k: "KERNEL_VADDR = KBASE" by (simp add: KERNEL_VADDR_def KBASE_def)
  show ?thesis
    using b identity_summary [OF assms b] kernel_summary [OF assms b]
    by (simp only: k PERIPHERAL_BASE_def PHYSMEM_BOOT_END_def) blast
qed

theorem boot_tables_correct_witness:
  "\<exists>b. init_boot_pt demo_addrs zero_tables = Inr b \<and>
    (\<forall>pa < 0x40000000. summary (translate (boot_mem demo_addrs b) (at_ttbr0_l0 demo_addrs) pa) =
       Some (pa, if pa < 0x20000000 then 4 else 0, False)) \<and>
    (\<forall>pa < 0x80000000. summary (translate (boot_mem demo_addrs b) (at_ttbr1_l0 demo_addrs) (KERNEL_VADDR + pa)) =
       (if pa < 0x10000000 then Some (pa, 4, False) else if pa < 0x20000000 then None else Some (pa, 0, False)))"
  by (rule boot_tables_correct [OF demo_placed])

text \<open>
  The pages that \<^verbatim>\<open>map_kernel_space\<close> takes for its 2M blocks are not used as tables: the block
  overwrites the pointer. What stays behind in the descriptor is the page number modulo 512, in bits
  that the architecture reserves.
\<close>

theorem kernel_block_residue: "get_field 12 9 (kernel_block_pte pa (table_pte x)) = get_field 12 9 (virt_to_phys x)"
  by (rule bit_word_eqI) (auto simp: kernel_block_pte_def table_pte_def field_defs PAGE_SHIFT_def bit_simps ac_simps)

end
