(* ===== verification/Start.thy ===== *)
theory Start
  imports KmallocProps Boot
begin

text \<open>
  The start of the memory management, \<^verbatim>\<open>mm_init\<close> (\<^verbatim>\<open>mm/mm.c\<close>): the page pool, the slab lists
  and the map of the kernel space, on top of the tables of the boot code.
\<close>

section \<open>Memory\<close>

definition NPAGES :: u64 where "NPAGES = 128 * 1000"
definition PHYSICAL_MEM_START :: u64 where "PHYSICAL_MEM_START = 24 * 1024 * 1024"
definition START_VADDR :: u64 where "START_VADDR = phys_to_virt PHYSICAL_MEM_START"
definition SIZEOF_PAGE :: u64 where "SIZEOF_PAGE = 32"

text \<open>
  The pages that \<^verbatim>\<open>map_kernel_space\<close> asks for come from the pool: \<open>answers n s\<close> is what the next
  \<open>n\<close> calls of \<^verbatim>\<open>get_pages(0)\<close> return, as far as the pool has pages, and \<open>take_pages n s\<close>
  the heap after them. The tables are not part of the metadata of the pool, so the calls do not depend on
  what \<^verbatim>\<open>map_kernel_space\<close> writes between them. It visits three levels for each of its 128 blocks.
\<close>

fun answers :: "nat \<Rightarrow> kheap \<Rightarrow> u64 list" where
  "answers 0 s = []"
| "answers (Suc n) s = (case buddy_get_pages (global_mem s) 0 of
     Inr (Some page, pool) \<Rightarrow> page_to_virt pool page # answers n (s\<lparr>global_mem := pool\<rparr>)
   | _ \<Rightarrow> [])"

fun take_pages :: "nat \<Rightarrow> kheap \<Rightarrow> kheap res" where
  "take_pages 0 s = Inr s"
| "take_pages (Suc n) s = bindR (get_pages 0 s) (\<lambda>(_, s). take_pages n s)"

text \<open>
  \<open>img_end\<close> is the address of the linker symbol, \<open>start_page\<close> what the memory of the metadata array
  contains.
\<close>

definition mm_init :: "u64 \<Rightarrow> page list \<Rightarrow> u64 \<Rightarrow> kheap \<Rightarrow> pt_state \<Rightarrow> (kheap \<times> pt_state) res" where
  "mm_init img_end start_page ttbr1 s pt =
     (let free_mem_start = phys_to_virt (ROUND_UP img_end PAGE_SIZE);
          npages = NPAGES;
          start_vaddr = START_VADDR in
      if free_mem_start + npages * SIZEOF_PAGE > start_vaddr then Inl BUG
      else
        let s = s\<lparr>meta_addr := free_mem_start\<rparr> in
        bindR (init_buddy start_page start_vaddr npages) (\<lambda>pool.
        bindR (init_slab (s\<lparr>global_mem := pool\<rparr>)) (\<lambda>s.
        let supply = answers (3 * 128) s in
        bindR (map_kernel_space ttbr1 (KBASE + push_bit 21 128) (push_bit 21 128) (push_bit 21 128)
          (pt\<lparr>page_supply := supply\<rparr>)) (\<lambda>pt.
        bindR (take_pages (length supply - length (page_supply pt)) s) (\<lambda>s.
        Inr (s, pt))))))"

lemma start_unat: "unat START_VADDR = 0xFFFFFF0001800000"
  by (simp add: START_VADDR_def phys_to_virt_def PHYSICAL_MEM_START_def KBASE_def)

lemma page_of_pool:
  assumes "pool_start_addr pool = START_VADDR"
  shows "page_to_virt pool p = KBASE + (0x1800000 + of_nat p * 0x1000)"
  using assms by (simp add: page_to_virt_def START_VADDR_def phys_to_virt_def PHYSICAL_MEM_START_def BUDDY_PAGE_SIZE_def algebra_simps)

lemma page_phys:
  assumes "p < 128000"
  shows "unat (0x1800000 + of_nat p * 0x1000 :: u64) = 25165824 + 4096 * p"
proof -
  have e: "0x1800000 + of_nat p * 0x1000 = (of_nat (25165824 + 4096 * p) :: u64)" by (simp add: algebra_simps)
  show ?thesis unfolding e using assms by (simp only: unat_of_nat) (simp add: take_bit_nat_eq_self)
qed

lemma metadata_fits:
  assumes "unat (ROUND_UP img_end PAGE_SIZE) + 4096000 \<le> 25165824"
  shows "\<not> phys_to_virt (ROUND_UP img_end PAGE_SIZE) + NPAGES * SIZEOF_PAGE > START_VADDR"
proof -
  let ?r = "ROUND_UP img_end PAGE_SIZE"
  have n: "NPAGES * SIZEOF_PAGE = 4096000" by (simp add: NPAGES_def SIZEOF_PAGE_def)
  have k: "unat KBASE = 0xFFFFFF0000000000" by (simp add: KBASE_def)
  have 1: "unat (?r + KBASE) = unat ?r + unat KBASE"
    by (rule unat_add_lem [THEN iffD1]) (use assms k in simp)
  have "unat (phys_to_virt ?r + NPAGES * SIZEOF_PAGE) = unat (?r + KBASE) + 4096000"
    unfolding n phys_to_virt_def by (subst unat_add_lem [THEN iffD1]) (use 1 assms k in simp_all)
  then show ?thesis using assms 1 k start_unat by (simp add: word_less_nat_alt)
qed

section \<open>Single pages\<close>

text \<open>Blocks of at most \<open>m\<close> pages do not cover a larger pool.\<close>

lemma uncovered_page:
  assumes "finite A" "(\<Sum>b \<in> A. 2 ^ snd b) < n"
  shows "\<exists>i < n. \<forall>b \<in> A. \<not> covers b i"
proof (rule ccontr)
  assume "\<not> ?thesis"
  then have "{..<n} \<subseteq> (\<Union>b \<in> A. {fst b..<fst b + 2 ^ snd b})" by (fastforce simp: covers_def)
  then have "card {..<n} \<le> card (\<Union>b \<in> A. {fst b..<fst b + 2 ^ snd b})" using assms(1) by (intro card_mono) simp_all
  also have "\<dots> \<le> (\<Sum>b \<in> A. card {fst b..<fst b + 2 ^ snd b})" by (rule card_UN_le [OF assms(1)])
  finally show False using assms(2) by simp
qed

definition single_pages :: "nat list \<Rightarrow> (nat \<times> nat) set" where
  "single_pages ps = (\<lambda>p. (p, 0)) ` set ps"

lemma slab_sum:
  assumes "finite (dom Sl)" "card (dom Sl) \<le> 7"
  shows "finite (slab_blocks Sl)" "(\<Sum>b \<in> slab_blocks Sl. 2 ^ snd b) \<le> (3584 :: nat)"
proof -
  show "finite (slab_blocks Sl)" using assms(1) by (simp add: slab_blocks_def)
  have "(\<Sum>b \<in> slab_blocks Sl. 2 ^ snd b) = (\<Sum>p \<in> dom Sl. (512 :: nat))"
    unfolding slab_blocks_def by (subst sum.reindex) (auto simp: inj_on_def)
  then show "(\<Sum>b \<in> slab_blocks Sl. 2 ^ snd b) \<le> (3584 :: nat)" using assms(2) by simp
qed

lemma pages_sum: "finite (single_pages ps)" "(\<Sum>b \<in> single_pages ps. 2 ^ snd b) \<le> length ps"
proof -
  show "finite (single_pages ps)" by (simp add: single_pages_def)
  have "(\<Sum>b \<in> single_pages ps. 2 ^ snd b) = (\<Sum>p \<in> set ps. (1 :: nat))"
    unfolding single_pages_def by (subst sum.reindex) (auto simp: inj_on_def)
  then show "(\<Sum>b \<in> single_pages ps. 2 ^ snd b) \<le> length ps" by (simp add: card_length)
qed

text \<open>Taking one page from a pool in which few are taken.\<close>

lemma take_one:
  assumes h: "heap_all s Sl F C (single_pages ps)" and few: "finite (dom Sl)" "card (dom Sl) \<le> 7"
    and n: "3584 + length ps < npages (global_mem s)"
  shows "\<exists>p pool. buddy_get_pages (global_mem s) 0 = Inr (Some p, pool) \<and> same_area (global_mem s) pool \<and>
    heap_all (s\<lparr>global_mem := pool\<rparr>) Sl F C (single_pages (p # ps)) \<and>
    objs (s\<lparr>global_mem := pool\<rparr>) Sl F = objs s Sl F \<and> p \<notin> set ps \<and> p < npages pool"
proof -
  let ?g = "global_mem s" and ?A = "slab_blocks Sl \<union> single_pages ps"
  have ok: "buddy_ok ?g ?A" and dis: "slab_blocks Sl \<inter> single_pages ps = {}"
    using h by (simp_all add: heap_all_def heap_mem_def)
  have "(\<Sum>b \<in> ?A. 2 ^ snd b) \<le> 3584 + length ps"
    using slab_sum [OF few] pages_sum [of ps] dis by (simp add: sum.union_disjoint)
  then obtain i where i: "i < npages ?g" "\<forall>b \<in> ?A. \<not> covers b i"
    using uncovered_page [of ?A "npages ?g"] slab_sum(1) [OF few] pages_sum(1) [of ps] n by (meson finite_UnI le_less_trans)
  then have some: "free_blocks ?g \<noteq> {}" using ok unfolding buddy_ok_def buddy_inv_def tiles_def by blast
  have "unat (0 :: u64) < BUDDY_MAX_ORDER" by (simp add: buddy_consts)
  from buddy_get_ok [OF ok this] obtain r pool where r: "buddy_get_pages ?g 0 = Inr (r, pool)"
    "case r of None \<Rightarrow> \<forall>(p, m) \<in> free_blocks ?g. m < (0 :: nat)
     | Some p \<Rightarrow> (p, 0) \<notin> ?A \<and> buddy_ok pool (insert (p, 0) ?A) \<and> same_pool ?g pool"
    by (fastforce split: option.splits)
  then obtain p where p: "r = Some p" "(p, 0) \<notin> ?A" "buddy_ok pool (insert (p, 0) ?A)" "same_pool ?g pool"
    using some by (cases r) fastforce+
  have e: "single_pages (p # ps) = insert (p, 0) (single_pages ps)" by (simp add: single_pages_def)
  have ok': "buddy_ok pool (slab_blocks Sl \<union> single_pages (p # ps))" using p(3) by (simp add: e)
  have dis': "slab_blocks Sl \<inter> single_pages (p # ps) = {}" using dis p(2) by (simp add: e)
  have "buddy_inv pool (insert (p, 0) ?A)" using p(3) by (simp add: buddy_ok_def)
  then have "p < npages pool" by (rule alloc_block_facts(4)) (rule insertI1)
  moreover have "p \<notin> set ps" using p(2) by (auto simp: single_pages_def)
  ultimately show ?thesis
    using r(1) p(1) same_pool_area [OF p(4)] heap_all_pool [OF h p(4) ok' dis'] by blast
qed

text \<open>
  The pages for the first \<open>n\<close> calls are \<open>qs\<close>; after \<open>m\<close> of the calls exactly the first \<open>m\<close> of them are
  handed out.
\<close>

lemma take_many:
  assumes "heap_all s Sl F C (single_pages ps)" "finite (dom Sl)" "card (dom Sl) \<le> 7"
    and "3584 + length ps + n \<le> npages (global_mem s)" "distinct ps"
  shows "\<exists>qs. answers n s = map (page_to_virt (global_mem s)) qs \<and> length qs = n \<and> distinct (ps @ qs) \<and>
    set qs \<subseteq> {..<npages (global_mem s)} \<and>
    (\<forall>m \<le> n. \<exists>s'. take_pages m s = Inr s' \<and> same_area (global_mem s) (global_mem s') \<and>
       heap_all s' Sl F C (single_pages (ps @ take m qs)) \<and> objs s' Sl F = objs s Sl F)"
  using assms
proof (induction n arbitrary: s ps)
  case 0
  have "same_area (global_mem s) (global_mem s)" by (simp add: same_area_def)
  then show ?case using 0 by (intro exI [of _ "[]"]) simp
next
  case (Suc n)
  from take_one [OF Suc.prems(1-3)] Suc.prems(4) obtain p pool where
    p: "buddy_get_pages (global_mem s) 0 = Inr (Some p, pool)" "same_area (global_mem s) pool"
      "heap_all (s\<lparr>global_mem := pool\<rparr>) Sl F C (single_pages (p # ps))"
      "objs (s\<lparr>global_mem := pool\<rparr>) Sl F = objs s Sl F" "p \<notin> set ps" "p < npages pool"
    by auto
  let ?s = "s\<lparr>global_mem := pool\<rparr>"
  note pl = same_place [OF p(2)]
  have "single_pages (p # ps) = single_pages (ps @ [p])" by (simp add: single_pages_def)
  then have "heap_all ?s Sl F C (single_pages (ps @ [p]))" using p(3) by simp
  then obtain qs where q: "answers n ?s = map (page_to_virt pool) qs" "length qs = n" "distinct ((ps @ [p]) @ qs)"
    "set qs \<subseteq> {..<npages pool}"
    "\<forall>m \<le> n. \<exists>s'. take_pages m ?s = Inr s' \<and> same_area pool (global_mem s') \<and>
       heap_all s' Sl F C (single_pages ((ps @ [p]) @ take m qs)) \<and> objs s' Sl F = objs ?s Sl F"
    using Suc.IH [of ?s "ps @ [p]"] Suc.prems(2-5) p(5) pl(6) by auto
  have g: "get_pages 0 s = Inr (page_to_virt pool p, ?s)" using p(1) by (simp add: get_pages_def pages_virt_def)
  have "\<exists>s'. take_pages m s = Inr s' \<and> same_area (global_mem s) (global_mem s') \<and>
       heap_all s' Sl F C (single_pages (ps @ take m (p # qs))) \<and> objs s' Sl F = objs s Sl F" if m: "m \<le> Suc n" for m
  proof (cases m)
    case 0
    have "same_area (global_mem s) (global_mem s)" by (simp add: same_area_def)
    then show ?thesis using 0 Suc.prems(1) by simp
  next
    case (Suc j)
    then obtain s' where "take_pages j ?s = Inr s'" "same_area pool (global_mem s')"
       "heap_all s' Sl F C (single_pages ((ps @ [p]) @ take j qs))" "objs s' Sl F = objs ?s Sl F"
      using q(5) m by auto
    then show ?thesis using g p(4) same_area_trans [OF p(2)] by (simp add: Suc)
  qed
  then show ?case using p(1,6) q pl(1,6) by (intro exI [of _ "p # qs"]) auto
qed

section \<open>The whole initialisation\<close>

lemma pool_start:
  assumes len: "128000 \<le> length start_page" and sl: "length (slabs s) = Suc SLAB_MAX_ORDER"
  shows "\<exists>pool s' Sl F C. init_buddy start_page START_VADDR NPAGES = Inr pool \<and>
    init_slab (s\<lparr>global_mem := pool\<rparr>) = Inr s' \<and> heap_all s' Sl F C {} \<and> objs s' Sl F = {} \<and>
    finite (dom Sl) \<and> card (dom Sl) \<le> 7 \<and> npages (global_mem s') = 128000 \<and> pool_start_addr (global_mem s') = START_VADDR"
proof -
  have n: "unat NPAGES = 128000" by (simp add: NPAGES_def)
  have al: "4096 dvd unat START_VADDR" unfolding start_unat by simp
  have bd: "unat START_VADDR + 4096 * unat NPAGES < 2 ^ 64" unfolding start_unat n by simp
  have le: "unat NPAGES \<le> length start_page" using len n by simp
  obtain pool where p: "init_buddy start_page START_VADDR NPAGES = Inr pool" "buddy_inv pool {}"
    "coalesced (pfn pool) (free_blocks pool)" "npages pool = 128000" "pool_start_addr pool = START_VADDR"
    "\<forall>i < npages pool. pslab (page_metadata pool ! i) = 0"
    using init_buddy_spec [OF al bd le] n by auto
  let ?s = "s\<lparr>global_mem := pool\<rparr>"
  have "0 < pfn pool" using p(5) start_unat by (simp add: pfn_def)
  then obtain s' Sl F C where s': "init_slab ?s = Inr s'" "heap_all s' Sl F C {}" "objs s' Sl F = {}"
    "finite (dom Sl)" "card (dom Sl) \<le> 7" "same_area pool (global_mem s')"
    using heap_start_few [of ?s] p sl by (auto simp: buddy_ok_def)
  have "npages (global_mem s') = 128000" "pool_start_addr (global_mem s') = START_VADDR"
    using s'(6) p(4,5) same_place(6) [OF s'(6)] by (simp_all add: same_area_def)
  then show ?thesis using p(1) s'(1-5) by blast
qed

text \<open>The pages of the pool are not the tables of the boot code.\<close>

lemma pool_page_apart:
  assumes pool: "pool_start_addr pool = START_VADDR" and p: "p < 128000" and a: "placed a"
    and low: "at_ttbr1_l1 a < PHYSICAL_MEM_START" "at_ttbr1_l2 a < PHYSICAL_MEM_START"
  shows "page_to_virt pool p \<noteq> 0 \<and>
    page_to_virt pool p \<notin> {at_ttbr1_l0 a, phys_to_virt (at_ttbr1_l1 a), phys_to_virt (at_ttbr1_l2 a)}"
proof -
  define pa :: u64 where "pa = 0x1800000 + of_nat p * 0x1000"
  have u: "unat pa = 4096 * (6144 + p)" unfolding pa_def page_phys [OF p] by simp
  have v: "page_to_virt pool p = phys_to_virt pa" unfolding page_of_pool [OF pool] pa_def by (simp add: phys_to_virt_def)
  have "take_bit 12 (unat pa) = 0" unfolding u take_bit_eq_mod by simp
  then have "unat (take_bit 12 pa) = 0" unfolding unsigned_take_bit_eq .
  moreover have "drop_bit 30 (unat pa) = 0" unfolding u drop_bit_eq_div using p by simp
  then have "unat (drop_bit 30 pa) = 0" unfolding unat_drop_bit_eq .
  ultimately have t: "table_at pa" by (simp add: table_at_def unat_eq_zero)
  have "at_ttbr1_l0 a \<noteq> phys_to_virt pa" by (rule apart_from_kernel [OF _ t]) (use placed_at [OF a] in simp)
  moreover have "x \<noteq> pa" if "x < PHYSICAL_MEM_START" for x
    using that u by (auto simp: word_less_nat_alt PHYSICAL_MEM_START_def)
  then have "phys_to_virt pa \<noteq> phys_to_virt (at_ttbr1_l1 a)" "phys_to_virt pa \<noteq> phys_to_virt (at_ttbr1_l2 a)"
    using low by (auto simp: phys_to_virt_def)
  moreover have "phys_to_virt pa \<noteq> 0" using apart_from_kernel [OF _ t, of 0] by (simp add: table_at_def)
  ultimately show ?thesis unfolding v by auto
qed

text \<open>In the map of the kernel every page of the pool is at its own frame.\<close>

lemma pool_mapped:
  assumes pool: "pool_start_addr pool = START_VADDR"
    and m: "\<forall>pa < 0x80000000. summary (tr (KBASE + pa)) =
        Some (pa, if pa < PERIPHERAL_BASE then 4 else 0, PHYSMEM_BOOT_END \<le> pa \<and> pa < PERIPHERAL_BASE)"
  shows "\<forall>p < 128000. \<exists>user. summary (tr (page_to_virt pool p)) =
       Some (of_nat (25165824 + 4096 * p), if p < 124928 then 4 else 0, user)"
proof (intro allI impI)
  fix p :: nat assume p: "p < 128000"
  define pa :: u64 where "pa = 0x1800000 + of_nat p * 0x1000"
  have u: "unat pa = 25165824 + 4096 * p" unfolding pa_def by (rule page_phys [OF p])
  have lt: "pa < 0x80000000" and dev: "pa < PERIPHERAL_BASE \<longleftrightarrow> p < 124928"
    unfolding word_less_nat_alt u PERIPHERAL_BASE_def using p by auto
  have eq: "pa = of_nat (25165824 + 4096 * p)" unfolding u [symmetric] by simp
  have v: "page_to_virt pool p = KBASE + pa" unfolding pa_def by (rule page_of_pool [OF pool])
  show "\<exists>user. summary (tr (page_to_virt pool p)) = Some (of_nat (25165824 + 4096 * p), if p < 124928 then 4 else 0, user)"
    unfolding v m [rule_format, OF lt] eq [symmetric] dev by blast
qed

lemma single_pages_ok:
  assumes "heap_all s Sl F C (single_pages ps)" "objs s Sl F = {}"
  shows "heap_ok s ((\<lambda>p. (unat (page_to_virt (global_mem s) p), 4096)) ` set ps)"
proof -
  have inv: "buddy_inv (global_mem s) (slab_blocks Sl \<union> single_pages ps)"
    using assms(1) by (simp add: heap_all_def heap_mem_def buddy_ok_def)
  have "block_region (global_mem s) (p, 0) = (unat (page_to_virt (global_mem s) p), 4096)" if "p \<in> set ps" for p
    using block_addr [OF inv, of p 0] that by (simp add: single_pages_def)
  then have "block_region (global_mem s) ` single_pages ps = (\<lambda>p. (unat (page_to_virt (global_mem s) p), 4096)) ` set ps"
    unfolding single_pages_def image_image by (rule image_cong [OF refl])
  then show ?thesis using assms unfolding heap_ok_def by fastforce
qed

text \<open>
  C14: With the tables of the boot code installed below the pool and an image that leaves room for the
  page metadata below 24M, \<^verbatim>\<open>mm_init\<close> returns with a well-formed heap of 128000 pages. What is handed
  out is exactly the 128 different pages \<open>ps\<close> of the pool that \<^verbatim>\<open>map_kernel_space\<close> has taken for the
  tables of its blocks (and overwritten by them); and every page of the pool is mapped in the kernel
  address space to its own frame. The last 3072 pages lie above \<^verbatim>\<open>PERIPHERAL_BASE\<close> and are mapped as
  device memory.
\<close>

theorem mm_init_correct:
  assumes "placed a" "init_boot_pt a zero_tables = Inr b"
    and "at_ttbr1_l1 a < PHYSICAL_MEM_START" "at_ttbr1_l2 a < PHYSICAL_MEM_START"
    and "unat (ROUND_UP img_end PAGE_SIZE) + 4096000 \<le> 25165824" "128000 \<le> length start_page"
    and "length (slabs s) = Suc SLAB_MAX_ORDER"
  shows "\<exists>s' pt' ps. mm_init img_end start_page (at_ttbr1_l0 a) s (kernel_pt a b []) = Inr (s', pt') \<and>
    npages (global_mem s') = 128000 \<and> length ps = 128 \<and> distinct ps \<and> set ps \<subseteq> {..<128000} \<and>
    heap_ok s' ((\<lambda>p. (unat (page_to_virt (global_mem s') p), 4096)) ` set ps) \<and>
    (\<forall>p < 128000. \<exists>user. summary (translate (hw_view (at_ttbr1_l0 a) (ptm pt')) (at_ttbr1_l0 a) (page_to_virt (global_mem s') p)) =
       Some (of_nat (25165824 + 4096 * p), if p < 124928 then 4 else 0, user))"
proof -
  let ?s = "s\<lparr>meta_addr := phys_to_virt (ROUND_UP img_end PAGE_SIZE)\<rparr>"
  have "length (slabs ?s) = Suc SLAB_MAX_ORDER" using assms(7) by simp
  from pool_start [OF assms(6) this] obtain pool s1 Sl F C where
    s1: "init_buddy start_page START_VADDR NPAGES = Inr pool" "init_slab (?s\<lparr>global_mem := pool\<rparr>) = Inr s1"
      "heap_all s1 Sl F C {}" "objs s1 Sl F = {}" "finite (dom Sl)" "card (dom Sl) \<le> 7"
      "npages (global_mem s1) = 128000" "pool_start_addr (global_mem s1) = START_VADDR"
    by blast
  have h1: "heap_all s1 Sl F C (single_pages [])" using s1(3) by (simp add: single_pages_def)
  obtain qs where q: "answers 384 s1 = map (page_to_virt (global_mem s1)) qs" "length qs = 384" "distinct qs" "set qs \<subseteq> {..<128000}"
    "\<forall>m \<le> 384. \<exists>s'. take_pages m s1 = Inr s' \<and> same_area (global_mem s1) (global_mem s') \<and>
       heap_all s' Sl F C (single_pages (take m qs)) \<and> objs s' Sl F = {}"
    using take_many [OF h1 s1(5,6), of 384] s1(4,7) by auto
  let ?supply = "map (page_to_virt (global_mem s1)) qs"
  have sup: "x \<noteq> 0 \<and> x \<notin> {at_ttbr1_l0 a, phys_to_virt (at_ttbr1_l1 a), phys_to_virt (at_ttbr1_l2 a)}" if "x \<in> set ?supply" for x
    using that q(4) pool_page_apart [OF s1(8) _ assms(1,3,4)] by auto
  have "128 \<le> length ?supply" using q(2) by simp
  from map_kernel_space_spec [OF assms(1,2) this sup] obtain pt' where
    pt: "map_kernel_space (at_ttbr1_l0 a) (KBASE + push_bit 21 128) (push_bit 21 128) (push_bit 21 128) (kernel_pt a b ?supply) = Inr pt'"
    "page_supply pt' = drop 128 ?supply"
    "\<forall>pa < 0x80000000. summary (translate (hw_view (at_ttbr1_l0 a) (ptm pt')) (at_ttbr1_l0 a) (KBASE + pa)) =
        Some (pa, if pa < PERIPHERAL_BASE then 4 else 0, PHYSMEM_BOOT_END \<le> pa \<and> pa < PERIPHERAL_BASE)"
    by blast
  obtain s' where s': "take_pages 128 s1 = Inr s'" "same_area (global_mem s1) (global_mem s')"
    "heap_all s' Sl F C (single_pages (take 128 qs))" "objs s' Sl F = {}"
    using q(5) [rule_format, of 128] by auto
  have used: "length ?supply - length (page_supply pt') = 128" using q(2) pt(2) by simp
  have "(kernel_pt a b [])\<lparr>page_supply := ?supply\<rparr> = kernel_pt a b ?supply" by (simp add: kernel_pt_def)
  then have run: "mm_init img_end start_page (at_ttbr1_l0 a) s (kernel_pt a b []) = Inr (s', pt')"
    using metadata_fits [OF assms(5)] s1(1,2) q(1) pt(1) used s'(1) by (simp add: mm_init_def Let_def)
  have place: "npages (global_mem s') = 128000" "pool_start_addr (global_mem s') = START_VADDR"
    using s1(7,8) s'(2) same_place(6) [OF s'(2)] by (simp_all add: same_area_def)
  have "heap_ok s' ((\<lambda>p. (unat (page_to_virt (global_mem s') p), 4096)) ` set (take 128 qs))"
    by (rule single_pages_ok [OF s'(3,4)])
  moreover have "set (take 128 qs) \<subseteq> {..<128000}" using q(4) set_take_subset [of 128 qs] by blast
  ultimately show ?thesis
    using run place(1) q(2,3) pool_mapped [OF place(2) pt(3)]
    by (intro exI [of _ s'] exI [of _ pt'] exI [of _ "take 128 qs"]) simp
qed

definition demo_start :: kheap where
  "demo_start = \<lparr>global_mem = \<lparr>pool_start_addr = 0, pool_mem_size = 0, pool_phys_page_num = 0, page_metadata = [], free_lists = []\<rparr>,
     meta_addr = 0, hdrs = Map.empty, next_free = Map.empty, slabs = replicate 12 0\<rparr>"

theorem mm_init_correct_witness:
  "\<exists>b. init_boot_pt demo_addrs zero_tables = Inr b \<and>
    (\<exists>s' pt' ps. mm_init 0xA0000 (replicate 128000 \<lparr>allocated = 7, porder = 3, pslab = 9\<rparr>) (at_ttbr1_l0 demo_addrs) demo_start (kernel_pt demo_addrs b []) = Inr (s', pt') \<and>
    npages (global_mem s') = 128000 \<and> length ps = 128 \<and> distinct ps \<and> set ps \<subseteq> {..<128000} \<and>
    heap_ok s' ((\<lambda>p. (unat (page_to_virt (global_mem s') p), 4096)) ` set ps) \<and>
    (\<forall>p < 128000. \<exists>user. summary (translate (hw_view (at_ttbr1_l0 demo_addrs) (ptm pt')) (at_ttbr1_l0 demo_addrs) (page_to_virt (global_mem s') p)) =
       Some (of_nat (25165824 + 4096 * p), if p < 124928 then 4 else 0, user)))"
proof -
  obtain b where b: "init_boot_pt demo_addrs zero_tables = Inr b" using init_boot_pt_tables by blast
  have "ROUND_UP 0xA0000 PAGE_SIZE = 0xA0000" by code_simp
  then have 1: "unat (ROUND_UP 0xA0000 PAGE_SIZE) + 4096000 \<le> 25165824" by simp
  have 2: "128000 \<le> length (replicate 128000 \<lparr>allocated = 7, porder = 3, pslab = 9\<rparr>)" unfolding length_replicate by (rule order_refl)
  have 3: "length (slabs demo_start) = Suc SLAB_MAX_ORDER" by (simp add: demo_start_def slab_consts)
  have 4: "at_ttbr1_l1 demo_addrs < PHYSICAL_MEM_START" "at_ttbr1_l2 demo_addrs < PHYSICAL_MEM_START"
    by (simp_all add: demo_addrs_def PHYSICAL_MEM_START_def)
  show ?thesis using b mm_init_correct [OF demo_placed b 4 1 2 3] by blast
qed

end
