(* ===== verification/Smp.thy ===== *)
theory Smp
  imports TicketLock "HOL-Library.Sublist"
begin

text \<open>
  The processors at work: \<^verbatim>\<open>boot/start.S\<close> and \<^verbatim>\<open>boot/init_c.c\<close>, \<^verbatim>\<open>main\<close> and
  \<^verbatim>\<open>secondary_start\<close> (\<^verbatim>\<open>main.c\<close>), \<^verbatim>\<open>enable_smp_cores\<close>
  (\<^verbatim>\<open>common/smp.c\<close>), and then the entries to the kernel and the returns from it
  (\<^verbatim>\<open>exception_table.S\<close>). A function is the list of its statements; the processors run
  theirs concurrently, a processor that waits has no step, and the big kernel lock is the ticket lock of
  the theory \<open>TicketLock\<close>, instruction by instruction. What is called has its model in the other theories;
  here the calls are recorded in the order in which they happen.
\<close>

section \<open>Programs\<close>

datatype boot_call = Clear_bss | Early_uart_init | Wakeup_other_cores | Init_boot_pt | El1_mmu_activate
  | Uart_init | Stack_test | Mm_init | Exception_init | Kernel_lock_init | Sched_init | Process_create_root
  | Exception_init_per_cpu | Schedule | Handle_exception | Lock_kernel | Unlock_kernel

text \<open>
  \<open>Set_status\<close> and \<open>Wait_flag\<close> are about the entry of the processor that runs them; \<open>Eret\<close> is
  \<^verbatim>\<open>exception_return\<close>: it releases the lock and goes to user mode.
\<close>

datatype stmt = Call boot_call | Lock | Eret | User
  | Wait_bss | Wait_flag | Set_status u8 | Set_flag nat u64 | Wait_status nat u8

definition NOT_BSS :: u64 where "NOT_BSS = 0xBEEF"
definition cpu_hang :: u8 where "cpu_hang = 0"
definition cpu_run :: u8 where "cpu_run = 1"

definition start_secondary :: "stmt list" where
  "start_secondary = [Wait_bss, Wait_flag]"

definition init_c :: "stmt list" where
  "init_c = [Call Clear_bss, Call Early_uart_init, Call Wakeup_other_cores, Call Init_boot_pt, Call El1_mmu_activate]"

definition secondary_init_c :: "stmt list" where
  "secondary_init_c = [Call El1_mmu_activate]"

definition enable_smp_cores :: "stmt list" where
  "enable_smp_cores = Set_status cpu_run #
     concat (map (\<lambda>i. [Set_flag i NOT_BSS, Wait_status i cpu_run]) [0..<NCPU])"

definition main_c :: "stmt list" where
  "main_c = [Call Uart_init, Call Stack_test, Call Mm_init, Call Exception_init, Call Kernel_lock_init, Lock, Call Sched_init] @
     enable_smp_cores @ [Call Process_create_root, Call Schedule, Eret]"

definition secondary_start :: "stmt list" where
  "secondary_start = [Call Exception_init_per_cpu, Set_status cpu_run, Lock, Call Schedule, Eret]"

text \<open>
  User mode, or the idle thread, until the next exception; its entry takes the lock. An exception inside
  the kernel, whose entry does not, is \<open>kernel_fault\<close> below.
\<close>

definition kernel_entry :: "stmt list" where
  "kernel_entry = [User, Lock, Call Handle_exception, Eret]"

definition code :: "nat \<Rightarrow> stmt list" where
  "code i = (if i = 0 then init_c @ main_c else start_secondary @ secondary_init_c @ secondary_start) @ kernel_entry"

definition user_pos :: "nat \<Rightarrow> nat" where
  "user_pos i = length (code i) - length kernel_entry"

section \<open>Steps\<close>

record smp =
  pos :: "nat \<Rightarrow> nat"
  clear_bss_flag :: u64
  boot_flag :: "u64 list"
  cpu_status :: "u8 list"
  klock :: lock_state
  calls :: "(nat \<times> boot_call) list"

definition jump :: "nat \<Rightarrow> nat \<Rightarrow> smp \<Rightarrow> smp" where
  "jump i p s = s\<lparr>pos := (pos s)(i := p)\<rparr>"

definition record_call :: "nat \<Rightarrow> boot_call \<Rightarrow> smp \<Rightarrow> smp" where
  "record_call i c s = s\<lparr>calls := calls s @ [(i, c)]\<rparr>"

text \<open>\<^verbatim>\<open>cpu_status\<close> is in the BSS area.\<close>

definition do_call :: "boot_call \<Rightarrow> smp \<Rightarrow> smp" where
  "do_call c s = (case c of
     Clear_bss \<Rightarrow> s\<lparr>cpu_status := replicate NCPU 0, clear_bss_flag := 0\<rparr>
   | Kernel_lock_init \<Rightarrow> s\<lparr>klock := (klock s)\<lparr>the_lock := snd (lock_init (the_lock (klock s)))\<rparr>\<rparr>
   | _ \<Rightarrow> s)"

inductive stmt_step :: "stmt \<Rightarrow> nat \<Rightarrow> smp \<Rightarrow> smp \<Rightarrow> bool" where
  Do: "stmt_step (Call c) i s (jump i (Suc (pos s i)) (record_call i c (do_call c s)))"
| Trap: "stmt_step User i s (jump i (Suc (pos s i)) s)"
| Bss: "clear_bss_flag s = 0 \<Longrightarrow> stmt_step Wait_bss i s (jump i (Suc (pos s i)) s)"
| Flag: "boot_flag s ! i \<noteq> 0 \<Longrightarrow> stmt_step Wait_flag i s (jump i (Suc (pos s i)) s)"
| Status: "stmt_step (Set_status v) i s (jump i (Suc (pos s i)) (s\<lparr>cpu_status := (cpu_status s)[i := v]\<rparr>))"
| Wake: "stmt_step (Set_flag k v) i s (jump i (Suc (pos s i)) (s\<lparr>boot_flag := (boot_flag s)[k := v]\<rparr>))"
| Await: "cpu_status s ! k = v \<Longrightarrow> stmt_step (Wait_status k v) i s (jump i (Suc (pos s i)) s)"
| Locking: "step_lock i (klock s) l \<Longrightarrow> pc l i \<noteq> Holds \<Longrightarrow> stmt_step Lock i s (s\<lparr>klock := l\<rparr>)"
| Locked: "step_lock i (klock s) l \<Longrightarrow> pc l i = Holds \<Longrightarrow>
    stmt_step Lock i s (jump i (Suc (pos s i)) (record_call i Lock_kernel (s\<lparr>klock := l\<rparr>)))"
| Unlocking: "step_unlock i (klock s) l \<Longrightarrow> pc l i \<noteq> Out \<Longrightarrow> stmt_step Eret i s (s\<lparr>klock := l\<rparr>)"
| Unlocked: "step_unlock i (klock s) l \<Longrightarrow> pc l i = Out \<Longrightarrow>
    stmt_step Eret i s (jump i (user_pos i) (record_call i Unlock_kernel (s\<lparr>klock := l\<rparr>)))"

definition smp_step :: "nat \<Rightarrow> smp \<Rightarrow> smp \<Rightarrow> bool" where
  "smp_step i s s' \<longleftrightarrow> i < NCPU \<and> stmt_step (code i ! pos s i) i s s'"

text \<open>When the firmware starts the processors, the BSS area and the lock contain anything.\<close>

definition power_on :: "smp \<Rightarrow> bool" where
  "power_on s \<longleftrightarrow> (\<forall>i. pos s i = 0) \<and> clear_bss_flag s = NOT_BSS \<and> boot_flag s = NOT_BSS # replicate (NCPU - 1) 0 \<and>
     length (cpu_status s) = NCPU \<and> (\<forall>i. pc (klock s) i = Out \<and> \<not> monitor (klock s) i) \<and> calls s = []"

inductive smp_reach :: "smp \<Rightarrow> bool" where
  start: "power_on s \<Longrightarrow> smp_reach s"
| move: "smp_reach s \<Longrightarrow> smp_step i s s' \<Longrightarrow> smp_reach s'"

text \<open>
  An exception of a processor that is in the kernel: \<^verbatim>\<open>handle_entry_c\<close> does not take the lock
  (the theory \<open>Exception\<close>), but \<^verbatim>\<open>exception_return\<close> releases it, and the processor goes on
  where it was. An execution counts them: \<open>smp_exec n s\<close>, the state \<open>s\<close> can be reached with \<open>n\<close> exceptions
  inside the kernel. \<open>smp_reach\<close> is the case of none.
\<close>

inductive kernel_fault :: "nat \<Rightarrow> smp \<Rightarrow> smp \<Rightarrow> bool" where
  "code i ! pos s i = Call c \<Longrightarrow> step_unlock i (klock s) l \<Longrightarrow> step_unlock i l l' \<Longrightarrow>
    kernel_fault i s (record_call i Unlock_kernel (s\<lparr>klock := l'\<rparr>))"

inductive smp_exec :: "nat \<Rightarrow> smp \<Rightarrow> bool" where
  power: "power_on s \<Longrightarrow> smp_exec 0 s"
| step: "smp_exec n s \<Longrightarrow> smp_step i s s' \<Longrightarrow> smp_exec n s'"
| fault: "smp_exec n s \<Longrightarrow> i < NCPU \<Longrightarrow> kernel_fault i s s' \<Longrightarrow> smp_exec (Suc n) s'"

lemma exec_reach: "smp_exec 0 s \<longleftrightarrow> smp_reach s"
proof
  show "smp_exec 0 s \<Longrightarrow> smp_reach s" by (induction "0 :: nat" s rule: smp_exec.induct) (auto intro: smp_reach.intros)
  show "smp_reach s \<Longrightarrow> smp_exec 0 s" by (induction rule: smp_reach.induct) (auto intro: smp_exec.intros)
qed

inductive_simps stmt_simps:
  "stmt_step (Call c) i s s'" "stmt_step User i s s'" "stmt_step Wait_bss i s s'" "stmt_step Wait_flag i s s'"
  "stmt_step (Set_status v) i s s'" "stmt_step (Set_flag k v) i s s'" "stmt_step (Wait_status k v) i s s'"

inductive_cases lockE: "stmt_step Lock i s s'"
inductive_cases eretE: "stmt_step Eret i s s'"

section \<open>The order of the start\<close>

definition boot_sequence :: "(nat \<times> boot_call) list" where
  "boot_sequence = map (Pair 0) [Clear_bss, Early_uart_init, Wakeup_other_cores, Init_boot_pt, El1_mmu_activate,
       Uart_init, Stack_test, Mm_init, Exception_init, Kernel_lock_init, Lock_kernel, Sched_init] @
     concat (map (\<lambda>i. [(i, El1_mmu_activate), (i, Exception_init_per_cpu)]) [1..<NCPU]) @
     map (Pair 0) [Process_create_root, Schedule, Unlock_kernel]"

lemmas code_defs = init_c_def main_c_def enable_smp_cores_def start_secondary_def secondary_init_c_def secondary_start_def
  kernel_entry_def NCPU_def

lemma primary_code: "code 0 = [Call Clear_bss, Call Early_uart_init, Call Wakeup_other_cores, Call Init_boot_pt, Call El1_mmu_activate,
    Call Uart_init, Call Stack_test, Call Mm_init, Call Exception_init, Call Kernel_lock_init, Lock, Call Sched_init,
    Set_status 1, Set_flag 0 0xBEEF, Wait_status 0 1, Set_flag 1 0xBEEF, Wait_status 1 1,
    Set_flag 2 0xBEEF, Wait_status 2 1, Set_flag 3 0xBEEF, Wait_status 3 1,
    Call Process_create_root, Call Schedule, Eret, User, Lock, Call Handle_exception, Eret]"
  unfolding code_def code_defs cpu_run_def NOT_BSS_def by (simp add: upt_rec)

lemma secondary_code: "i \<noteq> 0 \<Longrightarrow> code i = [Wait_bss, Wait_flag, Call El1_mmu_activate, Call Exception_init_per_cpu,
    Set_status 1, Lock, Call Schedule, Eret, User, Lock, Call Handle_exception, Eret]"
  unfolding code_def code_defs cpu_run_def by simp

lemma user_positions [simp]: "user_pos 0 = 24" "i \<noteq> 0 \<Longrightarrow> user_pos i = 8"
  unfolding user_pos_def by (simp_all add: primary_code secondary_code kernel_entry_def)

lemma sequence: "boot_sequence = [(0, Clear_bss), (0, Early_uart_init), (0, Wakeup_other_cores), (0, Init_boot_pt), (0, El1_mmu_activate),
    (0, Uart_init), (0, Stack_test), (0, Mm_init), (0, Exception_init), (0, Kernel_lock_init), (0, Lock_kernel), (0, Sched_init),
    (1, El1_mmu_activate), (1, Exception_init_per_cpu), (2, El1_mmu_activate), (2, Exception_init_per_cpu),
    (3, El1_mmu_activate), (3, Exception_init_per_cpu), (0, Process_create_root), (0, Schedule), (0, Unlock_kernel)]"
  unfolding boot_sequence_def NCPU_def by (simp add: upt_rec)


section \<open>Who holds the lock\<close>

text \<open>A position between a \<open>Lock\<close> and the next \<open>Eret\<close>, in the text of the program.\<close>

fun lock_held :: "bool \<Rightarrow> stmt list \<Rightarrow> nat \<Rightarrow> bool" where
  "lock_held b cs 0 = b"
| "lock_held b [] (Suc n) = b"
| "lock_held b (c # cs) (Suc n) = lock_held (c = Lock \<or> c \<noteq> Eret \<and> b) cs n"

definition in_kernel :: "nat \<Rightarrow> nat \<Rightarrow> bool" where
  "in_kernel i p = lock_held False (code i) p"

text \<open>What a processor does with the lock, by its position.\<close>

definition lock_at :: "nat \<Rightarrow> nat \<Rightarrow> lock_pc \<Rightarrow> bool" where
  "lock_at i p l \<longleftrightarrow> (if in_kernel i p then l = Holds \<or> code i ! p = Eret \<and> (\<exists>n. l = Releasing n)
     else l = Out \<or> code i ! p = Lock \<and> (\<exists>n. l = Taking n \<or> l = Spin n))"

lemma code_length: "length (code i) = (if i = 0 then 28 else 12)"
  by (simp add: primary_code secondary_code)

lemma primary_cases:
  assumes "p < (28 :: nat)"
  shows "p \<in> {0, 1, 2, 3, 4, 5, 6, 7, 8, 9, 10, 11, 12, 13, 14, 15, 16, 17, 18, 19, 20, 21, 22, 23, 24, 25, 26, 27}"
  using assms by (simp add: eval_nat_numeral less_Suc_eq)

lemma secondary_cases:
  assumes "p < (12 :: nat)"
  shows "p \<in> {0, 1, 2, 3, 4, 5, 6, 7, 8, 9, 10, 11 :: nat}"
  using assms by (simp add: eval_nat_numeral less_Suc_eq)

lemma in_kernel_primary: "p < 28 \<Longrightarrow> in_kernel 0 p \<longleftrightarrow> p \<in> {11..23} \<or> 26 \<le> p"
  using primary_cases [of p] by (auto simp: in_kernel_def primary_code eval_nat_numeral)

lemma in_kernel_secondary: "p < 12 \<Longrightarrow> i \<noteq> 0 \<Longrightarrow> in_kernel i p \<longleftrightarrow> p \<in> {6, 7} \<or> 10 \<le> p"
  using secondary_cases [of p] by (auto simp: in_kernel_def secondary_code eval_nat_numeral)


section \<open>The invariant\<close>

text \<open>Calls made by a processor before position \<open>p\<close>, while the system starts.\<close>

definition primary_calls :: "nat \<Rightarrow> nat" where
  "primary_calls p = (if p \<le> 12 then p else 12 + (p - 21))"

definition secondary_calls :: "nat \<Rightarrow> nat" where
  "secondary_calls p = min 2 (p - 2)"

text \<open>
  A secondary processor before the primary one has left the kernel: the primary sets its flag in
  position \<open>13 + 2 * j\<close> and waits for it in the next.
\<close>

definition starting :: "nat \<Rightarrow> nat \<Rightarrow> smp \<Rightarrow> bool" where
  "starting p j s \<longleftrightarrow> boot_flag s ! j = (if 13 + 2 * j < p then NOT_BSS else 0) \<and>
     pos s j \<le> 5 \<and> (1 \<le> pos s j \<longrightarrow> 1 \<le> p) \<and> (2 \<le> pos s j \<longrightarrow> 13 + 2 * j < p) \<and> (14 + 2 * j < p \<longrightarrow> pos s j = 5) \<and>
     (1 \<le> p \<longrightarrow> cpu_status s ! j = (if pos s j = 5 then cpu_run else cpu_hang))"

definition boot_inv :: "nat \<Rightarrow> smp \<Rightarrow> bool" where
  "boot_inv p s \<longleftrightarrow> (if p \<le> 23
     then starting p 1 s \<and> starting p 2 s \<and> starting p 3 s \<and>
       (clear_bss_flag s = 0 \<longleftrightarrow> 1 \<le> p) \<and> (12 < p \<longrightarrow> cpu_status s ! 0 = cpu_run) \<and>
       calls s = take (primary_calls p + secondary_calls (pos s 1) + secondary_calls (pos s 2) + secondary_calls (pos s 3)) boot_sequence
     else 5 \<le> pos s 1 \<and> 5 \<le> pos s 2 \<and> 5 \<le> pos s 3 \<and> (\<forall>i < NCPU. cpu_status s ! i = cpu_run) \<and> prefix boot_sequence (calls s))"

definition lock_inv :: "smp \<Rightarrow> bool" where
  "lock_inv s \<longleftrightarrow> (\<forall>i < NCPU. pos s i < length (code i) \<and> lock_at i (pos s i) (pc (klock s) i)) \<and>
     (if pos s 0 \<le> 9 then \<forall>i. pc (klock s) i = Out \<and> \<not> monitor (klock s) i else \<exists>q. lock_queue (klock s) q)"

definition smp_inv :: "smp \<Rightarrow> bool" where
  "smp_inv s \<longleftrightarrow> lock_inv s \<and> boot_inv (pos s 0) s \<and> length (boot_flag s) = NCPU \<and> length (cpu_status s) = NCPU"

lemma all_ncpu: "(\<forall>i < NCPU. P i) \<longleftrightarrow> P 0 \<and> P 1 \<and> P 2 \<and> P 3"
  unfolding NCPU_def by (auto simp: eval_nat_numeral less_Suc_eq)

lemma smp_inv_start:
  assumes "power_on s"
  shows "smp_inv s"
proof -
  have p: "\<And>i. pos s i = 0" and l: "\<And>i. pc (klock s) i = Out" "\<And>i. \<not> monitor (klock s) i"
    and r: "clear_bss_flag s = NOT_BSS" "boot_flag s = [NOT_BSS, 0, 0, 0]" "length (cpu_status s) = NCPU" "calls s = []"
    using assms by (simp_all add: power_on_def NCPU_def eval_nat_numeral)
  have "lock_inv s" unfolding lock_inv_def all_ncpu by (simp add: p l code_length lock_at_def in_kernel_def)
  moreover have "boot_inv 0 s"
    by (simp add: boot_inv_def starting_def p r primary_calls_def secondary_calls_def) (simp add: NOT_BSS_def)
  ultimately show ?thesis using r(3) by (simp add: smp_inv_def p r(2) NCPU_def)
qed

lemmas move_defs = jump_def record_call_def do_call_def

text \<open>The steps that leave the lock alone.\<close>

lemma lock_free_step:
  assumes inv: "smp_inv s" and st: "stmt_step c i s s'" "c = code i ! pos s i" "i < NCPU"
    and c: "c \<noteq> Lock" "c \<noteq> Eret" "c \<noteq> Call Kernel_lock_init"
  shows "klock s' = klock s \<and> pos s' = (pos s)(i := Suc (pos s i))"
  using st(1) c by (cases rule: stmt_step.cases) (auto simp: move_defs split: boot_call.splits)

text \<open>Mutual exclusion of the lock.\<close>

lemma held_unique:
  assumes "lock_queue l q" "served (pc l i)" "served (pc l j)"
  shows "i = j"
  by (rule served_head [OF assms(1,2)], rule served_head [OF assms(1,3)]) simp

lemma in_kernel_served:
  assumes "lock_at i p l" "in_kernel i p"
  shows "served l"
  using assms by (auto simp: lock_at_def served_def)


lemma code_at:
  assumes "p < length (code i)"
  shows "code i ! p \<notin> {Lock, Eret} \<Longrightarrow> Suc p < length (code i) \<and> in_kernel i (Suc p) = in_kernel i p"
    and "code i ! p = Lock \<Longrightarrow> \<not> in_kernel i p \<and> Suc p < length (code i) \<and> in_kernel i (Suc p)"
    and "code i ! p = Eret \<Longrightarrow> in_kernel i p \<and> user_pos i < length (code i) \<and> \<not> in_kernel i (user_pos i) \<and> code i ! user_pos i = User"
    and "code i ! p = Call Kernel_lock_init \<longleftrightarrow> i = 0 \<and> p = 9"
proof -
  have "(code i ! p \<notin> {Lock, Eret} \<longrightarrow> Suc p < length (code i) \<and> in_kernel i (Suc p) = in_kernel i p) \<and>
    (code i ! p = Lock \<longrightarrow> \<not> in_kernel i p \<and> Suc p < length (code i) \<and> in_kernel i (Suc p)) \<and>
    (code i ! p = Eret \<longrightarrow> in_kernel i p \<and> user_pos i < length (code i) \<and> \<not> in_kernel i (user_pos i) \<and> code i ! user_pos i = User) \<and>
    (code i ! p = Call Kernel_lock_init \<longleftrightarrow> i = 0 \<and> p = 9)"
  proof (cases "i = 0")
    case True
    then have "p < 28" using assms by (simp add: code_length)
    from primary_cases [OF this] show ?thesis
      unfolding True by (auto simp: in_kernel_primary primary_code)
  next
    case False
    then have "p < 12" using assms by (simp add: code_length)
    from secondary_cases [OF this] show ?thesis
      using False by (auto simp: in_kernel_secondary secondary_code)
  qed
  then show "code i ! p \<notin> {Lock, Eret} \<Longrightarrow> Suc p < length (code i) \<and> in_kernel i (Suc p) = in_kernel i p"
    and "code i ! p = Lock \<Longrightarrow> \<not> in_kernel i p \<and> Suc p < length (code i) \<and> in_kernel i (Suc p)"
    and "code i ! p = Eret \<Longrightarrow> in_kernel i p \<and> user_pos i < length (code i) \<and> \<not> in_kernel i (user_pos i) \<and> code i ! user_pos i = User"
    and "code i ! p = Call Kernel_lock_init \<longleftrightarrow> i = 0 \<and> p = 9"
    by blast+
qed

lemma primary_lock_pos: "p < 28 \<Longrightarrow> code 0 ! p \<in> {Lock, Eret} \<Longrightarrow> p \<in> {10, 23, 25, 27}"
  using primary_cases [of p] by (auto simp: primary_code)

lemma secondary_lock_pos: "p < 12 \<Longrightarrow> i \<noteq> 0 \<Longrightarrow> code i ! p \<in> {Lock, Eret} \<Longrightarrow> 5 \<le> p"
  using secondary_cases [of p] by (auto simp: secondary_code)

text \<open>Nobody uses the lock before it is initialised.\<close>

lemma lock_ready:
  assumes inv: "smp_inv s" and i: "i < NCPU" and c: "code i ! pos s i \<in> {Lock, Eret}"
  shows "10 \<le> pos s 0" "\<exists>q. lock_queue (klock s) q"
proof -
  have len: "pos s i < length (code i)" using inv i by (simp add: smp_inv_def lock_inv_def)
  show "10 \<le> pos s 0"
  proof (cases "i = 0")
    case True
    then show ?thesis using primary_lock_pos [of "pos s 0"] len c by (auto simp: code_length)
  next
    case False
    then have 5: "5 \<le> pos s i" using secondary_lock_pos [OF _ False c] len by (simp add: code_length)
    have "i \<in> {1, 2, 3}" using i False unfolding NCPU_def by auto
    then show ?thesis using inv 5 by (auto simp: smp_inv_def boot_inv_def starting_def split: if_splits)
  qed
  then show "\<exists>q. lock_queue (klock s) q" using inv by (simp add: smp_inv_def lock_inv_def)
qed

text \<open>What a step does to the lock and the position of the processor that makes it.\<close>

lemma step_lock_effect:
  assumes "step_lock i l l'" "pc l i = Out \<or> (\<exists>n. pc l i = Taking n \<or> pc l i = Spin n)"
  shows "pc l' i = Holds \<or> pc l' i = Out \<or> (\<exists>n. pc l' i = Taking n \<or> pc l' i = Spin n)" "\<forall>j. j \<noteq> i \<longrightarrow> pc l' j = pc l j"
  using assms by (auto elim!: step_lockE simp: goto_def ldaxr_def stxr_def)

lemma step_unlock_effect:
  assumes "step_unlock i l l'"
  shows "pc l' i = Out \<or> (\<exists>n. pc l' i = Releasing n)" "\<forall>j. j \<noteq> i \<longrightarrow> pc l' j = pc l j"
  using assms by (auto elim!: step_unlockE simp: goto_def)

lemma lock_inv_change:
  assumes inv: "smp_inv s" and l: "\<forall>j. j \<noteq> i \<longrightarrow> pc (klock s') j = pc (klock s) j" and p: "pos s' = (pos s)(i := p)"
    and at: "p < length (code i)" "lock_at i p (pc (klock s') i)" and q: "lock_queue (klock s') q" and p0: "10 \<le> pos s' 0"
  shows "lock_inv s'"
proof -
  have "pos s' j < length (code j) \<and> lock_at j (pos s' j) (pc (klock s') j)" if "j < NCPU" for j
    using inv l that at by (cases "j = i") (auto simp: smp_inv_def lock_inv_def p)
  moreover have "\<not> pos s' 0 \<le> 9" using p0 by simp
  ultimately show ?thesis using q by (auto simp: lock_inv_def)
qed

lemma lock_inv_lock:
  assumes inv: "smp_inv s" and i: "i < NCPU" and st: "stmt_step Lock i s s'" and c: "code i ! pos s i = Lock"
  shows "lock_inv s'"
proof -
  let ?p = "pos s i"
  have len: "?p < length (code i)" and at: "lock_at i ?p (pc (klock s) i)"
    using inv i by (simp_all add: smp_inv_def lock_inv_def)
  obtain q where q: "10 \<le> pos s 0" "lock_queue (klock s) q" using lock_ready [OF inv i] c by auto
  have nk: "\<not> in_kernel i ?p" "Suc ?p < length (code i)" "in_kernel i (Suc ?p)" using code_at(2) [OF len c] by auto
  have pre: "pc (klock s) i = Out \<or> (\<exists>n. pc (klock s) i = Taking n \<or> pc (klock s) i = Spin n)"
    using at nk(1) by (auto simp: lock_at_def)
  from st consider (1) l where "s' = s\<lparr>klock := l\<rparr>" "step_lock i (klock s) l" "pc l i \<noteq> Holds"
    | (2) l where "s' = jump i (Suc ?p) (record_call i Lock_kernel (s\<lparr>klock := l\<rparr>))" "step_lock i (klock s) l" "pc l i = Holds"
    by (auto elim: lockE)
  then show ?thesis
  proof cases
    case 1
    obtain q' where "lock_queue l q'" using step_lock_queue [OF q(2) i 1(2)] by blast
    then show ?thesis
      using step_lock_effect [OF 1(2) pre] 1 nk(1) c len q(1)
      by (intro lock_inv_change [OF inv, of i _ ?p]) (auto simp: lock_at_def)
  next
    case 2
    obtain q' where "lock_queue l q'" using step_lock_queue [OF q(2) i 2(2)] by blast
    then show ?thesis
      using step_lock_effect(2) [OF 2(2) pre] 2 nk q(1)
      by (intro lock_inv_change [OF inv, of i _ "Suc ?p"]) (auto simp: lock_at_def move_defs)
  qed
qed

lemma lock_inv_eret:
  assumes inv: "smp_inv s" and i: "i < NCPU" and st: "stmt_step Eret i s s'" and c: "code i ! pos s i = Eret"
  shows "lock_inv s'"
proof -
  let ?p = "pos s i"
  have len: "?p < length (code i)" using inv i by (simp add: smp_inv_def lock_inv_def)
  obtain q where q: "10 \<le> pos s 0" "lock_queue (klock s) q" using lock_ready [OF inv i] c by auto
  note er = code_at(3) [OF len c]
  from st consider (1) l where "s' = s\<lparr>klock := l\<rparr>" "step_unlock i (klock s) l" "pc l i \<noteq> Out"
    | (2) l where "s' = jump i (user_pos i) (record_call i Unlock_kernel (s\<lparr>klock := l\<rparr>))" "step_unlock i (klock s) l" "pc l i = Out"
    by (auto elim: eretE)
  then show ?thesis
  proof cases
    case 1
    obtain q' where "lock_queue l q'" using step_unlock_queue [OF q(2) i 1(2)] by blast
    then show ?thesis
      using step_unlock_effect [OF 1(2)] 1 er c len q(1)
      by (intro lock_inv_change [OF inv, of i _ ?p]) (auto simp: lock_at_def)
  next
    case 2
    obtain q' where "lock_queue l q'" using step_unlock_queue [OF q(2) i 2(2)] by blast
    then show ?thesis
      using step_unlock_effect(2) [OF 2(2)] 2 er q(1)
      by (intro lock_inv_change [OF inv, of i _ "user_pos i"]) (auto simp: lock_at_def move_defs)
  qed
qed

lemma lock_inv_step:
  assumes inv: "smp_inv s" and st: "smp_step i s s'"
  shows "lock_inv s'"
proof -
  let ?p = "pos s i"
  have i: "i < NCPU" and st: "stmt_step (code i ! ?p) i s s'" using st by (simp_all add: smp_step_def)
  have len: "?p < length (code i)" and at: "lock_at i ?p (pc (klock s) i)"
    and all: "\<forall>j < NCPU. pos s j < length (code j) \<and> lock_at j (pos s j) (pc (klock s) j)"
    and lk: "if pos s 0 \<le> 9 then \<forall>i. pc (klock s) i = Out \<and> \<not> monitor (klock s) i else \<exists>q. lock_queue (klock s) q"
    using inv i by (simp_all add: smp_inv_def lock_inv_def)
  note ca = code_at [OF len]
  consider (lock) "code i ! ?p = Lock" | (eret) "code i ! ?p = Eret" | (linit) "i = 0" "?p = 9" "code i ! ?p = Call Kernel_lock_init"
    | (other) "code i ! ?p \<notin> {Lock, Eret}" "code i ! ?p \<noteq> Call Kernel_lock_init"
    using ca(4) by blast
  then show ?thesis
  proof cases
    case lock
    then show ?thesis using lock_inv_lock [OF inv i _ lock] st by simp
  next
    case eret
    then show ?thesis using lock_inv_eret [OF inv i _ eret] st by simp
  next
    case linit
    have out: "\<And>i. pc (klock s) i = Out" "\<And>i. \<not> monitor (klock s) i" using lk linit by auto
    have s': "s' = jump 0 10 (record_call 0 Kernel_lock_init (do_call Kernel_lock_init s))"
      using st linit by (simp add: stmt_simps)
    have "lock_queue (klock s') []"
      unfolding s' by (auto simp: move_defs lock_queue_def ticket_def lock_init_def out)
    then show ?thesis
      using linit out by (intro lock_inv_change [OF inv, of 0 _ 10]) (auto simp: s' move_defs lock_at_def in_kernel_primary code_length)
  next
    case other
    then have e: "klock s' = klock s" "pos s' = (pos s)(i := Suc ?p)"
      using lock_free_step [OF inv st refl i] by auto
    have n: "Suc ?p < length (code i)" "in_kernel i (Suc ?p) = in_kernel i ?p" using ca(1) other(1) by auto
    have at': "lock_at i (Suc ?p) (pc (klock s) i)" using at other(1) n(2) by (auto simp: lock_at_def split: if_splits)
    have "pos s 0 \<noteq> 9 \<or> i \<noteq> 0" using ca(4) other(2) by (cases "i = 0") auto
    then have "pos s' 0 \<le> 9 \<longleftrightarrow> pos s 0 \<le> 9" unfolding e by auto
    moreover have "pos s' j < length (code j) \<and> lock_at j (pos s' j) (pc (klock s) j)" if "j < NCPU" for j
      using all that n(1) at' unfolding e by (cases "j = i") auto
    ultimately show ?thesis using lk by (simp add: lock_inv_def e(1))
  qed
qed


lemma smp_step_length:
  assumes "smp_step i s s'"
  shows "length (boot_flag s') = length (boot_flag s)"
    "length (cpu_status s) = NCPU \<Longrightarrow> length (cpu_status s') = NCPU"
  using assms unfolding smp_step_def
  by (auto elim!: stmt_step.cases simp: move_defs split: boot_call.splits)

lemma pos_length: "smp_inv s \<Longrightarrow> i < NCPU \<Longrightarrow> pos s i < length (code i)"
  by (simp add: smp_inv_def lock_inv_def)

lemma pos_primary: "smp_inv s \<Longrightarrow> pos s 0 < 28"
  using pos_length [of s 0] by (simp add: code_length NCPU_def)

text \<open>Once the primary processor has left the kernel.\<close>

lemma primary_late: "24 \<le> p \<Longrightarrow> p < 28 \<Longrightarrow> p \<in> {24, 25, 26, 27 :: nat}"
  by auto

lemma boot_inv_late:
  assumes inv: "smp_inv s" and st: "smp_step i s s'" and p: "24 \<le> pos s 0"
  shows "boot_inv (pos s' 0) s'"
proof -
  have i: "i < NCPU" and st: "stmt_step (code i ! pos s i) i s s'" using st by (simp_all add: smp_step_def)
  note len = pos_primary [OF inv] pos_length [OF inv i]
  have b: "5 \<le> pos s 1" "5 \<le> pos s 2" "5 \<le> pos s 3" "\<forall>i < NCPU. cpu_status s ! i = cpu_run" "prefix boot_sequence (calls s)"
    using inv p by (simp_all add: smp_inv_def boot_inv_def)
  have pi: "if i = 0 then pos s i \<in> {24, 25, 26, 27} else pos s i \<in> {5, 6, 7, 8, 9, 10, 11}"
  proof (cases "i = 0")
    case True
    then show ?thesis using primary_late [OF p len(1)] by simp
  next
    case False
    then have "i \<in> {1, 2, 3}" using i unfolding NCPU_def by auto
    then have "5 \<le> pos s i" using b(1-3) by auto
    then show ?thesis using False len(2) by (auto simp: code_length)
  qed
  have pos': "if i = 0 then 24 \<le> pos s' i else 5 \<le> pos s' i" "\<forall>j. j \<noteq> i \<longrightarrow> pos s' j = pos s j"
    and st': "cpu_status s' = cpu_status s" and pre: "prefix (calls s) (calls s')"
    using st pi
    by (auto split: if_splits simp: primary_code secondary_code stmt_simps move_defs elim!: lockE eretE)
  have "prefix boot_sequence (calls s')" using b(5) pre by (rule prefix_order.trans)
  moreover have "5 \<le> pos s' 1" "5 \<le> pos s' 2" "5 \<le> pos s' 3" "24 \<le> pos s' 0"
    using pos' b(1-3) p by (metis nat_le_linear numeral_le_iff order.trans one_neq_zero zero_neq_numeral semiring_norm)+
  ultimately show ?thesis using b(4) by (simp add: boot_inv_def st')
qed


lemma starting_calls:
  assumes "starting p j s"
  shows "p \<le> 13 + 2 * j \<Longrightarrow> secondary_calls (pos s j) = 0" "14 + 2 * j < p \<Longrightarrow> secondary_calls (pos s j) = 2"
  using assms by (auto simp: starting_def secondary_calls_def)

lemma take_sequence: "k < 21 \<Longrightarrow> boot_sequence ! k = x \<Longrightarrow> take k boot_sequence @ [x] = take (Suc k) boot_sequence"
  by (subst take_Suc_conv_app_nth) (simp_all add: sequence)

text \<open>A step of the primary processor that does not concern the others.\<close>

lemma boot_inv_quiet:
  assumes b: "boot_inv p s" and p: "p' \<le> 23" "p < p'" "p = 0 \<longrightarrow> clear_bss_flag s' = 0 \<and> cpu_status s' = [0, 0, 0, 0]"
    and p12: "p' \<le> 12" and j: "\<forall>j. j \<noteq> 0 \<longrightarrow> pos s' j = pos s j" "boot_flag s' = boot_flag s"
    and c: "p \<noteq> 0 \<longrightarrow> clear_bss_flag s' = clear_bss_flag s \<and> cpu_status s' = cpu_status s"
    and cs: "p' = Suc p" "calls s' = calls s @ [boot_sequence ! p]"
  shows "boot_inv p' s'"
proof -
  have b: "starting p 1 s" "starting p 2 s" "starting p 3 s" "clear_bss_flag s = 0 \<longleftrightarrow> 1 \<le> p"
    "calls s = take (primary_calls p + secondary_calls (pos s 1) + secondary_calls (pos s 2) + secondary_calls (pos s 3)) boot_sequence"
    using b p by (simp_all add: boot_inv_def)
  have z: "secondary_calls (pos s j) = 0" if "starting p j s" "1 \<le> j" for j
    using starting_calls(1) [OF that(1)] that(2) p12 cs(1) by simp
  have "starting p' j s'" if "starting p j s" "j \<in> {1, 2, 3}" for j
    using that j c p p12 unfolding starting_def cpu_hang_def by (cases "p = 0") auto
  moreover have "calls s' = take p' boot_sequence"
    using cs b(5) z [OF b(1)] z [OF b(2)] z [OF b(3)] p12 take_sequence [of p] by (simp add: primary_calls_def)
  ultimately show ?thesis
    using b(1-4) c p p12 j z [OF b(1)] z [OF b(2)] z [OF b(3)] unfolding boot_inv_def by (auto simp: primary_calls_def)
qed

lemma boot_inv_klock: "boot_inv p (s\<lparr>klock := l\<rparr>) = boot_inv p s"
  by (simp add: boot_inv_def starting_def)


text \<open>The primary processor wakes the others and waits for them.\<close>

lemma boot_inv_wake:
  assumes inv: "smp_inv s" and st: "stmt_step (code 0 ! pos s 0) 0 s s'" and 3: "pos s 0 \<in> {12, 13, 14, 15, 16, 17, 18, 19, 20}"
  shows "boot_inv (pos s' 0) s'"
proof -
  let ?p = "pos s 0"
  have bi: "boot_inv ?p s" and len: "length (boot_flag s) = 4" "length (cpu_status s) = 4" and p: "?p \<le> 23"
    using inv 3 by (auto simp: smp_inv_def NCPU_def)
  have b: "starting ?p 1 s" "starting ?p 2 s" "starting ?p 3 s" "clear_bss_flag s = 0 \<longleftrightarrow> 1 \<le> ?p" "12 < ?p \<longrightarrow> cpu_status s ! 0 = cpu_run"
    and cs: "calls s = take (primary_calls ?p + secondary_calls (pos s 1) + secondary_calls (pos s 2) + secondary_calls (pos s 3)) boot_sequence"
    using bi p by (simp_all add: boot_inv_def)
  have e: "pos s' = (pos s)(0 := Suc ?p)" "calls s' = calls s" "clear_bss_flag s' = clear_bss_flag s"
    using st 3 by (auto simp: primary_code stmt_simps move_defs)
  have pc: "primary_calls (Suc ?p) = primary_calls ?p" using 3 by (auto simp: primary_calls_def)
  have w: "(\<forall>k \<le> 3. boot_flag s' ! k = (if ?p = 13 + 2 * k then NOT_BSS else boot_flag s ! k)) \<and>
      (\<forall>k \<le> 3. cpu_status s' ! k = (if ?p = 12 \<and> k = 0 then cpu_run else cpu_status s ! k)) \<and>
      (\<forall>k \<le> 3. ?p = 14 + 2 * k \<longrightarrow> cpu_status s ! k = cpu_run)"
    by (insert 3 st len, elim insertE emptyE)
      (auto simp: primary_code stmt_simps move_defs nth_list_update cpu_run_def NOT_BSS_def, presburger+)
  have "starting (Suc ?p) j s'" if "starting ?p j s" "j \<in> {1, 2, 3}" for j
  proof -
    have j: "j \<le> 3" "j \<noteq> 0" "pos s' j = pos s j" using that(2) e(1) by auto
    note w [THEN conjunct1, rule_format, OF j(1)] w [THEN conjunct2, THEN conjunct1, rule_format, OF j(1)]
      w [THEN conjunct2, THEN conjunct2, rule_format, OF j(1)]
    moreover have "12 \<le> ?p" using 3 by auto
    ultimately show ?thesis using that(1) j(2,3) unfolding starting_def by (auto simp: cpu_run_def cpu_hang_def split: if_splits)
  qed
  moreover have "cpu_status s' ! 0 = cpu_run"
    using w b(5) 3 by auto
  moreover have "pos s' 0 = Suc ?p" "pos s' 1 = pos s 1" "pos s' 2 = pos s 2" "pos s' 3 = pos s 3" "Suc ?p \<le> 23" "1 \<le> ?p"
    using 3 by (auto simp: e(1))
  ultimately show ?thesis using b(1-4) cs unfolding boot_inv_def e(2,3) by (simp add: pc)
qed

text \<open>Everything is running, the first process is created.\<close>

lemma boot_inv_create:
  assumes inv: "smp_inv s" and st: "stmt_step (code 0 ! pos s 0) 0 s s'" and 3: "pos s 0 \<in> {21, 22}"
  shows "boot_inv (pos s' 0) s'"
proof -
  let ?p = "pos s 0"
  have bi: "boot_inv ?p s" and len: "length (boot_flag s) = 4" "length (cpu_status s) = 4" and p: "?p \<le> 23"
    using inv 3 by (auto simp: smp_inv_def NCPU_def)
  have b: "starting ?p 1 s" "starting ?p 2 s" "starting ?p 3 s" "clear_bss_flag s = 0 \<longleftrightarrow> 1 \<le> ?p" "12 < ?p \<longrightarrow> cpu_status s ! 0 = cpu_run"
    and cs: "calls s = take (primary_calls ?p + secondary_calls (pos s 1) + secondary_calls (pos s 2) + secondary_calls (pos s 3)) boot_sequence"
    using bi p by (simp_all add: boot_inv_def)
  have k: "secondary_calls (pos s j) = 2" if "starting ?p j s" "j \<le> 3" for j
    using starting_calls(2) [OF that(1)] that(2) 3 by auto
  have e: "pos s' = (pos s)(0 := Suc ?p)" "clear_bss_flag s' = clear_bss_flag s" "boot_flag s' = boot_flag s"
    "cpu_status s' = cpu_status s" "calls s' = calls s @ [boot_sequence ! (?p - 3)]"
    using st 3 by (auto simp: primary_code stmt_simps move_defs sequence)
  have "calls s = take (?p - 3) boot_sequence" using cs k [OF b(1)] k [OF b(2)] k [OF b(3)] 3 by (auto simp: primary_calls_def)
  then have "calls s' = take (Suc (?p - 3)) boot_sequence" using e(5) 3 take_sequence [of "?p - 3", OF _ refl] by auto
  moreover have "starting (Suc ?p) j s'" if "starting ?p j s" "j \<in> {1, 2, 3}" for j
  proof -
    have "14 + 2 * j < ?p" "1 \<le> ?p" "j \<noteq> 0" using that(2) 3 by auto
    then show ?thesis using that(1) unfolding starting_def e by simp
  qed
  moreover have "pos s' 0 = Suc ?p" "pos s' 1 = pos s 1" "pos s' 2 = pos s 2" "pos s' 3 = pos s 3" "Suc ?p \<le> 23" "1 \<le> ?p"
    "12 < ?p" "Suc (?p - 3) = primary_calls (Suc ?p) + secondary_calls (pos s 1) + secondary_calls (pos s 2) + secondary_calls (pos s 3)"
    using 3 k [OF b(1)] k [OF b(2)] k [OF b(3)] by (auto simp: e(1) primary_calls_def)
  ultimately show ?thesis using b unfolding boot_inv_def e(2-4) by simp
qed

lemma boot_inv_primary:
  assumes inv: "smp_inv s" and st: "smp_step 0 s s'" and p: "pos s 0 \<le> 23"
  shows "boot_inv (pos s' 0) s'"
proof -
  let ?p = "pos s 0"
  have st: "stmt_step (code 0 ! ?p) 0 s s'" using st by (simp add: smp_step_def)
  have bi: "boot_inv ?p s" and len: "length (boot_flag s) = 4" "length (cpu_status s) = 4"
    using inv by (simp_all add: smp_inv_def NCPU_def)
  have b: "starting ?p 1 s" "starting ?p 2 s" "starting ?p 3 s" "clear_bss_flag s = 0 \<longleftrightarrow> 1 \<le> ?p" "12 < ?p \<longrightarrow> cpu_status s ! 0 = cpu_run"
    and cs: "calls s = take (primary_calls ?p + secondary_calls (pos s 1) + secondary_calls (pos s 2) + secondary_calls (pos s 3)) boot_sequence"
    using bi p by (simp_all add: boot_inv_def)
  consider "?p \<in> {0, 1, 2, 3, 4, 5, 6, 7, 8, 9, 11}" | "?p = 10" | "?p \<in> {12, 13, 14, 15, 16, 17, 18, 19, 20}" | "?p \<in> {21, 22}" | "?p = 23"
    using primary_cases [OF pos_primary [OF inv]] p by auto
  then show ?thesis
  proof cases
    case 1
    then have "pos s' 0 = Suc ?p \<and> (?p = 0 \<longrightarrow> clear_bss_flag s' = 0 \<and> cpu_status s' = [0, 0, 0, 0]) \<and>
      (\<forall>j. j \<noteq> 0 \<longrightarrow> pos s' j = pos s j) \<and> boot_flag s' = boot_flag s \<and>
      (?p \<noteq> 0 \<longrightarrow> clear_bss_flag s' = clear_bss_flag s \<and> cpu_status s' = cpu_status s) \<and> calls s' = calls s @ [boot_sequence ! ?p]"
      using st by (auto simp: primary_code stmt_simps move_defs sequence NCPU_def eval_nat_numeral)
    then show ?thesis using 1 by (intro boot_inv_quiet [OF bi]) auto
  next
    case 2
    then have "stmt_step Lock 0 s s'" using st by (simp add: primary_code)
    then show ?thesis
    proof (rule lockE)
      fix l assume s': "s' = s\<lparr>klock := l\<rparr>"
      show ?thesis unfolding s' using bi by (simp add: boot_inv_klock)
    next
      fix l assume s': "s' = jump 0 (Suc ?p) (record_call 0 Lock_kernel (s\<lparr>klock := l\<rparr>))"
      show ?thesis using 2 by (intro boot_inv_quiet [OF bi]) (auto simp: s' move_defs sequence)
    qed
  next
    case 3
    then show ?thesis by (rule boot_inv_wake [OF inv st])
  next
    case 4
    then show ?thesis by (rule boot_inv_create [OF inv st])
  next
    case 5
    then have "stmt_step Eret 0 s s'" using st by (simp add: primary_code)
    then show ?thesis
    proof (rule eretE)
      fix l assume s': "s' = s\<lparr>klock := l\<rparr>"
      show ?thesis unfolding s' using bi by (simp add: boot_inv_klock)
    next
      fix l assume s': "s' = jump 0 (user_pos 0) (record_call 0 Unlock_kernel (s\<lparr>klock := l\<rparr>))"
      have k: "pos s j = 5 \<and> cpu_status s ! j = cpu_run" if "starting ?p j s" "j \<le> 3" for j
        using that 5 by (auto simp: starting_def)
      note k = k [OF b(1)] k [OF b(2)] k [OF b(3)]
      have "calls s = take 20 boot_sequence" using cs k 5 by (simp add: primary_calls_def secondary_calls_def)
      then have "calls s' = boot_sequence" unfolding s' by (simp add: move_defs sequence)
      then show ?thesis using k b(5) 5 by (simp add: boot_inv_def s' all_ncpu move_defs)
    qed
  qed
qed


text \<open>A step of another processor while the system starts.\<close>

lemma starting_other:
  assumes "starting p j s" "pos s' j = pos s j" "boot_flag s' = boot_flag s" "cpu_status s' ! j = cpu_status s ! j"
  shows "starting p j s'"
  using assms by (simp add: starting_def)

lemma boot_inv_other:
  assumes b: "boot_inv p s" "p \<le> 23" and i: "i \<in> {1, 2, 3}" and st: "starting p i s'"
    and e: "\<forall>j. j \<noteq> i \<longrightarrow> pos s' j = pos s j" "boot_flag s' = boot_flag s" "clear_bss_flag s' = clear_bss_flag s"
      "\<forall>j. j \<noteq> i \<longrightarrow> cpu_status s' ! j = cpu_status s ! j"
    and cs: "calls s' = calls s \<and> secondary_calls (pos s' i) = secondary_calls (pos s i) \<or>
      p = 14 + 2 * i \<and> secondary_calls (pos s' i) = Suc (secondary_calls (pos s i)) \<and> pos s i \<le> 3 \<and>
      calls s' = calls s @ [boot_sequence ! (10 + 2 * i + secondary_calls (pos s i))]"
  shows "boot_inv p s'"
proof -
  let ?n = "\<lambda>s. primary_calls p + secondary_calls (pos s 1) + secondary_calls (pos s 2) + secondary_calls (pos s 3)"
  have b: "starting p 1 s" "starting p 2 s" "starting p 3 s" "clear_bss_flag s = 0 \<longleftrightarrow> 1 \<le> p" "12 < p \<longrightarrow> cpu_status s ! 0 = cpu_run"
    and c: "calls s = take (?n s) boot_sequence" and p: "p \<le> 23"
    using b by (simp_all add: boot_inv_def)
  have s: "starting p 1 s'" "starting p 2 s'" "starting p 3 s'"
    using st b(1-3) starting_other [of p _ s s'] e by (metis)+
  have "calls s' = take (?n s') boot_sequence"
  proof (cases "calls s' = calls s \<and> secondary_calls (pos s' i) = secondary_calls (pos s i)")
    case True
    then show ?thesis using c i e(1) by auto
  next
    case False
    then have x: "p = 14 + 2 * i" "secondary_calls (pos s' i) = Suc (secondary_calls (pos s i))" "pos s i \<le> 3"
      "calls s' = calls s @ [boot_sequence ! (10 + 2 * i + secondary_calls (pos s i))]" using cs by auto
    have z: "secondary_calls (pos s j) = (if j < i then 2 else 0)" if "starting p j s" "j \<noteq> i" for j
      using starting_calls [OF that(1)] that(2) x(1) by auto
    have n: "?n s = 10 + 2 * i + secondary_calls (pos s i)" "?n s' = Suc (?n s)"
      using i z [OF b(1)] z [OF b(2)] z [OF b(3)] x e(1) by (auto simp: primary_calls_def)
    have "secondary_calls (pos s i) \<le> 1" using x(3) by (simp add: secondary_calls_def)
    then have "?n s < 21" using n(1) i by auto
    then show ?thesis unfolding n(2) using x(4) c take_sequence [of "?n s", OF _ refl] n(1) by simp
  qed
  moreover have "12 < p \<longrightarrow> cpu_status s' ! 0 = cpu_run" using b(5) e(4) i by auto
  ultimately show ?thesis using s b(4) p e(3) unfolding boot_inv_def by simp
qed


lemma boot_inv_secondary:
  assumes inv: "smp_inv s" and st: "smp_step i s s'" and i0: "i \<noteq> 0" and p: "pos s 0 \<le> 23"
  shows "boot_inv (pos s' 0) s'"
proof -
  let ?p = "pos s 0" and ?q = "pos s i"
  have i: "i < NCPU" and st: "stmt_step (code i ! ?q) i s s'" using st by (simp_all add: smp_step_def)
  have i3: "i \<in> {1, 2, 3}" using i i0 by (auto simp: NCPU_def)
  have bi: "boot_inv ?p s" and len: "length (cpu_status s) = 4"
    using inv by (simp_all add: smp_inv_def NCPU_def)
  have s: "starting ?p i s" and bss: "clear_bss_flag s = 0 \<longleftrightarrow> 1 \<le> ?p"
    using bi p i3 by (auto simp: boot_inv_def)
  consider "?q \<in> {0, 1, 2, 3, 4}" | "?q = 5" using s by (fastforce simp: starting_def)
  then show ?thesis
  proof cases
    case 1
    have p14: "?q \<in> {2, 3, 4} \<Longrightarrow> ?p = 14 + 2 * i" using s by (auto simp: starting_def)
    have e: "pos s' = (pos s)(i := Suc ?q)" "boot_flag s' = boot_flag s" "clear_bss_flag s' = clear_bss_flag s"
      using st 1 i0 by (auto simp: secondary_code stmt_simps move_defs)
    have st': "cpu_status s' = (if ?q = 4 then (cpu_status s)[i := cpu_run] else cpu_status s)"
      using st 1 i0 by (auto simp: secondary_code stmt_simps move_defs cpu_run_def)
    have w: "(?q = 0 \<longrightarrow> clear_bss_flag s = 0) \<and> (?q = 1 \<longrightarrow> boot_flag s ! i \<noteq> 0)"
      using st 1 i0 by (auto simp: secondary_code stmt_simps)
    have p': "pos s' 0 = ?p" using i0 by (simp add: e(1))
    have "starting ?p i s'"
      by (insert 1 s w bss p14 len i, unfold starting_def e st' NCPU_def, elim insertE emptyE) (simp_all split: if_splits)
    moreover have "calls s' = calls s \<and> secondary_calls (pos s' i) = secondary_calls (pos s i) \<or>
      ?p = 14 + 2 * i \<and> secondary_calls (pos s' i) = Suc (secondary_calls (pos s i)) \<and> pos s i \<le> 3 \<and>
      calls s' = calls s @ [boot_sequence ! (10 + 2 * i + secondary_calls (pos s i))]"
    proof (cases "?q \<in> {2, 3}")
      case True
      have "calls s' = calls s @ [boot_sequence ! (10 + 2 * i + secondary_calls (pos s i))]"
        using st True i3 by (auto simp: secondary_code stmt_simps move_defs secondary_calls_def sequence)
      then show ?thesis using True p14 by (auto simp: secondary_calls_def e(1))
    next
      case False
      then have "calls s' = calls s" using st 1 i0 by (auto simp: secondary_code stmt_simps move_defs)
      then show ?thesis using False 1 by (auto simp: secondary_calls_def e(1))
    qed
    ultimately show ?thesis unfolding p'
      by (intro boot_inv_other [OF bi p i3]) (simp_all add: e st')
  next
    case 2
    have "stmt_step Lock i s s'" using st 2 i0 by (simp add: secondary_code)
    then show ?thesis
    proof (rule lockE)
      fix l assume s': "s' = s\<lparr>klock := l\<rparr>"
      show ?thesis unfolding s' using bi by (simp add: boot_inv_klock)
    next
      fix l assume l: "step_lock i (klock s) l" "pc l i = Holds"
      have p15: "15 \<le> ?p" using s 2 i3 by (auto simp: starting_def)
      then obtain q where "lock_queue (klock s) q" using inv by (auto simp: smp_inv_def lock_inv_def)
      then obtain q' where q': "lock_queue l q'" using step_lock_queue [OF _ i l(1)] by blast
      have "lock_at 0 ?p (pc (klock s) 0)" using inv by (simp add: smp_inv_def lock_inv_def NCPU_def)
      moreover have "in_kernel 0 ?p" using p15 p by (simp add: in_kernel_primary)
      ultimately have "served (pc (klock s) 0)" by (rule in_kernel_served)
      moreover have "pc l 0 = pc (klock s) 0"
        using l(1) i0 by (auto elim!: step_lockE simp: goto_def ldaxr_def stxr_def)
      ultimately have "i = 0" using held_unique [OF q', of i 0] l(2) by (simp add: served_def)
      then show ?thesis using i0 by blast
    qed
  qed
qed

lemma smp_inv_step: "smp_inv s \<Longrightarrow> smp_step i s s' \<Longrightarrow> smp_inv s'"
  using lock_inv_step [of s i s'] boot_inv_late [of s i s'] boot_inv_primary [of s s'] boot_inv_secondary [of s i s']
    smp_step_length [of i s s']
  by (cases "24 \<le> pos s 0"; cases "i = 0") (simp_all add: smp_inv_def)

lemma reach_inv: "smp_reach s \<Longrightarrow> smp_inv s"
  by (induction rule: smp_reach.induct) (blast intro: smp_inv_start smp_inv_step)+


end
