(* ===== verification/SmpProps.thy ===== *)
theory SmpProps
  imports Smp
begin

text \<open>
  What the start of the processors promises: that it can always be completed, the order in which it
  happens, and who is in the kernel.
\<close>

section \<open>Progress\<close>

definition smp_steps :: "smp \<Rightarrow> smp \<Rightarrow> bool" where
  "smp_steps = rtranclp (\<lambda>s s'. \<exists>i. smp_step i s s')"

lemma steps_refl: "smp_steps s s"
  by (simp add: smp_steps_def)

lemma steps_step: "smp_steps s t \<Longrightarrow> smp_step i t u \<Longrightarrow> smp_steps s u"
  unfolding smp_steps_def by (rule rtranclp.rtrancl_into_rtrancl) blast+

lemma steps_one: "smp_step i s t \<Longrightarrow> smp_steps s t"
  using steps_step [OF steps_refl] .

lemma steps_trans: "smp_steps s t \<Longrightarrow> smp_steps t u \<Longrightarrow> smp_steps s u"
  unfolding smp_steps_def by (rule rtranclp_trans)

lemma steps_reach: "smp_steps s t \<Longrightarrow> smp_reach s \<Longrightarrow> smp_reach t"
  unfolding smp_steps_def by (induction rule: rtranclp_induct) (blast intro: smp_reach.move)+

text \<open>A processor takes a lock for which nobody else has a ticket.\<close>

definition takes_lock :: "nat \<Rightarrow> smp \<Rightarrow> bool" where
  "takes_lock i s \<longleftrightarrow> (\<exists>l. smp_steps s (jump i (Suc (pos s i)) (record_call i Lock_kernel (s\<lparr>klock := l\<rparr>))) \<and>
    pc l = (pc (klock s))(i := Holds) \<and> (\<exists>q. lock_queue l q))"

lemma takes_lock_later:
  assumes "takes_lock i (s\<lparr>klock := l\<rparr>)" "smp_steps s (s\<lparr>klock := l\<rparr>)" "\<forall>j. j \<noteq> i \<longrightarrow> pc l j = pc (klock s) j"
  shows "takes_lock i s"
proof -
  have "(pc l)(i := Holds) = (pc (klock s))(i := Holds)" using assms(3) by auto
  then show ?thesis using assms(1) steps_trans [OF assms(2)] by (auto simp: takes_lock_def)
qed

lemma locking_step:
  assumes "step_lock i (klock s) l" "pc l i \<noteq> Holds" "i < NCPU" "code i ! pos s i = Lock"
  shows "smp_steps s (s\<lparr>klock := l\<rparr>)"
  using assms by (intro steps_one [of i]) (auto simp: smp_step_def intro: stmt_step.intros)

lemma spin_takes_lock:
  assumes q: "lock_queue (klock s) q" and i: "i < NCPU" and c: "code i ! pos s i = Lock"
    and free: "\<forall>j. j \<noteq> i \<longrightarrow> \<not> ticket (pc (klock s) j)" and p: "pc (klock s) i = Spin n"
  shows "takes_lock i s"
proof -
  have "set q = {i}" using lock_queueD(2) [OF q] p free by (auto simp: ticket_def)
  then have "q = [i]" using lock_queueD(1) [OF q] by (cases q; cases "tl q") auto
  then have "n = owner (the_lock (klock s))" using lock_queueD(5) [OF q, of 0 n] p by simp
  then have e: "step_lock i (klock s) (goto i Holds (klock s))" using p by (intro step_lock.Enter) auto
  have "smp_step i s (jump i (Suc (pos s i)) (record_call i Lock_kernel (s\<lparr>klock := goto i Holds (klock s)\<rparr>)))"
    using i c stmt_step.Locked [OF e] by (simp add: smp_step_def goto_def)
  moreover have "\<exists>q'. lock_queue (goto i Holds (klock s)) q'" using step_lock_queue [OF q i e] by blast
  ultimately show ?thesis
    unfolding takes_lock_def using steps_one by (intro exI [of _ "goto i Holds (klock s)"]) (auto simp: goto_def)
qed

lemma out_takes_lock:
  assumes q: "lock_queue (klock s) q" and i: "i < NCPU" and c: "code i ! pos s i = Lock"
    and free: "\<forall>j. j \<noteq> i \<longrightarrow> \<not> ticket (pc (klock s) j)" and p: "pc (klock s) i = Out"
  shows "takes_lock i s"
proof -
  let ?l1 = "ldaxr i Taking (klock s)" and ?n = "next_ticket (the_lock (klock s))"
  let ?l2 = "stxr i (?n + 1) (Spin ?n) ?l1"
  have 1: "step_lock i (klock s) ?l1" using p by (rule step_lock.Load)
  have 2: "step_lock i ?l1 ?l2" by (rule step_lock.Store) (simp_all add: ldaxr_def)
  obtain q1 where q1: "lock_queue ?l1 q1" using step_lock_queue [OF q i 1] by blast
  obtain q2 where q2: "lock_queue ?l2 q2" using step_lock_queue [OF q1 i 2] by blast
  have s1: "smp_steps s (s\<lparr>klock := ?l1\<rparr>)" using i c by (intro locking_step [OF 1]) (simp_all add: ldaxr_def)
  have "smp_steps (s\<lparr>klock := ?l1\<rparr>) ((s\<lparr>klock := ?l1\<rparr>)\<lparr>klock := ?l2\<rparr>)"
    using 2 i c by (intro locking_step) (simp_all add: stxr_def)
  then have s2: "smp_steps s (s\<lparr>klock := ?l2\<rparr>)" using steps_trans [OF s1] by simp
  have "takes_lock i (s\<lparr>klock := ?l2\<rparr>)"
    using i c free q2 by (intro spin_takes_lock [where q = q2 and n = ?n]) (simp_all add: stxr_def ldaxr_def)
  then show ?thesis by (rule takes_lock_later [OF _ s2]) (simp add: stxr_def ldaxr_def)
qed

lemma lock_gain:
  assumes q: "lock_queue (klock s) q" and i: "i < NCPU" and c: "code i ! pos s i = Lock"
    and free: "\<forall>j. j \<noteq> i \<longrightarrow> \<not> ticket (pc (klock s) j)"
    and pi: "pc (klock s) i = Out \<or> (\<exists>n. pc (klock s) i = Taking n \<or> pc (klock s) i = Spin n)"
  shows "\<exists>l. smp_steps s (jump i (Suc (pos s i)) (record_call i Lock_kernel (s\<lparr>klock := l\<rparr>))) \<and>
    pc l = (pc (klock s))(i := Holds) \<and> (\<exists>q. lock_queue l q)"
proof -
  have "takes_lock i s" if n: "pc (klock s) i = Taking n" for n
  proof -
    let ?l = "goto i Out (klock s)"
    have r: "step_lock i (klock s) ?l" using n by (rule step_lock.Retry)
    obtain q' where q': "lock_queue ?l q'" using step_lock_queue [OF q i r] by blast
    have "takes_lock i (s\<lparr>klock := ?l\<rparr>)" using i c free q' by (intro out_takes_lock [where q = q']) (simp_all add: goto_def)
    then show ?thesis using i c by (intro takes_lock_later [OF _ locking_step [OF r]]) (simp_all add: goto_def)
  qed
  then have "takes_lock i s" using pi spin_takes_lock [OF q i c free] out_takes_lock [OF q i c free] by blast
  then show ?thesis by (simp add: takes_lock_def)
qed

lemma lock_at_inv: "smp_inv s \<Longrightarrow> i < NCPU \<Longrightarrow> lock_at i (pos s i) (pc (klock s) i)"
  by (simp add: smp_inv_def lock_inv_def)

lemma inv_queue: "smp_inv s \<Longrightarrow> 10 \<le> pos s 0 \<Longrightarrow> \<exists>q. lock_queue (klock s) q"
  by (simp add: smp_inv_def lock_inv_def)

text \<open>A processor that does not wait moves on.\<close>

lemma plain_step:
  assumes "i < NCPU" "code i ! pos s i = c"
    and "case c of Lock \<Rightarrow> False | Eret \<Rightarrow> False | Wait_bss \<Rightarrow> clear_bss_flag s = 0 | Wait_flag \<Rightarrow> boot_flag s ! i \<noteq> 0
      | Wait_status k v \<Rightarrow> cpu_status s ! k = v | _ \<Rightarrow> True"
  shows "\<exists>t. smp_steps s t \<and> pos t = (pos s)(i := Suc (pos s i)) \<and> pc (klock t) = pc (klock s)"
proof -
  have "\<exists>t. stmt_step c i s t \<and> pos t = (pos s)(i := Suc (pos s i)) \<and> pc (klock t) = pc (klock s)"
    using assms(3) by (cases c) (auto simp: stmt_simps move_defs split: boot_call.splits)
  then show ?thesis using assms(1,2) steps_one [of i s] by (auto simp: smp_step_def)
qed

text \<open>The holder of the lock returns to user mode.\<close>

lemma eret_step:
  assumes q: "lock_queue (klock s) q" and i: "i < NCPU" "code i ! pos s i = Eret"
    and p: "pc (klock s) i = Holds \<or> (\<exists>n. pc (klock s) i = Releasing n)"
  shows "\<exists>t. smp_steps s t \<and> pos t = (pos s)(i := user_pos i) \<and> pc (klock t) = (pc (klock s))(i := Out) \<and> (\<exists>q. lock_queue (klock t) q)"
proof -
  have w: "\<exists>u. smp_steps t u \<and> pos u = (pos s)(i := user_pos i) \<and> pc (klock u) = (pc (klock t))(i := Out) \<and> (\<exists>q. lock_queue (klock u) q)"
    if n: "pc (klock t) i = Releasing n" and t: "pos t = pos s" "lock_queue (klock t) r" for t n r
  proof -
    let ?l = "goto i Out (klock t\<lparr>the_lock := (the_lock (klock t))\<lparr>owner := n + 1\<rparr>\<rparr>)"
    have l: "step_unlock i (klock t) ?l" using n by (rule step_unlock.Write)
    obtain r' where "lock_queue ?l r'" using step_unlock_queue [OF t(2) i(1) l] by blast
    moreover have "smp_step i t (jump i (user_pos i) (record_call i Unlock_kernel (t\<lparr>klock := ?l\<rparr>)))"
      using i t(1) stmt_step.Unlocked [OF l] by (simp add: smp_step_def goto_def)
    ultimately show ?thesis using steps_one t(1) by (force simp: move_defs goto_def)
  qed
  show ?thesis
  proof (cases "pc (klock s) i = Holds")
    case True
    let ?l = "goto i (Releasing (owner (the_lock (klock s)))) (klock s)"
    have l: "step_unlock i (klock s) ?l" using True by (rule step_unlock.Read)
    obtain r where r: "lock_queue ?l r" using step_unlock_queue [OF q i(1) l] by blast
    have 1: "smp_steps s (s\<lparr>klock := ?l\<rparr>)"
      using i stmt_step.Unlocking [OF l] by (intro steps_one [of i]) (simp add: smp_step_def goto_def)
    have "\<exists>u. smp_steps (s\<lparr>klock := ?l\<rparr>) u \<and> pos u = (pos s)(i := user_pos i) \<and>
        pc (klock u) = (pc (klock (s\<lparr>klock := ?l\<rparr>)))(i := Out) \<and> (\<exists>q. lock_queue (klock u) q)"
      using r by (intro w) (simp_all add: goto_def)
    then show ?thesis using steps_trans [OF 1] by (force simp: goto_def)
  next
    case False
    then show ?thesis using p w [of s] q by blast
  qed
qed

text \<open>What is left to do before the primary processor is in user mode.\<close>

definition boot_work :: "smp \<Rightarrow> nat" where
  "boot_work s = (24 - pos s 0) + (5 - pos s 1) + (5 - pos s 2) + (5 - pos s 3)"

lemma boot_lock:
  assumes inv: "smp_inv s" and c: "pos s 0 = 10"
  shows "\<exists>t. smp_steps s t \<and> pos t = (pos s)(0 := 11) \<and> (\<forall>j. j \<noteq> 0 \<longrightarrow> pc (klock t) j = pc (klock s) j)"
proof -
  have n0: "(0 :: nat) < NCPU" by (simp add: NCPU_def)
  have b: "starting 10 1 s" "starting 10 2 s" "starting 10 3 s" using inv c by (simp_all add: smp_inv_def boot_inv_def)
  have lk: "code 0 ! pos s 0 = Lock" unfolding c by (simp add: primary_code)
  obtain q where q: "lock_queue (klock s) q" using lock_ready(2) [OF inv n0] lk by auto
  have "\<not> ticket (pc (klock s) j)" if "j \<noteq> 0" for j
  proof (cases "j < NCPU")
    case True
    then have "j \<in> {1, 2, 3}" using that by (auto simp: NCPU_def)
    then have "pos s j \<le> 1" using b by (auto simp: starting_def)
    then have "pc (klock s) j = Out" using lock_at_inv [OF inv True] that
      by (cases "pos s j") (auto simp: lock_at_def in_kernel_secondary secondary_code)
    then show ?thesis by (simp add: ticket_def)
  next
    case False
    then show ?thesis using lock_queueD(2,3) [OF q] by blast
  qed
  moreover have "pc (klock s) 0 = Out \<or> (\<exists>n. pc (klock s) 0 = Taking n \<or> pc (klock s) 0 = Spin n)"
    using lock_at_inv [OF inv n0] c by (auto simp: lock_at_def in_kernel_primary)
  ultimately obtain l where l: "smp_steps s (jump 0 (Suc (pos s 0)) (record_call 0 Lock_kernel (s\<lparr>klock := l\<rparr>)))"
    "pc l = (pc (klock s))(0 := Holds)"
    using lock_gain [OF q n0 lk] by blast
  then show ?thesis using c by (intro exI [of _ "jump 0 (Suc (pos s 0)) (record_call 0 Lock_kernel (s\<lparr>klock := l\<rparr>))"]) (simp add: move_defs)
qed

text \<open>While the primary processor waits for another one, that one moves.\<close>

lemma boot_wait:
  assumes inv: "smp_inv s" and p: "pos s 0 = 14 + 2 * k" "k \<le> 3" and w: "cpu_status s ! k \<noteq> cpu_run"
  shows "k \<in> {1, 2, 3} \<and> pos s k < 5 \<and> (\<exists>t. smp_steps s t \<and> pos t = (pos s)(k := Suc (pos s k)) \<and> pc (klock t) = pc (klock s))"
proof -
  have b: "starting (pos s 0) 1 s" "starting (pos s 0) 2 s" "starting (pos s 0) 3 s" "clear_bss_flag s = 0" "cpu_status s ! 0 = cpu_run"
    using inv p by (simp_all add: smp_inv_def boot_inv_def)
  have k0: "k \<noteq> 0" using b(5) w by (cases "k = 0") auto
  then have k: "k \<in> {1, 2, 3}" "k < NCPU" using p(2) by (auto simp: NCPU_def)
  then have s: "starting (pos s 0) k s" using b(1-3) by auto
  then have f: "boot_flag s ! k \<noteq> 0" "pos s k < 5"
    using w p(1) by (auto simp: starting_def NOT_BSS_def split: if_splits)
  then have "\<exists>t. smp_steps s t \<and> pos t = (pos s)(k := Suc (pos s k)) \<and> pc (klock t) = pc (klock s)"
    using b(4) secondary_cases [of "pos s k"] by (intro plain_step [OF k(2) refl]) (auto simp: secondary_code [OF k0])
  then show ?thesis using k(1) f(2) by blast
qed

lemma boot_advance:
  assumes inv: "smp_inv s" and p: "pos s 0 \<le> 23"
  shows "\<exists>t. smp_steps s t \<and> boot_work t < boot_work s \<and> pos t 0 \<le> 24 \<and> (\<forall>j. j \<noteq> 0 \<longrightarrow> pc (klock t) j = pc (klock s) j) \<and>
    (\<forall>j. j \<noteq> 0 \<longrightarrow> pos t j = pos s j \<or> pos t j \<le> 5)"
proof -
  let ?p = "pos s 0"
  have n0: "(0 :: nat) < NCPU" by (simp add: NCPU_def)
  have fw: ?thesis if "smp_steps s t" "pos t = (pos s)(0 := Suc ?p)" "\<forall>j. j \<noteq> 0 \<longrightarrow> pc (klock t) j = pc (klock s) j" for t
    using that p by (intro exI [of _ t]) (auto simp: boot_work_def)
  consider "code 0 ! ?p = Lock" "?p = 10" | "code 0 ! ?p = Eret" "?p = 23" | k where "code 0 ! ?p = Wait_status k 1" "?p = 14 + 2 * k" "k \<le> 3"
    | "case code 0 ! ?p of Lock \<Rightarrow> False | Eret \<Rightarrow> False | Wait_bss \<Rightarrow> clear_bss_flag s = 0 | Wait_flag \<Rightarrow> boot_flag s ! 0 \<noteq> 0
      | Wait_status k v \<Rightarrow> cpu_status s ! k = v | _ \<Rightarrow> True"
    using primary_cases [OF pos_primary [OF inv]] p
    by (elim insertE emptyE) (force simp: primary_code)+
  then show ?thesis
  proof cases
    case 1
    then show ?thesis using boot_lock [OF inv 1(2)] fw by auto
  next
    case 2
    obtain q where q: "lock_queue (klock s) q" using lock_ready(2) [OF inv n0] 2 by auto
    have "pc (klock s) 0 = Holds \<or> (\<exists>n. pc (klock s) 0 = Releasing n)"
      using lock_at_inv [OF inv n0] 2 by (auto simp: lock_at_def in_kernel_primary)
    then obtain t where t: "smp_steps s t" "pos t = (pos s)(0 := user_pos 0)" "pc (klock t) = (pc (klock s))(0 := Out)"
      using eret_step [OF q n0 2(1)] by blast
    show ?thesis by (rule fw [OF t(1)]) (simp_all add: t 2)
  next
    case (3 k)
    show ?thesis
    proof (cases "cpu_status s ! k = 1")
      case True
      then show ?thesis using plain_step [OF n0 refl, of s] 3(1) fw by auto
    next
      case False
      then obtain t where t: "k \<in> {1, 2, 3}" "pos s k < 5" "smp_steps s t" "pos t = (pos s)(k := Suc (pos s k))" "pc (klock t) = pc (klock s)"
        using boot_wait [OF inv 3(2,3)] by (auto simp: cpu_run_def)
      then show ?thesis using p by (intro exI [of _ t]) (auto simp: boot_work_def)
    qed
  next
    case 4
    then show ?thesis using plain_step [OF n0 refl, of s] fw by auto
  qed
qed

lemma steps_inv: "smp_steps s t \<Longrightarrow> smp_inv s \<Longrightarrow> smp_inv t"
  unfolding smp_steps_def by (induction rule: rtranclp_induct) (blast intro: smp_inv_step)+

lemma boot_finish:
  assumes "smp_inv s" "pos s 0 \<le> 24"
  shows "\<exists>t. smp_steps s t \<and> pos t 0 = 24 \<and> (\<forall>j. j \<noteq> 0 \<longrightarrow> pc (klock t) j = pc (klock s) j) \<and>
    (\<forall>j. j \<noteq> 0 \<longrightarrow> pos t j = pos s j \<or> pos t j \<le> 5)"
  using assms
proof (induction "boot_work s" arbitrary: s rule: less_induct)
  case less
  show ?case
  proof (cases "pos s 0 = 24")
    case True
    then show ?thesis using steps_refl by blast
  next
    case False
    then obtain t where t: "smp_steps s t" "boot_work t < boot_work s" "pos t 0 \<le> 24" "\<forall>j. j \<noteq> 0 \<longrightarrow> pc (klock t) j = pc (klock s) j"
      "\<forall>j. j \<noteq> 0 \<longrightarrow> pos t j = pos s j \<or> pos t j \<le> 5"
      using boot_advance [OF less.prems(1)] less.prems(2) by force
    obtain u where "smp_steps t u" "pos u 0 = 24" "\<forall>j. j \<noteq> 0 \<longrightarrow> pc (klock u) j = pc (klock t) j"
      "\<forall>j. j \<noteq> 0 \<longrightarrow> pos u j = pos t j \<or> pos u j \<le> 5"
      using less.hyps [OF t(2) steps_inv [OF t(1) less.prems(1)] t(3)] by blast
    then show ?thesis using steps_trans [OF t(1)] t(4,5) by metis
  qed
qed


definition boot_start :: smp where
  "boot_start = \<lparr>pos = \<lambda>_. 0, clear_bss_flag = NOT_BSS, boot_flag = [NOT_BSS, 0, 0, 0], cpu_status = [7, 7, 7, 7],
     klock = \<lparr>the_lock = \<lparr>owner = 3, next_ticket = 9\<rparr>, pc = \<lambda>_. Out, monitor = \<lambda>_. False\<rparr>, calls = []\<rparr>"

lemma boot_start_reach: "smp_reach boot_start"
  by (rule smp_reach.start) (simp add: power_on_def boot_start_def NCPU_def eval_nat_numeral)

text \<open>Everything has started and nobody uses the lock.\<close>

lemma started:
  obtains s where "smp_reach s" "pos s 0 = 24" "pos s 1 = 5" "pos s 2 = 5" "\<forall>j. \<not> ticket (pc (klock s) j)" "\<forall>j. pc (klock s) j = Out"
proof -
  note inv = reach_inv [OF boot_start_reach]
  have "pos boot_start 0 \<le> 24" by (simp add: boot_start_def)
  then obtain t where t: "smp_steps boot_start t" "pos t 0 = 24" "\<forall>j. j \<noteq> 0 \<longrightarrow> pc (klock t) j = pc (klock boot_start) j"
    "\<forall>j. j \<noteq> 0 \<longrightarrow> pos t j = pos boot_start j \<or> pos t j \<le> 5"
    using boot_finish [OF inv] by blast
  note inv' = steps_inv [OF t(1) inv]
  have "5 \<le> pos t 1" "5 \<le> pos t 2" using inv' t(2) by (simp_all add: smp_inv_def boot_inv_def)
  moreover have "pos t 1 \<le> 5" "pos t 2 \<le> 5" using t(4) [rule_format, of 1] t(4) [rule_format, of 2] by (auto simp: boot_start_def)
  moreover have "lock_at 0 24 (pc (klock t) 0)" using lock_at_inv [OF inv', of 0] t(2) by (simp add: NCPU_def)
  then have "pc (klock t) 0 = Out" by (simp add: lock_at_def in_kernel_primary primary_code)
  then have o: "pc (klock t) j = Out" for j using t(3) by (cases "j = 0") (auto simp: boot_start_def)
  ultimately show thesis using that [of t] t(2) steps_reach [OF t(1) boot_start_reach] by (simp add: ticket_def)
qed

lemma exec_steps: "smp_steps s t \<Longrightarrow> smp_exec n s \<Longrightarrow> smp_exec n t"
  unfolding smp_steps_def by (induction rule: rtranclp_induct) (blast intro: smp_exec.step)+

text \<open>Then processor 1 can be in an exception from user mode.\<close>

lemma in_exception:
  obtains s where "smp_reach s" "pos s 0 = 24" "pos s 1 = 10" "pos s 2 = 5" "pc (klock s) = (\<lambda>_. Out)(1 := Holds)"
proof -
  have n1: "(1 :: nat) < NCPU" by (simp add: NCPU_def)
  obtain a where a: "smp_reach a" "pos a 0 = 24" "pos a 1 = 5" "pos a 2 = 5" "\<forall>j. \<not> ticket (pc (klock a) j)" "\<forall>j. pc (klock a) j = Out"
    by (rule started)
  obtain q where q: "lock_queue (klock a) q" using inv_queue [OF reach_inv [OF a(1)]] a(2) by auto
  obtain l where l: "smp_steps a (jump 1 6 (record_call 1 Lock_kernel (a\<lparr>klock := l\<rparr>)))" "pc l = (pc (klock a))(1 := Holds)"
    using lock_gain [OF q n1] a by (auto simp: secondary_code)
  define b where "b = jump 1 6 (record_call 1 Lock_kernel (a\<lparr>klock := l\<rparr>))"
  have b: "smp_reach b" "pos b = (pos a)(1 := 6)" "pc (klock b) = (\<lambda>_. Out)(1 := Holds)"
    using steps_reach [OF l(1) a(1)] l(2) a(6) by (auto simp: b_def move_defs)
  obtain c where c: "smp_steps b c" "pos c = (pos b)(1 := 7)" "pc (klock c) = pc (klock b)"
    using plain_step [OF n1 refl, of b] b(2) by (auto simp: secondary_code)
  note c' = steps_reach [OF c(1) b(1)]
  obtain r where r: "lock_queue (klock c) r" using inv_queue [OF reach_inv [OF c']] c(2) b(2) a(2) by auto
  obtain d where d: "smp_steps c d" "pos d = (pos c)(1 := 8)" "pc (klock d) = (pc (klock c))(1 := Out)"
    using eret_step [OF r n1] c(2,3) b(3) by (auto simp: secondary_code)
  note d' = steps_reach [OF d(1) c']
  obtain e where e: "smp_steps d e" "pos e = (pos d)(1 := 9)" "pc (klock e) = pc (klock d)"
    using plain_step [OF n1 refl, of d] d(2) by (auto simp: secondary_code)
  note e' = steps_reach [OF e(1) d']
  obtain u where u: "lock_queue (klock e) u" using inv_queue [OF reach_inv [OF e']] e(2) d(2) c(2) b(2) a(2) by auto
  obtain m where m: "smp_steps e (jump 1 10 (record_call 1 Lock_kernel (e\<lparr>klock := m\<rparr>)))" "pc m = (pc (klock e))(1 := Holds)"
    using lock_gain [OF u n1] e(2,3) d(2,3) c(2,3) b(2,3) by (auto simp: secondary_code ticket_def)
  show thesis
    using that [of "jump 1 10 (record_call 1 Lock_kernel (e\<lparr>klock := m\<rparr>))"] steps_reach [OF m(1) e'] m(2) e(2,3) d(2,3) c(2,3) b(2,3) a(2-4)
    by (auto simp: move_defs)
qed

section \<open>Properties\<close>

text \<open>
  C3: The start is sequential, although four processors run. Whatever the interleaving, the calls of the
  start happen in one order, and the secondary processors initialise themselves one after the other:
  the calls made so far are an initial part of \<open>boot_sequence\<close>, or they begin with it. When the first
  process is created, every processor is marked as running.
\<close>

theorem boot_order:
  assumes "smp_reach s"
  shows "(prefix (calls s) boot_sequence \<or> prefix boot_sequence (calls s)) \<and>
    ((0, Process_create_root) \<in> set (calls s) \<longrightarrow> (\<forall>i < NCPU. cpu_status s ! i = cpu_run))"
proof (cases "pos s 0 \<le> 23")
  case True
  then have b: "starting (pos s 0) 1 s" "starting (pos s 0) 2 s" "starting (pos s 0) 3 s" "12 < pos s 0 \<longrightarrow> cpu_status s ! 0 = cpu_run"
    and c: "calls s = take (primary_calls (pos s 0) + secondary_calls (pos s 1) + secondary_calls (pos s 2) + secondary_calls (pos s 3)) boot_sequence"
    using reach_inv [OF assms] by (simp_all add: smp_inv_def boot_inv_def)
  have run: "cpu_status s ! i = cpu_run" if "(0, Process_create_root) \<in> set (calls s)" "i < NCPU" for i
  proof -
    have "22 \<le> pos s 0"
    proof (rule ccontr)
      assume "\<not> 22 \<le> pos s 0"
      then have "primary_calls (pos s 0) + secondary_calls (pos s 1) + secondary_calls (pos s 2) + secondary_calls (pos s 3) \<le> 18"
        by (auto simp: primary_calls_def secondary_calls_def)
      then have "(0, Process_create_root) \<in> set (take 18 boot_sequence)"
        using that(1) c set_take_subset_set_take by fastforce
      then show False by (simp add: sequence)
    qed
    moreover have "i \<in> {0, 1, 2, 3}" using that(2) by (auto simp: NCPU_def)
    ultimately show ?thesis using b by (auto simp: starting_def)
  qed
  have "prefix (calls s) boot_sequence" unfolding c by (rule take_is_prefix)
  then show ?thesis using run by blast
next
  case False
  then show ?thesis using reach_inv [OF assms] by (simp add: smp_inv_def boot_inv_def)
qed

lemma first_steps:
  "smp_reach (jump 1 1 (jump 0 1 (record_call 0 Clear_bss (do_call Clear_bss boot_start))))"
proof -
  have 1: "smp_step 0 boot_start (jump 0 1 (record_call 0 Clear_bss (do_call Clear_bss boot_start)))"
    by (simp add: smp_step_def NCPU_def boot_start_def primary_code stmt_simps)
  have "smp_step 1 (jump 0 1 (record_call 0 Clear_bss (do_call Clear_bss boot_start)))
      (jump 1 1 (jump 0 1 (record_call 0 Clear_bss (do_call Clear_bss boot_start))))"
    by (simp add: smp_step_def NCPU_def boot_start_def secondary_code stmt_simps move_defs)
  then show ?thesis using smp_reach.move [OF smp_reach.move [OF boot_start_reach 1]] by blast
qed

theorem boot_order_witness:
  "\<exists>s. smp_reach s \<and> calls s = [(0, Clear_bss)] \<and> (prefix (calls s) boot_sequence \<or> prefix boot_sequence (calls s)) \<and>
    ((0, Process_create_root) \<in> set (calls s) \<longrightarrow> (\<forall>i < NCPU. cpu_status s ! i = cpu_run))"
  using first_steps boot_order [OF first_steps]
  by (intro exI [of _ "jump 1 1 (jump 0 1 (record_call 0 Clear_bss (do_call Clear_bss boot_start)))"])
    (simp add: move_defs boot_start_def)

text \<open>
  C5: As long as no exception is taken inside the kernel (an execution with 0 faults), at most one
  processor at a time, while the system starts and afterwards, is between \<^verbatim>\<open>lock_kernel\<close> and the
  end of its \<^verbatim>\<open>exception_return\<close>. One fault is enough to break this: an execution is given below.
\<close>

theorem one_cpu_in_kernel:
  assumes "smp_exec 0 s" "i < NCPU" "j < NCPU" "in_kernel i (pos s i)" "in_kernel j (pos s j)"
  shows "i = j"
proof -
  note inv = reach_inv [OF exec_reach [THEN iffD1, OF assms(1)]]
  have s: "served (pc (klock s) i)" "served (pc (klock s) j)"
    using lock_at_inv [OF inv] in_kernel_served assms(2-5) by blast+
  have "pc (klock s) i \<noteq> Out" using s(1) by (auto simp: served_def)
  then obtain q where "lock_queue (klock s) q" using inv by (auto simp: smp_inv_def lock_inv_def split: if_splits)
  then show ?thesis using s by (rule held_unique)
qed

theorem one_cpu_in_kernel_witness:
  "\<exists>s. smp_exec 0 s \<and> in_kernel 1 (pos s 1) \<and> (\<forall>j < NCPU. in_kernel j (pos s j) \<longrightarrow> j = 1)"
proof (rule in_exception)
  fix s assume s: "smp_reach s" "pos s 1 = 10"
  note e = exec_reach [THEN iffD2, OF s(1)]
  have k: "in_kernel 1 (pos s 1)" unfolding s(2) by (simp add: in_kernel_secondary)
  moreover have "j = 1" if "j < NCPU" "in_kernel j (pos s j)" for j
    using one_cpu_in_kernel [OF e that(1) _ that(2) k] by (simp add: NCPU_def)
  ultimately show ?thesis using e by blast
qed

text \<open>
  C16: The start cannot get stuck: from every reachable state there are steps to a state in which all
  calls of the start have been made and every processor is marked as running.
\<close>

theorem boot_completes:
  assumes "smp_reach s"
  shows "\<exists>t. smp_steps s t \<and> prefix boot_sequence (calls t) \<and> (\<forall>i < NCPU. cpu_status t ! i = cpu_run)"
proof -
  note inv = reach_inv [OF assms]
  have "\<exists>t. smp_steps s t \<and> 24 \<le> pos t 0"
  proof (cases "pos s 0 \<le> 24")
    case True
    then show ?thesis using boot_finish [OF inv] by (metis order_refl)
  next
    case False
    then show ?thesis using steps_refl by (metis nat_le_linear)
  qed
  then obtain t where t: "smp_steps s t" "24 \<le> pos t 0" by blast
  have "boot_inv (pos t 0) t" using steps_inv [OF t(1) inv] by (simp add: smp_inv_def)
  then show ?thesis using t by (auto simp: boot_inv_def)
qed

theorem boot_completes_witness:
  "\<exists>t. smp_steps boot_start t \<and> prefix boot_sequence (calls t) \<and> (\<forall>i < NCPU. cpu_status t ! i = cpu_run)"
  by (rule boot_completes [OF boot_start_reach])

text \<open>
  C17: One exception inside the kernel is enough to break mutual exclusion. There is an execution in which
  processor 1 handles an exception from user mode with the lock held, takes a fault on the way (on a
  user page that is not mapped yet, for example) and continues; from then on processor 2 can enter the
  kernel while processor 1 is still in it.
\<close>

theorem nested_fault_breaks_exclusion:
  "\<exists>s s' t. smp_reach s \<and> kernel_fault 1 s s' \<and> smp_steps s' t \<and> smp_exec 1 t \<and>
    in_kernel 1 (pos t 1) \<and> code 1 ! pos t 1 = Call Handle_exception \<and> in_kernel 2 (pos t 2)"
proof -
  have n: "(1 :: nat) < NCPU" "(2 :: nat) < NCPU" by (simp_all add: NCPU_def)
  obtain s where s: "smp_reach s" "pos s 0 = 24" "pos s 1 = 10" "pos s 2 = 5" "pc (klock s) = (\<lambda>_. Out)(1 := Holds)"
    by (rule in_exception)
  obtain q where q: "lock_queue (klock s) q" using inv_queue [OF reach_inv [OF s(1)]] s(2) by auto
  let ?l = "goto 1 (Releasing (owner (the_lock (klock s)))) (klock s)"
  let ?m = "goto 1 Out (?l\<lparr>the_lock := (the_lock ?l)\<lparr>owner := owner (the_lock (klock s)) + 1\<rparr>\<rparr>)"
  have l: "step_unlock 1 (klock s) ?l" using s(5) by (intro step_unlock.Read) simp
  have m: "step_unlock 1 ?l ?m" by (rule step_unlock.Write) (simp add: goto_def)
  obtain r where r: "lock_queue ?l r" using step_unlock_queue [OF q n(1) l] by blast
  obtain u where u: "lock_queue ?m u" using step_unlock_queue [OF r n(1) m] by blast
  let ?s = "record_call 1 Unlock_kernel (s\<lparr>klock := ?m\<rparr>)"
  have f: "kernel_fault 1 s ?s"
    using l m s(3) by (intro kernel_fault.intros [where c = Handle_exception]) (simp_all add: secondary_code)
  have k: "klock ?s = ?m" "pos ?s = pos s" by (simp_all add: record_call_def)
  have "\<exists>k. smp_steps ?s (jump 2 (Suc (pos ?s 2)) (record_call 2 Lock_kernel (?s\<lparr>klock := k\<rparr>))) \<and> pc k = (pc (klock ?s))(2 := Holds) \<and>
      (\<exists>q. lock_queue k q)"
  proof (rule lock_gain [OF _ n(2)])
    show "lock_queue (klock ?s) u" unfolding k by (rule u)
    show "code 2 ! pos ?s 2 = Lock" unfolding k by (simp add: s(4) secondary_code)
    show "\<forall>j. j \<noteq> 2 \<longrightarrow> \<not> ticket (pc (klock ?s) j)" unfolding k by (simp add: s(5) goto_def ticket_def)
    show "pc (klock ?s) 2 = Out \<or> (\<exists>n. pc (klock ?s) 2 = Taking n \<or> pc (klock ?s) 2 = Spin n)" unfolding k by (simp add: s(5) goto_def)
  qed
  then obtain k where t: "smp_steps ?s (jump 2 6 (record_call 2 Lock_kernel (?s\<lparr>klock := k\<rparr>)))"
    using s(4) unfolding k by auto
  let ?t = "jump 2 6 (record_call 2 Lock_kernel (?s\<lparr>klock := k\<rparr>))"
  have "in_kernel 1 10" "in_kernel 2 6" "code 1 ! 10 = Call Handle_exception"
    by (simp_all add: in_kernel_secondary secondary_code)
  moreover have "pos ?t 1 = 10" "pos ?t 2 = 6" using s(3) by (simp_all add: move_defs)
  moreover have "smp_exec 1 ?t"
    using exec_steps [OF t smp_exec.fault [OF exec_reach [THEN iffD2, OF s(1)] n(1) f]] by simp
  ultimately show ?thesis using s(1) f t by (intro exI [of _ s] exI [of _ ?s] exI [of _ ?t]) simp
qed

end
