(* ===== verification/Device.thy ===== *)
theory Device
  imports PageTable
begin

text \<open>
  Devices and registers of a processor: the UART of the kernel (\<^verbatim>\<open>common/uart.c\<close>) and of the boot
  code (\<^verbatim>\<open>boot/uart.c\<close>), the timer (\<^verbatim>\<open>exception/timer.c\<close>), the start of exception handling
  (\<^verbatim>\<open>exception/exception.c\<close>) and the walk over the stack (\<^verbatim>\<open>monitor.c\<close>). What the UART will answer is
  part of the state: \<open>lsr_in\<close> the values of successive reads of its status, \<open>io_in\<close> the characters it
  has for the receiver. A loop that polls until the end of \<open>lsr_in\<close> does not return.
\<close>

section \<open>Device registers\<close>

record hw =
  dev :: "u64 \<Rightarrow> u32"
  lsr_in :: "u32 list"
  io_in :: "u32 list"
  io_out :: "u32 list"
  cntv_tval :: u64
  cntv_tval_el0 :: "nat \<Rightarrow> u64"
  cntv_ctl_el0 :: "nat \<Rightarrow> u64"
  irq_masked :: "nat \<Rightarrow> bool"
  vbar_el1 :: "nat \<Rightarrow> u64"
  irq_handle_type :: "u8 list"

text \<open>The registers are at the same offsets from the base of the kernel's and of the boot code's map.\<close>

definition PHYSADDR_OFFSET :: u64 where "PHYSADDR_OFFSET = KBASE + 0x3F000000"
definition EARLY_OFFSET :: u64 where "EARLY_OFFSET = 0x3F000000"
definition GPFSEL1 :: "u64 \<Rightarrow> u64" where "GPFSEL1 b = b + 0x00200004"
definition GPPUD :: "u64 \<Rightarrow> u64" where "GPPUD b = b + 0x00200094"
definition GPPUDCLK0 :: "u64 \<Rightarrow> u64" where "GPPUDCLK0 b = b + 0x00200098"
definition AUX_ENABLES :: "u64 \<Rightarrow> u64" where "AUX_ENABLES b = b + 0x00215004"
definition AUX_MU_IO_REG :: "u64 \<Rightarrow> u64" where "AUX_MU_IO_REG b = b + 0x00215040"
definition AUX_MU_IER_REG :: "u64 \<Rightarrow> u64" where "AUX_MU_IER_REG b = b + 0x00215044"
definition AUX_MU_LCR_REG :: "u64 \<Rightarrow> u64" where "AUX_MU_LCR_REG b = b + 0x0021504C"
definition AUX_MU_MCR_REG :: "u64 \<Rightarrow> u64" where "AUX_MU_MCR_REG b = b + 0x00215050"
definition AUX_MU_LSR_REG :: "u64 \<Rightarrow> u64" where "AUX_MU_LSR_REG b = b + 0x00215054"
definition AUX_MU_CNTL_REG :: "u64 \<Rightarrow> u64" where "AUX_MU_CNTL_REG b = b + 0x00215060"
definition AUX_MU_BAUD_REG :: "u64 \<Rightarrow> u64" where "AUX_MU_BAUD_REG b = b + 0x00215068"

definition is_reg :: "(u64 \<Rightarrow> u64) \<Rightarrow> u64 \<Rightarrow> bool" where
  "is_reg r a \<longleftrightarrow> a = r PHYSADDR_OFFSET \<or> a = r EARLY_OFFSET"

definition pop :: "u32 list \<Rightarrow> (u32 \<times> u32 list) res" where
  "pop xs = (case xs of [] \<Rightarrow> Inl FUEL | x # xs \<Rightarrow> Inr (x, xs))"

definition get32 :: "u64 \<Rightarrow> hw \<Rightarrow> (u32 \<times> hw) res" where
  "get32 a s =
     (if is_reg AUX_MU_LSR_REG a then bindR (pop (lsr_in s)) (\<lambda>(x, xs). Inr (x, s\<lparr>lsr_in := xs\<rparr>))
      else if is_reg AUX_MU_IO_REG a then bindR (pop (io_in s)) (\<lambda>(x, xs). Inr (x, s\<lparr>io_in := xs\<rparr>))
      else Inr (dev s a, s))"

definition put32 :: "u64 \<Rightarrow> u32 \<Rightarrow> hw \<Rightarrow> hw" where
  "put32 a v s = (if is_reg AUX_MU_IO_REG a then s\<lparr>io_out := io_out s @ [v]\<rparr> else s\<lparr>dev := (dev s)(a := v)\<rparr>)"

section \<open>UART\<close>

definition uart_lsr :: "u64 \<Rightarrow> hw \<Rightarrow> (u32 \<times> hw) res" where
  "uart_lsr b s = get32 (AUX_MU_LSR_REG b) s"

text \<open>\<^verbatim>\<open>while (1) if (uart_lsr() & bits) break;\<close> with a bound on the rounds.\<close>

fun poll_lsr :: "nat \<Rightarrow> u64 \<Rightarrow> u32 \<Rightarrow> hw \<Rightarrow> hw res" where
  "poll_lsr 0 b bits s = Inl FUEL"
| "poll_lsr (Suc n) b bits s = bindR (uart_lsr b s) (\<lambda>(l, s). if l AND bits \<noteq> 0 then Inr s else poll_lsr n b bits s)"

definition wait_lsr :: "u64 \<Rightarrow> u32 \<Rightarrow> hw \<Rightarrow> hw res" where
  "wait_lsr b bits s = poll_lsr (length (lsr_in s)) b bits s"

definition uart_send :: "u64 \<Rightarrow> u32 \<Rightarrow> hw \<Rightarrow> hw res" where
  "uart_send b c s = bindR (wait_lsr b 0x20 s) (\<lambda>s. Inr (put32 (AUX_MU_IO_REG b) c s))"

definition uart_recv :: "u64 \<Rightarrow> hw \<Rightarrow> (u32 \<times> hw) res" where
  "uart_recv b s = bindR (wait_lsr b 0x01 s) (\<lambda>s. bindR (get32 (AUX_MU_IO_REG b) s) (\<lambda>(x, s). Inr (x AND 0xFF, s)))"

definition NB_UART_NRET :: u32 where "NB_UART_NRET = 0xffffff"

definition nb_uart_recv :: "u64 \<Rightarrow> hw \<Rightarrow> (u32 \<times> hw) res" where
  "nb_uart_recv b s = bindR (uart_lsr b s) (\<lambda>(l, s).
     if l AND 0x01 \<noteq> 0 then bindR (get32 (AUX_MU_IO_REG b) s) (\<lambda>(x, s). Inr (x AND 0xFF, s)) else Inr (NB_UART_NRET, s))"

text \<open>Pins 14 and 15 become the lines of the UART.\<close>

definition uart_pins :: "u32 \<Rightarrow> u32" where
  "uart_pins ra = (let ra = ra AND NOT (push_bit 12 7); ra = ra OR push_bit 12 2;
     ra = ra AND NOT (push_bit 15 7) in ra OR push_bit 15 2)"

definition early_uart_init :: "u64 \<Rightarrow> hw \<Rightarrow> hw res" where
  "early_uart_init b s = bindR (get32 (GPFSEL1 b) s) (\<lambda>(ra, s).
     let s = put32 (GPFSEL1 b) (uart_pins ra) s;
         s = put32 (GPPUD b) 0 s;
         s = put32 (GPPUDCLK0 b) (push_bit 14 1 OR push_bit 15 1) s;
         s = put32 (GPPUDCLK0 b) 0 s;
         s = put32 (AUX_ENABLES b) 1 s;
         s = put32 (AUX_MU_IER_REG b) 0 s;
         s = put32 (AUX_MU_CNTL_REG b) 0 s;
         s = put32 (AUX_MU_IER_REG b) 0 s;
         s = put32 (AUX_MU_LCR_REG b) 3 s;
         s = put32 (AUX_MU_MCR_REG b) 0 s;
         s = put32 (AUX_MU_BAUD_REG b) 270 s in
     Inr (put32 (AUX_MU_CNTL_REG b) 3 s))"

fun send_all :: "u64 \<Rightarrow> u32 list \<Rightarrow> hw \<Rightarrow> hw res" where
  "send_all b [] s = Inr s"
| "send_all b (c # cs) s = bindR (uart_send b c s) (send_all b cs)"

text \<open>
  \<^verbatim>\<open>uart_init\<close> writes the same registers and clears the screen with escape [ 2 J. The boot code sends
  strings: \<open>cs\<close> are the characters before the terminator.
\<close>

definition uart_init :: "u64 \<Rightarrow> hw \<Rightarrow> hw res" where
  "uart_init b s = bindR (early_uart_init b s) (send_all b [12, 27, 0x5B, 0x32, 0x4A])"

definition uart_send_string :: "u64 \<Rightarrow> u8 list \<Rightarrow> hw \<Rightarrow> hw res" where
  "uart_send_string b cs s = send_all b (map ucast cs) s"

section \<open>Timer\<close>

definition TICK_MS :: u64 where "TICK_MS = 500"

definition core_timer_irqcntl :: "nat \<Rightarrow> u64" where
  "core_timer_irqcntl cpuid = KBASE + 0x40000040 + 4 * of_nat cpuid"

text \<open>\<open>cur_freq\<close> is the value of \<^verbatim>\<open>cntfrq_el0\<close>.\<close>

definition timer_init :: "nat \<Rightarrow> u64 \<Rightarrow> hw \<Rightarrow> hw" where
  "timer_init cpuid cur_freq s =
     (let s = s\<lparr>cntv_tval := cur_freq * TICK_MS div 1000\<rparr>;
          s = s\<lparr>cntv_tval_el0 := (cntv_tval_el0 s)(cpuid := cntv_tval s)\<rparr>;
          s = put32 (core_timer_irqcntl cpuid) 8 s;
          timer_ctl = push_bit 1 0 OR 1 in
      s\<lparr>cntv_ctl_el0 := (cntv_ctl_el0 s)(cpuid := timer_ctl)\<rparr>)"

definition plat_handle_timer_irq :: "nat \<Rightarrow> hw \<Rightarrow> hw" where
  "plat_handle_timer_irq cpuid s = s\<lparr>cntv_tval_el0 := (cntv_tval_el0 s)(cpuid := cntv_tval s)\<rparr>"

definition plat_disable_timer :: "nat \<Rightarrow> hw \<Rightarrow> hw" where
  "plat_disable_timer cpuid s = s\<lparr>cntv_ctl_el0 := (cntv_ctl_el0 s)(cpuid := 0)\<rparr>"

definition plat_enable_timer :: "nat \<Rightarrow> hw \<Rightarrow> hw" where
  "plat_enable_timer cpuid s = s\<lparr>cntv_tval_el0 := (cntv_tval_el0 s)(cpuid := cntv_tval s),
     cntv_ctl_el0 := (cntv_ctl_el0 s)(cpuid := 1)\<rparr>"

section \<open>Exceptions\<close>

definition MAX_IRQ_NUM :: nat where "MAX_IRQ_NUM = 256"
definition HANDLE_KERNEL :: u8 where "HANDLE_KERNEL = 0"

definition disable_irq :: "nat \<Rightarrow> hw \<Rightarrow> hw" where
  "disable_irq cpuid s = s\<lparr>irq_masked := (irq_masked s)(cpuid := True)\<rparr>"

definition set_exception_vector :: "nat \<Rightarrow> u64 \<Rightarrow> hw \<Rightarrow> hw" where
  "set_exception_vector cpuid el1_vector s = s\<lparr>vbar_el1 := (vbar_el1 s)(cpuid := el1_vector)\<rparr>"

definition exception_init_per_cpu :: "nat \<Rightarrow> u64 \<Rightarrow> u64 \<Rightarrow> hw \<Rightarrow> hw" where
  "exception_init_per_cpu cpuid cur_freq el1_vector s =
     set_exception_vector cpuid el1_vector (disable_irq cpuid (timer_init cpuid cur_freq s))"

definition exception_init :: "nat \<Rightarrow> u64 \<Rightarrow> u64 \<Rightarrow> hw \<Rightarrow> hw" where
  "exception_init cpuid cur_freq el1_vector s =
     (exception_init_per_cpu cpuid cur_freq el1_vector s)\<lparr>irq_handle_type := replicate MAX_IRQ_NUM HANDLE_KERNEL\<rparr>"

section \<open>The stack\<close>

text \<open>\<^verbatim>\<open>stack_backtrace\<close>: return address, frame and five words of each frame, as far as the frames go.\<close>

fun backtrace_loop :: "nat \<Rightarrow> (u64 \<Rightarrow> u64 option) \<Rightarrow> u64 \<Rightarrow> (u64 \<times> u64 \<times> u64 list) list res" where
  "backtrace_loop 0 m fp = Inl FUEL"
| "backtrace_loop (Suc n) m fp =
     (if fp = 0 then Inr []
      else bindR (deref (m (fp + 8))) (\<lambda>lr.
        bindR (deref (those (map (\<lambda>i. m (fp - 16 + 8 * of_nat i)) [0..<5]))) (\<lambda>args.
        bindR (deref (m fp)) (\<lambda>next.
        bindR (backtrace_loop n m next) (\<lambda>fs. Inr ((lr, fp, args) # fs))))))"

definition stack_backtrace :: "nat \<Rightarrow> (u64 \<Rightarrow> u64 option) \<Rightarrow> u64 \<Rightarrow> (u64 \<times> u64 \<times> u64 list) list res" where
  "stack_backtrace n m x29 = bindR (deref (m x29)) (backtrace_loop n m)"


section \<open>What they do\<close>

definition uart_base :: "u64 \<Rightarrow> bool" where
  "uart_base b \<longleftrightarrow> b = PHYSADDR_OFFSET \<or> b = EARLY_OFFSET"

lemmas uart_regs = GPFSEL1_def GPPUD_def GPPUDCLK0_def AUX_ENABLES_def AUX_MU_IO_REG_def AUX_MU_IER_REG_def
  AUX_MU_LCR_REG_def AUX_MU_MCR_REG_def AUX_MU_LSR_REG_def AUX_MU_CNTL_REG_def AUX_MU_BAUD_REG_def

lemma uart_lsr_eq: "uart_base b \<Longrightarrow> uart_lsr b s = bindR (pop (lsr_in s)) (\<lambda>(x, xs). Inr (x, s\<lparr>lsr_in := xs\<rparr>))"
  by (auto simp: uart_lsr_def get32_def is_reg_def uart_base_def)

lemma put_io: "uart_base b \<Longrightarrow> put32 (AUX_MU_IO_REG b) v s = s\<lparr>io_out := io_out s @ [v]\<rparr>"
  by (auto simp: put32_def is_reg_def uart_base_def)

text \<open>Answers of the UART that let a waiting loop go on.\<close>

definition ready :: "u32 \<Rightarrow> hw \<Rightarrow> nat" where
  "ready bits s = length (filter (\<lambda>l. l AND bits \<noteq> 0) (lsr_in s))"

lemma wait_lsr_spec:
  assumes b: "uart_base b"
  shows "if ready bits s = 0 then wait_lsr b bits s = Inl FUEL
    else \<exists>rest. wait_lsr b bits s = Inr (s\<lparr>lsr_in := rest\<rparr>) \<and> Suc (ready bits (s\<lparr>lsr_in := rest\<rparr>)) = ready bits s"
  unfolding wait_lsr_def ready_def
proof (induction "lsr_in s" arbitrary: s)
  case Nil
  then show ?case by simp
next
  case (Cons l ls)
  have l: "lsr_in s = l # ls" using Cons.hyps(2) by simp
  show ?case
  proof (cases "l AND bits = 0")
    case True
    then show ?thesis using Cons.hyps(1) [of "s\<lparr>lsr_in := ls\<rparr>"] by (simp add: l uart_lsr_eq [OF b] pop_def split: if_splits)
  next
    case False
    then show ?thesis by (auto simp: l uart_lsr_eq [OF b] pop_def)
  qed
qed

lemma uart_send_spec:
  assumes "uart_base b"
  shows "if ready 0x20 s = 0 then uart_send b c s = Inl FUEL
    else \<exists>rest. uart_send b c s = Inr (s\<lparr>lsr_in := rest, io_out := io_out s @ [c]\<rparr>) \<and> Suc (ready 0x20 (s\<lparr>lsr_in := rest\<rparr>)) = ready 0x20 s"
proof (cases "ready 0x20 s = 0")
  case True
  then show ?thesis using wait_lsr_spec [OF assms, of "0x20" s] by (simp add: uart_send_def)
next
  case False
  then obtain rest where r: "wait_lsr b 0x20 s = Inr (s\<lparr>lsr_in := rest\<rparr>)" "Suc (ready 0x20 (s\<lparr>lsr_in := rest\<rparr>)) = ready 0x20 s"
    using wait_lsr_spec [OF assms, of "0x20" s] by auto
  then have "uart_send b c s = Inr (s\<lparr>lsr_in := rest, io_out := io_out s @ [c]\<rparr>)"
    unfolding uart_send_def r(1) by (simp add: put_io [OF assms])
  then show ?thesis unfolding if_not_P [OF False] using r(2) by blast
qed

lemma ready_io [simp]: "ready bits (s\<lparr>lsr_in := r, io_out := x\<rparr>) = ready bits (s\<lparr>lsr_in := r\<rparr>)"
  by (simp add: ready_def)

text \<open>All characters are sent, in order and without loss, or the UART never gets ready.\<close>

theorem send_all_spec:
  assumes "uart_base b"
  shows "if length cs \<le> ready 0x20 s then \<exists>rest. send_all b cs s = Inr (s\<lparr>lsr_in := rest, io_out := io_out s @ cs\<rparr>)
    else send_all b cs s = Inl FUEL"
proof (induction cs arbitrary: s)
  case Nil
  show ?case by (auto intro: exI [of _ "lsr_in s"])
next
  case (Cons c cs)
  show ?case
  proof (cases "ready 0x20 s = 0")
    case True
    then show ?thesis using uart_send_spec [OF assms, of s c] by simp
  next
    case False
    then obtain rest where r: "uart_send b c s = Inr (s\<lparr>lsr_in := rest, io_out := io_out s @ [c]\<rparr>)"
      "Suc (ready 0x20 (s\<lparr>lsr_in := rest\<rparr>)) = ready 0x20 s"
      using uart_send_spec [OF assms, of s c] by auto
    show ?thesis
      using Cons.IH [of "s\<lparr>lsr_in := rest, io_out := io_out s @ [c]\<rparr>"] r(2) by (auto simp: r(1) split: if_splits)
  qed
qed

text \<open>The receiver gives the next character as soon as the UART says that there is one.\<close>

theorem uart_recv_spec:
  assumes "uart_base b" "0 < ready 0x01 s" "io_in s = x # xs"
  shows "\<exists>rest. uart_recv b s = Inr (x AND 0xFF, s\<lparr>lsr_in := rest, io_in := xs\<rparr>)"
proof -
  obtain rest where "wait_lsr b 0x01 s = Inr (s\<lparr>lsr_in := rest\<rparr>)"
    using wait_lsr_spec [OF assms(1), of "0x01" s] assms(2) by auto
  moreover have "\<not> is_reg AUX_MU_LSR_REG (AUX_MU_IO_REG b)" "is_reg AUX_MU_IO_REG (AUX_MU_IO_REG b)"
    using assms(1) by (auto simp: is_reg_def uart_base_def uart_regs PHYSADDR_OFFSET_def EARLY_OFFSET_def KBASE_def)
  ultimately show ?thesis using assms(3) by (auto simp: uart_recv_def get32_def pop_def)
qed

text \<open>The pins 14 and 15 get function 2, the others keep theirs.\<close>

lemma uart_pins_fields:
  "drop_bit 12 (uart_pins ra) AND 7 = 2" "drop_bit 15 (uart_pins ra) AND 7 = 2"
  "n \<notin> {12..17} \<Longrightarrow> bit (uart_pins ra) n = bit ra n"
proof -
  have 7: "bit (7 :: u32) k \<longleftrightarrow> k < 3" for k
  proof -
    have "(7 :: u32) = mask 3" by (simp add: mask_eq_exp_minus_1)
    then show ?thesis by (simp only: bit_mask_iff) auto
  qed
  have 2: "bit (2 :: u32) k \<longleftrightarrow> k = 1" for k
  proof -
    have "(2 :: u32) = push_bit 1 1" by simp
    then show ?thesis by (simp only: bit_push_bit_iff bit_1_iff) auto
  qed
  have p: "bit (uart_pins ra) n \<longleftrightarrow> (if n = 13 \<or> n = 16 then True else if 12 \<le> n \<and> n \<le> 17 then False else bit ra n)" if "n < 32" for n
    using that unfolding uart_pins_def Let_def bit_or_iff bit_and_iff bit_not_iff bit_push_bit_iff 7 2 possible_bit_word by auto
  show "drop_bit 12 (uart_pins ra) AND 7 = 2" "drop_bit 15 (uart_pins ra) AND 7 = 2"
    by (rule bit_word_eqI, unfold bit_and_iff bit_drop_bit_eq comp_def 7 2, auto simp: p split: if_splits)+
  show "bit (uart_pins ra) n = bit ra n" if "n \<notin> {12..17}"
  proof (cases "n < 32")
    case True
    then show ?thesis using p that by auto
  next
    case False
    then show ?thesis using bit_imp_le_length by fastforce
  qed
qed

text \<open>
  The UART is switched on for sending and receiving at 115200 baud with 8 bits, its interrupts are off,
  and \<^verbatim>\<open>uart_init\<close> has cleared the screen.
\<close>

theorem uart_init_effect:
  assumes "uart_base b" "5 \<le> ready 0x20 s"
  shows "\<exists>s'. uart_init b s = Inr s' \<and> io_out s' = io_out s @ [12, 27, 0x5B, 0x32, 0x4A] \<and>
    dev s' (GPFSEL1 b) = uart_pins (dev s (GPFSEL1 b)) \<and> dev s' (AUX_MU_CNTL_REG b) = 3 \<and> dev s' (AUX_MU_BAUD_REG b) = 270 \<and>
    dev s' (AUX_MU_LCR_REG b) = 3 \<and> dev s' (AUX_MU_IER_REG b) = 0 \<and> dev s' (AUX_ENABLES b) = 1"
proof -
  have "\<exists>t. early_uart_init b s = Inr t \<and> io_out t = io_out s \<and> lsr_in t = lsr_in s \<and>
    dev t (GPFSEL1 b) = uart_pins (dev s (GPFSEL1 b)) \<and> dev t (AUX_MU_CNTL_REG b) = 3 \<and> dev t (AUX_MU_BAUD_REG b) = 270 \<and>
    dev t (AUX_MU_LCR_REG b) = 3 \<and> dev t (AUX_MU_IER_REG b) = 0 \<and> dev t (AUX_ENABLES b) = 1"
    using assms(1) unfolding uart_base_def
    by (elim disjE) (simp_all add: early_uart_init_def get32_def put32_def is_reg_def uart_regs PHYSADDR_OFFSET_def EARLY_OFFSET_def KBASE_def Let_def)
  then obtain t where t: "early_uart_init b s = Inr t" "io_out t = io_out s" "lsr_in t = lsr_in s"
    "dev t (GPFSEL1 b) = uart_pins (dev s (GPFSEL1 b))" "dev t (AUX_MU_CNTL_REG b) = 3" "dev t (AUX_MU_BAUD_REG b) = 270"
    "dev t (AUX_MU_LCR_REG b) = 3" "dev t (AUX_MU_IER_REG b) = 0" "dev t (AUX_ENABLES b) = 1" by blast
  have "length [12, 27, 0x5B, 0x32, 0x4A :: u32] \<le> ready 0x20 t" using assms(2) by (simp add: ready_def t(3))
  then obtain rest where "send_all b [12, 27, 0x5B, 0x32, 0x4A] t = Inr (t\<lparr>lsr_in := rest, io_out := io_out t @ [12, 27, 0x5B, 0x32, 0x4A]\<rparr>)"
    using send_all_spec [OF assms(1), of "[12, 27, 0x5B, 0x32, 0x4A]" t] by auto
  then show ?thesis using t by (simp add: uart_init_def)
qed

text \<open>Two interrupts per second, at any frequency that does not overflow.\<close>

theorem timer_period:
  assumes "unat cur_freq * 500 < 2 ^ 64"
  shows "unat (cntv_tval_el0 (timer_init cpuid cur_freq s) cpuid) = unat cur_freq div 2"
    "cntv_ctl_el0 (timer_init cpuid cur_freq s) cpuid = 1"
    "cntv_tval_el0 (plat_handle_timer_irq cpuid' (timer_init cpuid cur_freq s)) cpuid' = cntv_tval_el0 (timer_init cpuid cur_freq s) cpuid"
proof -
  have "unat (cur_freq * 500) = unat cur_freq * 500" using assms by (subst unat_mult_lem [THEN iffD1]) simp_all
  then show "unat (cntv_tval_el0 (timer_init cpuid cur_freq s) cpuid) = unat cur_freq div 2"
    by (simp add: timer_init_def Let_def put32_def TICK_MS_def unat_div)
  show "cntv_ctl_el0 (timer_init cpuid cur_freq s) cpuid = 1" by (simp add: timer_init_def Let_def)
  show "cntv_tval_el0 (plat_handle_timer_irq cpuid' (timer_init cpuid cur_freq s)) cpuid' = cntv_tval_el0 (timer_init cpuid cur_freq s) cpuid"
    by (simp add: timer_init_def Let_def put32_def plat_handle_timer_irq_def)
qed

text \<open>A processor that has been set up takes no interrupts in the kernel and finds the handlers.\<close>

lemma exception_init_effect:
  "irq_masked (exception_init c f v s) c" "vbar_el1 (exception_init c f v s) c = v"
  "n < MAX_IRQ_NUM \<Longrightarrow> irq_handle_type (exception_init c f v s) ! n = HANDLE_KERNEL"
  by (simp_all add: exception_init_def exception_init_per_cpu_def disable_irq_def set_exception_vector_def)

text \<open>Frames on a stack: each holds the address of the next, the last one 0.\<close>

inductive frames :: "(u64 \<Rightarrow> u64 option) \<Rightarrow> u64 \<Rightarrow> (u64 \<times> u64 \<times> u64 list) list \<Rightarrow> bool" for m where
  "frames m 0 []"
| "fp \<noteq> 0 \<Longrightarrow> m (fp + 8) = Some lr \<Longrightarrow> those (map (\<lambda>i. m (fp - 16 + 8 * of_nat i)) [0..<5]) = Some args \<Longrightarrow>
    m fp = Some next \<Longrightarrow> frames m next fs \<Longrightarrow> frames m fp ((lr, fp, args) # fs)"

theorem stack_backtrace_frames:
  assumes "m x29 = Some fp" "frames m fp fs" "length fs < n"
  shows "stack_backtrace n m x29 = Inr fs"
proof -
  have "backtrace_loop n m fp = Inr fs" if "length fs < n" for n
    using assms(2) that
  proof (induction arbitrary: n)
    case 1
    then show ?case by (cases n) auto
  next
    case (2 fp lr args "next" fs)
    then show ?case by (cases n) (auto simp: deref_def)
  qed
  then show ?thesis using assms(1,3) by (simp add: stack_backtrace_def deref_def)
qed

end
