(* ===== verification/CapType.thy ===== *)
theory CapType
  imports CapLife
begin

text \<open>Looking up a capability: the type of the object and the reference that is taken.\<close>

lemma empty_slot_get:
  assumes inv: "caps_inv ext k" and q: "procs k p = Some q" "i < 64" and c: "cap_object k p i = None"
  shows "get_opaque p (int i) ty k = Inr (None, k)"
proof -
  have t: "tab_ok (p_table q)" by (rule caps_invD(1) [OF inv q(1)])
  have "\<not> used_slot (p_table q) i"
  proof
    assume "used_slot (p_table q) i"
    then obtain s where "st_slots (p_table q) ! i = Some s" using t q(2) by (auto simp: tab_ok_def)
    then show False using caps_invD(3) [OF inv, of p i s] q c by (auto simp: slot_at_def cap_object_def)
  qed
  then show ?thesis using q is_valid_ok [OF t q(2)] by (simp add: get_opaque_def table_get_def kop_defs)
qed

text \<open>
  C18: Capabilities are typed. For every slot of a process \<^verbatim>\<open>obj_get\<close> gives an object exactly when
  the slot holds a capability on an object of the requested type; it then takes a reference, which
  \<^verbatim>\<open>obj_put\<close> gives back. For an empty slot or an object of another type it gives NULL and changes
  nothing.
\<close>

theorem obj_get_typed:
  assumes "caps_inv ext k" "procs k p = Some q" "i < 64" "\<forall>ob x. kobjs k ob = Some x \<longrightarrow> unat (refcount x) < 2 ^ 64 - 1"
  shows "\<exists>r k'. obj_get p (int i) ty k = Inr (r, k') \<and>
    (case r of
       None \<Rightarrow> k' = k \<and> (\<forall>ob x. cap_object k p i = Some ob \<longrightarrow> kobjs k ob = Some x \<longrightarrow> ob_type x \<noteq> ty)
     | Some ob \<Rightarrow> cap_object k p i = Some ob \<and> (\<exists>x. kobjs k ob = Some x \<and> ob_type x = ty) \<and>
         caps_inv (ext(ob := ext ob + 1)) k' \<and> obj_put r k' = Inr ((), k))"
proof (cases "cap_object k p i")
  case None
  then show ?thesis using empty_slot_get [OF assms(1-3) None] by (simp add: obj_get_def)
next
  case (Some ob)
  obtain x where x: "kobjs k ob = Some x" by (rule cap_objectE [OF assms(1) Some])
  show ?thesis
  proof (cases "ob_type x = ty")
    case True
    have lt: "unat (refcount x) < 2 ^ 64 - 1" using assms(4) x by blast
    obtain k' where "obj_get p (int i) ty k = Inr (Some ob, k')" "caps_inv (ext(ob := ext ob + 1)) k'"
      using obj_get_inv [OF assms(1) Some x lt True] by blast
    moreover have "obj_put (Some ob) k' = Inr ((), k)"
      using get_put [OF assms(1) Some x lt True] \<open>obj_get p (int i) ty k = Inr (Some ob, k')\<close> by (simp add: bindK_def)
    ultimately show ?thesis using x True Some by simp
  next
    case False
    then show ?thesis using obj_get_eq [OF assms(1) Some x, of "Some ty"] x Some by (simp add: obj_get_def)
  qed
qed

theorem obj_get_typed_witness:
  "\<exists>k'. obj_get 10 (int 1) TYPE_PMO demo_kernel = Inr (Some 13, k') \<and> obj_put (Some 13) k' = Inr ((), demo_kernel)"
proof -
  have c: "\<forall>ob x. kobjs demo_kernel ob = Some x \<longrightarrow> unat (refcount x) < 2 ^ 64 - 1"
    by (simp add: demo_kernel_def)
  have 1: "(1 :: nat) < 64" by simp
  from obj_get_typed [OF demo_inv demo_facts(7) 1 c, of TYPE_PMO] show ?thesis
    using demo_facts(1,4) by (auto split: option.splits)
qed

end
