(* ===== verification/UserFiles.thy ===== *)
theory UserFiles
  imports UserElf
begin

text \<open>
  The list of files of the user library, \<^verbatim>\<open>cpio_extract\<close> in \<^verbatim>\<open>user/lib/cpio.c\<close>. \<open>allocs\<close> says which
  calls of \<^verbatim>\<open>calloc\<close> give memory.
\<close>

definition user_cpio_init_g_files :: "cpio_file list" where
  "user_cpio_init_g_files = []"

definition user_cpio_alloc_file :: "bool list \<Rightarrow> bool \<times> bool list" where
  "user_cpio_alloc_file allocs = (case allocs of [] \<Rightarrow> (False, []) | b # bs \<Rightarrow> (b, bs))"

definition user_cpio_add_file :: "cpio_file \<Rightarrow> cpio_file list \<Rightarrow> cpio_file list" where
  "user_cpio_add_file f g_files = g_files @ [f]"

definition user_ALIGN4_UP :: "u64 \<Rightarrow> u64" where
  "user_ALIGN4_UP x = (x AND NOT 3) + push_bit 2 (if x AND 3 \<noteq> 0 then 1 else 0)"

fun user_cpio_extract :: "nat \<Rightarrow> nat \<Rightarrow> mem \<Rightarrow> u64 \<Rightarrow> u64 \<Rightarrow> u64 \<Rightarrow> bool list \<Rightarrow> cpio_file list \<Rightarrow> cpio_file list res" where
  "user_cpio_extract 0 ns m magic trailer p allocs g_files = Inl FUEL"
| "user_cpio_extract (Suc n) ns m magic trailer p allocs g_files =
     (let (f, allocs) = user_cpio_alloc_file allocs in
      if \<not> f then Inr g_files
      else
        bindR (user_cpio_parse_header m magic p) (\<lambda>header.
        let p = p + SIZEOF_NEWC in
        bindR (strcmp ns m p trailer) (\<lambda>r.
        if r = 0 then Inr g_files
        else
          let name = p;
              p = user_ALIGN4_UP (p + c_namesize header);
              data = p;
              p = user_ALIGN4_UP (p + c_filesize header) in
          user_cpio_extract n ns m magic trailer p allocs
            (user_cpio_add_file \<lparr>cf_header = header, cf_name = name, cf_data = data\<rparr> g_files))))"

lemma user_align: "user_ALIGN4_UP x = ALIGN4_UP x"
  by (simp add: user_ALIGN4_UP_def ALIGN4_UP_def)

lemma user_extract_step:
  "user_cpio_extract (Suc n) ns m magic trailer p allocs g_files =
     (let (f, allocs) = user_cpio_alloc_file allocs in
      if \<not> f then Inr g_files
      else
        bindR (user_cpio_parse_header m magic p) (\<lambda>header.
        let p = p + SIZEOF_NEWC in
        bindR (bindR (strcmp ns m p trailer) (\<lambda>r. Inr (r = 0))) (\<lambda>t.
        if t then Inr g_files
        else
          let name = p;
              p = ALIGN4_UP (p + c_namesize header);
              data = p;
              p = ALIGN4_UP (p + c_filesize header) in
          user_cpio_extract n ns m magic trailer p allocs
            (user_cpio_add_file \<lparr>cf_header = header, cf_name = name, cf_data = data\<rparr> g_files))))"
  unfolding user_cpio_extract.simps user_align bindR_assoc bindR_simps Let_def by (rule refl)

text \<open>On every archive the user library makes the list of files that the kernel makes.\<close>

theorem user_extract_equals_kernel:
  assumes "cstring m magic NEWC_MAGIC" "cstring m trailer TRAILER" "length TRAILER < ns"
  shows "user_cpio_extract n ns m magic trailer p allocs g_files =
    (case cpio_extract n m p allocs g_files of None \<Rightarrow> Inl FUEL | Some r \<Rightarrow> r)"
proof (induction n arbitrary: p allocs g_files)
  case (Suc n)
  have t: "bindR (strcmp ns m a trailer) (\<lambda>r. Inr (r = 0)) = str_eq m a 0 TRAILER" for a
    using strcmp_str_eq [OF assms(2), of 0 ns a] assms(3) by (simp add: strcmp_def)
  have a: "user_cpio_alloc_file allocs = cpio_alloc_file allocs"
    by (simp add: user_cpio_alloc_file_def cpio_alloc_file_def)
  show ?case unfolding user_extract_step t a Suc.IH user_cpio_header_eq [OF assms(1)]
    by (simp add: bindR_def Let_def user_cpio_add_file_def cpio_add_file_def split: sum.split prod.split bool.split)
qed simp

end
