(* ===== verification/Spec2Isabelle.thy ===== *)
theory Spec2Isabelle
  imports Bitmap ListHead Radix Buddy BuddyFree PageTable Vmspace Slab Sched TicketLock SlotTable
    Memory Elf Cpio Capability CapDepth CapRefs CapLife Process Loader VmSyscall Ipc Exception IpcProps
    Printk PrintkProps UserPrint Strings MemWrite UserCall UserLib UserElf IpcMsg Spawn SpawnProps
    SlabProps KmallocProps Boot Start Smp SmpProps Device CapType UserFiles
begin

text \<open>
  ChCore, a teaching microkernel for AArch64: the kernel (\<^verbatim>\<open>src/code/chcore-lab-2021/kernel\<close>) and the
  user library (\<^verbatim>\<open>user/lib\<close>).

  \<^bold>\<open>The program.\<close> Processes hold capabilities, numbers of slots that point to kernel objects (processes,
  threads, address spaces, memory objects, IPC connections). System calls create objects, map memory,
  pass capabilities on, schedule threads and migrate a client's thread to a server and back. Below are
  a buddy and a slab allocator, page tables, a round-robin scheduler with one queue per CPU, and ticket
  locks. The first program comes from a cpio archive in ELF format; the user library starts others.

  \<^bold>\<open>Conventions\<close> (theory \<open>Prelude\<close>). A C function becomes a function on an explicit state that returns
  \<open>res\<close>: \<open>Inr\<close> of results and state, or \<open>Inl\<close> of a crash, which is \<open>BUG\<close> (\<^verbatim>\<open>BUG_ON\<close>), \<open>WILD\<close> (an access
  outside the memory or object, a NULL dereference) or \<open>FUEL\<close>. Error numbers are results, as in C.
  Machine integers are words; an \<open>int\<close> of C is an \<open>int\<close> where no overflow is possible. Allocation
  is a list of the addresses that the next calls of \<^verbatim>\<open>kmalloc\<close> return, 0 for NULL.

  \<^bold>\<open>Data structures.\<close>
  \<open>Bitmap\<close>: \<^verbatim>\<open>common/bitops.h\<close>, bitmaps as lists of words, searches are proved against the list of bits.
  \<open>ListHead\<close>: \<^verbatim>\<open>common/list.h\<close>, doubly linked rings in a heap of nodes, refined by lists.
  \<open>Radix\<close>: \<^verbatim>\<open>common/radix.c\<close>, refined by maps from keys, with failing allocations.
  \<open>SlotTable\<close>: the slot bitmaps of \<^verbatim>\<open>process/process.c\<close>.
  \<open>Memory\<close>, \<open>MemWrite\<close>: bytes at addresses; fields, and sequences of stores in closed form.
  \<open>Strings\<close>: \<^verbatim>\<open>user/lib/string.c\<close> and \<^verbatim>\<open>common/util.h\<close>.
  \<open>Printk\<close>, \<open>PrintkProps\<close>: \<^verbatim>\<open>common/printk.c\<close>: formats to characters; numbers read back.
  \<open>UserPrint\<close>: \<^verbatim>\<open>user/lib/print.c\<close>, translated on its own, and the comparison of the two.

  \<^bold>\<open>Memory management.\<close>
  \<open>Buddy\<close>, \<open>BuddyFree\<close>: \<^verbatim>\<open>mm/buddy.c\<close>; the invariant says that free lists and page flags
  describe disjoint aligned blocks; allocation, free with merging, initialisation and whole sessions.
  \<open>Slab\<close>: \<^verbatim>\<open>mm/slab.c\<close> and \<^verbatim>\<open>mm/kmalloc.c\<close>. \<open>SlabProps\<close>: the invariant of the heap (chains of free slots, pages of
  slabs, what is handed out). \<open>KmallocProps\<close>: \<^verbatim>\<open>kmalloc\<close>, \<^verbatim>\<open>kfree\<close> and sessions of both against disjoint regions of
  memory, through the locale \<open>region_allocator\<close>; a session runs on until a request finds no block that is large enough.
  \<open>PageTable\<close>: \<^verbatim>\<open>mm/page_table.c\<close>, four levels of tables in memory; mapping and unmapping against translation and
  the permissions of the last entry. The pages for tables are a list of what \<^verbatim>\<open>get_pages(0)\<close> answers; where it ends, the
  code would go on with the address of a NULL page, which is \<open>WILD\<close>.
  \<open>Vmspace\<close>: regions, memory objects and page faults (\<^verbatim>\<open>mm/vmregion.c\<close>, \<^verbatim>\<open>exception/pgfault.c\<close>), over
  page tables, radix trees and the allocator.

  \<^bold>\<open>Start.\<close>
  \<open>Boot\<close>: the page tables of \<^verbatim>\<open>boot/mmu.c\<close>, against the translation of the processor, and \<^verbatim>\<open>map_kernel_space\<close> on top of them.
  \<open>Start\<close>: \<^verbatim>\<open>mm_init\<close>, which puts the boot tables, the page pool and the slab lists together; the
  pages for \<^verbatim>\<open>map_kernel_space\<close> come from this pool and are handed out in the heap that remains.
  \<open>Smp\<close>, \<open>SmpProps\<close>: \<^verbatim>\<open>main.c\<close>, \<^verbatim>\<open>common/smp.c\<close> and the boot code as programs of four processors over the ticket lock: the
  order of the start, its completion, and who is in the kernel. An execution (\<open>smp_exec\<close>) counts the exceptions taken
  inside the kernel: with none the big lock excludes, with one it does not.
  \<open>Device\<close>: UART, timer registers, start of exception handling, stack walk.

  \<^bold>\<open>Concurrency.\<close>
  \<open>TicketLock\<close>: \<^verbatim>\<open>common/lock.c\<close> as interleaved steps of CPUs; mutual exclusion and a simulation of a FIFO queue.
  \<open>Sched\<close>: \<^verbatim>\<open>sched/sched.c\<close> and \<^verbatim>\<open>policy_rr.c\<close>; the invariant ties thread states to queues; every queued thread
  runs. The other system calls run under the big kernel lock and are modelled as atomic.

  \<^bold>\<open>Objects.\<close>
  \<open>Capability\<close>: the kernel state, and \<^verbatim>\<open>process/capability.c\<close>: slots, rings of copies, reference counts, and the
  mutual recursion of \<^verbatim>\<open>cap_free\<close>, thread and process exit. \<open>CapDepth\<close>: the recursion ends. \<open>CapRefs\<close>: the
  invariant. \<open>CapLife\<close>: \<^verbatim>\<open>cap_copy\<close>, \<^verbatim>\<open>cap_free\<close>, \<^verbatim>\<open>cap_revoke\<close> against the set of all capabilities.
  \<open>CapType\<close>: \<^verbatim>\<open>obj_get\<close> respects the types of objects.
  \<open>Process\<close>, \<open>Loader\<close>: \<^verbatim>\<open>process/process.c\<close>, \<^verbatim>\<open>thread.c\<close>, \<^verbatim>\<open>thread_env.c\<close>. \<open>Elf\<close>, \<open>Cpio\<close>: the file formats, with round trips.
  \<open>VmSyscall\<close>: \<^verbatim>\<open>mm/vm_syscall.c\<close>. \<open>Ipc\<close>: \<^verbatim>\<open>kernel/ipc\<close>. \<open>Exception\<close>: dispatch of exceptions, interrupts and system calls;
  what \<^verbatim>\<open>sys_putc\<close> and \<^verbatim>\<open>sys_debug\<close> send is collected in \<open>kconsole\<close>.
  \<open>IpcProps\<close>: call and return of IPC together, the timer interrupt, arguments that crash the kernel.

  \<^bold>\<open>User library.\<close>
  \<open>UserCall\<close>: \<^verbatim>\<open>user/lib/syscall.c\<close> on top of the kernel's system call table; each wrapper equals a handler.
  \<open>UserLib\<close>, \<open>IpcMsg\<close>: \<^verbatim>\<open>ipc.c\<close>, \<^verbatim>\<open>malloc.c\<close>, \<^verbatim>\<open>thread.c\<close>; messages refine pairs of data and capabilities.
  \<open>UserElf\<close>, \<open>UserFiles\<close>: the library's own \<^verbatim>\<open>elf.c\<close> and \<^verbatim>\<open>cpio.c\<close>, equal to the kernel's. \<open>Spawn\<close>, \<open>SpawnProps\<close>: \<^verbatim>\<open>liblauncher.c\<close> and
  \<^verbatim>\<open>spawn.c\<close>; the page that a new process starts with.

  \<^bold>\<open>Bounds.\<close> Loops over memory that another party controls have fuel. The recursion of \<^verbatim>\<open>cap_free\<close>
  has a depth; \<open>CapLife\<close> proves that a depth above the number of used slots is enough. Archives need
  one round per entry (\<open>Cpio\<close>), string functions a bound above the length of the string. Loops with a
  counter of their own recurse on it and need none.

  \<^bold>\<open>Not modelled.\<close> The change of the exception level, the switching on of the MMU and the saving of registers
  (assembly and system registers); barriers and cache maintenance; the interrupt controller, whose input is an
  argument; the text of all other messages; tests and example programs; the file server client of
  \<^verbatim>\<open>liblauncher.c\<close>, whose server is not in the repository. What the MMU shows of a mapped object to user code is a
  parameter (\<open>ue_mmu\<close>): user memory and the contents of objects are separate in the model. The objects of
  \<open>Capability\<close> take their addresses from the sequence that \<^verbatim>\<open>kmalloc\<close> returns; the heap of \<open>KmallocProps\<close> says which
  sequences these can be.
\<close>

end
